(* ===== verification/VG_Prelude.thy ===== *)
theory VG_Prelude
  imports Main "HOL-Library.Word" "HOL-Library.Monad_Syntax"
begin

text \<open>
  Shared types, fact collections and generic lemmas of the development.
  \<^item> The C types of \<^verbatim>\<open>VEX/pub/libvex_basictypes.h\<close> and
    \<^verbatim>\<open>include/pub_tool_basics.h\<close> on a 64-bit host: unsigned and signed machine words,
    bytes, sizes and addresses are \<^typ>\<open>64 word\<close>, \<^typ>\<open>32 word\<close> and so on; a signed
    word is the same type read through \<open>sint\<close>.
  \<^item> Failure: an operation that can run into a failing \<^verbatim>\<open>tl_assert\<close>/\<^verbatim>\<open>vg_assert\<close>
    or dereference a NULL pointer returns an \<open>option\<close>, \<open>None\<close> being that failure.
  \<^item> Collections \<open>wlift\<close> (from words to \<open>nat\<close>) and \<open>asserts\<close> (operations whose
    assertions hold), and generic lemmas on lists and words.
\<close>

unbundle bit_operations_syntax

type_synonym UWord = "64 word"
type_synonym Word = "64 word"
type_synonym Addr = "64 word"
type_synonym SizeT = "64 word"
type_synonym UInt = "32 word"
type_synonym UShort = "16 word"
type_synonym UChar = "8 word"

named_theorems wlift \<open>moving word arithmetic to nat\<close>
named_theorems asserts \<open>operations whose assertions hold\<close>

subsection \<open>Assertions\<close>

definition vg_assert :: "bool \<Rightarrow> unit option" where
  "vg_assert b = (if b then Some () else None)"

lemma vg_assert_bind [simp]: "(vg_assert b \<bind> f) = (if b then f () else None)"
  by (simp add: vg_assert_def)

lemma vg_assert_Some [simp]: "vg_assert b = Some u \<longleftrightarrow> b"
  by (simp add: vg_assert_def)

lemma bind_Some_iff: "(m \<bind> f) = Some y \<longleftrightarrow> (\<exists>x. m = Some x \<and> f x = Some y)"
  by (cases m) auto

subsection \<open>Words\<close>

lemma unat_less_iff [wlift]: "(a::'a::len word) < b \<longleftrightarrow> unat a < unat b"
  by (rule word_less_nat_alt)

lemma unat_le_iff [wlift]: "(a::'a::len word) \<le> b \<longleftrightarrow> unat a \<le> unat b"
  by (rule word_le_nat_alt)

lemma unat_eq_iff [wlift]: "(a::'a::len word) = b \<longleftrightarrow> unat a = unat b"
  by (simp add: word_unat_eq_iff)

lemma word_ge_1_iff [simp]: "1 \<le> (c :: 'a::len word) \<longleftrightarrow> c \<noteq> 0"
  by (metis linorder_not_less word_less_1)

text \<open>Shifting a signed word right as an unsigned one by all but one bit isolates its sign.\<close>

lemma sign_shift: "drop_bit 63 (w :: 64 word) = (if sint w < 0 then 1 else 0)"
proof -
  have "drop_bit 63 w = (if bit w 63 then 1 else 0)"
  proof (rule bit_word_eqI)
    fix n assume "n < LENGTH(64)"
    show "bit (drop_bit 63 w) n = bit (if bit w 63 then 1 else 0 :: 64 word) n"
      by (cases n) (auto simp: bit_drop_bit_eq bit_1_iff dest: bit_imp_le_length)
  qed
  moreover have "bit w 63 \<longleftrightarrow> sint w < 0"
    using bit_last_iff [of w] by simp
  ultimately show ?thesis by simp
qed

text \<open>Clearing low bits, and the words that \<^verbatim>\<open>a & mask\<close> and shifts select.\<close>

lemma and_not_mask: "(x :: 'a::len word) AND NOT (mask n) = x - take_bit n x"
proof -
  have "(x AND NOT (mask n)) AND take_bit n x = 0" by (rule bit_word_eqI) (auto simp: bit_simps)
  then have "(x AND NOT (mask n)) + take_bit n x = (x AND NOT (mask n)) OR take_bit n x"
    by (rule disjunctive_add_eq_or)
  also have "\<dots> = x" by (rule bit_word_eqI) (auto simp: bit_simps)
  finally show ?thesis by (simp add: algebra_simps)
qed

lemma unat_and_mask: "unat ((a :: 'a::len word) AND mask n) = unat a mod 2 ^ n"
  by (simp add: take_bit_eq_mask [symmetric] unsigned_take_bit_eq take_bit_nat_def)

lemma unat_and_not_mask: "unat ((a :: 'a::len word) AND NOT (mask n)) = unat a - unat a mod 2 ^ n"
proof -
  have "unat (take_bit n a) = unat a mod 2 ^ n" by (simp add: unsigned_take_bit_eq take_bit_nat_def)
  moreover have "unat (a - take_bit n a) = unat a - unat (take_bit n a)"
    by (simp add: calculation unat_sub_if_size)
  ultimately show ?thesis by (simp add: and_not_mask)
qed

subsection \<open>Lists\<close>

lemma sorted_wrt_upd:
  assumes "sorted_wrt P xs" "transp P" "i < length xs"
    and "\<And>j. j < i \<Longrightarrow> P (xs ! j) y" "\<And>j. i < j \<Longrightarrow> j < length xs \<Longrightarrow> P y (xs ! j)"
  shows "sorted_wrt P (xs[i := y])"
  using assms by (auto simp: sorted_wrt_iff_nth_less nth_list_update)

end
