(* ===== verification/DRD_VC.thy ===== *)
theory DRD_VC
  imports VG_Prelude
begin

text \<open>
  DRD's vector clocks, \<^verbatim>\<open>drd/drd_vc.c\<close> and \<^verbatim>\<open>drd/drd_vc.h\<close>. A clock is an array of pairs of a
  thread id and a count, sorted by thread id; \<open>vsize\<close> slots of it are in use and \<open>capacity\<close> are
  allocated. The block \<open>vc\<close> is the list of its slots, \<open>[]\<close> for NULL; a slot that was allocated and
  never written is \<open>None\<close>. Reading such a slot, or accessing the block out of range, is a failure of
  the operation, as a failing \<^verbatim>\<open>tl_assert\<close> is.
\<close>

type_synonym ThreadId = UInt

record VCElem =
  threadid :: ThreadId
  tcount :: UInt

record VectorClock =
  capacity :: UInt
  vsize :: UInt
  vc :: "VCElem option list"

text \<open>One slot of the block, read and written.\<close>

definition vc_at :: "VectorClock \<Rightarrow> nat \<Rightarrow> VCElem option" where
  "vc_at v i = (if i < length (vc v) then vc v ! i else None)"

definition vc_put :: "VectorClock \<Rightarrow> nat \<Rightarrow> VCElem \<Rightarrow> VectorClock option" where
  "vc_put v i e = (if i < length (vc v) then Some (v\<lparr>vc := (vc v)[i := Some e]\<rparr>) else None)"

subsection \<open>The invariant test and the allocation of the block\<close>

fun vc_check_order :: "VectorClock \<Rightarrow> nat \<Rightarrow> unit option" where
  "vc_check_order v 0 = Some ()"
| "vc_check_order v (Suc n) = do {
     vc_check_order v n;
     a \<leftarrow> vc_at v n;
     b \<leftarrow> vc_at v (Suc n);
     vg_assert (threadid a < threadid b) }"

definition vc_check :: "VectorClock \<Rightarrow> unit option" where
  "vc_check v = do {
     vg_assert (vsize v \<le> capacity v);
     vc_check_order v (unat (vsize v) - 1) }"

definition vc_reserve :: "VectorClock \<Rightarrow> UInt \<Rightarrow> VectorClock option" where
  "vc_reserve v new_capacity =
    (let v' = (if new_capacity > capacity v then
                 v\<lparr>vc := take (unat new_capacity) (vc v @ replicate (unat new_capacity) None),
                   capacity := new_capacity\<rparr>
               else v)
     in do {
       vg_assert (new_capacity = 0 \<or> vc v' \<noteq> []);
       Some v' })"

subsection \<open>Construction, destruction and assignment\<close>

text \<open>The argument \<open>vcelem\<close> is the array the elements come from, \<open>[]\<close> for NULL.\<close>

definition vc_init :: "VCElem option list \<Rightarrow> UInt \<Rightarrow> VectorClock option" where
  "vc_init vcelem sz = do {
     v \<leftarrow> vc_reserve \<lparr>capacity = 0, vsize = 0, vc = []\<rparr> sz;
     vg_assert (sz = 0 \<or> vc v \<noteq> []);
     if vcelem \<noteq> [] then do {
       vg_assert (unat sz \<le> length vcelem \<and> unat sz \<le> length (vc v));
       Some (v\<lparr>vc := take (unat sz) vcelem @ drop (unat sz) (vc v), vsize := sz\<rparr>) }
     else Some v }"

definition vc_cleanup :: "VectorClock \<Rightarrow> VectorClock option" where
  "vc_cleanup v = vc_reserve v 0"

definition vc_copy :: "VectorClock \<Rightarrow> VectorClock option" where
  "vc_copy rhs = vc_init (vc rhs) (vsize rhs)"

definition vc_assign :: "VectorClock \<Rightarrow> VectorClock \<Rightarrow> VectorClock option" where
  "vc_assign lhs rhs = do {
     vc_cleanup lhs;
     vc_copy rhs }"

subsection \<open>Comparison\<close>

text \<open>The inner loop: from slot \<open>j\<close> on, past the elements of the threads below \<open>t\<close>.\<close>

function vc_skip :: "VectorClock \<Rightarrow> ThreadId \<Rightarrow> nat \<Rightarrow> nat option" where
  "vc_skip v t j =
    (if j < unat (vsize v) then
       (case vc_at v j of
          None \<Rightarrow> None
        | Some e \<Rightarrow> if threadid e < t then vc_skip v t (j + 1) else Some j)
     else Some j)"
  by pat_completeness auto
termination
  by (relation "measure (\<lambda>(v, t, j). unat (vsize v) - j)") auto

function vc_lte_loop :: "VectorClock \<Rightarrow> VectorClock \<Rightarrow> nat \<Rightarrow> nat \<Rightarrow> bool option" where
  "vc_lte_loop vc1 vc2 i j =
    (if i < unat (vsize vc1) then
       (case vc_at vc1 i of None \<Rightarrow> None | Some e \<Rightarrow>
        (case vc_skip vc2 (threadid e) j of None \<Rightarrow> None | Some j' \<Rightarrow>
         (if j' \<ge> unat (vsize vc2) then Some False
          else (case vc_at vc2 j' of None \<Rightarrow> None | Some f \<Rightarrow>
                (if threadid f > threadid e then Some False
                 else if tcount e > tcount f then Some False
                 else vc_lte_loop vc1 vc2 (i + 1) j')))))
     else Some True)"
  by pat_completeness auto
termination
  by (relation "measure (\<lambda>(vc1, vc2, i, j). unat (vsize vc1) - i)") auto

definition vc_lte :: "VectorClock \<Rightarrow> VectorClock \<Rightarrow> bool option" where
  "vc_lte vc1 vc2 = vc_lte_loop vc1 vc2 0 0"

text \<open>The second comparison is made only when the first fails.\<close>

definition vc_ordered :: "VectorClock \<Rightarrow> VectorClock \<Rightarrow> bool option" where
  "vc_ordered vc1 vc2 = do {
     b \<leftarrow> vc_lte vc1 vc2;
     if b then Some True else vc_lte vc2 vc1 }"

subsection \<open>Elementwise maximum\<close>

function vc_shared_loop :: "VectorClock \<Rightarrow> VectorClock \<Rightarrow> nat \<Rightarrow> nat \<Rightarrow> UInt \<Rightarrow> UInt option" where
  "vc_shared_loop result rhs i j shared =
    (if i < unat (vsize result) then
       (case vc_at result i of None \<Rightarrow> None | Some e \<Rightarrow>
        (case vc_skip rhs (threadid e) j of None \<Rightarrow> None | Some j' \<Rightarrow>
         (if j' \<ge> unat (vsize rhs) then Some shared
          else (case vc_at rhs j' of None \<Rightarrow> None | Some f \<Rightarrow>
                vc_shared_loop result rhs (i + 1) j'
                  (if threadid e = threadid f then shared + 1 else shared)))))
     else Some shared)"
  by pat_completeness auto
termination
  by (relation "measure (\<lambda>(result, rhs, i, j, shared). unat (vsize result) - i)") auto

text \<open>The skip of the second loop also records in \<^verbatim>\<open>almost_equal\<close> what it passes.\<close>

function vc_combine_skip ::
  "VectorClock \<Rightarrow> ThreadId \<Rightarrow> ThreadId \<Rightarrow> nat \<Rightarrow> bool \<Rightarrow> (nat \<times> bool) option" where
  "vc_combine_skip result t tid i almost_equal =
    (if i < unat (vsize result) then
       (case vc_at result i of
          None \<Rightarrow> None
        | Some e \<Rightarrow>
            if threadid e < t
            then vc_combine_skip result t tid (i + 1) (almost_equal \<and> threadid e = tid)
            else Some (i, almost_equal))
     else Some (i, almost_equal))"
  by pat_completeness auto
termination
  by (relation "measure (\<lambda>(result, t, tid, i, ae). unat (vsize result) - i)") auto

text \<open>\<^verbatim>\<open>for (k = result->size; k > i; k--) result->vc[k] = result->vc[k - 1]\<close>, with \<open>n = k - i\<close>.\<close>

fun vc_shift :: "VectorClock \<Rightarrow> nat \<Rightarrow> nat \<Rightarrow> VectorClock option" where
  "vc_shift v i 0 = Some v"
| "vc_shift v i (Suc n) = do {
     e \<leftarrow> vc_at v (i + n);
     v' \<leftarrow> vc_put v (i + Suc n) e;
     vc_shift v' i n }"

text \<open>One step of the second loop, for the element \<open>f\<close> of the right-hand side.\<close>

definition vc_combine_step ::
  "ThreadId \<Rightarrow> VCElem \<Rightarrow> VectorClock \<times> nat \<times> bool \<Rightarrow> (VectorClock \<times> nat \<times> bool) option" where
  "vc_combine_step tid f st = (case st of (result, i0, ae0) \<Rightarrow> do {
     (i, ae) \<leftarrow> vc_combine_skip result (threadid f) tid i0 ae0;
     if i \<ge> unat (vsize result) then do {
       result' \<leftarrow> vc_put (result\<lparr>vsize := vsize result + 1\<rparr>) i f;
       Some (result', i, ae \<and> threadid f = tid) }
     else do {
       e \<leftarrow> vc_at result i;
       if threadid e > threadid f then do {
         shifted \<leftarrow> vc_shift result i (unat (vsize result) - i);
         result' \<leftarrow> vc_put (shifted\<lparr>vsize := vsize shifted + 1\<rparr>) i f;
         Some (result', i, ae \<and> threadid f = tid) }
       else do {
         vg_assert (threadid e = threadid f);
         result' \<leftarrow> (if tcount f > tcount e
                     then vc_put result i (e\<lparr>tcount := tcount f\<rparr>) else Some result);
         Some (result', i, ae \<and> (threadid e = tid \<or> tcount f = tcount e)) } } })"

function vc_combine_loop ::
  "VectorClock \<Rightarrow> ThreadId \<Rightarrow> nat \<Rightarrow> VectorClock \<times> nat \<times> bool \<Rightarrow> (VectorClock \<times> nat \<times> bool) option" where
  "vc_combine_loop rhs tid j st =
    (if j < unat (vsize rhs) then
       (case vc_at rhs j of None \<Rightarrow> None | Some f \<Rightarrow>
        (case vc_combine_step tid f st of None \<Rightarrow> None | Some st' \<Rightarrow>
         vc_combine_loop rhs tid (j + 1) st'))
     else Some st)"
  by pat_completeness auto
termination
  by (relation "measure (\<lambda>(rhs, tid, j, st). unat (vsize rhs) - j)") auto

definition vc_combine2 ::
  "VectorClock \<Rightarrow> VectorClock \<Rightarrow> ThreadId \<Rightarrow> (VectorClock \<times> bool) option" where
  "vc_combine2 result rhs tid = do {
     shared \<leftarrow> vc_shared_loop result rhs 0 0 0;
     vc_check result;
     let new_size = vsize result + vsize rhs - shared;
     result \<leftarrow> (if new_size > capacity result then vc_reserve result new_size else Some result);
     vc_check result;
     (result, i, almost_equal) \<leftarrow> vc_combine_loop rhs tid 0 (result, 0, True);
     vc_check result;
     vg_assert (vsize result = new_size);
     Some (result, almost_equal) }"

definition vc_combine :: "VectorClock \<Rightarrow> VectorClock \<Rightarrow> VectorClock option" where
  "vc_combine result rhs = map_option fst (vc_combine2 result rhs (- 1))"

subsection \<open>Increment\<close>

text \<open>The slot of a thread, if it has one.\<close>

function vc_find :: "VectorClock \<Rightarrow> ThreadId \<Rightarrow> nat \<Rightarrow> nat option option" where
  "vc_find v t i =
    (if i < unat (vsize v) then
       (case vc_at v i of
          None \<Rightarrow> None
        | Some e \<Rightarrow> if threadid e = t then Some (Some i) else vc_find v t (i + 1))
     else Some None)"
  by pat_completeness auto
termination
  by (relation "measure (\<lambda>(v, t, i). unat (vsize v) - i)") auto

definition vc_increment :: "VectorClock \<Rightarrow> ThreadId \<Rightarrow> VectorClock option" where
  "vc_increment v t = do {
     slot \<leftarrow> vc_find v t 0;
     case slot of
       Some i \<Rightarrow> do {
         e \<leftarrow> vc_at v i;
         v' \<leftarrow> vc_put v i (e\<lparr>tcount := tcount e + 1\<rparr>);
         vg_assert (tcount e < tcount e + 1);
         Some v' }
     | None \<Rightarrow> do {
         vc2 \<leftarrow> vc_init [Some \<lparr>threadid = t, tcount = 1\<rparr>] 1;
         v' \<leftarrow> vc_combine v vc2;
         vc_cleanup vc2;
         Some v' } }"

subsection \<open>Elementwise minimum\<close>

text \<open>The skip clears the counts of the threads that the right-hand side lacks.\<close>

function vc_min_skip :: "VectorClock \<Rightarrow> ThreadId \<Rightarrow> nat \<Rightarrow> (VectorClock \<times> nat) option" where
  "vc_min_skip result t i =
    (if i < unat (vsize result) then
       (case vc_at result i of
          None \<Rightarrow> None
        | Some e \<Rightarrow>
            if threadid e < t
            then (case vc_put result i (e\<lparr>tcount := 0\<rparr>) of
                    None \<Rightarrow> None | Some result' \<Rightarrow> vc_min_skip result' t (i + 1))
            else Some (result, i))
     else Some (result, i))"
  by pat_completeness auto
termination
  by (relation "measure (\<lambda>(result, t, i). unat (vsize result) - i)")
    (auto simp: vc_put_def split: if_splits)

function vc_min_loop :: "VectorClock \<Rightarrow> nat \<Rightarrow> VectorClock \<Rightarrow> nat \<Rightarrow> VectorClock option" where
  "vc_min_loop rhs j result i0 =
    (if j < unat (vsize rhs) then
       (case vc_at rhs j of None \<Rightarrow> None | Some f \<Rightarrow>
        (case vc_min_skip result (threadid f) i0 of None \<Rightarrow> None | Some (result, i) \<Rightarrow>
         (if i \<ge> unat (vsize result) then Some result
          else (case vc_at result i of None \<Rightarrow> None | Some e \<Rightarrow>
                (if threadid e \<le> threadid f then
                   (if threadid e = threadid f then
                      (case (if tcount f < tcount e then vc_put result i (e\<lparr>tcount := tcount f\<rparr>)
                             else Some result) of
                         None \<Rightarrow> None
                       | Some result' \<Rightarrow> vc_min_loop rhs (j + 1) result' i)
                    else None)
                 else vc_min_loop rhs (j + 1) result i)))))
     else Some result)"
  by pat_completeness auto
termination
  by (relation "measure (\<lambda>(rhs, j, result, i). unat (vsize rhs) - j)") auto

definition vc_min :: "VectorClock \<Rightarrow> VectorClock \<Rightarrow> VectorClock option" where
  "vc_min result rhs = do {
     vc_check result;
     result' \<leftarrow> vc_min_loop rhs 0 result 0;
     vc_check result';
     Some result' }"

subsection \<open>The clocks of all threads\<close>

text \<open>
  \<^verbatim>\<open>thread_compute_minimum_vc\<close> and \<^verbatim>\<open>thread_compute_maximum_vc\<close> of \<^verbatim>\<open>drd/drd_thread.c\<close>: one
  entry per thread, the clock of its latest segment if it has one. The first clock is assigned, the
  others are folded in with the given operation.
\<close>

fun thread_fold_vc ::
  "('c \<Rightarrow> 'c \<Rightarrow> 'c option) \<Rightarrow> ('c \<Rightarrow> 'c \<Rightarrow> 'c option) \<Rightarrow> 'c option list \<Rightarrow> bool \<Rightarrow> 'c \<Rightarrow> 'c option" where
  "thread_fold_vc assign op [] first v = Some v"
| "thread_fold_vc assign op (None # ls) first v = thread_fold_vc assign op ls first v"
| "thread_fold_vc assign op (Some l # ls) first v = do {
     v' \<leftarrow> (if first then assign v l else op v l);
     thread_fold_vc assign op ls False v' }"

definition thread_compute_minimum_vc ::
  "VectorClock option list \<Rightarrow> VectorClock \<Rightarrow> VectorClock option" where
  "thread_compute_minimum_vc lasts v = thread_fold_vc vc_assign vc_min lasts True v"

definition thread_compute_maximum_vc ::
  "VectorClock option list \<Rightarrow> VectorClock \<Rightarrow> VectorClock option" where
  "thread_compute_maximum_vc lasts v = thread_fold_vc vc_assign vc_combine lasts True v"

end
