(* ===== verification/DRD_Bitmap.thy ===== *)
theory DRD_Bitmap
  imports VG_Prelude
begin

text \<open>
  DRD's access bitmaps, \<^verbatim>\<open>drd/drd_bitmap.h\<close>, \<^verbatim>\<open>drd/pub_drd_bitmap.h\<close> and \<^verbatim>\<open>drd/drd_bitmap.c\<close>,
  on a 64 bit host. A bitmap records for each address whether it was read and whether it was
  written. It is an ordered set of references, keyed by the upper bits of the address, to second
  level bitmaps; these live in a store, are shared between bitmaps and counted. Lookups go through a
  cache of four entries.
  \<^item> A pointer to a second level bitmap is a number of the store \<open>bm2s\<close>; NULL is \<open>None\<close>. Blocks are
    never given out twice, and access to a freed one is a failure.
  \<^item> The \<^verbatim>\<open>OSet\<close> of a bitmap is the list of its nodes in key order, which is what its documentation in
    \<^verbatim>\<open>include/pub_tool_oset.h\<close> promises of lookup, insertion and iteration.
  \<^item> The counters of created objects are statistics and are left out, as are the consistency checks
    that are not compiled in.
\<close>

subsection \<open>Addresses\<close>

definition ADDR0_BITS :: nat where "ADDR0_BITS = 14"

definition ADDR0_COUNT :: UWord where "ADDR0_COUNT = push_bit 14 1"

definition ADDR0_MASK :: UWord where "ADDR0_MASK = ADDR0_COUNT - 1"

definition MAKE_ADDRESS :: "UWord \<Rightarrow> UWord \<Rightarrow> Addr" where
  "MAKE_ADDRESS a1 a0 = push_bit 14 a1 OR a0"

definition BITS_PER_UWORD :: UWord where "BITS_PER_UWORD = 64"

definition BITMAP1_UWORD_COUNT :: nat where "BITMAP1_UWORD_COUNT = 256"

definition UWORD_MSB :: "Addr \<Rightarrow> Addr" where
  "UWORD_MSB a = a AND NOT (BITS_PER_UWORD - 1)"

definition UWORD_LSB :: "Addr \<Rightarrow> UWord" where
  "UWORD_LSB a = a AND (BITS_PER_UWORD - 1)"

subsection \<open>Arrays of bits\<close>

definition bm0_mask :: "Addr \<Rightarrow> UWord" where
  "bm0_mask a = push_bit (unat (UWORD_LSB a)) 1"

definition bm0_index :: "Addr \<Rightarrow> nat" where
  "bm0_index a = unat (drop_bit 6 a)"

definition bm0_set :: "UWord list \<Rightarrow> Addr \<Rightarrow> UWord list" where
  "bm0_set bm0 a = bm0[bm0_index a := bm0 ! bm0_index a OR push_bit (unat (UWORD_LSB a)) 1]"

definition bm0_set_range :: "UWord list \<Rightarrow> Addr \<Rightarrow> SizeT \<Rightarrow> UWord list" where
  "bm0_set_range bm0 a1 sz = bm0[bm0_index a1 := bm0 ! bm0_index a1
     OR push_bit (unat (UWORD_LSB a1)) (push_bit (unat sz) 1 - 1)]"

definition bm0_clear :: "UWord list \<Rightarrow> Addr \<Rightarrow> UWord list" where
  "bm0_clear bm0 a = bm0[bm0_index a := bm0 ! bm0_index a AND NOT (push_bit (unat (UWORD_LSB a)) 1)]"

text \<open>The complement binds tighter than the shift in \<^verbatim>\<open>~(((UWord)1 << size) - 1) << UWORD_LSB(a1)\<close>.\<close>

definition bm0_clear_range :: "UWord list \<Rightarrow> Addr \<Rightarrow> SizeT \<Rightarrow> UWord list" where
  "bm0_clear_range bm0 a1 sz = bm0[bm0_index a1 := bm0 ! bm0_index a1
     AND push_bit (unat (UWORD_LSB a1)) (NOT (push_bit (unat sz) 1 - 1))]"

definition bm0_is_set :: "UWord list \<Rightarrow> Addr \<Rightarrow> UWord" where
  "bm0_is_set bm0 a = bm0 ! bm0_index a AND push_bit (unat (UWORD_LSB a)) 1"

definition bm0_is_any_set :: "UWord list \<Rightarrow> Addr \<Rightarrow> SizeT \<Rightarrow> UWord" where
  "bm0_is_any_set bm0 a1 sz =
     bm0 ! bm0_index a1 AND push_bit (unat (UWORD_LSB a1)) (push_bit (unat sz) 1 - 1)"

subsection \<open>Second level bitmaps and bitmaps\<close>

type_synonym bm2ptr = nat

record bitmap1 =
  bm0_r :: "UWord list"
  bm0_w :: "UWord list"

record bitmap2 =
  addr :: UWord
  refcnt :: int
  bm1 :: bitmap1

record bm_heap =
  bm2s :: "bm2ptr \<rightharpoonup> bitmap2"
  next_bm2 :: bm2ptr

record bm_cache_elem =
  ca1 :: UWord
  cbm2 :: "bm2ptr option"

record bitmap =
  cache :: "bm_cache_elem list"
  oset :: "(UWord \<times> bm2ptr) list"

definition N_CACHE_ELEM :: nat where "N_CACHE_ELEM = 4"

datatype BmAccessTypeT = eLoad | eStore | eStart | eEnd

text \<open>The contract of the ordered set: lookup by key, insertion in key order, replacing the
  pointer of a node.\<close>

abbreviation OSetGen_Lookup :: "(UWord \<times> bm2ptr) list \<Rightarrow> UWord \<Rightarrow> bm2ptr option" where
  "OSetGen_Lookup os k \<equiv> map_of os k"

definition OSetGen_InsertRef :: "UWord \<Rightarrow> bm2ptr \<Rightarrow> (UWord \<times> bm2ptr) list \<Rightarrow> (UWord \<times> bm2ptr) list" where
  "OSetGen_InsertRef k p os = takeWhile (\<lambda>n. fst n < k) os @ (k, p) # dropWhile (\<lambda>n. fst n < k) os"

definition OSetGen_SetRef :: "UWord \<Rightarrow> bm2ptr \<Rightarrow> (UWord \<times> bm2ptr) list \<Rightarrow> (UWord \<times> bm2ptr) list" where
  "OSetGen_SetRef k p os = map (\<lambda>n. if fst n = k then (k, p) else n) os"

subsection \<open>The cache\<close>

text \<open>The unrolled comparisons with the entries 0 to 3; \<^verbatim>\<open>bm_cache_rotate\<close> has an empty body. The
  result is the pointer in the first entry that matches, if any entry does.\<close>

fun bm_cache_lookup :: "bm_cache_elem list \<Rightarrow> UWord \<Rightarrow> bm2ptr option option" where
  "bm_cache_lookup [] k = None"
| "bm_cache_lookup (e # es) k = (if k = ca1 e then Some (cbm2 e) else bm_cache_lookup es k)"

definition bm_update_cache :: "bitmap \<Rightarrow> UWord \<Rightarrow> bm2ptr option \<Rightarrow> bitmap" where
  "bm_update_cache bm k p = bm\<lparr>cache :=
     \<lparr>ca1 = k, cbm2 = p\<rparr> # take (N_CACHE_ELEM - 1) (cache bm)\<rparr>"

subsection \<open>Finding second level bitmaps\<close>

definition zero_bm1 :: bitmap1 where
  "zero_bm1 = \<lparr>bm0_r = replicate BITMAP1_UWORD_COUNT 0, bm0_w = replicate BITMAP1_UWORD_COUNT 0\<rparr>"

text \<open>Allocation; the contents are the argument, since every caller fills them in at once.\<close>

definition bm2_new :: "bm_heap \<Rightarrow> UWord \<Rightarrow> bitmap1 \<Rightarrow> bm_heap \<times> bm2ptr" where
  "bm2_new h k contents =
    (h\<lparr>bm2s := (bm2s h)(next_bm2 h \<mapsto> \<lparr>addr = k, refcnt = 1, bm1 = contents\<rparr>),
       next_bm2 := next_bm2 h + 1\<rparr>, next_bm2 h)"

definition bm2_lookup :: "bitmap \<Rightarrow> UWord \<Rightarrow> bitmap \<times> bm2ptr option" where
  "bm2_lookup bm k = (case bm_cache_lookup (cache bm) k of
     Some p \<Rightarrow> (bm, p)
   | None \<Rightarrow> (let p = OSetGen_Lookup (oset bm) k in (bm_update_cache bm k p, p)))"

definition bm2_make_exclusive :: "bm_heap \<Rightarrow> bitmap \<Rightarrow> UWord \<Rightarrow> (bm_heap \<times> bitmap \<times> bm2ptr) option" where
  "bm2_make_exclusive h bm node = do {
     p \<leftarrow> OSetGen_Lookup (oset bm) node;
     b \<leftarrow> bm2s h p;
     vg_assert (refcnt b > 1);
     let b = b\<lparr>refcnt := refcnt b - 1\<rparr>;
     vg_assert (refcnt b \<ge> 1);
     let (h, p') = bm2_new (h\<lparr>bm2s := (bm2s h)(p \<mapsto> b)\<rparr>) (addr b) (bm1 b);
     let bm = bm\<lparr>oset := OSetGen_SetRef node p' (oset bm)\<rparr>;
     Some (h, bm_update_cache bm (addr b) (Some p'), p') }"

definition bm2_lookup_exclusive ::
  "bm_heap \<Rightarrow> bitmap \<Rightarrow> UWord \<Rightarrow> (bm_heap \<times> bitmap \<times> bm2ptr option) option" where
  "bm2_lookup_exclusive h bm k =
    (case (case bm_cache_lookup (cache bm) k of Some p \<Rightarrow> p | None \<Rightarrow> OSetGen_Lookup (oset bm) k) of
       None \<Rightarrow> Some (h, bm, None)
     | Some p \<Rightarrow> do {
         b \<leftarrow> bm2s h p;
         if refcnt b > 1 then do {
           (h, bm, p') \<leftarrow> bm2_make_exclusive h bm k;
           Some (h, bm, Some p') }
         else Some (h, bm, Some p) })"

definition bm2_insert :: "bm_heap \<Rightarrow> bitmap \<Rightarrow> UWord \<Rightarrow> bm_heap \<times> bitmap \<times> bm2ptr" where
  "bm2_insert h bm k =
    (let (h, p) = bm2_new h k zero_bm1;
         bm = bm\<lparr>oset := OSetGen_InsertRef k p (oset bm)\<rparr>
     in (h, bm_update_cache bm k (Some p), p))"

definition bm2_insert_addref ::
  "bm_heap \<Rightarrow> bitmap \<Rightarrow> bm2ptr \<Rightarrow> (bm_heap \<times> bitmap) option" where
  "bm2_insert_addref h bm p = do {
     b \<leftarrow> bm2s h p;
     let h = h\<lparr>bm2s := (bm2s h)(p \<mapsto> b\<lparr>refcnt := refcnt b + 1\<rparr>)\<rparr>;
     let bm = bm\<lparr>oset := OSetGen_InsertRef (addr b) p (oset bm)\<rparr>;
     Some (h, bm_update_cache bm (addr b) (Some p)) }"

definition bm2_lookup_or_insert :: "bm_heap \<Rightarrow> bitmap \<Rightarrow> UWord \<Rightarrow> bm_heap \<times> bitmap \<times> bm2ptr" where
  "bm2_lookup_or_insert h bm k = (case bm_cache_lookup (cache bm) k of
     Some (Some p) \<Rightarrow> (h, bm, p)
   | Some None \<Rightarrow> bm2_insert h bm k
   | None \<Rightarrow>
       (let (h, bm, p) = (case OSetGen_Lookup (oset bm) k of
              Some p \<Rightarrow> (h, bm, p) | None \<Rightarrow> bm2_insert h bm k)
        in (h, bm_update_cache bm k (Some p), p)))"

definition bm2_lookup_or_insert_exclusive ::
  "bm_heap \<Rightarrow> bitmap \<Rightarrow> UWord \<Rightarrow> (bm_heap \<times> bitmap \<times> bm2ptr) option" where
  "bm2_lookup_or_insert_exclusive h bm k =
    (let (h, bm, p) = bm2_lookup_or_insert h bm k
     in do {
       b \<leftarrow> bm2s h p;
       if refcnt b > 1 then bm2_make_exclusive h bm k else Some (h, bm, p) })"

text \<open>Writing through a pointer to a second level bitmap.\<close>

definition bm2_write :: "bm_heap \<Rightarrow> bm2ptr \<Rightarrow> (bitmap1 \<Rightarrow> bitmap1) \<Rightarrow> bm_heap option" where
  "bm2_write h p f = do {
     b \<leftarrow> bm2s h p;
     Some (h\<lparr>bm2s := (bm2s h)(p \<mapsto> b\<lparr>bm1 := f (bm1 b)\<rparr>)\<rparr>) }"

subsection \<open>Creation and deletion\<close>

definition bm_new :: bitmap where
  "bm_new = \<lparr>cache = replicate N_CACHE_ELEM \<lparr>ca1 = NOT 1, cbm2 = None\<rparr>, oset = []\<rparr>"

fun bm_delete_loop :: "bm_heap \<Rightarrow> (UWord \<times> bm2ptr) list \<Rightarrow> bm_heap option" where
  "bm_delete_loop h [] = Some h"
| "bm_delete_loop h ((k, p) # os) = do {
     b \<leftarrow> bm2s h p;
     vg_assert (refcnt b \<ge> 1);
     let b = b\<lparr>refcnt := refcnt b - 1\<rparr>;
     bm_delete_loop (h\<lparr>bm2s := (bm2s h)(p := (if refcnt b = 0 then None else Some b))\<rparr>) os }"

definition bm_delete :: "bm_heap \<Rightarrow> bitmap \<Rightarrow> bm_heap option" where
  "bm_delete h bm = bm_delete_loop h (oset bm)"

subsection \<open>Loops over a range\<close>

text \<open>
  The loop over the parts of \<open>[a1, a2[\<close> that share a second level bitmap: \<open>body\<close> gets the start of
  the part and the start of the next one, and says whether to leave the loop, with which result.
  Near the top of the address space the start of the next part wraps around, so the loop need not end.
\<close>

partial_function (option) bm_range_loop ::
  "(Addr \<Rightarrow> Addr \<Rightarrow> 's \<Rightarrow> ('s \<times> 'r option) option) \<Rightarrow> Addr \<Rightarrow> Addr \<Rightarrow> 's \<Rightarrow> ('s \<times> 'r option) option" where
  "bm_range_loop body a2 b s =
    (if b < a2 then
       (let next = (b AND NOT ADDR0_MASK) + ADDR0_COUNT;
            b_next = (if next > a2 then a2 else next)
        in do {
          (s, r) \<leftarrow> body b b_next s;
          (case r of Some res \<Rightarrow> Some (s, Some res) | None \<Rightarrow> bm_range_loop body a2 b_next s) })
     else Some (s, None))"

text \<open>The part of \<open>[a1, a2[\<close> that a second level bitmap covers, with the assertions made about it;
  \<open>None\<close> inside when the bitmap starts at or after \<open>a2\<close>, which leaves the loop.\<close>

definition bm2_part :: "UWord \<Rightarrow> Addr \<Rightarrow> Addr \<Rightarrow> (Addr \<times> Addr) option option" where
  "bm2_part k a1 a2 =
    (let base = push_bit ADDR0_BITS k in
     if \<not> base < a1 \<and> \<not> base < a2 then Some None
     else
       (let b_start = (if base < a1 then a1 else base);
            b_end = (if base + ADDR0_COUNT < a2 then base + ADDR0_COUNT else a2)
        in do {
          vg_assert (a1 \<le> b_start \<and> b_start \<le> a2);
          vg_assert (a1 \<le> b_end \<and> b_end \<le> a2);
          vg_assert (b_start < b_end);
          vg_assert ((b_start AND ADDR0_MASK) \<le> ((b_end - 1) AND ADDR0_MASK));
          Some (Some (b_start AND ADDR0_MASK, (b_end - 1) AND ADDR0_MASK)) }))"

text \<open>The offsets \<open>lo, \<dots>, hi\<close>.\<close>

definition offsets :: "Addr \<Rightarrow> Addr \<Rightarrow> Addr list" where
  "offsets lo hi = map of_nat [unat lo ..< Suc (unat hi)]"

subsection \<open>Recording accesses\<close>

definition bm1_modify :: "BmAccessTypeT \<Rightarrow> (UWord list \<Rightarrow> UWord list) \<Rightarrow> bitmap1 \<Rightarrow> bitmap1" where
  "bm1_modify t f p1 = (if t = eLoad then p1\<lparr>bm0_r := f (bm0_r p1)\<rparr> else p1\<lparr>bm0_w := f (bm0_w p1)\<rparr>)"

definition bm_access_part ::
  "Addr \<Rightarrow> Addr \<Rightarrow> BmAccessTypeT \<Rightarrow> Addr \<Rightarrow> Addr \<Rightarrow> bm_heap \<times> bitmap
    \<Rightarrow> ((bm_heap \<times> bitmap) \<times> unit option) option" where
  "bm_access_part a1 a2 t b b_next st = (case st of (h, bm) \<Rightarrow> do {
     (h, bm, p) \<leftarrow> bm2_lookup_or_insert_exclusive h bm (drop_bit ADDR0_BITS b);
     b2 \<leftarrow> bm2s h p;
     part \<leftarrow> bm2_part (addr b2) a1 a2;
     (case part of
        None \<Rightarrow> Some ((h, bm), Some ())
      | Some (lo, hi) \<Rightarrow> do {
          h \<leftarrow> bm2_write h p (bm1_modify t (\<lambda>bm0. fold (\<lambda>b0 bm0. bm0_set bm0 b0) (offsets lo hi) bm0));
          Some ((h, bm), None) }) })"

definition bm_access_range ::
  "bm_heap \<Rightarrow> bitmap \<Rightarrow> Addr \<Rightarrow> Addr \<Rightarrow> BmAccessTypeT \<Rightarrow> (bm_heap \<times> bitmap) option" where
  "bm_access_range h bm a1 a2 t = do {
     vg_assert (a1 < a2);
     vg_assert (a2 + ADDR0_COUNT > a2);
     (st, r) \<leftarrow> bm_range_loop (bm_access_part a1 a2 t) a2 a1 (h, bm);
     Some st }"

definition bm_access_aligned ::
  "BmAccessTypeT \<Rightarrow> bm_heap \<Rightarrow> bitmap \<Rightarrow> Addr \<Rightarrow> SizeT \<Rightarrow> (bm_heap \<times> bitmap) option" where
  "bm_access_aligned t h bm a1 sz = do {
     (h, bm, p) \<leftarrow> bm2_lookup_or_insert_exclusive h bm (drop_bit ADDR0_BITS a1);
     h \<leftarrow> bm2_write h p (bm1_modify t (\<lambda>bm0. bm0_set_range bm0 (a1 AND ADDR0_MASK) sz));
     Some (h, bm) }"

abbreviation bm_access_aligned_load :: "bm_heap \<Rightarrow> bitmap \<Rightarrow> Addr \<Rightarrow> SizeT \<Rightarrow> (bm_heap \<times> bitmap) option" where
  "bm_access_aligned_load \<equiv> bm_access_aligned eLoad"

abbreviation bm_access_aligned_store :: "bm_heap \<Rightarrow> bitmap \<Rightarrow> Addr \<Rightarrow> SizeT \<Rightarrow> (bm_heap \<times> bitmap) option" where
  "bm_access_aligned_store \<equiv> bm_access_aligned eStore"

definition bm_access_1 :: "BmAccessTypeT \<Rightarrow> bm_heap \<Rightarrow> bitmap \<Rightarrow> Addr \<Rightarrow> (bm_heap \<times> bitmap) option" where
  "bm_access_1 t h bm a1 = bm_access_aligned t h bm a1 1"

definition bm_access_2 :: "BmAccessTypeT \<Rightarrow> bm_heap \<Rightarrow> bitmap \<Rightarrow> Addr \<Rightarrow> (bm_heap \<times> bitmap) option" where
  "bm_access_2 t h bm a1 =
    (if a1 AND 1 = 0 then bm_access_aligned t h bm a1 2 else bm_access_range h bm a1 (a1 + 2) t)"

definition bm_access_4 :: "BmAccessTypeT \<Rightarrow> bm_heap \<Rightarrow> bitmap \<Rightarrow> Addr \<Rightarrow> (bm_heap \<times> bitmap) option" where
  "bm_access_4 t h bm a1 =
    (if a1 AND 3 = 0 then bm_access_aligned t h bm a1 4 else bm_access_range h bm a1 (a1 + 4) t)"

definition bm_access_8 :: "BmAccessTypeT \<Rightarrow> bm_heap \<Rightarrow> bitmap \<Rightarrow> Addr \<Rightarrow> (bm_heap \<times> bitmap) option" where
  "bm_access_8 t h bm a1 =
    (if a1 AND 7 = 0 then bm_access_aligned t h bm a1 8
     else if a1 AND 3 = 0 then do {
       (h, bm) \<leftarrow> bm_access_aligned t h bm (a1 + 0) 4;
       bm_access_aligned t h bm (a1 + 4) 4 }
     else bm_access_range h bm a1 (a1 + 8) t)"

subsection \<open>Queries\<close>

definition bm_has_1 :: "bm_heap \<Rightarrow> bitmap \<Rightarrow> Addr \<Rightarrow> BmAccessTypeT \<Rightarrow> (bitmap \<times> bool) option" where
  "bm_has_1 h bm a t =
    (let (bm, p) = bm2_lookup bm (drop_bit ADDR0_BITS a) in
     case p of
       None \<Rightarrow> Some (bm, False)
     | Some p \<Rightarrow> do {
         p2 \<leftarrow> bm2s h p;
         let p0 = (if t = eLoad then bm0_r (bm1 p2) else bm0_w (bm1 p2));
         Some (bm, bm0_is_set p0 (a AND ADDR0_MASK) \<noteq> 0) })"

function bm_has :: "bm_heap \<Rightarrow> bitmap \<Rightarrow> Addr \<Rightarrow> Addr \<Rightarrow> BmAccessTypeT \<Rightarrow> (bitmap \<times> bool) option" where
  "bm_has h bm b a2 t =
    (if b < a2 then
       (case bm_has_1 h bm b t of
          None \<Rightarrow> None
        | Some (bm, r) \<Rightarrow> if r then bm_has h bm (b + 1) a2 t else Some (bm, False))
     else Some (bm, True))"
  by pat_completeness auto
termination
proof (relation "measure (\<lambda>(h, bm, b, a2, t). unat (a2 - b))")
  fix b a2 :: Addr assume "b < a2"
  then have "a2 - b \<noteq> 0" by auto
  then have "unat (a2 - b - 1) < unat (a2 - b)"
    by (metis unat_minus_one diff_less unat_gt_0 zero_less_one)
  then show "((h, x, b + 1, a2, t), h, bm, b, a2, t) \<in> measure (\<lambda>(h, bm, b, a2, t). unat (a2 - b))"
    for h :: bm_heap and x bm :: bitmap and t :: BmAccessTypeT by (simp add: algebra_simps)
qed auto

text \<open>The common shape of \<^verbatim>\<open>bm_has_any_load\<close>, \<^verbatim>\<open>bm_has_any_store\<close>, \<^verbatim>\<open>bm_has_any_access\<close> and
  \<^verbatim>\<open>bm_has_conflict_with\<close>, which differ in the test made at each offset; \<open>chk\<close> is what the latter
  asserts before its test.\<close>

definition bm_any_part ::
  "bool \<Rightarrow> (bitmap1 \<Rightarrow> Addr \<Rightarrow> bool) \<Rightarrow> bm_heap \<Rightarrow> Addr \<Rightarrow> Addr \<Rightarrow> Addr \<Rightarrow> Addr \<Rightarrow> bitmap
    \<Rightarrow> (bitmap \<times> bool option) option" where
  "bm_any_part chk test h a1 a2 b b_next bm =
    (let (bm, p) = bm2_lookup bm (drop_bit ADDR0_BITS b) in
     case p of
       None \<Rightarrow> Some (bm, None)
     | Some p \<Rightarrow> do {
         b2 \<leftarrow> bm2s h p;
         part \<leftarrow> bm2_part (addr b2) a1 a2;
         (case part of
            None \<Rightarrow> Some (bm, Some False)
          | Some (lo, hi) \<Rightarrow> do {
              vg_assert chk;
              if list_ex (test (bm1 b2)) (offsets lo hi) then Some (bm, Some True)
              else Some (bm, None) }) })"

definition bm_has_any ::
  "bool \<Rightarrow> (bitmap1 \<Rightarrow> Addr \<Rightarrow> bool) \<Rightarrow> bm_heap \<Rightarrow> bitmap \<Rightarrow> Addr \<Rightarrow> Addr
    \<Rightarrow> (bitmap \<times> bool) option" where
  "bm_has_any chk test h bm a1 a2 = do {
     (bm, r) \<leftarrow> bm_range_loop (bm_any_part chk test h a1 a2) a2 a1 bm;
     Some (bm, r = Some True) }"

definition bm_has_any_load :: "bm_heap \<Rightarrow> bitmap \<Rightarrow> Addr \<Rightarrow> Addr \<Rightarrow> (bitmap \<times> bool) option" where
  "bm_has_any_load = bm_has_any True (\<lambda>p1 b0. bm0_is_set (bm0_r p1) b0 \<noteq> 0)"

definition bm_has_any_store :: "bm_heap \<Rightarrow> bitmap \<Rightarrow> Addr \<Rightarrow> Addr \<Rightarrow> (bitmap \<times> bool) option" where
  "bm_has_any_store = bm_has_any True (\<lambda>p1 b0. bm0_is_set (bm0_w p1) b0 \<noteq> 0)"

definition bm_has_any_access :: "bm_heap \<Rightarrow> bitmap \<Rightarrow> Addr \<Rightarrow> Addr \<Rightarrow> (bitmap \<times> bool) option" where
  "bm_has_any_access =
     bm_has_any True (\<lambda>p1 b0. bm0_is_set (bm0_r p1) b0 OR bm0_is_set (bm0_w p1) b0 \<noteq> 0)"

definition bm_has_conflict_with ::
  "BmAccessTypeT \<Rightarrow> bm_heap \<Rightarrow> bitmap \<Rightarrow> Addr \<Rightarrow> Addr \<Rightarrow> (bitmap \<times> bool) option" where
  "bm_has_conflict_with t = bm_has_any (t = eLoad \<or> t = eStore) (\<lambda>p1 b0.
     if t = eLoad then bm0_is_set (bm0_w p1) b0 \<noteq> 0
     else bm0_is_set (bm0_r p1) b0 OR bm0_is_set (bm0_w p1) b0 \<noteq> 0)"

definition bm_aligned_load_has_conflict_with ::
  "bm_heap \<Rightarrow> bitmap \<Rightarrow> Addr \<Rightarrow> SizeT \<Rightarrow> (bitmap \<times> bool) option" where
  "bm_aligned_load_has_conflict_with h bm a1 sz =
    (let (bm, p) = bm2_lookup bm (drop_bit ADDR0_BITS a1) in
     case p of
       None \<Rightarrow> Some (bm, False)
     | Some p \<Rightarrow> do {
         b2 \<leftarrow> bm2s h p;
         Some (bm, bm0_is_any_set (bm0_w (bm1 b2)) (a1 AND ADDR0_MASK) sz \<noteq> 0) })"

definition bm_aligned_store_has_conflict_with ::
  "bm_heap \<Rightarrow> bitmap \<Rightarrow> Addr \<Rightarrow> SizeT \<Rightarrow> (bitmap \<times> bool) option" where
  "bm_aligned_store_has_conflict_with h bm a1 sz =
    (let (bm, p) = bm2_lookup bm (drop_bit ADDR0_BITS a1) in
     case p of
       None \<Rightarrow> Some (bm, False)
     | Some p \<Rightarrow> do {
         b2 \<leftarrow> bm2s h p;
         Some (bm, bm0_is_any_set (bm0_r (bm1 b2)) (a1 AND ADDR0_MASK) sz
                OR bm0_is_any_set (bm0_w (bm1 b2)) (a1 AND ADDR0_MASK) sz \<noteq> 0) })"

definition bm_load_1_has_conflict_with :: "bm_heap \<Rightarrow> bitmap \<Rightarrow> Addr \<Rightarrow> (bitmap \<times> bool) option" where
  "bm_load_1_has_conflict_with h bm a1 = bm_aligned_load_has_conflict_with h bm a1 1"

definition bm_load_2_has_conflict_with :: "bm_heap \<Rightarrow> bitmap \<Rightarrow> Addr \<Rightarrow> (bitmap \<times> bool) option" where
  "bm_load_2_has_conflict_with h bm a1 =
    (if a1 AND 1 = 0 then bm_aligned_load_has_conflict_with h bm a1 2
     else bm_has_conflict_with eLoad h bm a1 (a1 + 2))"

definition bm_load_4_has_conflict_with :: "bm_heap \<Rightarrow> bitmap \<Rightarrow> Addr \<Rightarrow> (bitmap \<times> bool) option" where
  "bm_load_4_has_conflict_with h bm a1 =
    (if a1 AND 3 = 0 then bm_aligned_load_has_conflict_with h bm a1 4
     else bm_has_conflict_with eLoad h bm a1 (a1 + 4))"

definition bm_load_8_has_conflict_with :: "bm_heap \<Rightarrow> bitmap \<Rightarrow> Addr \<Rightarrow> (bitmap \<times> bool) option" where
  "bm_load_8_has_conflict_with h bm a1 =
    (if a1 AND 7 = 0 then bm_aligned_load_has_conflict_with h bm a1 8
     else bm_has_conflict_with eLoad h bm a1 (a1 + 8))"

definition bm_store_1_has_conflict_with :: "bm_heap \<Rightarrow> bitmap \<Rightarrow> Addr \<Rightarrow> (bitmap \<times> bool) option" where
  "bm_store_1_has_conflict_with h bm a1 = bm_aligned_store_has_conflict_with h bm a1 1"

definition bm_store_2_has_conflict_with :: "bm_heap \<Rightarrow> bitmap \<Rightarrow> Addr \<Rightarrow> (bitmap \<times> bool) option" where
  "bm_store_2_has_conflict_with h bm a1 =
    (if a1 AND 1 = 0 then bm_aligned_store_has_conflict_with h bm a1 2
     else bm_has_conflict_with eStore h bm a1 (a1 + 2))"

definition bm_store_4_has_conflict_with :: "bm_heap \<Rightarrow> bitmap \<Rightarrow> Addr \<Rightarrow> (bitmap \<times> bool) option" where
  "bm_store_4_has_conflict_with h bm a1 =
    (if a1 AND 3 = 0 then bm_aligned_store_has_conflict_with h bm a1 4
     else bm_has_conflict_with eStore h bm a1 (a1 + 4))"

definition bm_store_8_has_conflict_with :: "bm_heap \<Rightarrow> bitmap \<Rightarrow> Addr \<Rightarrow> (bitmap \<times> bool) option" where
  "bm_store_8_has_conflict_with h bm a1 =
    (if a1 AND 7 = 0 then bm_aligned_store_has_conflict_with h bm a1 8
     else bm_has_conflict_with eStore h bm a1 (a1 + 8))"

subsection \<open>Clearing\<close>

definition bm0_zero :: "UWord list \<Rightarrow> nat \<Rightarrow> nat \<Rightarrow> UWord list" where
  "bm0_zero bm0 idx n = take idx bm0 @ replicate n 0 @ drop (idx + n) bm0"

definition bm1_both :: "(UWord list \<Rightarrow> UWord list) \<Rightarrow> bitmap1 \<Rightarrow> bitmap1" where
  "bm1_both f p1 = p1\<lparr>bm0_r := f (bm0_r p1), bm0_w := f (bm0_w p1)\<rparr>"

text \<open>
  The work on one second level bitmap: up to the first word boundary, then the whole words with
  \<^verbatim>\<open>memset\<close> (the count of bytes \<^verbatim>\<open>(c_next - c) / 8\<close> is that of \<^verbatim>\<open>(c_next - c) / 64\<close> words), then
  the rest.
\<close>

definition bm_clear_bm1 :: "Addr \<Rightarrow> Addr \<Rightarrow> bitmap1 \<Rightarrow> bitmap1 option" where
  "bm_clear_bm1 b b_next p1 = do {
     let (p1, c) =
       (if UWORD_LSB b \<noteq> 0 then
          (let next = UWORD_MSB b + BITS_PER_UWORD;
               c_next = (if next > b_next then b_next else next)
           in (bm1_both (\<lambda>bm0. bm0_clear_range bm0 (b AND ADDR0_MASK) (c_next - b)) p1, c_next))
        else (p1, b));
     (p1, c) \<leftarrow>
       (if UWORD_LSB c = 0 then
          (let c_next = UWORD_MSB b_next in do {
             vg_assert (UWORD_LSB c_next = 0);
             vg_assert (c_next \<le> b_next);
             vg_assert (c \<le> c_next);
             if c_next > c then
               Some (bm1_both (\<lambda>bm0. bm0_zero bm0 (bm0_index (c AND ADDR0_MASK))
                 (unat (c_next - c) div 64)) p1, c_next)
             else Some (p1, c) })
        else Some (p1, c));
     Some (bm1_both (\<lambda>bm0. bm0_clear_range bm0 (c AND ADDR0_MASK) (b_next - c)) p1) }"

definition bm_clear_part ::
  "Addr \<Rightarrow> Addr \<Rightarrow> bm_heap \<times> bitmap \<Rightarrow> ((bm_heap \<times> bitmap) \<times> unit option) option" where
  "bm_clear_part b b_next st = (case st of (h, bm) \<Rightarrow> do {
     (h, bm, p2) \<leftarrow> bm2_lookup_exclusive h bm (drop_bit ADDR0_BITS b);
     (case p2 of
        None \<Rightarrow> Some ((h, bm), None)
      | Some p \<Rightarrow> do {
          b2 \<leftarrow> bm2s h p;
          p1 \<leftarrow> bm_clear_bm1 b b_next (bm1 b2);
          h \<leftarrow> bm2_write h p (\<lambda>_. p1);
          Some ((h, bm), None) }) })"

definition bm_clear :: "bm_heap \<Rightarrow> bitmap \<Rightarrow> Addr \<Rightarrow> Addr \<Rightarrow> (bm_heap \<times> bitmap) option" where
  "bm_clear h bm a1 a2 = do {
     vg_assert (a1 \<noteq> 0);
     vg_assert (a1 \<le> a2);
     (st, r) \<leftarrow> bm_range_loop bm_clear_part a2 a1 (h, bm);
     Some st }"

text \<open>\<^verbatim>\<open>bm_clear_load\<close> and \<^verbatim>\<open>bm_clear_store\<close>, by the kind of access.\<close>

function bm_clear_access ::
  "BmAccessTypeT \<Rightarrow> bm_heap \<Rightarrow> bitmap \<Rightarrow> Addr \<Rightarrow> Addr \<Rightarrow> (bm_heap \<times> bitmap) option" where
  "bm_clear_access t h bm a a2 =
    (if a < a2 then
       (case bm2_lookup_exclusive h bm (drop_bit ADDR0_BITS a) of
          None \<Rightarrow> None
        | Some (h, bm, None) \<Rightarrow> bm_clear_access t h bm (a + 1) a2
        | Some (h, bm, Some p) \<Rightarrow>
            (case bm2_write h p (bm1_modify t (\<lambda>bm0. bm0_clear bm0 (a AND ADDR0_MASK))) of
               None \<Rightarrow> None
             | Some h \<Rightarrow> bm_clear_access t h bm (a + 1) a2))
     else Some (h, bm))"
  by pat_completeness auto
termination
proof (relation "measure (\<lambda>(t, h, bm, a, a2). unat (a2 - a))")
  fix a a2 :: Addr assume "a < a2"
  then have "a2 - a \<noteq> 0" by auto
  then have "unat (a2 - a - 1) < unat (a2 - a)"
    by (metis unat_minus_one diff_less unat_gt_0 zero_less_one)
  then have "unat (a2 - (a + 1)) < unat (a2 - a)" by (simp add: algebra_simps)
  then show "((t, h', bm', a + 1, a2), t, h, bm, a, a2) \<in> measure (\<lambda>(t, h, bm, a, a2). unat (a2 - a))"
    "((t, h'', bm', a + 1, a2), t, h, bm, a, a2) \<in> measure (\<lambda>(t, h, bm, a, a2). unat (a2 - a))"
    for h h' h'' :: bm_heap and bm bm' :: bitmap and t :: BmAccessTypeT by simp_all
qed auto

definition bm_clear_load :: "bm_heap \<Rightarrow> bitmap \<Rightarrow> Addr \<Rightarrow> Addr \<Rightarrow> (bm_heap \<times> bitmap) option" where
  "bm_clear_load = bm_clear_access eLoad"

definition bm_clear_store :: "bm_heap \<Rightarrow> bitmap \<Rightarrow> Addr \<Rightarrow> Addr \<Rightarrow> (bm_heap \<times> bitmap) option" where
  "bm_clear_store = bm_clear_access eStore"

definition bm_test_and_clear :: "bm_heap \<Rightarrow> bitmap \<Rightarrow> Addr \<Rightarrow> Addr \<Rightarrow> (bm_heap \<times> bitmap \<times> bool) option" where
  "bm_test_and_clear h bm a1 a2 = do {
     (bm, result) \<leftarrow> bm_has_any_access h bm a1 a2;
     (h, bm) \<leftarrow> bm_clear h bm a1 a2;
     Some (h, bm, result) }"

subsection \<open>Two bitmaps\<close>

definition bm2_merge :: "bm_heap \<Rightarrow> bm2ptr \<Rightarrow> bm2ptr \<Rightarrow> bm_heap option" where
  "bm2_merge h pl pr = do {
     l \<leftarrow> bm2s h pl;
     r \<leftarrow> bm2s h pr;
     vg_assert (addr l = addr r);
     vg_assert (refcnt l = 1);
     bm2_write h pl (\<lambda>p1. \<lparr>bm0_r = map2 (OR) (bm0_r p1) (bm0_r (bm1 r)),
                            bm0_w = map2 (OR) (bm0_w p1) (bm0_w (bm1 r))\<rparr>) }"

fun bm_merge2_loop ::
  "bm_heap \<Rightarrow> bitmap \<Rightarrow> (UWord \<times> bm2ptr) list \<Rightarrow> (bm_heap \<times> bitmap) option" where
  "bm_merge2_loop h lhs [] = Some (h, lhs)"
| "bm_merge2_loop h lhs ((k, pr) # rs) = do {
     r \<leftarrow> bm2s h pr;
     (h, lhs) \<leftarrow> (case OSetGen_Lookup (oset lhs) (addr r) of
        Some pl \<Rightarrow>
          if pl \<noteq> pr then do {
            l \<leftarrow> bm2s h pl;
            (h, lhs, pl) \<leftarrow> (if refcnt l > 1 then bm2_make_exclusive h lhs (addr r) else Some (h, lhs, pl));
            h \<leftarrow> bm2_merge h pl pr;
            Some (h, lhs) }
          else Some (h, lhs)
      | None \<Rightarrow> bm2_insert_addref h lhs pr);
     bm_merge2_loop h lhs rs }"

definition bm_merge2 :: "bm_heap \<Rightarrow> bitmap \<Rightarrow> bitmap \<Rightarrow> (bm_heap \<times> bitmap) option" where
  "bm_merge2 h lhs rhs = bm_merge2_loop h lhs (oset rhs)"

definition bm_swap :: "bitmap \<Rightarrow> bitmap \<Rightarrow> bitmap \<times> bitmap" where
  "bm_swap b1 b2 = (b1\<lparr>oset := oset b2\<rparr>, b2\<lparr>oset := oset b1\<rparr>)"

text \<open>The two iterators are the rests of the lists of nodes.\<close>

fun bm_equal_loop ::
  "bm_heap \<Rightarrow> bitmap \<Rightarrow> bitmap \<Rightarrow> (UWord \<times> bm2ptr) list \<Rightarrow> (UWord \<times> bm2ptr) list
    \<Rightarrow> (bitmap \<times> bitmap \<times> bool) option" where
  "bm_equal_loop h lhs rhs [] [] = Some (lhs, rhs, True)"
| "bm_equal_loop h lhs rhs [] ((k, pr) # rs) = do {
     (rhs, any) \<leftarrow> bm_has_any_access h rhs (push_bit ADDR0_BITS k) (push_bit ADDR0_BITS (k + 1));
     vg_assert any;
     Some (lhs, rhs, False) }"
| "bm_equal_loop h lhs rhs ((k, pl) # ls) rs = do {
     l \<leftarrow> bm2s h pl;
     (lhs, any) \<leftarrow> bm_has_any_access h lhs (push_bit ADDR0_BITS (addr l)) (push_bit ADDR0_BITS (addr l + 1));
     if \<not> any then bm_equal_loop h lhs rhs ls rs
     else (case rs of
        [] \<Rightarrow> Some (lhs, rhs, False)
      | (k', pr) # rs' \<Rightarrow> do {
          r \<leftarrow> bm2s h pr;
          (rhs, any) \<leftarrow> bm_has_any_access h rhs (push_bit ADDR0_BITS (addr r)) (push_bit ADDR0_BITS (addr r + 1));
          vg_assert any;
          if pl \<noteq> pr \<and> (addr l \<noteq> addr r \<or> bm1 l \<noteq> bm1 r) then Some (lhs, rhs, False)
          else bm_equal_loop h lhs rhs ls rs' }) }"

definition bm_equal :: "bm_heap \<Rightarrow> bitmap \<Rightarrow> bitmap \<Rightarrow> (bitmap \<times> bitmap \<times> bool) option" where
  "bm_equal h lhs rhs = bm_equal_loop h lhs rhs (oset lhs) (oset rhs)"

subsection \<open>Races\<close>

definition HAS_RACE :: "bool \<Rightarrow> bool \<Rightarrow> bool \<Rightarrow> bool \<Rightarrow> bool" where
  "HAS_RACE lhs_r lhs_w rhs_r rhs_w \<longleftrightarrow> rhs_w \<and> (lhs_r \<or> lhs_w) \<or> lhs_w \<and> (rhs_r \<or> rhs_w)"

definition bm1_has_race :: "(Addr \<Rightarrow> Addr \<Rightarrow> bool) \<Rightarrow> UWord \<Rightarrow> bitmap1 \<Rightarrow> bitmap1 \<Rightarrow> bool" where
  "bm1_has_race drd_is_suppressed k bm1l bm1r \<longleftrightarrow>
    list_ex (\<lambda>w. list_ex (\<lambda>b.
        let a = MAKE_ADDRESS k (of_nat w * BITS_PER_UWORD OR of_nat b)
        in HAS_RACE (bm0_r bm1l ! w AND bm0_mask (of_nat b) \<noteq> 0) (bm0_w bm1l ! w AND bm0_mask (of_nat b) \<noteq> 0)
                    (bm0_r bm1r ! w AND bm0_mask (of_nat b) \<noteq> 0) (bm0_w bm1r ! w AND bm0_mask (of_nat b) \<noteq> 0)
           \<and> \<not> drd_is_suppressed a (a + 1))
      [0..<64]) [0..<BITMAP1_UWORD_COUNT]"

text \<open>An iterator that has come to its end returns NULL, which the code dereferences before any test.\<close>

function bm_has_races_loop ::
  "(Addr \<Rightarrow> Addr \<Rightarrow> bool) \<Rightarrow> bm_heap \<Rightarrow> (UWord \<times> bm2ptr) list \<Rightarrow> (UWord \<times> bm2ptr) list \<Rightarrow> int option" where
  "bm_has_races_loop suppressed h [] rs = None"
| "bm_has_races_loop suppressed h (l # ls) [] = None"
| "bm_has_races_loop suppressed h ((kl, pl) # ls) ((kr, pr) # rs) =
    (case bm2s h pl of None \<Rightarrow> None | Some l \<Rightarrow>
     (case bm2s h pr of None \<Rightarrow> None | Some r \<Rightarrow>
      (if addr l \<noteq> addr r then
         (if addr l < addr r then bm_has_races_loop suppressed h ls ((kr, pr) # rs)
          else bm_has_races_loop suppressed h ((kl, pl) # ls) rs)
       else if bm1_has_race suppressed (addr l) (bm1 l) (bm1 r) then Some 1
       else bm_has_races_loop suppressed h ls rs)))"
  by pat_completeness auto
termination
  by (relation "measure (\<lambda>(suppressed, h, ls, rs). length ls + length rs)") auto

definition bm_has_races :: "(Addr \<Rightarrow> Addr \<Rightarrow> bool) \<Rightarrow> bm_heap \<Rightarrow> bitmap \<Rightarrow> bitmap \<Rightarrow> int option" where
  "bm_has_races suppressed h lhs rhs = bm_has_races_loop suppressed h (oset lhs) (oset rhs)"

end
