(* ===== verification/DRD_Thread.thy ===== *)
theory DRD_Thread
  imports DRD_VC DRD_Bitmap
begin

text \<open>
  DRD's threads and race detection: \<^verbatim>\<open>drd/drd_segment.c\<close>, \<^verbatim>\<open>drd/drd_thread.c\<close> with its inline
  functions in \<^verbatim>\<open>drd/drd_thread.h\<close>, \<^verbatim>\<open>drd/drd_thread_bitmap.h\<close>, \<^verbatim>\<open>drd/drd_suppression.c\<close> and the
  access handlers of \<^verbatim>\<open>drd/drd_main.c\<close>. Each thread has a list of segments, each with a vector clock
  and the bitmap of its accesses. The conflict set is the union of the accesses of all segments that
  are unordered with the latest segment of the running thread.
  \<^item> Segments live in a store; \<open>segments\<close> is the doubly linked list from \<^verbatim>\<open>first\<close> to \<^verbatim>\<open>last\<close> as the list of
    its pointers. Access to a freed segment is a failure.
  \<^item> A report of a race is an entry of the log \<open>races\<close>. Tracing messages, stack traces and the counters
    are left out. What the core answers about stacks of new threads is an argument.
\<close>

subsection \<open>State\<close>

type_synonym DrdThreadId = UInt
type_synonym sgptr = nat

record Segment =
  sg_refcnt :: int
  sg_vc :: VectorClock
  sg_bm :: bitmap

record ThreadInfo =
  segments :: "sgptr list"
  vg_threadid :: ThreadId
  pt_threadid :: UWord
  stack_min_min :: Addr
  stack_min :: Addr
  stack_startup :: Addr
  stack_max :: Addr
  stack_size :: SizeT
  vg_thread_exists :: bool
  posix_thread_exists :: bool
  detached_posix_thread :: bool
  is_recording :: bool
  synchr_nesting :: int

record drd_state =
  bheap :: bm_heap
  sgs :: "Segment option list"
  s_threadinfo :: "ThreadInfo list"
  s_vg_running_tid :: ThreadId
  s_drd_running_tid :: DrdThreadId
  s_conflict_set :: "bitmap option"
  s_suppressed :: bitmap
  g_any_address_traced :: bool
  s_segment_merging :: bool
  s_drd_check_stack_accesses :: bool
  races :: "(DrdThreadId \<times> Addr \<times> SizeT \<times> BmAccessTypeT) list"

definition DRD_N_THREADS :: nat where "DRD_N_THREADS = 300"

abbreviation DRD_INVALID_THREADID :: DrdThreadId where "DRD_INVALID_THREADID \<equiv> 0"
abbreviation VG_INVALID_THREADID :: ThreadId where "VG_INVALID_THREADID \<equiv> 0"
abbreviation INVALID_POSIX_THREADID :: UWord where "INVALID_POSIX_THREADID \<equiv> 0"

abbreviation tinfo :: "drd_state \<Rightarrow> nat \<Rightarrow> ThreadInfo" where
  "tinfo s i \<equiv> s_threadinfo s ! i"

text \<open>The assertion made on most thread numbers.\<close>

definition tid_ok :: "DrdThreadId \<Rightarrow> bool" where
  "tid_ok tid \<longleftrightarrow> unat tid < DRD_N_THREADS \<and> tid \<noteq> DRD_INVALID_THREADID"

definition ti_update :: "nat \<Rightarrow> (ThreadInfo \<Rightarrow> ThreadInfo) \<Rightarrow> drd_state \<Rightarrow> drd_state" where
  "ti_update i f s = s\<lparr>s_threadinfo := (s_threadinfo s)[i := f (tinfo s i)]\<rparr>"

definition sg_deref :: "drd_state \<Rightarrow> sgptr \<Rightarrow> Segment option" where
  "sg_deref s p = (if p < length (sgs s) then sgs s ! p else None)"

definition sg_store :: "sgptr \<Rightarrow> Segment option \<Rightarrow> drd_state \<Rightarrow> drd_state" where
  "sg_store p v s = s\<lparr>sgs := (sgs s)[p := v]\<rparr>"

definition thread_last :: "drd_state \<Rightarrow> nat \<Rightarrow> sgptr option" where
  "thread_last s i = (let l = segments (tinfo s i) in if l = [] then None else Some (last l))"

definition IsValidDrdThreadId :: "drd_state \<Rightarrow> DrdThreadId \<Rightarrow> bool" where
  "IsValidDrdThreadId s tid \<longleftrightarrow> tid_ok tid
     \<and> \<not> (\<not> vg_thread_exists (tinfo s (unat tid)) \<and> \<not> posix_thread_exists (tinfo s (unat tid))
          \<and> \<not> detached_posix_thread (tinfo s (unat tid)))"

definition thread_get_running_tid :: "drd_state \<Rightarrow> DrdThreadId option" where
  "thread_get_running_tid s = do {
     vg_assert (s_drd_running_tid s \<noteq> DRD_INVALID_THREADID);
     Some (s_drd_running_tid s) }"

definition running_thread_is_recording :: "drd_state \<Rightarrow> bool" where
  "running_thread_is_recording s \<longleftrightarrow> synchr_nesting (tinfo s (unat (s_drd_running_tid s))) = 0
     \<and> is_recording (tinfo s (unat (s_drd_running_tid s)))"

definition thread_set_stack_min :: "drd_state \<Rightarrow> DrdThreadId \<Rightarrow> Addr \<Rightarrow> drd_state" where
  "thread_set_stack_min s tid a =
    (let s = ti_update (unat tid) (\<lambda>ti. ti\<lparr>stack_min := a\<rparr>) s
     in if a < stack_min_min (tinfo s (unat tid))
        then ti_update (unat tid) (\<lambda>ti. ti\<lparr>stack_min_min := a\<rparr>) s else s)"

definition thread_address_on_stack :: "drd_state \<Rightarrow> Addr \<Rightarrow> bool" where
  "thread_address_on_stack s a \<longleftrightarrow> stack_min (tinfo s (unat (s_drd_running_tid s))) \<le> a
     \<and> a < stack_max (tinfo s (unat (s_drd_running_tid s)))"

subsection \<open>Segments\<close>

definition sg_init :: "drd_state \<Rightarrow> DrdThreadId \<Rightarrow> DrdThreadId \<Rightarrow> Segment option" where
  "sg_init s creator created = do {
     vg_assert (creator = DRD_INVALID_THREADID \<or> IsValidDrdThreadId s creator);
     let creator_sg = (if creator \<noteq> DRD_INVALID_THREADID then thread_last s (unat creator) else None);
     v \<leftarrow> (case creator_sg of
            Some p \<Rightarrow> do { c \<leftarrow> sg_deref s p; vc_copy (sg_vc c) }
          | None \<Rightarrow> vc_init [] 0);
     v \<leftarrow> vc_increment v created;
     Some \<lparr>sg_refcnt = 1, sg_vc = v, sg_bm = bm_new\<rparr> }"

definition sg_new :: "drd_state \<Rightarrow> DrdThreadId \<Rightarrow> DrdThreadId \<Rightarrow> (drd_state \<times> sgptr) option" where
  "sg_new s creator created = do {
     sg \<leftarrow> sg_init s creator created;
     Some (s\<lparr>sgs := sgs s @ [Some sg]\<rparr>, length (sgs s)) }"

definition sg_delete :: "drd_state \<Rightarrow> sgptr \<Rightarrow> Segment \<Rightarrow> drd_state option" where
  "sg_delete s p sg = do {
     vg_assert (sg_refcnt sg = 0);
     vc_cleanup (sg_vc sg);
     h \<leftarrow> bm_delete (bheap s) (sg_bm sg);
     Some (sg_store p None (s\<lparr>bheap := h\<rparr>)) }"

definition sg_get :: "drd_state \<Rightarrow> sgptr \<Rightarrow> drd_state option" where
  "sg_get s p = do {
     sg \<leftarrow> sg_deref s p;
     Some (sg_store p (Some (sg\<lparr>sg_refcnt := sg_refcnt sg + 1\<rparr>)) s) }"

definition sg_put :: "drd_state \<Rightarrow> sgptr option \<Rightarrow> drd_state option" where
  "sg_put s p = (case p of
     None \<Rightarrow> Some s
   | Some p \<Rightarrow> do {
       sg \<leftarrow> sg_deref s p;
       vg_assert (sg_refcnt sg \<ge> 1);
       let sg = sg\<lparr>sg_refcnt := sg_refcnt sg - 1\<rparr>;
       if sg_refcnt sg = 0 then sg_delete s p sg else Some (sg_store p (Some sg) s) })"

definition sg_merge :: "drd_state \<Rightarrow> sgptr \<Rightarrow> sgptr \<Rightarrow> drd_state option" where
  "sg_merge s p1 p2 = do {
     sg1 \<leftarrow> sg_deref s p1;
     vg_assert (sg_refcnt sg1 = 1);
     sg2 \<leftarrow> sg_deref s p2;
     vg_assert (sg_refcnt sg2 = 1);
     (h, bm) \<leftarrow> bm_merge2 (bheap s) (sg_bm sg1) (sg_bm sg2);
     Some (sg_store p1 (Some (sg1\<lparr>sg_bm := bm\<rparr>)) (s\<lparr>bheap := h\<rparr>)) }"

subsection \<open>The conflict set\<close>

text \<open>Merging the unordered segments among those of a list, in its order.\<close>

fun merge_unordered ::
  "drd_state \<Rightarrow> VectorClock \<Rightarrow> sgptr list \<Rightarrow> bm_heap \<times> bitmap \<Rightarrow> (bm_heap \<times> bitmap) option" where
  "merge_unordered s pvc [] (h, cs) = Some (h, cs)"
| "merge_unordered s pvc (q # qs) (h, cs) = do {
     sq \<leftarrow> sg_deref s q;
     before \<leftarrow> vc_lte (sg_vc sq) pvc;
     ordered \<leftarrow> (if before then Some True else vc_lte pvc (sg_vc sq));
     st \<leftarrow> (if \<not> ordered then bm_merge2 h cs (sg_bm sq) else Some (h, cs));
     merge_unordered s pvc qs st }"

fun merge_threads ::
  "drd_state \<Rightarrow> DrdThreadId \<Rightarrow> VectorClock \<Rightarrow> nat list \<Rightarrow> bm_heap \<times> bitmap \<Rightarrow> (bm_heap \<times> bitmap) option" where
  "merge_threads s tid pvc [] st = Some st"
| "merge_threads s tid pvc (j # js) st = do {
     st \<leftarrow> (if of_nat j \<noteq> tid \<and> IsValidDrdThreadId s (of_nat j)
            then merge_unordered s pvc (rev (segments (tinfo s j))) st else Some st);
     merge_threads s tid pvc js st }"

text \<open>A running thread without a segment is a failure here; the code follows its NULL pointer only when
  another thread has a segment.\<close>

definition thread_compute_conflict_set :: "drd_state \<Rightarrow> DrdThreadId \<Rightarrow> drd_state option" where
  "thread_compute_conflict_set s tid = do {
     vg_assert (tid_ok tid);
     vg_assert (tid = s_drd_running_tid s);
     h \<leftarrow> (case s_conflict_set s of None \<Rightarrow> Some (bheap s) | Some cs \<Rightarrow> bm_delete (bheap s) cs);
     p \<leftarrow> thread_last s (unat tid);
     sp \<leftarrow> sg_deref s p;
     (h, cs) \<leftarrow> merge_threads s tid (sg_vc sp) [0..<DRD_N_THREADS] (h, bm_new);
     Some (s\<lparr>bheap := h, s_conflict_set := Some cs\<rparr>) }"

subsection \<open>Segment lists\<close>

definition thread_set_segment_merging :: "bool \<Rightarrow> drd_state \<Rightarrow> drd_state" where
  "thread_set_segment_merging m s = s\<lparr>s_segment_merging := m\<rparr>"

definition thread_append_segment :: "drd_state \<Rightarrow> DrdThreadId \<Rightarrow> sgptr \<Rightarrow> drd_state option" where
  "thread_append_segment s tid p = do {
     vg_assert (tid_ok tid);
     Some (ti_update (unat tid) (\<lambda>ti. ti\<lparr>segments := segments ti @ [p]\<rparr>) s) }"

definition thread_discard_segment :: "drd_state \<Rightarrow> DrdThreadId \<Rightarrow> sgptr \<Rightarrow> drd_state option" where
  "thread_discard_segment s tid p = do {
     vg_assert (tid_ok tid);
     sg_put (ti_update (unat tid) (\<lambda>ti. ti\<lparr>segments := remove1 p (segments ti)\<rparr>) s) (Some p) }"

definition thread_get_latest_segment ::
  "drd_state \<Rightarrow> sgptr option \<Rightarrow> DrdThreadId \<Rightarrow> (drd_state \<times> sgptr) option" where
  "thread_get_latest_segment s sg tid = do {
     vg_assert (tid_ok tid);
     p \<leftarrow> thread_last s (unat tid);
     s \<leftarrow> sg_put s sg;
     s \<leftarrow> sg_get s p;
     Some (s, p) }"

definition latest_vcs :: "drd_state \<Rightarrow> VectorClock option list option" where
  "latest_vcs s =
    (if list_all (\<lambda>ti. segments ti = [] \<or> sg_deref s (last (segments ti)) \<noteq> None) (s_threadinfo s)
     then Some (map (\<lambda>ti. if segments ti = [] then None
                          else map_option sg_vc (sg_deref s (last (segments ti)))) (s_threadinfo s))
     else None)"

fun discard_ordered :: "drd_state \<Rightarrow> DrdThreadId \<Rightarrow> VectorClock \<Rightarrow> sgptr list \<Rightarrow> drd_state option" where
  "discard_ordered s i vmin (sg # sg_next # rest) = do {
     q \<leftarrow> sg_deref s sg;
     le \<leftarrow> vc_lte (sg_vc q) vmin;
     if le then do {
       s \<leftarrow> thread_discard_segment s i sg;
       discard_ordered s i vmin (sg_next # rest) }
     else Some s }"
| "discard_ordered s i vmin l = Some s"

fun over_threads :: "(drd_state \<Rightarrow> nat \<Rightarrow> drd_state option) \<Rightarrow> drd_state \<Rightarrow> nat list \<Rightarrow> drd_state option" where
  "over_threads f s [] = Some s"
| "over_threads f s (i # is) = do { s \<leftarrow> f s i; over_threads f s is }"

definition thread_discard_ordered_segments :: "drd_state \<Rightarrow> drd_state option" where
  "thread_discard_ordered_segments s = do {
     v0 \<leftarrow> vc_init [] 0;
     ls \<leftarrow> latest_vcs s;
     vmin \<leftarrow> thread_compute_minimum_vc ls v0;
     s \<leftarrow> over_threads (\<lambda>s i. discard_ordered s (of_nat i) vmin (segments (tinfo s i))) s [0..<DRD_N_THREADS];
     vc_cleanup vmin;
     Some s }"

fun merge_segments :: "drd_state \<Rightarrow> DrdThreadId \<Rightarrow> sgptr list \<Rightarrow> drd_state option" where
  "merge_segments s i (sg # sg_next # sg_next2 # rest) = do {
     q \<leftarrow> sg_deref s sg;
     q' \<leftarrow> sg_deref s sg_next;
     if sg_refcnt q = 1 \<and> sg_refcnt q' = 1 then do {
       s \<leftarrow> sg_merge s sg sg_next;
       s \<leftarrow> thread_discard_segment s i sg_next;
       merge_segments s i (sg_next2 # rest) }
     else merge_segments s i (sg_next # sg_next2 # rest) }"
| "merge_segments s i l = Some s"

definition thread_merge_segments :: "drd_state \<Rightarrow> drd_state option" where
  "thread_merge_segments s =
     over_threads (\<lambda>s i. merge_segments s (of_nat i) (segments (tinfo s i))) s [0..<DRD_N_THREADS]"

text \<open>\<^verbatim>\<open>conflict_set_update_needed\<close> is compiled to return True.\<close>

definition thread_new_segment :: "drd_state \<Rightarrow> DrdThreadId \<Rightarrow> drd_state option" where
  "thread_new_segment s tid = do {
     vg_assert (tid_ok tid);
     (s, p) \<leftarrow> sg_new s tid tid;
     s \<leftarrow> thread_append_segment s tid p;
     s \<leftarrow> thread_compute_conflict_set s (s_drd_running_tid s);
     s \<leftarrow> thread_discard_ordered_segments s;
     if s_segment_merging s then thread_merge_segments s else Some s }"

definition thread_combine_vc :: "drd_state \<Rightarrow> DrdThreadId \<Rightarrow> DrdThreadId \<Rightarrow> drd_state option" where
  "thread_combine_vc s joiner joinee = do {
     vg_assert (joiner \<noteq> joinee);
     vg_assert (tid_ok joiner);
     vg_assert (tid_ok joinee);
     p \<leftarrow> thread_last s (unat joiner);
     q \<leftarrow> thread_last s (unat joinee);
     sp \<leftarrow> sg_deref s p;
     sq \<leftarrow> sg_deref s q;
     v \<leftarrow> vc_combine (sg_vc sp) (sg_vc sq);
     s \<leftarrow> thread_discard_ordered_segments (sg_store p (Some (sp\<lparr>sg_vc := v\<rparr>)) s);
     if joiner = s_drd_running_tid s then thread_compute_conflict_set s joiner else Some s }"

definition thread_combine_vc2 :: "drd_state \<Rightarrow> DrdThreadId \<Rightarrow> VectorClock \<Rightarrow> drd_state option" where
  "thread_combine_vc2 s tid v = do {
     vg_assert (tid_ok tid);
     p \<leftarrow> thread_last s (unat tid);
     sp \<leftarrow> sg_deref s p;
     v \<leftarrow> vc_combine (sg_vc sp) v;
     s \<leftarrow> thread_compute_conflict_set (sg_store p (Some (sp\<lparr>sg_vc := v\<rparr>)) s) tid;
     thread_discard_ordered_segments s }"

subsection \<open>Threads\<close>

text \<open>The numbers \<open>i, \<dots>, DRD_N_THREADS - 1\<close> are searched in ascending order.\<close>

definition find_thread :: "drd_state \<Rightarrow> (ThreadInfo \<Rightarrow> bool) \<Rightarrow> nat option" where
  "find_thread s P = List.find (\<lambda>i. P (tinfo s i)) [1..<DRD_N_THREADS]"

definition VgThreadIdToDrdThreadId :: "drd_state \<Rightarrow> ThreadId \<Rightarrow> DrdThreadId" where
  "VgThreadIdToDrdThreadId s tid =
    (if tid = VG_INVALID_THREADID then DRD_INVALID_THREADID
     else (case find_thread s (\<lambda>ti. vg_thread_exists ti \<and> vg_threadid ti = tid) of
             Some i \<Rightarrow> of_nat i | None \<Rightarrow> DRD_INVALID_THREADID))"

definition VgThreadIdToNewDrdThreadId :: "drd_state \<Rightarrow> ThreadId \<Rightarrow> (drd_state \<times> DrdThreadId) option" where
  "VgThreadIdToNewDrdThreadId s tid = do {
     vg_assert (VgThreadIdToDrdThreadId s tid = DRD_INVALID_THREADID);
     i \<leftarrow> find_thread s (\<lambda>ti. \<not> vg_thread_exists ti \<and> \<not> posix_thread_exists ti \<and> \<not> detached_posix_thread ti);
     vg_assert (segments (tinfo s i) = []);
     Some (ti_update i (\<lambda>ti. ti\<lparr>vg_thread_exists := True, vg_threadid := tid, pt_threadid := INVALID_POSIX_THREADID,
             stack_min := 0, stack_min_min := 0, stack_startup := 0, stack_max := 0,
             is_recording := True, synchr_nesting := 0\<rparr>) s, of_nat i) }"

definition PtThreadIdToDrdThreadId :: "drd_state \<Rightarrow> UWord \<Rightarrow> DrdThreadId option" where
  "PtThreadIdToDrdThreadId s tid = do {
     vg_assert (tid \<noteq> INVALID_POSIX_THREADID);
     Some (case find_thread s (\<lambda>ti. posix_thread_exists ti \<and> pt_threadid ti = tid) of
             Some i \<Rightarrow> of_nat i | None \<Rightarrow> DRD_INVALID_THREADID) }"

definition DrdThreadIdToVgThreadId :: "drd_state \<Rightarrow> DrdThreadId \<Rightarrow> ThreadId option" where
  "DrdThreadIdToVgThreadId s tid = do {
     vg_assert (tid_ok tid);
     Some (if vg_thread_exists (tinfo s (unat tid)) then vg_threadid (tinfo s (unat tid))
           else VG_INVALID_THREADID) }"

definition thread_pre_create :: "drd_state \<Rightarrow> DrdThreadId \<Rightarrow> ThreadId \<Rightarrow> (drd_state \<times> DrdThreadId) option" where
  "thread_pre_create s creator vg_created = do {
     vg_assert (VgThreadIdToDrdThreadId s vg_created = DRD_INVALID_THREADID);
     (s, created) \<leftarrow> VgThreadIdToNewDrdThreadId s vg_created;
     vg_assert (tid_ok created);
     vg_assert (segments (tinfo s (unat created)) = []);
     (s, p) \<leftarrow> sg_new s creator created;
     s \<leftarrow> thread_append_segment s created p;
     Some (s, created) }"

text \<open>\<open>core_stack_max\<close> and \<open>core_stack_size\<close> are what \<^verbatim>\<open>VG_(thread_get_stack_max)\<close> and
  \<^verbatim>\<open>VG_(thread_get_stack_size)\<close> answer.\<close>

definition thread_post_create ::
  "(ThreadId \<Rightarrow> Addr) \<Rightarrow> (ThreadId \<Rightarrow> SizeT) \<Rightarrow> drd_state \<Rightarrow> ThreadId \<Rightarrow> (drd_state \<times> DrdThreadId) option" where
  "thread_post_create core_stack_max core_stack_size s vg_created = do {
     let created = VgThreadIdToDrdThreadId s vg_created;
     vg_assert (tid_ok created);
     let top = core_stack_max vg_created;
     let s = ti_update (unat created) (\<lambda>ti. ti\<lparr>stack_max := top, stack_startup := top, stack_min := top,
               stack_min_min := top, stack_size := core_stack_size vg_created\<rparr>) s;
     vg_assert (stack_max (tinfo s (unat created)) \<noteq> 0);
     Some (s, created) }"

definition thread_set_stack_startup :: "drd_state \<Rightarrow> DrdThreadId \<Rightarrow> Addr \<Rightarrow> drd_state option" where
  "thread_set_stack_startup s tid a = do {
     vg_assert (tid_ok tid);
     vg_assert (stack_min (tinfo s (unat tid)) \<le> a);
     vg_assert (a \<le> stack_max (tinfo s (unat tid)));
     Some (ti_update (unat tid) (\<lambda>ti. ti\<lparr>stack_startup := a\<rparr>) s) }"

fun sg_put_all :: "drd_state \<Rightarrow> sgptr list \<Rightarrow> drd_state option" where
  "sg_put_all s [] = Some s"
| "sg_put_all s (p # ps) = do { s \<leftarrow> sg_put s (Some p); sg_put_all s ps }"

definition thread_delete :: "drd_state \<Rightarrow> DrdThreadId \<Rightarrow> drd_state option" where
  "thread_delete s tid = do {
     vg_assert (tid_ok tid);
     vg_assert (synchr_nesting (tinfo s (unat tid)) = 0);
     s \<leftarrow> sg_put_all s (rev (segments (tinfo s (unat tid))));
     vg_assert (\<not> detached_posix_thread (tinfo s (unat tid)));
     Some (ti_update (unat tid) (\<lambda>ti. ti\<lparr>vg_thread_exists := False, posix_thread_exists := False,
             segments := []\<rparr>) s) }"

definition thread_finished :: "drd_state \<Rightarrow> DrdThreadId \<Rightarrow> drd_state option" where
  "thread_finished s tid = do {
     vg_assert (tid_ok tid);
     let s = ti_update (unat tid) (\<lambda>ti. ti\<lparr>vg_thread_exists := False\<rparr>) s;
     Some (if detached_posix_thread (tinfo s (unat tid))
           then ti_update (unat tid) (\<lambda>ti. ti\<lparr>stack_min := stack_max ti, posix_thread_exists := False\<rparr>) s
           else s) }"

definition thread_pre_cancel :: "drd_state \<Rightarrow> DrdThreadId \<Rightarrow> drd_state option" where
  "thread_pre_cancel s tid = do {
     vg_assert (tid_ok tid);
     vg_assert (pt_threadid (tinfo s (unat tid)) \<noteq> INVALID_POSIX_THREADID);
     Some (ti_update (unat tid) (\<lambda>ti. ti\<lparr>synchr_nesting := 0\<rparr>) s) }"

definition thread_set_pthreadid :: "drd_state \<Rightarrow> DrdThreadId \<Rightarrow> UWord \<Rightarrow> drd_state option" where
  "thread_set_pthreadid s tid ptid = do {
     vg_assert (tid_ok tid);
     vg_assert (pt_threadid (tinfo s (unat tid)) = INVALID_POSIX_THREADID);
     vg_assert (ptid \<noteq> INVALID_POSIX_THREADID);
     Some (ti_update (unat tid) (\<lambda>ti. ti\<lparr>posix_thread_exists := True, pt_threadid := ptid\<rparr>) s) }"

definition thread_set_joinable :: "drd_state \<Rightarrow> DrdThreadId \<Rightarrow> bool \<Rightarrow> drd_state option" where
  "thread_set_joinable s tid joinable = do {
     vg_assert (tid_ok tid);
     vg_assert (pt_threadid (tinfo s (unat tid)) \<noteq> INVALID_POSIX_THREADID);
     Some (ti_update (unat tid) (\<lambda>ti. ti\<lparr>detached_posix_thread := \<not> joinable\<rparr>) s) }"

definition thread_set_running_tid :: "drd_state \<Rightarrow> ThreadId \<Rightarrow> DrdThreadId \<Rightarrow> drd_state option" where
  "thread_set_running_tid s vg_tid drd_tid = do {
     vg_assert (vg_tid \<noteq> VG_INVALID_THREADID);
     vg_assert (drd_tid \<noteq> DRD_INVALID_THREADID);
     s \<leftarrow> (if vg_tid \<noteq> s_vg_running_tid s
           then thread_compute_conflict_set (s\<lparr>s_vg_running_tid := vg_tid, s_drd_running_tid := drd_tid\<rparr>) drd_tid
           else Some s);
     vg_assert (s_vg_running_tid s \<noteq> VG_INVALID_THREADID);
     vg_assert (s_drd_running_tid s \<noteq> DRD_INVALID_THREADID);
     Some s }"

definition thread_set_vg_running_tid :: "drd_state \<Rightarrow> ThreadId \<Rightarrow> drd_state option" where
  "thread_set_vg_running_tid s vg_tid = do {
     vg_assert (vg_tid \<noteq> VG_INVALID_THREADID);
     s \<leftarrow> (if vg_tid \<noteq> s_vg_running_tid s
           then thread_set_running_tid s vg_tid (VgThreadIdToDrdThreadId s vg_tid) else Some s);
     vg_assert (s_vg_running_tid s \<noteq> VG_INVALID_THREADID);
     vg_assert (s_drd_running_tid s \<noteq> DRD_INVALID_THREADID);
     Some s }"

definition thread_enter_synchr :: "drd_state \<Rightarrow> DrdThreadId \<Rightarrow> (drd_state \<times> int) option" where
  "thread_enter_synchr s tid = do {
     vg_assert (IsValidDrdThreadId s tid);
     let n = synchr_nesting (tinfo s (unat tid));
     Some (ti_update (unat tid) (\<lambda>ti. ti\<lparr>synchr_nesting := n + 1\<rparr>) s, n) }"

definition thread_leave_synchr :: "drd_state \<Rightarrow> DrdThreadId \<Rightarrow> (drd_state \<times> int) option" where
  "thread_leave_synchr s tid = do {
     vg_assert (IsValidDrdThreadId s tid);
     let n = synchr_nesting (tinfo s (unat tid));
     vg_assert (n \<ge> 1);
     Some (ti_update (unat tid) (\<lambda>ti. ti\<lparr>synchr_nesting := n - 1\<rparr>) s, n - 1) }"

definition thread_start_recording :: "drd_state \<Rightarrow> DrdThreadId \<Rightarrow> drd_state option" where
  "thread_start_recording s tid = do {
     vg_assert (tid_ok tid);
     vg_assert (\<not> is_recording (tinfo s (unat tid)));
     Some (ti_update (unat tid) (\<lambda>ti. ti\<lparr>is_recording := True\<rparr>) s) }"

definition thread_stop_recording :: "drd_state \<Rightarrow> DrdThreadId \<Rightarrow> drd_state option" where
  "thread_stop_recording s tid = do {
     vg_assert (tid_ok tid);
     vg_assert (is_recording (tinfo s (unat tid)));
     Some (ti_update (unat tid) (\<lambda>ti. ti\<lparr>is_recording := False\<rparr>) s) }"

subsection \<open>Memory that is no longer used\<close>

definition stop_using_segment ::
  "Addr \<Rightarrow> Addr \<Rightarrow> nat \<Rightarrow> drd_state \<times> DrdThreadId \<Rightarrow> sgptr \<Rightarrow> (drd_state \<times> DrdThreadId) option" where
  "stop_using_segment a1 a2 i st p = (case st of (s, other_user) \<Rightarrow> do {
     sg \<leftarrow> sg_deref s p;
     if other_user = DRD_INVALID_THREADID \<and> of_nat i \<noteq> s_drd_running_tid s then do {
       (h, bm, r) \<leftarrow> bm_test_and_clear (bheap s) (sg_bm sg) a1 a2;
       Some (sg_store p (Some (sg\<lparr>sg_bm := bm\<rparr>)) (s\<lparr>bheap := h\<rparr>), if r then of_nat i else other_user) }
     else do {
       (h, bm) \<leftarrow> bm_clear (bheap s) (sg_bm sg) a1 a2;
       Some (sg_store p (Some (sg\<lparr>sg_bm := bm\<rparr>)) (s\<lparr>bheap := h\<rparr>), other_user) } })"

fun stop_using_segments ::
  "Addr \<Rightarrow> Addr \<Rightarrow> nat \<Rightarrow> drd_state \<times> DrdThreadId \<Rightarrow> sgptr list \<Rightarrow> (drd_state \<times> DrdThreadId) option" where
  "stop_using_segments a1 a2 i st [] = Some st"
| "stop_using_segments a1 a2 i st (p # ps) = do {
     st \<leftarrow> stop_using_segment a1 a2 i st p;
     stop_using_segments a1 a2 i st ps }"

fun stop_using_threads ::
  "Addr \<Rightarrow> Addr \<Rightarrow> drd_state \<times> DrdThreadId \<Rightarrow> nat list \<Rightarrow> (drd_state \<times> DrdThreadId) option" where
  "stop_using_threads a1 a2 st [] = Some st"
| "stop_using_threads a1 a2 st (i # is) = do {
     st \<leftarrow> stop_using_segments a1 a2 i st (segments (tinfo (fst st) i));
     stop_using_threads a1 a2 st is }"

definition thread_stop_using_mem :: "drd_state \<Rightarrow> Addr \<Rightarrow> Addr \<Rightarrow> drd_state option" where
  "thread_stop_using_mem s a1 a2 = do {
     (s, other_user) \<leftarrow> stop_using_threads a1 a2 (s, DRD_INVALID_THREADID) [0..<DRD_N_THREADS];
     if other_user \<noteq> DRD_INVALID_THREADID then do {
       cs \<leftarrow> s_conflict_set s;
       (cs, any) \<leftarrow> bm_has_any_access (bheap s) cs a1 a2;
       let s = s\<lparr>s_conflict_set := Some cs\<rparr>;
       if any then do {
         tid \<leftarrow> thread_get_running_tid s;
         thread_compute_conflict_set s tid }
       else Some s }
     else Some s }"

subsection \<open>Suppression\<close>

definition drd_is_suppressed :: "drd_state \<Rightarrow> Addr \<Rightarrow> Addr \<Rightarrow> (drd_state \<times> bool) option" where
  "drd_is_suppressed s a1 a2 = do {
     (bm, r) \<leftarrow> bm_has (bheap s) (s_suppressed s) a1 a2 eStore;
     Some (s\<lparr>s_suppressed := bm\<rparr>, r) }"

definition drd_is_any_suppressed :: "drd_state \<Rightarrow> Addr \<Rightarrow> Addr \<Rightarrow> (drd_state \<times> bool) option" where
  "drd_is_any_suppressed s a1 a2 = do {
     (bm, r) \<leftarrow> bm_has_any_store (bheap s) (s_suppressed s) a1 a2;
     Some (s\<lparr>s_suppressed := bm\<rparr>, r) }"

definition drd_start_suppression :: "drd_state \<Rightarrow> Addr \<Rightarrow> Addr \<Rightarrow> drd_state option" where
  "drd_start_suppression s a1 a2 = do {
     vg_assert (a1 < a2);
     (h, bm) \<leftarrow> bm_access_range (bheap s) (s_suppressed s) a1 a2 eStore;
     Some (s\<lparr>bheap := h, s_suppressed := bm\<rparr>) }"

definition drd_finish_suppression :: "drd_state \<Rightarrow> Addr \<Rightarrow> Addr \<Rightarrow> drd_state option" where
  "drd_finish_suppression s a1 a2 = do {
     vg_assert (a1 < a2);
     (s, r) \<leftarrow> drd_is_suppressed s a1 a2;
     vg_assert r;
     (h, bm) \<leftarrow> bm_clear_store (bheap s) (s_suppressed s) a1 a2;
     Some (s\<lparr>bheap := h, s_suppressed := bm\<rparr>) }"

definition drd_start_tracing_address_range :: "drd_state \<Rightarrow> Addr \<Rightarrow> Addr \<Rightarrow> drd_state option" where
  "drd_start_tracing_address_range s a1 a2 = do {
     vg_assert (a1 < a2);
     (h, bm) \<leftarrow> bm_access_range (bheap s) (s_suppressed s) a1 a2 eLoad;
     Some (s\<lparr>bheap := h, s_suppressed := bm, g_any_address_traced := True\<rparr>) }"

definition drd_stop_tracing_address_range :: "drd_state \<Rightarrow> Addr \<Rightarrow> Addr \<Rightarrow> drd_state option" where
  "drd_stop_tracing_address_range s a1 a2 = do {
     vg_assert (a1 < a2);
     (h, bm) \<leftarrow> bm_clear_load (bheap s) (s_suppressed s) a1 a2;
     let s = s\<lparr>bheap := h, s_suppressed := bm\<rparr>;
     if g_any_address_traced s then do {
       (bm, r) \<leftarrow> bm_has_any_load (bheap s) (s_suppressed s) 0 (NOT 0);
       Some (s\<lparr>s_suppressed := bm, g_any_address_traced := r\<rparr>) }
     else Some s }"

definition drd_is_any_traced :: "drd_state \<Rightarrow> Addr \<Rightarrow> Addr \<Rightarrow> (drd_state \<times> bool) option" where
  "drd_is_any_traced s a1 a2 = do {
     (bm, r) \<leftarrow> bm_has_any_load (bheap s) (s_suppressed s) a1 a2;
     Some (s\<lparr>s_suppressed := bm\<rparr>, r) }"

definition drd_suppression_stop_using_mem :: "drd_state \<Rightarrow> Addr \<Rightarrow> Addr \<Rightarrow> drd_state option" where
  "drd_suppression_stop_using_mem s a1 a2 = do {
     vg_assert (a1 \<noteq> 0);
     vg_assert (a1 < a2);
     (h, bm) \<leftarrow> bm_clear (bheap s) (s_suppressed s) a1 a2;
     Some (s\<lparr>bheap := h, s_suppressed := bm\<rparr>) }"

subsection \<open>Loads and stores of the client\<close>

text \<open>Recording an access in the bitmap of the latest segment of the running thread, then asking the
  conflict set.\<close>

definition record_and_query ::
  "(bm_heap \<Rightarrow> bitmap \<Rightarrow> (bm_heap \<times> bitmap) option) \<Rightarrow> (bm_heap \<Rightarrow> bitmap \<Rightarrow> (bitmap \<times> bool) option)
    \<Rightarrow> drd_state \<Rightarrow> (drd_state \<times> bool) option" where
  "record_and_query access query s = do {
     p \<leftarrow> thread_last s (unat (s_drd_running_tid s));
     sg \<leftarrow> sg_deref s p;
     (h, bm) \<leftarrow> access (bheap s) (sg_bm sg);
     let s = sg_store p (Some (sg\<lparr>sg_bm := bm\<rparr>)) (s\<lparr>bheap := h\<rparr>);
     cs \<leftarrow> s_conflict_set s;
     (cs, r) \<leftarrow> query (bheap s) cs;
     Some (s\<lparr>s_conflict_set := Some cs\<rparr>, r) }"

text \<open>The functions for loads and those for stores differ in the kind of access only.\<close>

definition bm_aligned_has_conflict_with ::
  "BmAccessTypeT \<Rightarrow> bm_heap \<Rightarrow> bitmap \<Rightarrow> Addr \<Rightarrow> SizeT \<Rightarrow> (bitmap \<times> bool) option" where
  "bm_aligned_has_conflict_with t =
    (if t = eLoad then bm_aligned_load_has_conflict_with else bm_aligned_store_has_conflict_with)"

definition bm_access_1_triggers_conflict :: "BmAccessTypeT \<Rightarrow> drd_state \<Rightarrow> Addr \<Rightarrow> (drd_state \<times> bool) option" where
  "bm_access_1_triggers_conflict t s a1 =
     record_and_query (\<lambda>h bm. bm_access_1 t h bm a1)
       (\<lambda>h bm. (if t = eLoad then bm_load_1_has_conflict_with else bm_store_1_has_conflict_with) h bm a1) s"

definition bm_access_2_triggers_conflict :: "BmAccessTypeT \<Rightarrow> drd_state \<Rightarrow> Addr \<Rightarrow> (drd_state \<times> bool) option" where
  "bm_access_2_triggers_conflict t s a1 =
    (if a1 AND 1 = 0 then
       record_and_query (\<lambda>h bm. bm_access_aligned t h bm a1 2)
         (\<lambda>h bm. bm_aligned_has_conflict_with t h bm a1 2) s
     else
       record_and_query (\<lambda>h bm. bm_access_range h bm a1 (a1 + 2) t)
         (\<lambda>h bm. bm_has_conflict_with t h bm a1 (a1 + 2)) s)"

definition bm_access_4_triggers_conflict :: "BmAccessTypeT \<Rightarrow> drd_state \<Rightarrow> Addr \<Rightarrow> (drd_state \<times> bool) option" where
  "bm_access_4_triggers_conflict t s a1 =
    (if a1 AND 3 = 0 then
       record_and_query (\<lambda>h bm. bm_access_aligned t h bm a1 4)
         (\<lambda>h bm. bm_aligned_has_conflict_with t h bm a1 4) s
     else
       record_and_query (\<lambda>h bm. bm_access_range h bm a1 (a1 + 4) t)
         (\<lambda>h bm. bm_has_conflict_with t h bm a1 (a1 + 4)) s)"

definition bm_access_8_triggers_conflict :: "BmAccessTypeT \<Rightarrow> drd_state \<Rightarrow> Addr \<Rightarrow> (drd_state \<times> bool) option" where
  "bm_access_8_triggers_conflict t s a1 =
    (if a1 AND 7 = 0 then
       record_and_query (\<lambda>h bm. bm_access_aligned t h bm a1 8)
         (\<lambda>h bm. bm_aligned_has_conflict_with t h bm a1 8) s
     else if a1 AND 3 = 0 then
       record_and_query (\<lambda>h bm. do {
           (h, bm) \<leftarrow> bm_access_aligned t h bm (a1 + 0) 4;
           bm_access_aligned t h bm (a1 + 4) 4 })
         (\<lambda>h bm. bm_has_conflict_with t h bm a1 (a1 + 8)) s
     else
       record_and_query (\<lambda>h bm. bm_access_range h bm a1 (a1 + 8) t)
         (\<lambda>h bm. bm_has_conflict_with t h bm a1 (a1 + 8)) s)"

definition bm_access_triggers_conflict ::
  "BmAccessTypeT \<Rightarrow> drd_state \<Rightarrow> Addr \<Rightarrow> Addr \<Rightarrow> (drd_state \<times> bool) option" where
  "bm_access_triggers_conflict t s a1 a2 =
     record_and_query (\<lambda>h bm. bm_access_range h bm a1 a2 t) (\<lambda>h bm. bm_has_conflict_with t h bm a1 a2) s"

definition drd_report_race :: "drd_state \<Rightarrow> Addr \<Rightarrow> SizeT \<Rightarrow> BmAccessTypeT \<Rightarrow> drd_state option" where
  "drd_report_race s a sz t = do {
     tid \<leftarrow> thread_get_running_tid s;
     Some (s\<lparr>races := races s @ [(tid, a, sz, t)]\<rparr>) }"

definition drd_trace ::
  "(drd_state \<Rightarrow> (drd_state \<times> bool) option) \<Rightarrow> drd_state \<Rightarrow> Addr \<Rightarrow> SizeT \<Rightarrow> BmAccessTypeT \<Rightarrow> drd_state option" where
  "drd_trace triggers_conflict s a sz t =
    (if running_thread_is_recording s \<and> (s_drd_check_stack_accesses s \<or> \<not> thread_address_on_stack s a)
     then do {
       (s, hit) \<leftarrow> triggers_conflict s;
       if hit then do {
         (s, suppressed) \<leftarrow> drd_is_suppressed s a (a + sz);
         if \<not> suppressed then drd_report_race s a sz t else Some s }
       else Some s }
     else Some s)"

definition drd_trace_load :: "drd_state \<Rightarrow> Addr \<Rightarrow> SizeT \<Rightarrow> drd_state option" where
  "drd_trace_load s a sz = drd_trace (\<lambda>s. bm_access_triggers_conflict eLoad s a (a + sz)) s a sz eLoad"

definition drd_trace_load_1 :: "drd_state \<Rightarrow> Addr \<Rightarrow> drd_state option" where
  "drd_trace_load_1 s a = drd_trace (\<lambda>s. bm_access_1_triggers_conflict eLoad s a) s a 1 eLoad"

definition drd_trace_load_2 :: "drd_state \<Rightarrow> Addr \<Rightarrow> drd_state option" where
  "drd_trace_load_2 s a = drd_trace (\<lambda>s. bm_access_2_triggers_conflict eLoad s a) s a 2 eLoad"

definition drd_trace_load_4 :: "drd_state \<Rightarrow> Addr \<Rightarrow> drd_state option" where
  "drd_trace_load_4 s a = drd_trace (\<lambda>s. bm_access_4_triggers_conflict eLoad s a) s a 4 eLoad"

definition drd_trace_load_8 :: "drd_state \<Rightarrow> Addr \<Rightarrow> drd_state option" where
  "drd_trace_load_8 s a = drd_trace (\<lambda>s. bm_access_8_triggers_conflict eLoad s a) s a 8 eLoad"

definition drd_trace_store :: "drd_state \<Rightarrow> Addr \<Rightarrow> SizeT \<Rightarrow> drd_state option" where
  "drd_trace_store s a sz = drd_trace (\<lambda>s. bm_access_triggers_conflict eStore s a (a + sz)) s a sz eStore"

definition drd_trace_store_1 :: "drd_state \<Rightarrow> Addr \<Rightarrow> drd_state option" where
  "drd_trace_store_1 s a = drd_trace (\<lambda>s. bm_access_1_triggers_conflict eStore s a) s a 1 eStore"

definition drd_trace_store_2 :: "drd_state \<Rightarrow> Addr \<Rightarrow> drd_state option" where
  "drd_trace_store_2 s a = drd_trace (\<lambda>s. bm_access_2_triggers_conflict eStore s a) s a 2 eStore"

definition drd_trace_store_4 :: "drd_state \<Rightarrow> Addr \<Rightarrow> drd_state option" where
  "drd_trace_store_4 s a = drd_trace (\<lambda>s. bm_access_4_triggers_conflict eStore s a) s a 4 eStore"

definition drd_trace_store_8 :: "drd_state \<Rightarrow> Addr \<Rightarrow> drd_state option" where
  "drd_trace_store_8 s a = drd_trace (\<lambda>s. bm_access_8_triggers_conflict eStore s a) s a 8 eStore"

end
