(* ===== verification/DRD_VC_Correct.thy ===== *)
theory DRD_VC_Correct
  imports DRD_VC
begin

text \<open>
  Correctness of the vector clocks. A well-formed clock is an ascending list of elements in its block;
  its meaning is the finite map \<open>clock\<close> from threads to counts. The loops are related to merges of
  ascending lists. The contract for the users of the clocks is the locale \<open>joined_clocks\<close>:
  happens-before is a preorder with least upper bounds.
\<close>

declare vc_skip.simps [simp del] vc_lte_loop.simps [simp del] vc_shared_loop.simps [simp del]
  vc_combine_skip.simps [simp del] vc_combine_loop.simps [simp del] vc_find.simps [simp del]
  vc_min_skip.simps [simp del] vc_min_loop.simps [simp del]

subsection \<open>Representation\<close>

text \<open>The elements in use, and the clock as a finite map from threads to counts.\<close>

definition live :: "VectorClock \<Rightarrow> VCElem list" where
  "live v = map the (take (unat (vsize v)) (vc v))"

definition amap :: "VCElem list \<Rightarrow> ThreadId \<Rightarrow> UInt option" where
  "amap xs = map_of (map (\<lambda>e. (threadid e, tcount e)) xs)"

abbreviation clock :: "VectorClock \<Rightarrow> ThreadId \<Rightarrow> UInt option" where
  "clock v \<equiv> amap (live v)"

abbreviation ascending :: "VCElem list \<Rightarrow> bool" where
  "ascending \<equiv> sorted_wrt (\<lambda>a b. threadid a < threadid b)"

text \<open>A block whose first slots hold the elements \<open>xs\<close>.\<close>

definition holds :: "VectorClock \<Rightarrow> VCElem list \<Rightarrow> bool" where
  "holds v xs \<longleftrightarrow> (\<exists>rest. vc v = map Some xs @ rest) \<and> length xs = unat (vsize v)
     \<and> length (vc v) = unat (capacity v)"

definition vc_wf :: "VectorClock \<Rightarrow> bool" where
  "vc_wf v \<longleftrightarrow> list_all (\<lambda>s. s \<noteq> None) (take (unat (vsize v)) (vc v))
     \<and> length (vc v) = unat (capacity v) \<and> vsize v \<le> capacity v \<and> ascending (live v)"

lemma holds_live: "holds v xs \<Longrightarrow> live v = xs"
  by (auto simp: holds_def live_def comp_def)

lemma vc_wf_iff: "vc_wf v \<longleftrightarrow> holds v (live v) \<and> ascending (live v)"
proof
  assume w: "vc_wf v"
  let ?t = "take (unat (vsize v)) (vc v)"
  have "map Some (map the ?t) = ?t"
    using w by (auto simp: vc_wf_def list_all_iff map_idI)
  then have "vc v = map Some (live v) @ drop (unat (vsize v)) (vc v)"
    by (simp add: live_def)
  then show "holds v (live v) \<and> ascending (live v)"
    using w by (auto simp: vc_wf_def holds_def live_def unat_le_iff intro: exI)
next
  assume h: "holds v (live v) \<and> ascending (live v)"
  then obtain rest where r: "vc v = map Some (live v) @ rest" "length (live v) = unat (vsize v)"
    "length (vc v) = unat (capacity v)" by (auto simp: holds_def)
  have "take (unat (vsize v)) (vc v) = map Some (live v)" using r(2) by (subst r(1)) simp
  moreover have "length (live v) \<le> length (vc v)" by (subst r(1)) simp
  ultimately show "vc_wf v" using h r by (simp add: vc_wf_def list_all_iff unat_le_iff)
qed

lemma vc_wfI: "holds v xs \<Longrightarrow> ascending xs \<Longrightarrow> vc_wf v"
  by (simp add: vc_wf_iff holds_live)

lemma vc_wf_holds: "vc_wf v \<Longrightarrow> holds v (live v)"
  and vc_wf_ascending: "vc_wf v \<Longrightarrow> ascending (live v)"
  by (simp_all add: vc_wf_iff)

lemma holds_size: "holds v xs \<Longrightarrow> unat (vsize v) = length xs"
  by (simp add: holds_def)

lemma holds_bound: "holds v xs \<Longrightarrow> length xs \<le> unat (capacity v)"
  by (auto simp: holds_def)

lemma holds_at: "holds v (pre @ x # post) \<Longrightarrow> i = length pre \<Longrightarrow> vc_at v i = Some x"
  by (auto simp: holds_def vc_at_def nth_append)

lemma holds_nth: "holds v xs \<Longrightarrow> i < length xs \<Longrightarrow> vc_at v i = Some (xs ! i)"
  by (auto simp: holds_def vc_at_def nth_append)

text \<open>Writing a slot in use, and the first free slot.\<close>

lemma holds_put:
  assumes "holds v (pre @ x # post)" "i = length pre"
  obtains v' where "vc_put v i y = Some v'" "holds v' (pre @ y # post)"
    "vsize v' = vsize v" "capacity v' = capacity v"
proof (rule that)
  show "vc_put v i y = Some (v\<lparr>vc := (vc v)[i := Some y]\<rparr>)"
    using assms by (auto simp: vc_put_def holds_def)
  show "holds (v\<lparr>vc := (vc v)[i := Some y]\<rparr>) (pre @ y # post)"
    using assms by (auto simp: holds_def list_update_append)
qed simp_all

lemma unat_Suc_word: "unat (x :: 32 word) < unat (y :: 32 word) \<Longrightarrow> unat (x + 1) = Suc (unat x)"
  using unsigned_less [of y, where 'a = nat] by (simp add: unat_word_ariths)

text \<open>The shift moves the tail up by one slot and leaves the slot at \<open>i\<close> open.\<close>

lemma vc_shift_eq:
  assumes "vc v = map Some pre @ map Some post @ r # rest"
  shows "\<exists>s. vc_shift v (length pre) (length post)
    = Some (v\<lparr>vc := map Some pre @ s # map Some post @ rest\<rparr>)"
  using assms
proof (induction post arbitrary: v r rest rule: rev_induct)
  case Nil
  then show ?case by (cases v) auto
next
  case (snoc z post)
  let ?v = "v\<lparr>vc := map Some pre @ map Some post @ Some z # Some z # rest\<rparr>"
  have at: "vc_at v (length pre + length post) = Some z"
    using snoc.prems by (simp add: vc_at_def nth_append)
  have put: "vc_put v (length pre + Suc (length post)) z = Some ?v"
    using snoc.prems by (simp add: vc_put_def list_update_append)
  obtain s where "vc_shift ?v (length pre) (length post)
      = Some (?v\<lparr>vc := map Some pre @ s # map Some post @ Some z # rest\<rparr>)"
    using snoc.IH [of ?v "Some z" "Some z # rest"] by auto
  then show ?case using at put by auto
qed

lemma holds_open:
  assumes "holds v xs" "length xs < unat (capacity v)"
  obtains r rest where "vc v = map Some xs @ r # rest"
proof -
  from assms(1) obtain rest where r: "vc v = map Some xs @ rest" by (auto simp: holds_def)
  moreover have "rest \<noteq> []" using assms r by (auto simp: holds_def)
  ultimately show thesis using that by (cases rest) auto
qed

lemma holds_size_Suc:
  assumes "holds v xs" "length xs < unat (capacity v)"
  shows "unat (vsize v + 1) = Suc (length xs)"
  using assms by (simp add: holds_size unat_Suc_word)

text \<open>Inserting before the element at \<open>i\<close>, and appending.\<close>

lemma holds_insert:
  assumes "holds v (pre @ post)" "length (pre @ post) < unat (capacity v)"
    and "i = length pre" "n = unat (vsize v) - i"
  obtains v1 v2 where "vc_shift v i n = Some v1"
    "vc_put (v1\<lparr>vsize := vsize v1 + 1\<rparr>) i f = Some v2"
    "holds v2 (pre @ f # post)" "capacity v2 = capacity v"
proof -
  obtain r rest where vc: "vc v = map Some pre @ map Some post @ r # rest"
    using holds_open [OF assms(1,2)] by auto
  obtain s where s: "vc_shift v i n = Some (v\<lparr>vc := map Some pre @ s # map Some post @ rest\<rparr>)"
    using vc_shift_eq [OF vc] assms(3,4) holds_size [OF assms(1)] by auto
  have sz: "unat (vsize v + 1) = Suc (length (pre @ post))" by (rule holds_size_Suc [OF assms(1,2)])
  show thesis
  proof (rule that [OF s])
    let ?w = "v\<lparr>vc := map Some pre @ Some f # map Some post @ rest, vsize := vsize v + 1\<rparr>"
    show "vc_put ((v\<lparr>vc := map Some pre @ s # map Some post @ rest\<rparr>)\<lparr>vsize :=
        vsize (v\<lparr>vc := map Some pre @ s # map Some post @ rest\<rparr>) + 1\<rparr>) i f = Some ?w"
      using assms(3) by (simp add: vc_put_def list_update_append)
    show "holds ?w (pre @ f # post)"
      using assms(1) vc sz by (simp add: holds_def)
    show "capacity ?w = capacity v" by simp
  qed
qed

lemma holds_append:
  assumes "holds v xs" "length xs < unat (capacity v)" "i = length xs"
  obtains v2 where "vc_put (v\<lparr>vsize := vsize v + 1\<rparr>) i f = Some v2"
    "holds v2 (xs @ [f])" "capacity v2 = capacity v"
proof -
  obtain r rest where vc: "vc v = map Some xs @ r # rest" by (rule holds_open [OF assms(1,2)])
  have sz: "unat (vsize v + 1) = Suc (length xs)" by (rule holds_size_Suc [OF assms(1,2)])
  show thesis
  proof (rule that)
    let ?w = "v\<lparr>vc := map Some xs @ Some f # rest, vsize := vsize v + 1\<rparr>"
    show "vc_put (v\<lparr>vsize := vsize v + 1\<rparr>) i f = Some ?w"
      using assms(3) vc by (simp add: vc_put_def list_update_append)
    show "holds ?w (xs @ [f])" using assms(1) vc sz by (simp add: holds_def)
    show "capacity ?w = capacity v" by simp
  qed
qed

subsection \<open>The invariant test\<close>

lemma vc_check_order_ok:
  assumes "holds v xs" "ascending xs" "n < length xs"
  shows "vc_check_order v n = Some ()"
  using assms(3)
  by (induction n) (auto simp: holds_nth [OF assms(1)] sorted_wrt_nth_less [OF assms(2)])

lemma vc_check_ok [asserts]: "holds v xs \<Longrightarrow> ascending xs \<Longrightarrow> vc_check v = Some ()"
  by (cases "xs = []")
    (auto simp: vc_check_def holds_size unat_le_iff holds_bound intro: vc_check_order_ok)

text \<open>The test is complete: it passes only on ascending clocks.\<close>

lemma vc_check_order_imp:
  assumes "holds v xs" "vc_check_order v n = Some ()" "n < length xs"
  shows "\<forall>i < n. threadid (xs ! i) < threadid (xs ! Suc i)"
  using assms(2,3)
  by (induction n) (auto simp: holds_nth [OF assms(1)] bind_Some_iff less_Suc_eq)

lemma vc_check_iff:
  assumes "holds v xs"
  shows "vc_check v = Some () \<longleftrightarrow> ascending xs"
proof
  assume c: "vc_check v = Some ()"
  have "vc_check_order v (length xs - 1) = Some ()"
    using c assms by (auto simp: vc_check_def holds_size split: if_splits)
  then have "\<forall>i < length xs - 1. threadid (xs ! i) < threadid (xs ! Suc i)"
    using vc_check_order_imp [OF assms] by (cases "xs = []") auto
  then show "ascending xs"
    by (subst sorted_wrt_iff_nth_Suc_transp) (auto simp: transp_def)
qed (rule vc_check_ok [OF assms])

subsection \<open>Construction\<close>

lemma vc_reserve_holds:
  assumes "holds v xs"
  obtains v' where "vc_reserve v n = Some v'" "holds v' xs" "vsize v' = vsize v"
    "capacity v' = max (capacity v) n"
proof (cases "n > capacity v")
  case True
  then have lt: "unat (capacity v) < unat n" by (simp add: unat_less_iff)
  obtain rest where r: "vc v = map Some xs @ rest" using assms by (auto simp: holds_def)
  have len: "length xs + length rest = unat (capacity v)" using assms r by (auto simp: holds_def)
  let ?v = "v\<lparr>vc := take (unat n) (vc v @ replicate (unat n) None), capacity := n\<rparr>"
  show ?thesis
  proof (rule that [of ?v])
    show "vc_reserve v n = Some ?v" using True lt by (auto simp: vc_reserve_def)
    show "holds ?v xs" using assms r lt len by (auto simp: holds_def)
  qed (use True in \<open>simp_all add: max_def less_imp_le\<close>)
next
  case False
  have "n = 0 \<or> vc v \<noteq> []"
    using assms False by (auto simp: holds_def unat_less_iff unat_eq_iff)
  with False assms show ?thesis by (intro that [of v]) (auto simp: vc_reserve_def max_def not_less)
qed

lemma vc_init_holds:
  assumes "vcelem = map Some xs @ rest" "length xs = unat n"
  obtains v where "vc_init vcelem n = Some v" "holds v xs" "capacity v = n"
proof -
  have h: "holds \<lparr>capacity = 0, vsize = 0, vc = []\<rparr> []" by (simp add: holds_def)
  obtain v where v: "vc_reserve \<lparr>capacity = 0, vsize = 0, vc = []\<rparr> n = Some v" "holds v []"
    "vsize v = 0" "capacity v = n"
    by (rule vc_reserve_holds [OF h, of n]) (use word_zero_le [of n] in \<open>simp add: max_def\<close>)
  have len: "length (vc v) = unat n" using v by (simp add: holds_def)
  show thesis
  proof (cases "vcelem = []")
    case True
    then have "n = 0" "xs = []" using assms by (auto simp: unat_eq_0)
    with True v len show thesis by (intro that [of v]) (auto simp: vc_init_def)
  next
    case False
    let ?v = "v\<lparr>vc := map Some xs, vsize := n\<rparr>"
    show thesis
    proof (rule that [of ?v])
      show "vc_init vcelem n = Some ?v"
        using False v len assms by (auto simp: vc_init_def unat_eq_0 [symmetric])
      show "holds ?v xs" using assms v by (simp add: holds_def)
    qed (use v in simp)
  qed
qed

subsection \<open>Association lists\<close>

lemma amap_simps [simp]:
  "amap [] t = None"
  "amap (x # xs) t = (if threadid x = t then Some (tcount x) else amap xs t)"
  by (auto simp: amap_def)

lemma amap_append: "amap (xs @ ys) t = (case amap xs t of None \<Rightarrow> amap ys t | Some c \<Rightarrow> Some c)"
  by (induction xs) auto

lemma amap_None_iff: "amap xs t = None \<longleftrightarrow> (\<forall>x \<in> set xs. threadid x \<noteq> t)"
  by (induction xs) auto

lemma amap_above [simp]: "\<forall>x \<in> set xs. t < threadid x \<Longrightarrow> amap xs t = None"
  by (auto simp: amap_None_iff)

lemma amap_below_head: "ascending (y # ys) \<Longrightarrow> t < threadid y \<Longrightarrow> amap (y # ys) t = None"
  by (auto simp: amap_None_iff simp del: amap_simps)

lemma amap_in: "ascending xs \<Longrightarrow> x \<in> set xs \<Longrightarrow> amap xs (threadid x) = Some (tcount x)"
  by (induction xs) auto

lemma amap_SomeD: "amap xs t = Some c \<Longrightarrow> \<exists>x \<in> set xs. threadid x = t \<and> tcount x = c"
  by (induction xs) (auto split: if_splits)

text \<open>Ascending lists are determined by their maps.\<close>

lemma ascending_amap_inj:
  assumes "ascending xs" "ascending ys" "amap xs = amap ys"
  shows "xs = ys"
  using assms
proof (induction xs arbitrary: ys)
  case Nil
  then show ?case
    by (cases ys) (auto simp: fun_eq_iff dest: spec [of _ "threadid (hd ys)"])
next
  case (Cons x xs)
  note eq = fun_cong [OF Cons.prems(3)]
  obtain y ys' where ys: "ys = y # ys'" using eq [of "threadid x"] by (cases ys) auto
  have "threadid x = threadid y"
  proof (rule linorder_cases)
    assume "threadid x < threadid y"
    then show ?thesis using eq [of "threadid x"] amap_below_head Cons.prems(2) ys
      by (metis amap_simps(2) option.distinct(1))
  next
    assume "threadid y < threadid x"
    then show ?thesis using eq [of "threadid y"] amap_below_head Cons.prems(1) ys
      by (metis amap_simps(2) option.distinct(1))
  qed
  moreover from this have "tcount x = tcount y" using eq [of "threadid x"] ys by auto
  ultimately have "x = y" by (cases x, cases y) simp
  moreover have "amap xs = amap ys'"
  proof
    fix t show "amap xs t = amap ys' t"
      using eq [of t] Cons.prems(1,2) ys \<open>x = y\<close> by (cases "threadid x = t") auto
  qed
  ultimately show ?case using Cons ys by auto
qed

subsection \<open>Merging two ascending lists\<close>

fun vmerge :: "VCElem list \<Rightarrow> VCElem list \<Rightarrow> VCElem list" where
  "vmerge xs [] = xs"
| "vmerge [] (y # ys) = y # vmerge [] ys"
| "vmerge (x # xs) (y # ys) =
    (if threadid x < threadid y then x # vmerge xs (y # ys)
     else if threadid y < threadid x then y # vmerge (x # xs) ys
     else x\<lparr>tcount := max (tcount x) (tcount y)\<rparr> # vmerge xs ys)"

definition cmax :: "UInt option \<Rightarrow> UInt option \<Rightarrow> UInt option" where
  "cmax a b = (case a of None \<Rightarrow> b | Some m \<Rightarrow> (case b of None \<Rightarrow> a | Some n \<Rightarrow> Some (max m n)))"

lemma cmax_simps [simp]: "cmax None b = b" "cmax a None = a" "cmax (Some m) (Some n) = Some (max m n)"
  by (auto simp: cmax_def split: option.splits)

lemma vmerge_Nil [simp]: "vmerge [] ys = ys"
  by (induction ys) auto

lemma vmerge_threads: "threadid ` set (vmerge xs ys) = threadid ` set xs \<union> threadid ` set ys"
  by (induction xs ys rule: vmerge.induct) auto

lemma vmerge_ascending:
  assumes "ascending xs" "ascending ys"
  shows "ascending (vmerge xs ys)"
proof -
  have all: "(\<forall>z \<in> set (vmerge xs ys). t < threadid z)
      \<longleftrightarrow> (\<forall>z \<in> set xs. t < threadid z) \<and> (\<forall>z \<in> set ys. t < threadid z)" for t xs ys
  proof -
    have "(\<forall>u \<in> threadid ` set (vmerge xs ys). t < u)
      \<longleftrightarrow> (\<forall>u \<in> threadid ` set xs \<union> threadid ` set ys. t < u)"
      by (simp only: vmerge_threads)
    then show ?thesis by (simp add: ball_Un)
  qed
  show ?thesis using assms
    by (induction xs ys rule: vmerge.induct) (auto simp: all dest: order_less_trans)
qed

lemma vmerge_amap:
  assumes "ascending xs" "ascending ys"
  shows "amap (vmerge xs ys) t = cmax (amap xs t) (amap ys t)"
  using assms
proof (induction xs ys rule: vmerge.induct)
  case (3 x xs y ys)
  consider (less) "threadid x < threadid y" | (greater) "threadid y < threadid x"
    | (equal) "threadid x = threadid y"
    by force
  then show ?case
  proof cases
    case less
    then have "amap (y # ys) (threadid x) = None" using "3.prems" by (intro amap_below_head)
    with less 3 show ?thesis by (auto split: if_splits)
  next
    case greater
    then have "amap (x # xs) (threadid y) = None" using "3.prems" by (intro amap_below_head)
    with greater 3 show ?thesis by (auto split: if_splits)
  next
    case equal
    with 3 show ?thesis by simp
  qed
qed simp_all

lemma vmerge_le_head: "(\<forall>y \<in> set ys. threadid x < threadid y) \<Longrightarrow> vmerge (x # xs) ys = x # vmerge xs ys"
  by (cases ys) auto

text \<open>The number of threads the two lists share.\<close>

fun vshared :: "VCElem list \<Rightarrow> VCElem list \<Rightarrow> nat" where
  "vshared xs [] = 0"
| "vshared [] ys = 0"
| "vshared (x # xs) (y # ys) =
    (if threadid y < threadid x then vshared (x # xs) ys
     else if threadid x = threadid y then Suc (vshared xs (y # ys))
     else vshared xs (y # ys))"

lemma vshared_Nil [simp]: "vshared [] ys = 0"
  by (cases ys) auto

lemma vshared_drop: "\<forall>x \<in> set xs. threadid y < threadid x \<Longrightarrow> vshared xs (y # ys) = vshared xs ys"
  by (cases xs) auto

lemma vmerge_length:
  assumes "ascending xs" "ascending ys"
  shows "length (vmerge xs ys) + vshared xs ys = length xs + length ys"
  using assms
proof (induction xs ys rule: vmerge.induct)
  case (3 x xs y ys)
  consider "threadid x < threadid y" | "threadid y < threadid x" | "threadid x = threadid y"
    by force
  then show ?case
  proof cases
    case 3
    then have "vshared xs (y # ys) = vshared xs ys"
      using "3.prems" by (intro vshared_drop) auto
    with 3 "3.IH" "3.prems" show ?thesis by auto
  qed (use "3.IH" "3.prems" in auto)
qed auto

declare dropWhile_eq_Nil_conv [simp del]

subsection \<open>Comparison\<close>

abbreviation below :: "ThreadId \<Rightarrow> VCElem list \<Rightarrow> VCElem list" where
  "below t \<equiv> takeWhile (\<lambda>e. threadid e < t)"

abbreviation from_on :: "ThreadId \<Rightarrow> VCElem list \<Rightarrow> VCElem list" where
  "from_on t \<equiv> dropWhile (\<lambda>e. threadid e < t)"

lemma below_less: "x \<in> set (below t xs) \<Longrightarrow> threadid x < t"
  by (auto dest: set_takeWhileD)

lemma ascending_from_on: "ascending xs \<Longrightarrow> ascending (from_on t xs)"
  by (rule sorted_wrt_dropWhile)

lemma amap_from_on: "t \<le> u \<Longrightarrow> amap (from_on t xs) u = amap xs u"
  by (induction xs) auto

lemma from_on_ge: "ascending xs \<Longrightarrow> x \<in> set (from_on t xs) \<Longrightarrow> t \<le> threadid x"
  by (induction xs) (auto simp: not_less split: if_splits)

lemma vc_skip_eq:
  assumes "holds v (pre @ xs)"
  shows "vc_skip v t (length pre) = Some (length (pre @ below t xs))"
  using assms
proof (induction xs arbitrary: pre)
  case Nil
  then show ?case by (subst vc_skip.simps) (simp add: holds_size)
next
  case (Cons x xs)
  have at: "vc_at v (length pre) = Some x" using Cons.prems by (rule holds_at) simp
  have "vc_skip v t (length (pre @ [x])) = Some (length ((pre @ [x]) @ below t xs))"
    using Cons.prems by (intro Cons.IH) simp
  with at show ?case
    by (subst vc_skip.simps) (simp add: holds_size [OF Cons.prems])
qed

definition vlte :: "VCElem list \<Rightarrow> VCElem list \<Rightarrow> bool" where
  "vlte xs ys \<longleftrightarrow> (\<forall>x \<in> set xs. \<exists>c. amap ys (threadid x) = Some c \<and> tcount x \<le> c)"

lemma vlte_from_on:
  assumes "\<forall>x \<in> set xs. t \<le> threadid x"
  shows "vlte xs (from_on t ys) \<longleftrightarrow> vlte xs ys"
  using assms by (auto simp: vlte_def amap_from_on)

lemma vc_lte_loop_eq:
  assumes "holds vc1 (pre @ xs)" "holds vc2 (qre @ ys)" "ascending xs" "ascending ys"
  shows "vc_lte_loop vc1 vc2 (length pre) (length qre) = Some (vlte xs ys)"
  using assms
proof (induction xs arbitrary: pre qre ys)
  case Nil
  then show ?case by (subst vc_lte_loop.simps) (simp add: holds_size vlte_def)
next
  case (Cons x xs)
  let ?b = "below (threadid x) ys" and ?f = "from_on (threadid x) ys"
  have at: "vc_at vc1 (length pre) = Some x" using Cons.prems(1) by (rule holds_at) simp
  have skip: "vc_skip vc2 (threadid x) (length qre) = Some (length (qre @ ?b))"
    by (rule vc_skip_eq [OF Cons.prems(2)])
  have h2: "holds vc2 ((qre @ ?b) @ ?f)" using Cons.prems(2) by simp
  have eq: "amap ys (threadid x) = amap ?f (threadid x)" by (simp add: amap_from_on)
  have asc: "ascending ?f" using Cons.prems(4) by (rule ascending_from_on)
  show ?case
  proof (cases ?f)
    case Nil
    then have "amap ys (threadid x) = None" using eq by (simp only: amap_simps)
    then have "\<not> vlte (x # xs) ys" by (simp add: vlte_def)
    moreover have "unat (vsize vc2) \<le> length (qre @ ?b)" using h2 Nil by (simp add: holds_size)
    ultimately show ?thesis using at skip
      by (subst vc_lte_loop.simps) (simp add: holds_size [OF Cons.prems(1)])
  next
    case (Cons y zs)
    have at2: "vc_at vc2 (length (qre @ ?b)) = Some y"
      using h2 Cons by (intro holds_at [of _ "qre @ ?b" y zs]) simp_all
    have lt: "length (qre @ ?b) < unat (vsize vc2)" using h2 Cons by (simp add: holds_size)
    have ge: "threadid x \<le> threadid y" using from_on_ge [OF Cons.prems(4)] Cons by auto
    have IH: "vc_lte_loop vc1 vc2 (length (pre @ [x])) (length (qre @ ?b)) = Some (vlte xs ?f)"
      using Cons.prems h2 asc by (intro Cons.IH) simp_all
    have "vlte xs ?f = vlte xs ys" using Cons.prems(3) by (intro vlte_from_on) auto
    moreover have "(\<exists>c. amap ys (threadid x) = Some c \<and> tcount x \<le> c)
        \<longleftrightarrow> \<not> threadid x < threadid y \<and> \<not> tcount y < tcount x"
    proof (cases "threadid x < threadid y")
      case True
      then have "amap ys (threadid x) = None" using eq asc Cons by (simp only: amap_below_head)
      with True show ?thesis by simp
    qed (use ge eq Cons in \<open>auto simp: not_less\<close>)
    then have "vlte (x # xs) ys \<longleftrightarrow> \<not> threadid x < threadid y \<and> \<not> tcount y < tcount x \<and> vlte xs ys"
      by (simp add: vlte_def)
    ultimately show ?thesis using at skip at2 lt IH
      by (subst vc_lte_loop.simps) (simp add: holds_size [OF Cons.prems(1)])
  qed
qed

lemma vc_lte_eq:
  assumes "vc_wf vc1" "vc_wf vc2"
  shows "vc_lte vc1 vc2 = Some (vlte (live vc1) (live vc2))"
  using vc_lte_loop_eq [of vc1 "[]" "live vc1" vc2 "[]" "live vc2"] assms
  by (simp add: vc_lte_def vc_wf_iff)

lemma vlte_amap:
  assumes "ascending xs"
  shows "vlte xs ys \<longleftrightarrow> (\<forall>t c. amap xs t = Some c \<longrightarrow> (\<exists>d. amap ys t = Some d \<and> c \<le> d))"
  using amap_in [OF assms] by (fastforce simp: vlte_def dest: amap_SomeD)

subsection \<open>Counting the shared threads\<close>

lemma vshared_from_on:
  assumes "\<forall>x \<in> set xs. t \<le> threadid x"
  shows "vshared xs (from_on t ys) = vshared xs ys"
proof (induction ys)
  case (Cons y ys)
  show ?case
  proof (cases "threadid y < t")
    case True
    then have "vshared xs (y # ys) = vshared xs ys"
      using assms by (intro vshared_drop) (auto dest: order_less_le_trans)
    with True Cons show ?thesis by simp
  qed simp
qed simp

lemma vc_shared_loop_eq:
  assumes "holds result (pre @ xs)" "holds rhs (qre @ ys)" "ascending xs" "ascending ys"
  shows "vc_shared_loop result rhs (length pre) (length qre) n = Some (n + of_nat (vshared xs ys))"
  using assms
proof (induction xs arbitrary: pre qre ys n)
  case Nil
  then show ?case by (subst vc_shared_loop.simps) (simp add: holds_size)
next
  case (Cons x xs)
  let ?b = "below (threadid x) ys" and ?f = "from_on (threadid x) ys"
  have at: "vc_at result (length pre) = Some x" using Cons.prems(1) by (rule holds_at) simp
  have skip: "vc_skip rhs (threadid x) (length qre) = Some (length (qre @ ?b))"
    by (rule vc_skip_eq [OF Cons.prems(2)])
  have h2: "holds rhs ((qre @ ?b) @ ?f)" using Cons.prems(2) by simp
  have asc: "ascending ?f" using Cons.prems(4) by (rule ascending_from_on)
  have eq: "vshared (x # xs) ys = vshared (x # xs) ?f"
    using Cons.prems(3) by (intro vshared_from_on [symmetric]) auto
  show ?case
  proof (cases ?f)
    case Nil
    then have "vshared (x # xs) ys = 0" using eq by (simp only: vshared.simps)
    moreover have "unat (vsize rhs) \<le> length (qre @ ?b)" using h2 Nil by (simp add: holds_size)
    ultimately show ?thesis using at skip
      by (subst vc_shared_loop.simps) (simp add: holds_size [OF Cons.prems(1)])
  next
    case (Cons y zs)
    have at2: "vc_at rhs (length (qre @ ?b)) = Some y"
      using h2 Cons by (intro holds_at [of _ "qre @ ?b" y zs]) simp_all
    have lt: "length (qre @ ?b) < unat (vsize rhs)" using h2 Cons by (simp add: holds_size)
    have ge: "threadid x \<le> threadid y" using from_on_ge [OF Cons.prems(4)] Cons by auto
    have IH: "vc_shared_loop result rhs (length (pre @ [x])) (length (qre @ ?b)) m
        = Some (m + of_nat (vshared xs ?f))" for m
      using Cons.prems h2 asc by (intro Cons.IH) simp_all
    show ?thesis using at skip at2 lt IH eq Cons ge
      by (subst vc_shared_loop.simps) (auto simp: holds_size [OF Cons.prems(1)] algebra_simps)
  qed
qed

subsection \<open>Elementwise maximum\<close>

lemma vc_combine_skip_eq:
  assumes "holds v (pre @ xs)"
  shows "vc_combine_skip v t tid (length pre) ae
    = Some (length (pre @ below t xs), ae \<and> (\<forall>e \<in> set (below t xs). threadid e = tid))"
  using assms
proof (induction xs arbitrary: pre ae)
  case Nil
  then show ?case by (subst vc_combine_skip.simps) (simp add: holds_size)
next
  case (Cons x xs)
  have at: "vc_at v (length pre) = Some x" using Cons.prems by (rule holds_at) simp
  have "vc_combine_skip v t tid (length (pre @ [x])) (ae \<and> threadid x = tid)
    = Some (length ((pre @ [x]) @ below t xs),
        (ae \<and> threadid x = tid) \<and> (\<forall>e \<in> set (below t xs). threadid e = tid))"
    using Cons.prems by (intro Cons.IH) simp
  with at show ?case
    by (subst vc_combine_skip.simps) (auto simp: holds_size [OF Cons.prems])
qed

text \<open>The list after one step, from the position of the step on.\<close>

fun vplace :: "VCElem \<Rightarrow> VCElem list \<Rightarrow> VCElem list" where
  "vplace y [] = [y]"
| "vplace y (x # xs) =
    (if threadid x = threadid y then x\<lparr>tcount := max (tcount x) (tcount y)\<rparr> # xs else y # x # xs)"

lemma vmerge_below: "vmerge xs (y # ys) = below (threadid y) xs @ vmerge (from_on (threadid y) xs) (y # ys)"
  by (induction xs) auto

lemma vmerge_place:
  assumes "ascending xs" "\<forall>z \<in> set ys. threadid y < threadid z"
  shows "vmerge xs (y # ys) = below (threadid y) xs @ vmerge (vplace y (from_on (threadid y) xs)) ys"
proof (cases "from_on (threadid y) xs")
  case Nil
  then show ?thesis using assms vmerge_le_head [of ys y "[]"] by (subst vmerge_below) simp
next
  case (Cons x zs)
  have "threadid y \<le> threadid x" using from_on_ge [OF assms(1)] Cons by auto
  then show ?thesis using Cons assms(2) vmerge_le_head [of ys y "x # zs"]
      vmerge_le_head [of ys "x\<lparr>tcount := max (tcount x) (tcount y)\<rparr>" zs]
    by (subst vmerge_below) auto
qed

lemma vmerge_length_ge: "length xs \<le> length (vmerge xs ys)"
  by (induction xs ys rule: vmerge.induct) auto

lemma vplace_length: "length xs \<le> length (vplace y xs)"
  by (cases xs) auto

lemma vc_combine_step_eq:
  assumes h: "holds v (pre @ xs)" and asc: "ascending xs"
    and room: "length (pre @ below (threadid f) xs @ vplace f (from_on (threadid f) xs))
      \<le> unat (capacity v)"
  obtains v' where
    "vc_combine_step tid f (v, length pre, ae)
      = Some (v', length (pre @ below (threadid f) xs),
          ae \<and> (\<forall>e \<in> set (below (threadid f) xs). threadid e = tid)
             \<and> (threadid f = tid \<or> amap xs (threadid f) = Some (tcount f)))"
    "holds v' ((pre @ below (threadid f) xs) @ vplace f (from_on (threadid f) xs))"
    "capacity v' = capacity v"
proof -
  let ?p = "pre @ below (threadid f) xs" and ?fr = "from_on (threadid f) xs"
  have h': "holds v (?p @ ?fr)" using h by simp
  have skip: "vc_combine_skip v (threadid f) tid (length pre) ae
    = Some (length ?p, ae \<and> (\<forall>e \<in> set (below (threadid f) xs). threadid e = tid))"
    by (rule vc_combine_skip_eq [OF h])
  have am: "amap xs (threadid f) = amap ?fr (threadid f)" by (simp add: amap_from_on)
  have ascf: "ascending ?fr" using asc by (rule ascending_from_on)
  consider (nil) "?fr = []" | (ins) x zs where "?fr = x # zs" "threadid f < threadid x"
    | (eq) x zs where "?fr = x # zs" "threadid f = threadid x"
  proof (cases ?fr)
    case (Cons x zs)
    then have "threadid f \<le> threadid x" using from_on_ge [OF asc] by simp
    with Cons ins eq show thesis by (cases "threadid f = threadid x") auto
  qed (rule nil)
  then show thesis
  proof cases
    case nil
    have hp: "holds v ?p" using h' nil by (simp only: append_Nil2)
    have "length ?p < unat (capacity v)" using room nil by simp
    from holds_append [OF hp this refl, of f] obtain v' where
      v': "vc_put (v\<lparr>vsize := vsize v + 1\<rparr>) (length ?p) f = Some v'" "holds v' (?p @ [f])"
        "capacity v' = capacity v" .
    have none: "amap xs (threadid f) = None" using am by (simp only: nil amap_simps)
    show thesis
      by (rule that [of v']) (use skip v' none hp nil in \<open>simp_all add: vc_combine_step_def holds_size\<close>)
  next
    case ins
    have "length (?p @ ?fr) < unat (capacity v)" using room ins by (auto split: if_splits)
    from holds_insert [OF h' this refl refl, of f] obtain v1 v' where
      v': "vc_shift v (length ?p) (unat (vsize v) - length ?p) = Some v1"
        "vc_put (v1\<lparr>vsize := vsize v1 + 1\<rparr>) (length ?p) f = Some v'"
        "holds v' (?p @ f # ?fr)" "capacity v' = capacity v" .
    have at: "vc_at v (length ?p) = Some x" using h' ins by (intro holds_at [of _ ?p x zs]) simp_all
    have lt: "length ?p < unat (vsize v)" using h' ins by (simp add: holds_size)
    have none: "amap xs (threadid f) = None"
      using am ins ascf by (simp only: amap_below_head)
    show thesis
      by (rule that [of v'])
        (use skip v' none lt at ins in \<open>auto simp: vc_combine_step_def\<close>)
  next
    case eq
    let ?m = "x\<lparr>tcount := max (tcount x) (tcount f)\<rparr>"
    have hx: "holds v (?p @ x # zs)" using h' by (simp only: eq(1))
    have at: "vc_at v (length ?p) = Some x" using hx by (rule holds_at) simp
    have lt: "length ?p < unat (vsize v)" using hx by (simp add: holds_size)
    have some: "amap xs (threadid f) = Some (tcount x)" using am eq by simp
    obtain v' where v': "(if tcount x < tcount f then vc_put v (length ?p) (x\<lparr>tcount := tcount f\<rparr>)
        else Some v) = Some v'" "holds v' (?p @ ?m # zs)" "capacity v' = capacity v"
    proof (cases "tcount x < tcount f")
      case True
      obtain v' where "vc_put v (length ?p) (x\<lparr>tcount := tcount f\<rparr>) = Some v'"
        "holds v' (?p @ x\<lparr>tcount := tcount f\<rparr> # zs)" "vsize v' = vsize v" "capacity v' = capacity v"
        by (rule holds_put [OF hx refl])
      with True show thesis by (intro that [of v']) (simp_all add: max_def less_imp_le)
    next
      case False
      then have "max (tcount x) (tcount f) = tcount x" by (simp add: not_less)
      with False hx show thesis by (intro that [of v]) simp_all
    qed
    have step: "vc_combine_step tid f (v, length pre, ae)
      = Some (v', length ?p, (ae \<and> (\<forall>e \<in> set (below (threadid f) xs). threadid e = tid))
          \<and> (threadid x = tid \<or> tcount f = tcount x))"
      using skip v'(1) lt at eq(2) by (cases "tcount x < tcount f") (simp_all add: vc_combine_step_def)
    have agree: "(threadid x = tid \<or> tcount f = tcount x)
        \<longleftrightarrow> (threadid f = tid \<or> Some (tcount x) = Some (tcount f))"
      using eq(2) by fastforce
    show thesis
    proof (rule that [of v'])
      show "vc_combine_step tid f (v, length pre, ae) = Some (v', length ?p,
          ae \<and> (\<forall>e \<in> set (below (threadid f) xs). threadid e = tid)
             \<and> (threadid f = tid \<or> amap xs (threadid f) = Some (tcount f)))"
        unfolding step some agree by (simp only: conj_assoc)
      show "holds v' (?p @ vplace f ?fr)" using v'(2) by (simp only: eq(1) vplace.simps eq(2) [symmetric] refl if_True)
    qed (rule v'(3))
  qed
qed

text \<open>
  What \<^verbatim>\<open>almost_equal\<close> amounts to: below the last thread of the right-hand side no thread other than
  \<open>tid\<close> has an element in either clock, and the last element itself is \<open>tid\<close>'s or agrees.
\<close>

definition almost :: "ThreadId \<Rightarrow> VCElem list \<Rightarrow> VCElem list \<Rightarrow> bool" where
  "almost tid xs ys \<longleftrightarrow> ys = [] \<or>
     (\<forall>e \<in> set xs \<union> set ys. threadid e < threadid (last ys) \<longrightarrow> threadid e = tid)
     \<and> (threadid (last ys) = tid \<or> amap xs (threadid (last ys)) = Some (tcount (last ys)))"

lemma vplace_threads: "threadid ` set (vplace y xs) = insert (threadid y) (threadid ` set xs)"
  by (cases xs) auto

lemma vplace_amap: "t \<noteq> threadid y \<Longrightarrow> amap (vplace y xs) t = amap xs t"
  by (cases xs) auto

lemma ascending_place:
  assumes "ascending xs"
  shows "ascending (vplace y (from_on (threadid y) xs))"
proof (cases "from_on (threadid y) xs")
  case (Cons x zs)
  have "ascending (x # zs)" using ascending_from_on [OF assms, of "threadid y"] Cons by simp
  have "threadid y \<le> threadid x" using from_on_ge [OF assms] Cons by auto
  then consider "threadid x = threadid y" | "threadid y < threadid x" by force
  then show ?thesis
    by cases (use Cons \<open>ascending (x # zs)\<close> order_less_trans in \<open>simp, fastforce\<close>)
qed simp

lemma below_from_on_threads:
  "threadid ` set xs = threadid ` set (below t xs) \<union> threadid ` set (from_on t xs)"
  by (metis image_Un set_append takeWhile_dropWhile_id)

lemma set_below:
  assumes "ascending xs"
  shows "set (below t xs) = {e \<in> set xs. threadid e < t}"
  using assms by (induction xs) (auto dest: order_less_trans)

lemma almost_Cons:
  assumes "ascending xs" "ascending (y # ys)"
  shows "almost tid xs (y # ys) \<longleftrightarrow>
    (\<forall>e \<in> set (below (threadid y) xs). threadid e = tid)
    \<and> (threadid y = tid \<or> amap xs (threadid y) = Some (tcount y))
    \<and> almost tid (vplace y (from_on (threadid y) xs)) ys"
proof (cases "ys = []")
  case True
  have "(\<forall>e \<in> set xs. threadid e < threadid y \<longrightarrow> threadid e = tid)
    \<longleftrightarrow> (\<forall>e \<in> set (below (threadid y) xs). threadid e = tid)"
  proof -
    have "set (below (threadid y) xs) = {e \<in> set xs. threadid e < threadid y}"
      by (rule set_below [OF assms(1)])
    then show ?thesis by auto
  qed
  with True show ?thesis by (simp add: almost_def)
next
  case False
  let ?l = "threadid (last ys)" and ?b = "below (threadid y) xs" and ?f = "from_on (threadid y) xs"
  have yl: "threadid y < ?l" using assms(2) False by simp
  have bl: "\<forall>e \<in> set ?b. threadid e < ?l" using below_less yl by (auto dest: order_less_trans)
  have am: "amap (vplace y ?f) ?l = amap xs ?l"
    using yl by (simp add: vplace_amap amap_from_on)
  have all: "(\<forall>e \<in> set zs. Q (threadid e)) \<longleftrightarrow> (\<forall>u \<in> threadid ` set zs. Q u)" for zs Q by auto
  let ?Q = "\<lambda>u. u < ?l \<longrightarrow> u = tid"
  have "(\<forall>e \<in> set xs. ?Q (threadid e))
    \<longleftrightarrow> (\<forall>e \<in> set ?b. threadid e = tid) \<and> (\<forall>e \<in> set ?f. ?Q (threadid e))"
    using bl by (subst all [of xs ?Q]) (auto simp: below_from_on_threads [of xs "threadid y"])
  moreover have "(\<forall>e \<in> set (vplace y ?f). ?Q (threadid e))
    \<longleftrightarrow> threadid y = tid \<and> (\<forall>e \<in> set ?f. ?Q (threadid e))"
    using yl by (subst all [of "vplace y ?f" ?Q]) (auto simp: vplace_threads)
  ultimately show ?thesis using False am yl by (auto simp: almost_def ball_Un)
qed

lemma vc_combine_loop_eq:
  assumes "holds rhs (qre @ ys)" "holds v (pre @ xs)" "ascending xs" "ascending ys"
    and "length (pre @ vmerge xs ys) \<le> unat (capacity v)"
  shows "\<exists>v' i. vc_combine_loop rhs tid (length qre) (v, length pre, ae)
      = Some (v', i, ae \<and> almost tid xs ys)
    \<and> holds v' (pre @ vmerge xs ys) \<and> capacity v' = capacity v"
  using assms
proof (induction ys arbitrary: qre pre xs v ae)
  case Nil
  then show ?case by (subst vc_combine_loop.simps) (simp add: holds_size almost_def)
next
  case (Cons y ys)
  let ?b = "below (threadid y) xs" and ?p = "vplace y (from_on (threadid y) xs)"
  have y: "\<forall>z \<in> set ys. threadid y < threadid z" "ascending ys" using Cons.prems(4) by auto
  have mrg: "vmerge xs (y # ys) = ?b @ vmerge ?p ys" by (rule vmerge_place [OF Cons.prems(3) y(1)])
  have room: "length (pre @ ?b @ ?p) \<le> unat (capacity v)"
    using Cons.prems(5) vmerge_length_ge [of ?p ys] mrg by simp
  obtain v' where v': "vc_combine_step tid y (v, length pre, ae)
      = Some (v', length (pre @ ?b), ae \<and> (\<forall>e \<in> set ?b. threadid e = tid)
             \<and> (threadid y = tid \<or> amap xs (threadid y) = Some (tcount y)))"
    "holds v' ((pre @ ?b) @ ?p)" "capacity v' = capacity v"
    by (rule vc_combine_step_eq [OF Cons.prems(2,3) room])
  have at: "vc_at rhs (length qre) = Some y" using Cons.prems(1) by (rule holds_at) simp
  have "\<exists>v'' i. vc_combine_loop rhs tid (length (qre @ [y])) (v', length (pre @ ?b), ae')
      = Some (v'', i, ae' \<and> almost tid ?p ys)
    \<and> holds v'' ((pre @ ?b) @ vmerge ?p ys) \<and> capacity v'' = capacity v'" for ae'
    using Cons.prems v' y mrg by (intro Cons.IH ascending_place) simp_all
  then obtain v'' i where "vc_combine_loop rhs tid (length (qre @ [y])) (v', length (pre @ ?b),
        ae \<and> (\<forall>e \<in> set ?b. threadid e = tid)
           \<and> (threadid y = tid \<or> amap xs (threadid y) = Some (tcount y)))
      = Some (v'', i, (ae \<and> (\<forall>e \<in> set ?b. threadid e = tid)
           \<and> (threadid y = tid \<or> amap xs (threadid y) = Some (tcount y))) \<and> almost tid ?p ys)"
      "holds v'' ((pre @ ?b) @ vmerge ?p ys)" "capacity v'' = capacity v'" by blast
  then show ?case using at v' mrg almost_Cons [OF Cons.prems(3,4), of tid]
    by (subst vc_combine_loop.simps) (simp add: holds_size [OF Cons.prems(1)])
qed

lemma vc_combine2_eq:
  assumes "vc_wf result" "vc_wf rhs" "length (vmerge (live result) (live rhs)) < 2 ^ 32"
  obtains v where "vc_combine2 result rhs tid = Some (v, almost tid (live result) (live rhs))"
    "holds v (vmerge (live result) (live rhs))"
proof -
  let ?xs = "live result" and ?ys = "live rhs"
  note h = vc_wf_holds [OF assms(1)] vc_wf_holds [OF assms(2)]
  note asc = vc_wf_ascending [OF assms(1)] vc_wf_ascending [OF assms(2)]
  have shared: "vc_shared_loop result rhs 0 0 0 = Some (of_nat (vshared ?xs ?ys))"
    using vc_shared_loop_eq [of result "[]" ?xs rhs "[]" ?ys 0] h asc by simp
  let ?n = "vsize result + vsize rhs - of_nat (vshared ?xs ?ys)"
  have "?n = of_nat (length ?xs + length ?ys) - of_nat (vshared ?xs ?ys)"
    by (simp add: holds_size [OF h(1), symmetric] holds_size [OF h(2), symmetric])
  also have "\<dots> = of_nat (length (vmerge ?xs ?ys))"
    by (simp flip: vmerge_length [OF asc])
  finally have n: "unat ?n = length (vmerge ?xs ?ys)" using assms(3) by (simp add: unat_of_nat take_bit_nat_eq_self)
  obtain r where r: "(if ?n > capacity result then vc_reserve result ?n else Some result) = Some r"
    "holds r ?xs" "length (vmerge ?xs ?ys) \<le> unat (capacity r)"
  proof (cases "?n > capacity result")
    case True
    obtain r where "vc_reserve result ?n = Some r" "holds r ?xs" "vsize r = vsize result"
      "capacity r = max (capacity result) ?n" by (rule vc_reserve_holds [OF h(1)])
    then show thesis using True n by (intro that [of r]) (simp_all add: max_def less_imp_le)
  next
    case False
    then have "unat ?n \<le> unat (capacity result)" by (simp only: not_less unat_le_iff)
    with False h n show thesis by (intro that [of result]) (simp_all only: if_False)
  qed
  obtain v i where v: "vc_combine_loop rhs tid 0 (r, 0, True) = Some (v, i, almost tid ?xs ?ys)"
    "holds v (vmerge ?xs ?ys)"
    using vc_combine_loop_eq [of rhs "[]" ?ys r "[]" ?xs tid True] h asc r by auto
  have sz: "vsize v = ?n" using holds_size [OF v(2)] n by (simp add: unat_eq_iff)
  show thesis
    by (rule that [of v])
      (use shared r v sz vc_check_ok h asc vmerge_ascending [OF asc] in
        \<open>simp_all add: vc_combine2_def Let_def vc_check_ok\<close>)
qed

subsection \<open>Elementwise minimum\<close>

definition cleared :: "VCElem \<Rightarrow> VCElem" where
  "cleared e = e\<lparr>tcount := 0\<rparr>"

text \<open>What the loop makes of the elements from the current position on.\<close>

fun vmin :: "VCElem list \<Rightarrow> VCElem list \<Rightarrow> VCElem list" where
  "vmin xs [] = xs"
| "vmin [] ys = []"
| "vmin (x # xs) (y # ys) =
    (if threadid x < threadid y then cleared x # vmin xs (y # ys)
     else if threadid x = threadid y then vmin (x\<lparr>tcount := min (tcount x) (tcount y)\<rparr> # xs) ys
     else vmin (x # xs) ys)"

lemma vmin_Nil [simp]: "vmin [] ys = []"
  by (cases ys) auto

lemma vmin_from_on:
  "vmin xs (y # ys) = map cleared (below (threadid y) xs) @ vmin (from_on (threadid y) xs) (y # ys)"
  by (induction xs) auto

lemma vc_min_skip_eq:
  assumes "holds v (pre @ xs)"
  obtains v' where "vc_min_skip v t (length pre) = Some (v', length (pre @ below t xs))"
    "holds v' ((pre @ map cleared (below t xs)) @ from_on t xs)"
proof -
  have "\<exists>v'. vc_min_skip v t (length pre) = Some (v', length (pre @ below t xs))
    \<and> holds v' ((pre @ map cleared (below t xs)) @ from_on t xs)"
    using assms
  proof (induction xs arbitrary: pre v)
    case Nil
    then show ?case by (subst vc_min_skip.simps) (simp add: holds_size)
  next
    case (Cons x xs)
    have at: "vc_at v (length pre) = Some x" using Cons.prems by (rule holds_at) simp
    obtain w where w: "vc_put v (length pre) (cleared x) = Some w" "holds w (pre @ cleared x # xs)"
      by (rule holds_put [OF Cons.prems refl])
    have "\<exists>v'. vc_min_skip w t (length (pre @ [cleared x]))
        = Some (v', length ((pre @ [cleared x]) @ below t xs))
      \<and> holds v' (((pre @ [cleared x]) @ map cleared (below t xs)) @ from_on t xs)"
      using w(2) by (intro Cons.IH) simp
    with at w Cons.prems show ?case
      by (subst vc_min_skip.simps) (auto simp: holds_size [OF Cons.prems] cleared_def)
  qed
  then show thesis using that by auto
qed

lemma vc_min_loop_eq:
  assumes "holds rhs (qre @ ys)" "holds v (pre @ xs)" "ascending xs" "ascending ys"
  shows "\<exists>v'. vc_min_loop rhs (length qre) v (length pre) = Some v' \<and> holds v' (pre @ vmin xs ys)"
  using assms
proof (induction ys arbitrary: qre pre xs v)
  case Nil
  then show ?case by (subst vc_min_loop.simps) (simp add: holds_size)
next
  case (Cons y ys)
  let ?b = "map cleared (below (threadid y) xs)" and ?f = "from_on (threadid y) xs"
  obtain w where w: "vc_min_skip v (threadid y) (length pre) = Some (w, length (pre @ ?b))"
    "holds w ((pre @ ?b) @ ?f)"
    using vc_min_skip_eq [OF Cons.prems(2), of "threadid y"] by auto
  have at: "vc_at rhs (length qre) = Some y" using Cons.prems(1) by (rule holds_at) simp
  have lt: "length qre < unat (vsize rhs)" using Cons.prems(1) by (simp add: holds_size)
  have asc: "ascending ?f" using Cons.prems(3) by (rule ascending_from_on)
  have IH: "\<exists>v'. vc_min_loop rhs (length (qre @ [y])) u (length (pre @ ?b)) = Some v'
      \<and> holds v' ((pre @ ?b) @ vmin zs ys)" if "holds u ((pre @ ?b) @ zs)" "ascending zs" for u zs
    using Cons.prems that by (intro Cons.IH) simp_all
  show ?case
  proof (cases ?f)
    case Nil
    have "vmin xs (y # ys) = ?b" by (subst vmin_from_on) (simp add: Nil)
    moreover have "unat (vsize w) \<le> length (pre @ ?b)" using w(2) Nil by (simp add: holds_size)
    ultimately show ?thesis using at w lt Nil by (subst vc_min_loop.simps) simp
  next
    case (Cons x zs)
    have atw: "vc_at w (length (pre @ ?b)) = Some x"
      using w(2) Cons by (intro holds_at [of _ "pre @ ?b" x zs]) simp_all
    have ltw: "length (pre @ ?b) < unat (vsize w)" using w(2) Cons by (simp add: holds_size)
    have ge: "threadid y \<le> threadid x" using from_on_ge [OF Cons.prems(3)] Cons by auto
    have hx: "holds w ((pre @ ?b) @ x # zs)" using w(2) by (simp only: Cons)
    let ?m = "x\<lparr>tcount := min (tcount x) (tcount y)\<rparr>"
    obtain u where u: "(if tcount y < tcount x then vc_put w (length (pre @ ?b)) (x\<lparr>tcount := tcount y\<rparr>)
        else Some w) = Some u" "holds u ((pre @ ?b) @ ?m # zs)"
    proof (cases "tcount y < tcount x")
      case True
      obtain u where "vc_put w (length (pre @ ?b)) (x\<lparr>tcount := tcount y\<rparr>) = Some u"
        "holds u ((pre @ ?b) @ x\<lparr>tcount := tcount y\<rparr> # zs)" by (rule holds_put [OF hx refl])
      moreover have "min (tcount x) (tcount y) = tcount y" using True by simp
      ultimately show thesis using True by (intro that [of u]) simp_all
    next
      case False
      then have "min (tcount x) (tcount y) = tcount x" by simp
      with False hx show thesis by (intro that [of w]) simp_all
    qed
    have ascx: "ascending (x # zs)" using asc by (simp only: Cons)
    show ?thesis
    proof (cases "threadid x = threadid y")
      case True
      have "vmin xs (y # ys) = ?b @ vmin (?m # zs) ys" using True by (subst vmin_from_on) (simp add: Cons)
      moreover have "vc_min_loop rhs (length qre) v (length pre)
          = vc_min_loop rhs (length (qre @ [y])) u (length (pre @ ?b))"
        using at w(1) lt atw ltw u(1) True
        by (subst vc_min_loop.simps) (cases "tcount y < tcount x"; simp)
      ultimately show ?thesis using IH [OF u(2)] ascx by simp
    next
      case False
      have "vmin xs (y # ys) = ?b @ vmin (x # zs) ys" using False ge by (subst vmin_from_on) (auto simp: Cons)
      then show ?thesis using at w lt atw ltw False ge IH [OF hx ascx]
        by (subst vc_min_loop.simps) simp
    qed
  qed
qed

lemma vmin_threads: "map threadid (vmin xs ys) = map threadid xs"
  by (induction xs ys rule: vmin.induct) (auto simp: cleared_def)

lemma ascending_map: "ascending xs \<longleftrightarrow> sorted_wrt (<) (map threadid xs)"
  by (simp add: sorted_wrt_map)

text \<open>
  A thread below the last one of the right-hand side loses its count, whether or not the right-hand
  side has it; the last one gets the minimum; the threads above it keep their counts.
\<close>

lemma vmin_amap:
  assumes "ascending xs" "ascending ys"
  shows "amap (vmin xs ys) t = (case amap xs t of None \<Rightarrow> None | Some c \<Rightarrow>
    if \<exists>y \<in> set ys. t < threadid y then Some 0
    else (case amap ys t of Some d \<Rightarrow> Some (min c d) | None \<Rightarrow> Some c))"
    (is "_ = ?rhs xs ys")
  using assms
proof (induction xs ys rule: vmin.induct)
  case (3 x xs y ys)
  consider (less) "threadid x < threadid y" | (greater) "threadid y < threadid x"
    | (equal) "threadid x = threadid y"
    by force
  then show ?case
  proof cases
    case less
    then have "amap (vmin xs (y # ys)) t = ?rhs xs (y # ys)" using 3 by auto
    then show ?thesis using less "3.prems" by (cases "threadid x = t") (auto simp: cleared_def)
  next
    case greater
    then have IH: "amap (vmin (x # xs) ys) t = ?rhs (x # xs) ys" using 3 by auto
    show ?thesis
    proof (cases "t \<le> threadid y")
      case True
      then have "amap (x # xs) t = None" using greater "3.prems" by (intro amap_below_head) auto
      with IH greater show ?thesis by (auto split: if_splits)
    next
      case False
      then have "amap (y # ys) t = amap ys t" "(\<exists>z \<in> set (y # ys). t < threadid z)
        \<longleftrightarrow> (\<exists>z \<in> set ys. t < threadid z)" by auto
      moreover have "vmin (x # xs) (y # ys) = vmin (x # xs) ys" using greater by auto
      ultimately show ?thesis using IH by (simp only:)
    qed
  next
    case equal
    let ?m = "x\<lparr>tcount := min (tcount x) (tcount y)\<rparr>"
    have IH: "amap (vmin (?m # xs) ys) t = ?rhs (?m # xs) ys" using equal 3 by auto
    have ys: "amap ys (threadid y) = None" using "3.prems" by auto
    show ?thesis
    proof (rule linorder_cases [of t "threadid x"])
      assume "t < threadid x"
      then have "amap (x # xs) t = None" "amap (?m # xs) t = None"
        using "3.prems" by (auto intro!: amap_below_head simp del: amap_simps)
      with IH equal show ?thesis by simp
    next
      assume "t = threadid x"
      with IH equal ys show ?thesis by auto
    next
      assume "threadid x < t"
      then have "amap (y # ys) t = amap ys t" "(\<exists>z \<in> set (y # ys). t < threadid z)
        \<longleftrightarrow> (\<exists>z \<in> set ys. t < threadid z)" "amap (?m # xs) t = amap (x # xs) t" using equal by auto
      moreover have "vmin (x # xs) (y # ys) = vmin (?m # xs) ys" using equal by simp
      ultimately show ?thesis using IH by (simp only:)
    qed
  qed
qed (auto split: option.splits)

lemma vc_min_eq:
  assumes "vc_wf result" "vc_wf rhs"
  obtains v where "vc_min result rhs = Some v" "holds v (vmin (live result) (live rhs))"
    "ascending (vmin (live result) (live rhs))"
proof -
  note h = vc_wf_holds [OF assms(1)] vc_wf_holds [OF assms(2)]
  note asc = vc_wf_ascending [OF assms(1)] vc_wf_ascending [OF assms(2)]
  obtain v where v: "vc_min_loop rhs 0 result 0 = Some v" "holds v (vmin (live result) (live rhs))"
    using vc_min_loop_eq [of rhs "[]" "live rhs" result "[]" "live result"] h asc by auto
  have a: "ascending (vmin (live result) (live rhs))"
    using asc(1) by (simp add: ascending_map vmin_threads)
  show thesis
    by (rule that [OF _ v(2) a])
      (simp add: vc_min_def vc_check_ok [OF h(1) asc(1)] v vc_check_ok [OF v(2) a])
qed

subsection \<open>The interface: clocks ordered by happens-before\<close>

text \<open>
  What the users of the clocks rely on: comparison answers on valid clocks and is a preorder, an
  assignment copies, and combining gives a least upper bound.
\<close>

locale joined_clocks =
  fixes inv :: "'c \<Rightarrow> bool"
    and le :: "'c \<Rightarrow> 'c \<Rightarrow> bool option"
    and assign :: "'c \<Rightarrow> 'c \<Rightarrow> 'c option"
    and join :: "'c \<Rightarrow> 'c \<Rightarrow> 'c option"
  assumes le_answers: "inv a \<Longrightarrow> inv b \<Longrightarrow> le a b \<noteq> None"
    and le_refl: "inv a \<Longrightarrow> le a a = Some True"
    and le_trans: "inv a \<Longrightarrow> inv b \<Longrightarrow> inv c \<Longrightarrow> le a b = Some True \<Longrightarrow> le b c = Some True
      \<Longrightarrow> le a c = Some True"
    and assign_copies: "inv a \<Longrightarrow> inv b \<Longrightarrow> \<exists>c. assign a b = Some c \<and> inv c \<and> le b c = Some True
      \<and> le c b = Some True"
    and join_lub: "inv a \<Longrightarrow> inv b \<Longrightarrow> \<exists>c. join a b = Some c \<and> inv c \<and> le a c = Some True
      \<and> le b c = Some True
      \<and> (\<forall>d. inv d \<and> le a d = Some True \<and> le b d = Some True \<longrightarrow> le c d = Some True)"
begin

definition lub_of :: "'c set \<Rightarrow> 'c \<Rightarrow> bool" where
  "lub_of S c \<longleftrightarrow> inv c \<and> (\<forall>a \<in> S. le a c = Some True)
     \<and> (\<forall>d. inv d \<and> (\<forall>a \<in> S. le a d = Some True) \<longrightarrow> le c d = Some True)"

lemma fold_later_lub:
  assumes "inv v" "\<forall>l. Some l \<in> set ls \<longrightarrow> inv l"
  shows "\<exists>c. thread_fold_vc assign join ls False v = Some c
    \<and> lub_of (insert v {l. Some l \<in> set ls}) c"
  using assms
proof (induction ls arbitrary: v)
  case Nil
  then show ?case by (auto simp: lub_of_def le_refl)
next
  case (Cons l ls)
  show ?case
  proof (cases l)
    case None
    with Cons show ?thesis by simp
  next
    case (Some a)
    then have a: "inv a" using Cons.prems(2) by auto
    obtain u where u: "join v a = Some u" "inv u" "le v u = Some True" "le a u = Some True"
      "\<And>d. inv d \<Longrightarrow> le v d = Some True \<Longrightarrow> le a d = Some True \<Longrightarrow> le u d = Some True"
      using join_lub [OF Cons.prems(1) a] by blast
    obtain c where c: "thread_fold_vc assign join ls False u = Some c"
      "lub_of (insert u {l. Some l \<in> set ls}) c"
      using Cons.IH [of u] u(2) Cons.prems(2) by auto
    have "le v c = Some True" "le a c = Some True"
      using c(2) u(2-4) a Cons.prems(1) le_trans [of _ u c] by (auto simp: lub_of_def)
    then have "lub_of (insert v {l. Some l \<in> set (Some a # ls)}) c"
      using c(2) u(5) by (auto simp: lub_of_def)
    with u(1) c(1) Some show ?thesis by auto
  qed
qed

lemma fold_lub:
  assumes "inv v" "\<forall>l. Some l \<in> set ls \<longrightarrow> inv l" "{l. Some l \<in> set ls} \<noteq> {}"
  shows "\<exists>c. thread_fold_vc assign join ls True v = Some c \<and> lub_of {l. Some l \<in> set ls} c"
  using assms
proof (induction ls)
  case Nil
  then show ?case by simp
next
  case (Cons l ls)
  show ?case
  proof (cases l)
    case None
    with Cons show ?thesis by simp
  next
    case (Some a)
    then have a: "inv a" using Cons.prems(2) by auto
    obtain u where u: "assign v a = Some u" "inv u" "le a u = Some True" "le u a = Some True"
      using assign_copies [OF Cons.prems(1) a] by blast
    obtain c where c: "thread_fold_vc assign join ls False u = Some c"
      "lub_of (insert u {l. Some l \<in> set ls}) c"
      using fold_later_lub [of u ls] u(2) Cons.prems(2) by auto
    have "le a c = Some True" using c(2) u(2,3) a le_trans [of a u c] by (auto simp: lub_of_def)
    moreover have "le u d = Some True" if "inv d" "le a d = Some True" for d
      using that u(2,4) a le_trans [of u a d] by simp
    ultimately have "lub_of {l. Some l \<in> set (Some a # ls)} c"
      using c(2) by (auto simp: lub_of_def)
    with u(1) c(1) Some show ?thesis by auto
  qed
qed

end

subsection \<open>The interface holds for DRD's vector clocks\<close>

text \<open>
  A clock in use is well-formed and has no element for thread 0, \<^verbatim>\<open>VG_INVALID_THREADID\<close>; so the
  number of elements fits in 32 bits.
\<close>

definition vc_inv :: "VectorClock \<Rightarrow> bool" where
  "vc_inv v \<longleftrightarrow> vc_wf v \<and> clock v 0 = None"

lemma ascending_length:
  assumes "ascending xs" "amap xs 0 = None"
  shows "length xs < 2 ^ 32"
proof -
  have "distinct (map threadid xs)"
    using assms(1) by (auto simp: ascending_map strict_sorted_iff)
  then have "length xs = card (threadid ` set xs)" by (metis distinct_card length_map set_map)
  also have "\<dots> < card (UNIV :: ThreadId set)"
  proof (rule psubset_card_mono)
    show "threadid ` set xs \<subset> UNIV" using assms(2) by (metis UNIV_I amap_None_iff imageE psubsetI subset_UNIV)
  qed simp
  also have "\<dots> = 2 ^ 32" by (simp add: card_word)
  finally show ?thesis .
qed

lemma vc_inv_merge:
  assumes "vc_inv a" "vc_inv b"
  shows "length (vmerge (live a) (live b)) < 2 ^ 32"
  using assms vmerge_amap [of "live a" "live b" 0] vmerge_ascending [of "live a" "live b"]
  by (intro ascending_length) (auto simp: vc_inv_def vc_wf_iff)

lemma vc_combine_eq:
  assumes "vc_inv a" "vc_inv b"
  obtains v where "vc_combine a b = Some v" "vc_inv v" "\<forall>t. clock v t = cmax (clock a t) (clock b t)"
proof -
  note w = assms [unfolded vc_inv_def]
  obtain v where v: "vc_combine2 a b (- 1) = Some (v, almost (- 1) (live a) (live b))"
    "holds v (vmerge (live a) (live b))"
    by (rule vc_combine2_eq [OF w(1) [THEN conjunct1] w(2) [THEN conjunct1] vc_inv_merge [OF assms]])
  have cl: "clock v t = cmax (clock a t) (clock b t)" for t
    using w by (simp add: holds_live [OF v(2)] vmerge_amap vc_wf_iff)
  show thesis
  proof (rule that)
    show "vc_combine a b = Some v" by (simp add: vc_combine_def v)
    show "vc_inv v"
      using w vc_wfI [OF v(2)] by (auto simp: vc_inv_def cl vmerge_ascending vc_wf_iff)
    show "\<forall>t. clock v t = cmax (clock a t) (clock b t)" by (simp add: cl)
  qed
qed

lemma vc_lte_clock:
  assumes "vc_wf a" "vc_wf b"
  shows "vc_lte a b = Some (\<forall>t c. clock a t = Some c \<longrightarrow> (\<exists>d. clock b t = Some d \<and> c \<le> d))"
  using vc_lte_eq [OF assms] vlte_amap [OF vc_wf_ascending [OF assms(1)]] by simp

lemma vc_copy_eq:
  assumes "vc_wf b"
  obtains v where "vc_copy b = Some v" "live v = live b" "vc_wf v"
proof -
  obtain rest where "vc b = map Some (live b) @ rest" "length (live b) = unat (vsize b)"
    using vc_wf_holds [OF assms] by (auto simp: holds_def)
  then obtain v where v: "vc_init (vc b) (vsize b) = Some v" "holds v (live b)"
    by (rule vc_init_holds)
  show thesis
    by (rule that [of v]) (use v assms in \<open>auto simp: vc_copy_def holds_live vc_wf_ascending intro: vc_wfI\<close>)
qed

lemma vc_assign_eq:
  assumes "vc_wf a" "vc_wf b"
  obtains v where "vc_assign a b = Some v" "live v = live b" "vc_wf v"
proof -
  obtain u where u: "vc_cleanup a = Some u"
    using vc_reserve_holds [OF vc_wf_holds [OF assms(1)], of 0] by (auto simp: vc_cleanup_def)
  obtain v where "vc_copy b = Some v" "live v = live b" "vc_wf v" by (rule vc_copy_eq [OF assms(2)])
  then show thesis using u by (intro that [of v]) (simp_all add: vc_assign_def)
qed

interpretation drd: joined_clocks vc_inv vc_lte vc_assign vc_combine
proof
  fix a b assume ab: "vc_inv a" "vc_inv b"
  then have w: "vc_wf a" "vc_wf b" by (simp_all add: vc_inv_def)
  show "vc_lte a b \<noteq> None" by (simp add: vc_lte_clock w)
  obtain v where "vc_assign a b = Some v" "live v = live b" "vc_wf v" by (rule vc_assign_eq [OF w])
  then show "\<exists>c. vc_assign a b = Some c \<and> vc_inv c \<and> vc_lte b c = Some True \<and> vc_lte c b = Some True"
    using ab w by (auto simp: vc_inv_def vc_lte_clock)
  obtain v where v: "vc_combine a b = Some v" "vc_inv v"
    "\<forall>t. clock v t = cmax (clock a t) (clock b t)" by (rule vc_combine_eq [OF ab])
  have wv: "vc_wf v" using v(2) by (simp add: vc_inv_def)
  have "vc_lte a v = Some True" "vc_lte b v = Some True"
    by (auto simp: vc_lte_clock w wv v(3) cmax_def split: option.splits)
  moreover have "vc_lte v d = Some True"
    if "vc_inv d" "vc_lte a d = Some True" "vc_lte b d = Some True" for d
  proof -
    have wd: "vc_wf d" using that(1) by (simp add: vc_inv_def)
    show ?thesis using that(2,3)
      by (fastforce simp: vc_lte_clock w wv wd v(3) cmax_def split: option.splits)
  qed
  ultimately show "\<exists>c. vc_combine a b = Some c \<and> vc_inv c \<and> vc_lte a c = Some True
      \<and> vc_lte b c = Some True
      \<and> (\<forall>d. vc_inv d \<and> vc_lte a d = Some True \<and> vc_lte b d = Some True \<longrightarrow> vc_lte c d = Some True)"
    using v by blast
next
  fix a assume "vc_inv a"
  then show "vc_lte a a = Some True" by (simp add: vc_inv_def vc_lte_clock)
next
  fix a b c assume "vc_inv a" "vc_inv b" "vc_inv c" "vc_lte a b = Some True" "vc_lte b c = Some True"
  then show "vc_lte a c = Some True" by (fastforce simp: vc_inv_def vc_lte_clock)
qed

subsection \<open>Increment\<close>

lemma vc_find_eq:
  assumes "holds v (pre @ xs)"
  shows "vc_find v t (length pre) = Some (
    if amap xs t = None then None
    else Some (length (pre @ takeWhile (\<lambda>e. threadid e \<noteq> t) xs)))"
  using assms
proof (induction xs arbitrary: pre)
  case Nil
  then show ?case by (subst vc_find.simps) (simp add: holds_size)
next
  case (Cons x xs)
  have at: "vc_at v (length pre) = Some x" using Cons.prems by (rule holds_at) simp
  have "vc_find v t (length (pre @ [x])) = Some (
    if amap xs t = None then None
    else Some (length ((pre @ [x]) @ takeWhile (\<lambda>e. threadid e \<noteq> t) xs)))"
    using Cons.prems by (intro Cons.IH) simp
  with at show ?case
    by (subst vc_find.simps) (simp add: holds_size [OF Cons.prems])
qed

lemma amap_split:
  assumes "amap xs t = Some c"
  obtains pre x post where "xs = pre @ x # post" "threadid x = t" "tcount x = c"
    "takeWhile (\<lambda>e. threadid e \<noteq> t) xs = pre" "\<forall>e \<in> set pre. threadid e \<noteq> t"
proof -
  have "\<exists>pre x post. xs = pre @ x # post \<and> threadid x = t \<and> tcount x = c
    \<and> takeWhile (\<lambda>e. threadid e \<noteq> t) xs = pre"
    using assms
  proof (induction xs)
    case (Cons x xs)
    then show ?case by (cases "threadid x = t") (force, fastforce intro: exI [of _ "x # _"])
  qed simp
  then show thesis using that set_takeWhileD by (metis (mono_tags, lifting))
qed

lemma less_Suc_word: "(c :: UInt) < c + 1 \<longleftrightarrow> c \<noteq> - 1"
proof (cases "c = - 1")
  case False
  then have "1 + c \<noteq> 0" by (metis add.commute add_eq_0_iff2)
  then have "unat (1 + c) = Suc (unat c)" by (rule unatSuc)
  with False show ?thesis by (simp add: unat_less_iff add.commute)
qed simp

lemma vc_increment_present:
  assumes "vc_wf v" "clock v t = Some c"
  shows "vc_increment v t = None \<and> c = - 1 \<or>
    (\<exists>v'. vc_increment v t = Some v' \<and> c \<noteq> - 1 \<and> vc_wf v' \<and> clock v' = (clock v)(t \<mapsto> c + 1))"
proof -
  note h = vc_wf_holds [OF assms(1)]
  obtain pre x post where x: "live v = pre @ x # post" "threadid x = t" "tcount x = c"
    "takeWhile (\<lambda>e. threadid e \<noteq> t) (live v) = pre" "\<forall>e \<in> set pre. threadid e \<noteq> t"
    by (rule amap_split [OF assms(2)])
  have find: "vc_find v t 0 = Some (Some (length pre))"
    using vc_find_eq [of v "[]" "live v" t] h assms(2) x(4) by simp
  have hx: "holds v (pre @ x # post)" using h x(1) by simp
  have at: "vc_at v (length pre) = Some x" using hx by (rule holds_at) simp
  let ?y = "x\<lparr>tcount := c + 1\<rparr>"
  obtain v' where v': "vc_put v (length pre) ?y = Some v'" "holds v' (pre @ ?y # post)"
    by (rule holds_put [OF hx refl])
  have asc: "ascending (pre @ ?y # post)"
    using vc_wf_ascending [OF assms(1)] unfolding x(1) ascending_map by simp
  have "clock v' u = ((clock v)(t \<mapsto> c + 1)) u" for u
    using x(2,5) by (auto simp: holds_live [OF v'(2)] x(1) amap_append amap_None_iff [symmetric]
        split: option.splits)
  moreover have "c < c + 1 \<longleftrightarrow> c \<noteq> - 1" by (rule less_Suc_word)
  ultimately show ?thesis
    using find at v' x(3) asc vc_wfI [OF v'(2)] by (auto simp: vc_increment_def)
qed

lemma vc_increment_absent:
  assumes "vc_inv v" "t \<noteq> 0" "clock v t = None"
  shows "\<exists>v'. vc_increment v t = Some v' \<and> vc_inv v' \<and> clock v' = (clock v)(t \<mapsto> 1)"
proof -
  let ?e = "\<lparr>threadid = t, tcount = 1\<rparr>"
  have h: "holds v (live v)" using assms(1) by (simp add: vc_inv_def vc_wf_holds)
  have find: "vc_find v t 0 = Some None"
    using vc_find_eq [of v "[]" "live v" t] h assms(3) by simp
  obtain w where w: "vc_init [Some ?e] 1 = Some w" "holds w [?e]"
    by (rule vc_init_holds [of "[Some ?e]" "[?e]" "[]" 1]) simp_all
  have "vc_inv w" using w(2) assms(2) by (simp add: vc_inv_def vc_wfI holds_live)
  then obtain v' where v': "vc_combine v w = Some v'" "vc_inv v'"
    "\<forall>u. clock v' u = cmax (clock v u) (clock w u)" by (rule vc_combine_eq [OF assms(1)])
  obtain z where "vc_cleanup w = Some z"
    using vc_reserve_holds [OF w(2), of 0] by (auto simp: vc_cleanup_def)
  then show ?thesis using find w v' assms(3)
    by (auto simp: vc_increment_def holds_live [OF w(2)] fun_eq_iff)
qed

subsection \<open>Properties\<close>

text \<open>The clocks \<^verbatim>\<open>vc1\<close> and \<^verbatim>\<open>vc2\<close> of the unit test \<^verbatim>\<open>vc_test\<close>.\<close>

definition test_vc1 :: VectorClock where
  "test_vc1 = \<lparr>capacity = 2, vsize = 2,
     vc = [Some \<lparr>threadid = 3, tcount = 7\<rparr>, Some \<lparr>threadid = 5, tcount = 8\<rparr>]\<rparr>"

definition test_vc2 :: VectorClock where
  "test_vc2 = \<lparr>capacity = 2, vsize = 2,
     vc = [Some \<lparr>threadid = 1, tcount = 4\<rparr>, Some \<lparr>threadid = 3, tcount = 9\<rparr>]\<rparr>"

lemma test_vc_inv: "vc_inv test_vc1" "vc_inv test_vc2"
  by (simp_all add: vc_inv_def vc_wf_def live_def test_vc1_def test_vc2_def)

text \<open>C24. Combining two vector clocks succeeds, keeps the order of the elements and takes the
  elementwise maximum, a thread that one clock lacks counting from the other.\<close>

theorem vc_combine_correct:
  assumes "vc_inv a" "vc_inv b"
  shows "\<exists>v. vc_combine a b = Some v \<and> vc_inv v
    \<and> (\<forall>t. clock v t = (case (clock a t, clock b t) of
          (Some m, Some n) \<Rightarrow> Some (max m n) | (Some m, None) \<Rightarrow> Some m | (None, n) \<Rightarrow> n))"
proof -
  obtain v where "vc_combine a b = Some v" "vc_inv v" "\<forall>t. clock v t = cmax (clock a t) (clock b t)"
    by (rule vc_combine_eq [OF assms])
  then show ?thesis by (auto simp: cmax_def split: option.splits)
qed

theorem vc_combine_correct_witness:
  "\<exists>v. vc_combine test_vc1 test_vc2 = Some v \<and> vc_inv v \<and> clock v 1 = Some 4
    \<and> clock v 3 = Some 9 \<and> clock v 5 = Some 8 \<and> clock v 2 = None"
proof -
  obtain v where v: "vc_combine test_vc1 test_vc2 = Some v" "vc_inv v"
    "\<forall>t. clock v t = (case (clock test_vc1 t, clock test_vc2 t) of
          (Some m, Some n) \<Rightarrow> Some (max m n) | (Some m, None) \<Rightarrow> Some m | (None, n) \<Rightarrow> n)"
    using vc_combine_correct [OF test_vc_inv] by blast
  from v(1,2) show ?thesis by (simp add: v(3)) (simp add: live_def test_vc1_def test_vc2_def)
qed

text \<open>C25. The maximum of the latest clocks of all threads is their least upper bound in the
  happens-before order.\<close>

theorem thread_compute_maximum_vc_lub:
  assumes "vc_inv v" "\<forall>l. Some l \<in> set lasts \<longrightarrow> vc_inv l" "\<exists>l. Some l \<in> set lasts"
  shows "\<exists>c. thread_compute_maximum_vc lasts v = Some c \<and> vc_inv c
    \<and> (\<forall>l. Some l \<in> set lasts \<longrightarrow> vc_lte l c = Some True)
    \<and> (\<forall>d. vc_inv d \<and> (\<forall>l. Some l \<in> set lasts \<longrightarrow> vc_lte l d = Some True) \<longrightarrow> vc_lte c d = Some True)"
  using drd.fold_lub [OF assms(1,2)] assms(3)
  by (auto simp: drd.lub_of_def thread_compute_maximum_vc_def)

theorem thread_compute_maximum_vc_lub_witness:
  "\<exists>c. thread_compute_maximum_vc [None, Some test_vc1, None, Some test_vc2] test_vc1 = Some c
    \<and> vc_inv c \<and> vc_lte test_vc1 c = Some True \<and> vc_lte test_vc2 c = Some True"
  using thread_compute_maximum_vc_lub [of test_vc1 "[None, Some test_vc1, None, Some test_vc2]"]
    test_vc_inv by auto

text \<open>C26. The comparison decides the happens-before order: every thread of the first clock is in
  the second with a count at least as high. Two clocks that are each below the other hold the same
  elements.\<close>

theorem vc_lte_correct:
  assumes "vc_inv a" "vc_inv b"
  shows "vc_lte a b = Some (\<forall>t c. clock a t = Some c \<longrightarrow> (\<exists>d. clock b t = Some d \<and> c \<le> d))
    \<and> (vc_lte a b = Some True \<and> vc_lte b a = Some True \<longrightarrow> live a = live b)
    \<and> vc_ordered a b = Some (vc_lte a b = Some True \<or> vc_lte b a = Some True)"
proof (intro conjI impI)
  have w: "vc_wf a" "vc_wf b" using assms by (simp_all add: vc_inv_def)
  show "vc_lte a b = Some (\<forall>t c. clock a t = Some c \<longrightarrow> (\<exists>d. clock b t = Some d \<and> c \<le> d))"
    by (rule vc_lte_clock [OF w])
  show "vc_ordered a b = Some (vc_lte a b = Some True \<or> vc_lte b a = Some True)"
    using drd.le_answers [OF assms] drd.le_answers [OF assms(2,1)] by (auto simp: vc_ordered_def)
  assume le: "vc_lte a b = Some True \<and> vc_lte b a = Some True"
  have "clock a t = clock b t" for t
    using le by (cases "clock a t"; cases "clock b t") (fastforce simp: vc_lte_clock w)+
  then show "live a = live b"
    using w by (intro ascending_amap_inj) (auto simp: vc_wf_ascending)
qed

theorem vc_lte_correct_witness:
  "vc_lte test_vc1 test_vc2 = Some False \<and> vc_ordered test_vc1 test_vc2 = Some False"
proof -
  note c = vc_lte_correct [OF test_vc_inv] vc_lte_correct [OF test_vc_inv(2,1)]
  have "\<not> (\<forall>t c. clock test_vc1 t = Some c \<longrightarrow> (\<exists>d. clock test_vc2 t = Some d \<and> c \<le> d))"
    by (rule notI, drule spec [of _ 5]) (simp add: live_def test_vc1_def test_vc2_def)
  then have 1: "vc_lte test_vc1 test_vc2 = Some False" using c(1) by (simp only: simp_thms)
  have "\<not> (\<forall>t c. clock test_vc2 t = Some c \<longrightarrow> (\<exists>d. clock test_vc1 t = Some d \<and> c \<le> d))"
    by (rule notI, drule spec [of _ 1]) (simp add: live_def test_vc1_def test_vc2_def)
  then have 2: "vc_lte test_vc2 test_vc1 = Some False" using c(2) by (simp only: simp_thms)
  show ?thesis using c(1) 1 2 by simp
qed

text \<open>C27. An increment adds one to the count of its thread, inserting the thread with count 1 if it
  is new, and makes the clock strictly later; the assertion against overflow fails exactly when the
  count is the largest 32 bit number.\<close>

theorem vc_increment_correct:
  assumes "vc_inv v" "t \<noteq> 0"
  shows "if clock v t = Some (- 1) then vc_increment v t = None
    else \<exists>v'. vc_increment v t = Some v' \<and> vc_inv v'
      \<and> clock v' = (clock v)(t \<mapsto> (case clock v t of None \<Rightarrow> 1 | Some c \<Rightarrow> c + 1))
      \<and> vc_lte v v' = Some True \<and> vc_lte v' v = Some False"
proof (cases "clock v t")
  case None
  then obtain v' where v': "vc_increment v t = Some v'" "vc_inv v'" "clock v' = (clock v)(t \<mapsto> 1)"
    using vc_increment_absent [OF assms] by blast
  have "vc_lte v v' = Some True \<and> vc_lte v' v = Some False"
    using assms(1) v' None by (auto simp: vc_inv_def vc_lte_clock intro!: exI [of _ t])
  with None v' show ?thesis by simp
next
  case (Some c)
  have w: "vc_wf v" using assms by (simp add: vc_inv_def)
  show ?thesis
  proof (cases "c = - 1")
    case True
    with vc_increment_present [OF w Some] Some show ?thesis by auto
  next
    case False
    then obtain v' where v': "vc_increment v t = Some v'" "vc_wf v'" "clock v' = (clock v)(t \<mapsto> c + 1)"
      using vc_increment_present [OF w Some] by auto
    have lt: "c < c + 1" using False by (simp add: less_Suc_word)
    have "vc_inv v'" using assms v' by (simp add: vc_inv_def)
    moreover have "vc_lte v v' = Some True"
      using w v'(2,3) Some lt by (auto simp: vc_lte_clock less_imp_le)
    moreover have "vc_lte v' v = Some False"
      using w v'(2,3) Some lt by (auto simp: vc_lte_clock not_le intro!: exI [of _ t])
    ultimately show ?thesis using Some False v' by simp
  qed
qed

theorem vc_increment_correct_witness:
  "\<exists>v'. vc_increment test_vc1 5 = Some v' \<and> clock v' 5 = Some 9 \<and> clock v' 3 = Some 7
    \<and> vc_lte v' test_vc1 = Some False"
proof -
  have c: "clock test_vc1 5 = Some 8" "clock test_vc1 3 = Some 7" by (simp_all add: live_def test_vc1_def)
  obtain v' where v': "vc_increment test_vc1 5 = Some v'" "vc_lte v' test_vc1 = Some False"
    "clock v' = (clock test_vc1)(5 \<mapsto> (case clock test_vc1 5 of None \<Rightarrow> 1 | Some c \<Rightarrow> c + 1))"
    using vc_increment_correct [OF test_vc_inv(1), of 5] c by auto
  from v'(1,2) show ?thesis by (simp add: v'(3) c)
qed

text \<open>C28. The exact effect of \<^verbatim>\<open>vc_min\<close>: a thread below the last one of the right-hand side has its
  count cleared even when both clocks have it, the last one gets the minimum, and a thread above it
  keeps its count although the right-hand side lacks it. So the result is the elementwise minimum
  only in special cases.\<close>

theorem vc_min_exact:
  assumes "vc_inv a" "vc_inv b"
  shows "\<exists>v. vc_min a b = Some v \<and> vc_inv v
    \<and> (\<forall>t. clock v t = (case clock a t of None \<Rightarrow> None | Some c \<Rightarrow>
          if \<exists>u. u > t \<and> clock b u \<noteq> None then Some 0
          else (case clock b t of Some d \<Rightarrow> Some (min c d) | None \<Rightarrow> Some c)))"
proof -
  have w: "vc_wf a" "vc_wf b" using assms by (simp_all add: vc_inv_def)
  obtain v where v: "vc_min a b = Some v" "holds v (vmin (live a) (live b))"
    "ascending (vmin (live a) (live b))" by (rule vc_min_eq [OF w])
  have later: "(\<exists>y \<in> set (live b). t < threadid y) \<longleftrightarrow> (\<exists>u > t. clock b u \<noteq> None)" for t
    by (auto simp: amap_None_iff)
  have cl: "clock v t = (case clock a t of None \<Rightarrow> None | Some c \<Rightarrow>
          if \<exists>u. u > t \<and> clock b u \<noteq> None then Some 0
          else (case clock b t of Some d \<Rightarrow> Some (min c d) | None \<Rightarrow> Some c))" for t
    unfolding holds_live [OF v(2)] later [symmetric]
    by (rule vmin_amap [OF vc_wf_ascending [OF w(1)] vc_wf_ascending [OF w(2)]])
  have "vc_inv v" using vc_wfI [OF v(2,3)] assms(1) by (simp add: vc_inv_def cl)
  with v(1) cl show ?thesis by blast
qed

theorem vc_min_exact_witness:
  "\<exists>v. vc_min test_vc1 test_vc2 = Some v \<and> clock v 3 = Some 7 \<and> clock v 5 = Some 8
    \<and> clock test_vc2 5 = None"
proof -
  have c: "clock test_vc2 5 = None" "clock test_vc1 5 = Some 8" "clock test_vc1 3 = Some 7"
    "clock test_vc2 3 = Some 9" "\<not> (\<exists>u. u > 3 \<and> clock test_vc2 u \<noteq> None)"
    by (auto simp: live_def test_vc1_def test_vc2_def)
  have "\<not> (\<exists>u. u > 5 \<and> clock test_vc2 u \<noteq> None)" by (auto simp: live_def test_vc1_def test_vc2_def)
  then show ?thesis using vc_min_exact [OF test_vc_inv] c by fastforce
qed

text \<open>The exact value that \<^verbatim>\<open>vc_combine2\<close> returns, against its documentation: below the last
  thread of the right-hand side no thread other than \<open>tid\<close> may have an element, equal or not, and
  the threads above it are not compared. Two equal clocks of two threads are reported different.\<close>

lemma vc_combine2_result_exact:
  assumes "vc_inv a" "vc_inv b"
  shows "\<exists>v almost_equal. vc_combine2 a b tid = Some (v, almost_equal)
    \<and> (almost_equal \<longleftrightarrow> (\<forall>u. clock b u \<noteq> None \<and> (\<forall>w > u. clock b w = None)
      \<longrightarrow> (\<forall>t < u. t \<noteq> tid \<longrightarrow> clock a t = None \<and> clock b t = None)
          \<and> (u = tid \<or> clock a u = clock b u)))"
proof -
  have w: "vc_wf a" "vc_wf b" using assms by (simp_all add: vc_inv_def)
  obtain v where v: "vc_combine2 a b tid = Some (v, almost tid (live a) (live b))"
    by (rule vc_combine2_eq [OF w vc_inv_merge [OF assms]])
  have "almost tid (live a) (live b) \<longleftrightarrow> (\<forall>u. clock b u \<noteq> None \<and> (\<forall>w > u. clock b w = None)
      \<longrightarrow> (\<forall>t < u. t \<noteq> tid \<longrightarrow> clock a t = None \<and> clock b t = None)
          \<and> (u = tid \<or> clock a u = clock b u))"
  proof (cases "live b = []")
    case False
    let ?l = "last (live b)"
    have asc: "ascending (live b)" using w(2) by (rule vc_wf_ascending)
    have l: "clock b (threadid ?l) = Some (tcount ?l)" using False by (intro amap_in [OF asc]) simp
    have above: "\<forall>u > threadid ?l. clock b u = None"
      using asc False by (cases "live b" rule: rev_cases) (force simp: sorted_wrt_append amap_None_iff)+
    have last: "clock b u \<noteq> None \<and> (\<forall>w > u. clock b w = None) \<longleftrightarrow> u = threadid ?l" for u
      using l above by (metis linorder_neqE option.distinct(1))
    show ?thesis unfolding last almost_def
      using False l by (auto simp: amap_None_iff)
  qed (simp add: almost_def)
  with v show ?thesis by blast
qed

end
