(* ===== verification/DRD_Bitmap_Heap.thy ===== *)
theory DRD_Bitmap_Heap
  imports DRD_Bitmap
begin

text \<open>
  Second level bitmaps in the store: arrays of bits, the ordered set and the cache, the invariant
  \<open>winv\<close> of all bitmaps of the program (every cache agrees with its ordered set, every block is
  counted once for each bitmap that refers to it), the meaning \<open>acc\<close> of a bitmap, and copy on write:
  \<open>prepared\<close> is what the operations that find a page for writing promise.
\<close>

subsection \<open>Positions of bits\<close>

lemma ADDR0_values [simp]: "ADDR0_BITS = 14" "ADDR0_COUNT = 16384" "ADDR0_MASK = 16383"
  by (simp_all add: ADDR0_BITS_def ADDR0_COUNT_def ADDR0_MASK_def)

lemma low_masks: "(16383 :: UWord) = mask 14" "(63 :: UWord) = mask 6"
  by (simp_all add: mask_eq_exp_minus_1)

lemma unat_offset [simp]: "unat ((a :: UWord) AND 16383) = unat a mod 16384"
  unfolding low_masks unat_and_mask by simp

lemma unat_page_base [simp]: "unat ((a :: UWord) AND - 16384) = unat a - unat a mod 16384"
  using unat_and_not_mask [of a 14] by (simp add: mask_eq_exp_minus_1)

lemma unat_LSB [simp]: "unat (UWORD_LSB a) = unat a mod 64"
  by (simp add: UWORD_LSB_def BITS_PER_UWORD_def low_masks unat_and_mask)

lemma unat_MSB [simp]: "unat (UWORD_MSB a) = unat a - unat a mod 64"
  by (simp add: UWORD_MSB_def BITS_PER_UWORD_def low_masks unat_and_not_mask)

lemma bm0_index_unat [simp]: "bm0_index a = unat a div 64"
  by (simp add: bm0_index_def drop_bit_eq_div unat_div)

lemma unat_page [simp]: "unat (drop_bit 14 (a :: UWord)) = unat a div 16384"
  by (simp add: drop_bit_eq_div unat_div)

lemma LSB_eq_0 [simp]: "UWORD_LSB a = 0 \<longleftrightarrow> unat a mod 64 = 0"
  by (metis unat_LSB unat_eq_0)

lemma page_eq_iff: "drop_bit 14 (a :: UWord) = drop_bit 14 b \<longleftrightarrow> unat a div 16384 = unat b div 16384"
  by (metis unat_eq_iff unat_page)

subsection \<open>Arrays of bits\<close>

declare push_bit_of_1 [simp del]

text \<open>The bit at an offset, and arrays of the right size.\<close>

definition nb :: "UWord list \<Rightarrow> nat \<Rightarrow> bool" where
  "nb bm0 n \<longleftrightarrow> bit (bm0 ! (n div 64)) (n mod 64)"

abbreviation sized :: "UWord list \<Rightarrow> bool" where
  "sized bm0 \<equiv> length bm0 = BITMAP1_UWORD_COUNT"

lemma sized_sizes:
  "sized bm0 \<Longrightarrow> sized (bm0_set bm0 a)"
  "sized bm0 \<Longrightarrow> sized (bm0_set_range bm0 a sz)"
  "sized bm0 \<Longrightarrow> sized (bm0_clear bm0 a)"
  "sized bm0 \<Longrightarrow> sized (bm0_clear_range bm0 a sz)"
  "sized bm0 \<Longrightarrow> idx + m \<le> BITMAP1_UWORD_COUNT \<Longrightarrow> sized (bm0_zero bm0 idx m)"
  by (simp_all add: bm0_set_def bm0_set_range_def bm0_clear_def bm0_clear_range_def bm0_zero_def)

lemma bit_single: "bit (push_bit m (1 :: UWord)) n \<longleftrightarrow> n = m \<and> m < 64"
  by (auto simp: bit_simps)

lemma and_single_nonzero: "w AND push_bit m 1 \<noteq> (0 :: UWord) \<longleftrightarrow> bit w m"
  by (simp add: push_bit_of_1 and_exp_eq_0_iff_not_bit)

lemma word_nonzero_iff: "(w :: UWord) \<noteq> 0 \<longleftrightarrow> (\<exists>i < 64. bit w i)"
proof -
  have "w = 0" if "\<not> (\<exists>i < 64. bit w i)"
    by (rule bit_word_eqI) (use that in auto)
  then show ?thesis by auto
qed

lemma bit_run: "s < 64 \<Longrightarrow> n < 64 \<Longrightarrow>
  bit (push_bit m (push_bit s 1 - 1 :: UWord)) n \<longleftrightarrow> m \<le> n \<and> n < m + s"
proof -
  assume "s < 64" "n < 64"
  have "push_bit s 1 - 1 = (mask s :: UWord)" by (simp add: mask_eq_exp_minus_1 push_bit_eq_mult)
  with \<open>n < 64\<close> show ?thesis by (auto simp: bit_simps)
qed

lemma bit_not_run: "s < 64 \<Longrightarrow> n < 64 \<Longrightarrow>
  bit (push_bit m (NOT (push_bit s 1 - 1) :: UWord)) n \<longleftrightarrow> m + s \<le> n"
proof -
  assume "s < 64" "n < 64"
  have "push_bit s 1 - 1 = (mask s :: UWord)" by (simp add: mask_eq_exp_minus_1 push_bit_eq_mult)
  with \<open>n < 64\<close> show ?thesis by (auto simp: bit_simps)
qed

lemma div_mod_eq: "n div 64 = m div 64 \<Longrightarrow> n mod 64 = m mod 64 \<longleftrightarrow> n = (m :: nat)"
  by (metis mult_div_mod_eq)

lemma nb_upd:
  assumes "sized bm0" "m < 16384" "n < 16384"
  shows "nb (bm0[m div 64 := w]) n = (if n div 64 = m div 64 then bit w (n mod 64) else nb bm0 n)"
  using assms by (auto simp: nb_def nth_list_update BITMAP1_UWORD_COUNT_def)

lemma nb_is_set: "bm0_is_set bm0 a \<noteq> 0 \<longleftrightarrow> nb bm0 (unat a)"
  by (simp add: bm0_is_set_def nb_def and_single_nonzero)

lemma nb_set:
  assumes "sized bm0" "unat a < 16384" "n < 16384"
  shows "nb (bm0_set bm0 a) n \<longleftrightarrow> n = unat a \<or> nb bm0 n"
  using assms div_mod_eq [of n "unat a"]
  by (auto simp: bm0_set_def nb_upd bit_or_iff bit_single) (auto simp: nb_def)

lemma nb_clear:
  assumes "sized bm0" "unat a < 16384" "n < 16384"
  shows "nb (bm0_clear bm0 a) n \<longleftrightarrow> n \<noteq> unat a \<and> nb bm0 n"
  using assms div_mod_eq [of n "unat a"]
  by (auto simp: bm0_clear_def nb_upd bit_and_iff bit_not_iff bit_single) (auto simp: nb_def)

lemma in_word:
  assumes "n div 64 = m div 64" "m mod 64 + s \<le> (64 :: nat)"
  shows "m mod 64 \<le> n mod 64 \<and> n mod 64 < m mod 64 + s \<longleftrightarrow> m \<le> n \<and> n < m + s"
  using assms by (metis (no_types, lifting) add.assoc add_le_cancel_left add_less_cancel_left mult_div_mod_eq)

lemma nat_div_mod: "m = 64 * (m div 64) + m mod 64" "m mod 64 < 64" for m :: nat
  by simp_all

lemma out_word:
  assumes "n div 64 \<noteq> m div 64" "m mod 64 + s \<le> (64 :: nat)"
  shows "\<not> (m - m mod 64 \<le> n \<and> n < m + s)"
  using assms nat_div_mod [of m] nat_div_mod [of n] by (cases "n div 64 < m div 64") linarith+

lemma above_word:
  assumes "n div 64 = (m :: nat) div 64"
  shows "m mod 64 + s \<le> n mod 64 \<longleftrightarrow> \<not> (m - m mod 64 \<le> n \<and> n < m + s)"
  using assms nat_div_mod [of m] nat_div_mod [of n] by linarith

lemma nb_set_range:
  assumes "sized bm0" "unat a < 16384" "n < 16384" "unat sz < 64" "unat a mod 64 + unat sz \<le> 64"
  shows "nb (bm0_set_range bm0 a sz) n \<longleftrightarrow> (unat a \<le> n \<and> n < unat a + unat sz) \<or> nb bm0 n"
proof (cases "n div 64 = unat a div 64")
  case True
  then show ?thesis using assms in_word [OF True assms(5)]
    by (simp add: bm0_set_range_def nb_upd bit_or_iff bit_run) (auto simp: nb_def)
next
  case False
  then show ?thesis using assms out_word [OF False assms(5)] by (auto simp: bm0_set_range_def nb_upd)
qed

text \<open>The code clears the range together with everything below it in the same word.\<close>

lemma nb_clear_range:
  assumes "sized bm0" "unat a < 16384" "n < 16384" "unat sz < 64" "unat a mod 64 + unat sz \<le> 64"
  shows "nb (bm0_clear_range bm0 a sz) n
    \<longleftrightarrow> nb bm0 n \<and> \<not> (unat a - unat a mod 64 \<le> n \<and> n < unat a + unat sz)"
proof (cases "n div 64 = unat a div 64")
  case True
  have "unat a mod 64 + unat sz \<le> n mod 64 \<longleftrightarrow> \<not> (unat a - unat a mod 64 \<le> n \<and> n < unat a + unat sz)"
    by (rule above_word [OF True])
  then show ?thesis using assms True
    by (simp add: bm0_clear_range_def nb_upd bit_and_iff bit_not_run) (auto simp: nb_def)
next
  case False
  then show ?thesis using assms out_word [OF False assms(5)] by (auto simp: bm0_clear_range_def nb_upd)
qed

lemma nb_is_any_set:
  assumes "unat sz < 64" "unat a mod 64 + unat sz \<le> 64"
  shows "bm0_is_any_set bm0 a sz \<noteq> 0 \<longleftrightarrow> (\<exists>n. unat a \<le> n \<and> n < unat a + unat sz \<and> nb bm0 n)"
proof -
  let ?w = "bm0 ! (unat a div 64)" and ?m = "unat a mod 64"
  have "bm0_is_any_set bm0 a sz \<noteq> 0 \<longleftrightarrow> (\<exists>i < 64. bit ?w i \<and> ?m \<le> i \<and> i < ?m + unat sz)"
    using assms by (auto simp: bm0_is_any_set_def word_nonzero_iff bit_and_iff bit_run)
  also have "\<dots> \<longleftrightarrow> (\<exists>n. unat a \<le> n \<and> n < unat a + unat sz \<and> nb bm0 n)"
  proof
    assume "\<exists>i < 64. bit ?w i \<and> ?m \<le> i \<and> i < ?m + unat sz"
    then obtain i where i: "i < 64" "bit ?w i" "?m \<le> i" "i < ?m + unat sz" by blast
    let ?n = "64 * (unat a div 64) + i"
    have d: "?n div 64 = unat a div 64" "?n mod 64 = i" using i(1) by simp_all
    have "unat a \<le> ?n" "?n < unat a + unat sz" using i nat_div_mod [of "unat a"] by linarith+
    with d i show "\<exists>n. unat a \<le> n \<and> n < unat a + unat sz \<and> nb bm0 n" by (auto simp: nb_def)
  next
    assume "\<exists>n. unat a \<le> n \<and> n < unat a + unat sz \<and> nb bm0 n"
    then obtain n where n: "unat a \<le> n" "n < unat a + unat sz" "nb bm0 n" by blast
    have d: "n div 64 = unat a div 64"
      using n assms(2) out_word [of n "unat a" "unat sz"] by fastforce
    show "\<exists>i < 64. bit ?w i \<and> ?m \<le> i \<and> i < ?m + unat sz"
      using n d in_word [OF d assms(2)] by (intro exI [of _ "n mod 64"]) (simp add: nb_def)
  qed
  finally show ?thesis .
qed

lemma nb_zero:
  assumes "sized bm0" "idx + m \<le> BITMAP1_UWORD_COUNT" "n < 16384"
  shows "nb (bm0_zero bm0 idx m) n \<longleftrightarrow> nb bm0 n \<and> \<not> (64 * idx \<le> n \<and> n < 64 * (idx + m))"
proof -
  have n: "n div 64 < 256" using assms(3) by simp
  have w: "bm0_zero bm0 idx m ! i = (if idx \<le> i \<and> i < idx + m then 0 else bm0 ! i)" if "i < 256" for i
    using that assms(1,2) by (auto simp: bm0_zero_def nth_append BITMAP1_UWORD_COUNT_def)
  have "idx \<le> n div 64 \<and> n div 64 < idx + m \<longleftrightarrow> 64 * idx \<le> n \<and> n < 64 * (idx + m)"
    by (auto simp: less_eq_div_iff_mult_less_eq div_less_iff_less_mult mult.commute)
  then show ?thesis using w [OF n] by (auto simp: nb_def)
qed

subsection \<open>The ordered set\<close>

abbreviation keys_sorted :: "(UWord \<times> bm2ptr) list \<Rightarrow> bool" where
  "keys_sorted os \<equiv> sorted_wrt (<) (map fst os)"

lemma OSetGen_InsertRef_lookup:
  assumes "keys_sorted os" "map_of os k = None"
  shows "map_of (OSetGen_InsertRef k p os) = (map_of os)(k \<mapsto> p)"
proof
  fix k'
  have split: "map_of os k' = (case map_of (takeWhile (\<lambda>n. fst n < k) os) k' of
      None \<Rightarrow> map_of (dropWhile (\<lambda>n. fst n < k) os) k' | Some v \<Rightarrow> Some v)"
    by (induction os) (auto split: option.splits)
  have below: "map_of (takeWhile (\<lambda>n. fst n < k) os) k = None"
    by (auto simp: map_of_eq_None_iff dest: set_takeWhileD)
  show "map_of (OSetGen_InsertRef k p os) k' = ((map_of os)(k \<mapsto> p)) k'"
    using split below
    by (cases "k' = k") (auto simp: OSetGen_InsertRef_def map_add_def split: option.splits)
qed

lemma sorted_dropWhile_ge:
  assumes "keys_sorted os" "n \<in> set (dropWhile (\<lambda>n. fst n < k) os)"
  shows "k \<le> fst n"
  using assms by (induction os) (auto simp: not_less split: if_splits)

lemma OSetGen_InsertRef_sorted:
  assumes "keys_sorted os" "map_of os k = None"
  shows "keys_sorted (OSetGen_InsertRef k p os)"
proof -
  let ?t = "takeWhile (\<lambda>n. fst n < k) os" and ?d = "dropWhile (\<lambda>n. fst n < k) os"
  have d: "k < fst n" if "n \<in> set ?d" for n
  proof -
    have "k \<noteq> fst n" using that assms(2) by (auto simp: map_of_eq_None_iff dest: set_dropWhileD)
    with sorted_dropWhile_ge [OF assms(1) that] show ?thesis by simp
  qed
  have t: "fst n < k" if "n \<in> set ?t" for n using that by (auto dest: set_takeWhileD)
  have td: "fst m < fst n" if "m \<in> set ?t" "n \<in> set ?d" for m n
    using t [OF that(1)] d [OF that(2)] by (rule order_less_trans)
  have "keys_sorted (?t @ ?d)" using assms(1) by simp
  then have "keys_sorted ?t" "keys_sorted ?d" unfolding map_append sorted_wrt_append by blast+
  then show ?thesis unfolding OSetGen_InsertRef_def map_append list.map sorted_wrt_append
    using t d td by auto
qed

lemma OSetGen_InsertRef_keys: "fst ` set (OSetGen_InsertRef k p os) = insert k (fst ` set os)"
proof -
  have "set os = set (takeWhile (\<lambda>n. fst n < k) os) \<union> set (dropWhile (\<lambda>n. fst n < k) os)"
    by (metis set_append takeWhile_dropWhile_id)
  then show ?thesis by (auto simp: OSetGen_InsertRef_def)
qed

lemma OSetGen_SetRef_keys [simp]: "map fst (OSetGen_SetRef k p os) = map fst os"
  by (simp add: OSetGen_SetRef_def comp_def if_distrib)

lemma OSetGen_SetRef_lookup:
  "map_of (OSetGen_SetRef k p os) k' = (if k' = k \<and> map_of os k \<noteq> None then Some p else map_of os k')"
  by (induction os) (auto simp: OSetGen_SetRef_def split: if_splits)

subsection \<open>The invariant\<close>

text \<open>
  Page numbers have 50 bits. The first entry of the cache for a page agrees with the ordered set.
  All bitmaps of the program are described together: a block of the store is counted once for each
  of them that refers to it.
\<close>

abbreviation is_page :: "UWord \<Rightarrow> bool" where
  "is_page k \<equiv> unat k < 2 ^ 50"

definition bm_cache_ok :: "bitmap \<Rightarrow> bool" where
  "bm_cache_ok bm \<longleftrightarrow> length (cache bm) = N_CACHE_ELEM
     \<and> (\<forall>k p. is_page k \<and> bm_cache_lookup (cache bm) k = Some p \<longrightarrow> p = OSetGen_Lookup (oset bm) k)"

definition bm_ok :: "bm_heap \<Rightarrow> bitmap \<Rightarrow> bool" where
  "bm_ok h bm \<longleftrightarrow> bm_cache_ok bm \<and> keys_sorted (oset bm)
     \<and> (\<forall>k p. OSetGen_Lookup (oset bm) k = Some p
          \<longrightarrow> is_page k \<and> (\<exists>b. bm2s h p = Some b \<and> addr b = k))"

definition refs :: "bitmap list \<Rightarrow> UWord \<Rightarrow> bm2ptr \<Rightarrow> int" where
  "refs bms k p = int (length (filter (\<lambda>bm. OSetGen_Lookup (oset bm) k = Some p) bms))"

definition bm1_ok :: "bitmap1 \<Rightarrow> bool" where
  "bm1_ok p1 \<longleftrightarrow> sized (bm0_r p1) \<and> sized (bm0_w p1)"

definition winv :: "bm_heap \<Rightarrow> bitmap list \<Rightarrow> bool" where
  "winv h bms \<longleftrightarrow> (\<forall>bm \<in> set bms. bm_ok h bm)
     \<and> (\<forall>p b. bm2s h p = Some b \<longrightarrow> p < next_bm2 h \<and> bm1_ok (bm1 b)
          \<and> refcnt b = refs bms (addr b) p \<and> refs bms (addr b) p > 0)"

text \<open>The meaning of a bitmap: is an access of a kind recorded at an address?\<close>

definition acc1 :: "BmAccessTypeT \<Rightarrow> bitmap1 \<Rightarrow> nat \<Rightarrow> bool" where
  "acc1 t p1 n = nb (if t = eLoad then bm0_r p1 else bm0_w p1) n"

definition acc :: "bm_heap \<Rightarrow> bitmap \<Rightarrow> BmAccessTypeT \<Rightarrow> Addr \<Rightarrow> bool" where
  "acc h bm t a = (case OSetGen_Lookup (oset bm) (drop_bit 14 a) of
     None \<Rightarrow> False
   | Some p \<Rightarrow> (case bm2s h p of None \<Rightarrow> False | Some b \<Rightarrow> acc1 t (bm1 b) (unat a mod 16384)))"

lemma is_page_drop [simp]: "is_page (drop_bit 14 a)"
proof -
  have "unat a < 2 ^ 64" using unsigned_less [of a, where 'a = nat] by simp
  then show ?thesis by simp
qed

lemma cache_lookup_take:
  "bm_cache_lookup (take n c) k = Some p \<Longrightarrow> bm_cache_lookup c k = Some p"
  by (induction c arbitrary: n) (auto simp: take_Cons' split: if_splits)

lemma bm_cache_ok_update:
  assumes "bm_cache_ok bm" "cache bm' = cache bm" "p = OSetGen_Lookup (oset bm') k"
    and "\<And>k'. k' \<noteq> k \<Longrightarrow> OSetGen_Lookup (oset bm') k' = OSetGen_Lookup (oset bm) k'"
  shows "bm_cache_ok (bm_update_cache bm' k p)"
  using assms
  by (auto simp: bm_cache_ok_def bm_update_cache_def N_CACHE_ELEM_def dest!: cache_lookup_take
      split: if_splits)

lemma oset_update_cache [simp]: "oset (bm_update_cache bm k p) = oset bm"
  by (simp add: bm_update_cache_def)

lemma acc_oset: "oset bm' = oset bm \<Longrightarrow> acc h bm' = acc h bm"
  by (simp add: acc_def fun_eq_iff)

lemma refs_Cons: "refs (bm # bms) k p = (if OSetGen_Lookup (oset bm) k = Some p then 1 else 0) + refs bms k p"
  by (simp add: refs_def)

lemma refs_ge_0 [simp]: "0 \<le> refs bms k p"
  by (simp add: refs_def)

lemma refs_0_iff: "refs bms k p = 0 \<longleftrightarrow> (\<forall>bm \<in> set bms. OSetGen_Lookup (oset bm) k \<noteq> Some p)"
  by (auto simp: refs_def filter_empty_conv)

lemma winv_cache:
  assumes "winv h (bm # others)" "oset bm' = oset bm" "bm_cache_ok bm'"
  shows "winv h (bm' # others)"
proof -
  have "refs (bm' # others) = refs (bm # others)" by (simp add: fun_eq_iff refs_def assms(2))
  then show ?thesis using assms by (auto simp: winv_def bm_ok_def)
qed

lemma winv_lookup:
  assumes "winv h bms" "bm \<in> set bms" "OSetGen_Lookup (oset bm) k = Some p"
  obtains b where "bm2s h p = Some b" "addr b = k" "bm1_ok (bm1 b)" "refcnt b = refs bms k p"
    "refcnt b > 0" "p < next_bm2 h" "is_page k"
  using assms unfolding winv_def bm_ok_def by metis

lemma winv_block:
  assumes "winv h bms" "bm \<in> set bms" "OSetGen_Lookup (oset bm) k = Some p" "bm2s h p = Some b"
  shows "addr b = k" "bm1_ok (bm1 b)" "refcnt b = refs bms k p" "p < next_bm2 h" "is_page k"
proof -
  show k: "addr b = k" using assms unfolding winv_def bm_ok_def by force
  then show "bm1_ok (bm1 b)" "refcnt b = refs bms k p" "p < next_bm2 h"
    using assms(1,4) unfolding winv_def by blast+
  show "is_page k" using assms(1-3) unfolding winv_def bm_ok_def by blast
qed

lemma acc_update_cache [simp]: "acc h (bm_update_cache bm k p) = acc h bm"
  by (rule acc_oset) simp

subsection \<open>Lookup\<close>

lemma bm2_lookup_spec:
  assumes "winv h (bm # others)" "is_page k"
  obtains bm' where "bm2_lookup bm k = (bm', OSetGen_Lookup (oset bm) k)" "oset bm' = oset bm"
    "winv h (bm' # others)"
proof (cases "bm_cache_lookup (cache bm) k")
  case None
  have "bm_cache_ok bm" using assms(1) by (simp add: winv_def bm_ok_def)
  then have "bm_cache_ok (bm_update_cache bm k (OSetGen_Lookup (oset bm) k))"
    by (rule bm_cache_ok_update) simp_all
  then show thesis
    using None assms(1)
    by (intro that [of "bm_update_cache bm k (OSetGen_Lookup (oset bm) k)"])
      (auto simp: bm2_lookup_def Let_def intro: winv_cache)
next
  case (Some p)
  then have "p = OSetGen_Lookup (oset bm) k"
    using assms by (auto simp: winv_def bm_ok_def bm_cache_ok_def)
  with Some assms(1) show thesis by (intro that [of bm]) (auto simp: bm2_lookup_def)
qed

subsection \<open>Making a second level bitmap exclusive\<close>

lemma winv_others: "winv h (bm # others) \<Longrightarrow> o' \<in> set others \<Longrightarrow> bm_ok h o'"
  by (simp add: winv_def)

lemma winvI:
  assumes "bm_ok h bm" "\<And>b. b \<in> set others \<Longrightarrow> bm_ok h b"
    and "\<And>p b. bm2s h p = Some b \<Longrightarrow> p < next_bm2 h \<and> bm1_ok (bm1 b)
      \<and> refcnt b = refs (bm # others) (addr b) p \<and> refs (bm # others) (addr b) p > 0"
  shows "winv h (bm # others)"
  using assms by (auto simp: winv_def)

lemma bm_ok_heap:
  assumes "bm_ok h bm" "\<And>k p b. OSetGen_Lookup (oset bm) k = Some p \<Longrightarrow> bm2s h p = Some b
    \<Longrightarrow> \<exists>b'. bm2s h' p = Some b' \<and> addr b' = addr b"
  shows "bm_ok h' bm"
  using assms unfolding bm_ok_def by metis

lemma acc_heap:
  assumes "bm_ok h bm" "\<And>k p b. OSetGen_Lookup (oset bm) k = Some p \<Longrightarrow> bm2s h p = Some b
    \<Longrightarrow> \<exists>b'. bm2s h' p = Some b' \<and> bm1 b' = bm1 b"
  shows "acc h' bm = acc h bm"
proof (intro ext)
  fix t a
  show "acc h' bm t a = acc h bm t a"
  proof (cases "OSetGen_Lookup (oset bm) (drop_bit 14 a)")
    case (Some p)
    then obtain b where "bm2s h p = Some b" using assms(1) unfolding bm_ok_def by blast
    with assms(2) [OF Some] Some show ?thesis by (auto simp: acc_def)
  qed (simp add: acc_def)
qed

text \<open>What an operation that prepares a page for writing promises.\<close>

definition prepared :: "bm_heap \<Rightarrow> bitmap \<Rightarrow> bitmap list \<Rightarrow> UWord \<Rightarrow> bm_heap \<Rightarrow> bitmap \<Rightarrow> bm2ptr \<Rightarrow> bool" where
  "prepared h bm others k h' bm' p \<longleftrightarrow> winv h' (bm' # others)
     \<and> OSetGen_Lookup (oset bm') k = Some p \<and> refs (bm' # others) k p = 1
     \<and> acc h' bm' = acc h bm \<and> (\<forall>b \<in> set others. acc h' b = acc h b)"

lemma bm2_make_exclusive_spec:
  assumes w: "winv h (bm # others)" and k: "OSetGen_Lookup (oset bm) k = Some p"
    and b: "bm2s h p = Some b" "refcnt b > 1"
  obtains h' bm' p' where "bm2_make_exclusive h bm k = Some (h', bm', p')"
    "prepared h bm others k h' bm' p'"
proof -
  have bb: "addr b = k" "bm1_ok (bm1 b)" "refcnt b = refs (bm # others) k p" "p < next_bm2 h" "is_page k"
    using winv_block [OF w _ k b(1)] by simp_all
  define n where "n = next_bm2 h"
  have fresh: "bm2s h n = None" "n \<noteq> p"
    using w bb(4) unfolding n_def winv_def by (auto simp: order_less_irrefl) (metis not_None_eq order_less_irrefl)
  let ?b = "b\<lparr>refcnt := refcnt b - 1\<rparr>" and ?c = "\<lparr>addr = k, refcnt = 1, bm1 = bm1 b\<rparr>"
  let ?h = "h\<lparr>bm2s := (bm2s h)(p \<mapsto> ?b, n \<mapsto> ?c), next_bm2 := n + 1\<rparr>"
  let ?os = "OSetGen_SetRef k n (oset bm)"
  let ?bm = "bm_update_cache (bm\<lparr>oset := ?os\<rparr>) k (Some n)"
  have os: "OSetGen_Lookup ?os k' = (if k' = k then Some n else OSetGen_Lookup (oset bm) k')" for k'
    using k by (simp add: OSetGen_SetRef_lookup)
  have okbm: "bm_ok h bm" using w by (simp add: winv_def)
  have nref: "OSetGen_Lookup (oset o') k' \<noteq> Some n" if "bm_ok h o'" for o' k'
    using that fresh(1) unfolding bm_ok_def by force
  have cache: "bm_cache_ok ?bm"
    using okbm by (intro bm_cache_ok_update [of bm]) (auto simp: bm_ok_def os)
  have pk: "k' = k" if "OSetGen_Lookup (oset bm) k' = Some p" for k'
    using okbm that b(1) bb(1) unfolding bm_ok_def by fastforce
  have ok1: "bm_ok ?h ?bm"
    using okbm cache nref [OF okbm] pk bb(1,5) os fresh unfolding bm_ok_def by auto
  have oko: "bm_ok ?h o'" if "o' \<in> set others" for o'
    using winv_others [OF w that] by (rule bm_ok_heap) (use b(1) nref [OF winv_others [OF w that]] in auto)
  have refs_n: "refs others k' n = 0" for k' using nref winv_others [OF w] by (auto simp: refs_0_iff)
  have refs_p: "refs (?bm # others) k p = refs (bm # others) k p - 1"
    using k fresh(2) by (simp add: refs_Cons os)
  have refs_q: "refs (?bm # others) k' q = refs (bm # others) k' q" if "q \<noteq> p" "q \<noteq> n" for k' q
    using that k by (auto simp: refs_Cons os)
  have winv': "winv ?h (?bm # others)"
  proof (rule winvI [OF ok1 oko])
    fix q c assume q: "bm2s ?h q = Some c"
    consider "q = n" | "q = p" | "q \<noteq> n" "q \<noteq> p" by blast
    then show "q < next_bm2 ?h \<and> bm1_ok (bm1 c) \<and> refcnt c = refs (?bm # others) (addr c) q
        \<and> refs (?bm # others) (addr c) q > 0"
    proof cases
      case 1
      then have "c = ?c" using q by simp
      with 1 show ?thesis using bb(2) refs_n by (simp add: refs_Cons os)
    next
      case 2
      then have "c = ?b" using q fresh by simp
      with 2 show ?thesis using bb b refs_p by (simp add: n_def)
    next
      case 3
      then have "bm2s h q = Some c" using q by simp
      then have "q < n \<and> bm1_ok (bm1 c) \<and> refcnt c = refs (bm # others) (addr c) q
          \<and> refs (bm # others) (addr c) q > 0" using w by (simp add: winv_def n_def)
      then show ?thesis using refs_q [OF 3(2,1)] by simp
    qed
  qed
  have acc_bm: "acc ?h ?bm = acc h bm"
  proof (intro ext)
    fix t a show "acc ?h ?bm t a = acc h bm t a"
    proof (cases "drop_bit 14 a = k")
      case True
      then show ?thesis using k b(1) by (simp add: acc_def os)
    next
      case False
      have "q \<noteq> n" if "OSetGen_Lookup (oset bm) k' = Some q" for q k' using nref [OF okbm] that by auto
      with False b(1) show ?thesis by (auto simp: acc_def os split: option.splits)
    qed
  qed
  have acc_o: "acc ?h o' = acc h o'" if "o' \<in> set others" for o'
    using winv_others [OF w that] by (rule acc_heap) (use b(1) nref [OF winv_others [OF w that]] in auto)
  show thesis
  proof (rule that)
    show "bm2_make_exclusive h bm k = Some (?h, ?bm, n)"
      using k b bb(1) by (simp add: bm2_make_exclusive_def bm2_new_def n_def)
    show "prepared h bm others k ?h ?bm n"
      using winv' acc_bm acc_o refs_n by (simp add: prepared_def os refs_Cons)
  qed
qed

subsection \<open>Inserting a second level bitmap\<close>

lemma acc_empty: "\<not> acc1 t zero_bm1 n" if "n < 16384"
proof -
  have "n div 64 < 256" using that by simp
  then show ?thesis by (simp add: acc1_def zero_bm1_def nb_def BITMAP1_UWORD_COUNT_def)
qed

lemma bm2_insert_spec:
  assumes w: "winv h (bm # others)" and k: "OSetGen_Lookup (oset bm) k = None" "is_page k"
  obtains h' bm' p' where "bm2_insert h bm k = (h', bm', p')"
    "prepared h bm others k h' bm' p'"
proof -
  define n where "n = next_bm2 h"
  have fresh: "bm2s h n = None"
    using w unfolding n_def winv_def by (metis not_None_eq order_less_irrefl)
  let ?c = "\<lparr>addr = k, refcnt = 1, bm1 = zero_bm1\<rparr>"
  let ?h = "h\<lparr>bm2s := (bm2s h)(n \<mapsto> ?c), next_bm2 := n + 1\<rparr>"
  let ?os = "OSetGen_InsertRef k n (oset bm)"
  let ?bm = "bm_update_cache (bm\<lparr>oset := ?os\<rparr>) k (Some n)"
  have okbm: "bm_ok h bm" using w by (simp add: winv_def)
  then have srt: "keys_sorted (oset bm)" by (simp add: bm_ok_def)
  have os: "OSetGen_Lookup ?os k' = (if k' = k then Some n else OSetGen_Lookup (oset bm) k')" for k'
    using OSetGen_InsertRef_lookup [OF srt k(1)] by simp
  have nref: "OSetGen_Lookup (oset o') k' \<noteq> Some n" if "bm_ok h o'" for o' k'
    using that fresh unfolding bm_ok_def by force
  have cache: "bm_cache_ok ?bm"
    using okbm by (intro bm_cache_ok_update [of bm]) (auto simp: bm_ok_def os)
  have ok1: "bm_ok ?h ?bm"
    using okbm cache nref [OF okbm] k(2) os OSetGen_InsertRef_sorted [OF srt k(1)]
    unfolding bm_ok_def by auto
  have oko: "bm_ok ?h o'" if "o' \<in> set others" for o'
    using winv_others [OF w that] by (rule bm_ok_heap) (use nref [OF winv_others [OF w that]] in auto)
  have refs_n: "refs others k' n = 0" for k' using nref winv_others [OF w] by (auto simp: refs_0_iff)
  have refs_q: "refs (?bm # others) k' q = refs (bm # others) k' q" if "q \<noteq> n" for k' q
    using that k(1) by (auto simp: refs_Cons os)
  have winv': "winv ?h (?bm # others)"
  proof (rule winvI [OF ok1 oko])
    fix q c assume q: "bm2s ?h q = Some c"
    show "q < next_bm2 ?h \<and> bm1_ok (bm1 c) \<and> refcnt c = refs (?bm # others) (addr c) q
        \<and> refs (?bm # others) (addr c) q > 0"
    proof (cases "q = n")
      case True
      then have "c = ?c" using q by simp
      with True show ?thesis using refs_n by (simp add: refs_Cons os bm1_ok_def zero_bm1_def)
    next
      case False
      then have "bm2s h q = Some c" using q by simp
      then have "q < n \<and> bm1_ok (bm1 c) \<and> refcnt c = refs (bm # others) (addr c) q
          \<and> refs (bm # others) (addr c) q > 0" using w by (simp add: winv_def n_def)
      then show ?thesis using refs_q [OF False] by simp
    qed
  qed
  have acc_bm: "acc ?h ?bm = acc h bm"
  proof (intro ext)
    fix t a show "acc ?h ?bm t a = acc h bm t a"
    proof (cases "drop_bit 14 a = k")
      case True
      then show ?thesis using k(1) by (simp add: acc_def os acc_empty)
    next
      case False
      have "q \<noteq> n" if "OSetGen_Lookup (oset bm) k' = Some q" for q k' using nref [OF okbm] that by auto
      with False show ?thesis by (auto simp: acc_def os split: option.splits)
    qed
  qed
  have acc_o: "acc ?h o' = acc h o'" if "o' \<in> set others" for o'
    using winv_others [OF w that] by (rule acc_heap) (use nref [OF winv_others [OF w that]] in auto)
  show thesis
  proof (rule that)
    show "bm2_insert h bm k = (?h, ?bm, n)" by (simp add: bm2_insert_def bm2_new_def n_def)
    show "prepared h bm others k ?h ?bm n"
      using winv' acc_bm acc_o refs_n by (simp add: prepared_def os refs_Cons)
  qed
qed

subsection \<open>Lookup for writing\<close>

lemma winv_update_cache:
  assumes "winv h (bm # others)" "p = OSetGen_Lookup (oset bm) k"
  shows "winv h (bm_update_cache bm k p # others)"
proof -
  have "bm_cache_ok bm" using assms(1) by (simp add: winv_def bm_ok_def)
  then have "bm_cache_ok (bm_update_cache bm k p)" by (rule bm_cache_ok_update) (simp_all add: assms(2))
  then show ?thesis by (rule winv_cache [OF assms(1), rotated]) simp
qed

lemma cache_hit:
  assumes "winv h (bm # others)" "is_page k" "bm_cache_lookup (cache bm) k = Some p"
  shows "p = OSetGen_Lookup (oset bm) k"
  using assms by (auto simp: winv_def bm_ok_def bm_cache_ok_def)

lemma bm2_lookup_or_insert_spec:
  assumes w: "winv h (bm # others)" and k: "is_page k"
  obtains h' bm' p where "bm2_lookup_or_insert h bm k = (h', bm', p)" "winv h' (bm' # others)"
    "OSetGen_Lookup (oset bm') k = Some p" "acc h' bm' = acc h bm"
    "\<forall>b \<in> set others. acc h' b = acc h b"
proof (cases "OSetGen_Lookup (oset bm) k")
  case (Some p)
  show thesis
  proof (cases "bm_cache_lookup (cache bm) k")
    case None
    have "winv h (bm_update_cache bm k (Some p) # others)"
      using w Some by (intro winv_update_cache) simp_all
    then show thesis using None Some
      by (intro that [of h "bm_update_cache bm k (Some p)" p])
        (auto simp: bm2_lookup_or_insert_def)
  next
    case c: (Some q)
    then have "q = Some p" using cache_hit [OF w k c] Some by simp
    with c Some w show thesis by (intro that [of h bm p]) (auto simp: bm2_lookup_or_insert_def)
  qed
next
  case None
  obtain h' bm' p where i: "bm2_insert h bm k = (h', bm', p)" "prepared h bm others k h' bm' p"
    by (rule bm2_insert_spec [OF w None k])
  note p = i(2) [unfolded prepared_def]
  show thesis
  proof (cases "bm_cache_lookup (cache bm) k")
    case c: None
    have "winv h' (bm_update_cache bm' k (Some p) # others)"
      using p by (intro winv_update_cache) simp_all
    then show thesis using c None i p
      by (intro that [of h' "bm_update_cache bm' k (Some p)" p])
        (auto simp: bm2_lookup_or_insert_def)
  next
    case c: (Some q)
    then have "q = None" using cache_hit [OF w k c] None by simp
    with c i p show thesis by (intro that [of h' bm' p]) (auto simp: bm2_lookup_or_insert_def)
  qed
qed

lemma bm2_lookup_or_insert_exclusive_spec:
  assumes w: "winv h (bm # others)" and k: "is_page k"
  obtains h' bm' p where "bm2_lookup_or_insert_exclusive h bm k = Some (h', bm', p)"
    "prepared h bm others k h' bm' p"
proof -
  obtain h1 bm1 p1 where l: "bm2_lookup_or_insert h bm k = (h1, bm1, p1)" "winv h1 (bm1 # others)"
    "OSetGen_Lookup (oset bm1) k = Some p1" "acc h1 bm1 = acc h bm"
    "\<forall>b \<in> set others. acc h1 b = acc h b"
    by (rule bm2_lookup_or_insert_spec [OF w k])
  obtain b where b: "bm2s h1 p1 = Some b" "refcnt b = refs (bm1 # others) k p1" "refcnt b > 0"
    by (rule winv_lookup [OF l(2) _ l(3)]) auto
  show thesis
  proof (cases "refcnt b > 1")
    case True
    obtain h' bm' p where e: "bm2_make_exclusive h1 bm1 k = Some (h', bm', p)"
      "prepared h1 bm1 others k h' bm' p"
      by (rule bm2_make_exclusive_spec [OF l(2,3) b(1) True])
    show thesis
      by (rule that [of h' bm' p])
        (use e l b True in \<open>auto simp: bm2_lookup_or_insert_exclusive_def prepared_def\<close>)
  next
    case False
    then have "refs (bm1 # others) k p1 = 1" using b by simp
    with False show thesis
      by (intro that [of h1 bm1 p1])
        (use l b in \<open>auto simp: bm2_lookup_or_insert_exclusive_def prepared_def\<close>)
  qed
qed

lemma bm2_lookup_exclusive_spec:
  assumes w: "winv h (bm # others)" and k: "is_page k"
  obtains (absent) "bm2_lookup_exclusive h bm k = Some (h, bm, None)" "OSetGen_Lookup (oset bm) k = None"
  | (present) h' bm' p where "bm2_lookup_exclusive h bm k = Some (h', bm', Some p)"
    "prepared h bm others k h' bm' p"
proof -
  have c: "(case bm_cache_lookup (cache bm) k of Some p \<Rightarrow> p | None \<Rightarrow> OSetGen_Lookup (oset bm) k)
      = OSetGen_Lookup (oset bm) k"
    using cache_hit [OF w k] by (auto split: option.splits)
  show thesis
  proof (cases "OSetGen_Lookup (oset bm) k")
    case None
    then show thesis by (intro absent) (simp_all add: bm2_lookup_exclusive_def c)
  next
    case (Some p)
    obtain b where b: "bm2s h p = Some b" "refcnt b = refs (bm # others) k p" "refcnt b > 0"
      by (rule winv_lookup [OF w _ Some]) auto
    show thesis
    proof (cases "refcnt b > 1")
      case True
      obtain h' bm' p' where e: "bm2_make_exclusive h bm k = Some (h', bm', p')"
        "prepared h bm others k h' bm' p'"
        by (rule bm2_make_exclusive_spec [OF w Some b(1) True])
      then show thesis using True Some b
        by (intro present [of h' bm' p']) (simp_all add: bm2_lookup_exclusive_def c)
    next
      case False
      then have "refs (bm # others) k p = 1" using b by simp
      then show thesis using False Some b w
        by (intro present [of h bm p]) (simp_all add: bm2_lookup_exclusive_def c prepared_def)
    qed
  qed
qed

subsection \<open>Writing\<close>

text \<open>A write to an exclusive block changes one page of one bitmap.\<close>

lemma bm2_write_spec:
  assumes w: "winv h (bm # others)" and k: "OSetGen_Lookup (oset bm) k = Some p"
    and r: "refs (bm # others) k p = 1" and b: "bm2s h p = Some b" and f: "bm1_ok (f (bm1 b))"
  obtains h' where "bm2_write h p f = Some h'" "winv h' (bm # others)"
    "\<forall>b \<in> set others. acc h' b = acc h b"
    "\<And>t a. acc h' bm t a = (if drop_bit 14 a = k then acc1 t (f (bm1 b)) (unat a mod 16384)
       else acc h bm t a)"
proof -
  have bk: "addr b = k" "refcnt b = refs (bm # others) k p" "p < next_bm2 h"
    using winv_block [OF w _ k b] by simp_all
  let ?b = "b\<lparr>bm1 := f (bm1 b)\<rparr>"
  let ?h = "h\<lparr>bm2s := (bm2s h)(p \<mapsto> ?b)\<rparr>"
  have okbm: "bm_ok h bm" using w by (simp add: winv_def)
  have pk: "k' = k" if "bm_ok h c" "OSetGen_Lookup (oset c) k' = Some p" for c k'
    using that b bk(1) unfolding bm_ok_def by fastforce
  have none: "OSetGen_Lookup (oset c) k' \<noteq> Some p" if "c \<in> set others" for c k'
  proof -
    have "refs others k p = 0" using r k by (simp add: refs_Cons)
    then have "OSetGen_Lookup (oset c) k \<noteq> Some p" using that by (simp add: refs_0_iff)
    then show ?thesis using pk [OF winv_others [OF w that]] by metis
  qed
  have ok: "bm_ok ?h c" if "bm_ok h c" for c
    using that by (rule bm_ok_heap) (use b in auto)
  show thesis
  proof (rule that)
    show "bm2_write h p f = Some ?h" using b by (simp add: bm2_write_def)
    show "winv ?h (bm # others)"
    proof (rule winvI)
      fix q c assume "bm2s ?h q = Some c"
      then show "q < next_bm2 ?h \<and> bm1_ok (bm1 c) \<and> refcnt c = refs (bm # others) (addr c) q
          \<and> refs (bm # others) (addr c) q > 0"
        using w f bk r by (cases "q = p") (auto simp: winv_def)
    qed (use ok okbm winv_others [OF w] in auto)
    show "\<forall>c \<in> set others. acc ?h c = acc h c"
    proof
      fix c assume c: "c \<in> set others"
      show "acc ?h c = acc h c"
        using winv_others [OF w c] by (rule acc_heap) (use none [OF c] in auto)
    qed
    fix t a
    show "acc ?h bm t a = (if drop_bit 14 a = k then acc1 t (f (bm1 b)) (unat a mod 16384)
       else acc h bm t a)"
    proof (cases "drop_bit 14 a = k")
      case False
      then have "OSetGen_Lookup (oset bm) (drop_bit 14 a) \<noteq> Some p" using pk [OF okbm] by blast
      with False show ?thesis by (simp add: acc_def split: option.split)
    qed (simp add: acc_def k)
  qed
qed

lemma prepared_block:
  assumes "prepared h bm others k h' bm' p"
  obtains b where "bm2s h' p = Some b" "addr b = k" "bm1_ok (bm1 b)"
    "\<And>t a. drop_bit 14 a = k \<Longrightarrow> acc1 t (bm1 b) (unat a mod 16384) = acc h bm t a"
proof -
  note p = assms [unfolded prepared_def]
  have w: "winv h' (bm' # others)" and k: "OSetGen_Lookup (oset bm') k = Some p"
    and a: "acc h' bm' = acc h bm" using p by simp_all
  obtain b where b: "bm2s h' p = Some b" "addr b = k" "bm1_ok (bm1 b)"
    by (rule winv_lookup [OF w _ k]) auto
  show thesis
  proof (rule that [OF b])
    fix t c assume "drop_bit 14 c = k"
    then show "acc1 t (bm1 b) (unat c mod 16384) = acc h bm t c"
      unfolding a [symmetric] using k b(1) by (simp add: acc_def)
  qed
qed

text \<open>A prepared page is written: the effect on all bitmaps.\<close>

lemma prepared_write:
  assumes p: "prepared h bm others k h' bm' p" and b: "bm2s h' p = Some b" and f: "bm1_ok (f (bm1 b))"
  obtains h'' where "bm2_write h' p f = Some h''" "winv h'' (bm' # others)"
    "\<forall>c \<in> set others. acc h'' c = acc h c"
    "\<And>t a. acc h'' bm' t a = (if drop_bit 14 a = k then acc1 t (f (bm1 b)) (unat a mod 16384)
       else acc h bm t a)"
proof -
  note q = p [unfolded prepared_def]
  obtain h'' where w: "bm2_write h' p f = Some h''" "winv h'' (bm' # others)"
    "\<forall>c \<in> set others. acc h'' c = acc h' c"
    "\<And>t a. acc h'' bm' t a = (if drop_bit 14 a = k then acc1 t (f (bm1 b)) (unat a mod 16384)
       else acc h' bm' t a)"
    by (rule bm2_write_spec [where f = f, OF q [THEN conjunct1] q [THEN conjunct2, THEN conjunct1]
          q [THEN conjunct2, THEN conjunct2, THEN conjunct1] b f]) blast
  show thesis by (rule that [OF w(1,2)]) (use w(3,4) q in simp_all)
qed

subsection \<open>Loops over a range\<close>

definition no_wrap :: "Addr \<Rightarrow> bool" where
  "no_wrap a2 \<longleftrightarrow> unat a2 + 16384 < 2 ^ 64"

lemma no_wrap_iff: "a2 + ADDR0_COUNT > a2 \<longleftrightarrow> no_wrap a2"
proof -
  have "unat a2 < 2 ^ 64" using unsigned_less [of a2, where 'a = nat] by simp
  then have "unat (a2 + 16384) = (if unat a2 + 16384 < 2 ^ 64 then unat a2 + 16384
      else unat a2 + 16384 - 2 ^ 64)"
    by (simp add: unat_plus_if_size word_size)
  with \<open>unat a2 < 2 ^ 64\<close> show ?thesis by (auto simp: no_wrap_def unat_less_iff)
qed

text \<open>Where the part of \<open>[b, a2[\<close> that shares the page of \<open>b\<close> ends.\<close>

definition part_end :: "Addr \<Rightarrow> Addr \<Rightarrow> Addr" where
  "part_end a2 b = (let next = (b AND NOT ADDR0_MASK) + ADDR0_COUNT in if next > a2 then a2 else next)"

lemma bm_range_loop_unfold:
  "bm_range_loop body a2 b s = (if b < a2 then do {
       (s, r) \<leftarrow> body b (part_end a2 b) s;
       (case r of Some res \<Rightarrow> Some (s, Some res) | None \<Rightarrow> bm_range_loop body a2 (part_end a2 b) s) }
     else Some (s, None))"
  by (subst bm_range_loop.simps) (simp only: part_end_def Let_def)

lemma page_next:
  assumes "no_wrap a2" "b < a2"
  shows "unat ((b AND - 16384) + 16384) = (unat b div 16384 + 1) * 16384"
proof -
  have base: "unat b - unat b mod 16384 = 16384 * (unat b div 16384)" by (rule minus_mod_eq_mult_div)
  have "unat b < unat a2" using assms(2) by (simp add: unat_less_iff)
  moreover have "16384 * (unat b div 16384) \<le> unat b" by simp
  ultimately have "16384 * (unat b div 16384) + 16384 < 2 ^ 64"
    using assms(1) unfolding no_wrap_def by linarith
  then show ?thesis by (simp add: unat_word_ariths base)
qed

lemma part_end_unat:
  assumes "no_wrap a2" "b < a2"
  shows "unat (part_end a2 b) = min ((unat b div 16384 + 1) * 16384) (unat a2)"
  using page_next [OF assms] by (auto simp: part_end_def Let_def unat_less_iff min_def)

lemma nat_page: "m = 16384 * (m div 16384) + m mod 16384" "m mod 16384 < 16384" for m :: nat
  by simp_all

lemma part_end_bounds:
  assumes "no_wrap a2" "b < a2"
  shows "b < part_end a2 b" "part_end a2 b \<le> a2"
    "part_end a2 b = a2 \<or> unat (part_end a2 b) mod 16384 = 0"
proof -
  have lt: "unat b < (unat b div 16384 + 1) * 16384" using nat_page [of "unat b"] by simp
  then show "b < part_end a2 b" "part_end a2 b \<le> a2"
    using assms(2) by (simp_all add: unat_less_iff unat_le_iff part_end_unat [OF assms])
  show "part_end a2 b = a2 \<or> unat (part_end a2 b) mod 16384 = 0"
    by (auto simp: unat_eq_iff part_end_unat [OF assms] min_def)
qed

text \<open>A part starts at \<open>a1\<close> or on a page boundary.\<close>

definition part_start :: "Addr \<Rightarrow> Addr \<Rightarrow> bool" where
  "part_start a1 b \<longleftrightarrow> a1 \<le> b \<and> (b = a1 \<or> unat b mod 16384 = 0)"

lemma bm_range_loop_rule:
  assumes nw: "no_wrap a2" and le: "a1 \<le> a2" and init: "I a1 s"
    and step: "\<And>b s. b < a2 \<Longrightarrow> part_start a1 b \<Longrightarrow> I b s \<Longrightarrow>
      \<exists>s' r. body b (part_end a2 b) s = Some (s', r)
        \<and> (case r of None \<Rightarrow> I (part_end a2 b) s' | Some x \<Rightarrow> Q x s')"
  shows "\<exists>s' r. bm_range_loop body a2 a1 s = Some (s', r)
    \<and> (case r of None \<Rightarrow> I a2 s' | Some x \<Rightarrow> Q x s')"
proof -
  have "\<exists>s' r. bm_range_loop body a2 b s = Some (s', r)
    \<and> (case r of None \<Rightarrow> I a2 s' | Some x \<Rightarrow> Q x s')"
    if "b = a2 \<or> part_start a1 b" "b \<le> a2" "I b s" for b s
    using that
  proof (induction "unat a2 - unat b" arbitrary: b s rule: less_induct)
    case less
    show ?case
    proof (cases "b < a2")
      case False
      with less.prems show ?thesis by (subst bm_range_loop.simps) simp
    next
      case True
      let ?e = "part_end a2 b"
      note e = part_end_bounds [OF nw True]
      have ps: "part_start a1 b" using less.prems(1) True by auto
      obtain s' r where r: "body b ?e s = Some (s', r)"
        "case r of None \<Rightarrow> I ?e s' | Some x \<Rightarrow> Q x s'"
        using step [OF True ps less.prems(3)] by blast
      have unf: "bm_range_loop body a2 b s = (case r of Some res \<Rightarrow> Some (s', Some res)
          | None \<Rightarrow> bm_range_loop body a2 ?e s')"
        using True r(1) by (subst bm_range_loop_unfold) simp
      show ?thesis
      proof (cases r)
        case None
        have "unat a2 - unat ?e < unat a2 - unat b"
          using e(1) True by (auto simp: unat_less_iff)
        moreover have "?e = a2 \<or> part_start a1 ?e"
          using e ps by (auto simp: part_start_def intro: order_trans less_imp_le)
        ultimately have "\<exists>s'' r. bm_range_loop body a2 ?e s' = Some (s'', r)
            \<and> (case r of None \<Rightarrow> I a2 s'' | Some x \<Rightarrow> Q x s'')"
          using r(2) None e(2) by (intro less.hyps) simp_all
        then show ?thesis by (simp add: unf None)
      qed (use unf r(2) in simp)
    qed
  qed
  then show ?thesis using le init by (simp add: part_start_def)
qed

subsection \<open>The offsets of a part\<close>

lemma page_interval:
  fixes b e x :: nat
  assumes "b < e" "b div 16384 = (e - 1) div 16384"
  shows "x div 16384 = b div 16384 \<and> b mod 16384 \<le> x mod 16384 \<and> x mod 16384 \<le> (e - 1) mod 16384
    \<longleftrightarrow> b \<le> x \<and> x < e"
proof
  note p = nat_page [of b] nat_page [of x] nat_page [of "e - 1"]
  show "b \<le> x \<and> x < e" if "x div 16384 = b div 16384 \<and> b mod 16384 \<le> x mod 16384
      \<and> x mod 16384 \<le> (e - 1) mod 16384"
    using that p assms by linarith
  assume x: "b \<le> x \<and> x < e"
  have "b div 16384 \<le> x div 16384" "x div 16384 \<le> (e - 1) div 16384"
    using x by (auto intro: div_le_mono)
  then have "x div 16384 = b div 16384" using assms(2) by linarith
  then show "x div 16384 = b div 16384 \<and> b mod 16384 \<le> x mod 16384 \<and> x mod 16384 \<le> (e - 1) mod 16384"
    using x p assms(2) by linarith
qed

lemma part_in_page:
  assumes nw: "no_wrap a2" and b: "b < a2"
  shows "drop_bit 14 x = drop_bit 14 b \<and> unat b mod 16384 \<le> unat x mod 16384
      \<and> unat x mod 16384 \<le> (unat (part_end a2 b) - 1) mod 16384
    \<longleftrightarrow> b \<le> x \<and> x < part_end a2 b"
proof -
  let ?e = "unat (part_end a2 b)"
  have e: "unat b < ?e" "?e \<le> (unat b div 16384 + 1) * 16384"
    using part_end_bounds(1) [OF nw b] part_end_unat [OF nw b] by (simp_all add: unat_less_iff)
  have "unat b div 16384 = (?e - 1) div 16384"
  proof (rule antisym)
    show "unat b div 16384 \<le> (?e - 1) div 16384" using e(1) by (intro div_le_mono) simp
    have "?e - 1 < (unat b div 16384 + 1) * 16384" using e by linarith
    then have "(?e - 1) div 16384 < unat b div 16384 + 1" by (simp only: div_less_iff_less_mult)
    then show "(?e - 1) div 16384 \<le> unat b div 16384" by simp
  qed
  then show ?thesis
    unfolding page_eq_iff unat_le_iff unat_less_iff by (rule page_interval [OF e(1)])
qed

lemma bm2_part_eq:
  assumes nw: "no_wrap a2" and b: "b < a2" and ps: "part_start a1 b"
  shows "bm2_part (drop_bit 14 b) a1 a2
    = Some (Some (b AND 16383, (part_end a2 b - 1) AND 16383))"
proof -
  let ?base = "push_bit 14 (drop_bit 14 b)"
  have "?base = b AND NOT (mask 14)" by (rule bit_word_eqI) (auto simp: bit_simps)
  then have base: "?base = b AND - 16384" by (simp add: mask_eq_exp_minus_1)
  have ub: "unat ?base = 16384 * (unat b div 16384)" by (simp add: base minus_mod_eq_mult_div)
  have start: "(if ?base < a1 then a1 else ?base) = b"
    using ps nat_page [of "unat b"] by (auto simp: part_start_def unat_less_iff unat_le_iff unat_eq_iff ub)
  have "?base \<le> b" using nat_page [of "unat b"] by (simp add: unat_le_iff ub)
  then have lt: "?base < a2" using b by simp
  have "(if ?base + 16384 < a2 then ?base + 16384 else a2) = part_end a2 b"
    by (auto simp: part_end_def Let_def base not_less)
  note e = this part_end_bounds [OF nw b]
  have "(b AND 16383) \<le> ((part_end a2 b - 1) AND 16383)"
  proof -
    have "unat (part_end a2 b - 1) = unat (part_end a2 b) - 1"
      using e(2) by (intro unat_minus_one) auto
    moreover have "b \<le> part_end a2 b - 1" "part_end a2 b - 1 < part_end a2 b"
      using e(2) by (auto simp: unat_le_iff unat_less_iff calculation)
    ultimately show ?thesis
      using part_in_page [OF nw b, of "part_end a2 b - 1"] by (simp add: unat_le_iff)
  qed
  moreover have "a1 \<le> b" using ps by (simp add: part_start_def)
  moreover from this have "a1 \<le> part_end a2 b" "b \<le> a2" using e(2) b by auto
  ultimately show ?thesis
    unfolding bm2_part_def Let_def ADDR0_values start e(1) using e(2,3) lt by simp
qed

lemma unat_offsets:
  assumes "unat hi < 16384"
  shows "unat ` set (offsets lo hi) = {unat lo..unat hi}"
proof -
  have "unat (of_nat n :: Addr) = n" if "n \<le> unat hi" for n
    using that assms by (simp add: unat_of_nat take_bit_nat_eq_self)
  then show ?thesis by (force simp: offsets_def image_image)
qed

lemma offsets_less:
  assumes "unat hi < 16384" "x \<in> set (offsets lo hi)"
  shows "unat x < 16384"
proof -
  have "unat x \<in> {unat lo..unat hi}" using assms by (simp flip: unat_offsets)
  with assms(1) show ?thesis by simp
qed

lemma part_offsets:
  assumes nw: "no_wrap a2" and b: "b < a2"
  shows "drop_bit 14 x = drop_bit 14 b
      \<and> unat x mod 16384 \<in> unat ` set (offsets (b AND 16383) ((part_end a2 b - 1) AND 16383))
    \<longleftrightarrow> b \<le> x \<and> x < part_end a2 b"
proof -
  have "unat (part_end a2 b - 1) = unat (part_end a2 b) - 1"
    using part_end_bounds(1) [OF nw b] by (intro unat_minus_one) auto
  then show ?thesis using part_in_page [OF nw b] by (simp add: unat_offsets)
qed

end
