(* ===== verification/DRD_Bitmap_Access.thy ===== *)
theory DRD_Bitmap_Access
  imports DRD_Bitmap_Heap
begin

text \<open>
  Recording and querying accesses: \<open>recorded\<close> says which accesses an operation adds, \<open>queried\<close>
  that it changed at most a cache; the accesses and the conflict queries of 1, 2, 4 and 8 bytes with
  their fast paths agree with those of a range.
\<close>

subsection \<open>Recording accesses\<close>

abbreviation same_kind :: "BmAccessTypeT \<Rightarrow> BmAccessTypeT \<Rightarrow> bool" where
  "same_kind t t' \<equiv> (t = eLoad) = (t' = eLoad)"

lemma acc1_modify:
  assumes "bm1_ok p1" "\<And>xs. sized xs \<Longrightarrow> nb (g xs) n = (P (nb xs n))"
  shows "acc1 t' (bm1_modify t g p1) n = (if same_kind t t' then P (acc1 t' p1 n) else acc1 t' p1 n)"
  using assms by (auto simp: acc1_def bm1_modify_def bm1_ok_def)

lemma bm1_ok_modify:
  assumes "bm1_ok p1" "\<And>xs. sized xs \<Longrightarrow> sized (g xs)"
  shows "bm1_ok (bm1_modify t g p1)"
  using assms by (auto simp: bm1_modify_def bm1_ok_def)

text \<open>Setting bits of the page \<open>k\<close>.\<close>

lemma access_page:
  assumes w: "winv h (bm # others)" and k: "is_page k"
    and g: "\<And>xs. sized xs \<Longrightarrow> sized (g xs)"
    and P: "\<And>xs n. sized xs \<Longrightarrow> n < 16384 \<Longrightarrow> nb (g xs) n = (nb xs n \<or> P n)"
  obtains h1 bm' p b2 h2 where "bm2_lookup_or_insert_exclusive h bm k = Some (h1, bm', p)"
    "bm2s h1 p = Some b2" "addr b2 = k" "bm2_write h1 p (bm1_modify t g) = Some h2"
    "winv h2 (bm' # others)" "\<forall>c \<in> set others. acc h2 c = acc h c"
    "\<forall>t' a. acc h2 bm' t' a \<longleftrightarrow> acc h bm t' a
       \<or> same_kind t t' \<and> drop_bit 14 a = k \<and> P (unat a mod 16384)"
proof -
  obtain h1 bm' p where l: "bm2_lookup_or_insert_exclusive h bm k = Some (h1, bm', p)"
    "prepared h bm others k h1 bm' p"
    by (rule bm2_lookup_or_insert_exclusive_spec [OF w k])
  obtain b where b: "bm2s h1 p = Some b" "addr b = k" "bm1_ok (bm1 b)"
    "\<And>t a. drop_bit 14 a = k \<Longrightarrow> acc1 t (bm1 b) (unat a mod 16384) = acc h bm t a"
    by (rule prepared_block [OF l(2)]) blast
  have f: "bm1_ok (bm1_modify t g (bm1 b))" by (rule bm1_ok_modify [OF b(3) g])
  obtain h2 where h2: "bm2_write h1 p (bm1_modify t g) = Some h2" "winv h2 (bm' # others)"
    "\<forall>c \<in> set others. acc h2 c = acc h c"
    "\<And>t' a. acc h2 bm' t' a = (if drop_bit 14 a = k
       then acc1 t' (bm1_modify t g (bm1 b)) (unat a mod 16384) else acc h bm t' a)"
    by (rule prepared_write [where f = "bm1_modify t g", OF l(2) b(1) f]) blast
  have "acc h2 bm' t' a \<longleftrightarrow> acc h bm t' a
       \<or> same_kind t t' \<and> drop_bit 14 a = k \<and> P (unat a mod 16384)" for t' a
    using b(4) [of a t'] acc1_modify [OF b(3), of g "unat a mod 16384" "\<lambda>x. x \<or> P (unat a mod 16384)" t' t] P
    by (auto simp: h2(4))
  then show thesis by (intro that [OF l(1) b(1,2) h2(1-3)]) blast
qed

lemma nb_fold_set:
  assumes "sized bm0" "\<forall>x \<in> set xs. unat x < 16384" "n < 16384"
  shows "sized (fold (\<lambda>b0 bm0. bm0_set bm0 b0) xs bm0)"
    "nb (fold (\<lambda>b0 bm0. bm0_set bm0 b0) xs bm0) n \<longleftrightarrow> nb bm0 n \<or> n \<in> unat ` set xs"
  using assms by (induction xs arbitrary: bm0) (auto simp: sized_sizes nb_set)

text \<open>The effect of recording, in all bitmaps.\<close>

definition recorded ::
  "bm_heap \<Rightarrow> bitmap \<Rightarrow> bitmap list \<Rightarrow> BmAccessTypeT \<Rightarrow> (Addr \<Rightarrow> bool) \<Rightarrow> bm_heap \<Rightarrow> bitmap \<Rightarrow> bool" where
  "recorded h bm others t S h' bm' \<longleftrightarrow> winv h' (bm' # others)
     \<and> (\<forall>c \<in> set others. acc h' c = acc h c)
     \<and> (\<forall>t' a. acc h' bm' t' a \<longleftrightarrow> acc h bm t' a \<or> same_kind t t' \<and> S a)"

lemma recorded_trans:
  assumes "recorded h bm others t S h' bm'" "recorded h' bm' others t T h'' bm''"
  shows "recorded h bm others t (\<lambda>a. S a \<or> T a) h'' bm''"
  using assms unfolding recorded_def by metis

lemma recorded_cong: "recorded h bm others t S h' bm' \<Longrightarrow> (\<And>a. S a = T a) \<Longrightarrow> recorded h bm others t T h' bm'"
  by (simp add: recorded_def)

lemma bm_access_range_spec:
  assumes w: "winv h (bm # others)" and a: "a1 < a2" "no_wrap a2"
  obtains h' bm' where "bm_access_range h bm a1 a2 t = Some (h', bm')"
    "recorded h bm others t (\<lambda>a. a1 \<le> a \<and> a < a2) h' bm'"
proof -
  let ?I = "\<lambda>b (h', bm'). recorded h bm others t (\<lambda>a. a1 \<le> a \<and> a < b) h' bm'"
  let ?Q = "\<lambda>x st. False"
  have "\<exists>s' r. bm_range_loop (bm_access_part a1 a2 t) a2 a1 (h, bm) = Some (s', r)
      \<and> (case r of None \<Rightarrow> ?I a2 s' | Some x \<Rightarrow> ?Q x s')"
  proof (rule bm_range_loop_rule [OF a(2)])
    show "a1 \<le> a2" using a(1) by simp
    show "?I a1 (h, bm)" using w by (auto simp: recorded_def)
    fix b st assume b: "b < a2" "part_start a1 b" "?I b st"
    obtain h1 bm1 where st: "st = (h1, bm1)" by (cases st)
    have I: "recorded h bm others t (\<lambda>a. a1 \<le> a \<and> a < b) h1 bm1" using b(3) st by simp
    let ?e = "part_end a2 b" and ?k = "drop_bit 14 b"
    let ?off = "offsets (b AND 16383) ((?e - 1) AND 16383)"
    let ?g = "\<lambda>bm0. fold (\<lambda>b0 bm0. bm0_set bm0 b0) ?off bm0"
    have off: "\<forall>x \<in> set ?off. unat x < 16384"
      by (intro ballI, rule offsets_less [rotated], assumption) simp
    have g: "sized (?g xs)" if "sized xs" for xs using nb_fold_set(1) [OF that off, of 0] by simp
    have P: "nb (?g xs) n \<longleftrightarrow> nb xs n \<or> n \<in> unat ` set ?off" if "sized xs" "n < 16384" for xs n
      by (rule nb_fold_set(2) [OF that(1) off that(2)])
    have w1: "winv h1 (bm1 # others)" using I by (simp add: recorded_def)
    obtain h2 bm' p b2 h3 where s: "bm2_lookup_or_insert_exclusive h1 bm1 ?k = Some (h2, bm', p)"
      "bm2s h2 p = Some b2" "addr b2 = ?k" "bm2_write h2 p (bm1_modify t ?g) = Some h3"
      "winv h3 (bm' # others)" "\<forall>c \<in> set others. acc h3 c = acc h1 c"
      "\<forall>t' a. acc h3 bm' t' a \<longleftrightarrow> acc h1 bm1 t' a
       \<or> same_kind t t' \<and> drop_bit 14 a = ?k \<and> unat a mod 16384 \<in> unat ` set ?off"
      by (rule access_page [where g = ?g and P = "\<lambda>n. n \<in> unat ` set ?off", OF w1 is_page_drop g P])
    have step: "bm_access_part a1 a2 t b ?e st = Some ((h3, bm'), None)"
      using s bm2_part_eq [OF a(2) b(1,2)] by (simp add: bm_access_part_def st)
    have "recorded h1 bm1 others t (\<lambda>a. b \<le> a \<and> a < ?e) h3 bm'"
      using s(5-7) part_offsets [OF a(2) b(1)] by (simp add: recorded_def)
    from recorded_trans [OF I this] have "recorded h bm others t (\<lambda>a. a1 \<le> a \<and> a < ?e) h3 bm'"
      by (rule recorded_cong) (use b(2) part_end_bounds(1) [OF a(2) b(1)] in \<open>auto simp: part_start_def\<close>)
    with step show "\<exists>s' r. bm_access_part a1 a2 t b ?e st = Some (s', r)
        \<and> (case r of None \<Rightarrow> ?I ?e s' | Some x \<Rightarrow> ?Q x s')" by auto
  qed
  then obtain st r where r: "bm_range_loop (bm_access_part a1 a2 t) a2 a1 (h, bm) = Some (st, r)"
    "case r of None \<Rightarrow> ?I a2 st | Some x \<Rightarrow> ?Q x st" by blast
  then have "r = None" by (cases r) auto
  with r obtain h' bm' where
    "bm_range_loop (bm_access_part a1 a2 t) a2 a1 (h, bm) = Some ((h', bm'), None)"
    "recorded h bm others t (\<lambda>a. a1 \<le> a \<and> a < a2) h' bm'" by (cases st) auto
  then show thesis
    using a no_wrap_iff [of a2] by (intro that [of h' bm']) (simp_all add: bm_access_range_def)
qed

lemma offset_fits:
  fixes m :: nat
  assumes "m mod 64 + n \<le> 64"
  shows "m mod 16384 + n \<le> 16384"
proof -
  have "m mod 16384 mod 64 = m mod 64" by (rule mod_mod_cancel) simp
  then have "m mod 16384 = 64 * (m mod 16384 div 64) + m mod 64" by (metis mult_div_mod_eq)
  moreover have "m mod 16384 div 64 < 256" by (rule less_mult_imp_div_less) simp
  ultimately show ?thesis using assms by linarith
qed

lemma aligned_range:
  fixes a x :: Addr
  assumes "unat a mod 64 + n \<le> 64"
  shows "drop_bit 14 x = drop_bit 14 a \<and> unat a mod 16384 \<le> unat x mod 16384
      \<and> unat x mod 16384 < unat a mod 16384 + n \<longleftrightarrow> unat a \<le> unat x \<and> unat x < unat a + n"
proof (cases "n = 0")
  case False
  let ?e = "unat a + n"
  have "unat a mod 16384 + n \<le> 16384" by (rule offset_fits [OF assms])
  then have lo: "16384 * (unat a div 16384) \<le> ?e - 1"
    and hi: "?e - 1 < 16384 * Suc (unat a div 16384)"
    using nat_page [of "unat a"] False unfolding mult_Suc_right by linarith+
  have "(?e - 1) div 16384 = unat a div 16384" by (rule div_nat_eqI [OF lo hi])
  then have d: "unat a div 16384 = (?e - 1) div 16384" by (rule sym)
  have "(?e - 1) mod 16384 = unat a mod 16384 + n - 1"
    using d nat_page [of "unat a"] nat_page [of "?e - 1"] False by linarith
  then have eq: "unat x mod 16384 < unat a mod 16384 + n \<longleftrightarrow> unat x mod 16384 \<le> (?e - 1) mod 16384"
    using False by linarith
  have "unat a < ?e" using False by simp
  then show ?thesis unfolding page_eq_iff eq by (rule page_interval [OF _ d])
qed auto

lemma bm_access_aligned_spec:
  assumes w: "winv h (bm # others)" and a: "unat a mod 64 + unat sz \<le> 64" "unat sz < 64"
  obtains h' bm' where "bm_access_aligned t h bm a sz = Some (h', bm')"
    "recorded h bm others t (\<lambda>x. unat a \<le> unat x \<and> unat x < unat a + unat sz) h' bm'"
proof -
  let ?g = "\<lambda>bm0. bm0_set_range bm0 (a AND 16383) sz"
  let ?P = "\<lambda>n. unat a mod 16384 \<le> n \<and> n < unat a mod 16384 + unat sz"
  have m: "unat a mod 16384 mod 64 = unat a mod 64" by (rule mod_mod_cancel) simp
  have g: "sized (?g xs)" if "sized xs" for xs using that by (rule sized_sizes)
  have P: "nb (?g xs) n \<longleftrightarrow> nb xs n \<or> ?P n" if "sized xs" "n < 16384" for xs n
    using nb_set_range [of xs "a AND 16383" n sz] that a m by auto
  obtain h1 bm' p b2 h2 where s: "bm2_lookup_or_insert_exclusive h bm (drop_bit 14 a) = Some (h1, bm', p)"
    "bm2s h1 p = Some b2" "addr b2 = drop_bit 14 a" "bm2_write h1 p (bm1_modify t ?g) = Some h2"
    "winv h2 (bm' # others)" "\<forall>c \<in> set others. acc h2 c = acc h c"
    "\<forall>t' x. acc h2 bm' t' x \<longleftrightarrow> acc h bm t' x
       \<or> same_kind t t' \<and> drop_bit 14 x = drop_bit 14 a \<and> ?P (unat x mod 16384)"
    by (rule access_page [where g = ?g and P = ?P, OF w is_page_drop g P])
  show thesis
    by (rule that [of h2 bm'])
      (use s aligned_range [OF a(1)] in \<open>simp_all add: bm_access_aligned_def recorded_def\<close>)
qed

lemma and_low:
  "(a :: Addr) AND 1 = 0 \<longleftrightarrow> unat a mod 2 = 0" "a AND 3 = 0 \<longleftrightarrow> unat a mod 4 = 0"
  "a AND 7 = 0 \<longleftrightarrow> unat a mod 8 = 0"
  using unat_and_mask [of a 1] unat_and_mask [of a 2] unat_and_mask [of a 3]
  by (simp_all add: mask_eq_exp_minus_1 flip: unat_eq_0)

lemma low_fits:
  fixes m :: nat
  shows "m mod 2 = 0 \<Longrightarrow> m mod 64 + 2 \<le> 64" "m mod 4 = 0 \<Longrightarrow> m mod 64 + 4 \<le> 64"
    "m mod 8 = 0 \<Longrightarrow> m mod 64 + 8 \<le> 64" "m mod 64 + 1 \<le> 64"
  by presburger+

text \<open>The range of a small access, which does not reach the top of the address space.\<close>

lemma range_ok:
  fixes a :: Addr
  assumes "unat a + n + 16384 < 2 ^ 64"
  shows "unat (a + of_nat n) = unat a + n" "no_wrap (a + of_nat n)"
    "0 < n \<Longrightarrow> a < a + of_nat n"
    "(a \<le> x \<and> x < a + of_nat n) = (unat a \<le> unat x \<and> unat x < unat a + n)"
proof -
  have "unat (of_nat n :: Addr) = n" using assms by (simp add: unat_of_nat take_bit_nat_eq_self)
  then show u: "unat (a + of_nat n) = unat a + n" using assms by (simp add: unat_word_ariths)
  show "no_wrap (a + of_nat n)" using assms by (simp add: no_wrap_def u)
  show "0 < n \<Longrightarrow> a < a + of_nat n" "(a \<le> x \<and> x < a + of_nat n) = (unat a \<le> unat x \<and> unat x < unat a + n)"
    by (simp_all add: unat_less_iff unat_le_iff u)
qed

definition records :: "(bm_heap \<Rightarrow> bitmap \<Rightarrow> (bm_heap \<times> bitmap) option) \<Rightarrow> BmAccessTypeT \<Rightarrow> Addr \<Rightarrow> nat
    \<Rightarrow> bm_heap \<Rightarrow> bitmap \<Rightarrow> bitmap list \<Rightarrow> bool" where
  "records f t a n h bm others \<longleftrightarrow> (\<exists>h' bm'. f h bm = Some (h', bm')
     \<and> recorded h bm others t (\<lambda>x. unat a \<le> unat x \<and> unat x < unat a + n) h' bm')"

lemma records_aligned:
  assumes "winv h (bm # others)" "unat a mod 64 + n \<le> 64" "n < 64"
  shows "records (\<lambda>h bm. bm_access_aligned t h bm a (of_nat n)) t a n h bm others"
proof -
  have u: "unat (of_nat n :: SizeT) = n" using assms(3) by (simp add: unat_of_nat take_bit_nat_eq_self)
  have "unat a mod 64 + unat (of_nat n :: SizeT) \<le> 64" "unat (of_nat n :: SizeT) < 64"
    using assms(2,3) by (simp_all only: u)
  then obtain h' bm' where "bm_access_aligned t h bm a (of_nat n) = Some (h', bm')"
    "recorded h bm others t (\<lambda>x. unat a \<le> unat x \<and> unat x < unat a + unat (of_nat n :: SizeT)) h' bm'"
    by (rule bm_access_aligned_spec [OF assms(1)])
  then show ?thesis unfolding records_def u by blast
qed

lemma records_range:
  assumes "winv h (bm # others)" "unat a + n + 16384 < 2 ^ 64" "0 < n"
  shows "records (\<lambda>h bm. bm_access_range h bm a (a + of_nat n) t) t a n h bm others"
proof -
  note r = range_ok [OF assms(2)]
  obtain h' bm' where "bm_access_range h bm a (a + of_nat n) t = Some (h', bm')"
    "recorded h bm others t (\<lambda>x. a \<le> x \<and> x < a + of_nat n) h' bm'"
    by (rule bm_access_range_spec [OF assms(1) r(3) [OF assms(3)] r(2)])
  then show ?thesis unfolding records_def r(4) by blast
qed

lemma records_sizes:
  assumes w: "winv h (bm # others)" and a: "unat a + n + 16384 < 2 ^ 64"
  shows "n = 1 \<Longrightarrow> records (\<lambda>h bm. bm_access_1 t h bm a) t a n h bm others"
    "n = 2 \<Longrightarrow> records (\<lambda>h bm. bm_access_2 t h bm a) t a n h bm others"
    "n = 4 \<Longrightarrow> records (\<lambda>h bm. bm_access_4 t h bm a) t a n h bm others"
    "n = 8 \<Longrightarrow> records (\<lambda>h bm. bm_access_8 t h bm a) t a n h bm others"
proof -
  note al = records_aligned [OF w, of a _ t] and rg = records_range [OF w, of a _ t]
  show "n = 1 \<Longrightarrow> records (\<lambda>h bm. bm_access_1 t h bm a) t a n h bm others"
    using al [of 1] low_fits(4) by (simp add: bm_access_1_def)
  show "records (\<lambda>h bm. bm_access_2 t h bm a) t a n h bm others" if "n = 2"
    using al [of 2] rg [of 2] low_fits(1) a that unfolding bm_access_2_def and_low
    by (cases "unat a mod 2 = 0") simp_all
  show "records (\<lambda>h bm. bm_access_4 t h bm a) t a n h bm others" if "n = 4"
    using al [of 4] rg [of 4] low_fits(2) a that unfolding bm_access_4_def and_low
    by (cases "unat a mod 4 = 0") simp_all
  show "records (\<lambda>h bm. bm_access_8 t h bm a) t a n h bm others" if n: "n = 8"
  proof -
    consider "unat a mod 8 = 0" | "unat a mod 8 \<noteq> 0" "unat a mod 4 = 0" | "unat a mod 8 \<noteq> 0" "unat a mod 4 \<noteq> 0"
      by blast
    then show ?thesis
    proof cases
      case 1
      have "records (\<lambda>h bm. bm_access_aligned t h bm a 8) t a 8 h bm others"
        using al [of 8] low_fits(3) [OF 1] by simp
      with 1 n show ?thesis by (simp add: bm_access_8_def and_low)
    next
      case 3
      have "records (\<lambda>h bm. bm_access_range h bm a (a + 8) t) t a 8 h bm others"
        using rg [of 8] a n by simp
      with 3 n show ?thesis by (simp add: bm_access_8_def and_low)
    next
      case 2
      have u4: "unat (a + 4) = unat a + 4" using range_ok(1) [of a 4] a n by simp
      have m4: "unat (a + 4) mod 4 = 0" using 2(2) u4 by simp
      obtain h1 bm1 where 1: "bm_access_aligned t h bm a 4 = Some (h1, bm1)"
        "recorded h bm others t (\<lambda>x. unat a \<le> unat x \<and> unat x < unat a + 4) h1 bm1"
        using al [of 4] low_fits(2) [OF 2(2)] by (auto simp: records_def)
      have w1: "winv h1 (bm1 # others)" using 1(2) by (simp add: recorded_def)
      obtain h2 bm2 where 3: "bm_access_aligned t h1 bm1 (a + 4) 4 = Some (h2, bm2)"
        "recorded h1 bm1 others t (\<lambda>x. unat (a + 4) \<le> unat x \<and> unat x < unat (a + 4) + 4) h2 bm2"
        using records_aligned [OF w1, of "a + 4" 4 t] low_fits(2) [OF m4] by (auto simp: records_def)
      have "recorded h bm others t (\<lambda>x. unat a \<le> unat x \<and> unat x < unat a + 8) h2 bm2"
        using recorded_trans [OF 1(2) 3(2)] by (rule recorded_cong) (auto simp: u4)
      moreover have "bm_access_8 t h bm a = Some (h2, bm2)"
        using 1(1) 3(1) 2 by (simp add: bm_access_8_def and_low)
      ultimately show ?thesis unfolding records_def n by blast
    qed
  qed
qed

subsection \<open>Queries\<close>

text \<open>A query changes no more than the cache of its bitmap.\<close>

definition queried :: "bm_heap \<Rightarrow> bitmap \<Rightarrow> bitmap list \<Rightarrow> bitmap \<Rightarrow> bool" where
  "queried h bm others bm' \<longleftrightarrow> oset bm' = oset bm \<and> winv h (bm' # others)"

lemma queried_acc: "queried h bm others bm' \<Longrightarrow> acc h bm' = acc h bm"
  by (rule acc_oset) (simp add: queried_def)

lemma queried_trans: "queried h bm others bm' \<Longrightarrow> queried h bm' others bm'' \<Longrightarrow> queried h bm others bm''"
  by (simp add: queried_def)

text \<open>Looking up the page of an address: what the block says about the page.\<close>

lemma lookup_page:
  assumes w: "winv h (bm # others)"
  obtains bm' where "queried h bm others bm'"
    "(bm2_lookup bm (drop_bit 14 b) = (bm', None)
        \<and> (\<forall>t a. drop_bit 14 a = drop_bit 14 b \<longrightarrow> \<not> acc h bm t a))
     \<or> (\<exists>p b2. bm2_lookup bm (drop_bit 14 b) = (bm', Some p) \<and> bm2s h p = Some b2
        \<and> addr b2 = drop_bit 14 b \<and> bm1_ok (bm1 b2)
        \<and> (\<forall>t a. drop_bit 14 a = drop_bit 14 b \<longrightarrow> acc h bm t a = acc1 t (bm1 b2) (unat a mod 16384)))"
proof -
  obtain bm' where l: "bm2_lookup bm (drop_bit 14 b) = (bm', OSetGen_Lookup (oset bm) (drop_bit 14 b))"
    "oset bm' = oset bm" "winv h (bm' # others)"
    by (rule bm2_lookup_spec [OF w is_page_drop])
  show thesis
  proof (rule that [of bm'])
    show "queried h bm others bm'" using l by (simp add: queried_def)
  next
    show "(bm2_lookup bm (drop_bit 14 b) = (bm', None)
        \<and> (\<forall>t a. drop_bit 14 a = drop_bit 14 b \<longrightarrow> \<not> acc h bm t a))
     \<or> (\<exists>p b2. bm2_lookup bm (drop_bit 14 b) = (bm', Some p) \<and> bm2s h p = Some b2
        \<and> addr b2 = drop_bit 14 b \<and> bm1_ok (bm1 b2)
        \<and> (\<forall>t a. drop_bit 14 a = drop_bit 14 b \<longrightarrow> acc h bm t a = acc1 t (bm1 b2) (unat a mod 16384)))"
    proof (cases "OSetGen_Lookup (oset bm) (drop_bit 14 b)")
      case None
      with l show ?thesis by (simp add: acc_def)
    next
      case (Some p)
      obtain b2 where "bm2s h p = Some b2" "addr b2 = drop_bit 14 b" "bm1_ok (bm1 b2)"
        by (rule winv_lookup [OF w _ Some]) auto
      with Some l show ?thesis by (simp add: acc_def)
    qed
  qed
qed

lemma bm_has_1_spec:
  assumes w: "winv h (bm # others)"
  obtains bm' where "bm_has_1 h bm a t = Some (bm', acc h bm t a)" "queried h bm others bm'"
proof -
  obtain bm' where q: "queried h bm others bm'"
    "(bm2_lookup bm (drop_bit 14 a) = (bm', None)
        \<and> (\<forall>t x. drop_bit 14 x = drop_bit 14 a \<longrightarrow> \<not> acc h bm t x))
     \<or> (\<exists>p b2. bm2_lookup bm (drop_bit 14 a) = (bm', Some p) \<and> bm2s h p = Some b2
        \<and> addr b2 = drop_bit 14 a \<and> bm1_ok (bm1 b2)
        \<and> (\<forall>t x. drop_bit 14 x = drop_bit 14 a \<longrightarrow> acc h bm t x = acc1 t (bm1 b2) (unat x mod 16384)))"
    by (rule lookup_page [OF w, of a])
  show thesis
    by (rule that [OF _ q(1)]) (use q(2) in \<open>auto simp: bm_has_1_def nb_is_set acc1_def\<close>)
qed

lemma bm_has_spec:
  assumes "winv h (bm # others)" "b \<le> a2"
  shows "\<exists>bm'. bm_has h bm b a2 t = Some (bm', \<forall>a. b \<le> a \<and> a < a2 \<longrightarrow> acc h bm t a)
    \<and> queried h bm others bm'"
  using assms
proof (induction "unat a2 - unat b" arbitrary: b bm rule: less_induct)
  case less
  show ?case
  proof (cases "b < a2")
    case False
    with less.prems show ?thesis by (subst bm_has.simps) (auto simp: queried_def)
  next
    case True
    obtain bm1 where 1: "bm_has_1 h bm b t = Some (bm1, acc h bm t b)" "queried h bm others bm1"
      by (rule bm_has_1_spec [OF less.prems(1)])
    show ?thesis
    proof (cases "acc h bm t b")
      case False
      then show ?thesis using True 1 by (subst bm_has.simps) auto
    next
      case acc: True
      have u: "unat (b + 1) = Suc (unat b)"
        using True unsigned_less [of a2, where 'a = nat] by (simp add: unat_word_ariths unat_less_iff)
      have "unat a2 - unat (b + 1) < unat a2 - unat b" "b + 1 \<le> a2"
        using True by (simp_all add: unat_less_iff unat_le_iff u)
      moreover have "winv h (bm1 # others)" using 1(2) by (simp add: queried_def)
      ultimately obtain bm2 where 2: "bm_has h bm1 (b + 1) a2 t
          = Some (bm2, \<forall>a. b + 1 \<le> a \<and> a < a2 \<longrightarrow> acc h bm1 t a)" "queried h bm1 others bm2"
        using less.hyps [of "b + 1" bm1] by blast
      have "(\<forall>a. b + 1 \<le> a \<and> a < a2 \<longrightarrow> acc h bm t a) \<longleftrightarrow> (\<forall>a. b \<le> a \<and> a < a2 \<longrightarrow> acc h bm t a)"
      proof -
        have "b \<le> a \<longleftrightarrow> a = b \<or> b + 1 \<le> a" for a by (auto simp: unat_le_iff unat_eq_iff u)
        then show ?thesis using acc by auto
      qed
      then show ?thesis using True acc 1 2 queried_acc [OF 1(2)] queried_trans [OF 1(2) 2(2)]
        by (subst bm_has.simps) simp
    qed
  qed
qed

lemma page_addr:
  fixes b :: Addr
  assumes "n < 16384"
  obtains a :: Addr where "drop_bit 14 a = drop_bit 14 b" "unat a mod 16384 = n"
proof -
  let ?m = "16384 * (unat b div 16384) + n"
  have "unat b < 18446744073709551616" using unsigned_less [of b, where 'a = nat] by simp
  then have "unat b div 16384 < 1125899906842624" by (intro less_mult_imp_div_less) simp
  then have "?m < 18446744073709551616" using assms by linarith
  then have u: "unat (of_nat ?m :: Addr) = ?m" by (subst unat_of_nat) (simp add: take_bit_nat_eq_self)
  show thesis
  proof (rule that)
    show "drop_bit 14 (of_nat ?m :: Addr) = drop_bit 14 b" unfolding page_eq_iff u using assms by simp
    show "unat (of_nat ?m :: Addr) mod 16384 = n" unfolding u using assms by simp
  qed
qed

text \<open>A test on the bits of an offset that asks \<open>T\<close> of the recorded accesses.\<close>

definition test_of :: "((BmAccessTypeT \<Rightarrow> bool) \<Rightarrow> bool) \<Rightarrow> (bitmap1 \<Rightarrow> Addr \<Rightarrow> bool) \<Rightarrow> bool" where
  "test_of T test \<longleftrightarrow> (\<forall>p1 b0. test p1 b0 = T (\<lambda>t. acc1 t p1 (unat b0))) \<and> \<not> T (\<lambda>t. False)"

lemma any_part:
  assumes nw: "no_wrap a2" and b: "b < a2" "part_start a1 b" and w: "winv h (bm # others)"
    and T: "test_of T test"
  obtains bm' r where "bm_any_part True test h a1 a2 b (part_end a2 b) bm = Some (bm', r)"
    "queried h bm others bm'"
    "r = (if \<exists>a. b \<le> a \<and> a < part_end a2 b \<and> T (\<lambda>t. acc h bm t a) then Some True else None)"
proof -
  let ?e = "part_end a2 b"
  let ?off = "offsets (b AND 16383) ((?e - 1) AND 16383)"
  note po = part_offsets [OF nw b(1)]
  obtain bm' where q: "queried h bm others bm'"
    "(bm2_lookup bm (drop_bit 14 b) = (bm', None)
        \<and> (\<forall>t x. drop_bit 14 x = drop_bit 14 b \<longrightarrow> \<not> acc h bm t x))
     \<or> (\<exists>p b2. bm2_lookup bm (drop_bit 14 b) = (bm', Some p) \<and> bm2s h p = Some b2
        \<and> addr b2 = drop_bit 14 b \<and> bm1_ok (bm1 b2)
        \<and> (\<forall>t x. drop_bit 14 x = drop_bit 14 b \<longrightarrow> acc h bm t x = acc1 t (bm1 b2) (unat x mod 16384)))"
    by (rule lookup_page [OF w, of b])
  from q(2) show thesis
  proof
    assume n: "bm2_lookup bm (drop_bit 14 b) = (bm', None)
        \<and> (\<forall>t x. drop_bit 14 x = drop_bit 14 b \<longrightarrow> \<not> acc h bm t x)"
    have "(\<lambda>t. acc h bm t a) = (\<lambda>t. False)" if "b \<le> a \<and> a < ?e" for a
      using n po [of a] that by auto
    then have "\<not> (\<exists>a. b \<le> a \<and> a < ?e \<and> T (\<lambda>t. acc h bm t a))"
      using T by (metis test_of_def)
    with n show thesis by (intro that [OF _ q(1)]) (auto simp: bm_any_part_def)
  next
    assume "\<exists>p b2. bm2_lookup bm (drop_bit 14 b) = (bm', Some p) \<and> bm2s h p = Some b2
        \<and> addr b2 = drop_bit 14 b \<and> bm1_ok (bm1 b2)
        \<and> (\<forall>t x. drop_bit 14 x = drop_bit 14 b \<longrightarrow> acc h bm t x = acc1 t (bm1 b2) (unat x mod 16384))"
    then obtain p b2 where p: "bm2_lookup bm (drop_bit 14 b) = (bm', Some p)" "bm2s h p = Some b2"
      "addr b2 = drop_bit 14 b"
      "\<And>t x. drop_bit 14 x = drop_bit 14 b \<Longrightarrow> acc h bm t x = acc1 t (bm1 b2) (unat x mod 16384)" by blast
    have "list_ex (test (bm1 b2)) ?off \<longleftrightarrow> (\<exists>n \<in> unat ` set ?off. T (\<lambda>t. acc1 t (bm1 b2) n))"
      using T by (auto simp: list_ex_iff test_of_def)
    also have "\<dots> \<longleftrightarrow> (\<exists>a. b \<le> a \<and> a < ?e \<and> T (\<lambda>t. acc h bm t a))"
    proof
      assume "\<exists>n \<in> unat ` set ?off. T (\<lambda>t. acc1 t (bm1 b2) n)"
      then obtain n where n: "n \<in> unat ` set ?off" "T (\<lambda>t. acc1 t (bm1 b2) n)" by blast
      then have "n < 16384" by (auto dest!: offsets_less [rotated])
      then obtain a :: Addr where a: "drop_bit 14 a = drop_bit 14 b" "unat a mod 16384 = n" by (rule page_addr)
      have "b \<le> a \<and> a < ?e" using po [of a] a n(1) by simp
      moreover have "T (\<lambda>t. acc h bm t a)" using n(2) p(4) [OF a(1)] a(2) by simp
      ultimately show "\<exists>a. b \<le> a \<and> a < ?e \<and> T (\<lambda>t. acc h bm t a)" by blast
    next
      assume "\<exists>a. b \<le> a \<and> a < ?e \<and> T (\<lambda>t. acc h bm t a)"
      then obtain a where a: "b \<le> a \<and> a < ?e" "T (\<lambda>t. acc h bm t a)" by blast
      then have "drop_bit 14 a = drop_bit 14 b" "unat a mod 16384 \<in> unat ` set ?off"
        using po [of a] by simp_all
      then show "\<exists>n \<in> unat ` set ?off. T (\<lambda>t. acc1 t (bm1 b2) n)" using a(2) p(4) by auto
    qed
    finally show thesis
      using p(1-3) bm2_part_eq [OF nw b] by (intro that [OF _ q(1)]) (auto simp: bm_any_part_def)
  qed
qed

lemma bm_has_any_spec:
  assumes w: "winv h (bm # others)" and a: "a1 \<le> a2" "no_wrap a2" and T: "test_of T test"
  obtains bm' where
    "bm_has_any True test h bm a1 a2 = Some (bm', \<exists>a. a1 \<le> a \<and> a < a2 \<and> T (\<lambda>t. acc h bm t a))"
    "queried h bm others bm'"
proof -
  let ?hit = "\<lambda>b. \<exists>a. a1 \<le> a \<and> a < b \<and> T (\<lambda>t. acc h bm t a)"
  let ?I = "\<lambda>b bm'. queried h bm others bm' \<and> \<not> ?hit b"
  let ?Q = "\<lambda>x bm'. queried h bm others bm' \<and> x \<and> ?hit a2"
  have "\<exists>s' r. bm_range_loop (bm_any_part True test h a1 a2) a2 a1 bm = Some (s', r)
      \<and> (case r of None \<Rightarrow> ?I a2 s' | Some x \<Rightarrow> ?Q x s')"
  proof (rule bm_range_loop_rule [OF a(2,1)])
    show "?I a1 bm" using w by (auto simp: queried_def)
    fix b bm1 assume b: "b < a2" "part_start a1 b" and I: "?I b bm1"
    let ?e = "part_end a2 b"
    note e = part_end_bounds(1,2) [OF a(2) b(1)]
    have ac: "acc h bm1 = acc h bm" using I queried_acc by blast
    have w1: "winv h (bm1 # others)" using I by (simp add: queried_def)
    obtain bm' r where r: "bm_any_part True test h a1 a2 b ?e bm1 = Some (bm', r)" "queried h bm1 others bm'"
      "r = (if \<exists>a. b \<le> a \<and> a < ?e \<and> T (\<lambda>t. acc h bm1 t a) then Some True else None)"
      by (rule any_part [OF a(2) b w1 T])
    have q: "queried h bm others bm'" using queried_trans I r(2) by blast
    have ab: "a1 \<le> b" using b(2) by (simp add: part_start_def)
    show "\<exists>s' r. bm_any_part True test h a1 a2 b ?e bm1 = Some (s', r)
        \<and> (case r of None \<Rightarrow> ?I ?e s' | Some x \<Rightarrow> ?Q x s')"
    proof (cases "\<exists>a. b \<le> a \<and> a < ?e \<and> T (\<lambda>t. acc h bm t a)")
      case True
      then have "?hit a2" using ab e(2) by (meson order_less_le_trans order_trans)
      with True q r ac show ?thesis by auto
    next
      case False
      then have "\<not> ?hit ?e" using I by (meson not_less)
      with False q r ac show ?thesis by auto
    qed
  qed
  then obtain s' r where r: "bm_range_loop (bm_any_part True test h a1 a2) a2 a1 bm = Some (s', r)"
    "case r of None \<Rightarrow> ?I a2 s' | Some x \<Rightarrow> ?Q x s'" by blast
  then have "(r = Some True) \<longleftrightarrow> ?hit a2" "queried h bm others s'" by (auto split: option.splits)
  with r(1) show thesis by (intro that [of s']) (simp_all add: bm_has_any_def)
qed

text \<open>The tests of the queries.\<close>

lemma or_nonzero: "(x :: UWord) OR y \<noteq> 0 \<longleftrightarrow> x \<noteq> 0 \<or> y \<noteq> 0"
  by (simp add: or_eq_0_iff)

lemma queries_test_of:
  "test_of (\<lambda>s. s eLoad) (\<lambda>p1 b0. bm0_is_set (bm0_r p1) b0 \<noteq> 0)"
  "test_of (\<lambda>s. s eStore) (\<lambda>p1 b0. bm0_is_set (bm0_w p1) b0 \<noteq> 0)"
  "test_of (\<lambda>s. s eLoad \<or> s eStore) (\<lambda>p1 b0. bm0_is_set (bm0_r p1) b0 OR bm0_is_set (bm0_w p1) b0 \<noteq> 0)"
  "test_of (\<lambda>s. s eStore \<or> t \<noteq> eLoad \<and> s eLoad) (\<lambda>p1 b0.
     if t = eLoad then bm0_is_set (bm0_w p1) b0 \<noteq> 0
     else bm0_is_set (bm0_r p1) b0 OR bm0_is_set (bm0_w p1) b0 \<noteq> 0)"
  by (auto simp: test_of_def acc1_def nb_is_set or_nonzero)

text \<open>A new access of a kind conflicts with a recorded one at the same address unless both are loads.\<close>

definition conflict :: "bm_heap \<Rightarrow> bitmap \<Rightarrow> BmAccessTypeT \<Rightarrow> Addr \<Rightarrow> bool" where
  "conflict h bm t a \<longleftrightarrow> acc h bm eStore a \<or> t \<noteq> eLoad \<and> acc h bm eLoad a"

lemma bm_has_conflict_with_spec:
  assumes w: "winv h (bm # others)" and a: "a1 \<le> a2" "no_wrap a2" and t: "t = eLoad \<or> t = eStore"
  obtains bm' where
    "bm_has_conflict_with t h bm a1 a2 = Some (bm', \<exists>a. a1 \<le> a \<and> a < a2 \<and> conflict h bm t a)"
    "queried h bm others bm'"
proof -
  obtain bm' where "bm_has_any True (\<lambda>p1 b0.
       if t = eLoad then bm0_is_set (bm0_w p1) b0 \<noteq> 0
       else bm0_is_set (bm0_r p1) b0 OR bm0_is_set (bm0_w p1) b0 \<noteq> 0) h bm a1 a2
     = Some (bm', \<exists>a. a1 \<le> a \<and> a < a2 \<and> (acc h bm eStore a \<or> t \<noteq> eLoad \<and> acc h bm eLoad a))"
    "queried h bm others bm'"
    by (rule bm_has_any_spec [OF w a queries_test_of(4) [of t]])
  moreover have "(t = eLoad \<or> t = eStore) = True" using t by simp
  ultimately show thesis
    by (intro that [of bm']) (simp_all only: bm_has_conflict_with_def conflict_def)
qed

lemma bm_has_any_access_spec:
  assumes w: "winv h (bm # others)" and a: "a1 \<le> a2" "no_wrap a2"
  obtains bm' where "bm_has_any_access h bm a1 a2
      = Some (bm', \<exists>a. a1 \<le> a \<and> a < a2 \<and> (acc h bm eLoad a \<or> acc h bm eStore a))"
    "queried h bm others bm'"
  using that by (rule bm_has_any_spec [OF w a queries_test_of(3)]) (simp_all only: bm_has_any_access_def)

subsection \<open>Small accesses\<close>

lemma aligned_conflict:
  assumes w: "winv h (bm # others)" and a: "unat a mod 64 + n \<le> 64" "n < 64"
  shows "\<exists>bm'. bm_aligned_load_has_conflict_with h bm a (of_nat n)
      = Some (bm', \<exists>x. unat a \<le> unat x \<and> unat x < unat a + n \<and> conflict h bm eLoad x)
    \<and> queried h bm others bm'"
    "\<exists>bm'. bm_aligned_store_has_conflict_with h bm a (of_nat n)
      = Some (bm', \<exists>x. unat a \<le> unat x \<and> unat x < unat a + n \<and> conflict h bm eStore x)
    \<and> queried h bm others bm'"
proof -
  have u: "unat (of_nat n :: SizeT) = n" using a(2) by (simp add: unat_of_nat take_bit_nat_eq_self)
  have m: "unat a mod 16384 mod 64 = unat a mod 64" by (rule mod_mod_cancel) simp
  have fits: "unat (of_nat n :: SizeT) < 64" "unat (a AND 16383) mod 64 + unat (of_nat n :: SizeT) \<le> 64"
    using a by (simp_all add: u m)
  note ar = aligned_range [OF a(1)]
  obtain bm' where q: "queried h bm others bm'"
    "(bm2_lookup bm (drop_bit 14 a) = (bm', None)
        \<and> (\<forall>t x. drop_bit 14 x = drop_bit 14 a \<longrightarrow> \<not> acc h bm t x))
     \<or> (\<exists>p b2. bm2_lookup bm (drop_bit 14 a) = (bm', Some p) \<and> bm2s h p = Some b2
        \<and> addr b2 = drop_bit 14 a \<and> bm1_ok (bm1 b2)
        \<and> (\<forall>t x. drop_bit 14 x = drop_bit 14 a \<longrightarrow> acc h bm t x = acc1 t (bm1 b2) (unat x mod 16384)))"
    by (rule lookup_page [OF w, of a])
  have hit: "bm0_is_any_set bm0 (a AND 16383) (of_nat n) \<noteq> 0
      \<longleftrightarrow> (\<exists>x. unat a \<le> unat x \<and> unat x < unat a + n \<and> acc h bm t x)"
    if "\<And>x. drop_bit 14 x = drop_bit 14 a \<Longrightarrow> acc h bm t x = nb bm0 (unat x mod 16384)" for bm0 t
  proof -
    have "bm0_is_any_set bm0 (a AND 16383) (of_nat n) \<noteq> 0
        \<longleftrightarrow> (\<exists>m. unat a mod 16384 \<le> m \<and> m < unat a mod 16384 + n \<and> nb bm0 m)"
      using nb_is_any_set [OF fits] by (simp add: u)
    also have "\<dots> \<longleftrightarrow> (\<exists>x. unat a \<le> unat x \<and> unat x < unat a + n \<and> acc h bm t x)"
    proof
      assume "\<exists>m. unat a mod 16384 \<le> m \<and> m < unat a mod 16384 + n \<and> nb bm0 m"
      then obtain k where k: "unat a mod 16384 \<le> k" "k < unat a mod 16384 + n" "nb bm0 k" by blast
      have "unat a mod 16384 + n \<le> 16384"
        by (rule offset_fits [OF a(1)])
      then have "k < 16384" using k(2) by simp
      then obtain x :: Addr where x: "drop_bit 14 x = drop_bit 14 a" "unat x mod 16384 = k" by (rule page_addr)
      then show "\<exists>x. unat a \<le> unat x \<and> unat x < unat a + n \<and> acc h bm t x"
        using ar [of x] k that [OF x(1)] by auto
    next
      assume "\<exists>x. unat a \<le> unat x \<and> unat x < unat a + n \<and> acc h bm t x"
      then show "\<exists>m. unat a mod 16384 \<le> m \<and> m < unat a mod 16384 + n \<and> nb bm0 m"
        using ar that by metis
    qed
    finally show ?thesis .
  qed
  have none: "\<not> (\<exists>x. unat a \<le> unat x \<and> unat x < unat a + n \<and> acc h bm t x)"
    if "\<forall>t x. drop_bit 14 x = drop_bit 14 a \<longrightarrow> \<not> acc h bm t x" for t
    using that ar by metis
  show "\<exists>bm'. bm_aligned_load_has_conflict_with h bm a (of_nat n)
      = Some (bm', \<exists>x. unat a \<le> unat x \<and> unat x < unat a + n \<and> conflict h bm eLoad x)
    \<and> queried h bm others bm'"
    using q(2)
  proof (elim disjE exE conjE)
    fix p b2 assume p: "bm2_lookup bm (drop_bit 14 a) = (bm', Some p)" "bm2s h p = Some b2"
      "\<forall>t x. drop_bit 14 x = drop_bit 14 a \<longrightarrow> acc h bm t x = acc1 t (bm1 b2) (unat x mod 16384)"
    have "bm0_is_any_set (bm0_w (bm1 b2)) (a AND 16383) (of_nat n) \<noteq> 0
      \<longleftrightarrow> (\<exists>x. unat a \<le> unat x \<and> unat x < unat a + n \<and> acc h bm eStore x)"
      by (rule hit) (simp add: p(3) acc1_def)
    then show ?thesis using p q(1) by (simp add: bm_aligned_load_has_conflict_with_def conflict_def)
  next
    assume p: "bm2_lookup bm (drop_bit 14 a) = (bm', None)"
      "\<forall>t x. drop_bit 14 x = drop_bit 14 a \<longrightarrow> \<not> acc h bm t x"
    show ?thesis using p(1) none [OF p(2), of eStore] q(1)
      by (auto simp: bm_aligned_load_has_conflict_with_def conflict_def)
  qed
  show "\<exists>bm'. bm_aligned_store_has_conflict_with h bm a (of_nat n)
      = Some (bm', \<exists>x. unat a \<le> unat x \<and> unat x < unat a + n \<and> conflict h bm eStore x)
    \<and> queried h bm others bm'"
    using q(2)
  proof (elim disjE exE conjE)
    fix p b2 assume p: "bm2_lookup bm (drop_bit 14 a) = (bm', Some p)" "bm2s h p = Some b2"
      "\<forall>t x. drop_bit 14 x = drop_bit 14 a \<longrightarrow> acc h bm t x = acc1 t (bm1 b2) (unat x mod 16384)"
    have "bm0_is_any_set (bm0_w (bm1 b2)) (a AND 16383) (of_nat n) \<noteq> 0
      \<longleftrightarrow> (\<exists>x. unat a \<le> unat x \<and> unat x < unat a + n \<and> acc h bm eStore x)"
      "bm0_is_any_set (bm0_r (bm1 b2)) (a AND 16383) (of_nat n) \<noteq> 0
      \<longleftrightarrow> (\<exists>x. unat a \<le> unat x \<and> unat x < unat a + n \<and> acc h bm eLoad x)"
      by (rule hit; simp add: p(3) acc1_def)+
    then show ?thesis using p q(1)
      by (simp only: bm_aligned_store_has_conflict_with_def conflict_def or_nonzero) auto
  next
    assume p: "bm2_lookup bm (drop_bit 14 a) = (bm', None)"
      "\<forall>t x. drop_bit 14 x = drop_bit 14 a \<longrightarrow> \<not> acc h bm t x"
    show ?thesis using p(1) none [OF p(2), of eStore] none [OF p(2), of eLoad] q(1)
      by (auto simp: bm_aligned_store_has_conflict_with_def conflict_def)
  qed
qed

definition detects :: "(bm_heap \<Rightarrow> bitmap \<Rightarrow> (bitmap \<times> bool) option) \<Rightarrow> BmAccessTypeT \<Rightarrow> Addr \<Rightarrow> nat
    \<Rightarrow> bm_heap \<Rightarrow> bitmap \<Rightarrow> bitmap list \<Rightarrow> bool" where
  "detects f t a n h bm others \<longleftrightarrow> (\<exists>bm'. f h bm
       = Some (bm', \<exists>x. unat a \<le> unat x \<and> unat x < unat a + n \<and> conflict h bm t x)
     \<and> queried h bm others bm')"

lemma detects_aligned:
  assumes "winv h (bm # others)" "unat a mod 64 + n \<le> 64" "n < 64"
  shows "detects (\<lambda>h bm. bm_aligned_load_has_conflict_with h bm a (of_nat n)) eLoad a n h bm others"
    "detects (\<lambda>h bm. bm_aligned_store_has_conflict_with h bm a (of_nat n)) eStore a n h bm others"
  unfolding detects_def by (rule aligned_conflict [OF assms])+

lemma detects_range:
  assumes w: "winv h (bm # others)" and a: "unat a + n + 16384 < 2 ^ 64" and t: "t = eLoad \<or> t = eStore"
  shows "detects (\<lambda>h bm. bm_has_conflict_with t h bm a (a + of_nat n)) t a n h bm others"
proof -
  note r = range_ok [OF a]
  have "a \<le> a + of_nat n" by (simp add: unat_le_iff r(1))
  then obtain bm' where "bm_has_conflict_with t h bm a (a + of_nat n)
      = Some (bm', \<exists>x. a \<le> x \<and> x < a + of_nat n \<and> conflict h bm t x)" "queried h bm others bm'"
    by (rule bm_has_conflict_with_spec [OF w _ r(2) t])
  moreover have "(\<exists>x. a \<le> x \<and> x < a + of_nat n \<and> conflict h bm t x)
      \<longleftrightarrow> (\<exists>x. unat a \<le> unat x \<and> unat x < unat a + n \<and> conflict h bm t x)"
    using r(4) by metis
  ultimately show ?thesis unfolding detects_def by auto
qed

lemma detects_sizes:
  assumes w: "winv h (bm # others)" and a: "unat a + n + 16384 < 2 ^ 64"
  shows "n = 1 \<Longrightarrow> detects (\<lambda>h bm. bm_load_1_has_conflict_with h bm a) eLoad a n h bm others"
    "n = 2 \<Longrightarrow> detects (\<lambda>h bm. bm_load_2_has_conflict_with h bm a) eLoad a n h bm others"
    "n = 4 \<Longrightarrow> detects (\<lambda>h bm. bm_load_4_has_conflict_with h bm a) eLoad a n h bm others"
    "n = 8 \<Longrightarrow> detects (\<lambda>h bm. bm_load_8_has_conflict_with h bm a) eLoad a n h bm others"
    "n = 1 \<Longrightarrow> detects (\<lambda>h bm. bm_store_1_has_conflict_with h bm a) eStore a n h bm others"
    "n = 2 \<Longrightarrow> detects (\<lambda>h bm. bm_store_2_has_conflict_with h bm a) eStore a n h bm others"
    "n = 4 \<Longrightarrow> detects (\<lambda>h bm. bm_store_4_has_conflict_with h bm a) eStore a n h bm others"
    "n = 8 \<Longrightarrow> detects (\<lambda>h bm. bm_store_8_has_conflict_with h bm a) eStore a n h bm others"
proof -
  note al = detects_aligned [OF w, of a] and rg = detects_range [OF w, of a]
  show "detects (\<lambda>h bm. bm_load_1_has_conflict_with h bm a) eLoad a n h bm others"
    "detects (\<lambda>h bm. bm_store_1_has_conflict_with h bm a) eStore a n h bm others" if "n = 1"
    using al [of 1] low_fits(4) that
    by (simp_all add: bm_load_1_has_conflict_with_def bm_store_1_has_conflict_with_def)
  show "detects (\<lambda>h bm. bm_load_2_has_conflict_with h bm a) eLoad a n h bm others"
    "detects (\<lambda>h bm. bm_store_2_has_conflict_with h bm a) eStore a n h bm others" if "n = 2"
    using al [of 2] rg [of 2] low_fits(1) a that
    unfolding bm_load_2_has_conflict_with_def bm_store_2_has_conflict_with_def and_low
    by (cases "unat a mod 2 = 0"; simp)+
  show "detects (\<lambda>h bm. bm_load_4_has_conflict_with h bm a) eLoad a n h bm others"
    "detects (\<lambda>h bm. bm_store_4_has_conflict_with h bm a) eStore a n h bm others" if "n = 4"
    using al [of 4] rg [of 4] low_fits(2) a that
    unfolding bm_load_4_has_conflict_with_def bm_store_4_has_conflict_with_def and_low
    by (cases "unat a mod 4 = 0"; simp)+
  show "detects (\<lambda>h bm. bm_load_8_has_conflict_with h bm a) eLoad a n h bm others"
    "detects (\<lambda>h bm. bm_store_8_has_conflict_with h bm a) eStore a n h bm others" if "n = 8"
    using al [of 8] rg [of 8] low_fits(3) a that
    unfolding bm_load_8_has_conflict_with_def bm_store_8_has_conflict_with_def and_low
    by (cases "unat a mod 8 = 0"; simp)+
qed

subsection \<open>Clearing within a page\<close>

text \<open>Clearing the offsets from \<open>lo\<close> up to \<open>hi\<close> of both arrays.\<close>

definition clr1 :: "bitmap1 \<Rightarrow> bitmap1 \<Rightarrow> nat \<Rightarrow> nat \<Rightarrow> bool" where
  "clr1 p1 p1' lo hi \<longleftrightarrow> bm1_ok p1'
     \<and> (\<forall>t n. n < 16384 \<longrightarrow> acc1 t p1' n = (acc1 t p1 n \<and> \<not> (lo \<le> n \<and> n < hi)))"

lemma clr1_refl: "bm1_ok p1 \<Longrightarrow> clr1 p1 p1 lo lo"
  by (auto simp: clr1_def)

lemma clr1_trans:
  assumes "clr1 p1 p2 lo mid" "clr1 p2 p3 lo' hi" "lo \<le> lo'" "lo' \<le> mid" "mid \<le> hi"
  shows "clr1 p1 p3 lo hi"
  using assms unfolding clr1_def by (metis leI le_trans order_less_le_trans)

lemma clr1_ok: "clr1 p1 p1' lo hi \<Longrightarrow> bm1_ok p1'"
  by (simp add: clr1_def)

lemma clr1_both:
  assumes "bm1_ok p1" "\<And>xs. sized xs \<Longrightarrow> sized (f xs)"
    and "\<And>xs n. sized xs \<Longrightarrow> n < 16384 \<Longrightarrow> nb (f xs) n = (nb xs n \<and> \<not> (lo \<le> n \<and> n < hi))"
  shows "clr1 p1 (bm1_both f p1) lo hi"
  using assms by (auto simp: clr1_def bm1_ok_def bm1_both_def acc1_def)

lemma clr1_range:
  assumes "bm1_ok p1" "unat sz < 64" "unat a mod 64 + unat sz \<le> 64"
  shows "clr1 p1 (bm1_both (\<lambda>bm0. bm0_clear_range bm0 (a AND 16383) sz) p1)
    (unat a mod 16384 - unat a mod 64) (unat a mod 16384 + unat sz)"
proof (rule clr1_both [OF assms(1)])
  have m: "unat a mod 16384 mod 64 = unat a mod 64" by (rule mod_mod_cancel) simp
  fix xs n assume x: "sized xs"
  then show "sized (bm0_clear_range xs (a AND 16383) sz)" by (rule sized_sizes)
  assume "n < (16384 :: nat)"
  with x assms m show "nb (bm0_clear_range xs (a AND 16383) sz) n = (nb xs n
      \<and> \<not> (unat a mod 16384 - unat a mod 64 \<le> n \<and> n < unat a mod 16384 + unat sz))"
    using nb_clear_range [of xs "a AND 16383" n sz] by simp
qed

lemma clr1_zero:
  assumes "bm1_ok p1" "unat c mod 64 = 0" "unat c mod 16384 + 64 * m \<le> 16384"
  shows "clr1 p1 (bm1_both (\<lambda>bm0. bm0_zero bm0 (bm0_index (c AND 16383)) m) p1)
    (unat c mod 16384) (unat c mod 16384 + 64 * m)"
proof (rule clr1_both [OF assms(1)])
  let ?i = "unat c mod 16384 div 64"
  have "unat c mod 16384 mod 64 = unat c mod 64" by (rule mod_mod_cancel) simp
  then have i: "64 * ?i = unat c mod 16384" using nat_div_mod [of "unat c mod 16384"] assms(2) by linarith
  have r: "?i + m \<le> BITMAP1_UWORD_COUNT" using assms(3) i unfolding BITMAP1_UWORD_COUNT_def by linarith
  fix xs n assume x: "sized xs"
  show "sized (bm0_zero xs (bm0_index (c AND 16383)) m)" using sized_sizes(5) [OF x r] by simp
  assume "n < (16384 :: nat)"
  then show "nb (bm0_zero xs (bm0_index (c AND 16383)) m) n = (nb xs n
      \<and> \<not> (unat c mod 16384 \<le> n \<and> n < unat c mod 16384 + 64 * m))"
    using nb_zero [OF x r, of n] i by (simp add: distrib_left)
qed

end
