(* ===== verification/DRD_Bitmap_Correct.thy ===== *)
theory DRD_Bitmap_Correct
  imports DRD_Bitmap_Access
begin

text \<open>
  Clearing, merging and deleting bitmaps, what happens to the loops over a range near the top of the
  address space, and the properties of the bitmaps.
\<close>

text \<open>The three steps of clearing the part \<open>[b, e[\<close> of a page.\<close>

lemma clear_first:
  fixes b e :: Addr
  assumes ok: "bm1_ok p1" and b: "b < e" and hi: "unat e < 2 ^ 64 - 64"
  obtains q c where
    "(if UWORD_LSB b \<noteq> 0 then
        (let next = UWORD_MSB b + BITS_PER_UWORD;
             c_next = (if next > e then e else next)
         in (bm1_both (\<lambda>bm0. bm0_clear_range bm0 (b AND ADDR0_MASK) (c_next - b)) p1, c_next))
      else (p1, b)) = (q, c)"
    "clr1 p1 q (unat b mod 16384 - unat b mod 64) (unat b mod 16384 + (unat c - unat b))"
    "b \<le> c" "c \<le> e"
    "unat c mod 64 = 0 \<or> c = e \<and> unat c - unat c mod 64 = unat b - unat b mod 64"
proof (cases "unat b mod 64 = 0")
  case True
  then show thesis using ok b by (intro that [of p1 b]) (auto simp: clr1_refl)
next
  case False
  let ?n = "UWORD_MSB b + BITS_PER_UWORD"
  let ?c = "if ?n > e then e else ?n"
  have B: "unat b < unat e" using b by (simp add: unat_less_iff)
  have n: "unat ?n = unat b - unat b mod 64 + 64"
    using B hi by (simp add: BITS_PER_UWORD_def unat_word_ariths)
  have c: "unat ?c = min (unat b - unat b mod 64 + 64) (unat e)"
    by (simp add: unat_less_iff n min_def)
  have cle: "unat ?c \<le> unat b - unat b mod 64 + 64" unfolding c by (rule min.cobounded1)
  have bc: "unat b < unat ?c" using B nat_div_mod [of "unat b"] unfolding c by linarith
  have sz: "unat (?c - b) = unat ?c - unat b" using bc by (simp add: unat_sub_if_size)
  have fits: "unat (?c - b) < 64" "unat b mod 64 + unat (?c - b) \<le> 64"
    using bc cle nat_div_mod [of "unat b"] False unfolding sz by linarith+
  show thesis
  proof (rule that [of "bm1_both (\<lambda>bm0. bm0_clear_range bm0 (b AND ADDR0_MASK) (?c - b)) p1" ?c])
    show "clr1 p1 (bm1_both (\<lambda>bm0. bm0_clear_range bm0 (b AND ADDR0_MASK) (?c - b)) p1)
      (unat b mod 16384 - unat b mod 64) (unat b mod 16384 + (unat ?c - unat b))"
      using clr1_range [OF ok fits] by (simp only: ADDR0_values sz)
    show "b \<le> ?c" "?c \<le> e" unfolding unat_le_iff using bc by (simp, simp only: c min.cobounded2)
    have "(unat b - unat b mod 64 + 64) mod 64 = 0" by (simp add: minus_mod_eq_mult_div)
    moreover have "unat e - unat e mod 64 = unat b - unat b mod 64" if "unat e < unat b - unat b mod 64 + 64"
    proof -
      have "unat e < (unat b div 64 + 1) * 64" 
        using that unfolding minus_mod_eq_mult_div distrib_right by (simp only: mult.commute mult_1_right mult_1)
      then have "unat e div 64 < unat b div 64 + 1" by (simp only: div_less_iff_less_mult)
      moreover have "unat b div 64 \<le> unat e div 64" using B by (intro div_le_mono) simp
      ultimately have "unat e div 64 = unat b div 64" by linarith
      then show ?thesis by (simp add: minus_mod_eq_mult_div)
    qed
    ultimately show "unat ?c mod 64 = 0 \<or> ?c = e \<and> unat ?c - unat ?c mod 64 = unat b - unat b mod 64"
      using c by (cases "?n > e") (simp_all add: n unat_less_iff)
  qed (use False in \<open>simp add: Let_def\<close>)
qed

lemma clear_words:
  fixes b c e :: Addr
  assumes ok: "bm1_ok q" and bc: "b \<le> c" and ce: "c \<le> e"
    and al: "unat c mod 64 = 0 \<or> c = e"
    and page: "unat e \<le> (unat b div 16384 + 1) * 16384"
  obtains q' c' where
    "(if UWORD_LSB c = 0 then
        (let c_next = UWORD_MSB e in do {
           vg_assert (UWORD_LSB c_next = 0);
           vg_assert (c_next \<le> e);
           vg_assert (c \<le> c_next);
           if c_next > c then
             Some (bm1_both (\<lambda>bm0. bm0_zero bm0 (bm0_index (c AND ADDR0_MASK))
               (unat (c_next - c) div 64)) q, c_next)
           else Some (q, c) })
      else Some (q, c)) = Some (q', c')"
    "clr1 q q' (unat b mod 16384 + (unat c - unat b)) (unat b mod 16384 + (unat c' - unat b))"
    "c \<le> c'" "c' \<le> e" "unat e - unat c' < 64" "unat c' mod 64 = 0 \<or> c' = c \<and> c' = e"
proof (cases "unat c mod 64 = 0")
  case False
  with al ok show thesis by (intro that [of q c]) (auto simp: clr1_refl)
next
  case True
  let ?n = "UWORD_MSB e"
  have C: "unat b \<le> unat c" "unat c \<le> unat e" using bc ce by (simp_all add: unat_le_iff)
  have n: "unat ?n = 64 * (unat e div 64)" by (simp add: minus_mod_eq_mult_div)
  have cn: "unat c \<le> unat ?n" using C(2) True nat_div_mod [of "unat c"] div_le_mono [OF C(2), of 64] n
    by linarith
  have ne: "unat ?n \<le> unat e" "unat e - unat ?n < 64" using nat_div_mod [of "unat e"] n by linarith+
  have as: "UWORD_LSB ?n = 0" "?n \<le> e" "c \<le> ?n" using cn ne n by (simp_all add: unat_le_iff)
  show thesis
  proof (cases "?n > c")
    case gt: True
    let ?m = "unat (?n - c) div 64"
    have lt: "unat c < unat ?n" using gt by (simp add: unat_less_iff)
    have u: "unat (?n - c) = unat ?n - unat c" using cn by (simp add: unat_sub_if_size)
    have "(unat ?n - unat c) mod 64 = 0"
      using True unfolding n by (simp add: dvd_diff_nat flip: dvd_eq_mod_eq_0)
    then have m: "64 * ?m = unat ?n - unat c"
      using mult_div_mod_eq [of 64 "unat ?n - unat c"] unfolding u by linarith
    have pc: "unat c div 16384 = unat b div 16384"
    proof (rule antisym)
      have "unat c < (unat b div 16384 + 1) * 16384" using lt ne page by linarith
      then have "unat c div 16384 < unat b div 16384 + 1" by (simp only: div_less_iff_less_mult)
      then show "unat c div 16384 \<le> unat b div 16384" by simp
      show "unat b div 16384 \<le> unat c div 16384" using C(1) by (rule div_le_mono)
    qed
    have o: "unat c mod 16384 = unat b mod 16384 + (unat c - unat b)"
      using pc C(1) nat_page [of "unat b"] nat_page [of "unat c"] by linarith
    have "unat c mod 16384 + 64 * ?m \<le> 16384"
      using m ne page lt nat_page [of "unat c"] pc unfolding distrib_right by linarith
    note z = clr1_zero [OF ok True this]
    have "unat c mod 16384 + 64 * ?m = unat b mod 16384 + (unat ?n - unat b)"
      using o m C cn by linarith
    then show thesis using z as gt True ne n
      by (intro that [of "bm1_both (\<lambda>bm0. bm0_zero bm0 (bm0_index (c AND ADDR0_MASK)) ?m) q" ?n])
        (simp_all only: o [symmetric] if_True LSB_eq_0 vg_assert_bind Let_def ADDR0_values, simp_all)
  next
    case False
    then have "?n = c" using as(3) by simp
    then show thesis using as ok True ne by (intro that [of q c]) (auto simp: clr1_refl Let_def)
  qed
qed

lemma clear_last:
  fixes b c e :: Addr
  assumes ok: "bm1_ok q" and be: "b < e" and bc: "b \<le> c" and ce: "c \<le> e" and lt: "unat e - unat c < 64"
    and al: "unat c mod 64 = 0 \<or> c = e \<and> unat c - unat c mod 64 = unat b - unat b mod 64"
    and page: "unat e \<le> (unat b div 16384 + 1) * 16384"
  obtains lo where "clr1 q (bm1_both (\<lambda>bm0. bm0_clear_range bm0 (c AND ADDR0_MASK) (e - c)) q)
      lo (unat b mod 16384 + (unat e - unat b))"
    "unat b mod 16384 - unat b mod 64 \<le> lo" "lo \<le> unat b mod 16384 + (unat c - unat b)"
proof -
  have C: "unat b \<le> unat c" "unat c \<le> unat e" using bc ce by (simp_all add: unat_le_iff)
  have sz: "unat (e - c) = unat e - unat c" using C by (simp add: unat_sub_if_size)
  have fits: "unat (e - c) < 64" "unat c mod 64 + unat (e - c) \<le> 64"
    using lt al unfolding sz by auto
  note r = clr1_range [OF ok fits, unfolded sz]
  show thesis
  proof (cases "unat c < (unat b div 16384 + 1) * 16384")
    case True
    have pc: "unat c div 16384 = unat b div 16384"
    proof (rule antisym)
      have "unat c div 16384 < unat b div 16384 + 1" using True by (simp only: div_less_iff_less_mult)
      then show "unat c div 16384 \<le> unat b div 16384" by simp
      show "unat b div 16384 \<le> unat c div 16384" using C(1) by (rule div_le_mono)
    qed
    have o: "unat c mod 16384 = unat b mod 16384 + (unat c - unat b)"
      using pc C(1) nat_page [of "unat b"] nat_page [of "unat c"] by linarith
    have hi: "unat c mod 16384 + (unat e - unat c) = unat b mod 16384 + (unat e - unat b)"
      using o C by linarith
    have m: "unat c mod 64 \<le> unat c mod 16384"
      using mod_mod_cancel [of 64 16384 "unat c"] mod_less_eq_dividend [of "unat c mod 16384" 64] by simp
    show thesis
    proof (rule that)
      show "clr1 q (bm1_both (\<lambda>bm0. bm0_clear_range bm0 (c AND ADDR0_MASK) (e - c)) q)
        (unat c mod 16384 - unat c mod 64) (unat b mod 16384 + (unat e - unat b))"
        using r by (simp only: ADDR0_values hi)
      show "unat b mod 16384 - unat b mod 64 \<le> unat c mod 16384 - unat c mod 64" using al o C by linarith
      show "unat c mod 16384 - unat c mod 64 \<le> unat b mod 16384 + (unat c - unat b)" using o by linarith
    qed
  next
    case False
    then have eq: "unat c = (unat b div 16384 + 1) * 16384" "unat e = unat c" using page C by linarith+
    have "unat b mod 16384 + (unat e - unat b) = 16384"
      using eq nat_page [of "unat b"] C unfolding distrib_right by linarith
    moreover have "clr1 q (bm1_both (\<lambda>bm0. bm0_clear_range bm0 (c AND ADDR0_MASK) (e - c)) q) 16384 16384"
    proof -
      have "unat c mod 16384 = 0" "unat c mod 64 = 0" by (simp_all add: eq(1))
      then show ?thesis using r eq(2) by (simp add: clr1_def)
    qed
    ultimately show thesis using eq C nat_page [of "unat b"]
      by (intro that [of 16384]) (simp_all add: distrib_right)
  qed
qed

lemma bm_clear_bm1_spec:
  fixes b e :: Addr
  assumes ok: "bm1_ok p1" and b: "b < e" and hi: "unat e < 2 ^ 64 - 64"
    and page: "unat e \<le> (unat b div 16384 + 1) * 16384"
  obtains p1' where "bm_clear_bm1 b e p1 = Some p1'"
    "clr1 p1 p1' (unat b mod 16384 - unat b mod 64) (unat b mod 16384 + (unat e - unat b))"
proof -
  let ?o = "unat b mod 16384" and ?lo = "unat b mod 16384 - unat b mod 64"
  obtain q c where 1:
    "(if UWORD_LSB b \<noteq> 0 then
        (let next = UWORD_MSB b + BITS_PER_UWORD;
             c_next = (if next > e then e else next)
         in (bm1_both (\<lambda>bm0. bm0_clear_range bm0 (b AND ADDR0_MASK) (c_next - b)) p1, c_next))
      else (p1, b)) = (q, c)"
    "clr1 p1 q ?lo (?o + (unat c - unat b))" "b \<le> c" "c \<le> e"
    "unat c mod 64 = 0 \<or> c = e \<and> unat c - unat c mod 64 = unat b - unat b mod 64"
    by (rule clear_first [OF ok b hi])
  have al: "unat c mod 64 = 0 \<or> c = e" using 1(5) by blast
  obtain q' c' where 2:
    "(if UWORD_LSB c = 0 then
        (let c_next = UWORD_MSB e in do {
           vg_assert (UWORD_LSB c_next = 0);
           vg_assert (c_next \<le> e);
           vg_assert (c \<le> c_next);
           if c_next > c then
             Some (bm1_both (\<lambda>bm0. bm0_zero bm0 (bm0_index (c AND ADDR0_MASK))
               (unat (c_next - c) div 64)) q, c_next)
           else Some (q, c) })
      else Some (q, c)) = Some (q', c')"
    "clr1 q q' (?o + (unat c - unat b)) (?o + (unat c' - unat b))"
    "c \<le> c'" "c' \<le> e" "unat e - unat c' < 64" "unat c' mod 64 = 0 \<or> c' = c \<and> c' = e"
    by (rule clear_words [OF clr1_ok [OF 1(2)] 1(3,4) al page])
  have al': "unat c' mod 64 = 0 \<or> c' = e \<and> unat c' - unat c' mod 64 = unat b - unat b mod 64"
    using 2(6) 1(5) by auto
  have bc': "b \<le> c'" using 1(3) 2(3) by (rule order_trans)
  obtain lo where 3: "clr1 q' (bm1_both (\<lambda>bm0. bm0_clear_range bm0 (c' AND ADDR0_MASK) (e - c')) q')
      lo (?o + (unat e - unat b))" "?lo \<le> lo" "lo \<le> ?o + (unat c' - unat b)"
    by (rule clear_last [OF clr1_ok [OF 2(2)] b bc' 2(4,5) al' page])
  have C: "unat b \<le> unat c" "unat c \<le> unat c'" "unat c' \<le> unat e"
    using 1(3) 2(3,4) by (simp_all add: unat_le_iff)
  have "clr1 p1 q' ?lo (?o + (unat c' - unat b))"
    by (rule clr1_trans [OF 1(2) 2(2)]) (use C in linarith)+
  from clr1_trans [OF this 3(1,2,3)] have
    "clr1 p1 (bm1_both (\<lambda>bm0. bm0_clear_range bm0 (c' AND ADDR0_MASK) (e - c')) q') ?lo (?o + (unat e - unat b))"
    using C by linarith
  moreover have "bm_clear_bm1 b e p1
      = Some (bm1_both (\<lambda>bm0. bm0_clear_range bm0 (c' AND ADDR0_MASK) (e - c')) q')"
    unfolding bm_clear_bm1_def 1(1) Let_def [of "(q, c)"] prod.case 2(1) by simp
  ultimately show thesis by (intro that)
qed

subsection \<open>Clearing a range\<close>

text \<open>The effect of clearing, in all bitmaps.\<close>

definition erased ::
  "bm_heap \<Rightarrow> bitmap \<Rightarrow> bitmap list \<Rightarrow> (BmAccessTypeT \<Rightarrow> Addr \<Rightarrow> bool) \<Rightarrow> bm_heap \<Rightarrow> bitmap \<Rightarrow> bool" where
  "erased h bm others K h' bm' \<longleftrightarrow> winv h' (bm' # others)
     \<and> (\<forall>c \<in> set others. acc h' c = acc h c)
     \<and> (\<forall>t a. acc h' bm' t a \<longleftrightarrow> acc h bm t a \<and> \<not> K t a)"

lemma erased_trans:
  assumes "erased h bm others K h' bm'" "erased h' bm' others L h'' bm''"
  shows "erased h bm others (\<lambda>t a. K t a \<or> L t a) h'' bm''"
  using assms unfolding erased_def by metis

lemma erased_cong: "erased h bm others K h' bm' \<Longrightarrow> (\<And>t a. K t a = L t a) \<Longrightarrow> erased h bm others L h' bm'"
  by (simp add: erased_def)

lemma erased_refl: "winv h (bm # others) \<Longrightarrow> (\<And>t a. \<not> K t a) \<Longrightarrow> erased h bm others K h bm"
  by (simp add: erased_def)

text \<open>Clearing bits of a page that is exclusive.\<close>

lemma prepared_erase:
  assumes p: "prepared h bm others k h1 bm' p" and b: "bm2s h1 p = Some b2" and f: "bm1_ok (f (bm1 b2))"
    and P: "\<And>t n. n < 16384 \<Longrightarrow> acc1 t (f (bm1 b2)) n = (acc1 t (bm1 b2) n \<and> \<not> P t n)"
  obtains h2 where "bm2_write h1 p f = Some h2"
    "erased h bm others (\<lambda>t a. drop_bit 14 a = k \<and> P t (unat a mod 16384)) h2 bm'"
proof -
  obtain b where b': "bm2s h1 p = Some b" "addr b = k" "bm1_ok (bm1 b)"
    "\<And>t a. drop_bit 14 a = k \<Longrightarrow> acc1 t (bm1 b) (unat a mod 16384) = acc h bm t a"
    by (rule prepared_block [OF p]) blast
  then have bb: "b = b2" using b by simp
  obtain h2 where h2: "bm2_write h1 p f = Some h2" "winv h2 (bm' # others)"
    "\<forall>c \<in> set others. acc h2 c = acc h c"
    "\<And>t a. acc h2 bm' t a = (if drop_bit 14 a = k then acc1 t (f (bm1 b2)) (unat a mod 16384)
       else acc h bm t a)"
    by (rule prepared_write [where f = f, OF p b f]) blast
  have "acc h2 bm' t a \<longleftrightarrow> acc h bm t a \<and> \<not> (drop_bit 14 a = k \<and> P t (unat a mod 16384))" for t a
    using b'(4) [of a t] P [of "unat a mod 16384" t] bb by (simp add: h2(4))
  then show thesis using h2(1-3) by (intro that [of h2]) (simp_all add: erased_def)
qed

lemma clear_interval:
  fixes b e x :: Addr
  assumes be: "unat b < unat e" and page: "unat e \<le> (unat b div 16384 + 1) * 16384"
  shows "drop_bit 14 x = drop_bit 14 b
      \<and> (unat b mod 16384 - unat b mod 64 \<le> unat x mod 16384
         \<and> unat x mod 16384 < unat b mod 16384 + (unat e - unat b))
    \<longleftrightarrow> unat b - unat b mod 64 \<le> unat x \<and> unat x < unat e"
proof -
  let ?s = "unat b - unat b mod 64"
  have m: "unat b mod 64 \<le> unat b mod 16384"
    using mod_mod_cancel [of 64 16384 "unat b"] mod_less_eq_dividend [of "unat b mod 16384" 64] by simp
  have ps: "?s div 16384 = unat b div 16384"
  proof (rule div_nat_eqI)
    show "16384 * (unat b div 16384) \<le> ?s" using m nat_page(1) [of "unat b"] by linarith
    show "?s < 16384 * Suc (unat b div 16384)" using nat_page [of "unat b"] unfolding mult_Suc_right by linarith
  qed
  have os: "?s mod 16384 = unat b mod 16384 - unat b mod 64"
    using ps m nat_page [of "unat b"] nat_page [of ?s] by linarith
  have pe: "(unat e - 1) div 16384 = unat b div 16384"
  proof (rule div_nat_eqI)
    show "16384 * (unat b div 16384) \<le> unat e - 1" using be nat_page(1) [of "unat b"] by linarith
    show "unat e - 1 < 16384 * Suc (unat b div 16384)"
      using be page unfolding mult_Suc_right distrib_right by linarith
  qed
  have oe: "(unat e - 1) mod 16384 = unat b mod 16384 + (unat e - unat b) - 1"
    using pe be nat_page [of "unat b"] nat_page [of "unat e - 1"] by linarith
  have "unat x mod 16384 < unat b mod 16384 + (unat e - unat b) \<longleftrightarrow> unat x mod 16384 \<le> (unat e - 1) mod 16384"
    using be unfolding oe by linarith
  moreover have "?s < unat e" "?s div 16384 = (unat e - 1) div 16384" using be ps pe by simp_all
  ultimately show ?thesis
    using page_interval [of ?s "unat e" "unat x"] unfolding page_eq_iff os ps by blast
qed

lemma clear_part_spec:
  assumes nw: "no_wrap a2" and b: "b < a2" and w: "winv h (bm # others)"
  obtains h' bm' where "bm_clear_part b (part_end a2 b) (h, bm) = Some ((h', bm'), None)"
    "erased h bm others (\<lambda>t a. unat b - unat b mod 64 \<le> unat a \<and> a < part_end a2 b) h' bm'"
proof -
  let ?e = "part_end a2 b" and ?k = "drop_bit 14 b"
  have e: "b < ?e" "unat ?e \<le> (unat b div 16384 + 1) * 16384" "unat ?e \<le> unat a2"
    using part_end_bounds(1) [OF nw b] part_end_unat [OF nw b] by simp_all
  have be: "unat b < unat ?e" using e(1) by (simp add: unat_less_iff)
  have hi: "unat ?e < 2 ^ 64 - 64" using e(3) nw unfolding no_wrap_def by linarith
  note iv = clear_interval [OF be e(2)]
  show thesis
  proof (rule bm2_lookup_exclusive_spec [OF w is_page_drop [of b]])
    assume l: "bm2_lookup_exclusive h bm ?k = Some (h, bm, None)" "OSetGen_Lookup (oset bm) ?k = None"
    have "\<not> acc h bm t a" if "unat b - unat b mod 64 \<le> unat a \<and> a < ?e" for t a
    proof -
      have "drop_bit 14 a = ?k" using iv [of a] that by (simp add: unat_less_iff)
      then show ?thesis using l(2) by (simp add: acc_def)
    qed
    then show thesis using l(1) w
      by (intro that [of h bm]) (auto simp: bm_clear_part_def erased_def)
  next
    fix h1 bm' p assume l: "bm2_lookup_exclusive h bm ?k = Some (h1, bm', Some p)"
      "prepared h bm others ?k h1 bm' p"
    obtain b2 where b2: "bm2s h1 p = Some b2" "addr b2 = ?k" "bm1_ok (bm1 b2)"
      by (rule prepared_block [OF l(2)])
    obtain p1 where p1: "bm_clear_bm1 b ?e (bm1 b2) = Some p1"
      "clr1 (bm1 b2) p1 (unat b mod 16384 - unat b mod 64) (unat b mod 16384 + (unat ?e - unat b))"
      by (rule bm_clear_bm1_spec [OF b2(3) e(1) hi e(2)])
    obtain h2 where h2: "bm2_write h1 p (\<lambda>_. p1) = Some h2"
      "erased h bm others (\<lambda>t a. drop_bit 14 a = ?k
         \<and> (unat b mod 16384 - unat b mod 64 \<le> unat a mod 16384
            \<and> unat a mod 16384 < unat b mod 16384 + (unat ?e - unat b))) h2 bm'"
      by (rule prepared_erase [where f = "\<lambda>_. p1" and P = "\<lambda>t n. unat b mod 16384 - unat b mod 64 \<le> n
            \<and> n < unat b mod 16384 + (unat ?e - unat b)", OF l(2) b2(1)])
        (use p1(2) in \<open>auto simp: clr1_def\<close>)
    show thesis
    proof (rule that)
      show "bm_clear_part b ?e (h, bm) = Some ((h2, bm'), None)"
        using l(1) b2(1) p1(1) h2(1) by (simp add: bm_clear_part_def)
      show "erased h bm others (\<lambda>t a. unat b - unat b mod 64 \<le> unat a \<and> a < ?e) h2 bm'"
        using h2(2) by (rule erased_cong) (simp only: iv unat_less_iff)
    qed
  qed
qed

lemma bm_clear_spec:
  assumes w: "winv h (bm # others)" and a: "a1 \<noteq> 0" "a1 \<le> a2" "no_wrap a2"
  obtains h' bm' where "bm_clear h bm a1 a2 = Some (h', bm')"
    "erased h bm others (\<lambda>t a. a1 < a2 \<and> UWORD_MSB a1 \<le> a \<and> a < a2) h' bm'"
proof -
  let ?I = "\<lambda>b (h', bm'). erased h bm others (\<lambda>t a. a1 < b \<and> UWORD_MSB a1 \<le> a \<and> a < b) h' bm'"
  let ?Q = "\<lambda>(x :: unit) (st :: bm_heap \<times> bitmap). False"
  have "\<exists>s' r. bm_range_loop bm_clear_part a2 a1 (h, bm) = Some (s', r)
      \<and> (case r of None \<Rightarrow> ?I a2 s' | Some x \<Rightarrow> ?Q x s')"
  proof (rule bm_range_loop_rule [OF a(3,2)])
    show "?I a1 (h, bm)" using w by (simp add: erased_refl)
    fix b st assume b: "b < a2" "part_start a1 b" "?I b st"
    obtain h1 bm1 where st: "st = (h1, bm1)" by (cases st)
    have I: "erased h bm others (\<lambda>t a. a1 < b \<and> UWORD_MSB a1 \<le> a \<and> a < b) h1 bm1" using b(3) st by simp
    let ?e = "part_end a2 b"
    have w1: "winv h1 (bm1 # others)" using I by (simp add: erased_def)
    obtain h2 bm2 where s: "bm_clear_part b ?e (h1, bm1) = Some ((h2, bm2), None)"
      "erased h1 bm1 others (\<lambda>t a. unat b - unat b mod 64 \<le> unat a \<and> a < ?e) h2 bm2"
      by (rule clear_part_spec [OF a(3) b(1) w1])
    have be: "b < ?e" by (rule part_end_bounds(1) [OF a(3) b(1)])
    have "erased h bm others (\<lambda>t a. a1 < ?e \<and> UWORD_MSB a1 \<le> a \<and> a < ?e) h2 bm2"
      using erased_trans [OF I s(2)]
    proof (rule erased_cong)
      fix t x
      consider "b = a1" | "a1 < b" "unat b mod 64 = 0"
        using b(2) mod_mod_cancel [of 64 16384 "unat b"] by (fastforce simp: part_start_def)
      then show "((a1 < b \<and> UWORD_MSB a1 \<le> x \<and> x < b) \<or> unat b - unat b mod 64 \<le> unat x \<and> x < ?e)
          = (a1 < ?e \<and> UWORD_MSB a1 \<le> x \<and> x < ?e)"
      proof cases
        case 1
        then show ?thesis using be by (simp add: unat_le_iff)
      next
        case 2
        have "UWORD_MSB a1 \<le> b" using 2(1) by (simp add: unat_le_iff unat_less_iff)
        then show ?thesis using 2 be by (auto simp: unat_le_iff unat_less_iff)
      qed
    qed
    then show "\<exists>s' r. bm_clear_part b ?e st = Some (s', r)
        \<and> (case r of None \<Rightarrow> ?I ?e s' | Some x \<Rightarrow> ?Q x s')" using s(1) st by auto
  qed
  then obtain st r where r: "bm_range_loop bm_clear_part a2 a1 (h, bm) = Some (st, r)"
    "case r of None \<Rightarrow> ?I a2 st | Some x \<Rightarrow> ?Q x st" by blast
  then have "r = None" by (cases r) auto
  with r a show thesis by (cases st) (auto simp: bm_clear_def intro: that)
qed

lemma page_offset_inj:
  "drop_bit 14 (a :: Addr) = drop_bit 14 b \<and> unat a mod 16384 = unat b mod 16384 \<longleftrightarrow> a = b"
proof
  assume "drop_bit 14 a = drop_bit 14 b \<and> unat a mod 16384 = unat b mod 16384"
  then have "unat a = unat b"
    using nat_page(1) [of "unat a"] nat_page(1) [of "unat b"] by (simp only: page_eq_iff)
  then show "a = b" by (simp add: unat_eq_iff)
qed simp

lemma bm_clear_access_spec:
  assumes "winv h (bm # others)" "b \<le> a2"
  shows "\<exists>h' bm'. bm_clear_access t h bm b a2 = Some (h', bm')
    \<and> erased h bm others (\<lambda>t' a. same_kind t t' \<and> b \<le> a \<and> a < a2) h' bm'"
  using assms
proof (induction "unat a2 - unat b" arbitrary: b h bm rule: less_induct)
  case less
  show ?case
  proof (cases "b < a2")
    case False
    then show ?thesis using less.prems by (subst bm_clear_access.simps) (auto intro!: erased_refl)
  next
    case True
    let ?k = "drop_bit 14 b" and ?K = "\<lambda>t' a. same_kind t t' \<and> a = b"
    have u: "unat (b + 1) = Suc (unat b)"
      using True unsigned_less [of a2, where 'a = nat] by (simp add: unat_word_ariths unat_less_iff)
    have IH: "\<exists>h'' bm''. bm_clear_access t h' bm' (b + 1) a2 = Some (h'', bm'')
        \<and> erased h bm others (\<lambda>t' a. same_kind t t' \<and> b \<le> a \<and> a < a2) h'' bm''"
      if e: "erased h bm others ?K h' bm'" for h' bm'
    proof -
      have "unat a2 - unat (b + 1) < unat a2 - unat b" "b + 1 \<le> a2"
        using True by (simp_all add: unat_less_iff unat_le_iff u)
      moreover have "winv h' (bm' # others)" using e by (simp add: erased_def)
      ultimately obtain h'' bm'' where i: "bm_clear_access t h' bm' (b + 1) a2 = Some (h'', bm'')"
        "erased h' bm' others (\<lambda>t' a. same_kind t t' \<and> b + 1 \<le> a \<and> a < a2) h'' bm''"
        using less.hyps by blast
      have "erased h bm others (\<lambda>t' a. same_kind t t' \<and> b \<le> a \<and> a < a2) h'' bm''"
        using erased_trans [OF e i(2)]
      proof (rule erased_cong)
        fix t' a
        have "b \<le> a \<longleftrightarrow> a = b \<or> b + 1 \<le> a" by (auto simp: unat_le_iff unat_eq_iff u)
        with True show "(?K t' a \<or> same_kind t t' \<and> b + 1 \<le> a \<and> a < a2)
          = (same_kind t t' \<and> b \<le> a \<and> a < a2)" by auto
      qed
      with i(1) show ?thesis by blast
    qed
    show ?thesis
    proof (rule bm2_lookup_exclusive_spec [OF less.prems(1) is_page_drop [of b]])
      assume l: "bm2_lookup_exclusive h bm ?k = Some (h, bm, None)" "OSetGen_Lookup (oset bm) ?k = None"
      have "erased h bm others ?K h bm"
        using less.prems(1) l(2) by (auto simp: erased_def acc_def)
      from IH [OF this] show ?thesis using True l(1) by (subst bm_clear_access.simps) simp
    next
      fix h1 bm' p assume l: "bm2_lookup_exclusive h bm ?k = Some (h1, bm', Some p)"
        "prepared h bm others ?k h1 bm' p"
      obtain b2 where b2: "bm2s h1 p = Some b2" "addr b2 = ?k" "bm1_ok (bm1 b2)"
        by (rule prepared_block [OF l(2)])
      let ?f = "bm1_modify t (\<lambda>bm0. bm0_clear bm0 (b AND 16383))"
      have f: "bm1_ok (?f (bm1 b2))" by (rule bm1_ok_modify [OF b2(3)]) (rule sized_sizes)
      have P: "acc1 t' (?f (bm1 b2)) n = (acc1 t' (bm1 b2) n \<and> \<not> (same_kind t t' \<and> n = unat b mod 16384))"
        if "n < 16384" for t' n
      proof -
        have "nb (bm0_clear xs (b AND 16383)) n = (n \<noteq> unat b mod 16384 \<and> nb xs n)" if "sized xs" for xs
          using nb_clear [OF that, of "b AND 16383" n] \<open>n < 16384\<close> by simp
        then have "acc1 t' (?f (bm1 b2)) n = (if same_kind t t'
            then n \<noteq> unat b mod 16384 \<and> acc1 t' (bm1 b2) n else acc1 t' (bm1 b2) n)"
          by (rule acc1_modify [where P = "\<lambda>x. n \<noteq> unat b mod 16384 \<and> x", OF b2(3)])
        then show ?thesis by (simp only:) (cases "same_kind t t'"; simp; blast)
      qed
      obtain h2 where h2: "bm2_write h1 p ?f = Some h2"
        "erased h bm others (\<lambda>t' a. drop_bit 14 a = ?k \<and> (same_kind t t' \<and> unat a mod 16384 = unat b mod 16384))
           h2 bm'"
        by (rule prepared_erase [where f = ?f and P = "\<lambda>t' n. same_kind t t' \<and> n = unat b mod 16384",
              OF l(2) b2(1) f P])
      have "erased h bm others ?K h2 bm'" using h2(2)
      proof (rule erased_cong)
        fix t' a
        have "drop_bit 14 a = ?k \<and> unat a mod 16384 = unat b mod 16384 \<longleftrightarrow> a = b"
          by (rule page_offset_inj)
        then show "(drop_bit 14 a = ?k \<and> (same_kind t t' \<and> unat a mod 16384 = unat b mod 16384)) = ?K t' a"
          by auto
      qed
      from IH [OF this] show ?thesis using True l(1) h2(1) by (subst bm_clear_access.simps) simp
    qed
  qed
qed

subsection \<open>Merging\<close>

lemma bm2_insert_addref_spec:
  assumes w: "winv h (bm # others)" and k: "OSetGen_Lookup (oset bm) k = None"
    and r: "rhs \<in> set others" "OSetGen_Lookup (oset rhs) k = Some p"
  obtains h' bm' where "bm2_insert_addref h bm p = Some (h', bm')" "winv h' (bm' # others)"
    "\<forall>c \<in> set others. acc h' c = acc h c"
    "\<forall>t a. acc h' bm' t a = (if drop_bit 14 a = k then acc h rhs t a else acc h bm t a)"
proof -
  have rin: "rhs \<in> set (bm # others)" using r(1) by simp
  obtain b where b: "bm2s h p = Some b" "addr b = k" "bm1_ok (bm1 b)" "refcnt b = refs (bm # others) k p"
    "p < next_bm2 h" "is_page k"
    by (rule winv_lookup [OF w rin r(2)])
  let ?b = "b\<lparr>refcnt := refcnt b + 1\<rparr>"
  let ?h = "h\<lparr>bm2s := (bm2s h)(p \<mapsto> ?b)\<rparr>"
  let ?os = "OSetGen_InsertRef k p (oset bm)"
  let ?bm = "bm_update_cache (bm\<lparr>oset := ?os\<rparr>) k (Some p)"
  have okbm: "bm_ok h bm" using w by (simp add: winv_def)
  then have srt: "keys_sorted (oset bm)" by (simp add: bm_ok_def)
  have os: "OSetGen_Lookup ?os k' = (if k' = k then Some p else OSetGen_Lookup (oset bm) k')" for k'
    using OSetGen_InsertRef_lookup [OF srt k] by simp
  have pk: "k' = k" if "bm_ok h c" "OSetGen_Lookup (oset c) k' = Some p" for c k'
    using that b(1,2) unfolding bm_ok_def by fastforce
  have cache: "bm_cache_ok ?bm"
    using okbm by (intro bm_cache_ok_update [of bm]) (auto simp: bm_ok_def os)
  have ok: "bm_ok ?h c" if "bm_ok h c" for c
    using that by (rule bm_ok_heap) (use b(1) in auto)
  have ok1: "bm_ok ?h ?bm"
    using ok [OF okbm] cache b(2,6) os OSetGen_InsertRef_sorted [OF srt k] unfolding bm_ok_def by auto
  have refs_p: "refs (?bm # others) k p = refs (bm # others) k p + 1"
    using k by (simp add: refs_Cons os)
  have refs_q: "refs (?bm # others) k' q = refs (bm # others) k' q" if "q \<noteq> p" for k' q
    using that k by (auto simp: refs_Cons os)
  have same: "\<exists>b'. bm2s ?h q = Some b' \<and> bm1 b' = bm1 c" if "bm2s h q = Some c" for q c
    using that b(1) by auto
  show thesis
  proof (rule that)
    show "bm2_insert_addref h bm p = Some (?h, ?bm)"
      using b(1,2) by (simp add: bm2_insert_addref_def)
    show "winv ?h (?bm # others)"
    proof (rule winvI [OF ok1])
      fix q c assume q: "bm2s ?h q = Some c"
      show "q < next_bm2 ?h \<and> bm1_ok (bm1 c) \<and> refcnt c = refs (?bm # others) (addr c) q
          \<and> refs (?bm # others) (addr c) q > 0"
      proof (cases "q = p")
        case True
        then have "c = ?b" using q by simp
        with True show ?thesis using b refs_p refs_ge_0 [of "bm # others" k p] by (simp del: refs_ge_0)
      next
        case False
        then have "bm2s h q = Some c" using q by simp
        then show ?thesis using w refs_q [OF False] by (simp add: winv_def)
      qed
    qed (use ok winv_others [OF w] in auto)
    show "\<forall>c \<in> set others. acc ?h c = acc h c"
    proof
      fix c assume c: "c \<in> set others"
      show "acc ?h c = acc h c" using winv_others [OF w c] same by (rule acc_heap)
    qed
    have ah: "acc ?h bm = acc h bm" using okbm same by (rule acc_heap)
    show "\<forall>t a. acc ?h ?bm t a = (if drop_bit 14 a = k then acc h rhs t a else acc h bm t a)"
    proof (intro allI)
      fix t a
      show "acc ?h ?bm t a = (if drop_bit 14 a = k then acc h rhs t a else acc h bm t a)"
      proof (cases "drop_bit 14 a = k")
        case True
        then show ?thesis using r(2) b(1) by (simp add: acc_def os)
      next
        case False
        then have "acc ?h ?bm t a = acc ?h bm t a" by (simp add: acc_def os)
        with False ah show ?thesis by simp
      qed
    qed
  qed
qed

lemma nb_map2_or:
  assumes "sized xs" "sized ys" "n < 16384"
  shows "nb (map2 (OR) xs ys) n \<longleftrightarrow> nb xs n \<or> nb ys n"
proof -
  have "n div 64 < 256" using assms(3) by simp
  with assms show ?thesis by (simp add: nb_def BITMAP1_UWORD_COUNT_def bit_or_iff)
qed

text \<open>Merging into a page that is exclusive.\<close>

lemma prepared_merge:
  assumes p: "prepared h bm others k h1 bm' pl" and r: "rhs \<in> set others" "OSetGen_Lookup (oset rhs) k = Some pr"
  obtains h2 where "bm2_merge h1 pl pr = Some h2" "winv h2 (bm' # others)"
    "\<forall>c \<in> set others. acc h2 c = acc h c"
    "\<forall>t a. acc h2 bm' t a \<longleftrightarrow> acc h bm t a \<or> drop_bit 14 a = k \<and> acc h rhs t a"
proof -
  have w1: "winv h1 (bm' # others)" and k1: "OSetGen_Lookup (oset bm') k = Some pl"
    and ref: "refs (bm' # others) k pl = 1" and oth: "acc h1 rhs = acc h rhs"
    using p r(1) unfolding prepared_def by blast+
  have rin: "rhs \<in> set (bm' # others)" using r(1) by simp
  obtain rb where rb: "bm2s h1 pr = Some rb" "addr rb = k" "bm1_ok (bm1 rb)"
    by (rule winv_lookup [OF w1 rin r(2)])
  obtain l where l: "bm2s h1 pl = Some l" "addr l = k" "bm1_ok (bm1 l)"
    "\<And>t a. drop_bit 14 a = k \<Longrightarrow> acc1 t (bm1 l) (unat a mod 16384) = acc h bm t a"
    by (rule prepared_block [OF p]) blast
  have rl: "refcnt l = 1" using winv_block(3) [OF w1 _ k1 l(1)] ref by simp
  let ?f = "\<lambda>p1. \<lparr>bm0_r = map2 (OR) (bm0_r p1) (bm0_r (bm1 rb)),
                   bm0_w = map2 (OR) (bm0_w p1) (bm0_w (bm1 rb))\<rparr>"
  have f: "bm1_ok (?f (bm1 l))" using l(3) rb(3) by (simp add: bm1_ok_def)
  obtain h2 where h2: "bm2_write h1 pl ?f = Some h2" "winv h2 (bm' # others)"
    "\<forall>c \<in> set others. acc h2 c = acc h c"
    "\<And>t a. acc h2 bm' t a = (if drop_bit 14 a = k then acc1 t (?f (bm1 l)) (unat a mod 16384)
       else acc h bm t a)"
    by (rule prepared_write [where f = ?f, OF p l(1) f]) blast
  have "acc1 t (?f (bm1 l)) n \<longleftrightarrow> acc1 t (bm1 l) n \<or> acc1 t (bm1 rb) n" if "n < 16384" for t n
    using l(3) rb(3) that by (auto simp: acc1_def bm1_ok_def nb_map2_or)
  moreover have "acc h rhs t a = acc1 t (bm1 rb) (unat a mod 16384)" if "drop_bit 14 a = k" for t a
    using r(2) rb(1) that unfolding oth [symmetric] by (simp add: acc_def)
  ultimately have "\<forall>t a. acc h2 bm' t a \<longleftrightarrow> acc h bm t a \<or> drop_bit 14 a = k \<and> acc h rhs t a"
    using l(4) by (auto simp: h2(4))
  moreover have "bm2_merge h1 pl pr = Some h2"
    using l(1,2) rb(1,2) rl h2(1) by (simp add: bm2_merge_def)
  ultimately show thesis using h2(2,3) by (intro that)
qed

text \<open>The effect of a merge of the pages in \<open>K\<close> of \<open>rhs\<close>.\<close>

definition merged ::
  "bm_heap \<Rightarrow> bitmap \<Rightarrow> bitmap list \<Rightarrow> bitmap \<Rightarrow> UWord set \<Rightarrow> bm_heap \<Rightarrow> bitmap \<Rightarrow> bool" where
  "merged h lhs others rhs K h' lhs' \<longleftrightarrow> winv h' (lhs' # others)
     \<and> (\<forall>c \<in> set others. acc h' c = acc h c)
     \<and> (\<forall>t a. acc h' lhs' t a \<longleftrightarrow> acc h lhs t a \<or> drop_bit 14 a \<in> K \<and> acc h rhs t a)"

lemma merged_trans:
  assumes "merged h lhs others rhs K h1 lhs1" "merged h1 lhs1 others rhs L h2 lhs2" "rhs \<in> set others"
  shows "merged h lhs others rhs (K \<union> L) h2 lhs2"
  using assms unfolding merged_def by (metis Un_iff)

lemma merge_node:
  assumes w: "winv h (lhs # others)" and r: "rhs \<in> set others" "(k, pr) \<in> set (oset rhs)"
  obtains h' lhs' where "bm_merge2_loop h lhs ((k, pr) # rs) = bm_merge2_loop h' lhs' rs"
    "merged h lhs others rhs {k} h' lhs'"
proof -
  have "keys_sorted (oset rhs)" using winv_others [OF w r(1)] by (simp add: bm_ok_def)
  then have "distinct (map fst (oset rhs))" by (simp add: strict_sorted_iff)
  then have k: "OSetGen_Lookup (oset rhs) k = Some pr" using r(2) by simp
  have rin: "rhs \<in> set (lhs # others)" using r(1) by simp
  obtain rb where rb: "bm2s h pr = Some rb" "addr rb = k"
    by (rule winv_lookup [OF w rin k])
  show thesis
  proof (cases "OSetGen_Lookup (oset lhs) k")
    case None
    obtain h' lhs' where i: "bm2_insert_addref h lhs pr = Some (h', lhs')" "winv h' (lhs' # others)"
      "\<forall>c \<in> set others. acc h' c = acc h c"
      "\<forall>t a. acc h' lhs' t a = (if drop_bit 14 a = k then acc h rhs t a else acc h lhs t a)"
      by (rule bm2_insert_addref_spec [OF w None r(1) k])
    have "\<not> acc h lhs t a" if "drop_bit 14 a = k" for t a using None that by (simp add: acc_def)
    then show thesis using i rb None by (intro that [of h' lhs']) (auto simp: merged_def)
  next
    case (Some pl)
    show thesis
    proof (cases "pl = pr")
      case True
      have "acc h rhs t a = acc h lhs t a" if "drop_bit 14 a = k" for t a
        using that k Some True by (simp add: acc_def)
      then show thesis using w rb Some True by (intro that [of h lhs]) (auto simp: merged_def)
    next
      case False
      obtain l where l: "bm2s h pl = Some l" "refcnt l = refs (lhs # others) k pl" "refcnt l > 0"
        by (rule winv_lookup [OF w _ Some]) auto
      obtain h1 lhs1 p1 where e: "(if refcnt l > 1 then bm2_make_exclusive h lhs k else Some (h, lhs, pl))
          = Some (h1, lhs1, p1)" "prepared h lhs others k h1 lhs1 p1"
      proof (cases "refcnt l > 1")
        case True
        obtain h1 lhs1 p1 where "bm2_make_exclusive h lhs k = Some (h1, lhs1, p1)"
          "prepared h lhs others k h1 lhs1 p1"
          by (rule bm2_make_exclusive_spec [OF w Some l(1) True])
        with True show thesis by (intro that [of h1 lhs1 p1]) simp_all
      next
        case nl: False
        then have "refs (lhs # others) k pl = 1" using l by simp
        with nl w Some show thesis by (intro that [of h lhs pl]) (simp_all add: prepared_def)
      qed
      obtain h2 where h2: "bm2_merge h1 p1 pr = Some h2" "winv h2 (lhs1 # others)"
        "\<forall>c \<in> set others. acc h2 c = acc h c"
        "\<forall>t a. acc h2 lhs1 t a \<longleftrightarrow> acc h lhs t a \<or> drop_bit 14 a = k \<and> acc h rhs t a"
        by (rule prepared_merge [OF e(2) r(1) k])
      have "bm_merge2_loop h lhs ((k, pr) # rs) = bm_merge2_loop h2 lhs1 rs"
        using rb Some False l(1) e(1) h2(1) by (cases "refcnt l > 1") simp_all
      then show thesis using h2(2-4) by (intro that [of h2 lhs1]) (simp_all add: merged_def)
    qed
  qed
qed

lemma bm_merge2_loop_spec:
  assumes "winv h (lhs # others)" "rhs \<in> set others" "set rs \<subseteq> set (oset rhs)"
  shows "\<exists>h' lhs'. bm_merge2_loop h lhs rs = Some (h', lhs')
    \<and> merged h lhs others rhs (fst ` set rs) h' lhs'"
  using assms(1,3)
proof (induction rs arbitrary: h lhs)
  case Nil
  then show ?case by (simp add: merged_def)
next
  case (Cons n rs)
  obtain k pr where n: "n = (k, pr)" by (cases n)
  have kin: "(k, pr) \<in> set (oset rhs)" using Cons.prems(2) n by simp
  obtain h1 lhs1 where 1: "bm_merge2_loop h lhs ((k, pr) # rs) = bm_merge2_loop h1 lhs1 rs"
    "merged h lhs others rhs {k} h1 lhs1"
    by (rule merge_node [OF Cons.prems(1) assms(2) kin])
  have "winv h1 (lhs1 # others)" "set rs \<subseteq> set (oset rhs)"
    using 1(2) Cons.prems(2) by (simp_all add: merged_def)
  from Cons.IH [OF this] obtain h' lhs' where 2: "bm_merge2_loop h1 lhs1 rs = Some (h', lhs')"
    "merged h1 lhs1 others rhs (fst ` set rs) h' lhs'" by blast
  have "merged h lhs others rhs (fst ` set (n # rs)) h' lhs'"
    using merged_trans [OF 1(2) 2(2) assms(2)] n by simp
  with 1(1) 2(1) n show ?case by auto
qed

lemma bm_merge2_spec:
  assumes w: "winv h (lhs # others)" and r: "rhs \<in> set others"
  shows "\<exists>h' lhs'. bm_merge2 h lhs rhs = Some (h', lhs') \<and> winv h' (lhs' # others)
    \<and> (\<forall>c \<in> set others. acc h' c = acc h c)
    \<and> (\<forall>t a. acc h' lhs' t a \<longleftrightarrow> acc h lhs t a \<or> acc h rhs t a)"
proof -
  have in_keys: "drop_bit 14 a \<in> fst ` set (oset rhs)" if "acc h rhs t a" for t a
    using that by (auto simp: acc_def split: option.splits dest!: map_of_SomeD intro: rev_image_eqI)
  obtain h' lhs' where "bm_merge2_loop h lhs (oset rhs) = Some (h', lhs')"
    "merged h lhs others rhs (fst ` set (oset rhs)) h' lhs'"
    using bm_merge2_loop_spec [OF w r subset_refl] by blast
  then show ?thesis unfolding bm_merge2_def merged_def using in_keys by blast
qed

subsection \<open>Deletion\<close>

lemma winv_drop_empty:
  assumes "winv h (bm # others)" "oset bm = []"
  shows "winv h others"
proof -
  have "refs (bm # others) = refs others" using assms(2) by (simp add: fun_eq_iff refs_Cons)
  then show ?thesis using assms(1) by (simp add: winv_def)
qed

lemma bm_cache_ok_new: "bm_cache_ok (bm_new\<lparr>oset := os\<rparr>)"
proof -
  have "bm_cache_lookup (replicate n \<lparr>ca1 = NOT 1, cbm2 = None\<rparr>) k = None" if "is_page k" for k n
  proof -
    have "k \<noteq> NOT 1" using that by auto
    then show ?thesis by (induction n) simp_all
  qed
  then show ?thesis by (auto simp: bm_cache_ok_def bm_new_def)
qed

lemma bm_delete_loop_spec:
  assumes "winv h (bm_new\<lparr>oset := os\<rparr> # others)"
  shows "\<exists>h'. bm_delete_loop h os = Some h' \<and> winv h' others \<and> (\<forall>c \<in> set others. acc h' c = acc h c)"
  using assms
proof (induction os arbitrary: h)
  case Nil
  then show ?case using winv_drop_empty [of h "bm_new\<lparr>oset := []\<rparr>" others] by simp
next
  case (Cons n os)
  obtain k p where n: "n = (k, p)" by (cases n)
  let ?bm = "bm_new\<lparr>oset := n # os\<rparr>" and ?bm' = "bm_new\<lparr>oset := os\<rparr>"
  note w = Cons.prems
  have lk: "OSetGen_Lookup (oset ?bm) k = Some p" by (simp add: n)
  obtain b where b: "bm2s h p = Some b" "addr b = k" "bm1_ok (bm1 b)" "refcnt b = refs (?bm # others) k p"
    "refcnt b > 0" "p < next_bm2 h"
    by (rule winv_lookup [OF w _ lk]) simp_all
  let ?b = "b\<lparr>refcnt := refcnt b - 1\<rparr>"
  let ?h = "h\<lparr>bm2s := (bm2s h)(p := (if refcnt ?b = 0 then None else Some ?b))\<rparr>"
  have okbm: "bm_ok h ?bm" using w by (simp add: winv_def)
  have srt: "keys_sorted os" "k \<notin> fst ` set os" using okbm n by (force simp: bm_ok_def)+
  have lk': "OSetGen_Lookup os k = None" using srt(2) by (simp add: map_of_eq_None_iff)
  have pk: "k' = k" if "bm_ok h c" "OSetGen_Lookup (oset c) k' = Some p" for c k'
    using that b(1,2) unfolding bm_ok_def by fastforce
  have sub: "OSetGen_Lookup os k' = Some q \<Longrightarrow> OSetGen_Lookup (n # os) k' = Some q" for k' q
    using lk' n by auto
  have pos: "OSetGen_Lookup os k' \<noteq> Some p" for k'
    using pk [OF okbm] sub [of k' p] lk' by (metis bitmap.select_convs(2) bitmap.update_convs(2) bitmap.surjective option.distinct(1))
  have rp: "refs (?bm' # others) k p = refcnt b - 1" using b(4) n lk' by (simp add: refs_Cons)
  have rq: "refs (?bm' # others) k' q = refs (?bm # others) k' q" if "q \<noteq> p" for k' q
    using that n lk' by (auto simp: refs_Cons)
  have live: "refcnt ?b \<noteq> 0" if "c \<in> set others" "OSetGen_Lookup (oset c) k' = Some p" for c k'
  proof -
    have "OSetGen_Lookup (oset c) k = Some p" using pk [OF winv_others [OF w that(1)] that(2)] that(2) by simp
    then have "refs others k p \<noteq> 0" using that(1) by (auto simp: refs_0_iff)
    then show ?thesis using rp lk' by (simp add: refs_Cons)
  qed
  have oko: "bm_ok ?h c" if "c \<in> set others" for c
    using winv_others [OF w that] by (rule bm_ok_heap) (use live [OF that] b(1) in auto)
  have acco: "acc ?h c = acc h c" if "c \<in> set others" for c
    using winv_others [OF w that] by (rule acc_heap) (use live [OF that] b(1) in auto)
  have ok1: "bm_ok ?h ?bm'"
  proof -
    have "is_page k' \<and> (\<exists>b. bm2s ?h q = Some b \<and> addr b = k')" if "OSetGen_Lookup os k' = Some q" for k' q
      using okbm sub [OF that] that pos unfolding bm_ok_def by (cases "q = p") auto
    then show ?thesis using srt(1) bm_cache_ok_new [of os] by (simp add: bm_ok_def)
  qed
  have "winv ?h (?bm' # others)"
  proof (rule winvI [OF ok1 oko])
    fix q c assume q: "bm2s ?h q = Some c"
    show "q < next_bm2 ?h \<and> bm1_ok (bm1 c) \<and> refcnt c = refs (?bm' # others) (addr c) q
        \<and> refs (?bm' # others) (addr c) q > 0"
    proof (cases "q = p")
      case True
      then have "c = ?b" "refcnt ?b \<noteq> 0" using q by (auto split: if_splits)
      with True show ?thesis using b rp by simp
    next
      case False
      then have "bm2s h q = Some c" using q by simp
      then show ?thesis using w rq [OF False] by (simp add: winv_def)
    qed
  qed
  from Cons.IH [OF this] obtain h' where "bm_delete_loop ?h os = Some h'" "winv h' others"
    "\<forall>c \<in> set others. acc h' c = acc ?h c" by blast
  then show ?case using b n acco by simp
qed

lemma bm_delete_spec:
  assumes w: "winv h (bm # others)"
  shows "\<exists>h'. bm_delete h bm = Some h' \<and> winv h' others \<and> (\<forall>c \<in> set others. acc h' c = acc h c)"
proof -
  have "winv h (bm_new\<lparr>oset := oset bm\<rparr> # others)"
    by (rule winv_cache [OF w _ bm_cache_ok_new]) simp
  from bm_delete_loop_spec [OF this] show ?thesis by (simp add: bm_delete_def)
qed

subsection \<open>The first bitmaps\<close>

lemma bm_ok_new: "bm_ok h bm_new"
  using bm_cache_ok_new [of "[]"] by (simp add: bm_ok_def bm_new_def)

lemma acc_new: "\<not> acc h bm_new t a"
  by (simp add: acc_def bm_new_def)

lemma winv_new:
  assumes "winv h others"
  shows "winv h (bm_new # others)"
proof -
  have "refs (bm_new # others) = refs others" by (simp add: fun_eq_iff refs_Cons bm_new_def)
  then show ?thesis using assms bm_ok_new by (simp add: winv_def)
qed

definition empty_heap :: bm_heap where
  "empty_heap = \<lparr>bm2s = Map.empty, next_bm2 = 0\<rparr>"

lemma winv_empty: "winv empty_heap []"
  by (simp add: winv_def empty_heap_def)

lemmas winv_two = winv_new [OF winv_new [OF winv_empty]]

subsection \<open>Near the top of the address space\<close>

lemma part_end_top:
  assumes "b < a2" "unat a2 + 16384 > 2 ^ 64"
  shows "part_end a2 b < a2"
proof -
  have m: "unat a2 < 2 ^ 64" "unat b < 2 ^ 64"
    using unsigned_less [of a2, where 'a = nat] unsigned_less [of b, where 'a = nat] by simp_all
  note p = nat_page [of "unat b"]
  let ?base = "unat b - unat b mod 16384" and ?next = "(b AND NOT ADDR0_MASK) + ADDR0_COUNT"
  have base: "?base = 16384 * (unat b div 16384)" using p(1) by linarith
  have bl: "unat b div 16384 < 2 ^ 50" using m(2) by simp
  have u: "unat ?next = (if ?base + 16384 < 2 ^ 64 then ?base + 16384 else ?base + 16384 - 2 ^ 64)"
    using m(2) by (simp add: unat_plus_if_size word_size)
  show ?thesis
  proof (cases "Suc (unat b div 16384) < 2 ^ 50")
    case True
    then have "?base + 16384 \<le> 2 ^ 64 - 16384" using base by simp
    then have "unat ?next < unat a2" using u assms(2) by simp
    then have "?next < a2" by (simp add: unat_less_iff)
    then show ?thesis by (simp add: part_end_def Let_def)
  next
    case False
    then have "?base + 16384 = 2 ^ 64" using base bl by simp
    then have "unat ?next = 0" using u by simp
    then have "?next = 0" by (simp only: unat_eq_0)
    moreover have "0 < a2" using assms(1) by (metis word_neq_0_conv not_less_zero word_not_simps(1))
    ultimately show ?thesis by (simp add: part_end_def Let_def)
  qed
qed

lemma bm_range_loop_top:
  assumes top: "unat a2 + 16384 > 2 ^ 64"
    and step: "\<And>b s s' r. b < a2 \<Longrightarrow> I s \<Longrightarrow> body b (part_end a2 b) s = Some (s', r) \<Longrightarrow> r = None \<and> I s'"
    and b: "b < a2" and s: "I s"
  shows "bm_range_loop body a2 b s = None"
proof (rule ccontr)
  assume "bm_range_loop body a2 b s \<noteq> None"
  then obtain y where y: "bm_range_loop body a2 b s = Some y" by blast
  have "body = body \<longrightarrow> a2 = a2 \<longrightarrow> I s \<longrightarrow> \<not> b < a2"
  proof (rule bm_range_loop.raw_induct [OF _ y, of "\<lambda>body' a2' b s y. body' = body \<longrightarrow> a2' = a2 \<longrightarrow> I s \<longrightarrow> \<not> b < a2"],
      intro impI notI)
    fix f body' a2' and c :: Addr and s y
    assume IH: "\<And>body' a2' c s y. f body' a2' c s = Some y \<Longrightarrow> body' = body \<longrightarrow> a2' = a2 \<longrightarrow> I s \<longrightarrow> \<not> c < a2"
      and f: "(if c < a2' then let next = (c AND NOT ADDR0_MASK) + ADDR0_COUNT;
            b_next = (if next > a2' then a2' else next)
          in body' c b_next s \<bind> (\<lambda>(s, r). case r of None \<Rightarrow> f body' a2' b_next s | Some res \<Rightarrow> Some (s, Some res))
        else Some (s, None)) = Some y"
      and eq: "body' = body" "a2' = a2" and I: "I s" and lt: "c < a2"
    let ?e = "part_end a2 c"
    have fold_end: "(if (c AND NOT ADDR0_MASK) + ADDR0_COUNT > a2 then a2 else (c AND NOT ADDR0_MASK) + ADDR0_COUNT) = ?e"
      by (simp add: part_end_def Let_def)
    from f obtain s' r where r: "body c ?e s = Some (s', r)"
      "(case r of None \<Rightarrow> f body a2 ?e s' | Some res \<Rightarrow> Some (s', Some res)) = Some y"
      unfolding eq Let_def fold_end using lt by (auto split: Option.bind_splits)
    have "r = None" "I s'" using step [OF lt I r(1)] by auto
    with r(2) have "f body a2 ?e s' = Some y" by simp
    from IH [OF this] \<open>I s'\<close> part_end_top [OF lt top] show False by simp
  qed
  with b s show False by simp
qed

lemma page_base_le:
  fixes b :: Addr
  shows "push_bit 14 (drop_bit 14 b) \<le> b"
proof -
  have "push_bit 14 (drop_bit 14 b) = b AND NOT (mask 14)" by (rule bit_eqI) (auto simp: bit_simps)
  then show ?thesis by (simp add: unat_le_iff unat_and_not_mask)
qed

lemma any_part_quiet:
  assumes w: "winv h (bm # others)" and b: "b < a2" and T: "test_of T test"
    and quiet: "\<And>a. \<not> T (\<lambda>t. acc h bm t a)"
    and r: "bm_any_part True test h a1 a2 b e bm = Some (bm', r)"
  shows "r = None \<and> queried h bm others bm'"
proof -
  obtain bm2 where q: "queried h bm others bm2"
    "(bm2_lookup bm (drop_bit 14 b) = (bm2, None)
        \<and> (\<forall>t x. drop_bit 14 x = drop_bit 14 b \<longrightarrow> \<not> acc h bm t x))
     \<or> (\<exists>p b2. bm2_lookup bm (drop_bit 14 b) = (bm2, Some p) \<and> bm2s h p = Some b2
        \<and> addr b2 = drop_bit 14 b \<and> bm1_ok (bm1 b2)
        \<and> (\<forall>t x. drop_bit 14 x = drop_bit 14 b \<longrightarrow> acc h bm t x = acc1 t (bm1 b2) (unat x mod 16384)))"
    by (rule lookup_page [OF w, of b])
  have no: "\<not> list_ex (test (bm1 b2)) (offsets lo hi)"
    if a: "\<And>t x. drop_bit 14 x = drop_bit 14 b \<Longrightarrow> acc h bm t x = acc1 t (bm1 b2) (unat x mod 16384)"
      and hi: "unat hi < 16384" for b2 lo hi
  proof -
    have "\<not> test (bm1 b2) x" if x: "x \<in> set (offsets lo hi)" for x
    proof -
      obtain y :: Addr where y: "drop_bit 14 y = drop_bit 14 b" "unat y mod 16384 = unat x"
        by (rule page_addr [OF offsets_less [OF hi x]])
      have "test (bm1 b2) x = T (\<lambda>t. acc h bm t y)" using T a [OF y(1)] y(2) by (simp add: test_of_def)
      then show ?thesis using quiet by simp
    qed
    then show ?thesis by (simp add: list_ex_iff)
  qed
  have base: "bm2_part (drop_bit 14 b) a1 a2 \<noteq> Some None"
    using page_base_le [of b] b by (auto simp: bm2_part_def Let_def split: Option.bind_splits if_splits)
  have small: "unat hi < 16384" if "bm2_part k a1 a2 = Some (Some (lo, hi))" for k lo hi
    using that by (auto simp: bm2_part_def Let_def split: Option.bind_splits if_splits)
  from q(2) show ?thesis
  proof
    assume "bm2_lookup bm (drop_bit 14 b) = (bm2, None)
        \<and> (\<forall>t x. drop_bit 14 x = drop_bit 14 b \<longrightarrow> \<not> acc h bm t x)"
    with r q(1) show ?thesis by (auto simp: bm_any_part_def)
  next
    assume "\<exists>p b2. bm2_lookup bm (drop_bit 14 b) = (bm2, Some p) \<and> bm2s h p = Some b2
        \<and> addr b2 = drop_bit 14 b \<and> bm1_ok (bm1 b2)
        \<and> (\<forall>t x. drop_bit 14 x = drop_bit 14 b \<longrightarrow> acc h bm t x = acc1 t (bm1 b2) (unat x mod 16384))"
    then obtain p b2 where p: "bm2_lookup bm (drop_bit 14 b) = (bm2, Some p)" "bm2s h p = Some b2"
      "addr b2 = drop_bit 14 b"
      "\<And>t x. drop_bit 14 x = drop_bit 14 b \<Longrightarrow> acc h bm t x = acc1 t (bm1 b2) (unat x mod 16384)" by blast
    obtain lo hi where "bm2_part (drop_bit 14 b) a1 a2 = Some (Some (lo, hi))"
      using r p(1-3) base by (cases "bm2_part (drop_bit 14 b) a1 a2") (auto simp: bm_any_part_def)
    then show ?thesis
      using r p(1-3) q(1) no [OF p(4) small] by (auto simp: bm_any_part_def)
  qed
qed

lemma bm_has_any_top:
  assumes w: "winv h (bm # others)" and a: "a1 < a2" "unat a2 + 16384 > 2 ^ 64" and T: "test_of T test"
    and quiet: "\<And>a. \<not> T (\<lambda>t. acc h bm t a)"
  shows "bm_has_any True test h bm a1 a2 = None"
proof -
  have "bm_range_loop (bm_any_part True test h a1 a2) a2 a1 bm = None"
  proof (rule bm_range_loop_top [where I = "queried h bm others", OF a(2) _ a(1)])
    show "queried h bm others bm" using w by (simp add: queried_def)
    fix b s s' r assume b: "b < a2" "queried h bm others s"
      "bm_any_part True test h a1 a2 b (part_end a2 b) s = Some (s', r)"
    have "winv h (s # others)" "acc h s = acc h bm" using b(2) queried_acc by (auto simp: queried_def)
    from any_part_quiet [OF this(1) b(1) T _ b(3)] this(2) quiet
    have "r = None \<and> queried h s others s'" by simp
    then show "r = None \<and> queried h bm others s'" using queried_trans b(2) by blast
  qed
  then show ?thesis by (simp add: bm_has_any_def)
qed

subsection \<open>The interface for the users of bitmaps\<close>

text \<open>Merging the bitmaps of a list one after the other.\<close>

fun merge_all :: "('h \<Rightarrow> 'b \<Rightarrow> 'b \<Rightarrow> ('h \<times> 'b) option) \<Rightarrow> 'h \<Rightarrow> 'b \<Rightarrow> 'b list \<Rightarrow> ('h \<times> 'b) option" where
  "merge_all merge h l [] = Some (h, l)"
| "merge_all merge h l (r # rs) = do { (h, l) \<leftarrow> merge h l r; merge_all merge h l rs }"

lemma merge_all_append:
  "merge_all merge h l (rs @ ss) = do { (h, l) \<leftarrow> merge_all merge h l rs; merge_all merge h l ss }"
proof (induction rs arbitrary: h l)
  case (Cons r rs)
  then show ?case by (cases "merge h l r") auto
qed simp

text \<open>What the users rely on: sets of accesses in a common store, that share parts; merging adds the
  accesses of one set to another and changes no other set.\<close>

locale access_sets =
  fixes inv :: "'h \<Rightarrow> 'b list \<Rightarrow> bool"
    and meaning :: "'h \<Rightarrow> 'b \<Rightarrow> 't \<Rightarrow> 'a \<Rightarrow> bool"
    and merge :: "'h \<Rightarrow> 'b \<Rightarrow> 'b \<Rightarrow> ('h \<times> 'b) option"
  assumes merge_union: "inv h (l # others) \<Longrightarrow> r \<in> set others \<Longrightarrow>
    \<exists>h' l'. merge h l r = Some (h', l') \<and> inv h' (l' # others) \<and> (\<forall>c \<in> set others. meaning h' c = meaning h c)
      \<and> (\<forall>t a. meaning h' l' t a \<longleftrightarrow> meaning h l t a \<or> meaning h r t a)"
begin

definition gathered :: "'h \<Rightarrow> 'b \<Rightarrow> 'b list \<Rightarrow> ('t \<Rightarrow> 'a \<Rightarrow> bool) \<Rightarrow> 'h \<Rightarrow> 'b \<Rightarrow> bool" where
  "gathered h l others A h' l' \<longleftrightarrow> inv h' (l' # others) \<and> (\<forall>c \<in> set others. meaning h' c = meaning h c)
     \<and> (\<forall>t a. meaning h' l' t a \<longleftrightarrow> meaning h l t a \<or> A t a)"

lemma merge_all_union:
  assumes "inv h (l # others)" "set rs \<subseteq> set others"
  shows "\<exists>h' l'. merge_all merge h l rs = Some (h', l') \<and> gathered h l others (\<lambda>t a. \<exists>r \<in> set rs. meaning h r t a) h' l'"
  using assms
proof (induction rs arbitrary: h l)
  case Nil
  then show ?case by (simp add: gathered_def)
next
  case (Cons r rs)
  then obtain h1 l1 where 1: "merge h l r = Some (h1, l1)" "inv h1 (l1 # others)"
    "\<forall>c \<in> set others. meaning h1 c = meaning h c"
    "\<forall>t a. meaning h1 l1 t a \<longleftrightarrow> meaning h l t a \<or> meaning h r t a"
    using merge_union [of h l others r] by auto
  obtain h' l' where 2: "merge_all merge h1 l1 rs = Some (h', l')"
    "gathered h1 l1 others (\<lambda>t a. \<exists>r \<in> set rs. meaning h1 r t a) h' l'"
    using Cons.IH [OF 1(2)] Cons.prems(2) by auto
  have "gathered h l others (\<lambda>t a. \<exists>r \<in> set (r # rs). meaning h r t a) h' l'"
    using 2(2) 1(3,4) Cons.prems(2) unfolding gathered_def by (auto simp: subset_iff)
  with 1(1) 2(1) show ?case by auto
qed

end

interpretation bms: access_sets winv acc bm_merge2
  by unfold_locales (rule bm_merge2_spec)

lemma oset_new: "oset bm_new = []"
  by (simp add: bm_new_def)

lemma empty_acc: "\<not> acc empty_heap bm_new t a"
  by (rule acc_new)

lemma no_wrap_witness: "no_wrap 0x2001" "no_wrap 0x4010"
  by (simp_all add: no_wrap_def)

subsection \<open>Properties\<close>

text \<open>C21. Recording a load or a store of 1, 2, 4 or 8 bytes at any alignment, or of a range,
  succeeds, adds exactly the bytes of the access to the bitmap and leaves every other bitmap as it
  was, also one that shares second level bitmaps with it; reference counts stay exact. The address
  has to be at least 16384 bytes below the top of the address space.\<close>

theorem bm_access_exact:
  assumes w: "winv h (bm # others)"
  shows "(unat a + 8 + 16384 < 2 ^ 64 \<longrightarrow>
      records (\<lambda>h bm. bm_access_1 t h bm a) t a 1 h bm others
    \<and> records (\<lambda>h bm. bm_access_2 t h bm a) t a 2 h bm others
    \<and> records (\<lambda>h bm. bm_access_4 t h bm a) t a 4 h bm others
    \<and> records (\<lambda>h bm. bm_access_8 t h bm a) t a 8 h bm others)
    \<and> (a1 < a2 \<and> no_wrap a2 \<longrightarrow> (\<exists>h' bm'. bm_access_range h bm a1 a2 t = Some (h', bm')
      \<and> recorded h bm others t (\<lambda>a. a1 \<le> a \<and> a < a2) h' bm'))"
proof (rule conjI; rule impI)
  show "records (\<lambda>h bm. bm_access_1 t h bm a) t a 1 h bm others
      \<and> records (\<lambda>h bm. bm_access_2 t h bm a) t a 2 h bm others
      \<and> records (\<lambda>h bm. bm_access_4 t h bm a) t a 4 h bm others
      \<and> records (\<lambda>h bm. bm_access_8 t h bm a) t a 8 h bm others"
    if "unat a + 8 + 16384 < 2 ^ 64"
    using that records_sizes [OF w] by (intro conjI) auto
  assume a: "a1 < a2 \<and> no_wrap a2"
  obtain h' bm' where "bm_access_range h bm a1 a2 t = Some (h', bm')"
    "recorded h bm others t (\<lambda>a. a1 \<le> a \<and> a < a2) h' bm'"
    by (rule bm_access_range_spec [OF w conjunct1 [OF a] conjunct2 [OF a]])
  then show "\<exists>h' bm'. bm_access_range h bm a1 a2 t = Some (h', bm')
      \<and> recorded h bm others t (\<lambda>a. a1 \<le> a \<and> a < a2) h' bm'" by blast
qed

theorem bm_access_exact_witness:
  "(\<exists>h bm. bm_access_8 eStore empty_heap bm_new 0x3FFD = Some (h, bm) \<and> acc h bm eStore 0x4004
      \<and> \<not> acc h bm eLoad 0x4004 \<and> \<not> acc h bm_new eStore 0x4004)
   \<and> (\<exists>h bm. bm_access_range empty_heap bm_new 0x1000 0x2001 eLoad = Some (h, bm)
      \<and> acc h bm eLoad 0x2000 \<and> \<not> acc h bm eLoad 0x2001)"
proof
  have "records (\<lambda>h bm. bm_access_8 eStore h bm 0x3FFD) eStore 0x3FFD 8 empty_heap bm_new [bm_new]"
    using bm_access_exact [OF winv_two, of "0x3FFD" eStore] by simp
  then show "\<exists>h bm. bm_access_8 eStore empty_heap bm_new 0x3FFD = Some (h, bm) \<and> acc h bm eStore 0x4004
      \<and> \<not> acc h bm eLoad 0x4004 \<and> \<not> acc h bm_new eStore 0x4004"
    by (auto simp: records_def recorded_def empty_acc)
  show "\<exists>h bm. bm_access_range empty_heap bm_new 0x1000 0x2001 eLoad = Some (h, bm)
      \<and> acc h bm eLoad 0x2000 \<and> \<not> acc h bm eLoad 0x2001"
    using bm_access_exact [OF winv_two, of 0 eLoad "0x1000" "0x2001"] no_wrap_witness
    by (auto simp: recorded_def empty_acc)
qed

text \<open>C22. The conflict queries of 1, 2, 4 and 8 bytes, with their fast paths for aligned
  addresses, and of a range answer exactly whether some byte was stored, or for a store also loaded,
  and change nothing but the cache.\<close>

theorem bm_conflict_exact:
  assumes w: "winv h (bm # others)"
  shows "(unat a + 8 + 16384 < 2 ^ 64 \<longrightarrow>
      detects (\<lambda>h bm. bm_load_1_has_conflict_with h bm a) eLoad a 1 h bm others
    \<and> detects (\<lambda>h bm. bm_load_2_has_conflict_with h bm a) eLoad a 2 h bm others
    \<and> detects (\<lambda>h bm. bm_load_4_has_conflict_with h bm a) eLoad a 4 h bm others
    \<and> detects (\<lambda>h bm. bm_load_8_has_conflict_with h bm a) eLoad a 8 h bm others
    \<and> detects (\<lambda>h bm. bm_store_1_has_conflict_with h bm a) eStore a 1 h bm others
    \<and> detects (\<lambda>h bm. bm_store_2_has_conflict_with h bm a) eStore a 2 h bm others
    \<and> detects (\<lambda>h bm. bm_store_4_has_conflict_with h bm a) eStore a 4 h bm others
    \<and> detects (\<lambda>h bm. bm_store_8_has_conflict_with h bm a) eStore a 8 h bm others)
    \<and> (a1 \<le> a2 \<and> no_wrap a2 \<and> (t = eLoad \<or> t = eStore) \<longrightarrow> (\<exists>bm'.
      bm_has_conflict_with t h bm a1 a2 = Some (bm', \<exists>a. a1 \<le> a \<and> a < a2 \<and> conflict h bm t a)
      \<and> queried h bm others bm'))"
proof (rule conjI; rule impI)
  show "detects (\<lambda>h bm. bm_load_1_has_conflict_with h bm a) eLoad a 1 h bm others
    \<and> detects (\<lambda>h bm. bm_load_2_has_conflict_with h bm a) eLoad a 2 h bm others
    \<and> detects (\<lambda>h bm. bm_load_4_has_conflict_with h bm a) eLoad a 4 h bm others
    \<and> detects (\<lambda>h bm. bm_load_8_has_conflict_with h bm a) eLoad a 8 h bm others
    \<and> detects (\<lambda>h bm. bm_store_1_has_conflict_with h bm a) eStore a 1 h bm others
    \<and> detects (\<lambda>h bm. bm_store_2_has_conflict_with h bm a) eStore a 2 h bm others
    \<and> detects (\<lambda>h bm. bm_store_4_has_conflict_with h bm a) eStore a 4 h bm others
    \<and> detects (\<lambda>h bm. bm_store_8_has_conflict_with h bm a) eStore a 8 h bm others"
    if "unat a + 8 + 16384 < 2 ^ 64"
    using that detects_sizes [OF w] by (intro conjI) auto
  assume "a1 \<le> a2 \<and> no_wrap a2 \<and> (t = eLoad \<or> t = eStore)"
  then have a: "a1 \<le> a2" "no_wrap a2" "t = eLoad \<or> t = eStore" by blast+
  obtain bm' where "bm_has_conflict_with t h bm a1 a2 = Some (bm', \<exists>a. a1 \<le> a \<and> a < a2 \<and> conflict h bm t a)"
    "queried h bm others bm'" by (rule bm_has_conflict_with_spec [OF w a])
  then show "\<exists>bm'. bm_has_conflict_with t h bm a1 a2 = Some (bm', \<exists>a. a1 \<le> a \<and> a < a2 \<and> conflict h bm t a)
      \<and> queried h bm others bm'" by blast
qed

theorem bm_conflict_exact_witness:
  "(\<exists>bm. bm_store_8_has_conflict_with empty_heap bm_new 0x3FFD = Some (bm, False) \<and> oset bm = [])
   \<and> (\<exists>bm. bm_has_conflict_with eLoad empty_heap bm_new 0x1000 0x2001 = Some (bm, False))"
proof
  have "detects (\<lambda>h bm. bm_store_8_has_conflict_with h bm 0x3FFD) eStore 0x3FFD 8 empty_heap bm_new [bm_new]"
    using bm_conflict_exact [OF winv_two, of "0x3FFD"] by simp
  then show "\<exists>bm. bm_store_8_has_conflict_with empty_heap bm_new 0x3FFD = Some (bm, False) \<and> oset bm = []"
    by (auto simp: detects_def conflict_def empty_acc queried_def oset_new)
  show "\<exists>bm. bm_has_conflict_with eLoad empty_heap bm_new 0x1000 0x2001 = Some (bm, False)"
    using bm_conflict_exact [OF winv_two, of 0 "0x1000" "0x2001" eLoad] no_wrap_witness
    by (auto simp: conflict_def empty_acc)
qed

text \<open>C20. Merging adds exactly the accesses of the second bitmap to the first. A second level
  bitmap taken over by reference is copied before it is written, so no other bitmap changes; the
  counts stay exact. Deleting a bitmap gives back exactly the blocks no other bitmap refers to.\<close>

theorem bm_merge2_exact:
  assumes w: "winv h (lhs # others)"
  shows "(rhs \<in> set others \<longrightarrow> (\<exists>h' lhs'. bm_merge2 h lhs rhs = Some (h', lhs') \<and> winv h' (lhs' # others)
      \<and> (\<forall>c \<in> set others. acc h' c = acc h c)
      \<and> (\<forall>t a. acc h' lhs' t a \<longleftrightarrow> acc h lhs t a \<or> acc h rhs t a)))
    \<and> (\<exists>h'. bm_delete h lhs = Some h' \<and> winv h' others \<and> (\<forall>c \<in> set others. acc h' c = acc h c))"
  using bm_merge2_spec [OF w] bm_delete_spec [OF w] by simp

theorem bm_merge2_exact_witness:
  "(\<exists>h bm h' bm'. bm_access_1 eStore empty_heap bm_new 0x1234 = Some (h, bm)
      \<and> bm_merge2 h bm_new bm = Some (h', bm') \<and> acc h' bm' eStore 0x1234 \<and> acc h' bm eStore 0x1234
      \<and> (\<exists>h''. bm_delete h' bm' = Some h'' \<and> acc h'' bm eStore 0x1234))"
proof -
  obtain h bm where 1: "bm_access_1 eStore empty_heap bm_new 0x1234 = Some (h, bm)"
    "recorded empty_heap bm_new [] eStore (\<lambda>x. unat (0x1234 :: Addr) \<le> unat x \<and> unat x < unat (0x1234 :: Addr) + 1) h bm"
    using records_sizes(1) [OF winv_new [OF winv_empty], of "0x1234" 1 eStore] by (auto simp: records_def)
  have w: "winv h [bm]" "acc h bm eStore 0x1234" using 1(2) by (auto simp: recorded_def)
  obtain h' bm' where 2: "bm_merge2 h bm_new bm = Some (h', bm')" "winv h' [bm', bm]" "acc h' bm = acc h bm"
    "\<forall>t a. acc h' bm' t a \<longleftrightarrow> acc h bm_new t a \<or> acc h bm t a"
    using bm_merge2_exact [OF winv_new [OF w(1)], of bm] by auto
  obtain h'' where "bm_delete h' bm' = Some h''" "acc h'' bm = acc h' bm"
    using bm_merge2_exact [OF 2(2), of bm] by auto
  with 1(1) 2 w(2) show ?thesis by auto
qed

text \<open>C23. Clearing removes the accesses of both kinds from the given range, and also those of the up
  to 63 bytes before it that share a word of the arrays with its start: the complement of the mask is
  taken before it is shifted. Clearing one kind of access removes exactly that kind from exactly the
  range. No other bitmap changes.\<close>

theorem bm_clear_exact:
  assumes w: "winv h (bm # others)"
  shows "(a1 \<noteq> 0 \<and> a1 \<le> a2 \<and> no_wrap a2 \<longrightarrow> (\<exists>h' bm'. bm_clear h bm a1 a2 = Some (h', bm')
      \<and> erased h bm others (\<lambda>t a. a1 < a2 \<and> UWORD_MSB a1 \<le> a \<and> a < a2) h' bm'))
    \<and> (a1 \<le> a2 \<longrightarrow> (\<exists>h' bm'. bm_clear_load h bm a1 a2 = Some (h', bm')
        \<and> erased h bm others (\<lambda>t a. t = eLoad \<and> a1 \<le> a \<and> a < a2) h' bm')
      \<and> (\<exists>h' bm'. bm_clear_store h bm a1 a2 = Some (h', bm')
        \<and> erased h bm others (\<lambda>t a. t \<noteq> eLoad \<and> a1 \<le> a \<and> a < a2) h' bm'))"
proof (rule conjI; rule impI)
  show "\<exists>h' bm'. bm_clear h bm a1 a2 = Some (h', bm')
      \<and> erased h bm others (\<lambda>t a. a1 < a2 \<and> UWORD_MSB a1 \<le> a \<and> a < a2) h' bm'"
    if "a1 \<noteq> 0 \<and> a1 \<le> a2 \<and> no_wrap a2"
  proof -
    have a: "a1 \<noteq> 0" "a1 \<le> a2" "no_wrap a2" using that by blast+
    obtain h' bm' where "bm_clear h bm a1 a2 = Some (h', bm')"
      "erased h bm others (\<lambda>t a. a1 < a2 \<and> UWORD_MSB a1 \<le> a \<and> a < a2) h' bm'"
      by (rule bm_clear_spec [OF w a])
    then show ?thesis by blast
  qed
  assume a: "a1 \<le> a2"
  show "(\<exists>h' bm'. bm_clear_load h bm a1 a2 = Some (h', bm')
        \<and> erased h bm others (\<lambda>t a. t = eLoad \<and> a1 \<le> a \<and> a < a2) h' bm')
      \<and> (\<exists>h' bm'. bm_clear_store h bm a1 a2 = Some (h', bm')
        \<and> erased h bm others (\<lambda>t a. t \<noteq> eLoad \<and> a1 \<le> a \<and> a < a2) h' bm')"
    using bm_clear_access_spec [OF w a, of eLoad] bm_clear_access_spec [OF w a, of eStore]
    by (simp add: bm_clear_load_def bm_clear_store_def)
qed

theorem bm_clear_exact_witness:
  "(\<exists>h bm h' bm'. bm_access_1 eStore empty_heap bm_new 0x1000 = Some (h, bm) \<and> acc h bm eStore 0x1000
      \<and> bm_clear h bm 0x103F 0x1040 = Some (h', bm') \<and> \<not> acc h' bm' eStore 0x1000)
   \<and> (\<exists>h bm. bm_clear_load empty_heap bm_new 0x1000 0x2000 = Some (h, bm))"
proof
  obtain h bm where 1: "bm_access_1 eStore empty_heap bm_new 0x1000 = Some (h, bm)"
    "recorded empty_heap bm_new [] eStore (\<lambda>x. unat (0x1000 :: Addr) \<le> unat x \<and> unat x < unat (0x1000 :: Addr) + 1) h bm"
    using records_sizes(1) [OF winv_new [OF winv_empty], of "0x1000" 1 eStore] by (auto simp: records_def)
  have w: "winv h [bm]" "acc h bm eStore 0x1000" using 1(2) by (auto simp: recorded_def)
  have "UWORD_MSB 0x103F = 0x1000" by (simp add: UWORD_MSB_def BITS_PER_UWORD_def)
  then have "\<exists>h' bm'. bm_clear h bm 0x103F 0x1040 = Some (h', bm') \<and> \<not> acc h' bm' eStore 0x1000"
    using bm_clear_exact [OF w(1), of "0x103F" "0x1040"] by (auto simp: erased_def no_wrap_def)
  with 1(1) w(2) show "\<exists>h bm h' bm'. bm_access_1 eStore empty_heap bm_new 0x1000 = Some (h, bm)
      \<and> acc h bm eStore 0x1000 \<and> bm_clear h bm 0x103F 0x1040 = Some (h', bm') \<and> \<not> acc h' bm' eStore 0x1000"
    by blast
  show "\<exists>h bm. bm_clear_load empty_heap bm_new 0x1000 0x2000 = Some (h, bm)"
    using bm_clear_exact [OF winv_two, of "0x1000" "0x2000"] by auto
qed

end
