(* ===== verification/DRD_Race_Correct.thy ===== *)
theory DRD_Race_Correct
  imports DRD_Thread DRD_VC_Correct DRD_Bitmap_Correct "HOL-Library.Multiset"
begin

text \<open>
  Race detection. The invariant \<open>drd_inv\<close> covers the segments of all threads and all bitmaps; the
  meaning of a state are the accesses of its segments, \<open>sacc\<close>, of the conflict set, \<open>csacc\<close>, and the
  suppressed addresses, \<open>supp\<close>. The conflict set is shown to be the union of the unordered accesses,
  and the reports of the access handlers to be exact. Uses the interfaces \<open>joined_clocks\<close> and
  \<open>access_sets\<close>.
\<close>

subsection \<open>All bitmaps of the state\<close>

definition live_bms :: "drd_state \<Rightarrow> bitmap list" where
  "live_bms s = List.map_filter (map_option sg_bm) (sgs s)"

definition cs_bms :: "drd_state \<Rightarrow> bitmap list" where
  "cs_bms s = (case s_conflict_set s of None \<Rightarrow> [] | Some cs \<Rightarrow> [cs])"

definition all_bms :: "drd_state \<Rightarrow> bitmap list" where
  "all_bms s = s_suppressed s # cs_bms s @ live_bms s"

lemma winv_perm: "mset bms = mset bms' \<Longrightarrow> winv h bms = winv h bms'"
proof -
  assume eq: "mset bms = mset bms'"
  then have "set bms = set bms'" by (metis set_mset_mset)
  moreover have "refs bms = refs bms'"
    unfolding refs_def fun_eq_iff by (metis eq mset_filter size_mset)
  ultimately show ?thesis by (simp add: winv_def)
qed

lemma map_filter_append: "List.map_filter f (xs @ ys) = List.map_filter f xs @ List.map_filter f ys"
  by (simp add: List.map_filter_def)

lemma map_filter_Cons: "List.map_filter f (x # xs) = (case f x of None \<Rightarrow> [] | Some y \<Rightarrow> [y]) @ List.map_filter f xs"
  by (simp add: List.map_filter_def split: option.splits)

lemma in_map_filter: "Some sq \<in> set xs \<Longrightarrow> sg_bm sq \<in> set (List.map_filter (map_option sg_bm) xs)"
  by (induction xs) (auto simp: map_filter_Cons split: option.splits)

lemma sg_deref_Some: "sg_deref s p = Some sg \<longleftrightarrow> p < length (sgs s) \<and> sgs s ! p = Some sg"
  by (simp add: sg_deref_def)

lemma sg_deref_store [simp]:
  "sg_deref (sg_store p v s) q = (if q = p \<and> p < length (sgs s) then v else sg_deref s q)"
  by (auto simp: sg_deref_def sg_store_def nth_list_update)

lemma sg_deref_simps [simp]:
  "sg_deref (s\<lparr>bheap := h\<rparr>) = sg_deref s" "sg_deref (s\<lparr>s_conflict_set := c\<rparr>) = sg_deref s"
  "sg_deref (s\<lparr>s_suppressed := b\<rparr>) = sg_deref s" "sg_deref (s\<lparr>races := r\<rparr>) = sg_deref s"
  "sg_deref (s\<lparr>g_any_address_traced := x\<rparr>) = sg_deref s"
  "sg_deref (s\<lparr>s_vg_running_tid := y\<rparr>) = sg_deref s" "sg_deref (s\<lparr>s_drd_running_tid := z\<rparr>) = sg_deref s"
  "sg_deref (ti_update i f s) = sg_deref s"
  by (simp_all add: sg_deref_def ti_update_def fun_eq_iff)

lemma live_bms_simps [simp]:
  "live_bms (s\<lparr>bheap := h\<rparr>) = live_bms s" "live_bms (s\<lparr>s_conflict_set := c\<rparr>) = live_bms s"
  "live_bms (s\<lparr>s_suppressed := b\<rparr>) = live_bms s" "live_bms (s\<lparr>races := r\<rparr>) = live_bms s"
  "live_bms (s\<lparr>g_any_address_traced := x\<rparr>) = live_bms s"
  "live_bms (s\<lparr>s_vg_running_tid := y\<rparr>) = live_bms s" "live_bms (s\<lparr>s_drd_running_tid := z\<rparr>) = live_bms s"
  "live_bms (ti_update i f s) = live_bms s"
  by (simp_all add: live_bms_def ti_update_def)

lemma store_simps [simp]:
  "bheap (sg_store p v s) = bheap s" "s_conflict_set (sg_store p v s) = s_conflict_set s"
  "s_suppressed (sg_store p v s) = s_suppressed s" "s_threadinfo (sg_store p v s) = s_threadinfo s"
  "s_drd_running_tid (sg_store p v s) = s_drd_running_tid s" "races (sg_store p v s) = races s"
  "g_any_address_traced (sg_store p v s) = g_any_address_traced s"
  "s_segment_merging (sg_store p v s) = s_segment_merging s"
  "s_vg_running_tid (sg_store p v s) = s_vg_running_tid s"
  "s_drd_check_stack_accesses (sg_store p v s) = s_drd_check_stack_accesses s"
  by (simp_all add: sg_store_def)

lemma live_bms_split:
  assumes "sg_deref s p = Some sg"
  obtains xs ys where "live_bms s = xs @ sg_bm sg # ys"
    "\<And>v h. live_bms (sg_store p v (s\<lparr>bheap := h\<rparr>)) = xs @ (case v of None \<Rightarrow> [] | Some g \<Rightarrow> [sg_bm g]) @ ys"
    "\<And>q sq. q \<noteq> p \<Longrightarrow> sg_deref s q = Some sq \<Longrightarrow> sg_bm sq \<in> set (xs @ ys)"
proof -
  let ?f = "map_option sg_bm"
  have p: "p < length (sgs s)" "sgs s ! p = Some sg" using assms by (simp_all add: sg_deref_Some)
  have sp: "sgs s = take p (sgs s) @ Some sg # drop (Suc p) (sgs s)" using p id_take_nth_drop by metis
  show thesis
  proof (rule that [of "List.map_filter ?f (take p (sgs s))" "List.map_filter ?f (drop (Suc p) (sgs s))"])
    show "live_bms s = List.map_filter ?f (take p (sgs s)) @ sg_bm sg # List.map_filter ?f (drop (Suc p) (sgs s))"
      unfolding live_bms_def by (subst sp) (simp add: map_filter_append map_filter_Cons)
    fix v h
    have "(sgs s)[p := v] = take p (sgs s) @ v # drop (Suc p) (sgs s)" using p(1) by (rule upd_conv_take_nth_drop)
    then show "live_bms (sg_store p v (s\<lparr>bheap := h\<rparr>)) = List.map_filter ?f (take p (sgs s))
        @ (case v of None \<Rightarrow> [] | Some g \<Rightarrow> [sg_bm g]) @ List.map_filter ?f (drop (Suc p) (sgs s))"
      by (simp add: live_bms_def sg_store_def map_filter_append map_filter_Cons split: option.splits)
  next
    fix q sq assume "q \<noteq> p" "sg_deref s q = Some sq"
    then have q: "q < length (sgs s)" "sgs s ! q = Some sq" "q \<noteq> p" by (simp_all add: sg_deref_Some)
    have "Some sq \<in> set (take p (sgs s)) \<union> set (drop (Suc p) (sgs s))"
    proof (cases "q < p")
      case True
      then have "Some sq = take p (sgs s) ! q" "q < length (take p (sgs s))" using q p by simp_all
      then show ?thesis by (metis UnI1 nth_mem)
    next
      case False
      then have "Some sq = drop (Suc p) (sgs s) ! (q - Suc p)" "q - Suc p < length (drop (Suc p) (sgs s))"
        using q by auto
      then show ?thesis by (metis UnI2 nth_mem)
    qed
    then show "sg_bm sq \<in> set (List.map_filter ?f (take p (sgs s)) @ List.map_filter ?f (drop (Suc p) (sgs s)))"
      using in_map_filter [of sq] by auto
  qed
qed

subsection \<open>The invariant\<close>

definition listed :: "drd_state \<Rightarrow> sgptr list" where
  "listed s = concat (map segments (s_threadinfo s))"

definition drd_inv :: "drd_state \<Rightarrow> bool" where
  "drd_inv s \<longleftrightarrow> length (s_threadinfo s) = DRD_N_THREADS \<and> segments (tinfo s 0) = []
     \<and> unat (s_drd_running_tid s) < DRD_N_THREADS \<and> winv (bheap s) (all_bms s)
     \<and> (\<forall>p sg. sg_deref s p = Some sg \<longrightarrow> vc_inv (sg_vc sg) \<and> sg_refcnt sg \<ge> 1)
     \<and> distinct (listed s) \<and> (\<forall>p \<in> set (listed s). sg_deref s p \<noteq> None)"

lemma drd_invD:
  assumes "drd_inv s"
  shows "length (s_threadinfo s) = DRD_N_THREADS" "segments (tinfo s 0) = []" "winv (bheap s) (all_bms s)"
    "sg_deref s p = Some sg \<Longrightarrow> vc_inv (sg_vc sg) \<and> sg_refcnt sg \<ge> 1"
    "distinct (listed s)" "q \<in> set (listed s) \<Longrightarrow> sg_deref s q \<noteq> None"
    "unat (s_drd_running_tid s) < DRD_N_THREADS"
  using assms unfolding drd_inv_def by blast+

lemma segments_listed:
  assumes "i < length (s_threadinfo s)" "p \<in> set (segments (tinfo s i))"
  shows "p \<in> set (listed s)"
  using assms by (auto simp: listed_def)

lemma listed_deref:
  assumes "drd_inv s" "i < DRD_N_THREADS" "p \<in> set (segments (tinfo s i))"
  obtains sg where "sg_deref s p = Some sg" "vc_inv (sg_vc sg)" "sg_refcnt sg \<ge> 1"
  using segments_listed [of i s p] assms drd_invD(1,6) [OF assms(1)] drd_invD(4) [OF assms(1)]
  by (metis option.exhaust)

lemma live_mem: "sg_deref s p = Some sg \<Longrightarrow> sg_bm sg \<in> set (live_bms s)"
  by (erule live_bms_split) auto

text \<open>One segment against all other bitmaps.\<close>

lemma focus_segment:
  assumes s: "drd_inv s" and p: "sg_deref s p = Some sg"
  obtains others where "winv (bheap s) (sg_bm sg # others)"
    "\<And>h sg'. winv h (sg_bm sg' # others) \<Longrightarrow> winv h (all_bms (sg_store p (Some sg') (s\<lparr>bheap := h\<rparr>)))"
    "\<And>h. winv h others \<Longrightarrow> winv h (all_bms (sg_store p None (s\<lparr>bheap := h\<rparr>)))"
    "s_suppressed s \<in> set others" "set (cs_bms s) \<subseteq> set others"
    "\<And>q sq. q \<noteq> p \<Longrightarrow> sg_deref s q = Some sq \<Longrightarrow> sg_bm sq \<in> set others"
proof -
  obtain xs ys where l: "live_bms s = xs @ sg_bm sg # ys"
    "\<And>v h. live_bms (sg_store p v (s\<lparr>bheap := h\<rparr>)) = xs @ (case v of None \<Rightarrow> [] | Some g \<Rightarrow> [sg_bm g]) @ ys"
    "\<And>q sq. q \<noteq> p \<Longrightarrow> sg_deref s q = Some sq \<Longrightarrow> sg_bm sq \<in> set (xs @ ys)"
    by (rule live_bms_split [OF p]) blast
  let ?o = "s_suppressed s # cs_bms s @ xs @ ys"
  have c: "cs_bms (sg_store p v (s\<lparr>bheap := h\<rparr>)) = cs_bms s" for v h by (simp add: cs_bms_def)
  show thesis
  proof (rule that [of ?o])
    have "mset (all_bms s) = mset (sg_bm sg # ?o)" by (simp add: all_bms_def l(1))
    from winv_perm [OF this] show "winv (bheap s) (sg_bm sg # ?o)" using drd_invD(3) [OF s] by blast
  next
    fix h and sg' :: Segment assume w: "winv h (sg_bm sg' # ?o)"
    have "mset (all_bms (sg_store p (Some sg') (s\<lparr>bheap := h\<rparr>))) = mset (sg_bm sg' # ?o)"
      by (simp add: all_bms_def l(2) c)
    from winv_perm [OF this] w show "winv h (all_bms (sg_store p (Some sg') (s\<lparr>bheap := h\<rparr>)))" by blast
  next
    fix h assume w: "winv h ?o"
    have "mset (all_bms (sg_store p None (s\<lparr>bheap := h\<rparr>))) = mset ?o" by (simp add: all_bms_def l(2) c)
    from winv_perm [OF this] w show "winv h (all_bms (sg_store p None (s\<lparr>bheap := h\<rparr>)))" by blast
  qed (use l(3) in auto)
qed

definition beside :: "drd_state \<Rightarrow> sgptr \<Rightarrow> Segment \<Rightarrow> bitmap list \<Rightarrow> bool" where
  "beside s p sg others \<longleftrightarrow> winv (bheap s) (sg_bm sg # others)
     \<and> (\<forall>h sg'. winv h (sg_bm sg' # others) \<longrightarrow> winv h (all_bms (sg_store p (Some sg') (s\<lparr>bheap := h\<rparr>))))
     \<and> (\<forall>h. winv h others \<longrightarrow> winv h (all_bms (sg_store p None (s\<lparr>bheap := h\<rparr>))))
     \<and> s_suppressed s \<in> set others \<and> set (cs_bms s) \<subseteq> set others
     \<and> (\<forall>q sq. q \<noteq> p \<longrightarrow> sg_deref s q = Some sq \<longrightarrow> sg_bm sq \<in> set others)"

lemma beside_segment:
  assumes "drd_inv s" "sg_deref s p = Some sg"
  obtains others where "beside s p sg others"
  unfolding beside_def by (rule focus_segment [OF assms]) blast

lemma besideD:
  assumes "beside s p sg others"
  shows "winv (bheap s) (sg_bm sg # others)"
    "winv h (sg_bm sg' # others) \<Longrightarrow> winv h (all_bms (sg_store p (Some sg') (s\<lparr>bheap := h\<rparr>)))"
    "winv h others \<Longrightarrow> winv h (all_bms (sg_store p None (s\<lparr>bheap := h\<rparr>)))"
    "s_suppressed s \<in> set others" "set (cs_bms s) \<subseteq> set others"
    "q \<noteq> p \<Longrightarrow> sg_deref s q = Some sq \<Longrightarrow> sg_bm sq \<in> set others"
  using assms unfolding beside_def by blast+

text \<open>Replacing a segment keeps the rest of the invariant.\<close>

lemma drd_inv_store:
  assumes s: "drd_inv s" and p: "sg_deref s p = Some sg" and g: "vc_inv (sg_vc sg')" "sg_refcnt sg' \<ge> 1"
    and w: "winv h (all_bms (sg_store p (Some sg') (s\<lparr>bheap := h\<rparr>)))"
  shows "drd_inv (sg_store p (Some sg') (s\<lparr>bheap := h\<rparr>))"
  using s p g w unfolding drd_inv_def by (auto simp: listed_def sg_deref_Some)

subsection \<open>What the bitmaps say\<close>

definition sacc :: "drd_state \<Rightarrow> sgptr \<Rightarrow> BmAccessTypeT \<Rightarrow> Addr \<Rightarrow> bool" where
  "sacc s p t a \<longleftrightarrow> (case sg_deref s p of None \<Rightarrow> False | Some sg \<Rightarrow> acc (bheap s) (sg_bm sg) t a)"

definition csacc :: "drd_state \<Rightarrow> BmAccessTypeT \<Rightarrow> Addr \<Rightarrow> bool" where
  "csacc s t a \<longleftrightarrow> (case s_conflict_set s of None \<Rightarrow> False | Some cs \<Rightarrow> acc (bheap s) cs t a)"

definition supp :: "drd_state \<Rightarrow> BmAccessTypeT \<Rightarrow> Addr \<Rightarrow> bool" where
  "supp s t a \<longleftrightarrow> acc (bheap s) (s_suppressed s) t a"

subsection \<open>The conflict set\<close>

definition hb :: "VectorClock \<Rightarrow> VectorClock \<Rightarrow> bool" where
  "hb v w \<longleftrightarrow> (\<forall>t c. clock v t = Some c \<longrightarrow> (\<exists>d. clock w t = Some d \<and> c \<le> d))"

definition concurrent :: "VectorClock \<Rightarrow> VectorClock \<Rightarrow> bool" where
  "concurrent v w \<longleftrightarrow> \<not> hb v w \<and> \<not> hb w v"

lemma vc_lte_hb: "vc_inv v \<Longrightarrow> vc_inv w \<Longrightarrow> vc_lte v w = Some (hb v w)"
  unfolding hb_def by (rule vc_lte_clock) (simp_all add: vc_inv_def)

text \<open>The segments of a list that are concurrent with a clock, and have an access.\<close>

definition concurrent_access ::
  "drd_state \<Rightarrow> bm_heap \<Rightarrow> VectorClock \<Rightarrow> sgptr list \<Rightarrow> BmAccessTypeT \<Rightarrow> Addr \<Rightarrow> bool" where
  "concurrent_access s h v qs t a \<longleftrightarrow> (\<exists>q \<in> set qs. \<exists>sq. sg_deref s q = Some sq
     \<and> concurrent (sg_vc sq) v \<and> acc h (sg_bm sq) t a)"

text \<open>The bitmaps that are merged.\<close>

definition unordered_bms :: "drd_state \<Rightarrow> VectorClock \<Rightarrow> sgptr list \<Rightarrow> bitmap list" where
  "unordered_bms s v qs = map sg_bm (filter (\<lambda>sq. concurrent (sg_vc sq) v) (map (\<lambda>q. the (sg_deref s q)) qs))"

lemma unordered_bms_access:
  assumes "\<And>q. q \<in> set qs \<Longrightarrow> \<exists>sq. sg_deref s q = Some sq"
  shows "(\<exists>b \<in> set (unordered_bms s v qs). acc h b t a) \<longleftrightarrow> concurrent_access s h v qs t a"
proof
  assume "\<exists>b \<in> set (unordered_bms s v qs). acc h b t a"
  then obtain q where "q \<in> set qs" "concurrent (sg_vc (the (sg_deref s q))) v" "acc h (sg_bm (the (sg_deref s q))) t a"
    by (auto simp: unordered_bms_def)
  then show "concurrent_access s h v qs t a" using assms by (fastforce simp: concurrent_access_def)
next
  assume "concurrent_access s h v qs t a"
  then obtain q sq where "q \<in> set qs" "sg_deref s q = Some sq" "concurrent (sg_vc sq) v" "acc h (sg_bm sq) t a"
    by (auto simp: concurrent_access_def)
  then show "\<exists>b \<in> set (unordered_bms s v qs). acc h b t a"
    by (intro bexI [of _ "sg_bm sq"]) (force simp: unordered_bms_def)+
qed

lemma concurrent_access_heap:
  assumes "\<forall>c \<in> set others. acc h' c = acc h c"
    and "\<And>q sq. q \<in> set qs \<Longrightarrow> sg_deref s q = Some sq \<Longrightarrow> sg_bm sq \<in> set others"
  shows "concurrent_access s h' v qs t a = concurrent_access s h v qs t a"
  using assms unfolding concurrent_access_def by metis

lemma merge_unordered_all:
  assumes "vc_inv v" "\<And>q. q \<in> set qs \<Longrightarrow> \<exists>sq. sg_deref s q = Some sq \<and> vc_inv (sg_vc sq)"
  shows "merge_unordered s v qs (h, cs) = merge_all bm_merge2 h cs (unordered_bms s v qs)"
  using assms(2)
proof (induction qs arbitrary: h cs)
  case (Cons q qs)
  obtain sq where sq: "sg_deref s q = Some sq" "vc_inv (sg_vc sq)" using Cons.prems [of q] by auto
  have IH: "merge_unordered s v qs (h', cs') = merge_all bm_merge2 h' cs' (unordered_bms s v qs)" for h' cs'
    using Cons.IH Cons.prems by simp
  then show ?case
    using sq assms(1) by (cases "bm_merge2 h cs (sg_bm sq)") (auto simp: vc_lte_hb concurrent_def unordered_bms_def)
qed (simp add: unordered_bms_def)

abbreviation other_thread :: "drd_state \<Rightarrow> DrdThreadId \<Rightarrow> nat \<Rightarrow> bool" where
  "other_thread s tid j \<equiv> of_nat j \<noteq> tid \<and> IsValidDrdThreadId s (of_nat j)"

definition merged_bms :: "drd_state \<Rightarrow> DrdThreadId \<Rightarrow> VectorClock \<Rightarrow> nat list \<Rightarrow> bitmap list" where
  "merged_bms s tid v js = concat (map (\<lambda>j. if other_thread s tid j
     then unordered_bms s v (rev (segments (tinfo s j))) else []) js)"

lemma merge_threads_all:
  assumes "vc_inv v" "\<And>j q. j \<in> set js \<Longrightarrow> q \<in> set (segments (tinfo s j))
      \<Longrightarrow> \<exists>sq. sg_deref s q = Some sq \<and> vc_inv (sg_vc sq)"
  shows "merge_threads s tid v js (h, cs) = merge_all bm_merge2 h cs (merged_bms s tid v js)"
  using assms(2)
proof (induction js arbitrary: h cs)
  case (Cons j js)
  have IH: "merge_threads s tid v js (h', cs') = merge_all bm_merge2 h' cs' (merged_bms s tid v js)" for h' cs'
    by (rule Cons.IH) (rule Cons.prems, simp_all)
  have m: "merge_unordered s v (rev (segments (tinfo s j))) (h, cs)
      = merge_all bm_merge2 h cs (unordered_bms s v (rev (segments (tinfo s j))))"
    by (rule merge_unordered_all [OF assms(1)]) (rule Cons.prems [of j], simp_all)
  show ?case
    by (cases "merge_all bm_merge2 h cs (unordered_bms s v (rev (segments (tinfo s j))))")
      (auto simp: merged_bms_def merge_all_append m IH [unfolded merged_bms_def])
qed (simp add: merged_bms_def)

lemma merged_bms_access:
  assumes "\<And>j q. j \<in> set js \<Longrightarrow> q \<in> set (segments (tinfo s j)) \<Longrightarrow> \<exists>sq. sg_deref s q = Some sq"
  shows "(\<exists>b \<in> set (merged_bms s tid v js). acc h b t a)
    \<longleftrightarrow> (\<exists>j \<in> set js. other_thread s tid j \<and> concurrent_access s h v (segments (tinfo s j)) t a)"
proof -
  have "(\<exists>b \<in> set (unordered_bms s v (rev (segments (tinfo s j)))). acc h b t a)
      \<longleftrightarrow> concurrent_access s h v (segments (tinfo s j)) t a" if "j \<in> set js" for j
    using unordered_bms_access [of "rev (segments (tinfo s j))" s v h t a] assms [OF that]
    by (simp add: concurrent_access_def)
  then show ?thesis by (auto simp: merged_bms_def)
qed

text \<open>An access of a segment of another thread that is concurrent with the latest segment of the
  running thread.\<close>

definition unordered_access :: "drd_state \<Rightarrow> BmAccessTypeT \<Rightarrow> Addr \<Rightarrow> bool" where
  "unordered_access s t a \<longleftrightarrow> (\<exists>p sp. thread_last s (unat (s_drd_running_tid s)) = Some p \<and> sg_deref s p = Some sp
     \<and> (\<exists>j < DRD_N_THREADS. other_thread s (s_drd_running_tid s) j
          \<and> concurrent_access s (bheap s) (sg_vc sp) (segments (tinfo s j)) t a))"

definition conflict_set_exact :: "drd_state \<Rightarrow> bool" where
  "conflict_set_exact s \<longleftrightarrow> s_conflict_set s \<noteq> None \<and> (\<forall>t a. csacc s t a \<longleftrightarrow> unordered_access s t a)"

text \<open>Nothing but the conflict set and caches has changed.\<close>

definition same_segments :: "drd_state \<Rightarrow> drd_state \<Rightarrow> bool" where
  "same_segments s s' \<longleftrightarrow> s_threadinfo s' = s_threadinfo s \<and> s_drd_running_tid s' = s_drd_running_tid s
     \<and> s_vg_running_tid s' = s_vg_running_tid s
     \<and> s_drd_check_stack_accesses s' = s_drd_check_stack_accesses s \<and> s_segment_merging s' = s_segment_merging s
     \<and> map (map_option (\<lambda>sg. (sg_refcnt sg, sg_vc sg))) (sgs s') = map (map_option (\<lambda>sg. (sg_refcnt sg, sg_vc sg))) (sgs s)"

lemma winv_without_cs:
  assumes "drd_inv s"
  obtains h where "(case s_conflict_set s of None \<Rightarrow> Some (bheap s) | Some cs \<Rightarrow> bm_delete (bheap s) cs) = Some h"
    "winv h (s_suppressed s # live_bms s)"
    "\<forall>c \<in> set (s_suppressed s # live_bms s). acc h c = acc (bheap s) c"
proof (cases "s_conflict_set s")
  case None
  then show thesis using that [of "bheap s"] drd_invD(3) [OF assms] by (simp add: all_bms_def cs_bms_def)
next
  case (Some cs)
  have "mset (all_bms s) = mset (cs # s_suppressed s # live_bms s)" by (simp add: all_bms_def cs_bms_def Some)
  from winv_perm [OF this] have "winv (bheap s) (cs # s_suppressed s # live_bms s)"
    using drd_invD(3) [OF assms] by blast
  from bm_delete_spec [OF this] Some that show thesis by auto
qed

lemma thread_last_listed:
  assumes "thread_last s i = Some p"
  shows "p \<in> set (segments (tinfo s i))" "p = last (segments (tinfo s i))" "segments (tinfo s i) \<noteq> []"
  using assms by (auto simp: thread_last_def Let_def split: if_splits)

lemma compute_conflict_set_spec:
  assumes s: "drd_inv s" and tid: "tid_ok tid" "tid = s_drd_running_tid s"
    and l: "segments (tinfo s (unat tid)) \<noteq> []"
  obtains h cs where "thread_compute_conflict_set s tid = Some (s\<lparr>bheap := h, s_conflict_set := Some cs\<rparr>)"
    "winv h (cs # s_suppressed s # live_bms s)"
    "\<forall>c \<in> set (s_suppressed s # live_bms s). acc h c = acc (bheap s) c"
    "\<forall>t a. acc h cs t a \<longleftrightarrow> unordered_access s t a"
proof -
  let ?others = "s_suppressed s # live_bms s"
  obtain h0 where h0: "(case s_conflict_set s of None \<Rightarrow> Some (bheap s) | Some cs \<Rightarrow> bm_delete (bheap s) cs) = Some h0"
    "winv h0 ?others" "\<forall>c \<in> set ?others. acc h0 c = acc (bheap s) c"
    by (rule winv_without_cs [OF s])
  obtain p where p: "thread_last s (unat tid) = Some p" using l by (simp add: thread_last_def)
  have i: "unat tid < DRD_N_THREADS" using tid(1) by (simp add: tid_ok_def)
  obtain sp where sp: "sg_deref s p = Some sp" "vc_inv (sg_vc sp)"
    by (rule listed_deref [OF s i thread_last_listed(1) [OF p]])
  have seg: "\<exists>sq. sg_deref s q = Some sq \<and> sg_bm sq \<in> set ?others \<and> vc_inv (sg_vc sq)"
    if j: "j \<in> set [0..<DRD_N_THREADS]" and q: "q \<in> set (segments (tinfo s j))" for j q
  proof -
    have "j < DRD_N_THREADS" using j by simp
    then obtain sq where "sg_deref s q = Some sq" "vc_inv (sg_vc sq)" by (rule listed_deref [OF s _ q])
    then show ?thesis using live_mem by auto
  qed
  have dr: "\<exists>sq. sg_deref s q = Some sq" "\<exists>sq. sg_deref s q = Some sq \<and> vc_inv (sg_vc sq)"
    if "j \<in> set [0..<DRD_N_THREADS]" "q \<in> set (segments (tinfo s j))" for j q using seg [OF that] by blast+
  have sub: "set (merged_bms s tid (sg_vc sp) [0..<DRD_N_THREADS]) \<subseteq> set ?others"
    using seg by (fastforce simp: merged_bms_def unordered_bms_def split: if_splits)
  obtain h cs where "merge_all bm_merge2 h0 bm_new (merged_bms s tid (sg_vc sp) [0..<DRD_N_THREADS]) = Some (h, cs)"
    and g: "bms.gathered h0 bm_new ?others (\<lambda>t a. \<exists>r \<in> set (merged_bms s tid (sg_vc sp) [0..<DRD_N_THREADS]). acc h0 r t a) h cs"
    using bms.merge_all_union [OF winv_new [OF h0(2)] sub] by blast
  then have m: "merge_threads s tid (sg_vc sp) [0..<DRD_N_THREADS] (h0, bm_new) = Some (h, cs)"
    by (subst merge_threads_all [OF sp(2)]) (rule dr(2), assumption+)
  have mb: "(\<exists>b \<in> set (merged_bms s tid (sg_vc sp) [0..<DRD_N_THREADS]). acc h0 b t a)
    \<longleftrightarrow> (\<exists>j \<in> set [0..<DRD_N_THREADS]. other_thread s tid j \<and> concurrent_access s h0 (sg_vc sp) (segments (tinfo s j)) t a)"
    for t a by (rule merged_bms_access) (rule dr(1), assumption+)
  have ca: "concurrent_access s h0 (sg_vc sp) (segments (tinfo s j)) t a
      = concurrent_access s (bheap s) (sg_vc sp) (segments (tinfo s j)) t a" if "j < DRD_N_THREADS" for j t a
  proof (rule concurrent_access_heap [OF h0(3)])
    fix q sq assume "q \<in> set (segments (tinfo s j))" "sg_deref s q = Some sq"
    then show "sg_bm sq \<in> set ?others" using seg [of j q] that by auto
  qed
  show thesis
  proof (rule that [of cs h])
    show "thread_compute_conflict_set s tid = Some (s\<lparr>bheap := h, s_conflict_set := Some cs\<rparr>)"
      using tid h0(1) p sp(1) m by (simp add: thread_compute_conflict_set_def)
    show "winv h (cs # ?others)" using g by (simp add: bms.gathered_def)
    show "\<forall>c \<in> set ?others. acc h c = acc (bheap s) c" using g h0(3) by (simp add: bms.gathered_def)
    have "acc h cs t a \<longleftrightarrow> (\<exists>j < DRD_N_THREADS. other_thread s tid j
        \<and> concurrent_access s h0 (sg_vc sp) (segments (tinfo s j)) t a)" for t a
      using g mb [of t a] by (simp add: bms.gathered_def acc_new Bex_def)
    then show "\<forall>t a. acc h cs t a \<longleftrightarrow> unordered_access s t a"
      using ca p sp(1) tid(2) unfolding unordered_access_def by (metis option.inject)
  qed
qed

lemma concurrent_access_sacc:
  "concurrent_access s (bheap s) v qs t a
    \<longleftrightarrow> (\<exists>q \<in> set qs. (\<exists>sq. sg_deref s q = Some sq \<and> concurrent (sg_vc sq) v) \<and> sacc s q t a)"
proof -
  have "(\<exists>sq. sg_deref s q = Some sq \<and> concurrent (sg_vc sq) v \<and> acc (bheap s) (sg_bm sq) t a)
      \<longleftrightarrow> (\<exists>sq. sg_deref s q = Some sq \<and> concurrent (sg_vc sq) v) \<and> sacc s q t a" for q
    by (cases "sg_deref s q") (simp_all add: sacc_def)
  then show ?thesis by (simp only: concurrent_access_def)
qed

lemma drd_inv_conflict_set:
  assumes "drd_inv s" "winv h (cs # s_suppressed s # live_bms s)"
  shows "drd_inv (s\<lparr>bheap := h, s_conflict_set := Some cs\<rparr>)"
proof -
  let ?s = "s\<lparr>bheap := h, s_conflict_set := Some cs\<rparr>"
  have "mset (all_bms ?s) = mset (cs # s_suppressed s # live_bms s)" by (simp add: all_bms_def cs_bms_def)
  from winv_perm [OF this] assms show ?thesis by (auto simp: drd_inv_def listed_def)
qed

lemma winv_conflict_set:
  assumes "drd_inv s" "s_conflict_set s = Some cs"
  shows "winv (bheap s) (cs # s_suppressed s # live_bms s)"
proof -
  have "mset (all_bms s) = mset (cs # s_suppressed s # live_bms s)" by (simp add: all_bms_def cs_bms_def assms)
  from winv_perm [OF this] drd_invD(3) [OF assms(1)] show ?thesis by blast
qed

lemma drd_inv_suppressed:
  assumes "drd_inv s" "winv h (bm # cs_bms s @ live_bms s)"
  shows "drd_inv (s\<lparr>bheap := h, s_suppressed := bm\<rparr>)"
  using assms by (auto simp: drd_inv_def all_bms_def cs_bms_def listed_def)

lemma winv_suppressed: "drd_inv s \<Longrightarrow> winv (bheap s) (s_suppressed s # cs_bms s @ live_bms s)"
  using drd_invD(3) by (simp add: all_bms_def)

lemma drd_inv_traced [simp]: "drd_inv (s\<lparr>g_any_address_traced := x\<rparr>) = drd_inv s"
  "drd_inv (s\<lparr>races := r\<rparr>) = drd_inv s"
  by (simp_all add: drd_inv_def all_bms_def cs_bms_def listed_def)

text \<open>What unordered accesses depend on.\<close>

definition same_clocks :: "drd_state \<Rightarrow> drd_state \<Rightarrow> bool" where
  "same_clocks s s' \<longleftrightarrow> s_threadinfo s' = s_threadinfo s \<and> s_drd_running_tid s' = s_drd_running_tid s
     \<and> (\<forall>p. map_option sg_vc (sg_deref s' p) = map_option sg_vc (sg_deref s p))"

lemma same_clocks_Some:
  assumes "same_clocks s s'"
  shows "(\<exists>sp. sg_deref s' p = Some sp \<and> P (sg_vc sp)) \<longleftrightarrow> (\<exists>sp. sg_deref s p = Some sp \<and> P (sg_vc sp))"
proof -
  have "map_option sg_vc (sg_deref s' p) = map_option sg_vc (sg_deref s p)"
    using assms by (simp add: same_clocks_def)
  then show ?thesis by (cases "sg_deref s p"; cases "sg_deref s' p") auto
qed

lemma thread_last_cong: "s_threadinfo s' = s_threadinfo s \<Longrightarrow> thread_last s' i = thread_last s i"
  by (simp add: thread_last_def)

lemma IsValid_cong: "s_threadinfo s' = s_threadinfo s \<Longrightarrow> IsValidDrdThreadId s' j = IsValidDrdThreadId s j"
  by (simp add: IsValidDrdThreadId_def)

lemma unordered_access_cong:
  assumes c: "same_clocks s s'"
    and a: "\<And>j q. j < DRD_N_THREADS \<Longrightarrow> other_thread s (s_drd_running_tid s) j \<Longrightarrow> q \<in> set (segments (tinfo s j))
      \<Longrightarrow> sacc s' q t a = sacc s q t a"
  shows "unordered_access s' t a = unordered_access s t a"
proof -
  have ti: "s_threadinfo s' = s_threadinfo s" "s_drd_running_tid s' = s_drd_running_tid s"
    using c by (simp_all add: same_clocks_def)
  have ca: "concurrent_access s' (bheap s') v (segments (tinfo s j)) t a
      = concurrent_access s (bheap s) v (segments (tinfo s j)) t a"
    if "j < DRD_N_THREADS" "other_thread s (s_drd_running_tid s) j" for j v
    unfolding concurrent_access_sacc same_clocks_Some [OF c, where P = "\<lambda>w. concurrent w v"]
    using a [OF that] by simp
  have "(\<exists>j < DRD_N_THREADS. other_thread s (s_drd_running_tid s) j
        \<and> concurrent_access s' (bheap s') v (segments (tinfo s j)) t a)
      = (\<exists>j < DRD_N_THREADS. other_thread s (s_drd_running_tid s) j
        \<and> concurrent_access s (bheap s) v (segments (tinfo s j)) t a)" for v
    using ca by blast
  then show ?thesis
    unfolding unordered_access_def ti thread_last_cong [OF ti(1)] IsValid_cong [OF ti(1)]
    using same_clocks_Some [OF c, where P = "\<lambda>v. \<exists>j < DRD_N_THREADS. other_thread s (s_drd_running_tid s) j
        \<and> concurrent_access s (bheap s) v (segments (tinfo s j)) t a"] by simp
qed

lemma sacc_heap:
  assumes "\<And>sg. sg_deref s p = Some sg \<Longrightarrow> acc h (sg_bm sg) = acc (bheap s) (sg_bm sg)"
  shows "sacc (s\<lparr>bheap := h\<rparr>) p = sacc s p"
  using assms by (auto simp: sacc_def fun_eq_iff split: option.splits)

text \<open>The whole effect of computing the conflict set.\<close>

lemma compute_conflict_set_effect:
  assumes s: "drd_inv s" and tid: "tid_ok tid" "tid = s_drd_running_tid s"
    and l: "segments (tinfo s (unat tid)) \<noteq> []"
  obtains s' where "thread_compute_conflict_set s tid = Some s'" "drd_inv s'" "conflict_set_exact s'"
    "same_clocks s s'" "\<forall>p. sg_deref s' p = sg_deref s p" "sacc s' = sacc s" "supp s' = supp s"
    "races s' = races s" "s_segment_merging s' = s_segment_merging s"
    "unordered_access s' = unordered_access s"
proof -
  obtain cs h where h: "thread_compute_conflict_set s tid = Some (s\<lparr>bheap := h, s_conflict_set := Some cs\<rparr>)"
    "winv h (cs # s_suppressed s # live_bms s)"
    "\<forall>c \<in> set (s_suppressed s # live_bms s). acc h c = acc (bheap s) c"
    "\<forall>t a. acc h cs t a \<longleftrightarrow> unordered_access s t a"
    by (rule compute_conflict_set_spec [OF s tid l])
  let ?s = "s\<lparr>bheap := h, s_conflict_set := Some cs\<rparr>"
  have sa: "sacc ?s = sacc s"
    using h(3) live_mem [of s] by (auto simp: sacc_def fun_eq_iff split: option.splits)
  have sc: "same_clocks s ?s" by (simp add: same_clocks_def)
  have ua: "unordered_access ?s t a = unordered_access s t a" for t a
    by (rule unordered_access_cong [OF sc]) (simp add: sa)
  show thesis
  proof (rule that [OF h(1) drd_inv_conflict_set [OF s h(2)] _ sc _ sa])
    show "conflict_set_exact ?s" using h(4) by (simp add: conflict_set_exact_def csacc_def ua)
    show "supp ?s = supp s" using h(3) by (simp add: supp_def fun_eq_iff)
    show "unordered_access ?s = unordered_access s" by (simp add: ua fun_eq_iff)
  qed simp_all
qed

subsection \<open>Recording an access and asking the conflict set\<close>

abbreviation in_range :: "Addr \<Rightarrow> nat \<Rightarrow> Addr \<Rightarrow> bool" where
  "in_range a n x \<equiv> unat a \<le> unat x \<and> unat x < unat a + n"

definition cs_conflict :: "drd_state \<Rightarrow> BmAccessTypeT \<Rightarrow> Addr \<Rightarrow> bool" where
  "cs_conflict s t x \<longleftrightarrow> csacc s eStore x \<or> t \<noteq> eLoad \<and> csacc s eLoad x"

lemma record_segment:
  assumes s: "drd_inv s" and p: "sg_deref s p = Some sg"
    and access: "\<And>others. winv (bheap s) (sg_bm sg # others) \<Longrightarrow> records access t a n (bheap s) (sg_bm sg) others"
  obtains h bm where "access (bheap s) (sg_bm sg) = Some (h, bm)"
    "drd_inv (sg_store p (Some (sg\<lparr>sg_bm := bm\<rparr>)) (s\<lparr>bheap := h\<rparr>))"
    "\<forall>c \<in> set (cs_bms s). acc h c = acc (bheap s) c" "acc h (s_suppressed s) = acc (bheap s) (s_suppressed s)"
    "\<forall>q sq. q \<noteq> p \<longrightarrow> sg_deref s q = Some sq \<longrightarrow> acc h (sg_bm sq) = acc (bheap s) (sg_bm sq)"
    "\<forall>t' x. acc h bm t' x \<longleftrightarrow> acc (bheap s) (sg_bm sg) t' x \<or> same_kind t t' \<and> in_range a n x"
proof -
  obtain others where o: "winv (bheap s) (sg_bm sg # others)"
    "\<And>h sg'. winv h (sg_bm sg' # others) \<Longrightarrow> winv h (all_bms (sg_store p (Some sg') (s\<lparr>bheap := h\<rparr>)))"
    "s_suppressed s \<in> set others" "set (cs_bms s) \<subseteq> set others"
    "\<And>q sq. q \<noteq> p \<Longrightarrow> sg_deref s q = Some sq \<Longrightarrow> sg_bm sq \<in> set others"
    by (rule focus_segment [OF s p]) blast
  obtain h bm where h: "access (bheap s) (sg_bm sg) = Some (h, bm)"
    "recorded (bheap s) (sg_bm sg) others t (in_range a n) h bm"
    using access [OF o(1)] by (auto simp: records_def)
  let ?g = "sg\<lparr>sg_bm := bm\<rparr>"
  have w: "winv h (sg_bm ?g # others)" using h(2) by (simp add: recorded_def)
  have "vc_inv (sg_vc ?g)" "sg_refcnt ?g \<ge> 1" using drd_invD(4) [OF s p] by simp_all
  from drd_inv_store [OF s p this o(2) [OF w]] h o(3-5) show thesis
    by (intro that [of h bm]) (auto simp: recorded_def)
qed

lemma record_and_query_spec:
  assumes s: "drd_inv s" and p: "thread_last s (unat (s_drd_running_tid s)) = Some p"
    and tid: "tid_ok (s_drd_running_tid s)" and cs: "s_conflict_set s = Some cs"
    and access: "\<And>h bm others. winv h (bm # others) \<Longrightarrow> records access t a n h bm others"
    and query: "\<And>h bm others. winv h (bm # others) \<Longrightarrow> detects query t a n h bm others"
  obtains s' where "record_and_query access query s = Some (s', \<exists>x. in_range a n x \<and> cs_conflict s t x)"
    "drd_inv s'" "same_clocks s s'" "csacc s' = csacc s" "supp s' = supp s"
    "\<forall>q t' x. sacc s' q t' x \<longleftrightarrow> sacc s q t' x \<or> q = p \<and> same_kind t t' \<and> in_range a n x"
    "races s' = races s" "s_conflict_set s' \<noteq> None"
proof -
  have i: "unat (s_drd_running_tid s) < DRD_N_THREADS" using tid by (simp add: tid_ok_def)
  obtain sg where sg: "sg_deref s p = Some sg" by (rule listed_deref [OF s i thread_last_listed(1) [OF p]])
  obtain h bm where h: "access (bheap s) (sg_bm sg) = Some (h, bm)"
    "drd_inv (sg_store p (Some (sg\<lparr>sg_bm := bm\<rparr>)) (s\<lparr>bheap := h\<rparr>))"
    "\<forall>c \<in> set (cs_bms s). acc h c = acc (bheap s) c" "acc h (s_suppressed s) = acc (bheap s) (s_suppressed s)"
    "\<forall>q sq. q \<noteq> p \<longrightarrow> sg_deref s q = Some sq \<longrightarrow> acc h (sg_bm sq) = acc (bheap s) (sg_bm sq)"
    "\<forall>t' x. acc h bm t' x \<longleftrightarrow> acc (bheap s) (sg_bm sg) t' x \<or> same_kind t t' \<and> in_range a n x"
    by (rule record_segment [OF s sg access])
  let ?s = "sg_store p (Some (sg\<lparr>sg_bm := bm\<rparr>)) (s\<lparr>bheap := h\<rparr>)"
  have cs1: "s_conflict_set ?s = Some cs" using cs by simp
  have acs: "acc h cs = acc (bheap s) cs" using h(3) cs by (simp add: cs_bms_def)
  have cf: "conflict h cs t x \<longleftrightarrow> cs_conflict s t x" for x
    using cs acs by (simp add: conflict_def cs_conflict_def csacc_def)
  have w: "winv h (cs # s_suppressed s # live_bms ?s)" using winv_conflict_set [OF h(2) cs1] by simp
  obtain cs' where c: "query h cs = Some (cs', \<exists>x. in_range a n x \<and> conflict h cs t x)"
    "queried h cs (s_suppressed s # live_bms ?s) cs'"
    using query [OF w] unfolding detects_def conj_assoc by blast
  have qa: "acc h cs' = acc h cs" by (rule queried_acc [OF c(2)])
  let ?t = "?s\<lparr>s_conflict_set := Some cs'\<rparr>"
  have "drd_inv (?s\<lparr>bheap := h, s_conflict_set := Some cs'\<rparr>)"
    by (rule drd_inv_conflict_set [OF h(2)]) (use c(2) in \<open>simp add: queried_def\<close>)
  moreover have "?s\<lparr>bheap := h\<rparr> = ?s" by (simp add: sg_store_def)
  ultimately have di: "drd_inv ?t" by simp
  have pl: "p < length (sgs s)" using sg by (simp add: sg_deref_Some)
  show thesis
  proof (rule that [OF _ di])
    show "record_and_query access query s = Some (?t, \<exists>x. in_range a n x \<and> cs_conflict s t x)"
      using p sg h(1) cs c(1) by (simp add: record_and_query_def cf Let_def)
    show "same_clocks s ?t" using sg pl by (simp add: same_clocks_def)
    show "csacc ?t = csacc s" using cs qa acs by (simp add: csacc_def fun_eq_iff)
    show "supp ?t = supp s" using h(4) by (simp add: supp_def fun_eq_iff)
    show "\<forall>q t' x. sacc ?t q t' x \<longleftrightarrow> sacc s q t' x \<or> q = p \<and> same_kind t t' \<and> in_range a n x"
    proof (intro allI)
      fix q t' x
      show "sacc ?t q t' x \<longleftrightarrow> sacc s q t' x \<or> q = p \<and> same_kind t t' \<and> in_range a n x"
      proof (cases "q = p")
        case True
        then show ?thesis using sg pl h(6) by (simp add: sacc_def)
      next
        case False
        then show ?thesis using h(5) by (cases "sg_deref s q") (simp_all add: sacc_def)
      qed
    qed
  qed simp_all
qed

subsection \<open>Tracing loads and stores\<close>

lemma listed_disjoint:
  assumes "drd_inv s" "i < DRD_N_THREADS" "j < DRD_N_THREADS" "i \<noteq> j"
    "p \<in> set (segments (tinfo s i))" "q \<in> set (segments (tinfo s j))"
  shows "p \<noteq> q"
proof -
  let ?l = "map segments (s_threadinfo s)"
  have d: "distinct (concat ?l)" using drd_invD(5) [OF assms(1)] by (simp add: listed_def)
  have len: "i < length ?l" "j < length ?l" using assms(2,3) drd_invD(1) [OF assms(1)] by simp_all
  have "set (?l ! i) \<inter> set (?l ! j) = {}"
    using len assms(4)
  proof (induction i j rule: linorder_wlog)
    case (le i j)
    then have ij: "i < j" by simp
    have "?l = take j ?l @ ?l ! j # drop (Suc j) ?l" using le(3) by (rule id_take_nth_drop)
    then have "distinct (concat (take j ?l) @ ?l ! j @ concat (drop (Suc j) ?l))"
      using d by (metis concat.simps(2) concat_append)
    moreover have "?l ! i \<in> set (take j ?l)" using ij le by (metis in_set_conv_nth length_take min_less_iff_conj nth_take)
    ultimately show ?case by auto
  next
    case (sym i j)
    then show ?case by (simp add: Int_commute)
  qed
  with assms(5,6) len show ?thesis by auto
qed

definition traced :: "drd_state \<Rightarrow> Addr \<Rightarrow> bool" where
  "traced s a \<longleftrightarrow> running_thread_is_recording s
     \<and> (s_drd_check_stack_accesses s \<or> \<not> thread_address_on_stack s a)"

definition conflicts :: "drd_state \<Rightarrow> BmAccessTypeT \<Rightarrow> Addr \<Rightarrow> nat \<Rightarrow> bool" where
  "conflicts s t a n \<longleftrightarrow> (\<exists>x. in_range a n x \<and> cs_conflict s t x)"

definition race :: "drd_state \<Rightarrow> BmAccessTypeT \<Rightarrow> Addr \<Rightarrow> nat \<Rightarrow> bool" where
  "race s t a n \<longleftrightarrow> (\<exists>x. in_range a n x
     \<and> (unordered_access s eStore x \<or> t \<noteq> eLoad \<and> unordered_access s eLoad x))"

lemma conflicts_exact: "conflict_set_exact s \<Longrightarrow> conflicts s t a n = race s t a n"
  by (simp add: conflicts_def race_def cs_conflict_def conflict_set_exact_def)

text \<open>What tracing an access promises: it is recorded in the latest segment of the running thread, and
  reported exactly if it meets the condition \<open>hit\<close> and is not suppressed; the conflict set and the
  unordered accesses stay as they are.\<close>

definition traces :: "(BmAccessTypeT \<Rightarrow> Addr \<Rightarrow> nat \<Rightarrow> bool) \<Rightarrow> drd_state option \<Rightarrow> BmAccessTypeT \<Rightarrow> Addr \<Rightarrow> nat
    \<Rightarrow> drd_state \<Rightarrow> bool" where
  "traces hit r t a n s \<longleftrightarrow> (\<exists>s'. r = Some s' \<and> drd_inv s' \<and> same_clocks s s'
     \<and> s_conflict_set s' \<noteq> None \<and> csacc s' = csacc s \<and> unordered_access s' = unordered_access s
     \<and> supp s' = supp s
     \<and> (\<forall>q t' x. sacc s' q t' x \<longleftrightarrow> sacc s q t' x \<or> traced s a
          \<and> thread_last s (unat (s_drd_running_tid s)) = Some q \<and> same_kind t t' \<and> in_range a n x)
     \<and> races s' = races s @ (if traced s a \<and> hit t a n \<and> \<not> (\<forall>x. in_range a n x \<longrightarrow> supp s eStore x)
          then [(s_drd_running_tid s, a, of_nat n, t)] else []))"

text \<open>The running thread has a segment, and there is a conflict set.\<close>

definition running_ok :: "drd_state \<Rightarrow> bool" where
  "running_ok s \<longleftrightarrow> drd_inv s \<and> s_conflict_set s \<noteq> None \<and> tid_ok (s_drd_running_tid s)
     \<and> segments (tinfo s (unat (s_drd_running_tid s))) \<noteq> []"

lemma view_simps [simp]:
  "sacc (s\<lparr>s_suppressed := b\<rparr>) = sacc s" "sacc (s\<lparr>races := r\<rparr>) = sacc s"
  "sacc (s\<lparr>g_any_address_traced := g\<rparr>) = sacc s" "csacc (s\<lparr>races := r\<rparr>) = csacc s"
  "csacc (s\<lparr>s_suppressed := b\<rparr>) = csacc s" "csacc (s\<lparr>g_any_address_traced := g\<rparr>) = csacc s"
  "supp (s\<lparr>races := r\<rparr>) = supp s" "supp (s\<lparr>g_any_address_traced := g\<rparr>) = supp s"
  by (auto simp: fun_eq_iff sacc_def csacc_def supp_def split: option.splits)

lemma same_clocks_refl: "same_clocks s s"
  by (simp add: same_clocks_def)

lemma is_suppressed_spec:
  assumes s: "drd_inv s" and a: "unat a + n + 16384 < 2 ^ 64"
  obtains bm where "drd_is_suppressed s a (a + of_nat n)
      = Some (s\<lparr>s_suppressed := bm\<rparr>, \<forall>x. in_range a n x \<longrightarrow> supp s eStore x)"
    "drd_inv (s\<lparr>s_suppressed := bm\<rparr>)" "acc (bheap s) bm = acc (bheap s) (s_suppressed s)"
proof -
  note r = range_ok [OF a]
  have le: "a \<le> a + of_nat n" by (simp add: unat_le_iff r(1))
  obtain bm where b: "bm_has (bheap s) (s_suppressed s) a (a + of_nat n) eStore
      = Some (bm, \<forall>x. a \<le> x \<and> x < a + of_nat n \<longrightarrow> acc (bheap s) (s_suppressed s) eStore x)"
    "queried (bheap s) (s_suppressed s) (cs_bms s @ live_bms s) bm"
    using bm_has_spec [OF winv_suppressed [OF s] le] by blast
  have "drd_inv (s\<lparr>bheap := bheap s, s_suppressed := bm\<rparr>)"
    by (rule drd_inv_suppressed [OF s]) (use b(2) in \<open>simp add: queried_def\<close>)
  then show thesis
    using b(1) queried_acc [OF b(2)] by (intro that [of bm]) (simp_all add: drd_is_suppressed_def supp_def r(4))
qed

lemma drd_trace_spec:
  assumes ok: "running_ok s" and a: "unat a + n + 16384 < 2 ^ 64"
    and access: "\<And>h bm others. winv h (bm # others) \<Longrightarrow> records access t a n h bm others"
    and query: "\<And>h bm others. winv h (bm # others) \<Longrightarrow> detects query t a n h bm others"
  shows "traces (conflicts s) (drd_trace (record_and_query access query) s a (of_nat n) t) t a n s"
proof (cases "traced s a")
  case False
  then have "drd_trace (record_and_query access query) s a (of_nat n) t = Some s"
    unfolding traced_def drd_trace_def by (simp only: if_False)
  then show ?thesis using False ok same_clocks_refl by (simp add: traces_def running_ok_def)
next
  case True
  let ?tid = "s_drd_running_tid s"
  have s: "drd_inv s" "tid_ok ?tid" "segments (tinfo s (unat ?tid)) \<noteq> []"
    using ok by (simp_all add: running_ok_def)
  obtain cs where cs: "s_conflict_set s = Some cs" using ok by (auto simp: running_ok_def)
  obtain p where p: "thread_last s (unat ?tid) = Some p" using s(3) by (simp add: thread_last_def)
  obtain s1 where 1: "record_and_query access query s = Some (s1, \<exists>x. in_range a n x \<and> cs_conflict s t x)"
    "drd_inv s1" "same_clocks s s1" "csacc s1 = csacc s" "supp s1 = supp s"
    "\<forall>q t' x. sacc s1 q t' x \<longleftrightarrow> sacc s q t' x \<or> q = p \<and> same_kind t t' \<and> in_range a n x"
    "races s1 = races s" "s_conflict_set s1 \<noteq> None"
    by (rule record_and_query_spec [OF s(1) p s(2) cs access query])
  have hit: "(\<exists>x. in_range a n x \<and> cs_conflict s t x) = conflicts s t a n"
    by (simp add: conflicts_def)
  have tid1: "s_drd_running_tid s1 = ?tid" using 1(3) by (simp add: same_clocks_def)
  have ua: "unordered_access s1 t' x = unordered_access s t' x" for t' x
  proof (rule unordered_access_cong [OF 1(3)])
    fix j q assume j: "j < DRD_N_THREADS" "other_thread s ?tid j" "q \<in> set (segments (tinfo s j))"
    have "unat ?tid < DRD_N_THREADS" "unat ?tid \<noteq> j" using s(2) j(2) by (auto simp: tid_ok_def)
    from listed_disjoint [OF s(1) this(1) j(1) this(2) thread_last_listed(1) [OF p] j(3)]
    show "sacc s1 q t' x = sacc s q t' x" using 1(6) by simp
  qed
  then have ex: "unordered_access s1 = unordered_access s" by (simp add: fun_eq_iff)
  have run: "drd_trace (record_and_query access query) s a (of_nat n) t = (if conflicts s t a n then do {
         (s2, suppressed) \<leftarrow> drd_is_suppressed s1 a (a + of_nat n);
         if \<not> suppressed then drd_report_race s2 a (of_nat n) t else Some s2 } else Some s1)"
    using True 1(1) hit unfolding traced_def drd_trace_def by simp
  show ?thesis
  proof (cases "conflicts s t a n")
    case False
    then show ?thesis using run True 1 ex p by (auto simp: traces_def)
  next
    case r: True
    obtain bm where b: "drd_is_suppressed s1 a (a + of_nat n)
        = Some (s1\<lparr>s_suppressed := bm\<rparr>, \<forall>x. in_range a n x \<longrightarrow> supp s1 eStore x)"
      "drd_inv (s1\<lparr>s_suppressed := bm\<rparr>)" "acc (bheap s1) bm = acc (bheap s1) (s_suppressed s1)"
      by (rule is_suppressed_spec [OF 1(2) a])
    let ?u = "\<forall>x. in_range a n x \<longrightarrow> supp s eStore x"
    let ?r = "if ?u then [] else [(?tid, a, of_nat n, t)]"
    define R where "R = races s @ ?r"
    let ?s = "s1\<lparr>s_suppressed := bm, races := R\<rparr>"
    have tid0: "?tid \<noteq> 0" using s(2) by (simp add: tid_ok_def)
    have res: "drd_trace (record_and_query access query) s a (of_nat n) t = Some ?s"
      using run r b(1) tid0 1(5,7) tid1
      by (simp add: drd_report_race_def thread_get_running_tid_def vg_assert_def R_def)
    have "drd_inv ?s" using b(2) by simp
    moreover have "unordered_access ?s = unordered_access s1"
      by (intro ext unordered_access_cong) (simp_all add: same_clocks_def)
    then have "unordered_access ?s = unordered_access s" using ex by simp
    moreover have "same_clocks s ?s" using 1(3) by (simp add: same_clocks_def)
    moreover have "supp ?s = supp s" using b(3) 1(5) by (simp add: supp_def fun_eq_iff)
    moreover have "sacc ?s = sacc s1" by simp
    ultimately show ?thesis using res True r 1(4,6,8) p by (auto simp: traces_def R_def)
  qed
qed

text \<open>The unrolled functions record and query with the operations of the bitmaps.\<close>

lemma triggers_conflict_eq:
  "bm_access_1_triggers_conflict eLoad s a = record_and_query (\<lambda>h bm. bm_access_1 eLoad h bm a) (\<lambda>h bm. bm_load_1_has_conflict_with h bm a) s"
  "bm_access_2_triggers_conflict eLoad s a = record_and_query (\<lambda>h bm. bm_access_2 eLoad h bm a) (\<lambda>h bm. bm_load_2_has_conflict_with h bm a) s"
  "bm_access_4_triggers_conflict eLoad s a = record_and_query (\<lambda>h bm. bm_access_4 eLoad h bm a) (\<lambda>h bm. bm_load_4_has_conflict_with h bm a) s"
  "bm_access_8_triggers_conflict eLoad s a = record_and_query (\<lambda>h bm. bm_access_8 eLoad h bm a) (\<lambda>h bm. bm_load_8_has_conflict_with h bm a) s"
  "bm_access_1_triggers_conflict eStore s a = record_and_query (\<lambda>h bm. bm_access_1 eStore h bm a) (\<lambda>h bm. bm_store_1_has_conflict_with h bm a) s"
  "bm_access_2_triggers_conflict eStore s a = record_and_query (\<lambda>h bm. bm_access_2 eStore h bm a) (\<lambda>h bm. bm_store_2_has_conflict_with h bm a) s"
  "bm_access_4_triggers_conflict eStore s a = record_and_query (\<lambda>h bm. bm_access_4 eStore h bm a) (\<lambda>h bm. bm_store_4_has_conflict_with h bm a) s"
  "bm_access_8_triggers_conflict eStore s a = record_and_query (\<lambda>h bm. bm_access_8 eStore h bm a) (\<lambda>h bm. bm_store_8_has_conflict_with h bm a) s"
  by (simp_all add: bm_access_1_triggers_conflict_def bm_access_2_triggers_conflict_def
      bm_access_4_triggers_conflict_def bm_access_8_triggers_conflict_def bm_aligned_has_conflict_with_def
      bm_access_2_def bm_access_4_def bm_access_8_def
      bm_load_2_has_conflict_with_def bm_load_4_has_conflict_with_def bm_load_8_has_conflict_with_def
      bm_store_2_has_conflict_with_def bm_store_4_has_conflict_with_def bm_store_8_has_conflict_with_def
      )

subsection \<open>Memory that is no longer used\<close>

abbreviation wiped :: "Addr \<Rightarrow> Addr \<Rightarrow> Addr \<Rightarrow> bool" where
  "wiped a1 a2 x \<equiv> UWORD_MSB a1 \<le> x \<and> x < a2"

text \<open>Clearing the segments in \<open>P\<close>; all else stays as it is.\<close>

definition wipes :: "Addr \<Rightarrow> Addr \<Rightarrow> sgptr set \<Rightarrow> drd_state \<Rightarrow> drd_state \<Rightarrow> bool" where
  "wipes a1 a2 P s s' \<longleftrightarrow> drd_inv s' \<and> same_clocks s s' \<and> csacc s' = csacc s \<and> supp s' = supp s
     \<and> s_conflict_set s' = s_conflict_set s \<and> races s' = races s
     \<and> (\<forall>q t x. sacc s' q t x \<longleftrightarrow> sacc s q t x \<and> \<not> (q \<in> P \<and> wiped a1 a2 x))"

lemma same_clocks_trans: "same_clocks s s1 \<Longrightarrow> same_clocks s1 s2 \<Longrightarrow> same_clocks s s2"
  by (simp add: same_clocks_def)

lemma wipes_trans: "wipes a1 a2 P s s1 \<Longrightarrow> wipes a1 a2 Q s1 s2 \<Longrightarrow> wipes a1 a2 (P \<union> Q) s s2"
  unfolding wipes_def using same_clocks_trans by auto

lemma wipes_refl: "drd_inv s \<Longrightarrow> wipes a1 a2 {} s s"
  by (simp add: wipes_def same_clocks_def)

lemma bm_test_and_clear_spec:
  assumes w: "winv h (bm # others)" and a: "a1 \<noteq> 0" "a1 < a2" "no_wrap a2"
  obtains h' bm' where "bm_test_and_clear h bm a1 a2
      = Some (h', bm', \<exists>a. a1 \<le> a \<and> a < a2 \<and> (acc h bm eLoad a \<or> acc h bm eStore a))"
    "erased h bm others (\<lambda>t a. wiped a1 a2 a) h' bm'"
proof -
  have le: "a1 \<le> a2" using a(2) by simp
  obtain bm1 where 1: "bm_has_any_access h bm a1 a2
      = Some (bm1, \<exists>a. a1 \<le> a \<and> a < a2 \<and> (acc h bm eLoad a \<or> acc h bm eStore a))" "queried h bm others bm1"
    by (rule bm_has_any_access_spec [OF w le a(3)])
  have w1: "winv h (bm1 # others)" using 1(2) by (simp add: queried_def)
  obtain h' bm' where 2: "bm_clear h bm1 a1 a2 = Some (h', bm')"
    "erased h bm1 others (\<lambda>t a. a1 < a2 \<and> UWORD_MSB a1 \<le> a \<and> a < a2) h' bm'"
    by (rule bm_clear_spec [OF w1 a(1) le a(3)])
  have "erased h bm others (\<lambda>t a. wiped a1 a2 a) h' bm'"
    using 2(2) queried_acc [OF 1(2)] a(2) by (simp add: erased_def)
  with 1(1) 2(1) show thesis by (intro that [of h' bm']) (simp_all add: bm_test_and_clear_def)
qed

definition touched :: "drd_state \<Rightarrow> Addr \<Rightarrow> Addr \<Rightarrow> sgptr \<Rightarrow> bool" where
  "touched s a1 a2 q \<longleftrightarrow> (\<exists>x. a1 \<le> x \<and> x < a2 \<and> (sacc s q eLoad x \<or> sacc s q eStore x))"

lemma wipes_store:
  assumes s: "drd_inv s" and p: "sg_deref s p = Some sg"
    and o: "beside s p sg others"
    and e: "erased (bheap s) (sg_bm sg) others (\<lambda>t a. wiped a1 a2 a) h bm"
  shows "wipes a1 a2 {p} s (sg_store p (Some (sg\<lparr>sg_bm := bm\<rparr>)) (s\<lparr>bheap := h\<rparr>))"
proof -
  let ?g = "sg\<lparr>sg_bm := bm\<rparr>" and ?s = "sg_store p (Some (sg\<lparr>sg_bm := bm\<rparr>)) (s\<lparr>bheap := h\<rparr>)"
  have pl: "p < length (sgs s)" using p by (simp add: sg_deref_Some)
  have w: "winv h (sg_bm ?g # others)" and same: "\<forall>c \<in> set others. acc h c = acc (bheap s) c"
    and ac: "acc h bm t x \<longleftrightarrow> acc (bheap s) (sg_bm sg) t x \<and> \<not> wiped a1 a2 x" for t x
    using e by (simp_all add: erased_def)
  have "vc_inv (sg_vc ?g)" "sg_refcnt ?g \<ge> 1" using drd_invD(4) [OF s p] by simp_all
  moreover have "winv h (all_bms ?s)" using o w unfolding beside_def by blast
  ultimately have "drd_inv ?s" by (rule drd_inv_store [OF s p])
  moreover have "same_clocks s ?s" using p pl by (simp add: same_clocks_def)
  moreover have "csacc ?s = csacc s"
    using o same by (cases "s_conflict_set s") (simp_all add: csacc_def cs_bms_def beside_def fun_eq_iff)
  moreover have "supp ?s = supp s" using o same by (simp add: supp_def beside_def fun_eq_iff)
  moreover have "sacc ?s q t x \<longleftrightarrow> sacc s q t x \<and> \<not> (q \<in> {p} \<and> wiped a1 a2 x)" for q t x
  proof (cases "q = p")
    case True
    then show ?thesis using p pl ac by (simp add: sacc_def)
  next
    case False
    then show ?thesis using o same by (cases "sg_deref s q") (simp_all add: sacc_def beside_def)
  qed
  ultimately show ?thesis by (simp add: wipes_def)
qed

lemma stop_using_segment_spec:
  assumes s: "drd_inv s" and p: "sg_deref s p = Some sg" and a: "a1 \<noteq> 0" "a1 < a2" "no_wrap a2"
  obtains s' where "stop_using_segment a1 a2 i (s, ou) p
      = Some (s', if ou = 0 \<and> of_nat i \<noteq> s_drd_running_tid s \<and> touched s a1 a2 p then of_nat i else ou)"
    "wipes a1 a2 {p} s s'"
proof -
  obtain others where o: "beside s p sg others" by (rule beside_segment [OF s p])
  then have ow: "winv (bheap s) (sg_bm sg # others)" by (simp add: beside_def)
  note wst = wipes_store [OF s p o]
  have le: "a1 \<le> a2" using a(2) by simp
  show thesis
  proof (cases "ou = 0 \<and> of_nat i \<noteq> s_drd_running_tid s")
    case True
    obtain h bm where h: "bm_test_and_clear (bheap s) (sg_bm sg) a1 a2 = Some (h, bm,
        \<exists>x. a1 \<le> x \<and> x < a2 \<and> (acc (bheap s) (sg_bm sg) eLoad x \<or> acc (bheap s) (sg_bm sg) eStore x))"
      "erased (bheap s) (sg_bm sg) others (\<lambda>t a. wiped a1 a2 a) h bm"
      by (rule bm_test_and_clear_spec [OF ow a])
    show thesis
      using True h(1) p by (intro that [OF _ wst [OF h(2)]]) (auto simp: stop_using_segment_def touched_def sacc_def)
  next
    case False
    obtain h bm where h: "bm_clear (bheap s) (sg_bm sg) a1 a2 = Some (h, bm)"
      "erased (bheap s) (sg_bm sg) others (\<lambda>t a. a1 < a2 \<and> UWORD_MSB a1 \<le> a \<and> a < a2) h bm"
      by (rule bm_clear_spec [OF ow a(1) le a(3)])
    have e: "erased (bheap s) (sg_bm sg) others (\<lambda>t a. wiped a1 a2 a) h bm" using h(2) a(2) by (simp add: erased_def)
    show thesis
      using False h(1) p by (intro that [OF _ wst [OF e]]) (auto simp: stop_using_segment_def)
  qed
qed

lemma stop_using_segments_spec:
  assumes "drd_inv s" "\<And>p. p \<in> set ps \<Longrightarrow> sg_deref s p \<noteq> None" and a: "a1 \<noteq> 0" "a1 < a2" "no_wrap a2"
  shows "\<exists>s' ou'. stop_using_segments a1 a2 i (s, ou) ps = Some (s', ou') \<and> wipes a1 a2 (set ps) s s'
    \<and> (ou' \<noteq> 0 \<longleftrightarrow> ou \<noteq> 0 \<or> of_nat i \<noteq> s_drd_running_tid s \<and> of_nat i \<noteq> (0 :: DrdThreadId)
         \<and> (\<exists>q \<in> set ps. touched s a1 a2 q))"
  using assms(1,2)
proof (induction ps arbitrary: s ou)
  case Nil
  then show ?case using wipes_refl by simp
next
  case (Cons p ps)
  obtain sg where sg: "sg_deref s p = Some sg" using Cons.prems(2) [of p] by auto
  let ?ou = "if ou = 0 \<and> of_nat i \<noteq> s_drd_running_tid s \<and> touched s a1 a2 p then of_nat i else ou"
  obtain s1 where 1: "stop_using_segment a1 a2 i (s, ou) p = Some (s1, ?ou)" "wipes a1 a2 {p} s s1"
    by (rule stop_using_segment_spec [OF Cons.prems(1) sg a])
  have inv: "drd_inv s1" and sc: "same_clocks s s1"
    and sa: "\<And>q t x. sacc s1 q t x \<longleftrightarrow> sacc s q t x \<and> \<not> (q = p \<and> wiped a1 a2 x)"
    using 1(2) by (simp_all add: wipes_def)
  have tid: "s_drd_running_tid s1 = s_drd_running_tid s" using sc by (simp add: same_clocks_def)
  have "sg_deref s1 q \<noteq> None" if "q \<in> set ps" for q
    using Cons.prems(2) [of q] that sc unfolding same_clocks_def by (metis list.set_intros(2) map_option_is_None)
  from Cons.IH [OF inv this] obtain s' ou' where 2: "stop_using_segments a1 a2 i (s1, ?ou) ps = Some (s', ou')"
    "wipes a1 a2 (set ps) s1 s'" 
    "ou' \<noteq> 0 \<longleftrightarrow> ?ou \<noteq> 0 \<or> of_nat i \<noteq> s_drd_running_tid s1 \<and> of_nat i \<noteq> (0 :: DrdThreadId)
         \<and> (\<exists>q \<in> set ps. touched s1 a1 a2 q)"
    by blast
  have "wipes a1 a2 (set (p # ps)) s s'" using wipes_trans [OF 1(2) 2(2)] by simp
  moreover have "stop_using_segments a1 a2 i (s, ou) (p # ps) = Some (s', ou')" using 1(1) 2(1) by simp
  moreover have "touched s1 a1 a2 q \<longleftrightarrow> touched s a1 a2 q" if "q \<noteq> p" for q using that by (simp add: touched_def sa)
  then have "touched s a1 a2 p \<or> (\<exists>q \<in> set ps. touched s1 a1 a2 q) \<longleftrightarrow> (\<exists>q \<in> set (p # ps). touched s a1 a2 q)"
    by (auto simp: touched_def sa)
  then have "ou' \<noteq> 0 \<longleftrightarrow> ou \<noteq> 0 \<or> of_nat i \<noteq> s_drd_running_tid s \<and> of_nat i \<noteq> (0 :: DrdThreadId)
         \<and> (\<exists>q \<in> set (p # ps). touched s a1 a2 q)"
    unfolding 2(3) tid by auto
  ultimately show ?case by blast
qed

lemma wipes_clocks:
  assumes "wipes a1 a2 P s s'"
  shows "s_threadinfo s' = s_threadinfo s" "s_drd_running_tid s' = s_drd_running_tid s"
    "sg_deref s' p = None \<longleftrightarrow> sg_deref s p = None"
proof -
  have c: "same_clocks s s'" using assms by (simp add: wipes_def)
  then show "s_threadinfo s' = s_threadinfo s" "s_drd_running_tid s' = s_drd_running_tid s"
    by (simp_all add: same_clocks_def)
  show "sg_deref s' p = None \<longleftrightarrow> sg_deref s p = None"
    using c unfolding same_clocks_def by (metis map_option_is_None)
qed

abbreviation segments_of :: "drd_state \<Rightarrow> nat list \<Rightarrow> sgptr set" where
  "segments_of s is \<equiv> \<Union>i \<in> set is. set (segments (tinfo s i))"

definition seen_by_other :: "drd_state \<Rightarrow> Addr \<Rightarrow> Addr \<Rightarrow> nat \<Rightarrow> bool" where
  "seen_by_other s a1 a2 i \<longleftrightarrow> of_nat i \<noteq> s_drd_running_tid s \<and> of_nat i \<noteq> (0 :: DrdThreadId)
     \<and> (\<exists>q \<in> set (segments (tinfo s i)). touched s a1 a2 q)"

lemma stop_using_threads_spec:
  assumes "drd_inv s" and a: "a1 \<noteq> 0" "a1 < a2" "no_wrap a2" and "set is \<subseteq> {0..<DRD_N_THREADS}" "distinct is"
  shows "\<exists>s' ou'. stop_using_threads a1 a2 (s, ou) is = Some (s', ou') \<and> wipes a1 a2 (segments_of s is) s s'
    \<and> (ou' \<noteq> 0 \<longleftrightarrow> ou \<noteq> 0 \<or> (\<exists>i \<in> set is. seen_by_other s a1 a2 i))"
  using assms(1,5,6)
proof (induction "is" arbitrary: s ou)
  case Nil
  then show ?case using wipes_refl by simp
next
  case (Cons i js)
  have i: "i < DRD_N_THREADS" using Cons.prems(2) by simp
  have "sg_deref s p \<noteq> None" if "p \<in> set (segments (tinfo s i))" for p
    by (rule listed_deref [OF Cons.prems(1) i that]) simp
  from stop_using_segments_spec [OF Cons.prems(1) this a] obtain s1 ou1 where
    1: "stop_using_segments a1 a2 i (s, ou) (segments (tinfo s i)) = Some (s1, ou1)"
      "wipes a1 a2 (set (segments (tinfo s i))) s s1" "ou1 \<noteq> 0 \<longleftrightarrow> ou \<noteq> 0 \<or> seen_by_other s a1 a2 i"
    unfolding seen_by_other_def by blast
  note w1 = wipes_clocks [OF 1(2)]
  have inv1: "drd_inv s1" using 1(2) by (simp add: wipes_def)
  have js: "set js \<subseteq> {0..<DRD_N_THREADS}" "distinct js" using Cons.prems by simp_all
  from Cons.IH [OF inv1 js] obtain s' ou' where 2: "stop_using_threads a1 a2 (s1, ou1) js = Some (s', ou')"
    "wipes a1 a2 (segments_of s1 js) s1 s'"
    "ou' \<noteq> 0 \<longleftrightarrow> ou1 \<noteq> 0 \<or> (\<exists>i \<in> set js. seen_by_other s1 a1 a2 i)" by blast
  have seen: "seen_by_other s1 a1 a2 j \<longleftrightarrow> seen_by_other s a1 a2 j" if j: "j \<in> set js" for j
  proof -
    have ji: "j < DRD_N_THREADS" "j \<noteq> i" using j Cons.prems(2,3) by auto
    have "touched s1 a1 a2 q \<longleftrightarrow> touched s a1 a2 q" if q: "q \<in> set (segments (tinfo s j))" for q
    proof -
      have "q \<notin> set (segments (tinfo s i))" using listed_disjoint [OF Cons.prems(1) ji(1) i ji(2) q] by blast
      then show ?thesis using 1(2) by (simp add: touched_def wipes_def)
    qed
    then show ?thesis using w1 by (simp add: seen_by_other_def)
  qed
  have "wipes a1 a2 (segments_of s (i # js)) s s'" using wipes_trans [OF 1(2) 2(2)] w1(1) by simp
  moreover have "stop_using_threads a1 a2 (s, ou) (i # js) = Some (s', ou')" using 1(1) 2(1) by simp
  moreover have "ou' \<noteq> 0 \<longleftrightarrow> ou \<noteq> 0 \<or> (\<exists>j \<in> set (i # js). seen_by_other s a1 a2 j)"
    unfolding 2(3) 1(3) using seen by simp
  ultimately show ?case by blast
qed

lemma segments_of_all:
  assumes "drd_inv s"
  shows "segments_of s [0..<DRD_N_THREADS] = set (listed s)"
proof -
  have "(\<Union>i \<in> {0..<length (s_threadinfo s)}. set (segments (tinfo s i))) = set (listed s)"
    unfolding listed_def by (force simp: in_set_conv_nth)
  then show ?thesis using drd_invD(1) [OF assms] by simp
qed

lemma wipes_unordered:
  assumes w: "wipes a1 a2 (set (listed s)) s s'" and s: "drd_inv s"
  shows "unordered_access s' t x \<longleftrightarrow> unordered_access s t x \<and> \<not> wiped a1 a2 x"
proof (cases "wiped a1 a2 x")
  case True
  have ti: "s_threadinfo s' = s_threadinfo s" by (rule wipes_clocks(1) [OF w])
  have "\<not> unordered_access s' t x"
  proof
    assume "unordered_access s' t x"
    then obtain j q where j: "j < DRD_N_THREADS" "q \<in> set (segments (tinfo s j))" "sacc s' q t x"
      unfolding unordered_access_def concurrent_access_sacc ti by blast
    have "q \<in> set (listed s)" using segments_listed [OF _ j(2)] j(1) drd_invD(1) [OF s] by simp
    then show False using j(3) True w by (simp add: wipes_def)
  qed
  with True show ?thesis by simp
next
  case False
  have "unordered_access s' t x = unordered_access s t x"
    by (rule unordered_access_cong) (use w False in \<open>auto simp: wipes_def\<close>)
  with False show ?thesis by simp
qed

text \<open>The conflict set is recomputed when another thread has used the range and the conflict set
  meets it.\<close>

definition must_recompute :: "drd_state \<Rightarrow> Addr \<Rightarrow> Addr \<Rightarrow> bool" where
  "must_recompute s a1 a2 \<longleftrightarrow> (\<exists>i < DRD_N_THREADS. seen_by_other s a1 a2 i)
     \<and> (\<exists>t x. a1 \<le> x \<and> x < a2 \<and> csacc s t x)"

lemma acc_kinds: "acc h b t x \<Longrightarrow> acc h b eLoad x \<or> acc h b eStore x"
  by (cases "t = eLoad") (auto simp: acc_def acc1_def split: option.splits)

lemma csacc_any: "s_conflict_set s = Some cs \<Longrightarrow>
    (\<exists>x. a1 \<le> x \<and> x < a2 \<and> (acc (bheap s) cs eLoad x \<or> acc (bheap s) cs eStore x))
    \<longleftrightarrow> (\<exists>t x. a1 \<le> x \<and> x < a2 \<and> csacc s t x)"
  by (auto simp: csacc_def dest: acc_kinds)

lemma stop_using_mem_spec:
  assumes ok: "running_ok s" and a: "a1 \<noteq> 0" "a1 < a2" "no_wrap a2"
  obtains s' where "thread_stop_using_mem s a1 a2 = Some s'" "drd_inv s'" "same_clocks s s'" "supp s' = supp s"
    "races s' = races s"
    "\<forall>q t x. sacc s' q t x \<longleftrightarrow> sacc s q t x \<and> \<not> (q \<in> set (listed s) \<and> wiped a1 a2 x)"
    "\<forall>t x. unordered_access s' t x \<longleftrightarrow> unordered_access s t x \<and> \<not> wiped a1 a2 x"
    "csacc s' = (if must_recompute s a1 a2 then unordered_access s' else csacc s)"
proof -
  have s: "drd_inv s" "tid_ok (s_drd_running_tid s)" "segments (tinfo s (unat (s_drd_running_tid s))) \<noteq> []"
    using ok by (simp_all add: running_ok_def)
  obtain cs where cs: "s_conflict_set s = Some cs" using ok by (auto simp: running_ok_def)
  obtain s1 ou where 1: "stop_using_threads a1 a2 (s, 0) [0..<DRD_N_THREADS] = Some (s1, ou)"
    "wipes a1 a2 (set (listed s)) s s1" "ou \<noteq> 0 \<longleftrightarrow> (\<exists>i < DRD_N_THREADS. seen_by_other s a1 a2 i)"
    using stop_using_threads_spec [OF s(1) a, of "[0..<DRD_N_THREADS]" 0]
    unfolding segments_of_all [OF s(1)] by (auto simp: Bex_def)
  have w: "drd_inv s1" "same_clocks s s1" "csacc s1 = csacc s" "supp s1 = supp s" "s_conflict_set s1 = Some cs"
    "races s1 = races s" "\<forall>q t x. sacc s1 q t x \<longleftrightarrow> sacc s q t x \<and> \<not> (q \<in> set (listed s) \<and> wiped a1 a2 x)"
    using 1(2) cs by (simp_all add: wipes_def)
  note ti = wipes_clocks(1,2) [OF 1(2)]
  have un: "\<forall>t x. unordered_access s1 t x \<longleftrightarrow> unordered_access s t x \<and> \<not> wiped a1 a2 x"
    using wipes_unordered [OF 1(2) s(1)] by blast
  show thesis
  proof (cases "ou = 0")
    case True
    then have "\<not> must_recompute s a1 a2" using 1(3) by (simp add: must_recompute_def)
    then show thesis
      using 1(1) True w un by (intro that [of s1]) (auto simp: thread_stop_using_mem_def)
  next
    case False
    let ?any = "\<exists>t x. a1 \<le> x \<and> x < a2 \<and> csacc s t x"
    have must: "must_recompute s a1 a2 \<longleftrightarrow> ?any" using False 1(3) by (simp add: must_recompute_def)
    have le: "a1 \<le> a2" using a(2) by simp
    obtain cs' where c: "bm_has_any_access (bheap s1) cs a1 a2 = Some (cs', ?any)"
      "queried (bheap s1) cs (s_suppressed s1 # live_bms s1) cs'"
      using bm_has_any_access_spec [OF winv_conflict_set [OF w(1,5)] le a(3)]
      unfolding csacc_any [OF w(5)] w(3) by blast
    let ?s = "s1\<lparr>s_conflict_set := Some cs'\<rparr>"
    have "drd_inv (s1\<lparr>bheap := bheap s1, s_conflict_set := Some cs'\<rparr>)"
      by (rule drd_inv_conflict_set [OF w(1)]) (use c(2) in \<open>simp add: queried_def\<close>)
    then have inv2: "drd_inv ?s" by simp
    have sa2: "sacc ?s = sacc s1" by (auto simp: sacc_def fun_eq_iff split: option.splits)
    have cs2: "csacc ?s = csacc s1" using queried_acc [OF c(2)] w(5) by (simp add: csacc_def fun_eq_iff)
    have sc2: "same_clocks s1 ?s" by (simp add: same_clocks_def)
    have ua2: "unordered_access ?s = unordered_access s1"
      by (intro ext unordered_access_cong [OF sc2]) (simp add: sa2)
    have su2: "supp ?s = supp s1" by (simp add: supp_def fun_eq_iff)
    have sc: "same_clocks s ?s" by (rule same_clocks_trans [OF w(2) sc2])
    show thesis
    proof (cases ?any)
      case none: False
      have "thread_stop_using_mem s a1 a2 = Some ?s"
        using 1(1) False w(5) c(1) none by (simp add: thread_stop_using_mem_def)
      then show thesis
        using inv2 sc w(3,4,6,7) un must none by (intro that [of ?s]) (simp_all add: sa2 cs2 su2 ua2)
    next
      case any: True
      have t2: "tid_ok (s_drd_running_tid ?s)" "segments (tinfo ?s (unat (s_drd_running_tid ?s))) \<noteq> []"
        using s(2,3) ti by simp_all
      obtain s' where s': "thread_compute_conflict_set ?s (s_drd_running_tid ?s) = Some s'" "drd_inv s'"
        "conflict_set_exact s'" "same_clocks ?s s'" "sacc s' = sacc ?s" "supp s' = supp ?s" "races s' = races ?s"
        "unordered_access s' = unordered_access ?s"
        by (rule compute_conflict_set_effect [OF inv2 t2(1) refl t2(2)])
      have run: "thread_get_running_tid ?s = Some (s_drd_running_tid ?s)"
        using t2(1) by (simp add: thread_get_running_tid_def vg_assert_def tid_ok_def)
      have "thread_stop_using_mem s a1 a2 = Some s'"
        using 1(1) False w(5) c(1) any s'(1) run by (simp add: thread_stop_using_mem_def)
      moreover have "csacc s' = unordered_access s'" using s'(3) by (simp add: conflict_set_exact_def fun_eq_iff)
      ultimately show thesis
        using s' w(4,6,7) un must any same_clocks_trans [OF sc s'(4)]
        by (intro that [of s']) (simp_all add: sa2 su2 ua2)
    qed
  qed
qed

lemma drd_trace_small:
  assumes "running_ok s" "unat a + 8 + 16384 < 2 ^ 64" "n \<le> 8" "sz = of_nat n"
    and "\<And>h bm others. winv h (bm # others) \<Longrightarrow> records access t a n h bm others"
    and "\<And>h bm others. winv h (bm # others) \<Longrightarrow> detects query t a n h bm others"
  shows "traces (conflicts s) (drd_trace (\<lambda>s. record_and_query access query s) s a sz t) t a n s"
  unfolding assms(4) using assms(2,3) by (intro drd_trace_spec [OF assms(1) _ assms(5,6)]) simp

subsection \<open>Two threads\<close>

text \<open>Threads 1 and 2 have one segment each, with clocks that are not ordered; thread 1 runs.\<close>

definition test_clock :: "ThreadId \<Rightarrow> VectorClock" where
  "test_clock t = \<lparr>capacity = 1, vsize = 1, vc = [Some \<lparr>threadid = t, tcount = 1\<rparr>]\<rparr>"

definition test_thread :: "sgptr list \<Rightarrow> ThreadId \<Rightarrow> ThreadInfo" where
  "test_thread l vg = \<lparr>segments = l, vg_threadid = vg, pt_threadid = 0, stack_min_min = 0, stack_min = 0,
     stack_startup = 0, stack_max = 0, stack_size = 0, vg_thread_exists = l \<noteq> [], posix_thread_exists = False,
     detached_posix_thread = False, is_recording = True, synchr_nesting = 0\<rparr>"

definition test_state :: drd_state where
  "test_state = \<lparr>bheap = empty_heap,
     sgs = [Some \<lparr>sg_refcnt = 1, sg_vc = test_clock 1, sg_bm = bm_new\<rparr>,
            Some \<lparr>sg_refcnt = 1, sg_vc = test_clock 2, sg_bm = bm_new\<rparr>],
     s_threadinfo = test_thread [] 0 # test_thread [0] 1 # test_thread [1] 2 # replicate 297 (test_thread [] 0),
     s_vg_running_tid = 1, s_drd_running_tid = 1, s_conflict_set = None, s_suppressed = bm_new,
     g_any_address_traced = True, s_segment_merging = True, s_drd_check_stack_accesses = False, races = []\<rparr>"

lemma test_clock_inv: "t \<noteq> 0 \<Longrightarrow> vc_inv (test_clock t)"
  by (simp add: vc_inv_def vc_wf_def live_def test_clock_def)

lemma test_clock_at: "clock (test_clock t) u = (if u = t then Some 1 else None)"
  by (simp add: live_def test_clock_def)

lemma test_concurrent: "t \<noteq> u \<Longrightarrow> concurrent (test_clock t) (test_clock u)"
  by (auto simp: concurrent_def hb_def test_clock_at)

lemma winv_three: "winv empty_heap [bm_new, bm_new, bm_new]"
  by (rule winv_new [OF winv_two])

lemma test_deref:
  "sg_deref test_state p = (if p = 0 then Some \<lparr>sg_refcnt = 1, sg_vc = test_clock 1, sg_bm = bm_new\<rparr>
     else if p = 1 then Some \<lparr>sg_refcnt = 1, sg_vc = test_clock 2, sg_bm = bm_new\<rparr> else None)"
  by (cases p; cases "p - 1") (simp_all add: sg_deref_def test_state_def)

lemma test_listed: "listed test_state = [0, 1]"
  by (simp add: listed_def test_state_def test_thread_def)

lemma test_inv: "drd_inv test_state"
  unfolding drd_inv_def
proof (intro conjI allI impI)
  show "length (s_threadinfo test_state) = DRD_N_THREADS" "segments (tinfo test_state 0) = []"
    "unat (s_drd_running_tid test_state) < DRD_N_THREADS"
    by (simp_all add: test_state_def test_thread_def DRD_N_THREADS_def)
  show "winv (bheap test_state) (all_bms test_state)"
    using winv_three by (simp add: test_state_def all_bms_def cs_bms_def live_bms_def List.map_filter_def)
  fix p sg assume "sg_deref test_state p = Some sg"
  then show "vc_inv (sg_vc sg)" "1 \<le> sg_refcnt sg"
    by (auto simp: test_deref test_clock_inv split: if_splits)
next
  show "distinct (listed test_state)" by (simp add: test_listed)
  show "\<forall>p \<in> set (listed test_state). sg_deref test_state p \<noteq> None" by (simp add: test_listed test_deref)
qed

lemma test_running: "tid_ok 1" "tid_ok 2" "s_drd_running_tid test_state = 1"
  "segments (tinfo test_state 1) = [0]" "segments (tinfo test_state 2) = [1]"
  "IsValidDrdThreadId test_state 1" "IsValidDrdThreadId test_state 2"
  by (simp_all add: tid_ok_def DRD_N_THREADS_def test_state_def test_thread_def IsValidDrdThreadId_def)

subsection \<open>Properties\<close>

text \<open>C7. The conflict set is recomputed as documented: it is the union of all memory accesses of
  the segments of other threads that are unordered, by their vector clocks, with the latest segment of
  the running thread. The old conflict set is given back; segments, their accesses, the suppressed
  ranges and the invariant of all bitmaps are kept.\<close>

theorem conflict_set_correct:
  assumes "drd_inv s" "tid_ok (s_drd_running_tid s)" "segments (tinfo s (unat (s_drd_running_tid s))) \<noteq> []"
  shows "\<exists>s' cs. thread_compute_conflict_set s (s_drd_running_tid s) = Some s' \<and> drd_inv s'
    \<and> s_conflict_set s' = Some cs \<and> (\<forall>t a. acc (bheap s') cs t a \<longleftrightarrow> unordered_access s t a)
    \<and> s_threadinfo s' = s_threadinfo s \<and> (\<forall>p. sg_deref s' p = sg_deref s p) \<and> sacc s' = sacc s \<and> supp s' = supp s"
proof -
  obtain s' where s': "thread_compute_conflict_set s (s_drd_running_tid s) = Some s'" "drd_inv s'"
    "conflict_set_exact s'" "same_clocks s s'" "\<forall>p. sg_deref s' p = sg_deref s p" "sacc s' = sacc s"
    "supp s' = supp s" "unordered_access s' = unordered_access s"
    by (rule compute_conflict_set_effect [OF assms(1,2) refl assms(3)])
  then show ?thesis by (auto simp: conflict_set_exact_def csacc_def same_clocks_def)
qed

theorem conflict_set_correct_witness:
  "\<exists>s' cs. thread_compute_conflict_set test_state 1 = Some s' \<and> s_conflict_set s' = Some cs
    \<and> (\<forall>t a. \<not> acc (bheap s') cs t a)"
proof -
  have "\<not> unordered_access test_state t a" for t a
    by (auto simp: unordered_access_def concurrent_access_def test_deref acc_new)
  then show ?thesis using conflict_set_correct [OF test_inv] test_running by auto
qed

text \<open>All ten handlers of loads and stores.\<close>

definition all_trace :: "drd_state \<Rightarrow> (BmAccessTypeT \<Rightarrow> Addr \<Rightarrow> nat \<Rightarrow> bool) \<Rightarrow> Addr \<Rightarrow> nat \<Rightarrow> bool" where
  "all_trace s hit a n \<longleftrightarrow> (unat a + 8 + 16384 < 2 ^ 64 \<longrightarrow>
      traces hit (drd_trace_load_1 s a) eLoad a 1 s \<and> traces hit (drd_trace_load_2 s a) eLoad a 2 s
    \<and> traces hit (drd_trace_load_4 s a) eLoad a 4 s \<and> traces hit (drd_trace_load_8 s a) eLoad a 8 s
    \<and> traces hit (drd_trace_store_1 s a) eStore a 1 s \<and> traces hit (drd_trace_store_2 s a) eStore a 2 s
    \<and> traces hit (drd_trace_store_4 s a) eStore a 4 s \<and> traces hit (drd_trace_store_8 s a) eStore a 8 s)
    \<and> (0 < n \<and> unat a + n + 16384 < 2 ^ 64 \<longrightarrow>
      traces hit (drd_trace_load s a (of_nat n)) eLoad a n s \<and> traces hit (drd_trace_store s a (of_nat n)) eStore a n s)"

lemma all_trace_conflicts:
  assumes ok: "running_ok s"
  shows "all_trace s (conflicts s) a n"
  unfolding all_trace_def
proof (rule conjI; rule impI)
  let ?c = "conflicts s"
  assume a: "unat a + 8 + 16384 < 2 ^ 64"
  note sm = drd_trace_small [OF ok a]
  have "traces ?c (drd_trace_load_1 s a) eLoad a 1 s" "traces ?c (drd_trace_store_1 s a) eStore a 1 s"
    unfolding drd_trace_load_1_def drd_trace_store_1_def triggers_conflict_eq
    by (intro sm records_sizes(1) detects_sizes(1,5); use a in simp)+
  moreover have "traces ?c (drd_trace_load_2 s a) eLoad a 2 s" "traces ?c (drd_trace_store_2 s a) eStore a 2 s"
    unfolding drd_trace_load_2_def drd_trace_store_2_def triggers_conflict_eq
    by (intro sm records_sizes(2) detects_sizes(2,6); use a in simp)+
  moreover have "traces ?c (drd_trace_load_4 s a) eLoad a 4 s" "traces ?c (drd_trace_store_4 s a) eStore a 4 s"
    unfolding drd_trace_load_4_def drd_trace_store_4_def triggers_conflict_eq
    by (intro sm records_sizes(3) detects_sizes(3,7); use a in simp)+
  moreover have "traces ?c (drd_trace_load_8 s a) eLoad a 8 s" "traces ?c (drd_trace_store_8 s a) eStore a 8 s"
    unfolding drd_trace_load_8_def drd_trace_store_8_def triggers_conflict_eq
    by (intro sm records_sizes(4) detects_sizes(4,8); use a in simp)+
  ultimately show "traces ?c (drd_trace_load_1 s a) eLoad a 1 s \<and> traces ?c (drd_trace_load_2 s a) eLoad a 2 s
    \<and> traces ?c (drd_trace_load_4 s a) eLoad a 4 s \<and> traces ?c (drd_trace_load_8 s a) eLoad a 8 s
    \<and> traces ?c (drd_trace_store_1 s a) eStore a 1 s \<and> traces ?c (drd_trace_store_2 s a) eStore a 2 s
    \<and> traces ?c (drd_trace_store_4 s a) eStore a 4 s \<and> traces ?c (drd_trace_store_8 s a) eStore a 8 s" by blast
next
  assume n: "0 < n \<and> unat a + n + 16384 < 2 ^ 64"
  then have n1: "unat a + n + 16384 < 2 ^ 64" "0 < n" by simp_all
  show "traces (conflicts s) (drd_trace_load s a (of_nat n)) eLoad a n s
      \<and> traces (conflicts s) (drd_trace_store s a (of_nat n)) eStore a n s"
    unfolding drd_trace_load_def drd_trace_store_def bm_access_triggers_conflict_def
    by (intro conjI drd_trace_spec [OF ok n1(1) records_range [OF _ n1] detects_range [OF _ n1(1)]]) simp_all
qed

text \<open>One access of the running thread.\<close>

definition access_step :: "drd_state \<Rightarrow> drd_state \<Rightarrow> bool" where
  "access_step s s' \<longleftrightarrow> (\<exists>a n. (unat a + 8 + 16384 < 2 ^ 64 \<and> Some s' \<in> {drd_trace_load_1 s a, drd_trace_load_2 s a,
        drd_trace_load_4 s a, drd_trace_load_8 s a, drd_trace_store_1 s a, drd_trace_store_2 s a,
        drd_trace_store_4 s a, drd_trace_store_8 s a})
    \<or> (0 < n \<and> unat a + n + 16384 < 2 ^ 64
        \<and> Some s' \<in> {drd_trace_load s a (of_nat n), drd_trace_store s a (of_nat n)}))"

lemma traces_ok:
  assumes "running_ok s" "traces hit r t a n s" "r = Some s'"
  shows "running_ok s' \<and> csacc s' = csacc s \<and> unordered_access s' = unordered_access s"
  using assms by (auto simp: traces_def running_ok_def same_clocks_def)

lemma access_step_ok:
  assumes ok: "running_ok s" and st: "access_step s s'"
  shows "running_ok s' \<and> csacc s' = csacc s \<and> unordered_access s' = unordered_access s"
proof -
  obtain r t a n where "Some s' = r" "traces (conflicts s) r t a n s"
    using st all_trace_conflicts [OF ok] unfolding access_step_def all_trace_def by (elim exE disjE conjE insertE; blast)
  then show ?thesis using traces_ok [OF ok] by metis
qed

lemma access_steps_ok:
  assumes "access_step\<^sup>*\<^sup>* s s'" "running_ok s"
  shows "running_ok s' \<and> csacc s' = csacc s \<and> unordered_access s' = unordered_access s"
  using assms by (induction rule: rtranclp_induct) (auto dest: access_step_ok)

lemma computed_ok:
  assumes s: "drd_inv s" "thread_compute_conflict_set s tid = Some s0"
  shows "running_ok s0 \<and> conflict_set_exact s0 \<and> unordered_access s0 = unordered_access s"
proof -
  have t: "tid_ok tid" "tid = s_drd_running_tid s" "thread_last s (unat tid) \<noteq> None"
    using s(2) by (auto simp: thread_compute_conflict_set_def vg_assert_def split: if_splits Option.bind_splits)
  have l: "segments (tinfo s (unat tid)) \<noteq> []" using t(3) by (auto simp: thread_last_def)
  obtain s' where s': "thread_compute_conflict_set s tid = Some s'" "drd_inv s'" "conflict_set_exact s'"
    "same_clocks s s'" "unordered_access s' = unordered_access s"
    by (rule compute_conflict_set_effect [OF s(1) t(1,2) l])
  then show ?thesis
    using s(2) t(1,2) l by (auto simp: running_ok_def conflict_set_exact_def same_clocks_def)
qed

text \<open>C6. What is reported in any state of a running thread: tracing a load or store of the client, of 1,
  2, 4 or 8 bytes at any alignment or of any size, reports a race exactly when the conflict set has a
  store, or for a store also a load, of some byte of it, unless all its bytes are suppressed, recording
  is off or the address is on the thread's own stack. The access is recorded in the running thread's
  latest segment and nowhere else; the conflict set, the clocks and the suppressed ranges stay as they
  are. The running thread has to have a segment and the conflict set has to exist, as the code asserts.\<close>

theorem race_reports_conflict_set:
  assumes "drd_inv s" "s_conflict_set s \<noteq> None" "tid_ok (s_drd_running_tid s)"
    "segments (tinfo s (unat (s_drd_running_tid s))) \<noteq> []"
  shows "all_trace s (conflicts s) a n"
  by (rule all_trace_conflicts) (use assms in \<open>simp add: running_ok_def\<close>)

text \<open>C5. Race detection is exact from a recomputation of the conflict set, as at each switch of threads,
  for as long as the running thread only accesses memory: after any such accesses, tracing a load or
  store, of 1, 2, 4 or 8 bytes at any alignment or of any size, reports a race exactly when some byte of
  it was stored, or for a store also loaded, in a segment of another thread whose clock is unordered with
  that of the running thread, unless all its bytes are suppressed, recording is off or the address is on
  the thread's own stack; and the access is recorded in the running thread's latest segment and nowhere
  else. Segments may be merged after the recomputation when a new one starts; until the next one,
  reports then follow the conflict set as it was computed.\<close>

theorem race_reports_exact:
  assumes "drd_inv s" "thread_compute_conflict_set s tid = Some s0" "access_step\<^sup>*\<^sup>* s0 s1"
  shows "all_trace s1 (race s1) a n"
proof -
  have 0: "running_ok s0" "conflict_set_exact s0" using computed_ok [OF assms(1,2)] by simp_all
  have 1: "running_ok s1" "csacc s1 = csacc s0" "unordered_access s1 = unordered_access s0"
    using access_steps_ok [OF assms(3) 0(1)] by simp_all
  have "conflict_set_exact s1" using 0(2) 1 by (simp add: conflict_set_exact_def running_ok_def)
  then have "conflicts s1 = race s1" by (simp add: fun_eq_iff conflicts_exact)
  then show ?thesis using all_trace_conflicts [OF 1(1)] by simp
qed

lemma drd_inv_running: "drd_inv s \<Longrightarrow> tid_ok t \<Longrightarrow> drd_inv (s\<lparr>s_drd_running_tid := t\<rparr>)"
  by (simp add: tid_ok_def drd_inv_def all_bms_def cs_bms_def listed_def)

lemma sacc_running: "sacc (s\<lparr>s_drd_running_tid := t\<rparr>) = sacc s"
  by (auto simp: fun_eq_iff sacc_def split: option.splits)

text \<open>States with the threads and clocks of \<open>test_state\<close>.\<close>

definition test_like :: "drd_state \<Rightarrow> bool" where
  "test_like s \<longleftrightarrow> s_threadinfo s = s_threadinfo test_state
     \<and> (\<forall>p. map_option sg_vc (sg_deref s p) = map_option sg_vc (sg_deref test_state p))"

lemma test_like_clocks: "test_like s \<Longrightarrow> same_clocks s s' \<Longrightarrow> test_like s'"
  by (simp add: test_like_def same_clocks_def)

lemma test_like_running:
  assumes "test_like s" "s_drd_running_tid s = 1 \<or> s_drd_running_tid s = 2"
  shows "tid_ok (s_drd_running_tid s)" "segments (tinfo s (unat (s_drd_running_tid s))) \<noteq> []" "traced s a"
  using assms by (auto simp: test_like_def test_running traced_def running_thread_is_recording_def
      thread_address_on_stack_def test_state_def test_thread_def)

lemma test_like_clock:
  assumes "test_like s" "sg_deref test_state p = Some sg"
  obtains sg' where "sg_deref s p = Some sg'" "sg_vc sg' = sg_vc sg"
proof -
  have "map_option sg_vc (sg_deref s p) = Some (sg_vc sg)" using assms by (simp add: test_like_def)
  then show thesis using that by (auto simp: map_option_case split: option.splits)
qed

lemma test_like_race:
  assumes t: "test_like s" "s_drd_running_tid s = 2" and a: "sacc s 0 eStore x" "in_range a n x"
  shows "race s eLoad a n"
proof -
  obtain sq where sq: "sg_deref s 0 = Some sq" "sg_vc sq = test_clock 1"
    by (rule test_like_clock [OF t(1), of 0]) (auto simp: test_deref)
  obtain sp where sp: "sg_deref s 1 = Some sp" "sg_vc sp = test_clock 2"
    by (rule test_like_clock [OF t(1), of 1]) (auto simp: test_deref)
  have ti: "s_threadinfo s = s_threadinfo test_state" using t(1) by (simp add: test_like_def)
  have l: "thread_last s (unat (s_drd_running_tid s)) = Some 1"
    using t(2) test_running(5) by (simp add: thread_last_def ti)
  have v: "IsValidDrdThreadId s 1" using test_running(6) IsValid_cong [OF ti] by simp
  have "concurrent (sg_vc sq) (sg_vc sp)" unfolding sq(2) sp(2) by (rule test_concurrent) simp
  then have "concurrent_access s (bheap s) (sg_vc sp) (segments (tinfo s 1)) eStore x"
    unfolding concurrent_access_sacc using sq(1) a(1) test_running(4) by (simp add: ti)
  then have "unordered_access s eStore x"
    unfolding unordered_access_def using l sp(1) v t(2)
    by (intro exI [of _ 1] exI [of _ sp] conjI) (auto simp: DRD_N_THREADS_def intro!: exI [of _ 1])
  then show ?thesis using a(2) by (auto simp: race_def)
qed

text \<open>Thread 1 starts without a conflict set, then stores to a byte.\<close>

lemma test_start:
  obtains s1 where "thread_compute_conflict_set test_state 1 = Some s1" "drd_inv s1" "test_like s1"
    "s_drd_running_tid s1 = 1" "races s1 = []" "supp s1 = supp test_state" "s_conflict_set s1 \<noteq> None"
    "\<And>t a n. \<not> race s1 t a n" "\<And>t a n. \<not> conflicts s1 t a n" "listed s1 = [0, 1]"
proof -
  have run0: "tid_ok 1" "segments (tinfo test_state (unat (1 :: UInt))) \<noteq> []" using test_running by simp_all
  obtain s1 where 1: "thread_compute_conflict_set test_state 1 = Some s1" "drd_inv s1" "conflict_set_exact s1"
    "same_clocks test_state s1" "supp s1 = supp test_state" "races s1 = races test_state"
    "unordered_access s1 = unordered_access test_state"
    by (rule compute_conflict_set_effect [OF test_inv run0(1) test_running(3) [symmetric] run0(2)])
  have t1: "test_like s1" using test_like_clocks [OF _ 1(4)] by (simp add: test_like_def)
  have quiet: "\<not> race s1 t a n" for t a n
    by (auto simp: race_def 1(7) unordered_access_def concurrent_access_def test_deref acc_new)
  show thesis
    using 1 t1 quiet conflicts_exact [OF 1(3)] test_running(3) test_listed
    by (intro that [of s1]) (simp_all add: same_clocks_def listed_def test_like_def test_state_def conflict_set_exact_def)
qed

theorem race_reports_conflict_set_witness:
  "\<exists>s1 s2. thread_compute_conflict_set test_state 1 = Some s1 \<and> drd_trace_store_8 s1 0x1004 = Some s2 \<and> races s2 = []
    \<and> sacc s2 0 eStore 0x100B"
proof -
  obtain s1 where 1: "thread_compute_conflict_set test_state 1 = Some s1" "drd_inv s1" "test_like s1"
    "s_drd_running_tid s1 = 1" "races s1 = []" "s_conflict_set s1 \<noteq> None" "\<And>t a n. \<not> conflicts s1 t a n"
    by (rule test_start) blast
  have "thread_last s1 1 = Some 0" using 1(3) test_running(4) by (simp add: thread_last_def test_like_def)
  moreover have "all_trace s1 (conflicts s1) 0x1004 8"
    by (rule race_reports_conflict_set) (use 1(2,6) test_like_running(1,2) [OF 1(3)] 1(4) in auto)
  ultimately show ?thesis
    using 1 test_like_running(3) [OF 1(3)] by (auto simp: all_trace_def traces_def)
qed

theorem race_reports_exact_witness:
  "\<exists>s1 s2 s3 s4. thread_compute_conflict_set test_state 1 = Some s1
    \<and> drd_trace_store_1 s1 0x1000 = Some s2
    \<and> thread_compute_conflict_set (s2\<lparr>s_drd_running_tid := 2\<rparr>) 2 = Some s3
    \<and> drd_trace_load s3 0xFFE 4 = Some s4 \<and> races s2 = [] \<and> races s4 = [(2, 0xFFE, 4, eLoad)]"
proof -
  obtain s1 where 1: "thread_compute_conflict_set test_state 1 = Some s1" "drd_inv s1" "test_like s1"
    "s_drd_running_tid s1 = 1" "races s1 = []" "supp s1 = supp test_state" "\<And>t a n. \<not> race s1 t a n"
    by (rule test_start) blast
  have "traces (race s1) (drd_trace_store_1 s1 0x1000) eStore 0x1000 1 s1"
    using race_reports_exact [OF test_inv 1(1) rtranclp.rtrancl_refl, of "0x1000"] by (simp add: all_trace_def)
  then obtain s2 where 2: "drd_trace_store_1 s1 0x1000 = Some s2" "drd_inv s2" "same_clocks s1 s2" "supp s2 = supp s1"
    "races s2 = races s1" "\<forall>q t' x. sacc s2 q t' x \<longleftrightarrow> sacc s1 q t' x \<or> traced s1 0x1000
       \<and> thread_last s1 (unat (s_drd_running_tid s1)) = Some q \<and> same_kind eStore t' \<and> in_range 0x1000 1 x"
    unfolding traces_def using 1(7) by auto
  have t2: "test_like s2" by (rule test_like_clocks [OF 1(3) 2(3)])
  have "thread_last s1 1 = Some 0" using 1(3) test_running(4) by (simp add: thread_last_def test_like_def)
  then have a2: "sacc s2 0 eStore 0x1000" using 2(6) 1(4) test_like_running(3) [OF 1(3)] by simp
  let ?s2 = "s2\<lparr>s_drd_running_tid := 2\<rparr>"
  have t2': "test_like ?s2" using t2 by (simp add: test_like_def)
  have inv2: "drd_inv ?s2" using 2(2) test_running(2) by (rule drd_inv_running)
  have run2: "tid_ok 2" "segments (tinfo ?s2 (unat (2 :: UInt))) \<noteq> []"
    using test_like_running(1,2) [OF t2'] by simp_all
  obtain s3 where 3: "thread_compute_conflict_set ?s2 2 = Some s3" "same_clocks ?s2 s3" "sacc s3 = sacc ?s2"
    "supp s3 = supp ?s2" "races s3 = races ?s2"
    by (rule compute_conflict_set_effect [OF inv2 run2(1) _ run2(2)]) simp_all
  have t3: "test_like s3" by (rule test_like_clocks [OF t2' 3(2)])
  have r3: "s_drd_running_tid s3 = 2" using 3(2) by (simp add: same_clocks_def)
  have a3: "sacc s3 0 eStore 0x1000" using a2 3(3) by (simp add: sacc_running)
  have race3: "race s3 eLoad 0xFFE 4" by (rule test_like_race [OF t3 r3 a3]) simp
  have "\<not> supp s3 eStore x" for x
    using 3(4) 2(4) 1(6) by (simp add: supp_def acc_new test_state_def fun_eq_iff)
  then have ns: "\<not> (\<forall>x. in_range 0xFFE 4 x \<longrightarrow> supp s3 eStore x)" by (auto intro!: exI [of _ "0x1000"])
  have "traces (race s3) (drd_trace_load s3 0xFFE (of_nat 4)) eLoad 0xFFE 4 s3"
    using race_reports_exact [OF inv2 3(1) rtranclp.rtrancl_refl, of "0xFFE" 4] by (simp add: all_trace_def)
  then obtain s4 where 4: "drd_trace_load s3 0xFFE 4 = Some s4" "races s4 = races s3 @ [(2, 0xFFE, 4, eLoad)]"
    unfolding traces_def using race3 ns r3 test_like_running(3) [OF t3] by auto
  have "races s2 = []" using 2(5) 1(5) by simp
  then show ?thesis using 1(1) 2(1) 3(1,5) 4 by auto
qed

text \<open>C17. The exact effect of a report that memory is no longer used. In every segment the accesses from
  the start of the 64 byte block in which the range begins to the end of the range are removed, so up to
  63 bytes before the range are lost with it, and their unordered accesses are forgotten. The conflict
  set is recomputed when another thread has a segment with an access of the range and the conflict set
  meets the range, and is then exact; otherwise it stays as it was.\<close>

theorem stop_using_mem_correct:
  assumes "drd_inv s" "s_conflict_set s \<noteq> None" "tid_ok (s_drd_running_tid s)"
    "segments (tinfo s (unat (s_drd_running_tid s))) \<noteq> []" "a1 \<noteq> 0" "a1 < a2" "no_wrap a2"
  shows "\<exists>s'. thread_stop_using_mem s a1 a2 = Some s' \<and> drd_inv s' \<and> supp s' = supp s
    \<and> s_threadinfo s' = s_threadinfo s
    \<and> (\<forall>q \<in> set (listed s). \<forall>t x. sacc s' q t x \<longleftrightarrow> sacc s q t x \<and> \<not> (UWORD_MSB a1 \<le> x \<and> x < a2))
    \<and> (\<forall>t x. unordered_access s' t x \<longleftrightarrow> unordered_access s t x \<and> \<not> (UWORD_MSB a1 \<le> x \<and> x < a2))
    \<and> csacc s' = (if must_recompute s a1 a2 then unordered_access s' else csacc s)"
proof -
  have ok: "running_ok s" using assms(1-4) by (simp add: running_ok_def)
  obtain s' where s': "thread_stop_using_mem s a1 a2 = Some s'" "drd_inv s'" "same_clocks s s'" "supp s' = supp s"
    "races s' = races s"
    "\<forall>q t x. sacc s' q t x \<longleftrightarrow> sacc s q t x \<and> \<not> (q \<in> set (listed s) \<and> wiped a1 a2 x)"
    "\<forall>t x. unordered_access s' t x \<longleftrightarrow> unordered_access s t x \<and> \<not> wiped a1 a2 x"
    "csacc s' = (if must_recompute s a1 a2 then unordered_access s' else csacc s)"
    by (rule stop_using_mem_spec [OF ok assms(5-7)])
  then show ?thesis unfolding same_clocks_def by (intro exI [of _ s']) simp
qed

text \<open>A store 28 bytes before the range is lost.\<close>

theorem stop_using_mem_correct_witness:
  "\<exists>s1 s2 s3. thread_compute_conflict_set test_state 1 = Some s1 \<and> drd_trace_store_1 s1 0x1004 = Some s2
    \<and> sacc s2 0 eStore 0x1004 \<and> thread_stop_using_mem s2 0x1020 0x1800 = Some s3
    \<and> \<not> sacc s3 0 eStore 0x1004 \<and> csacc s3 = csacc s2"
proof -
  obtain s1 where s1: "thread_compute_conflict_set test_state 1 = Some s1" "drd_inv s1" "test_like s1"
    "s_drd_running_tid s1 = 1" "s_conflict_set s1 \<noteq> None" "\<And>t a n. \<not> conflicts s1 t a n" "listed s1 = [0, 1]"
    by (rule test_start) blast
  have a: "(0x1020 :: Addr) \<noteq> 0" "(0x1020 :: Addr) < 0x1800" "no_wrap 0x1800" by (simp_all add: no_wrap_def)
  have r1: "running_ok s1" using test_like_running(1,2) [OF s1(3)] s1(2,4,5) by (simp add: running_ok_def)
  have "thread_last s1 1 = Some 0" using s1(3) test_running(4) by (simp add: thread_last_def test_like_def)
  then obtain s2 where s2: "drd_trace_store_1 s1 0x1004 = Some s2" "same_clocks s1 s2" "sacc s2 0 eStore 0x1004"
    "csacc s2 = csacc s1" "running_ok s2"
    using all_trace_conflicts [OF r1, of "0x1004" 1] test_like_running(3) [OF s1(3)] s1(4) r1
    by (auto simp: all_trace_def traces_def running_ok_def same_clocks_def)
  have l2: "listed s2 = [0, 1]" using s2(2) s1(7) by (simp add: same_clocks_def listed_def)
  have "\<not> csacc s1 t x" for t x
  proof
    assume "csacc s1 t x"
    then have "csacc s1 eLoad x \<or> csacc s1 eStore x" by (auto simp: csacc_def dest: acc_kinds split: option.splits)
    then have "conflicts s1 eStore x 1" by (auto simp: conflicts_def cs_conflict_def intro!: exI [of _ x])
    then show False using s1(6) by simp
  qed
  then have "\<not> must_recompute s2 0x1020 0x1800" by (simp add: must_recompute_def s2(4))
  moreover have "wiped 0x1020 0x1800 0x1004" by (simp add: UWORD_MSB_def BITS_PER_UWORD_def)
  moreover have "drd_inv s2" "s_conflict_set s2 \<noteq> None" "tid_ok (s_drd_running_tid s2)"
    "segments (tinfo s2 (unat (s_drd_running_tid s2))) \<noteq> []" using s2(5) by (simp_all add: running_ok_def)
  ultimately show ?thesis using stop_using_mem_correct [OF _ _ _ _ a, of s2] s1(1) s2(1,3) l2 by auto
qed

subsection \<open>Suppression\<close>

lemma start_suppression_spec:
  assumes s: "drd_inv s" and a: "a1 < a2" "no_wrap a2"
  obtains s' where "drd_start_suppression s a1 a2 = Some s'" "drd_inv s'"
    "\<forall>t x. supp s' t x \<longleftrightarrow> supp s t x \<or> t \<noteq> eLoad \<and> a1 \<le> x \<and> x < a2"
proof -
  obtain h bm where h: "bm_access_range (bheap s) (s_suppressed s) a1 a2 eStore = Some (h, bm)"
    "recorded (bheap s) (s_suppressed s) (cs_bms s @ live_bms s) eStore (\<lambda>a. a1 \<le> a \<and> a < a2) h bm"
    by (rule bm_access_range_spec [OF winv_suppressed [OF s] a])
  have "drd_inv (s\<lparr>bheap := h, s_suppressed := bm\<rparr>)"
    by (rule drd_inv_suppressed [OF s]) (use h(2) in \<open>simp add: recorded_def\<close>)
  then show thesis
    using h a by (intro that [of "s\<lparr>bheap := h, s_suppressed := bm\<rparr>"])
      (auto simp: drd_start_suppression_def vg_assert_def recorded_def supp_def)
qed

lemma finish_suppression_spec:
  assumes s: "drd_inv s" and a: "a1 < a2"
  obtains s' where "drd_finish_suppression s a1 a2
      = (if \<forall>x. a1 \<le> x \<and> x < a2 \<longrightarrow> supp s eStore x then Some s' else None)" "drd_inv s'"
    "\<forall>t x. supp s' t x \<longleftrightarrow> supp s t x \<and> \<not> (t \<noteq> eLoad \<and> a1 \<le> x \<and> x < a2)"
proof -
  have le: "a1 \<le> a2" using a by simp
  obtain bm where b: "bm_has (bheap s) (s_suppressed s) a1 a2 eStore
      = Some (bm, \<forall>x. a1 \<le> x \<and> x < a2 \<longrightarrow> acc (bheap s) (s_suppressed s) eStore x)"
    "queried (bheap s) (s_suppressed s) (cs_bms s @ live_bms s) bm"
    using bm_has_spec [OF winv_suppressed [OF s] le] by blast
  have w: "winv (bheap s) (bm # cs_bms s @ live_bms s)" using b(2) by (simp add: queried_def)
  obtain h bm' where h: "bm_clear_access eStore (bheap s) bm a1 a2 = Some (h, bm')"
    "erased (bheap s) bm (cs_bms s @ live_bms s) (\<lambda>t' x. same_kind eStore t' \<and> a1 \<le> x \<and> x < a2) h bm'"
    using bm_clear_access_spec [OF w le] by blast
  have "drd_inv (s\<lparr>bheap := h, s_suppressed := bm'\<rparr>)"
    by (rule drd_inv_suppressed [OF s]) (use h(2) in \<open>simp add: erased_def\<close>)
  then show thesis
    using h b(1) a queried_acc [OF b(2)]
    by (intro that [of "s\<lparr>bheap := h, s_suppressed := bm'\<rparr>"])
      (auto simp: drd_finish_suppression_def drd_is_suppressed_def bm_clear_store_def vg_assert_def erased_def supp_def)
qed

text \<open>C19. Suppression of a range: after the start all its bytes are suppressed and no other byte has
  changed; after the end none of them is, also those that were before, and the rest is as it was. The
  end of a suppression of a range that is not suppressed in full fails an assertion.\<close>

theorem suppression_correct:
  assumes s: "drd_inv s" and a: "a1 < a2" "no_wrap a2"
  shows "\<exists>s1 s2. drd_start_suppression s a1 a2 = Some s1 \<and> drd_inv s1
    \<and> (\<forall>t x. supp s1 t x \<longleftrightarrow> supp s t x \<or> t \<noteq> eLoad \<and> a1 \<le> x \<and> x < a2)
    \<and> drd_finish_suppression s1 a1 a2 = Some s2 \<and> drd_inv s2
    \<and> (\<forall>t x. supp s2 t x \<longleftrightarrow> supp s t x \<and> \<not> (t \<noteq> eLoad \<and> a1 \<le> x \<and> x < a2))
    \<and> (drd_finish_suppression s a1 a2 = None \<longleftrightarrow> (\<exists>x. a1 \<le> x \<and> x < a2 \<and> \<not> supp s eStore x))"
proof -
  obtain s1 where 1: "drd_start_suppression s a1 a2 = Some s1" "drd_inv s1"
    "\<forall>t x. supp s1 t x \<longleftrightarrow> supp s t x \<or> t \<noteq> eLoad \<and> a1 \<le> x \<and> x < a2"
    by (rule start_suppression_spec [OF s a])
  obtain s2 where 2: "drd_finish_suppression s1 a1 a2
      = (if \<forall>x. a1 \<le> x \<and> x < a2 \<longrightarrow> supp s1 eStore x then Some s2 else None)" "drd_inv s2"
    "\<forall>t x. supp s2 t x \<longleftrightarrow> supp s1 t x \<and> \<not> (t \<noteq> eLoad \<and> a1 \<le> x \<and> x < a2)"
    by (rule finish_suppression_spec [OF 1(2) a(1)])
  obtain s' where 3: "drd_finish_suppression s a1 a2
      = (if \<forall>x. a1 \<le> x \<and> x < a2 \<longrightarrow> supp s eStore x then Some s' else None)"
    by (rule finish_suppression_spec [OF s a(1)])
  show ?thesis using 1 2 3 by (intro exI [of _ s1] exI [of _ s2]) auto
qed

theorem suppression_correct_witness:
  "\<exists>s1 s2. drd_start_suppression test_state 0x1000 0x1001 = Some s1 \<and> supp s1 eStore 0x1000
    \<and> drd_finish_suppression s1 0x1000 0x1001 = Some s2 \<and> \<not> supp s2 eStore 0x1000
    \<and> drd_finish_suppression test_state 0x1000 0x1001 = None"
proof -
  have ns: "\<not> supp test_state t x" for t x by (simp add: supp_def test_state_def acc_new)
  have a: "(0x1000 :: Addr) < 0x1001" "no_wrap 0x1001" by (simp_all add: no_wrap_def)
  have "\<exists>x. (0x1000 :: Addr) \<le> x \<and> x < 0x1001" by (rule exI [of _ "0x1000"]) simp
  then show ?thesis using suppression_correct [OF test_inv a] ns by (auto; blast)
qed

text \<open>C18. Stopping to trace the last traced range does not return. To see whether any address is still
  traced, all of the address space is searched; past its top the search starts again at address 0.\<close>

theorem stop_tracing_never_returns:
  assumes s: "drd_inv s" "g_any_address_traced s" and a: "a1 < a2"
    and traced: "\<forall>x. supp s eLoad x \<longrightarrow> a1 \<le> x \<and> x < a2"
  shows "drd_stop_tracing_address_range s a1 a2 = None"
proof -
  have le: "a1 \<le> a2" using a by simp
  obtain h bm where h: "bm_clear_access eLoad (bheap s) (s_suppressed s) a1 a2 = Some (h, bm)"
    "erased (bheap s) (s_suppressed s) (cs_bms s @ live_bms s) (\<lambda>t' x. same_kind eLoad t' \<and> a1 \<le> x \<and> x < a2) h bm"
    using bm_clear_access_spec [OF winv_suppressed [OF s(1)] le] by blast
  have w: "winv h (bm # cs_bms s @ live_bms s)" using h(2) by (simp add: erased_def)
  have quiet: "\<not> acc h bm eLoad x" for x using h(2) traced by (auto simp: erased_def supp_def)
  have "bm_has_any True (\<lambda>p1 b0. bm0_is_set (bm0_r p1) b0 \<noteq> 0) h bm 0 (NOT 0) = None"
  proof (rule bm_has_any_top [OF w, where T = "\<lambda>A. A eLoad"])
    show "(0 :: Addr) < NOT 0" "2 ^ 64 < unat (NOT 0 :: Addr) + 16384"
      by (simp_all add: word_greater_zero_iff unsigned_minus_1_eq_mask mask_eq_exp_minus_1)
    show "test_of (\<lambda>A. A eLoad) (\<lambda>p1 b0. bm0_is_set (bm0_r p1) b0 \<noteq> 0)" by (simp add: test_of_def nb_is_set acc1_def)
    show "\<not> acc h bm eLoad x" for x by (rule quiet)
  qed
  then have "bm_has_any_load h bm 0 (NOT 0) = None" by (simp only: bm_has_any_load_def)
  then show ?thesis using h(1) s(2) by (simp add: drd_stop_tracing_address_range_def bm_clear_load_def Let_def)
qed

theorem stop_tracing_never_returns_witness:
  "drd_stop_tracing_address_range test_state 0x1000 0x1001 = None"
  by (rule stop_tracing_never_returns [OF test_inv])
    (simp_all add: supp_def test_state_def acc_new)

end
