(* ===== verification/DRD_Thread_Correct.thy ===== *)
theory DRD_Thread_Correct
  imports DRD_Race_Correct
begin

text \<open>
  Segment lists and threads: every operation keeps the invariant, so it holds in every reachable
  state.
\<close>

subsection \<open>Segments come and go\<close>

lemma ti_update_simps [simp]:
  "bheap (ti_update i f s) = bheap s" "s_conflict_set (ti_update i f s) = s_conflict_set s"
  "s_suppressed (ti_update i f s) = s_suppressed s" "s_drd_running_tid (ti_update i f s) = s_drd_running_tid s"
  "s_segment_merging (ti_update i f s) = s_segment_merging s" "races (ti_update i f s) = races s"
  "s_vg_running_tid (ti_update i f s) = s_vg_running_tid s"
  "sgs (ti_update i f s) = sgs s" "s_threadinfo (ti_update i f s) = (s_threadinfo s)[i := f (tinfo s i)]"
  by (simp_all add: ti_update_def)

lemma concat_update:
  assumes "i < length xs"
  shows "concat (map f (xs[i := x])) = concat (map f (take i xs)) @ f x @ concat (map f (drop (Suc i) xs))"
  using assms by (simp add: upd_conv_take_nth_drop)

lemma concat_at:
  assumes "i < length xs"
  shows "concat (map f xs) = concat (map f (take i xs)) @ f (xs ! i) @ concat (map f (drop (Suc i) xs))"
  using concat_update [OF assms, of f "xs ! i"] by simp

lemma distinct_replace:
  assumes "distinct (a @ x @ z)" "distinct y" "\<forall>p \<in> set y. p \<in> set x \<or> p \<notin> set (a @ x @ z)"
  shows "distinct (a @ y @ z)"
proof -
  have "set a \<inter> set y = {}" "set y \<inter> set z = {}" using assms(1,3) by (auto simp: disjoint_iff)
  with assms show ?thesis by auto
qed

text \<open>Changing the entry of one thread.\<close>

lemma drd_inv_ti:
  assumes s: "drd_inv s" and i: "i < DRD_N_THREADS"
    and f: "distinct (segments (f (tinfo s i)))" "i = 0 \<longrightarrow> segments (f (tinfo s i)) = []"
      "\<forall>p \<in> set (segments (f (tinfo s i))). p \<in> set (segments (tinfo s i)) \<or> p \<notin> set (listed s)"
      "\<forall>p \<in> set (segments (f (tinfo s i))). sg_deref s p \<noteq> None"
  shows "drd_inv (ti_update i f s)"
proof -
  have il: "i < length (s_threadinfo s)" using i drd_invD(1) [OF s] by simp
  let ?a = "concat (map segments (take i (s_threadinfo s)))" and ?z = "concat (map segments (drop (Suc i) (s_threadinfo s)))"
  have l: "listed s = ?a @ segments (tinfo s i) @ ?z" unfolding listed_def by (rule concat_at [OF il])
  have l': "listed (ti_update i f s) = ?a @ segments (f (tinfo s i)) @ ?z"
    unfolding listed_def ti_update_simps by (rule concat_update [OF il])
  have "distinct (listed s)" by (rule drd_invD(5) [OF s])
  then have "distinct (listed (ti_update i f s))" using f(1,3) unfolding l l' by (rule distinct_replace)
  moreover have "\<forall>p \<in> set (listed (ti_update i f s)). sg_deref s p \<noteq> None"
    using drd_invD(6) [OF s] f(4) unfolding l l' by auto
  moreover have "winv (bheap s) (all_bms (ti_update i f s))"
    using drd_invD(3) [OF s] by (simp add: all_bms_def cs_bms_def)
  ultimately show ?thesis
    using s f(2) il by (auto simp: drd_inv_def nth_list_update)
qed

lemma drd_inv_ti_flags:
  assumes "drd_inv s" "i < DRD_N_THREADS" "segments (f (tinfo s i)) = segments (tinfo s i)"
  shows "drd_inv (ti_update i f s)"
proof (rule drd_inv_ti [OF assms(1,2)])
  have il: "i < length (s_threadinfo s)" using assms(2) drd_invD(1) [OF assms(1)] by simp
  show "distinct (segments (f (tinfo s i)))"
    using drd_invD(5) [OF assms(1)] assms(3) concat_at [OF il, of segments] by (auto simp: listed_def)
  show "i = 0 \<longrightarrow> segments (f (tinfo s i)) = []" using drd_invD(2) [OF assms(1)] assms(3) by metis
  show "\<forall>p \<in> set (segments (f (tinfo s i))). sg_deref s p \<noteq> None"
    using drd_invD(6) [OF assms(1)] segments_listed [OF il] assms(3) by simp
qed (use assms(3) in simp)

lemma vc_cleanup_Some: "vc_cleanup v \<noteq> None"
  by (simp add: vc_cleanup_def vc_reserve_def vg_assert_def Let_def)

definition may_put :: "drd_state \<Rightarrow> sgptr \<Rightarrow> bool" where
  "may_put s p \<longleftrightarrow> p \<notin> set (listed s) \<or> (\<forall>sg. sg_deref s p = Some sg \<longrightarrow> sg_refcnt sg > 1)"

text \<open>Giving back a reference: the invariant holds again, and no other segment has changed.\<close>

definition frames :: "drd_state \<Rightarrow> drd_state \<Rightarrow> sgptr set \<Rightarrow> bool" where
  "frames s s' P \<longleftrightarrow> s_threadinfo s' = s_threadinfo s \<and> s_drd_running_tid s' = s_drd_running_tid s
     \<and> s_segment_merging s' = s_segment_merging s
     \<and> csacc s' = csacc s \<and> supp s' = supp s \<and> s_conflict_set s' = s_conflict_set s
     \<and> (\<forall>q. q \<notin> P \<longrightarrow> sg_deref s' q = sg_deref s q \<and> sacc s' q = sacc s q)"

lemma drd_inv_free:
  assumes s: "drd_inv s" and p: "sg_deref s p = Some sg" and n: "p \<notin> set (listed s)"
    and w: "winv h (all_bms (sg_store p None (s\<lparr>bheap := h\<rparr>)))"
  shows "drd_inv (sg_store p None (s\<lparr>bheap := h\<rparr>))"
  using s p w n unfolding drd_inv_def by (auto simp: listed_def sg_deref_Some)

lemma sg_put_spec:
  assumes s: "drd_inv s" and p: "sg_deref s p = Some sg" and m: "may_put s p"
  obtains s' where "sg_put s (Some p) = Some s'" "drd_inv s'" "frames s s' {p}"
proof (cases "sg_refcnt sg = 1")
  case False
  let ?g = "sg\<lparr>sg_refcnt := sg_refcnt sg - 1\<rparr>" and ?s = "sg_store p (Some (sg\<lparr>sg_refcnt := sg_refcnt sg - 1\<rparr>)) s"
  have r: "sg_refcnt sg > 1" "vc_inv (sg_vc sg)" using drd_invD(4) [OF s p] False by auto
  obtain others where o: "beside s p sg others" by (rule beside_segment [OF s p])
  have sb: "s\<lparr>bheap := bheap s\<rparr> = s" by simp
  have "winv (bheap s) (all_bms (sg_store p (Some ?g) (s\<lparr>bheap := bheap s\<rparr>)))"
    by (rule besideD(2) [OF o]) (use besideD(1) [OF o] in simp)
  then have "drd_inv (sg_store p (Some ?g) (s\<lparr>bheap := bheap s\<rparr>))"
    using r by (intro drd_inv_store [OF s p]) simp_all
  moreover have "frames s ?s {p}"
    by (auto simp: frames_def csacc_def supp_def sacc_def fun_eq_iff split: option.splits)
  ultimately show thesis
    using p r by (intro that [of ?s]) (simp_all add: sg_put_def vg_assert_def Let_def)
next
  case True
  then have n: "p \<notin> set (listed s)" using m p by (auto simp: may_put_def)
  obtain others where o: "beside s p sg others" by (rule beside_segment [OF s p])
  then have ow: "winv (bheap s) (sg_bm sg # others)" by (simp add: beside_def)
  obtain h where h: "bm_delete (bheap s) (sg_bm sg) = Some h" "winv h others"
    "\<forall>c \<in> set others. acc h c = acc (bheap s) c" using bm_delete_spec [OF ow] by blast
  let ?s = "sg_store p None (s\<lparr>bheap := h\<rparr>)"
  have "winv h (all_bms ?s)" using o h(2) unfolding beside_def by blast
  then have "drd_inv ?s" by (rule drd_inv_free [OF s p n])
  moreover have "csacc ?s = csacc s" "supp ?s = supp s"
    using o h(3) unfolding beside_def
    by (cases "s_conflict_set s"; simp add: csacc_def supp_def cs_bms_def fun_eq_iff)+
  moreover have "sacc ?s q = sacc s q" if "q \<noteq> p" for q
    using o h(3) that unfolding beside_def by (cases "sg_deref s q") (simp_all add: sacc_def fun_eq_iff)
  ultimately show thesis
    using p True h(1) vc_cleanup_Some [of "sg_vc sg"]
    by (intro that [of ?s]) (auto simp: sg_put_def sg_delete_def vg_assert_def frames_def)
qed

lemma tid_of_nat: "i < DRD_N_THREADS \<Longrightarrow> unat (of_nat i :: DrdThreadId) = i"
  by (simp add: DRD_N_THREADS_def unat_of_nat take_bit_nat_eq_self)

lemma tid_ok_of_nat:
  assumes "drd_inv s" "i < DRD_N_THREADS" "p \<in> set (segments (tinfo s i))"
  shows "tid_ok (of_nat i)"
proof -
  have "i \<noteq> 0" using drd_invD(2) [OF assms(1)] assms(3) by (cases i) auto
  then show ?thesis using tid_of_nat [OF assms(2)] assms(2) by (auto simp: tid_ok_def unat_eq_0 [symmetric])
qed

lemma segments_distinct:
  assumes "drd_inv s" "i < DRD_N_THREADS"
  shows "distinct (segments (tinfo s i))"
proof -
  have "i < length (s_threadinfo s)" using assms drd_invD(1) by simp
  from concat_at [OF this, of segments] show ?thesis
    using drd_invD(5) [OF assms(1)] by (auto simp: listed_def)
qed

text \<open>What the operations on segment lists keep: the invariant, the running thread and the
  flags, and all segments outside of \<open>P\<close>.\<close>

definition keeps :: "drd_state \<Rightarrow> drd_state \<Rightarrow> sgptr set \<Rightarrow> bool" where
  "keeps s s' P \<longleftrightarrow> drd_inv s' \<and> s_drd_running_tid s' = s_drd_running_tid s
     \<and> s_segment_merging s' = s_segment_merging s
     \<and> supp s' = supp s \<and> (\<forall>q. q \<notin> P \<longrightarrow> sg_deref s' q = sg_deref s q)"

lemma keeps_trans: "keeps s s1 P \<Longrightarrow> keeps s1 s2 Q \<Longrightarrow> keeps s s2 (P \<union> Q)"
  by (simp add: keeps_def)

lemma discard_segment_spec:
  assumes s: "drd_inv s" and i: "i < DRD_N_THREADS" and p: "p \<in> set (segments (tinfo s i))"
  obtains s' where "thread_discard_segment s (of_nat i) p = Some s'" "keeps s s' {p}"
    "segments (tinfo s' i) = remove1 p (segments (tinfo s i))"
    "\<forall>j. j \<noteq> i \<longrightarrow> tinfo s' j = tinfo s j"
proof -
  let ?f = "\<lambda>ti. ti\<lparr>segments := remove1 p (segments ti)\<rparr>" and ?s = "ti_update i (\<lambda>ti. ti\<lparr>segments := remove1 p (segments ti)\<rparr>) s"
  have il: "i < length (s_threadinfo s)" using i drd_invD(1) [OF s] by simp
  have d: "distinct (segments (tinfo s i))" by (rule segments_distinct [OF s i])
  have inv: "drd_inv ?s"
  proof (rule drd_inv_ti [OF s i])
    show "i = 0 \<longrightarrow> segments (?f (tinfo s i)) = []" using drd_invD(2) [OF s] p by auto
    show "\<forall>q \<in> set (segments (?f (tinfo s i))). sg_deref s q \<noteq> None"
      using drd_invD(6) [OF s] segments_listed [OF il] d by auto
  qed (use d in auto)
  have sub: "segments (tinfo ?s j) = (if j = i then remove1 p (segments (tinfo s i)) else segments (tinfo s j))" for j
    using il by (simp add: nth_list_update)
  have "p \<notin> set (listed ?s)"
  proof
    assume "p \<in> set (listed ?s)"
    then obtain j where j: "j < DRD_N_THREADS" "p \<in> set (segments (tinfo ?s j))"
      unfolding segments_of_all [OF inv, symmetric] by auto
    show False
    proof (cases "j = i")
      case True
      then show False using j(2) d unfolding sub by simp
    next
      case False
      then show False using j(2) listed_disjoint [OF s i j(1) _ p, of p] unfolding sub by auto
    qed
  qed
  then have mp: "may_put ?s p" by (simp add: may_put_def)
  obtain sg where "sg_deref ?s p = Some sg" using listed_deref [OF s i p] by auto
  then obtain s' where s': "sg_put ?s (Some p) = Some s'" "drd_inv s'" "frames ?s s' {p}"
    by (rule sg_put_spec [OF inv _ mp])
  have ti: "s_threadinfo s' = s_threadinfo ?s" using s'(3) by (simp add: frames_def)
  show thesis
  proof (rule that)
    show "thread_discard_segment s (of_nat i) p = Some s'"
      using s'(1) tid_ok_of_nat [OF s i p] by (simp add: thread_discard_segment_def tid_of_nat [OF i] vg_assert_def)
    show "keeps s s' {p}" using s'(2,3) by (simp add: keeps_def frames_def supp_def fun_eq_iff)
    show "segments (tinfo s' i) = remove1 p (segments (tinfo s i))" using sub [of i] ti by simp
    show "\<forall>j. j \<noteq> i \<longrightarrow> tinfo s' j = tinfo s j" using ti by simp
  qed
qed

lemma discard_ordered_spec:
  assumes "drd_inv s" "i < DRD_N_THREADS" "vc_inv v" "set l \<subseteq> set (segments (tinfo s i))" "distinct l"
  shows "\<exists>s'. discard_ordered s (of_nat i) v l = Some s' \<and> keeps s s' (set l)
    \<and> (\<forall>j. j \<noteq> i \<longrightarrow> tinfo s' j = tinfo s j)"
  using assms
proof (induction s "of_nat i :: DrdThreadId" v l rule: discard_ordered.induct)
  case (1 s v p q rest)
  have p: "p \<in> set (segments (tinfo s i))" using "1.prems"(4) by simp
  obtain sg where sg: "sg_deref s p = Some sg" "vc_inv (sg_vc sg)" by (rule listed_deref [OF "1.prems"(1,2) p])
  show ?case
  proof (cases "hb (sg_vc sg) v")
    case False
    then show ?thesis using "1.prems"(1,3) sg by (simp add: vc_lte_hb keeps_def)
  next
    case True
    obtain s1 where 1: "thread_discard_segment s (of_nat i) p = Some s1" "keeps s s1 {p}"
      "segments (tinfo s1 i) = remove1 p (segments (tinfo s i))" "\<forall>j. j \<noteq> i \<longrightarrow> tinfo s1 j = tinfo s j"
      by (rule discard_segment_spec [OF "1.prems"(1,2) p])
    have lte: "vc_lte (sg_vc sg) v = Some True" using True sg "1.prems"(3) by (simp add: vc_lte_hb)
    have inv1: "drd_inv s1" using 1(2) by (simp add: keeps_def)
    have sub: "set (q # rest) \<subseteq> set (segments (tinfo s1 i))"
      using "1.prems"(4,5) segments_distinct [OF "1.prems"(1,2)] unfolding 1(3) by auto
    from "1.hyps" [OF sg(1) lte _ 1(1)] inv1 sub "1.prems"(2,3,5) obtain s' where
      2: "discard_ordered s1 (of_nat i) v (q # rest) = Some s'" "keeps s1 s' (set (q # rest))"
        "\<forall>j. j \<noteq> i \<longrightarrow> tinfo s' j = tinfo s1 j" by auto
    have "keeps s s' (set (p # q # rest))" using keeps_trans [OF 1(2) 2(2)] by (simp add: insert_commute)
    then show ?thesis using sg(1) lte 1(1,4) 2(1,3) by auto
  qed
qed (simp_all add: keeps_def)

lemma over_threads_rule:
  assumes "I s" "\<And>s i. i \<in> set is \<Longrightarrow> I s \<Longrightarrow> \<exists>s'. f s i = Some s' \<and> I s'"
  shows "\<exists>s'. over_threads f s is = Some s' \<and> I s'"
  using assms
proof (induction "is" arbitrary: s)
  case (Cons i js)
  obtain s1 where 1: "f s i = Some s1" "I s1" using Cons.prems(2) [OF _ Cons.prems(1)] by auto
  have "\<exists>s'. over_threads f s1 js = Some s' \<and> I s'" by (rule Cons.IH [OF 1(2)]) (use Cons.prems(2) in auto)
  with 1(1) show ?case by auto
qed simp

subsection \<open>The minimum of the latest clocks\<close>

lemma thread_fold_vc_inv:
  assumes op: "\<And>a b. vc_inv a \<Longrightarrow> vc_inv b \<Longrightarrow> \<exists>c. op a b = Some c \<and> vc_inv c"
    and "vc_inv v" "\<forall>l. Some l \<in> set ls \<longrightarrow> vc_inv l"
  shows "\<exists>v'. thread_fold_vc vc_assign op ls first v = Some v' \<and> vc_inv v'"
  using assms(2,3)
proof (induction ls arbitrary: first v)
  case (Cons l ls)
  show ?case
  proof (cases l)
    case None
    with Cons show ?thesis by simp
  next
    case (Some a)
    then have a: "vc_inv a" using Cons.prems(2) by simp
    obtain c where "(if first then vc_assign v a else op v a) = Some c" "vc_inv c"
      using drd.assign_copies [OF Cons.prems(1) a] op [OF Cons.prems(1) a] by (cases first) auto
    with Cons.IH [of c False] Cons.prems(2) Some show ?thesis by simp
  qed
qed simp

lemma vc_min_inv:
  assumes "vc_inv a" "vc_inv b"
  shows "\<exists>c. vc_min a b = Some c \<and> vc_inv c"
proof -
  have w: "vc_wf a" "vc_wf b" using assms by (simp_all add: vc_inv_def)
  obtain v where v: "vc_min a b = Some v" "holds v (vmin (live a) (live b))"
    "ascending (vmin (live a) (live b))" by (rule vc_min_eq [OF w])
  have "clock v 0 = None"
    unfolding holds_live [OF v(2)] vmin_amap [OF vc_wf_ascending [OF w(1)] vc_wf_ascending [OF w(2)]]
    using assms(1) by (simp add: vc_inv_def)
  with v vc_wfI [OF v(2,3)] show ?thesis by (simp add: vc_inv_def)
qed

lemma vc_init_empty: "vc_init [] 0 = Some \<lparr>capacity = 0, vsize = 0, vc = []\<rparr>"
  by (simp add: vc_init_def vc_reserve_def vg_assert_def)

lemma vc_empty_inv: "vc_inv \<lparr>capacity = 0, vsize = 0, vc = []\<rparr>"
  by (simp add: vc_inv_def vc_wf_def live_def)

lemma latest_vcs_spec:
  assumes s: "drd_inv s"
  obtains ls where "latest_vcs s = Some ls" "\<forall>l. Some l \<in> set ls \<longrightarrow> vc_inv l"
proof -
  have at: "sg_deref s (last (segments ti)) \<noteq> None"
    if ti: "ti \<in> set (s_threadinfo s)" "segments ti \<noteq> []" for ti
  proof -
    have "last (segments ti) \<in> set (listed s)" using ti by (auto simp: listed_def intro!: bexI [of _ ti])
    then show ?thesis by (rule drd_invD(6) [OF s])
  qed
  then have "list_all (\<lambda>ti. segments ti = [] \<or> sg_deref s (last (segments ti)) \<noteq> None) (s_threadinfo s)"
    by (auto simp: list_all_iff)
  moreover have "vc_inv l" if "Some l = map_option sg_vc (sg_deref s p)" for l p
    using that drd_invD(4) [OF s] by (cases "sg_deref s p") auto
  ultimately show thesis by (intro that) (simp add: latest_vcs_def, auto split: if_splits)
qed

lemma discard_ordered_segments_spec:
  assumes s: "drd_inv s"
  obtains s' where "thread_discard_ordered_segments s = Some s'" "drd_inv s'"
    "s_drd_running_tid s' = s_drd_running_tid s" "s_segment_merging s' = s_segment_merging s"
proof -
  obtain ls where ls: "latest_vcs s = Some ls" "\<forall>l. Some l \<in> set ls \<longrightarrow> vc_inv l" by (rule latest_vcs_spec [OF s])
  obtain v where v: "thread_compute_minimum_vc ls \<lparr>capacity = 0, vsize = 0, vc = []\<rparr> = Some v" "vc_inv v"
    using thread_fold_vc_inv [where op = vc_min and first = True, OF vc_min_inv vc_empty_inv ls(2)]
    by (auto simp: thread_compute_minimum_vc_def)
  let ?I = "\<lambda>s'. drd_inv s' \<and> s_drd_running_tid s' = s_drd_running_tid s
    \<and> s_segment_merging s' = s_segment_merging s"
  have "\<exists>s'. over_threads (\<lambda>s i. discard_ordered s (of_nat i) v (segments (tinfo s i))) s [0..<DRD_N_THREADS] = Some s'
    \<and> ?I s'"
  proof (rule over_threads_rule)
    show "?I s" using s by simp
    fix s1 i assume i: "i \<in> set [0..<DRD_N_THREADS]" and I: "?I s1"
    have i: "i < DRD_N_THREADS" using i by simp
    have "\<exists>s'. discard_ordered s1 (of_nat i) v (segments (tinfo s1 i)) = Some s'
        \<and> keeps s1 s' (set (segments (tinfo s1 i))) \<and> (\<forall>j. j \<noteq> i \<longrightarrow> tinfo s' j = tinfo s1 j)"
      using I i v(2) segments_distinct by (intro discard_ordered_spec) auto
    then show "\<exists>s'. discard_ordered s1 (of_nat i) v (segments (tinfo s1 i)) = Some s' \<and> ?I s'"
      using I by (auto simp: keeps_def)
  qed
  then obtain s' where "over_threads (\<lambda>s i. discard_ordered s (of_nat i) v (segments (tinfo s i))) s [0..<DRD_N_THREADS]
      = Some s'" "?I s'" by blast
  then show thesis
    using that [of s'] ls(1) v(1) vc_cleanup_Some [of v]
    by (auto simp: thread_discard_ordered_segments_def vc_init_empty)
qed

subsection \<open>Merging segments\<close>

lemma sg_merge_spec:
  assumes s: "drd_inv s" and p: "sg_deref s p1 = Some sg1" "sg_deref s p2 = Some sg2" "p1 \<noteq> p2"
    and r: "sg_refcnt sg1 = 1" "sg_refcnt sg2 = 1"
  obtains s' bm where "sg_merge s p1 p2 = Some s'" "drd_inv s'" "s_threadinfo s' = s_threadinfo s"
    "s_drd_running_tid s' = s_drd_running_tid s" "s_segment_merging s' = s_segment_merging s"
    "\<forall>t x. sacc s' p1 t x \<longleftrightarrow> sacc s p1 t x \<or> sacc s p2 t x" "\<forall>q. q \<noteq> p1 \<longrightarrow> sacc s' q = sacc s q"
    "supp s' = supp s" "csacc s' = csacc s"
proof -
  obtain others where o: "beside s p1 sg1 others" by (rule beside_segment [OF s p(1)])
  note od = besideD [OF o]
  have "sg_bm sg2 \<in> set others" using od(6) p by metis
  then obtain h bm where h: "bm_merge2 (bheap s) (sg_bm sg1) (sg_bm sg2) = Some (h, bm)" "winv h (bm # others)"
    "\<forall>c \<in> set others. acc h c = acc (bheap s) c"
    "\<forall>t a. acc h bm t a \<longleftrightarrow> acc (bheap s) (sg_bm sg1) t a \<or> acc (bheap s) (sg_bm sg2) t a"
    using bm_merge2_spec [OF od(1)] by blast
  let ?g = "sg1\<lparr>sg_bm := bm\<rparr>" and ?s = "sg_store p1 (Some (sg1\<lparr>sg_bm := bm\<rparr>)) (s\<lparr>bheap := h\<rparr>)"
  have pl: "p1 < length (sgs s)" using p(1) by (simp add: sg_deref_Some)
  have "winv h (all_bms ?s)" by (rule od(2)) (use h(2) in simp)
  then have "drd_inv ?s" using drd_invD(4) [OF s p(1)] by (intro drd_inv_store [OF s p(1)]) simp_all
  moreover have "sg_merge s p1 p2 = Some ?s" using p r h(1) by (simp add: sg_merge_def vg_assert_def)
  moreover have "sacc ?s q = sacc s q" if "q \<noteq> p1" for q
    using od(6) [OF that] h(3) that by (cases "sg_deref s q") (simp_all add: sacc_def fun_eq_iff)
  moreover have "csacc ?s = csacc s" "supp ?s = supp s"
    using od(4,5) h(3) by (cases "s_conflict_set s"; simp add: csacc_def supp_def cs_bms_def fun_eq_iff)+
  ultimately show thesis
    using p pl h(4) by (intro that [of ?s]) (auto simp: sacc_def)
qed

lemma merge_segments_spec:
  assumes "drd_inv s" "i < DRD_N_THREADS" "set l \<subseteq> set (segments (tinfo s i))" "distinct l"
  shows "\<exists>s'. merge_segments s (of_nat i) l = Some s' \<and> drd_inv s'
    \<and> s_drd_running_tid s' = s_drd_running_tid s"
  using assms
proof (induction s "of_nat i :: DrdThreadId" l rule: merge_segments.induct)
  case (1 s p q r rest)
  have in_i: "p \<in> set (segments (tinfo s i))" "q \<in> set (segments (tinfo s i))" "p \<noteq> q" using "1.prems"(3,4) by auto
  obtain sp where sp: "sg_deref s p = Some sp" by (rule listed_deref [OF "1.prems"(1,2) in_i(1)])
  obtain sq where sq: "sg_deref s q = Some sq" by (rule listed_deref [OF "1.prems"(1,2) in_i(2)])
  show ?case
  proof (cases "sg_refcnt sp = 1 \<and> sg_refcnt sq = 1")
    case False
    then show ?thesis using "1.hyps"(2) [OF sp sq False "1.prems"(1,2)] "1.prems"(3,4) sp sq by auto
  next
    case True
    obtain s1 where s1: "sg_merge s p q = Some s1" "drd_inv s1" "s_threadinfo s1 = s_threadinfo s"
      "s_drd_running_tid s1 = s_drd_running_tid s"
      by (rule sg_merge_spec [OF "1.prems"(1) sp sq in_i(3)]) (use True in simp_all)
    have q1: "q \<in> set (segments (tinfo s1 i))" using in_i(2) s1(3) by simp
    obtain s2 where s2: "thread_discard_segment s1 (of_nat i) q = Some s2" "keeps s1 s2 {q}"
      "segments (tinfo s2 i) = remove1 q (segments (tinfo s1 i))"
      by (rule discard_segment_spec [OF s1(2) "1.prems"(2) q1])
    have inv2: "drd_inv s2" "s_drd_running_tid s2 = s_drd_running_tid s" using s2(2) s1(4) by (simp_all add: keeps_def)
    have sub: "set (r # rest) \<subseteq> set (segments (tinfo s2 i))"
      using "1.prems"(3,4) segments_distinct [OF s1(2) "1.prems"(2)] unfolding s2(3) s1(3) by auto
    from "1.hyps"(1) [OF sp sq True s1(1) s2(1) inv2(1) "1.prems"(2) sub] "1.prems"(4) obtain s' where
      "merge_segments s2 (of_nat i) (r # rest) = Some s'" "drd_inv s'" "s_drd_running_tid s' = s_drd_running_tid s2"
      by auto
    then show ?thesis using sp sq True s1(1) s2(1) inv2(2) by simp
  qed
qed simp_all

lemma thread_merge_segments_inv:
  assumes "drd_inv s"
  shows "\<exists>s'. thread_merge_segments s = Some s' \<and> drd_inv s' \<and> s_drd_running_tid s' = s_drd_running_tid s"
  unfolding thread_merge_segments_def
proof (rule over_threads_rule)
  show "drd_inv s \<and> s_drd_running_tid s = s_drd_running_tid s" using assms by simp
  fix s1 i assume i: "i \<in> set [0..<DRD_N_THREADS]" and I: "drd_inv s1 \<and> s_drd_running_tid s1 = s_drd_running_tid s"
  have i: "i < DRD_N_THREADS" using i by simp
  show "\<exists>s'. merge_segments s1 (of_nat i) (segments (tinfo s1 i)) = Some s'
      \<and> drd_inv s' \<and> s_drd_running_tid s' = s_drd_running_tid s"
    using merge_segments_spec [OF conjunct1 [OF I] i order_refl segments_distinct [OF conjunct1 [OF I] i]] I by simp
qed

subsection \<open>New segments\<close>

lemma vc_increment_inv:
  assumes "vc_inv v" "t \<noteq> 0" "vc_increment v t = Some v'"
  shows "vc_inv v'"
proof (cases "clock v t")
  case None
  then show ?thesis using vc_increment_absent [OF assms(1,2)] assms(3) by auto
next
  case (Some c)
  have "vc_wf v" using assms(1) by (simp add: vc_inv_def)
  from vc_increment_present [OF this Some] have "vc_wf v'" "clock v' = (clock v)(t \<mapsto> c + 1)" using assms(3) by auto
  then show ?thesis using assms(1,2) by (simp add: vc_inv_def)
qed

lemma vc_copy_inv: "vc_inv v \<Longrightarrow> vc_copy v = Some w \<Longrightarrow> vc_inv w"
proof -
  assume v: "vc_inv v" and w: "vc_copy v = Some w"
  have "vc_wf v" using v by (simp add: vc_inv_def)
  then obtain u where "vc_copy v = Some u" "live u = live v" "vc_wf u" by (rule vc_copy_eq)
  then show ?thesis using v w by (simp add: vc_inv_def)
qed

lemma sg_init_inv:
  assumes s: "drd_inv s" and "created \<noteq> 0" "sg_init s creator created = Some sg"
  shows "vc_inv (sg_vc sg) \<and> sg_refcnt sg = 1 \<and> sg_bm sg = bm_new"
proof -
  let ?cs = "if creator \<noteq> 0 then thread_last s (unat creator) else None"
  obtain v v' where v0: "(case ?cs of Some p \<Rightarrow> do { c \<leftarrow> sg_deref s p; vc_copy (sg_vc c) } | None \<Rightarrow> vc_init [] 0) = Some v"
    and v1: "vc_increment v created = Some v'" "sg = \<lparr>sg_refcnt = 1, sg_vc = v', sg_bm = bm_new\<rparr>"
    using assms(3) unfolding sg_init_def Let_def vg_assert_def
    by (cases "creator = 0 \<or> IsValidDrdThreadId s creator") (simp_all split: Option.bind_splits)
  have "vc_inv v"
  proof (cases ?cs)
    case None
    then show ?thesis using v0 vc_empty_inv by (simp only: vc_init_empty option.case option.inject)
  next
    case (Some p)
    then obtain c where "sg_deref s p = Some c" "vc_copy (sg_vc c) = Some v"
      using v0 by (simp only: option.case) (auto split: Option.bind_splits)
    then show ?thesis using vc_copy_inv drd_invD(4) [OF s] by blast
  qed
  note v = this v1
  then show ?thesis using vc_increment_inv [OF v(1) assms(2) v(2)] by simp
qed

lemma sg_new_inv:
  assumes s: "drd_inv s" and "created \<noteq> 0" "sg_new s creator created = Some (s', p)"
  shows "drd_inv s'" "sg_deref s' p \<noteq> None" "p \<notin> set (listed s')" "s_threadinfo s' = s_threadinfo s"
    "s_drd_running_tid s' = s_drd_running_tid s"
proof -
  obtain sg where sg: "sg_init s creator created = Some sg" "s' = s\<lparr>sgs := sgs s @ [Some sg]\<rparr>" "p = length (sgs s)"
    using assms(3) by (auto simp: sg_new_def split: Option.bind_splits)
  note g = sg_init_inv [OF s assms(2) sg(1)]
  have de: "sg_deref s' q = (if q = length (sgs s) then Some sg else sg_deref s q)" for q
    by (auto simp: sg(2) sg_deref_def nth_append)
  have out: "length (sgs s) \<notin> set (listed s)"
    using drd_invD(6) [OF s, of "length (sgs s)"] by (auto simp: sg_deref_def)
  have "live_bms s' = live_bms s @ [bm_new]" using g by (simp add: live_bms_def sg(2) map_filter_append map_filter_Cons)
  then have "mset (all_bms s') = mset (bm_new # all_bms s)" by (simp add: all_bms_def cs_bms_def sg(2))
  from winv_perm [OF this] have "winv (bheap s') (all_bms s')"
    using winv_new [OF drd_invD(3) [OF s]] by (simp add: sg(2))
  then show "drd_inv s'" using s g out by (auto simp: drd_inv_def de) (auto simp: listed_def sg(2))
  show "sg_deref s' p \<noteq> None" "p \<notin> set (listed s')" "s_threadinfo s' = s_threadinfo s"
    "s_drd_running_tid s' = s_drd_running_tid s"
    using de sg out by (simp_all add: listed_def)
qed

lemma append_segment_inv:
  assumes s: "drd_inv s" "sg_deref s p \<noteq> None" "p \<notin> set (listed s)" and a: "thread_append_segment s tid p = Some s'"
  shows "drd_inv s'" "s_drd_running_tid s' = s_drd_running_tid s"
proof -
  have t: "tid_ok tid" and s': "s' = ti_update (unat tid) (\<lambda>ti. ti\<lparr>segments := segments ti @ [p]\<rparr>) s"
    using a by (auto simp: thread_append_segment_def vg_assert_def split: if_splits)
  have i: "unat tid < DRD_N_THREADS" "unat tid \<noteq> 0" using t by (auto simp: tid_ok_def unat_eq_0)
  have il: "unat tid < length (s_threadinfo s)" using i drd_invD(1) [OF s(1)] by simp
  note sl = segments_listed [OF il]
  show "drd_inv s'" unfolding s'
  proof (rule drd_inv_ti [OF s(1) i(1)])
    show "distinct (segments (tinfo s (unat tid)\<lparr>segments := segments (tinfo s (unat tid)) @ [p]\<rparr>))"
      using segments_distinct [OF s(1) i(1)] s(3) sl by auto
  qed (use s(2,3) i(2) sl drd_invD(6) [OF s(1)] in auto)
  show "s_drd_running_tid s' = s_drd_running_tid s" by (simp add: s')
qed

lemma compute_conflict_set_inv:
  assumes s: "drd_inv s" and c: "thread_compute_conflict_set s tid = Some s'"
  shows "drd_inv s'" "conflict_set_exact s'" "s_drd_running_tid s' = s_drd_running_tid s" "tid_ok tid"
proof -
  have t: "tid_ok tid" "tid = s_drd_running_tid s" "thread_last s (unat tid) \<noteq> None"
    using c by (auto simp: thread_compute_conflict_set_def vg_assert_def split: if_splits Option.bind_splits)
  have l: "segments (tinfo s (unat tid)) \<noteq> []" using t(3) by (auto simp: thread_last_def)
  obtain s1 where "thread_compute_conflict_set s tid = Some s1" "drd_inv s1" "conflict_set_exact s1" "same_clocks s s1"
    by (rule compute_conflict_set_effect [OF s t(1,2) l])
  with c t(1) show "drd_inv s'" "conflict_set_exact s'" "s_drd_running_tid s' = s_drd_running_tid s" "tid_ok tid"
    by (auto simp: same_clocks_def)
qed

lemma new_segment_inv:
  assumes s: "drd_inv s" and n: "thread_new_segment s tid = Some s'"
  shows "drd_inv s'"
proof -
  obtain s1 p s2 s3 where 1: "tid_ok tid" "sg_new s tid tid = Some (s1, p)" "thread_append_segment s1 tid p = Some s2"
    "thread_compute_conflict_set s2 (s_drd_running_tid s2) = Some s3"
    using n by (auto simp: thread_new_segment_def vg_assert_def split: Option.bind_splits if_splits)
  have "tid \<noteq> 0" using 1(1) by (simp add: tid_ok_def)
  note s1 = sg_new_inv [OF s this 1(2)]
  note s2 = append_segment_inv [OF s1(1-3) 1(3)]
  note s3 = compute_conflict_set_inv [OF s2(1) 1(4)]
  obtain s4 where s4: "thread_discard_ordered_segments s3 = Some s4" "drd_inv s4"
    by (rule discard_ordered_segments_spec [OF s3(1)])
  show ?thesis
    using n 1 s4 thread_merge_segments_inv [OF s4(2)]
    by (auto simp: thread_new_segment_def vg_assert_def split: if_splits)
qed

subsection \<open>Clocks of segments\<close>

lemma combine_inv:
  assumes s: "drd_inv s" and p: "sg_deref s p = Some sp" and v: "vc_inv v" "vc_combine (sg_vc sp) v = Some w"
  shows "drd_inv (sg_store p (Some (sp\<lparr>sg_vc := w\<rparr>)) s)"
proof -
  have sp: "vc_inv (sg_vc sp)" "sg_refcnt sp \<ge> 1" using drd_invD(4) [OF s p] by simp_all
  have w: "vc_inv w" using vc_combine_eq [OF sp(1) v(1)] v(2) by (metis option.inject)
  obtain others where o: "beside s p sp others" by (rule beside_segment [OF s p])
  have "winv (bheap s) (all_bms (sg_store p (Some (sp\<lparr>sg_vc := w\<rparr>)) (s\<lparr>bheap := bheap s\<rparr>)))"
    by (rule besideD(2) [OF o]) (use besideD(1) [OF o] in simp)
  then have "drd_inv (sg_store p (Some (sp\<lparr>sg_vc := w\<rparr>)) (s\<lparr>bheap := bheap s\<rparr>))"
    using w sp(2) by (intro drd_inv_store [OF s p]) simp_all
  then show ?thesis by simp
qed

lemma combine_vc_inv:
  assumes s: "drd_inv s" and c: "thread_combine_vc s joiner joinee = Some s'"
  shows "drd_inv s'"
proof -
  obtain p q sp sq w where 1: "sg_deref s p = Some sp" "sg_deref s q = Some sq" "vc_combine (sg_vc sp) (sg_vc sq) = Some w"
    and 2: "do { s \<leftarrow> thread_discard_ordered_segments (sg_store p (Some (sp\<lparr>sg_vc := w\<rparr>)) s);
         if joiner = s_drd_running_tid s then thread_compute_conflict_set s joiner else Some s } = Some s'"
    using c by (auto simp: thread_combine_vc_def vg_assert_def split: Option.bind_splits if_splits)
  have inv1: "drd_inv (sg_store p (Some (sp\<lparr>sg_vc := w\<rparr>)) s)"
    using drd_invD(4) [OF s 1(2)] by (intro combine_inv [OF s 1(1) _ 1(3)]) simp
  obtain s2 where "thread_discard_ordered_segments (sg_store p (Some (sp\<lparr>sg_vc := w\<rparr>)) s) = Some s2" "drd_inv s2"
    by (rule discard_ordered_segments_spec [OF inv1])
  with 2 compute_conflict_set_inv(1) show ?thesis by (auto split: if_splits)
qed

lemma combine_vc2_inv:
  assumes s: "drd_inv s" and v: "vc_inv v" and c: "thread_combine_vc2 s tid v = Some s'"
  shows "drd_inv s'"
proof -
  obtain p sp w s1 where 1: "sg_deref s p = Some sp" "vc_combine (sg_vc sp) v = Some w"
    "thread_compute_conflict_set (sg_store p (Some (sp\<lparr>sg_vc := w\<rparr>)) s) tid = Some s1"
    "thread_discard_ordered_segments s1 = Some s'"
    using c by (auto simp: thread_combine_vc2_def vg_assert_def split: Option.bind_splits if_splits)
  have "drd_inv s1" by (rule compute_conflict_set_inv(1) [OF combine_inv [OF s 1(1) v 1(2)] 1(3)])
  from discard_ordered_segments_spec [OF this] 1(4) show ?thesis by (metis option.inject)
qed

subsection \<open>References from outside\<close>

lemma sg_get_inv:
  assumes s: "drd_inv s" and g: "sg_get s p = Some s'"
  shows "drd_inv s'"
proof -
  obtain sg where sg: "sg_deref s p = Some sg" and s': "s' = sg_store p (Some (sg\<lparr>sg_refcnt := sg_refcnt sg + 1\<rparr>)) s"
    using g by (auto simp: sg_get_def split: Option.bind_splits)
  obtain others where o: "beside s p sg others" by (rule beside_segment [OF s sg])
  let ?g = "sg\<lparr>sg_refcnt := sg_refcnt sg + 1\<rparr>"
  have "winv (bheap s) (all_bms (sg_store p (Some ?g) (s\<lparr>bheap := bheap s\<rparr>)))"
    by (rule besideD(2) [OF o]) (use besideD(1) [OF o] in simp)
  then have "drd_inv (sg_store p (Some ?g) (s\<lparr>bheap := bheap s\<rparr>))"
    using drd_invD(4) [OF s sg] by (intro drd_inv_store [OF s sg]) simp_all
  then show ?thesis by (simp add: s')
qed

lemma sg_put_inv:
  assumes "drd_inv s" "may_put s p" "sg_put s (Some p) = Some s'"
  shows "drd_inv s'"
proof -
  obtain sg where sg: "sg_deref s p = Some sg" using assms(3) by (auto simp: sg_put_def split: Option.bind_splits)
  obtain s1 where "sg_put s (Some p) = Some s1" "drd_inv s1" by (rule sg_put_spec [OF assms(1) sg assms(2)])
  with assms(3) show ?thesis by simp
qed

lemma get_latest_segment_inv:
  assumes s: "drd_inv s" and m: "\<forall>p. sg = Some p \<longrightarrow> may_put s p"
    and g: "thread_get_latest_segment s sg tid = Some (s', q)"
  shows "drd_inv s'"
proof -
  obtain s1 where 1: "sg_put s sg = Some s1" "sg_get s1 q = Some s'"
    using g by (auto simp: thread_get_latest_segment_def vg_assert_def split: Option.bind_splits if_splits)
  have "drd_inv s1"
  proof (cases sg)
    case None
    then show ?thesis using 1(1) s by (simp add: sg_put_def)
  next
    case (Some p)
    then show ?thesis using sg_put_inv [OF s _, of p s1] m 1(1) by simp
  qed
  then show ?thesis using sg_get_inv 1(2) by blast
qed

subsection \<open>Deleting a thread\<close>

lemma sg_put_ti: "sg_put (ti_update i f s) p = map_option (ti_update i f) (sg_put s p)"
  by (cases p) (auto simp: sg_put_def sg_delete_def vg_assert_def Let_def sg_store_def ti_update_def sg_deref_def
      split: Option.bind_splits option.splits)

lemma sg_put_all_ti: "sg_put_all (ti_update i f s) ps = map_option (ti_update i f) (sg_put_all s ps)"
proof (induction ps arbitrary: s)
  case (Cons p ps)
  show ?case by (cases "sg_put s (Some p)") (simp_all add: sg_put_ti Cons.IH)
qed simp

lemma sg_put_all_inv:
  assumes "drd_inv s" "distinct ps" "set ps \<inter> set (listed s) = {}" "sg_put_all s ps = Some s'"
  shows "drd_inv s' \<and> s_threadinfo s' = s_threadinfo s"
  using assms
proof (induction ps arbitrary: s)
  case (Cons p ps)
  obtain s1 where 1: "sg_put s (Some p) = Some s1" "sg_put_all s1 ps = Some s'"
    using Cons.prems(4) by (auto split: Option.bind_splits)
  have mp: "may_put s p" using Cons.prems(3) by (auto simp: may_put_def)
  obtain sg where sg: "sg_deref s p = Some sg" using 1(1) by (auto simp: sg_put_def split: Option.bind_splits)
  obtain s2 where "sg_put s (Some p) = Some s2" "drd_inv s2" "frames s s2 {p}" by (rule sg_put_spec [OF Cons.prems(1) sg mp])
  then have "drd_inv s1" "s_threadinfo s1 = s_threadinfo s" using 1(1) by (auto simp: frames_def)
  with Cons.IH [of s1] 1(2) Cons.prems(2,3) show ?case by (simp add: listed_def)
qed simp

lemma ti_update_twice: "ti_update i g (ti_update i f s) = ti_update i (\<lambda>ti. g (f ti)) s"
  if "i < length (s_threadinfo s)"
  using that by (simp add: ti_update_def)

lemma clear_order: "ti\<lparr>vg_thread_exists := False, posix_thread_exists := False, segments := []\<rparr>
    = ti\<lparr>segments := [], vg_thread_exists := False, posix_thread_exists := False\<rparr>" for ti :: ThreadInfo
  by (rule ThreadInfo.equality) simp_all

lemma thread_delete_inv:
  assumes s: "drd_inv s" and d: "thread_delete s tid = Some s'"
  shows "drd_inv s'"
proof -
  let ?i = "unat tid" and ?f = "\<lambda>ti :: ThreadInfo. ti\<lparr>segments := []\<rparr>"
  let ?g = "\<lambda>ti :: ThreadInfo. ti\<lparr>vg_thread_exists := False, posix_thread_exists := False\<rparr>"
  let ?l = "segments (tinfo s ?i)"
  obtain s1 where 1: "tid_ok tid" "sg_put_all s (rev ?l) = Some s1"
    "s' = ti_update ?i (\<lambda>ti. ti\<lparr>vg_thread_exists := False, posix_thread_exists := False, segments := []\<rparr>) s1"
    using d by (auto simp: thread_delete_def vg_assert_def split: Option.bind_splits if_splits)
  have i: "?i < DRD_N_THREADS" using 1(1) by (simp add: tid_ok_def)
  let ?s = "ti_update ?i ?f s"
  have inv0: "drd_inv ?s" by (rule drd_inv_ti [OF s i]) simp_all
  have "p \<notin> set (listed ?s)" if p: "p \<in> set ?l" for p
  proof
    assume "p \<in> set (listed ?s)"
    then obtain j where j: "j < DRD_N_THREADS" "p \<in> set (segments (tinfo ?s j))"
      unfolding segments_of_all [OF inv0, symmetric] by auto
    then have "j \<noteq> ?i" "p \<in> set (segments (tinfo s j))"
      using i drd_invD(1) [OF s] by (auto simp: nth_list_update split: if_splits)
    then show False using listed_disjoint [OF s i j(1) _ p, of p] by auto
  qed
  then have dj: "set (rev ?l) \<inter> set (listed ?s) = {}" by auto
  have "sg_put_all ?s (rev ?l) = Some (ti_update ?i ?f s1)" using 1(2) by (simp add: sg_put_all_ti)
  from sg_put_all_inv [OF inv0 _ dj this] have inv1: "drd_inv (ti_update ?i ?f s1)"
    using segments_distinct [OF s i] by simp
  have "?i < length (s_threadinfo s1)" using drd_invD(1) [OF inv1] i by simp
  then have "s' = ti_update ?i ?g (ti_update ?i ?f s1)" 
    unfolding 1(3) by (subst ti_update_twice) (simp_all add: clear_order)
  moreover have "drd_inv (ti_update ?i ?g (ti_update ?i ?f s1))" by (rule drd_inv_ti_flags [OF inv1 i]) simp
  ultimately show ?thesis by simp
qed

subsection \<open>The other operations\<close>

lemma drd_inv_vg: "drd_inv s \<Longrightarrow> drd_inv (s\<lparr>s_vg_running_tid := t\<rparr>)"
  by (simp add: drd_inv_def all_bms_def cs_bms_def listed_def)

lemma find_thread_Some: "find_thread s P = Some i \<Longrightarrow> 0 < i \<and> i < DRD_N_THREADS \<and> P (tinfo s i)"
  by (auto simp: find_thread_def find_Some_iff)

lemma new_thread_inv:
  assumes s: "drd_inv s" and n: "VgThreadIdToNewDrdThreadId s vg = Some (s', t)"
  shows "drd_inv s'"
proof -
  obtain i where i: "find_thread s (\<lambda>ti. \<not> vg_thread_exists ti \<and> \<not> posix_thread_exists ti \<and> \<not> detached_posix_thread ti)
      = Some i"
    and s': "s' = ti_update i (\<lambda>ti. ti\<lparr>vg_thread_exists := True, vg_threadid := vg, pt_threadid := 0,
             stack_min := 0, stack_min_min := 0, stack_startup := 0, stack_max := 0,
             is_recording := True, synchr_nesting := 0\<rparr>) s"
    using n by (auto simp: VgThreadIdToNewDrdThreadId_def vg_assert_def split: Option.bind_splits if_splits)
  show ?thesis unfolding s' by (rule drd_inv_ti_flags [OF s]) (use find_thread_Some [OF i] in simp_all)
qed

lemma pre_create_inv:
  assumes s: "drd_inv s" and c: "thread_pre_create s creator vg = Some (s', t)"
  shows "drd_inv s'"
proof -
  obtain s1 s2 p where 1: "VgThreadIdToNewDrdThreadId s vg = Some (s1, t)" "tid_ok t" "sg_new s1 creator t = Some (s2, p)"
    "thread_append_segment s2 t p = Some s'"
    using c by (auto simp: thread_pre_create_def vg_assert_def split: Option.bind_splits if_splits)
  have "t \<noteq> 0" using 1(2) by (simp add: tid_ok_def)
  note s2 = sg_new_inv [OF new_thread_inv [OF s 1(1)] this 1(3)]
  show ?thesis by (rule append_segment_inv(1) [OF s2(1-3) 1(4)])
qed

lemma flag_inv:
  assumes "drd_inv s" "tid_ok tid" "\<And>ti. segments (f ti) = segments ti"
  shows "drd_inv (ti_update (unat tid) f s)"
  using assms by (intro drd_inv_ti_flags) (simp_all add: tid_ok_def)

lemma finished_inv: "drd_inv s \<Longrightarrow> thread_finished s tid = Some s' \<Longrightarrow> drd_inv s'"
  by (auto simp: thread_finished_def vg_assert_def Let_def intro!: flag_inv split: if_splits)

lemma set_running_inv:
  assumes s: "drd_inv s" and r: "thread_set_running_tid s vg tid = Some s'"
  shows "drd_inv s'"
proof (cases "vg = s_vg_running_tid s")
  case True
  then show ?thesis using r s by (auto simp: thread_set_running_tid_def vg_assert_def split: if_splits)
next
  case False
  let ?s = "s\<lparr>s_vg_running_tid := vg, s_drd_running_tid := tid\<rparr>"
  have c: "thread_compute_conflict_set ?s tid = Some s'"
    using r False by (auto simp: thread_set_running_tid_def vg_assert_def split: if_splits Option.bind_splits)
  have "tid_ok tid" using c by (auto simp: thread_compute_conflict_set_def vg_assert_def split: if_splits)
  then have "drd_inv ?s" using drd_inv_running [OF drd_inv_vg [OF s]] by simp
  from compute_conflict_set_inv(1) [OF this c] show ?thesis .
qed

lemma set_vg_running_inv:
  assumes s: "drd_inv s" and r: "thread_set_vg_running_tid s vg = Some s'"
  shows "drd_inv s'"
  using r s set_running_inv [OF s, of vg]
  by (auto simp: thread_set_vg_running_tid_def vg_assert_def split: if_splits Option.bind_splits)

lemma trace_inv:
  assumes s: "drd_inv s" and a: "unat a + n + 16384 < 2 ^ 64"
    and access: "\<And>h bm others. winv h (bm # others) \<Longrightarrow> records access t a n h bm others"
    and query: "\<And>h bm others. winv h (bm # others) \<Longrightarrow> detects query t a n h bm others"
    and r: "drd_trace (\<lambda>s. record_and_query access query s) s a (of_nat n) t = Some s'"
  shows "drd_inv s'"
proof (cases "traced s a")
  case False
  then show ?thesis using r s unfolding traced_def drd_trace_def by (simp only: if_False option.inject)
next
  case True
  obtain s1 hit where 1: "record_and_query access query s = Some (s1, hit)"
    and 2: "(if hit then do { (s, suppressed) \<leftarrow> drd_is_suppressed s1 a (a + of_nat n);
         if \<not> suppressed then drd_report_race s a (of_nat n) t else Some s } else Some s1) = Some s'"
    using r True unfolding traced_def drd_trace_def by (simp only: if_True) (auto split: Option.bind_splits)
  obtain p cs where p: "thread_last s (unat (s_drd_running_tid s)) = Some p" "s_conflict_set s = Some cs"
    using 1 by (auto simp: record_and_query_def Let_def split: Option.bind_splits)
  have "segments (tinfo s (unat (s_drd_running_tid s))) \<noteq> []" using thread_last_listed(3) [OF p(1)] .
  then have "s_drd_running_tid s \<noteq> 0" using drd_invD(2) [OF s] by auto
  then have tid: "tid_ok (s_drd_running_tid s)" using drd_invD(7) [OF s] by (simp add: tid_ok_def)
  obtain s2 where "record_and_query access query s = Some (s2, \<exists>x. in_range a n x \<and> cs_conflict s t x)" "drd_inv s2"
    by (rule record_and_query_spec [OF s p(1) tid p(2) access query])
  then have inv1: "drd_inv s1" using 1 by simp
  obtain bm where "drd_is_suppressed s1 a (a + of_nat n)
      = Some (s1\<lparr>s_suppressed := bm\<rparr>, \<forall>x. in_range a n x \<longrightarrow> supp s1 eStore x)" "drd_inv (s1\<lparr>s_suppressed := bm\<rparr>)"
    by (rule is_suppressed_spec [OF inv1 a])
  then show ?thesis
    using 2 inv1 by (auto simp: drd_report_race_def thread_get_running_tid_def vg_assert_def
        split: if_splits Option.bind_splits)
qed

lemma trace_small_inv:
  assumes "drd_inv s" "unat a + 8 + 16384 < 2 ^ 64"
    and "drd_trace (\<lambda>s. record_and_query access query s) s a sz t = Some s'" "n \<le> 8" "sz = of_nat n"
    and "\<And>h bm others. winv h (bm # others) \<Longrightarrow> records access t a n h bm others"
    and "\<And>h bm others. winv h (bm # others) \<Longrightarrow> detects query t a n h bm others"
  shows "drd_inv s'"
  by (rule trace_inv [OF assms(1) _ assms(6,7)]) (use assms(2-5) in auto)

lemma trace_handlers_inv:
  assumes s: "drd_inv s" and a: "unat a + 8 + 16384 < 2 ^ 64"
  shows "drd_trace_load_1 s a = Some s' \<Longrightarrow> drd_inv s'" "drd_trace_load_2 s a = Some s' \<Longrightarrow> drd_inv s'"
    "drd_trace_load_4 s a = Some s' \<Longrightarrow> drd_inv s'" "drd_trace_load_8 s a = Some s' \<Longrightarrow> drd_inv s'"
    "drd_trace_store_1 s a = Some s' \<Longrightarrow> drd_inv s'" "drd_trace_store_2 s a = Some s' \<Longrightarrow> drd_inv s'"
    "drd_trace_store_4 s a = Some s' \<Longrightarrow> drd_inv s'" "drd_trace_store_8 s a = Some s' \<Longrightarrow> drd_inv s'"
  unfolding drd_trace_load_1_def drd_trace_load_2_def drd_trace_load_4_def drd_trace_load_8_def
    drd_trace_store_1_def drd_trace_store_2_def drd_trace_store_4_def drd_trace_store_8_def triggers_conflict_eq
  subgoal by (erule trace_small_inv [where n = 1, OF s a]; (rule records_sizes(1) detects_sizes(1))?; use a in simp)
  subgoal by (erule trace_small_inv [where n = 2, OF s a]; (rule records_sizes(2) detects_sizes(2))?; use a in simp)
  subgoal by (erule trace_small_inv [where n = 4, OF s a]; (rule records_sizes(3) detects_sizes(3))?; use a in simp)
  subgoal by (erule trace_small_inv [where n = 8, OF s a]; (rule records_sizes(4) detects_sizes(4))?; use a in simp)
  subgoal by (erule trace_small_inv [where n = 1, OF s a]; (rule records_sizes(1) detects_sizes(5))?; use a in simp)
  subgoal by (erule trace_small_inv [where n = 2, OF s a]; (rule records_sizes(2) detects_sizes(6))?; use a in simp)
  subgoal by (erule trace_small_inv [where n = 4, OF s a]; (rule records_sizes(3) detects_sizes(7))?; use a in simp)
  subgoal by (erule trace_small_inv [where n = 8, OF s a]; (rule records_sizes(4) detects_sizes(8))?; use a in simp)
  done

lemma trace_range_inv:
  assumes s: "drd_inv s" and n: "0 < n" "unat a + n + 16384 < 2 ^ 64"
    and r: "drd_trace_load s a (of_nat n) = Some s' \<or> drd_trace_store s a (of_nat n) = Some s'"
  shows "drd_inv s'"
  using r trace_inv [OF s n(2) records_range [OF _ n(2,1)] detects_range [OF _ n(2)], of eLoad]
    trace_inv [OF s n(2) records_range [OF _ n(2,1)] detects_range [OF _ n(2)], of eStore]
  by (auto simp: drd_trace_load_def drd_trace_store_def bm_access_triggers_conflict_def)

lemma stop_using_inv:
  assumes s: "drd_inv s" and a: "a1 \<noteq> 0" "a1 < a2" "no_wrap a2" and r: "thread_stop_using_mem s a1 a2 = Some s'"
  shows "drd_inv s'"
proof -
  obtain s1 ou where 1: "stop_using_threads a1 a2 (s, 0) [0..<DRD_N_THREADS] = Some (s1, ou)"
    "wipes a1 a2 (segments_of s [0..<DRD_N_THREADS]) s s1"
    using stop_using_threads_spec [OF s a, of "[0..<DRD_N_THREADS]" 0] by auto
  have inv1: "drd_inv s1" using 1(2) by (simp add: wipes_def)
  show ?thesis
  proof (cases "ou = 0")
    case True
    then show ?thesis using r 1(1) inv1 by (simp add: thread_stop_using_mem_def)
  next
    case False
    then obtain cs where cs: "s_conflict_set s1 = Some cs"
      using r 1(1) by (auto simp: thread_stop_using_mem_def split: Option.bind_splits)
    have le: "a1 \<le> a2" using a(2) by simp
    obtain cs' where c: "bm_has_any_access (bheap s1) cs a1 a2
        = Some (cs', \<exists>x. a1 \<le> x \<and> x < a2 \<and> (acc (bheap s1) cs eLoad x \<or> acc (bheap s1) cs eStore x))"
      "queried (bheap s1) cs (s_suppressed s1 # live_bms s1) cs'"
      by (rule bm_has_any_access_spec [OF winv_conflict_set [OF inv1 cs] le a(3)])
    have "drd_inv (s1\<lparr>bheap := bheap s1, s_conflict_set := Some cs'\<rparr>)"
      by (rule drd_inv_conflict_set [OF inv1]) (use c(2) in \<open>simp add: queried_def\<close>)
    then have inv2: "drd_inv (s1\<lparr>s_conflict_set := Some cs'\<rparr>)" by simp
    show ?thesis
      using r 1(1) False cs c(1) inv2 compute_conflict_set_inv(1) [OF inv2]
      by (auto simp: thread_stop_using_mem_def Let_def split: if_splits Option.bind_splits)
  qed
qed

text \<open>A query that returns changes nothing but the cache, also on a range up to the top of the address
  space.\<close>

lemma bm_range_loop_keeps:
  assumes step: "\<And>b e s s' r. I s \<Longrightarrow> body b e s = Some (s', r) \<Longrightarrow> I s'"
    and s: "I s" and y: "bm_range_loop body a2 b s = Some y"
  shows "I (fst y)"
proof -
  have "body = body \<longrightarrow> I s \<longrightarrow> I (fst y)"
  proof (rule bm_range_loop.raw_induct [OF _ y, of "\<lambda>body' a2 b s y. body' = body \<longrightarrow> I s \<longrightarrow> I (fst y)"], intro impI)
    fix f body' a2' and c :: Addr and s y
    assume IH: "\<And>body' a2' c s y. f body' a2' c s = Some y \<Longrightarrow> body' = body \<longrightarrow> I s \<longrightarrow> I (fst y)"
      and f: "(if c < a2' then let next = (c AND NOT ADDR0_MASK) + ADDR0_COUNT;
            b_next = (if next > a2' then a2' else next)
          in body' c b_next s \<bind> (\<lambda>(s, r). case r of None \<Rightarrow> f body' a2' b_next s | Some res \<Rightarrow> Some (s, Some res))
        else Some (s, None)) = Some y"
      and eq: "body' = body" and I: "I s"
    show "I (fst y)"
    proof (cases "c < a2'")
      case False
      then show ?thesis using f I by auto
    next
      case True
      then obtain e s' r where r: "body c e s = Some (s', r)"
        "(case r of None \<Rightarrow> f body a2' e s' | Some res \<Rightarrow> Some (s', Some res)) = Some y"
        using f unfolding eq Let_def by (auto split: Option.bind_splits)
      have "I s'" by (rule step [OF I r(1)])
      then show ?thesis using r(2) IH by (cases r) auto
    qed
  qed
  with s show ?thesis by simp
qed

lemma bm_has_any_keeps:
  assumes w: "winv h (bm # others)" and r: "bm_has_any chk test h bm a1 a2 = Some (bm', x)"
  shows "winv h (bm' # others)"
proof -
  obtain y where y: "bm_range_loop (bm_any_part chk test h a1 a2) a2 a1 bm = Some y" "bm' = fst y"
    using r by (auto simp: bm_has_any_def split: Option.bind_splits)
  have "winv h (fst y # others)"
  proof (rule bm_range_loop_keeps [where I = "\<lambda>bm. winv h (bm # others)", OF _ w y(1)])
    fix b e bm1 bm2 r assume w1: "winv h (bm1 # others)" and p: "bm_any_part chk test h a1 a2 b e bm1 = Some (bm2, r)"
    obtain bm3 where "bm2_lookup bm1 (drop_bit 14 b) = (bm3, OSetGen_Lookup (oset bm1) (drop_bit 14 b))"
      "winv h (bm3 # others)" by (rule bm2_lookup_spec [OF w1 is_page_drop])
    then show "winv h (bm2 # others)"
      using p by (auto simp: bm_any_part_def Let_def vg_assert_def split: option.splits Option.bind_splits if_splits)
  qed
  then show ?thesis by (simp add: y(2))
qed

lemma suppression_inv:
  assumes s: "drd_inv s"
  shows "a1 < a2 \<Longrightarrow> no_wrap a2 \<Longrightarrow> drd_start_suppression s a1 a2 = Some s' \<Longrightarrow> drd_inv s'"
    "drd_finish_suppression s a1 a2 = Some s' \<Longrightarrow> drd_inv s'"
    "no_wrap a2 \<Longrightarrow> drd_suppression_stop_using_mem s a1 a2 = Some s' \<Longrightarrow> drd_inv s'"
proof -
  show "drd_inv s'" if "a1 < a2" "no_wrap a2" "drd_start_suppression s a1 a2 = Some s'"
    using start_suppression_spec [OF s that(1,2)] that(3) by (metis option.inject)
  show "drd_inv s'" if f: "drd_finish_suppression s a1 a2 = Some s'"
  proof -
    have "a1 < a2" using f by (auto simp: drd_finish_suppression_def vg_assert_def split: if_splits)
    from finish_suppression_spec [OF s this] f show ?thesis by (metis option.distinct(1) option.inject)
  qed
  show "drd_inv s'" if nw: "no_wrap a2" and f: "drd_suppression_stop_using_mem s a1 a2 = Some s'"
  proof -
    have a: "a1 \<noteq> 0" "a1 \<le> a2"
      using f by (auto simp: drd_suppression_stop_using_mem_def vg_assert_def split: if_splits)
    obtain h bm where h: "bm_clear (bheap s) (s_suppressed s) a1 a2 = Some (h, bm)"
      "erased (bheap s) (s_suppressed s) (cs_bms s @ live_bms s) (\<lambda>t a. a1 < a2 \<and> UWORD_MSB a1 \<le> a \<and> a < a2) h bm"
      by (rule bm_clear_spec [OF winv_suppressed [OF s] a nw])
    have "drd_inv (s\<lparr>bheap := h, s_suppressed := bm\<rparr>)"
      by (rule drd_inv_suppressed [OF s]) (use h(2) in \<open>simp add: erased_def\<close>)
    moreover have "s' = s\<lparr>bheap := h, s_suppressed := bm\<rparr>"
      using f h(1) by (auto simp: drd_suppression_stop_using_mem_def vg_assert_def split: if_splits)
    ultimately show ?thesis by simp
  qed
qed

lemma tracing_inv:
  assumes s: "drd_inv s"
  shows "a1 < a2 \<Longrightarrow> no_wrap a2 \<Longrightarrow> drd_start_tracing_address_range s a1 a2 = Some s' \<Longrightarrow> drd_inv s'"
    "drd_stop_tracing_address_range s a1 a2 = Some s' \<Longrightarrow> drd_inv s'"
proof -
  show "drd_inv s'" if a: "a1 < a2" "no_wrap a2" and r: "drd_start_tracing_address_range s a1 a2 = Some s'"
  proof -
    obtain h bm where h: "bm_access_range (bheap s) (s_suppressed s) a1 a2 eLoad = Some (h, bm)"
      "recorded (bheap s) (s_suppressed s) (cs_bms s @ live_bms s) eLoad (\<lambda>a. a1 \<le> a \<and> a < a2) h bm"
      by (rule bm_access_range_spec [OF winv_suppressed [OF s] a])
    have "drd_inv (s\<lparr>bheap := h, s_suppressed := bm\<rparr>)"
      by (rule drd_inv_suppressed [OF s]) (use h(2) in \<open>simp add: recorded_def\<close>)
    moreover have "s' = s\<lparr>bheap := h, s_suppressed := bm, g_any_address_traced := True\<rparr>"
      using r h(1) a(1) by (auto simp: drd_start_tracing_address_range_def vg_assert_def)
    ultimately show ?thesis by simp
  qed
  show "drd_inv s'" if r: "drd_stop_tracing_address_range s a1 a2 = Some s'"
  proof -
    have "a1 < a2" using r by (auto simp: drd_stop_tracing_address_range_def vg_assert_def split: if_splits)
    then have le: "a1 \<le> a2" by simp
    obtain h bm where h: "bm_clear_access eLoad (bheap s) (s_suppressed s) a1 a2 = Some (h, bm)"
      "erased (bheap s) (s_suppressed s) (cs_bms s @ live_bms s) (\<lambda>t' x. same_kind eLoad t' \<and> a1 \<le> x \<and> x < a2) h bm"
      using bm_clear_access_spec [OF winv_suppressed [OF s] le] by blast
    have w: "winv h (bm # cs_bms s @ live_bms s)" using h(2) by (simp add: erased_def)
    show ?thesis
    proof (cases "g_any_address_traced s")
      case False
      then have "s' = s\<lparr>bheap := h, s_suppressed := bm\<rparr>"
        using r h(1) \<open>a1 < a2\<close> by (auto simp: drd_stop_tracing_address_range_def vg_assert_def bm_clear_load_def)
      then show ?thesis using drd_inv_suppressed [OF s w] by simp
    next
      case True
      then obtain bm' x where b: "bm_has_any_load h bm 0 (NOT 0) = Some (bm', x)"
        "s' = s\<lparr>bheap := h, s_suppressed := bm', g_any_address_traced := x\<rparr>"
        using r h(1) \<open>a1 < a2\<close>
        by (auto simp: drd_stop_tracing_address_range_def vg_assert_def bm_clear_load_def split: Option.bind_splits)
      have "winv h (bm' # cs_bms s @ live_bms s)" using b(1) unfolding bm_has_any_load_def by (rule bm_has_any_keeps [OF w])
      from drd_inv_suppressed [OF s this] show ?thesis by (simp add: b(2))
    qed
  qed
qed

subsection \<open>Reachable states\<close>

text \<open>The state after start-up: no threads, no conflict set, nothing suppressed.\<close>

definition drd_init :: drd_state where
  "drd_init = \<lparr>bheap = empty_heap, sgs = [], s_threadinfo = replicate DRD_N_THREADS (test_thread [] 0),
     s_vg_running_tid = 0, s_drd_running_tid = 0, s_conflict_set = None, s_suppressed = bm_new,
     g_any_address_traced = False, s_segment_merging = True, s_drd_check_stack_accesses = False, races = []\<rparr>"

text \<open>One operation, on arguments the tool gives it: references are given back only by those who
  hold them, clocks come from the library, ranges end below the last 16384 bytes of the address space.\<close>

inductive drd_step :: "drd_state \<Rightarrow> drd_state \<Rightarrow> bool" where
  pre_create: "thread_pre_create s creator vg = Some (s', tid) \<Longrightarrow> drd_step s s'"
| post_create: "thread_post_create top sz s vg = Some (s', tid) \<Longrightarrow> drd_step s s'"
| delete: "thread_delete s tid = Some s' \<Longrightarrow> drd_step s s'"
| finished: "thread_finished s tid = Some s' \<Longrightarrow> drd_step s s'"
| pre_cancel: "thread_pre_cancel s tid = Some s' \<Longrightarrow> drd_step s s'"
| set_pthreadid: "thread_set_pthreadid s tid ptid = Some s' \<Longrightarrow> drd_step s s'"
| set_joinable: "thread_set_joinable s tid joinable = Some s' \<Longrightarrow> drd_step s s'"
| set_stack_startup: "thread_set_stack_startup s tid a = Some s' \<Longrightarrow> drd_step s s'"
| set_stack_min: "tid_ok tid \<Longrightarrow> drd_step s (thread_set_stack_min s tid a)"
| set_segment_merging: "drd_step s (thread_set_segment_merging m s)"
| check_stack_var: "drd_step s (s\<lparr>s_drd_check_stack_accesses := b\<rparr>)"
| set_vg_running: "thread_set_vg_running_tid s vg = Some s' \<Longrightarrow> drd_step s s'"
| enter_synchr: "thread_enter_synchr s tid = Some (s', n) \<Longrightarrow> drd_step s s'"
| leave_synchr: "thread_leave_synchr s tid = Some (s', n) \<Longrightarrow> drd_step s s'"
| start_recording: "thread_start_recording s tid = Some s' \<Longrightarrow> drd_step s s'"
| stop_recording: "thread_stop_recording s tid = Some s' \<Longrightarrow> drd_step s s'"
| new_segment: "thread_new_segment s tid = Some s' \<Longrightarrow> drd_step s s'"
| combine_vc: "thread_combine_vc s joiner joinee = Some s' \<Longrightarrow> drd_step s s'"
| combine_vc2: "thread_combine_vc2 s tid v = Some s' \<Longrightarrow> vc_inv v \<Longrightarrow> drd_step s s'"
| get_latest: "thread_get_latest_segment s sg tid = Some (s', p) \<Longrightarrow> (\<forall>p. sg = Some p \<longrightarrow> may_put s p) \<Longrightarrow> drd_step s s'"
| put: "sg_put s (Some p) = Some s' \<Longrightarrow> may_put s p \<Longrightarrow> drd_step s s'"
| stop_using_mem: "thread_stop_using_mem s a1 a2 = Some s' \<Longrightarrow> a1 \<noteq> 0 \<Longrightarrow> a1 < a2 \<Longrightarrow> no_wrap a2 \<Longrightarrow> drd_step s s'"
| start_suppression: "drd_start_suppression s a1 a2 = Some s' \<Longrightarrow> a1 < a2 \<Longrightarrow> no_wrap a2 \<Longrightarrow> drd_step s s'"
| finish_suppression: "drd_finish_suppression s a1 a2 = Some s' \<Longrightarrow> drd_step s s'"
| suppression_stop: "drd_suppression_stop_using_mem s a1 a2 = Some s' \<Longrightarrow> no_wrap a2 \<Longrightarrow> drd_step s s'"
| start_tracing: "drd_start_tracing_address_range s a1 a2 = Some s' \<Longrightarrow> a1 < a2 \<Longrightarrow> no_wrap a2 \<Longrightarrow> drd_step s s'"
| stop_tracing: "drd_stop_tracing_address_range s a1 a2 = Some s' \<Longrightarrow> drd_step s s'"
| trace_load_1: "drd_trace_load_1 s a = Some s' \<Longrightarrow> unat a + 8 + 16384 < 2 ^ 64 \<Longrightarrow> drd_step s s'"
| trace_load_2: "drd_trace_load_2 s a = Some s' \<Longrightarrow> unat a + 8 + 16384 < 2 ^ 64 \<Longrightarrow> drd_step s s'"
| trace_load_4: "drd_trace_load_4 s a = Some s' \<Longrightarrow> unat a + 8 + 16384 < 2 ^ 64 \<Longrightarrow> drd_step s s'"
| trace_load_8: "drd_trace_load_8 s a = Some s' \<Longrightarrow> unat a + 8 + 16384 < 2 ^ 64 \<Longrightarrow> drd_step s s'"
| trace_store_1: "drd_trace_store_1 s a = Some s' \<Longrightarrow> unat a + 8 + 16384 < 2 ^ 64 \<Longrightarrow> drd_step s s'"
| trace_store_2: "drd_trace_store_2 s a = Some s' \<Longrightarrow> unat a + 8 + 16384 < 2 ^ 64 \<Longrightarrow> drd_step s s'"
| trace_store_4: "drd_trace_store_4 s a = Some s' \<Longrightarrow> unat a + 8 + 16384 < 2 ^ 64 \<Longrightarrow> drd_step s s'"
| trace_store_8: "drd_trace_store_8 s a = Some s' \<Longrightarrow> unat a + 8 + 16384 < 2 ^ 64 \<Longrightarrow> drd_step s s'"
| trace_range: "drd_trace_load s a (of_nat n) = Some s' \<or> drd_trace_store s a (of_nat n) = Some s'
    \<Longrightarrow> 0 < n \<Longrightarrow> unat a + n + 16384 < 2 ^ 64 \<Longrightarrow> drd_step s s'"

inductive drd_reachable :: "drd_state \<Rightarrow> bool" where
  init: "drd_reachable drd_init"
| step: "drd_reachable s \<Longrightarrow> drd_step s s' \<Longrightarrow> drd_reachable s'"

lemma init_inv: "drd_inv drd_init"
proof -
  have "winv empty_heap [bm_new]" by (rule winv_new [OF winv_empty])
  moreover have "listed drd_init = []" by (simp add: listed_def drd_init_def test_thread_def)
  moreover have "all_bms drd_init = [bm_new]"
    by (simp add: all_bms_def cs_bms_def live_bms_def drd_init_def List.map_filter_def)
  moreover have "sg_deref drd_init p = None" for p by (simp add: sg_deref_def drd_init_def)
  ultimately show ?thesis
    by (simp add: drd_inv_def) (simp add: drd_init_def test_thread_def DRD_N_THREADS_def)
qed

lemmas thread_flag_defs = thread_post_create_def thread_pre_cancel_def thread_set_pthreadid_def
  thread_set_joinable_def thread_set_stack_startup_def thread_start_recording_def thread_stop_recording_def
  thread_enter_synchr_def thread_leave_synchr_def IsValidDrdThreadId_def

lemma flag_ops_inv:
  assumes s: "drd_inv s"
  shows "thread_post_create top sz s vg = Some (s', t) \<Longrightarrow> drd_inv s'" "thread_pre_cancel s tid = Some s' \<Longrightarrow> drd_inv s'"
    "thread_set_pthreadid s tid ptid = Some s' \<Longrightarrow> drd_inv s'" "thread_set_joinable s tid j = Some s' \<Longrightarrow> drd_inv s'"
    "thread_set_stack_startup s tid a = Some s' \<Longrightarrow> drd_inv s'" "thread_start_recording s tid = Some s' \<Longrightarrow> drd_inv s'"
    "thread_stop_recording s tid = Some s' \<Longrightarrow> drd_inv s'" "thread_enter_synchr s tid = Some (s', n) \<Longrightarrow> drd_inv s'"
    "thread_leave_synchr s tid = Some (s', n) \<Longrightarrow> drd_inv s'"
  using s by (auto simp: thread_flag_defs vg_assert_def Let_def intro!: flag_inv split: if_splits)

lemma set_stack_min_inv: "drd_inv s \<Longrightarrow> tid_ok tid \<Longrightarrow> drd_inv (thread_set_stack_min s tid a)"
  by (auto simp: thread_set_stack_min_def Let_def intro!: flag_inv)

lemma options_inv:
  assumes "drd_inv s"
  shows "drd_inv (thread_set_segment_merging m s)" "drd_inv (s\<lparr>s_drd_check_stack_accesses := b\<rparr>)"
proof -
  have "sg_deref (s\<lparr>s_segment_merging := m\<rparr>) p = sg_deref s p" "sg_deref (s\<lparr>s_drd_check_stack_accesses := b\<rparr>) p = sg_deref s p"
    for p by (simp_all add: sg_deref_def)
  then show "drd_inv (thread_set_segment_merging m s)" "drd_inv (s\<lparr>s_drd_check_stack_accesses := b\<rparr>)"
    using assms by (simp_all add: thread_set_segment_merging_def drd_inv_def all_bms_def cs_bms_def live_bms_def listed_def)
qed

lemma drd_step_inv: "drd_step s s' \<Longrightarrow> drd_inv s \<Longrightarrow> drd_inv s'"
  by (induction rule: drd_step.induct)
    (blast intro: pre_create_inv flag_ops_inv thread_delete_inv finished_inv set_stack_min_inv options_inv set_vg_running_inv
      new_segment_inv combine_vc_inv combine_vc2_inv get_latest_segment_inv sg_put_inv stop_using_inv
      suppression_inv tracing_inv trace_handlers_inv trace_range_inv)+

lemma first_thread: "\<exists>s. thread_pre_create drd_init 0 1 = Some (s, 1)"
proof -
  have ti: "tinfo drd_init i = test_thread [] 0" if "i < DRD_N_THREADS" for i
    using that by (simp add: drd_init_def)
  have vg: "VgThreadIdToDrdThreadId drd_init 1 = 0"
  proof -
    have "find_thread drd_init (\<lambda>ti. vg_thread_exists ti \<and> vg_threadid ti = 1) = None"
      by (auto simp: find_thread_def find_None_iff ti test_thread_def)
    then show ?thesis by (simp add: VgThreadIdToDrdThreadId_def)
  qed
  have "[1..<DRD_N_THREADS] = 1 # [Suc 1..<DRD_N_THREADS]" by (rule upt_conv_Cons) (simp add: DRD_N_THREADS_def)
  then have free: "find_thread drd_init (\<lambda>ti. \<not> vg_thread_exists ti \<and> \<not> posix_thread_exists ti \<and> \<not> detached_posix_thread ti)
      = Some 1"
    using ti [of 1] by (simp add: find_thread_def test_thread_def DRD_N_THREADS_def)
  have seg: "segments (tinfo drd_init 1) = []" using ti [of 1] by (simp add: test_thread_def DRD_N_THREADS_def)
  let ?f = "\<lambda>ti. ti\<lparr>vg_thread_exists := True, vg_threadid := 1, pt_threadid := 0, stack_min := 0,
      stack_min_min := 0, stack_startup := 0, stack_max := 0, is_recording := True, synchr_nesting := 0\<rparr>"
  have new: "VgThreadIdToNewDrdThreadId drd_init 1 = Some (ti_update 1 ?f drd_init, 1)"
    using vg free seg by (simp add: VgThreadIdToNewDrdThreadId_def vg_assert_def)
  have "clock \<lparr>capacity = 0, vsize = 0, vc = []\<rparr> 1 = None" by (simp add: live_def)
  then obtain v where "vc_increment \<lparr>capacity = 0, vsize = 0, vc = []\<rparr> 1 = Some v"
    using vc_increment_absent [OF vc_empty_inv, of 1] by auto
  then have sg: "\<exists>s p. sg_new (ti_update 1 ?f drd_init) 0 1 = Some (s, p)"
    by (simp add: sg_new_def sg_init_def vc_init_empty vg_assert_def)
  have l: "1 < length (s_threadinfo drd_init)" by (simp add: drd_init_def DRD_N_THREADS_def)
  show ?thesis
    using vg new sg seg test_running(1) l
    by (auto simp: thread_pre_create_def vg_assert_def thread_append_segment_def)
qed

text \<open>C16. In every state that the operations of DRD's threads can reach, every listed segment is
  alive and in one list, every clock is well-formed, and all bitmaps together are consistent: each cache
  agrees with its set, and every second level bitmap is counted once for each bitmap that refers to it,
  among the segments, the conflict set and the suppressed ranges.\<close>

theorem drd_reachable_inv:
  assumes "drd_reachable s"
  shows "drd_inv s"
  using assms by (induction rule: drd_reachable.induct) (blast intro: init_inv drd_step_inv)+

theorem drd_reachable_inv_witness:
  "\<exists>s. thread_pre_create drd_init 0 1 = Some (s, 1) \<and> drd_inv s"
proof -
  obtain s where s: "thread_pre_create drd_init 0 1 = Some (s, 1)" using first_thread by blast
  have "drd_reachable s" by (rule drd_reachable.step [OF drd_reachable.init drd_step.pre_create [OF s]])
  from drd_reachable_inv [OF this] s show ?thesis by blast
qed

end
