(* ===== verification/AspaceMgr.thy ===== *)
theory AspaceMgr
  imports VG_Prelude
begin

text \<open>
  The address space manager for Linux, \<^verbatim>\<open>coregrind/m_aspacemgr/aspacemgr-linux.c\<close>: the segment
  array and its queries, splitting, merging and replacing of segments and the table of file names.
  The operations that use them are in \<open>AspaceOps\<close>.
  \<^item> The array \<^verbatim>\<open>nsegments[0 .. nsegments_used-1]\<close> is a list, likewise the table of names; sliding
    segments up or down to open or close a hole is \<open>take\<close> and \<open>drop\<close>. A pointer into the array is
    \<open>None\<close> for NULL or \<open>Some\<close> index.
  \<^item> A failing assertion, \<^verbatim>\<open>ML_(am_barf)\<close> and \<^verbatim>\<open>ML_(am_barf_toolow)\<close> are the result \<open>None\<close>.
  \<^item> The kernel is the parameter \<open>am_kernel\<close> (the results of the system calls); the calls made are
    logged in the state, the latest first.
  \<^item> The build is the 64-bit one without \<^verbatim>\<open>ENABLE_INNER\<close>, at a sanity level below 3, so
    \<^verbatim>\<open>AM_SANITY_CHECK\<close> does nothing. Debug output is left out.
\<close>

subsection \<open>Data\<close>

type_synonym ULong = "64 word"
type_synonym Off64T = "64 word"

datatype SegKind = SkFree | SkAnonC | SkAnonV | SkFileC | SkFileV | SkShmC | SkResvn

datatype ShrinkMode = SmLower | SmFixed | SmUpper

record NSegment =
  kind :: SegKind
  start :: Addr
  end' :: Addr
  smode :: ShrinkMode
  dev :: ULong
  ino :: ULong
  offset :: ULong
  mode :: UInt
  fnIdx :: int
  hasR :: bool
  hasW :: bool
  hasX :: bool
  hasT :: bool
  isCH :: bool
  mark :: bool

record SegName =
  inUse :: bool
  sn_mark :: bool
  fname :: string

datatype am_syscall =
    Sys_mmap Addr SizeT UInt UInt
  | Sys_munmap Addr SizeT
  | Sys_mremap Addr SizeT SizeT UInt Addr

record am_state =
  nsegments :: "NSegment list"
  segnames :: "SegName list"
  aspacem_minAddr :: Addr
  aspacem_maxAddr :: Addr
  aspacem_cStart :: Addr
  aspacem_vStart :: Addr
  syscalls :: "am_syscall list"

definition VG_N_SEGMENTS :: nat where "VG_N_SEGMENTS = 5000"
definition VG_N_SEGNAMES :: nat where "VG_N_SEGNAMES = 1000"
definition VG_MAX_SEGNAMELEN :: nat where "VG_MAX_SEGNAMELEN = 1000"

abbreviation (input) Addr_MIN :: Addr where "Addr_MIN \<equiv> 0"
abbreviation (input) Addr_MAX :: Addr where "Addr_MAX \<equiv> - 1"
abbreviation (input) VKI_PAGE_SIZE :: "64 word" where "VKI_PAGE_SIZE \<equiv> 4096"

definition VG_IS_PAGE_ALIGNED :: "64 word \<Rightarrow> bool" where
  "VG_IS_PAGE_ALIGNED a \<longleftrightarrow> a AND (VKI_PAGE_SIZE - 1) = 0"

definition VG_PGROUNDUP :: "64 word \<Rightarrow> 64 word" where
  "VG_PGROUNDUP p = (p + VKI_PAGE_SIZE - 1) AND NOT (VKI_PAGE_SIZE - 1)"

abbreviation (input) VKI_PROT_NONE :: UInt where "VKI_PROT_NONE \<equiv> 0"
abbreviation (input) VKI_PROT_READ :: UInt where "VKI_PROT_READ \<equiv> 1"
abbreviation (input) VKI_PROT_WRITE :: UInt where "VKI_PROT_WRITE \<equiv> 2"
abbreviation (input) VKI_PROT_EXEC :: UInt where "VKI_PROT_EXEC \<equiv> 4"
abbreviation (input) VKI_MAP_PRIVATE :: UInt where "VKI_MAP_PRIVATE \<equiv> 0x02"
abbreviation (input) VKI_MAP_FIXED :: UInt where "VKI_MAP_FIXED \<equiv> 0x10"
abbreviation (input) VKI_MAP_ANONYMOUS :: UInt where "VKI_MAP_ANONYMOUS \<equiv> 0x20"

subsection \<open>The table of file names\<close>

text \<open>The index of the first element that satisfies a condition, or the length of the list: the
  loops \<^verbatim>\<open>for (i = 0; i < n; i++) if (...) break;\<close>.\<close>

definition first_idx :: "('a \<Rightarrow> bool) \<Rightarrow> 'a list \<Rightarrow> nat" where
  "first_idx P xs = length (takeWhile (\<lambda>x. \<not> P x) xs)"

definition allocate_segname :: "string \<Rightarrow> am_state \<Rightarrow> (int \<times> am_state) option" where
  "allocate_segname name st =
     (let len = length name; sn = segnames st in
      if len \<ge> VG_MAX_SEGNAMELEN - 1 then Some (-1, st)
      else let i = first_idx (\<lambda>x. inUse x \<and> fname x = name) sn in
        if i < length sn then Some (int i, st)
        else let i = first_idx (\<lambda>x. \<not> inUse x) sn in
          if i = length sn then
            (if length sn + 1 < VG_N_SEGNAMES then
               Some (int i, st\<lparr>segnames := sn @ [\<lparr>inUse = True, sn_mark = False, fname = name\<rparr>]\<rparr>)
             else None)
          else Some (int i, st\<lparr>segnames := sn[i := (sn ! i)\<lparr>inUse := True, fname := name\<rparr>]\<rparr>))"

subsection \<open>Sanity checking and preening\<close>

definition am_get_segment_starts :: "int \<Rightarrow> am_state \<Rightarrow> (int \<times> Addr list) option" where
  "am_get_segment_starts nStarts st = do {
     vg_assert (nStarts \<ge> 0);
     let segs = filter (\<lambda>s. \<not> (kind s = SkFree \<or> kind s = SkResvn)) (nsegments st);
     let nSegs = int (length segs);
     if nSegs > nStarts then Some (- nSegs, []) else Some (nSegs, map start segs) }"

definition sane_NSegment :: "SegName list \<Rightarrow> NSegment \<Rightarrow> bool" where
  "sane_NSegment sn s \<longleftrightarrow>
     \<not> start s \<ge> end' s \<and> \<not> mark s \<and> VG_IS_PAGE_ALIGNED (start s) \<and> VG_IS_PAGE_ALIGNED (end' s + 1) \<and>
     (case kind s of
        SkFree \<Rightarrow> smode s = SmFixed \<and> dev s = 0 \<and> ino s = 0 \<and> offset s = 0 \<and> fnIdx s = -1 \<and>
          \<not> hasR s \<and> \<not> hasW s \<and> \<not> hasX s \<and> \<not> hasT s \<and> \<not> isCH s
      | SkFileC \<Rightarrow> smode s = SmFixed \<and>
          (fnIdx s = -1 \<or> (fnIdx s \<ge> 0 \<and> fnIdx s < int (length sn) \<and> inUse (sn ! nat (fnIdx s)))) \<and> \<not> isCH s
      | SkFileV \<Rightarrow> smode s = SmFixed \<and>
          (fnIdx s = -1 \<or> (fnIdx s \<ge> 0 \<and> fnIdx s < int (length sn) \<and> inUse (sn ! nat (fnIdx s)))) \<and> \<not> isCH s
      | SkResvn \<Rightarrow> dev s = 0 \<and> ino s = 0 \<and> offset s = 0 \<and> fnIdx s = -1 \<and>
          \<not> hasR s \<and> \<not> hasW s \<and> \<not> hasX s \<and> \<not> hasT s \<and> \<not> isCH s
      | _ \<Rightarrow> smode s = SmFixed \<and> dev s = 0 \<and> ino s = 0 \<and> offset s = 0 \<and> fnIdx s = -1 \<and>
          (kind s = SkAnonC \<or> \<not> isCH s))"

definition maybe_merge_nsegments :: "NSegment \<Rightarrow> NSegment \<Rightarrow> NSegment option" where
  "maybe_merge_nsegments s1 s2 =
     (if kind s1 \<noteq> kind s2 then None
      else if end' s1 + 1 \<noteq> start s2 then None
      else if start s1 > end' s2 then None
      else case kind s1 of
        SkFree \<Rightarrow> Some (s1\<lparr>end' := end' s2\<rparr>)
      | SkShmC \<Rightarrow> None
      | SkResvn \<Rightarrow>
          if smode s1 = SmFixed \<and> smode s2 = SmFixed then Some (s1\<lparr>end' := end' s2\<rparr>) else None
      | k \<Rightarrow>
        if k = SkAnonC \<or> k = SkAnonV then
          (if hasR s1 = hasR s2 \<and> hasW s1 = hasW s2 \<and> hasX s1 = hasX s2 \<and> isCH s1 = isCH s2
           then Some (s1\<lparr>end' := end' s2, hasT := hasT s1 \<or> hasT s2\<rparr>) else None)
        else
          (if hasR s1 = hasR s2 \<and> hasW s1 = hasW s2 \<and> hasX s1 = hasX s2 \<and>
              dev s1 = dev s2 \<and> ino s1 = ino s2 \<and> offset s2 = offset s1 + start s2 - start s1
           then Some (s1\<lparr>end' := end' s2, hasT := hasT s1 \<or> hasT s2\<rparr>) else None))"

text \<open>The three passes of \<^verbatim>\<open>preen_nsegments\<close>.\<close>

fun preen_check :: "SegName list \<Rightarrow> NSegment \<Rightarrow> NSegment list \<Rightarrow> bool" where
  "preen_check sn prev [] = True"
| "preen_check sn prev (s # ss) =
     (sane_NSegment sn s \<and> end' prev + 1 = start s \<and> preen_check sn s ss)"

fun merge_pass :: "NSegment \<Rightarrow> NSegment list \<Rightarrow> NSegment list" where
  "merge_pass w [] = [w]"
| "merge_pass w (r # rs) =
     (case maybe_merge_nsegments w r of Some w' \<Rightarrow> merge_pass w' rs | None \<Rightarrow> w # merge_pass r rs)"

fun mark_pass :: "NSegment list \<Rightarrow> SegName list \<Rightarrow> SegName list option" where
  "mark_pass [] sn = Some sn"
| "mark_pass (s # ss) sn = do {
     let j = fnIdx s;
     vg_assert (j \<ge> -1 \<and> j < int (length sn));
     if j \<ge> 0 then do {
       vg_assert (inUse (sn ! nat j));
       mark_pass ss (sn[nat j := (sn ! nat j)\<lparr>sn_mark := True\<rparr>]) }
     else mark_pass ss sn }"

definition release_pass :: "SegName list \<Rightarrow> SegName list" where
  "release_pass sn = map (\<lambda>n. if sn_mark n = False then n\<lparr>inUse := False, fname := []\<rparr> else n) sn"

definition preen_nsegments :: "am_state \<Rightarrow> (bool \<times> am_state) option" where
  "preen_nsegments st = do {
     let segs = nsegments st;
     let sn = segnames st;
     vg_assert (length segs > 0);
     vg_assert (start (segs ! 0) = Addr_MIN);
     vg_assert (end' (segs ! (length segs - 1)) = Addr_MAX);
     vg_assert (sane_NSegment sn (segs ! 0));
     vg_assert (preen_check sn (segs ! 0) (tl segs));
     let segs' = merge_pass (hd segs) (tl segs);
     vg_assert (length segs' > 0 \<and> length segs' \<le> length segs);
     sn' \<leftarrow> mark_pass segs' (map (\<lambda>n. n\<lparr>sn_mark := False\<rparr>) sn);
     Some (length segs' \<noteq> length segs, st\<lparr>nsegments := segs', segnames := release_pass sn'\<rparr>) }"

subsection \<open>Access to the segment array\<close>

function find_nsegment_loop :: "NSegment list \<Rightarrow> Addr \<Rightarrow> int \<Rightarrow> int \<Rightarrow> nat option" where
  "find_nsegment_loop segs a lo hi =
     (if lo > hi then None
      else let mid = (lo + hi) div 2;
               a_mid_lo = start (segs ! nat mid);
               a_mid_hi = end' (segs ! nat mid) in
        if a < a_mid_lo then find_nsegment_loop segs a lo (mid - 1)
        else if a > a_mid_hi then find_nsegment_loop segs a (mid + 1) hi
        else if 0 \<le> mid \<and> mid < int (length segs) then Some (nat mid) else None)"
  by pat_completeness auto
termination by (relation "measure (\<lambda>(segs, a, lo, hi). nat (hi - lo + 1))") auto

declare find_nsegment_loop.simps [simp del]

definition find_nsegment_idx :: "Addr \<Rightarrow> am_state \<Rightarrow> nat option" where
  "find_nsegment_idx a st =
     find_nsegment_loop (nsegments st) a 0 (int (length (nsegments st)) - 1)"

definition am_find_nsegment :: "Addr \<Rightarrow> am_state \<Rightarrow> nat option option" where
  "am_find_nsegment a st = do {
     i \<leftarrow> find_nsegment_idx a st;
     let segs = nsegments st;
     vg_assert (i < length segs);
     vg_assert (start (segs ! i) \<le> a);
     vg_assert (a \<le> end' (segs ! i));
     if kind (segs ! i) = SkFree then Some None else Some (Some i) }"

definition segAddr_to_index :: "nat option \<Rightarrow> am_state \<Rightarrow> int" where
  "segAddr_to_index seg st =
     (case seg of None \<Rightarrow> -1 | Some i \<Rightarrow> if i < length (nsegments st) then int i else -1)"

definition am_next_nsegment :: "nat option \<Rightarrow> bool \<Rightarrow> am_state \<Rightarrow> nat option" where
  "am_next_nsegment here fwds st =
     (let i = segAddr_to_index here st; n = int (length (nsegments st)) in
      if i < 0 \<or> i \<ge> n then None
      else let i = (if fwds then i + 1 else i - 1) in
        if (if fwds then i \<ge> n else i < 0) then None
        else if kind (nsegments st ! nat i) \<in> {SkFileC, SkFileV, SkShmC, SkAnonC, SkAnonV, SkResvn}
          then Some (nat i) else None)"

definition am_get_anonsize_total :: "am_state \<Rightarrow> ULong" where
  "am_get_anonsize_total st =
     fold (\<lambda>s total. if kind s = SkAnonC \<or> kind s = SkAnonV then total + (end' s - start s + 1)
                     else total) (nsegments st) 0"

text \<open>The segments \<^verbatim>\<open>nsegments[iLo .. iHi]\<close>.\<close>

definition seg_range :: "NSegment list \<Rightarrow> nat \<Rightarrow> nat \<Rightarrow> NSegment list" where
  "seg_range segs iLo iHi = take (Suc iHi - iLo) (drop iLo segs)"

definition is_valid_for_client :: "Addr \<Rightarrow> SizeT \<Rightarrow> UInt \<Rightarrow> bool \<Rightarrow> am_state \<Rightarrow> bool option" where
  "is_valid_for_client st0 len prot freeOk st =
     (if len = 0 then Some True
      else if st0 + len < st0 then Some False
      else let needR = prot AND VKI_PROT_READ \<noteq> 0;
               needW = prot AND VKI_PROT_WRITE \<noteq> 0;
               needX = prot AND VKI_PROT_EXEC \<noteq> 0;
               segs = nsegments st in do {
        iLo \<leftarrow> find_nsegment_idx st0 st;
        vg_assert (st0 \<ge> start (segs ! iLo));
        iHi \<leftarrow> (if st0 + len - 1 \<le> end' (segs ! iLo) then Some iLo
                else find_nsegment_idx (st0 + len - 1) st);
        Some (list_all (\<lambda>s.
            (kind s = SkFileC \<or> kind s = SkAnonC \<or> kind s = SkShmC \<or>
             (kind s = SkFree \<and> freeOk) \<or> (kind s = SkResvn \<and> freeOk)) \<and>
            (if needR then hasR s else True) \<and>
            (if needW then hasW s else True) \<and>
            (if needX then hasX s else True)) (seg_range segs iLo iHi)) })"

definition am_is_valid_for_client :: "Addr \<Rightarrow> SizeT \<Rightarrow> UInt \<Rightarrow> am_state \<Rightarrow> bool option" where
  "am_is_valid_for_client a len prot st = is_valid_for_client a len prot False st"

definition am_is_valid_for_client_or_free_or_resvn ::
    "Addr \<Rightarrow> SizeT \<Rightarrow> UInt \<Rightarrow> am_state \<Rightarrow> bool option" where
  "am_is_valid_for_client_or_free_or_resvn a len prot st = is_valid_for_client a len prot True st"

definition is_valid_for_valgrind :: "Addr \<Rightarrow> SizeT \<Rightarrow> am_state \<Rightarrow> bool option" where
  "is_valid_for_valgrind st0 len st =
     (if len = 0 then Some True
      else if st0 + len < st0 then Some False
      else do {
        iLo \<leftarrow> find_nsegment_idx st0 st;
        iHi \<leftarrow> find_nsegment_idx (st0 + len - 1) st;
        Some (list_all (\<lambda>s. kind s = SkFileV \<or> kind s = SkAnonV) (seg_range (nsegments st) iLo iHi)) })"

definition any_Ts_in_range :: "Addr \<Rightarrow> SizeT \<Rightarrow> am_state \<Rightarrow> bool option" where
  "any_Ts_in_range st0 len st = do {
     vg_assert (len > 0);
     vg_assert (st0 + len > st0);
     iLo \<leftarrow> find_nsegment_idx st0 st;
     iHi \<leftarrow> find_nsegment_idx (st0 + len - 1) st;
     Some (list_ex hasT (seg_range (nsegments st) iLo iHi)) }"

subsection \<open>Modifying the segment array, and constructing segments\<close>

definition split_nsegment_at :: "Addr \<Rightarrow> am_state \<Rightarrow> am_state option" where
  "split_nsegment_at a st = do {
     vg_assert (a > 0);
     vg_assert (VG_IS_PAGE_ALIGNED a);
     i \<leftarrow> find_nsegment_idx a st;
     let segs = nsegments st;
     vg_assert (i < length segs);
     if start (segs ! i) = a then Some st
     else do {
       vg_assert (\<not> length segs \<ge> VG_N_SEGMENTS);
       let lo = (segs ! i)\<lparr>end' := a - 1\<rparr>;
       let hi = (segs ! i)\<lparr>start := a\<rparr>;
       let hi = (if kind lo = SkFileV \<or> kind lo = SkFileC
                 then hi\<lparr>offset := offset hi + (start hi - start lo)\<rparr> else hi);
       vg_assert (sane_NSegment (segnames st) lo);
       vg_assert (sane_NSegment (segnames st) hi);
       Some (st\<lparr>nsegments := take i segs @ [lo, hi] @ drop (Suc i) segs\<rparr>) } }"

definition split_nsegments_lo_and_hi ::
    "Addr \<Rightarrow> Addr \<Rightarrow> am_state \<Rightarrow> ((nat \<times> nat) \<times> am_state) option" where
  "split_nsegments_lo_and_hi sLo sHi st = do {
     vg_assert (sLo < sHi);
     vg_assert (VG_IS_PAGE_ALIGNED sLo);
     vg_assert (VG_IS_PAGE_ALIGNED (sHi + 1));
     st \<leftarrow> (if sLo > 0 then split_nsegment_at sLo st else Some st);
     st \<leftarrow> (if sHi < sHi + 1 then split_nsegment_at (sHi + 1) st else Some st);
     iLo \<leftarrow> find_nsegment_idx sLo st;
     iHi \<leftarrow> find_nsegment_idx sHi st;
     vg_assert (iLo < length (nsegments st));
     vg_assert (iHi < length (nsegments st));
     vg_assert (iLo \<le> iHi);
     vg_assert (start (nsegments st ! iLo) = sLo);
     vg_assert (end' (nsegments st ! iHi) = sHi);
     Some ((iLo, iHi), st) }"

definition add_segment :: "NSegment \<Rightarrow> am_state \<Rightarrow> am_state option" where
  "add_segment seg st = do {
     let sStart = start seg;
     let sEnd = end' seg;
     vg_assert (sStart \<le> sEnd);
     vg_assert (VG_IS_PAGE_ALIGNED sStart);
     vg_assert (VG_IS_PAGE_ALIGNED (sEnd + 1));
     vg_assert (sane_NSegment (segnames st) seg);
     ((iLo, iHi), st) \<leftarrow> split_nsegments_lo_and_hi sStart sEnd st;
     let segs = nsegments st;
     (_, st) \<leftarrow> preen_nsegments (st\<lparr>nsegments := take iLo segs @ [seg] @ drop (Suc iHi) segs\<rparr>);
     Some st }"

definition init_nsegment :: NSegment where
  "init_nsegment = \<lparr>kind = SkFree, start = 0, end' = 0, smode = SmFixed, dev = 0, ino = 0, offset = 0,
     mode = 0, fnIdx = -1, hasR = False, hasW = False, hasX = False, hasT = False, isCH = False,
     mark = False\<rparr>"

definition init_resvn :: "Addr \<Rightarrow> Addr \<Rightarrow> NSegment option" where
  "init_resvn st0 en = do {
     vg_assert (st0 < en);
     vg_assert (VG_IS_PAGE_ALIGNED st0);
     vg_assert (VG_IS_PAGE_ALIGNED (en + 1));
     Some (init_nsegment\<lparr>kind := SkResvn, start := st0, end' := en\<rparr>) }"

text \<open>The permissions of a segment from protection flags.\<close>

definition set_prot :: "UInt \<Rightarrow> NSegment \<Rightarrow> NSegment" where
  "set_prot prot seg = seg\<lparr>hasR := prot AND VKI_PROT_READ \<noteq> 0, hasW := prot AND VKI_PROT_WRITE \<noteq> 0,
     hasX := prot AND VKI_PROT_EXEC \<noteq> 0\<rparr>"

end
