(* ===== verification/AspaceOps.thy ===== *)
theory AspaceOps
  imports AspaceMgr
begin

text \<open>
  The operations of the address space manager that use the segment array of \<open>AspaceMgr\<close>: start-up,
  the allocation policy, the notifications for client system calls, the mappings Valgrind makes
  itself, reservations, and the resizing and moving of client mappings.
\<close>

subsection \<open>The kernel\<close>

record SysRes =
  res :: UWord
  err :: UWord
  isError :: bool

definition mk_SysRes_Error :: "UWord \<Rightarrow> SysRes" where
  "mk_SysRes_Error e = \<lparr>res = 0, err = e, isError = True\<rparr>"

definition mk_SysRes_Success :: "UWord \<Rightarrow> SysRes" where
  "mk_SysRes_Success r = \<lparr>res = r, err = 0, isError = False\<rparr>"

abbreviation (input) VKI_EINVAL :: UWord where "VKI_EINVAL \<equiv> 22"

text \<open>What the kernel answers: \<^verbatim>\<open>mmap\<close> (address, length, protection, flags, descriptor, offset),
  \<^verbatim>\<open>munmap\<close>, \<^verbatim>\<open>mremap\<close> (old address, old length, new length, flags, new address), \<^verbatim>\<open>fstat\<close> (device,
  inode and mode of a descriptor) and \<^verbatim>\<open>readlink\<close> on \<^verbatim>\<open>/proc/self/fd/<fd>\<close>.\<close>

record am_kernel =
  k_mmap :: "Addr \<Rightarrow> SizeT \<Rightarrow> UInt \<Rightarrow> UInt \<Rightarrow> int \<Rightarrow> Off64T \<Rightarrow> SysRes"
  k_munmap :: "Addr \<Rightarrow> SizeT \<Rightarrow> SysRes"
  k_mremap :: "Addr \<Rightarrow> SizeT \<Rightarrow> SizeT \<Rightarrow> UInt \<Rightarrow> Addr \<Rightarrow> SysRes"
  k_fstat :: "int \<Rightarrow> (ULong \<times> ULong \<times> UInt) option"
  k_readlink :: "int \<Rightarrow> string option"

definition am_do_mmap_NO_NOTIFY ::
    "am_kernel \<Rightarrow> Addr \<Rightarrow> SizeT \<Rightarrow> UInt \<Rightarrow> UInt \<Rightarrow> int \<Rightarrow> Off64T \<Rightarrow> am_state \<Rightarrow> (SysRes \<times> am_state) option" where
  "am_do_mmap_NO_NOTIFY K a len prot flags fd off st = do {
     vg_assert (VG_IS_PAGE_ALIGNED off);
     Some (k_mmap K a len prot flags fd off,
           st\<lparr>syscalls := Sys_mmap a len prot flags # syscalls st\<rparr>) }"

definition am_do_munmap_NO_NOTIFY :: "am_kernel \<Rightarrow> Addr \<Rightarrow> SizeT \<Rightarrow> am_state \<Rightarrow> SysRes \<times> am_state" where
  "am_do_munmap_NO_NOTIFY K a len st =
     (k_munmap K a len, st\<lparr>syscalls := Sys_munmap a len # syscalls st\<rparr>)"

definition am_do_extend_mapping_NO_NOTIFY ::
    "am_kernel \<Rightarrow> Addr \<Rightarrow> SizeT \<Rightarrow> SizeT \<Rightarrow> am_state \<Rightarrow> SysRes \<times> am_state" where
  "am_do_extend_mapping_NO_NOTIFY K old_addr old_len new_len st =
     (k_mremap K old_addr old_len new_len 0 0,
      st\<lparr>syscalls := Sys_mremap old_addr old_len new_len 0 0 # syscalls st\<rparr>)"

definition am_do_relocate_nooverlap_mapping_NO_NOTIFY ::
    "am_kernel \<Rightarrow> Addr \<Rightarrow> SizeT \<Rightarrow> Addr \<Rightarrow> SizeT \<Rightarrow> am_state \<Rightarrow> SysRes \<times> am_state" where
  "am_do_relocate_nooverlap_mapping_NO_NOTIFY K old_addr old_len new_addr new_len st =
     (k_mremap K old_addr old_len new_len 3 new_addr,
      st\<lparr>syscalls := Sys_mremap old_addr old_len new_len 3 new_addr # syscalls st\<rparr>)"

definition get_inode_for_fd :: "am_kernel \<Rightarrow> int \<Rightarrow> (ULong \<times> ULong \<times> UInt) option" where
  "get_inode_for_fd K fd = k_fstat K fd"

definition get_name_for_fd :: "am_kernel \<Rightarrow> int \<Rightarrow> string option" where
  "get_name_for_fd K fd = (case k_readlink K fd of
      Some (c # cs) \<Rightarrow> if c = CHR ''/'' then Some (c # cs) else None
    | _ \<Rightarrow> None)"

text \<open>The device, inode, mode and file name of a descriptor, as every file mapping fills them in.\<close>

definition set_fd_info :: "am_kernel \<Rightarrow> int \<Rightarrow> NSegment \<Rightarrow> am_state \<Rightarrow> (NSegment \<times> am_state) option" where
  "set_fd_info K fd seg st =
     (let seg = (case get_inode_for_fd K fd of
                   Some (d, i, m) \<Rightarrow> seg\<lparr>dev := d, ino := i, mode := m\<rparr> | None \<Rightarrow> seg) in
      case get_name_for_fd K fd of
        Some buf \<Rightarrow> do { (ix, st) \<leftarrow> allocate_segname buf st; Some (seg\<lparr>fnIdx := ix\<rparr>, st) }
      | None \<Rightarrow> Some (seg, st))"

subsection \<open>Start-up\<close>

text \<open>An entry of \<^verbatim>\<open>/proc/self/maps\<close> as the parser reports it.\<close>

record map_entry =
  me_addr :: Addr
  me_len :: SizeT
  me_prot :: UInt
  me_dev :: ULong
  me_ino :: ULong
  me_offset :: ULong
  me_filename :: "string option"

definition read_maps_callback :: "map_entry \<Rightarrow> am_state \<Rightarrow> am_state option" where
  "read_maps_callback e st = do {
     let seg = set_prot (me_prot e) (init_nsegment\<lparr>start := me_addr e, end' := me_addr e + me_len e - 1,
                 dev := me_dev e, ino := me_ino e, offset := me_offset e\<rparr>);
     let seg = seg\<lparr>kind := if me_dev e \<noteq> 0 \<and> me_ino e \<noteq> 0 then SkFileV else SkAnonV\<rparr>;
     (seg, st) \<leftarrow> (case me_filename e of
        Some filename \<Rightarrow> do { (ix, st) \<leftarrow> allocate_segname filename st; Some (seg\<lparr>fnIdx := ix\<rparr>, st) }
      | None \<Rightarrow> Some (seg, st));
     add_segment seg st }"

fun read_maps :: "map_entry list \<Rightarrow> am_state \<Rightarrow> am_state option" where
  "read_maps [] st = Some st"
| "read_maps (e # es) st = do { st \<leftarrow> read_maps_callback e st; read_maps es st }"

definition suggested_clstack_top :: "am_state \<Rightarrow> Addr" where
  "suggested_clstack_top st = aspacem_maxAddr st - 16 * 1024 * 1024 + VKI_PAGE_SIZE"

definition am_startup_layout :: "am_state \<Rightarrow> am_state option" where
  "am_startup_layout st = do {
     let st = st\<lparr>nsegments := [init_nsegment\<lparr>kind := SkFree, start := Addr_MIN, end' := Addr_MAX\<rparr>],
                 aspacem_minAddr := 0x04000000, aspacem_maxAddr := 0x800000000 - 1\<rparr>;
     let st = st\<lparr>aspacem_cStart := aspacem_minAddr st,
                 aspacem_vStart := VG_PGROUNDUP ((aspacem_minAddr st + aspacem_maxAddr st + 1) div 2)\<rparr>;
     vg_assert (VG_IS_PAGE_ALIGNED (aspacem_minAddr st));
     vg_assert (VG_IS_PAGE_ALIGNED (aspacem_maxAddr st + 1));
     vg_assert (VG_IS_PAGE_ALIGNED (aspacem_cStart st));
     vg_assert (VG_IS_PAGE_ALIGNED (aspacem_vStart st));
     vg_assert (VG_IS_PAGE_ALIGNED (suggested_clstack_top st + 1));
     st \<leftarrow> (if aspacem_cStart st > Addr_MIN
            then do { seg \<leftarrow> init_resvn Addr_MIN (aspacem_cStart st - 1); add_segment seg st }
            else Some st);
     st \<leftarrow> (if aspacem_maxAddr st < Addr_MAX
            then do { seg \<leftarrow> init_resvn (aspacem_maxAddr st + 1) Addr_MAX; add_segment seg st }
            else Some st);
     seg \<leftarrow> init_resvn (aspacem_vStart st) (aspacem_vStart st + VKI_PAGE_SIZE - 1);
     add_segment seg st }"

definition am_startup :: "map_entry list \<Rightarrow> am_state \<Rightarrow> (Addr \<times> am_state) option" where
  "am_startup entries st = do {
     st \<leftarrow> am_startup_layout st;
     st \<leftarrow> read_maps entries st;
     Some (suggested_clstack_top st, st) }"

subsection \<open>The allocation policy\<close>

datatype MapRequestKind = MFixed | MHint | MAny

record MapRequest =
  rkind :: MapRequestKind
  req_start :: Addr
  req_len :: Addr

text \<open>The loop over all holes, from index \<open>i\<close> round to the one before it; the first argument counts
  the segments still to visit.\<close>

fun advisory_loop ::
    "nat \<Rightarrow> am_state \<Rightarrow> bool \<Rightarrow> Addr \<Rightarrow> Addr \<Rightarrow> Addr \<Rightarrow> nat \<Rightarrow> int \<Rightarrow> int \<Rightarrow> (int \<times> int) option" where
  "advisory_loop 0 st fnr reqStart reqEnd reqLen i fixedIdx floatIdx = Some (fixedIdx, floatIdx)"
| "advisory_loop (Suc j) st fnr reqStart reqEnd reqLen i fixedIdx floatIdx =
     (let segs = nsegments st; i' = (if i + 1 \<ge> length segs then 0 else i + 1) in
      if kind (segs ! i) \<noteq> SkFree
      then advisory_loop j st fnr reqStart reqEnd reqLen i' fixedIdx floatIdx
      else let holeStart = start (segs ! i); holeEnd = end' (segs ! i) in do {
        vg_assert (holeStart \<le> holeEnd);
        vg_assert (aspacem_minAddr st \<le> holeStart);
        vg_assert (holeEnd \<le> aspacem_maxAddr st);
        let holeLen = holeEnd - holeStart + 1;
        let fixedIdx = (if fixedIdx = -1 \<and> holeStart \<le> reqStart \<and> reqEnd \<le> holeEnd then int i else fixedIdx);
        let floatIdx = (if floatIdx = -1 \<and> holeLen \<ge> reqLen then int i else floatIdx);
        if (fnr \<or> fixedIdx \<ge> 0) \<and> floatIdx \<ge> 0 then Some (fixedIdx, floatIdx)
        else advisory_loop j st fnr reqStart reqEnd reqLen i' fixedIdx floatIdx })"

definition advisory_default ::
    "MapRequest \<Rightarrow> bool \<Rightarrow> Addr \<Rightarrow> Addr \<Rightarrow> am_state \<Rightarrow> (Addr \<times> bool) option" where
  "advisory_default req forClient reqStart reqEnd st = do {
     let segs = nsegments st;
     let startPoint = (if forClient then aspacem_cStart st else aspacem_vStart st);
     i \<leftarrow> find_nsegment_idx startPoint st;
     (fixedIdx, floatIdx) \<leftarrow>
       advisory_loop (length segs) st (rkind req = MAny) reqStart reqEnd (req_len req) i (-1) (-1);
     vg_assert (fixedIdx \<ge> -1 \<and> fixedIdx < int (length segs));
     vg_assert (fixedIdx \<ge> 0 \<longrightarrow> kind (segs ! nat fixedIdx) = SkFree);
     vg_assert (floatIdx \<ge> -1 \<and> floatIdx < int (length segs));
     vg_assert (floatIdx \<ge> 0 \<longrightarrow> kind (segs ! nat floatIdx) = SkFree);
     case rkind req of
       MFixed \<Rightarrow> Some (if fixedIdx \<ge> 0 then (req_start req, True) else (0, False))
     | MHint \<Rightarrow> Some (if fixedIdx \<ge> 0 then (req_start req, True)
                     else if floatIdx \<ge> 0 then (start (segs ! nat floatIdx), True) else (0, False))
     | MAny \<Rightarrow> Some (if floatIdx \<ge> 0 then (start (segs ! nat floatIdx), True) else (0, False)) }"

definition am_get_advisory :: "MapRequest \<Rightarrow> bool \<Rightarrow> am_state \<Rightarrow> (Addr \<times> bool) option" where
  "am_get_advisory req forClient st = do {
     let segs = nsegments st;
     let reqStart = (if rkind req = MAny then 0 else req_start req);
     let reqEnd = reqStart + req_len req - 1;
     vg_assert (length segs > 0);
     if req_len req = 0 then Some (0, False)
     else if (rkind req = MFixed \<or> rkind req = MHint) \<and> req_start req + req_len req < req_start req
       then Some (0, False)
     else if forClient \<and> rkind req = MFixed then do {
       iLo \<leftarrow> find_nsegment_idx reqStart st;
       iHi \<leftarrow> find_nsegment_idx reqEnd st;
       let allow = list_all (\<lambda>s. kind s \<in> {SkFree, SkFileC, SkAnonC, SkShmC, SkResvn}) (seg_range segs iLo iHi);
       Some (if allow then (reqStart, True) else (0, False)) }
     else if forClient \<and> rkind req = MHint then do {
       iLo \<leftarrow> find_nsegment_idx reqStart st;
       iHi \<leftarrow> find_nsegment_idx reqEnd st;
       let allow = list_all (\<lambda>s. kind s \<in> {SkFree, SkResvn}) (seg_range segs iLo iHi);
       if allow then Some (reqStart, True) else advisory_default req forClient reqStart reqEnd st }
     else advisory_default req forClient reqStart reqEnd st }"

definition am_get_advisory_client_simple :: "Addr \<Rightarrow> SizeT \<Rightarrow> am_state \<Rightarrow> (Addr \<times> bool) option" where
  "am_get_advisory_client_simple a len st =
     am_get_advisory \<lparr>rkind = if a = 0 then MAny else MFixed, req_start = a, req_len = len\<rparr> True st"

subsection \<open>Notifications of client system calls\<close>

definition am_notify_client_mmap ::
    "am_kernel \<Rightarrow> Addr \<Rightarrow> SizeT \<Rightarrow> UInt \<Rightarrow> UInt \<Rightarrow> int \<Rightarrow> Off64T \<Rightarrow> am_state \<Rightarrow> (bool \<times> am_state) option" where
  "am_notify_client_mmap K a len prot flags fd off st = do {
     vg_assert (len > 0);
     vg_assert (VG_IS_PAGE_ALIGNED a);
     vg_assert (VG_IS_PAGE_ALIGNED len);
     vg_assert (VG_IS_PAGE_ALIGNED off);
     needDiscard \<leftarrow> any_Ts_in_range a len st;
     let seg = set_prot prot (init_nsegment\<lparr>
       kind := if flags AND VKI_MAP_ANONYMOUS \<noteq> 0 then SkAnonC else SkFileC, start := a, end' := a + len - 1\<rparr>);
     (seg, st) \<leftarrow> (if flags AND VKI_MAP_ANONYMOUS = 0
                   then set_fd_info K fd (seg\<lparr>offset := off\<rparr>) st else Some (seg, st));
     st \<leftarrow> add_segment seg st;
     Some (needDiscard, st) }"

definition am_notify_client_shmat :: "Addr \<Rightarrow> SizeT \<Rightarrow> UInt \<Rightarrow> am_state \<Rightarrow> (bool \<times> am_state) option" where
  "am_notify_client_shmat a len prot st = do {
     vg_assert (len > 0);
     vg_assert (VG_IS_PAGE_ALIGNED a);
     vg_assert (VG_IS_PAGE_ALIGNED len);
     needDiscard \<leftarrow> any_Ts_in_range a len st;
     st \<leftarrow> add_segment (set_prot prot (init_nsegment\<lparr>kind := SkShmC, start := a, end' := a + len - 1\<rparr>)) st;
     Some (needDiscard, st) }"

text \<open>The loop of \<^verbatim>\<open>VG_(am_notify_mprotect)\<close> over the segments of the range.\<close>

fun mprotect_loop :: "SegName list \<Rightarrow> UInt \<Rightarrow> NSegment list \<Rightarrow> NSegment list option" where
  "mprotect_loop sn prot [] = Some []"
| "mprotect_loop sn prot (s # ss) = do {
     s' \<leftarrow> (if kind s \<in> {SkAnonC, SkAnonV, SkFileC, SkFileV, SkShmC}
           then do { let s' = set_prot prot s; vg_assert (sane_NSegment sn s'); Some s' }
           else Some s);
     ss' \<leftarrow> mprotect_loop sn prot ss;
     Some (s' # ss') }"

definition am_notify_mprotect :: "Addr \<Rightarrow> SizeT \<Rightarrow> UInt \<Rightarrow> am_state \<Rightarrow> (bool \<times> am_state) option" where
  "am_notify_mprotect a len prot st = do {
     vg_assert (VG_IS_PAGE_ALIGNED a);
     vg_assert (VG_IS_PAGE_ALIGNED len);
     if len = 0 then Some (False, st)
     else do {
       let newX = (prot AND VKI_PROT_EXEC \<noteq> 0);
       ts \<leftarrow> any_Ts_in_range a len st;
       let needDiscard = (ts \<and> \<not> newX);
       (_, st) \<leftarrow> split_nsegments_lo_and_hi a (a + len - 1) st;
       iLo \<leftarrow> find_nsegment_idx a st;
       iHi \<leftarrow> find_nsegment_idx (a + len - 1) st;
       let segs = nsegments st;
       mid \<leftarrow> mprotect_loop (segnames st) prot (seg_range segs iLo iHi);
       (_, st) \<leftarrow> preen_nsegments (st\<lparr>nsegments := take iLo segs @ mid @ drop (Suc iHi) segs\<rparr>);
       Some (needDiscard, st) } }"

definition am_notify_munmap :: "Addr \<Rightarrow> SizeT \<Rightarrow> am_state \<Rightarrow> (bool \<times> am_state) option" where
  "am_notify_munmap a len st = do {
     vg_assert (VG_IS_PAGE_ALIGNED a);
     vg_assert (VG_IS_PAGE_ALIGNED len);
     if len = 0 then Some (False, st)
     else do {
       needDiscard \<leftarrow> any_Ts_in_range a len st;
       let seg = init_nsegment\<lparr>start := a, end' := a + len - 1\<rparr>;
       let seg = seg\<lparr>kind :=
          if a > aspacem_maxAddr st \<and> aspacem_maxAddr st < Addr_MAX then SkResvn
          else if end' seg < aspacem_minAddr st \<and> aspacem_minAddr st > 0 then SkResvn
          else SkFree\<rparr>;
       st \<leftarrow> add_segment seg st;
       Some (needDiscard, st) } }"

subsection \<open>Mappings made by Valgrind\<close>

definition am_mmap_file_fixed_client ::
    "am_kernel \<Rightarrow> Addr \<Rightarrow> SizeT \<Rightarrow> UInt \<Rightarrow> int \<Rightarrow> Off64T \<Rightarrow> am_state \<Rightarrow> (SysRes \<times> am_state) option" where
  "am_mmap_file_fixed_client K a len prot fd off st =
     (if len = 0 \<or> \<not> VG_IS_PAGE_ALIGNED a \<or> \<not> VG_IS_PAGE_ALIGNED off
      then Some (mk_SysRes_Error VKI_EINVAL, st)
      else do {
        (advised, ok) \<leftarrow> am_get_advisory \<lparr>rkind = MFixed, req_start = a, req_len = len\<rparr> True st;
        if \<not> ok \<or> advised \<noteq> a then Some (mk_SysRes_Error VKI_EINVAL, st)
        else do {
          (sres, st) \<leftarrow> am_do_mmap_NO_NOTIFY K a len prot (VKI_MAP_FIXED OR VKI_MAP_PRIVATE) fd off st;
          if isError sres then Some (sres, st)
          else if res sres \<noteq> a
          then let (_, st) = am_do_munmap_NO_NOTIFY K (res sres) len st in
            Some (mk_SysRes_Error VKI_EINVAL, st)
          else do {
            let seg = set_prot prot (init_nsegment\<lparr>kind := SkFileC, start := a,
                        end' := a + VG_PGROUNDUP len - 1, offset := off\<rparr>);
            (seg, st) \<leftarrow> set_fd_info K fd seg st;
            st \<leftarrow> add_segment seg st;
            Some (sres, st) } } })"

definition am_mmap_anon_fixed_client ::
    "am_kernel \<Rightarrow> Addr \<Rightarrow> SizeT \<Rightarrow> UInt \<Rightarrow> am_state \<Rightarrow> (SysRes \<times> am_state) option" where
  "am_mmap_anon_fixed_client K a len prot st =
     (if len = 0 \<or> \<not> VG_IS_PAGE_ALIGNED a then Some (mk_SysRes_Error VKI_EINVAL, st)
      else do {
        (advised, ok) \<leftarrow> am_get_advisory \<lparr>rkind = MFixed, req_start = a, req_len = len\<rparr> True st;
        if \<not> ok \<or> advised \<noteq> a then Some (mk_SysRes_Error VKI_EINVAL, st)
        else do {
          (sres, st) \<leftarrow> am_do_mmap_NO_NOTIFY K a len prot
             (VKI_MAP_FIXED OR VKI_MAP_PRIVATE OR VKI_MAP_ANONYMOUS) 0 0 st;
          if isError sres then Some (sres, st)
          else if res sres \<noteq> a
          then let (_, st) = am_do_munmap_NO_NOTIFY K (res sres) len st in
            Some (mk_SysRes_Error VKI_EINVAL, st)
          else do {
            st \<leftarrow> add_segment (set_prot prot (init_nsegment\<lparr>kind := SkAnonC, start := a,
                        end' := a + VG_PGROUNDUP len - 1\<rparr>)) st;
            Some (sres, st) } } })"

definition am_mmap_anon_float_client ::
    "am_kernel \<Rightarrow> SizeT \<Rightarrow> UInt \<Rightarrow> am_state \<Rightarrow> (SysRes \<times> am_state) option" where
  "am_mmap_anon_float_client K len prot st =
     (if len = 0 then Some (mk_SysRes_Error VKI_EINVAL, st)
      else do {
        (advised, ok) \<leftarrow> am_get_advisory \<lparr>rkind = MAny, req_start = 0, req_len = len\<rparr> True st;
        if \<not> ok then Some (mk_SysRes_Error VKI_EINVAL, st)
        else do {
          (sres, st) \<leftarrow> am_do_mmap_NO_NOTIFY K advised len prot
             (VKI_MAP_FIXED OR VKI_MAP_PRIVATE OR VKI_MAP_ANONYMOUS) 0 0 st;
          if isError sres then Some (sres, st)
          else if res sres \<noteq> advised
          then let (_, st) = am_do_munmap_NO_NOTIFY K (res sres) len st in
            Some (mk_SysRes_Error VKI_EINVAL, st)
          else do {
            st \<leftarrow> add_segment (set_prot prot (init_nsegment\<lparr>kind := SkAnonC, start := advised,
                        end' := advised + VG_PGROUNDUP len - 1\<rparr>)) st;
            Some (sres, st) } } })"

definition am_sbrk_anon_float_client ::
    "am_kernel \<Rightarrow> SizeT \<Rightarrow> UInt \<Rightarrow> am_state \<Rightarrow> (SysRes \<times> am_state) option" where
  "am_sbrk_anon_float_client K len prot st = am_mmap_anon_float_client K len prot st"

definition am_mmap_anon_float_valgrind ::
    "am_kernel \<Rightarrow> SizeT \<Rightarrow> am_state \<Rightarrow> (SysRes \<times> am_state) option" where
  "am_mmap_anon_float_valgrind K len st =
     (if len = 0 then Some (mk_SysRes_Error VKI_EINVAL, st)
      else do {
        (advised, ok) \<leftarrow> am_get_advisory \<lparr>rkind = MAny, req_start = 0, req_len = len\<rparr> False st;
        if \<not> ok then Some (mk_SysRes_Error VKI_EINVAL, st)
        else do {
          (sres, st) \<leftarrow> am_do_mmap_NO_NOTIFY K advised len
             (VKI_PROT_READ OR VKI_PROT_WRITE OR VKI_PROT_EXEC)
             (VKI_MAP_FIXED OR VKI_MAP_PRIVATE OR VKI_MAP_ANONYMOUS) 0 0 st;
          if isError sres then Some (sres, st)
          else if res sres \<noteq> advised
          then let (_, st) = am_do_munmap_NO_NOTIFY K (res sres) len st in
            Some (mk_SysRes_Error VKI_EINVAL, st)
          else do {
            st \<leftarrow> add_segment (init_nsegment\<lparr>kind := SkAnonV, start := advised,
                        end' := advised + VG_PGROUNDUP len - 1,
                        hasR := True, hasW := True, hasX := True\<rparr>) st;
            Some (sres, st) } } })"

definition am_shadow_alloc :: "am_kernel \<Rightarrow> SizeT \<Rightarrow> am_state \<Rightarrow> (Addr \<times> am_state) option" where
  "am_shadow_alloc K szB st = do {
     (sres, st) \<leftarrow> am_mmap_anon_float_valgrind K szB st;
     Some (if isError sres then 0 else res sres, st) }"

definition am_sbrk_anon_float_valgrind ::
    "am_kernel \<Rightarrow> SizeT \<Rightarrow> am_state \<Rightarrow> (SysRes \<times> am_state) option" where
  "am_sbrk_anon_float_valgrind K cszB st = am_mmap_anon_float_valgrind K cszB st"

definition am_mmap_file_float_valgrind ::
    "am_kernel \<Rightarrow> SizeT \<Rightarrow> UInt \<Rightarrow> int \<Rightarrow> Off64T \<Rightarrow> am_state \<Rightarrow> (SysRes \<times> am_state) option" where
  "am_mmap_file_float_valgrind K len prot fd off st =
     (if len = 0 \<or> \<not> VG_IS_PAGE_ALIGNED off then Some (mk_SysRes_Error VKI_EINVAL, st)
      else do {
        (advised, ok) \<leftarrow> am_get_advisory \<lparr>rkind = MAny, req_start = 0, req_len = len\<rparr> True st;
        if \<not> ok then Some (mk_SysRes_Error VKI_EINVAL, st)
        else do {
          (sres, st) \<leftarrow> am_do_mmap_NO_NOTIFY K advised len prot (VKI_MAP_FIXED OR VKI_MAP_PRIVATE) fd off st;
          if isError sres then Some (sres, st)
          else if res sres \<noteq> advised
          then let (_, st) = am_do_munmap_NO_NOTIFY K (res sres) len st in
            Some (mk_SysRes_Error VKI_EINVAL, st)
          else do {
            let seg = set_prot prot (init_nsegment\<lparr>kind := SkFileV, start := res sres,
                        end' := res sres + VG_PGROUNDUP len - 1, offset := off\<rparr>);
            (seg, st) \<leftarrow> set_fd_info K fd seg st;
            st \<leftarrow> add_segment seg st;
            Some (sres, st) } } })"

subsection \<open>Unmapping and flags\<close>

definition am_munmap_both_wrk ::
    "am_kernel \<Rightarrow> Addr \<Rightarrow> SizeT \<Rightarrow> bool \<Rightarrow> am_state \<Rightarrow> ((bool option \<times> SysRes) \<times> am_state) option" where
  "am_munmap_both_wrk K a len forClient st =
     (if \<not> VG_IS_PAGE_ALIGNED a then Some ((None, mk_SysRes_Error VKI_EINVAL), st)
      else if len = 0 then Some ((Some False, mk_SysRes_Success 0), st)
      else if a + len < len then Some ((None, mk_SysRes_Error VKI_EINVAL), st)
      else do {
        let len = VG_PGROUNDUP len;
        vg_assert (VG_IS_PAGE_ALIGNED a);
        vg_assert (VG_IS_PAGE_ALIGNED len);
        ok \<leftarrow> (if forClient then am_is_valid_for_client_or_free_or_resvn a len VKI_PROT_NONE st
              else is_valid_for_valgrind a len st);
        if \<not> ok then Some ((None, mk_SysRes_Error VKI_EINVAL), st)
        else do {
          d \<leftarrow> any_Ts_in_range a len st;
          let (sres, st) = am_do_munmap_NO_NOTIFY K a len st;
          if isError sres then Some ((None, sres), st)
          else do {
            (_, st) \<leftarrow> am_notify_munmap a len st;
            Some ((Some d, sres), st) } } })"

definition am_munmap_client ::
    "am_kernel \<Rightarrow> Addr \<Rightarrow> SizeT \<Rightarrow> am_state \<Rightarrow> ((bool option \<times> SysRes) \<times> am_state) option" where
  "am_munmap_client K a len st = am_munmap_both_wrk K a len True st"

definition am_munmap_valgrind ::
    "am_kernel \<Rightarrow> Addr \<Rightarrow> SizeT \<Rightarrow> am_state \<Rightarrow> (SysRes \<times> am_state) option" where
  "am_munmap_valgrind K a len st = do {
     ((need_discard, r), st) \<leftarrow> am_munmap_both_wrk K a len False st;
     vg_assert (\<not> isError r \<longrightarrow> need_discard = Some False);
     Some (r, st) }"

definition am_change_ownership_v_to_c :: "Addr \<Rightarrow> SizeT \<Rightarrow> am_state \<Rightarrow> (bool \<times> am_state) option" where
  "am_change_ownership_v_to_c a len st =
     (if len = 0 then Some (True, st)
      else if a + len < a then Some (False, st)
      else if \<not> VG_IS_PAGE_ALIGNED a \<or> \<not> VG_IS_PAGE_ALIGNED len then Some (False, st)
      else do {
        i \<leftarrow> find_nsegment_idx a st;
        let seg = nsegments st ! i;
        if kind seg \<noteq> SkFileV \<and> kind seg \<noteq> SkAnonV then Some (False, st)
        else if a + len - 1 > end' seg then Some (False, st)
        else do {
          vg_assert (a \<ge> start seg);
          vg_assert (a + len - 1 \<le> end' seg);
          ((iLo, iHi), st) \<leftarrow> split_nsegments_lo_and_hi a (a + len - 1) st;
          vg_assert (iLo = iHi);
          let segs = nsegments st;
          s' \<leftarrow> (case kind (segs ! iLo) of
                   SkFileV \<Rightarrow> Some ((segs ! iLo)\<lparr>kind := SkFileC\<rparr>)
                 | SkAnonV \<Rightarrow> Some ((segs ! iLo)\<lparr>kind := SkAnonC\<rparr>)
                 | _ \<Rightarrow> None);
          (_, st) \<leftarrow> preen_nsegments (st\<lparr>nsegments := segs[iLo := s']\<rparr>);
          Some (True, st) } })"

definition am_set_segment_isCH_if_SkAnonC :: "nat option \<Rightarrow> am_state \<Rightarrow> am_state option" where
  "am_set_segment_isCH_if_SkAnonC seg st = do {
     let i = segAddr_to_index seg st;
     let segs = nsegments st;
     vg_assert (i \<ge> 0 \<and> i < int (length segs));
     if kind (segs ! nat i) = SkAnonC
     then Some (st\<lparr>nsegments := segs[nat i := (segs ! nat i)\<lparr>isCH := True\<rparr>]\<rparr>)
     else do { vg_assert (isCH (segs ! nat i) = False); Some st } }"

definition am_set_segment_hasT_if_SkFileC_or_SkAnonC :: "nat option \<Rightarrow> am_state \<Rightarrow> am_state option" where
  "am_set_segment_hasT_if_SkFileC_or_SkAnonC seg st = do {
     let i = segAddr_to_index seg st;
     let segs = nsegments st;
     vg_assert (i \<ge> 0 \<and> i < int (length segs));
     if kind (segs ! nat i) = SkAnonC \<or> kind (segs ! nat i) = SkFileC
     then Some (st\<lparr>nsegments := segs[nat i := (segs ! nat i)\<lparr>hasT := True\<rparr>]\<rparr>)
     else Some st }"

subsection \<open>Reservations\<close>

definition am_create_reservation ::
    "Addr \<Rightarrow> SizeT \<Rightarrow> ShrinkMode \<Rightarrow> 64 word \<Rightarrow> am_state \<Rightarrow> (bool \<times> am_state) option" where
  "am_create_reservation a len sm extra st = do {
     let start1 = a;
     let end1 = a + len - 1;
     let start2 = (if sint extra < 0 then start1 + extra else start1);
     let end2 = (if sint extra > 0 then end1 + extra else end1);
     vg_assert (VG_IS_PAGE_ALIGNED a);
     vg_assert (VG_IS_PAGE_ALIGNED (a + len));
     vg_assert (VG_IS_PAGE_ALIGNED start2);
     vg_assert (VG_IS_PAGE_ALIGNED (end2 + 1));
     startI \<leftarrow> find_nsegment_idx start2 st;
     endI \<leftarrow> find_nsegment_idx end2 st;
     if startI \<noteq> endI then Some (False, st)
     else if kind (nsegments st ! startI) \<noteq> SkFree then Some (False, st)
     else do {
       vg_assert (start (nsegments st ! startI) \<le> start2);
       vg_assert (end2 \<le> end' (nsegments st ! startI));
       st \<leftarrow> add_segment (init_nsegment\<lparr>kind := SkResvn, start := start1, end' := end1, smode := sm\<rparr>) st;
       Some (True, st) } }"

text \<open>The two halves of \<^verbatim>\<open>VG_(am_extend_into_adjacent_reservation_client)\<close>.\<close>

definition extend_forwards ::
    "am_kernel \<Rightarrow> nat \<Rightarrow> UInt \<Rightarrow> 64 word \<Rightarrow> am_state \<Rightarrow> (bool \<times> am_state) option" where
  "extend_forwards K segA prot delta st =
     (let segs = nsegments st; segR = segA + 1 in
      if segR \<ge> length segs \<or> kind (segs ! segR) \<noteq> SkResvn \<or> smode (segs ! segR) \<noteq> SmLower
         \<or> start (segs ! segR) \<noteq> end' (segs ! segA) + 1
         \<or> delta + VKI_PAGE_SIZE > end' (segs ! segR) - start (segs ! segR) + 1
      then Some (False, st)
      else do {
        (sres, st) \<leftarrow> am_do_mmap_NO_NOTIFY K (start (segs ! segR)) delta prot
           (VKI_MAP_FIXED OR VKI_MAP_PRIVATE OR VKI_MAP_ANONYMOUS) 0 0 st;
        if isError sres then Some (False, st)
        else if res sres \<noteq> start (segs ! segR)
        then let (_, st) = am_do_munmap_NO_NOTIFY K (res sres) delta st in Some (False, st)
        else do {
          let R = (segs ! segR)\<lparr>start := start (segs ! segR) + delta\<rparr>;
          let A = (segs ! segA)\<lparr>end' := end' (segs ! segA) + delta\<rparr>;
          vg_assert (start R \<le> end' R);
          Some (True, st\<lparr>nsegments := segs[segR := R, segA := A]\<rparr>) } })"

definition extend_backwards ::
    "am_kernel \<Rightarrow> nat \<Rightarrow> UInt \<Rightarrow> 64 word \<Rightarrow> am_state \<Rightarrow> (bool \<times> am_state) option" where
  "extend_backwards K segA prot delta st =
     (let segs = nsegments st; segR = segA - 1 in
      if segA = 0 \<or> kind (segs ! segR) \<noteq> SkResvn \<or> smode (segs ! segR) \<noteq> SmUpper
         \<or> end' (segs ! segR) + 1 \<noteq> start (segs ! segA)
         \<or> delta + VKI_PAGE_SIZE > end' (segs ! segR) - start (segs ! segR) + 1
      then Some (False, st)
      else do {
        (sres, st) \<leftarrow> am_do_mmap_NO_NOTIFY K (start (segs ! segA) - delta) delta prot
           (VKI_MAP_FIXED OR VKI_MAP_PRIVATE OR VKI_MAP_ANONYMOUS) 0 0 st;
        if isError sres then Some (False, st)
        else if res sres \<noteq> start (segs ! segA) - delta
        then let (_, st) = am_do_munmap_NO_NOTIFY K (res sres) delta st in Some (False, st)
        else do {
          let R = (segs ! segR)\<lparr>end' := end' (segs ! segR) - delta\<rparr>;
          let A = (segs ! segA)\<lparr>start := start (segs ! segA) - delta\<rparr>;
          vg_assert (start R \<le> end' R);
          Some (True, st\<lparr>nsegments := segs[segR := R, segA := A]\<rparr>) } })"

definition am_extend_into_adjacent_reservation_client ::
    "am_kernel \<Rightarrow> nat option \<Rightarrow> 64 word \<Rightarrow> am_state \<Rightarrow> (bool \<times> am_state) option" where
  "am_extend_into_adjacent_reservation_client K seg delta st = do {
     let i = segAddr_to_index seg st;
     let segs = nsegments st;
     vg_assert (i \<ge> 0 \<and> i < int (length segs));
     let A = segs ! nat i;
     if kind A \<noteq> SkAnonC then Some (False, st)
     else if delta = 0 then Some (True, st)
     else do {
       let prot = ((if hasR A then VKI_PROT_READ else 0) OR (if hasW A then VKI_PROT_WRITE else 0)
                   OR (if hasX A then VKI_PROT_EXEC else 0));
       vg_assert (VG_IS_PAGE_ALIGNED (if sint delta < 0 then - delta else delta));
       if sint delta > 0 then extend_forwards K (nat i) prot delta st
       else do {
         vg_assert (sint (- delta) > 0);
         extend_backwards K (nat i) prot (- delta) st } } }"

subsection \<open>Resizing and moving a mapping\<close>

definition am_extend_map_client ::
    "am_kernel \<Rightarrow> nat \<Rightarrow> SizeT \<Rightarrow> am_state \<Rightarrow> ((bool option \<times> bool) \<times> am_state) option" where
  "am_extend_map_client K i delta st = do {
     let seg = nsegments st ! i;
     let seg_old_len = end' seg + 1 - start seg;
     if kind seg \<noteq> SkFileC \<and> kind seg \<noteq> SkAnonC then Some ((None, False), st)
     else if delta = 0 \<or> \<not> VG_IS_PAGE_ALIGNED delta then Some ((None, False), st)
     else do {
       let xStart = end' seg + 1;
       if xStart + delta < delta then Some ((None, False), st)
       else do {
         ok \<leftarrow> am_is_valid_for_client_or_free_or_resvn xStart delta VKI_PROT_NONE st;
         if \<not> ok then Some ((None, False), st)
         else do {
           let (sres, st) = am_do_extend_mapping_NO_NOTIFY K (start seg) seg_old_len (seg_old_len + delta) st;
           if isError sres then Some ((None, False), st)
           else do {
             vg_assert (res sres = start seg);
             need_discard \<leftarrow> any_Ts_in_range (end' seg + 1) delta st;
             st \<leftarrow> add_segment (seg\<lparr>end' := end' seg + delta\<rparr>) st;
             Some ((Some need_discard, True), st) } } } } }"

definition am_relocate_nooverlap_client ::
    "am_kernel \<Rightarrow> Addr \<Rightarrow> SizeT \<Rightarrow> Addr \<Rightarrow> SizeT \<Rightarrow> am_state
       \<Rightarrow> ((bool option \<times> bool) \<times> am_state) option" where
  "am_relocate_nooverlap_client K old_addr old_len new_addr new_len st =
     (if old_len = 0 \<or> new_len = 0 then Some ((None, False), st)
      else if \<not> VG_IS_PAGE_ALIGNED old_addr \<or> \<not> VG_IS_PAGE_ALIGNED old_len
           \<or> \<not> VG_IS_PAGE_ALIGNED new_addr \<or> \<not> VG_IS_PAGE_ALIGNED new_len then Some ((None, False), st)
      else if old_addr + old_len < old_addr \<or> new_addr + new_len < new_addr then Some ((None, False), st)
      else if \<not> (old_addr + old_len - 1 < new_addr \<or> new_addr + new_len - 1 < old_addr)
      then Some ((None, False), st)
      else do {
        iLo \<leftarrow> find_nsegment_idx old_addr st;
        iHi \<leftarrow> find_nsegment_idx (old_addr + old_len - 1) st;
        let seg = nsegments st ! iLo;
        if iLo \<noteq> iHi then Some ((None, False), st)
        else if kind seg \<noteq> SkFileC \<and> kind seg \<noteq> SkAnonC then Some ((None, False), st)
        else do {
          let (sres, st) = am_do_relocate_nooverlap_mapping_NO_NOTIFY K old_addr old_len new_addr new_len st;
          if isError sres then Some ((None, False), st)
          else do {
            vg_assert (res sres = new_addr);
            t1 \<leftarrow> any_Ts_in_range old_addr old_len st;
            need_discard \<leftarrow> (if t1 then Some True else any_Ts_in_range new_addr new_len st);
            seg' \<leftarrow> (if kind seg = SkFileC then Some (seg\<lparr>offset := offset seg + (old_addr - start seg)\<rparr>)
                     else do { vg_assert (kind seg = SkAnonC); vg_assert (offset seg = 0); Some seg });
            st \<leftarrow> add_segment (seg'\<lparr>start := new_addr, end' := new_addr + new_len - 1\<rparr>) st;
            let hole = init_nsegment\<lparr>start := old_addr, end' := old_addr + old_len - 1,
                         kind := if old_addr > aspacem_maxAddr st \<and> aspacem_maxAddr st < Addr_MAX
                                 then SkResvn else SkFree\<rparr>;
            st \<leftarrow> add_segment hole st;
            Some ((Some need_discard, True), st) } } })"

end
