(* ===== verification/AspaceMgr_Correct.thy ===== *)
theory AspaceMgr_Correct
  imports AspaceMgr AspaceOps
begin

text \<open>
  Correctness of the segment array. A well-formed array (\<open>am_ok\<close>) tiles the address space with
  sane segments; its meaning is the view \<open>am_view\<close> of each address (kind, permissions, position in
  a file) and \<open>am_T\<close>, whether translations may exist. Search, splitting, merging and preening are
  related to it; adding a segment overwrites exactly its range.
\<close>

subsection \<open>Tilings of the address space\<close>

text \<open>The segments cover the addresses from \<open>n\<close> up to but excluding \<open>m\<close>, in order, without gaps or
  overlaps. Addresses are read as natural numbers, so that the end of the address space is
  \<^term>\<open>2 ^ 64 :: nat\<close>.\<close>

fun tiles :: "nat \<Rightarrow> NSegment list \<Rightarrow> nat \<Rightarrow> bool" where
  "tiles n [] m = (n = m)"
| "tiles n (s # ss) m = (unat (start s) = n \<and> start s \<le> end' s \<and> tiles (unat (end' s) + 1) ss m)"

definition in_seg :: "NSegment \<Rightarrow> Addr \<Rightarrow> bool" where
  "in_seg s a \<longleftrightarrow> start s \<le> a \<and> a \<le> end' s"

text \<open>Reference definition of the search: the first segment that holds the address.\<close>

definition seg_of :: "NSegment list \<Rightarrow> Addr \<Rightarrow> NSegment option" where
  "seg_of segs a = find (\<lambda>s. in_seg s a) segs"

lemma seg_of_simps [simp]:
  "seg_of [] a = None"
  "seg_of (s # ss) a = (if in_seg s a then Some s else seg_of ss a)"
  by (simp_all add: seg_of_def)

lemma seg_of_append:
  "seg_of (xs @ ys) a = (case seg_of xs a of None \<Rightarrow> seg_of ys a | Some s \<Rightarrow> Some s)"
  by (induction xs) auto

lemma seg_of_SomeD: "seg_of segs a = Some s \<Longrightarrow> s \<in> set segs \<and> in_seg s a"
  by (induction segs) (auto split: if_splits)

lemma in_seg_nat: "in_seg s a \<longleftrightarrow> unat (start s) \<le> unat a \<and> unat a \<le> unat (end' s)"
  by (simp add: in_seg_def word_le_nat_alt)

lemma tiles_le: "tiles n segs m \<Longrightarrow> n \<le> m"
  by (induction segs arbitrary: n) (fastforce simp: word_le_nat_alt)+

lemma tiles_append: "tiles n (xs @ ys) m \<longleftrightarrow> (\<exists>k. tiles n xs k \<and> tiles k ys m)"
  by (induction xs arbitrary: n) auto

lemma tiles_bounds:
  "tiles n segs m \<Longrightarrow> s \<in> set segs \<Longrightarrow> n \<le> unat (start s) \<and> unat (start s) \<le> unat (end' s) \<and> unat (end' s) < m"
proof (induction segs arbitrary: n)
  case (Cons t ts)
  then show ?case
  proof (cases "s = t")
    case True
    then show ?thesis using Cons.prems tiles_le by (fastforce simp: word_le_nat_alt)
  next
    case False
    then have "unat (end' t) + 1 \<le> unat (start s) \<and> unat (start s) \<le> unat (end' s) \<and> unat (end' s) < m"
      using Cons by auto
    then show ?thesis using Cons.prems by (auto simp: word_le_nat_alt)
  qed
qed simp

lemma tiles_seg_of_None:
  assumes "tiles n segs m" "unat a < n \<or> m \<le> unat a" shows "seg_of segs a = None"
proof (rule ccontr)
  assume "seg_of segs a \<noteq> None"
  then obtain s where "s \<in> set segs" "in_seg s a" using seg_of_SomeD by blast
  then show False using tiles_bounds [OF assms(1)] assms(2) by (fastforce simp: in_seg_nat)
qed

lemma tiles_seg_of_ex:
  "tiles n segs m \<Longrightarrow> n \<le> unat a \<Longrightarrow> unat a < m \<Longrightarrow> \<exists>s. seg_of segs a = Some s"
proof (induction segs arbitrary: n)
  case (Cons t ts)
  then show ?case by (cases "in_seg t a") (auto simp: in_seg_nat)
qed simp

lemma tiles_unique:
  "tiles n segs m \<Longrightarrow> s \<in> set segs \<Longrightarrow> in_seg s a \<Longrightarrow> seg_of segs a = Some s"
proof (induction segs arbitrary: n)
  case (Cons t ts)
  show ?case
  proof (cases "s = t")
    case True then show ?thesis using Cons.prems by simp
  next
    case False
    then have "s \<in> set ts" "tiles (unat (end' t) + 1) ts m" using Cons.prems by auto
    then have "seg_of ts a = Some s" "unat (end' t) < unat (start s)"
      using Cons.IH Cons.prems(3) tiles_bounds [of "unat (end' t) + 1" ts m s] by auto
    then show ?thesis using Cons.prems(3) by (simp add: in_seg_nat)
  qed
qed simp

text \<open>Around an index the tiling splits.\<close>

lemma tiles_split:
  assumes "tiles n segs m" "i < length segs"
  shows "tiles n (take i segs) (unat (start (segs ! i)))"
    and "tiles (unat (end' (segs ! i)) + 1) (drop (Suc i) segs) m"
    and "start (segs ! i) \<le> end' (segs ! i)"
proof -
  have "segs = take i segs @ segs ! i # drop (Suc i) segs" using assms(2) by (simp add: id_take_nth_drop)
  then obtain k where "tiles n (take i segs) k" "tiles k (segs ! i # drop (Suc i) segs) m"
    using assms(1) tiles_append by metis
  then show "tiles n (take i segs) (unat (start (segs ! i)))"
    and "tiles (unat (end' (segs ! i)) + 1) (drop (Suc i) segs) m"
    and "start (segs ! i) \<le> end' (segs ! i)" by auto
qed

lemma tiles_mono:
  assumes "tiles n segs m" "i < j" "j < length segs"
  shows "unat (end' (segs ! i)) < unat (start (segs ! j))"
proof -
  have "segs ! j \<in> set (drop (Suc i) segs)"
    using assms by (auto simp: in_set_conv_nth nth_drop intro!: exI [of _ "j - Suc i"])
  then show ?thesis using tiles_bounds [OF tiles_split(2) [OF assms(1), of i], of "segs ! j"] assms by auto
qed

lemma tiles_drop:
  assumes "tiles n segs m" "i < length segs"
  shows "tiles (unat (start (segs ! i))) (drop i segs) m"
  using tiles_split [OF assms] by (simp add: Cons_nth_drop_Suc [OF assms(2), symmetric])

lemma tiles_take_Suc:
  assumes "tiles n segs m" "i < length segs"
  shows "tiles n (take (Suc i) segs) (unat (end' (segs ! i)) + 1)"
  using tiles_split [OF assms] assms(2) by (auto simp: take_Suc_conv_app_nth tiles_append)

abbreviation covers :: "NSegment list \<Rightarrow> bool" where
  "covers segs \<equiv> tiles 0 segs (2 ^ 64)"

lemma covers_seg_of: "covers segs \<Longrightarrow> \<exists>s. seg_of segs a = Some s"
  using tiles_seg_of_ex [of 0 segs "2 ^ 64" a] unsigned_less [of a, where 'a = nat] by simp

subsection \<open>The binary search\<close>

lemma find_nsegment_loop_correct:
  assumes "covers segs" "k < length segs" "in_seg (segs ! k) a"
    "0 \<le> lo" "lo \<le> int k" "int k \<le> hi" "hi < int (length segs)"
  shows "find_nsegment_loop segs a lo hi = Some k"
  using assms(4-)
proof (induction "nat (hi - lo + 1)" arbitrary: lo hi rule: less_induct)
  case less
  define mid where "mid = (lo + hi) div 2"
  have mid: "lo \<le> mid" "mid \<le> hi" using less.prems unfolding mid_def by linarith+
  have lower: "unat (end' (segs ! i)) < unat a" if "i < k" for i
    using tiles_mono [OF assms(1) that assms(2)] assms(3) by (simp add: in_seg_nat)
  have upper: "unat a < unat (start (segs ! i))" if "k < i" "i < length segs" for i
    using tiles_mono [OF assms(1) that] assms(3) by (simp add: in_seg_nat)
  have bounds: "start (segs ! i) \<le> end' (segs ! i)" if "i < length segs" for i
    using tiles_split(3) [OF assms(1) that] .
  consider "mid < int k" | "mid = int k" | "mid > int k" by linarith
  then show ?case
  proof cases
    case 1
    then have "nat mid < k" "nat mid < length segs" using mid less.prems by auto
    then have "\<not> a < start (segs ! nat mid)" "a > end' (segs ! nat mid)"
      using lower [of "nat mid"] bounds [of "nat mid"] mid less.prems
      by (auto simp: word_less_nat_alt word_le_nat_alt)
    moreover have "find_nsegment_loop segs a (mid + 1) hi = Some k"
      using less.prems mid 1 by (intro less.hyps) auto
    ultimately show ?thesis using less.prems
      by (subst find_nsegment_loop.simps) (simp add: Let_def flip: mid_def)
  next
    case 2
    then show ?thesis using assms(2,3) less.prems
      by (subst find_nsegment_loop.simps) (auto simp: Let_def in_seg_def mid_def [symmetric])
  next
    case 3
    then have "a < start (segs ! nat mid)"
      using upper [of "nat mid"] mid less.prems by (auto simp: word_less_nat_alt)
    moreover have "find_nsegment_loop segs a lo (mid - 1) = Some k"
      using less.prems mid 3 by (intro less.hyps) auto
    ultimately show ?thesis using less.prems
      by (subst find_nsegment_loop.simps) (simp add: Let_def flip: mid_def)
  qed
qed

text \<open>On a tiling the search returns the index of the segment that holds the address.\<close>

lemma find_nsegment_idx_correct:
  assumes "covers (nsegments st)"
  obtains i where "find_nsegment_idx a st = Some i" "i < length (nsegments st)"
    "in_seg (nsegments st ! i) a" "seg_of (nsegments st) a = Some (nsegments st ! i)"
proof -
  obtain s where s: "seg_of (nsegments st) a = Some s" using covers_seg_of [OF assms] by blast
  then obtain i where "i < length (nsegments st)" "nsegments st ! i = s" "in_seg s a"
    using seg_of_SomeD [OF s] by (auto simp: in_set_conv_nth)
  then show thesis using find_nsegment_loop_correct [OF assms, of i a 0] s
    by (intro that [of i]) (auto simp: find_nsegment_idx_def)
qed

lemma find_nsegment_idx_iff:
  assumes "covers (nsegments st)"
  shows "find_nsegment_idx a st = Some i \<longleftrightarrow> i < length (nsegments st) \<and> in_seg (nsegments st ! i) a"
proof
  assume *: "i < length (nsegments st) \<and> in_seg (nsegments st ! i) a"
  then show "find_nsegment_idx a st = Some i"
    using find_nsegment_loop_correct [OF assms, of i a 0 "int (length (nsegments st)) - 1"]
    by (auto simp: find_nsegment_idx_def)
qed (use find_nsegment_idx_correct [OF assms, of a] in auto)

text \<open>The segments between two found indices are those that meet the range of addresses.\<close>

lemma seg_range_set:
  assumes "covers segs" "iLo < length segs" "iHi < length segs"
    "in_seg (segs ! iLo) a" "in_seg (segs ! iHi) b" "a \<le> b"
  shows "set (seg_range segs iLo iHi) = {s \<in> set segs. \<exists>x. a \<le> x \<and> x \<le> b \<and> in_seg s x}" (is "?L = ?R")
proof
  have ends: "start (segs ! i) \<le> end' (segs ! i)" if "i < length segs" for i
    using tiles_split(3) [OF assms(1) that] .
  have L: "?L = {segs ! i | i. iLo \<le> i \<and> i \<le> iHi}"
  proof (intro set_eqI iffI)
    fix s assume "s \<in> ?L"
    then obtain i where "i < Suc iHi - iLo" "s = segs ! (iLo + i)"
      using assms(2,3) by (auto simp: seg_range_def in_set_conv_nth)
    then show "s \<in> {segs ! i | i. iLo \<le> i \<and> i \<le> iHi}" by (auto intro!: exI [of _ "iLo + i"])
  next
    fix s assume "s \<in> {segs ! i | i. iLo \<le> i \<and> i \<le> iHi}"
    then obtain i where "s = segs ! i" "iLo \<le> i" "i \<le> iHi" by blast
    then show "s \<in> ?L" using assms(2,3)
      by (auto simp: seg_range_def in_set_conv_nth intro!: exI [of _ "i - iLo"])
  qed
  show "?L \<subseteq> ?R"
  proof
    fix s assume "s \<in> ?L"
    then obtain i where i: "s = segs ! i" "iLo \<le> i" "i \<le> iHi" using L by blast
    define x where "x = (if i = iLo then a else start s)"
    have "unat (start (segs ! i)) \<le> unat b"
      using i ends [of i] assms tiles_mono [OF assms(1), of i iHi]
      by (cases "i = iHi") (auto simp: in_seg_nat word_le_nat_alt)
    then have "a \<le> x" "x \<le> b" "in_seg s x"
      using i ends [of i] assms tiles_mono [OF assms(1), of iLo i] tiles_mono [OF assms(1), of i iHi]
      by (auto simp: x_def in_seg_nat word_le_nat_alt split: if_splits)
    then show "s \<in> ?R" using i assms(3) by auto
  qed
  show "?R \<subseteq> ?L"
  proof
    fix s assume "s \<in> ?R"
    then obtain i x where i: "s = segs ! i" "i < length segs" "a \<le> x" "x \<le> b" "in_seg s x"
      by (auto simp: in_set_conv_nth)
    have "\<not> i < iLo" "\<not> iHi < i"
      using i assms tiles_mono [OF assms(1), of i iLo] tiles_mono [OF assms(1), of iHi i]
      by (auto simp: in_seg_nat word_le_nat_alt)
    then show "s \<in> ?L" unfolding L using i by auto
  qed
qed

subsection \<open>Page alignment\<close>

lemma page_mask: "(a :: 64 word) AND 4095 = take_bit 12 a"
proof -
  have "(4095 :: 64 word) = mask 12" by (simp add: mask_eq_exp_minus_1)
  then show ?thesis by (simp only: take_bit_eq_mask)
qed

lemma page_aligned_dvd: "VG_IS_PAGE_ALIGNED a \<longleftrightarrow> 4096 dvd unat a"
proof -
  have "VG_IS_PAGE_ALIGNED a \<longleftrightarrow> unat (take_bit 12 a) = 0"
    by (simp add: VG_IS_PAGE_ALIGNED_def page_mask unsigned_eq_0_iff)
  then show ?thesis by (simp only: unsigned_take_bit_eq take_bit_eq_mod dvd_eq_mod_eq_0) (simp add: unat_mod)
qed

lemma page_aligned_Suc: "VG_IS_PAGE_ALIGNED (e + 1) \<longleftrightarrow> 4096 dvd (unat e + 1)"
proof -
  have "unat (e + 1) = (unat e + 1) mod 2 ^ 64" by (simp add: unat_word_ariths)
  then show ?thesis by (simp add: page_aligned_dvd dvd_mod_iff)
qed

lemma aligned_page_fits:
  assumes "4096 dvd (a :: nat)" "4096 dvd (b + 1)" "a \<le> b" shows "a + 4095 \<le> b"
proof -
  obtain k l where kl: "a = 4096 * k" "b + 1 = 4096 * l" using assms(1,2) by (elim dvdE)
  then have "k < l" using assms(3) by linarith
  then show ?thesis using kl by linarith
qed

subsection \<open>The view of the address space\<close>

text \<open>What the segment array says of one address. Segment boundaries, the file name and the mode
  are not part of it; a file mapping is seen as the position in the file.\<close>

record page_attr =
  pa_kind :: SegKind
  pa_smode :: ShrinkMode
  pa_R :: bool
  pa_W :: bool
  pa_X :: bool
  pa_CH :: bool
  pa_file :: "(ULong \<times> ULong \<times> ULong) option"

definition attr :: "NSegment \<Rightarrow> Addr \<Rightarrow> page_attr" where
  "attr s a = \<lparr>pa_kind = kind s, pa_smode = smode s, pa_R = hasR s, pa_W = hasW s, pa_X = hasX s,
     pa_CH = isCH s,
     pa_file = if kind s = SkFileC \<or> kind s = SkFileV then Some (dev s, ino s, offset s + (a - start s)) else None\<rparr>"

definition lview :: "NSegment list \<Rightarrow> Addr \<Rightarrow> page_attr option" where
  "lview segs a = map_option (\<lambda>s. attr s a) (seg_of segs a)"

text \<open>Translations may have been made from the address.\<close>

definition lT :: "NSegment list \<Rightarrow> Addr \<Rightarrow> bool" where
  "lT segs a \<longleftrightarrow> (\<exists>s \<in> set segs. in_seg s a \<and> hasT s)"

text \<open>A list of segments that describes the same memory, and forgets no translations.\<close>

definition same_mem :: "NSegment list \<Rightarrow> NSegment list \<Rightarrow> bool" where
  "same_mem segs segs' \<longleftrightarrow> (\<forall>a. lview segs' a = lview segs a \<and> (lT segs a \<longrightarrow> lT segs' a))"

lemma same_mem_refl [simp]: "same_mem segs segs" by (simp add: same_mem_def)

lemma same_mem_trans: "same_mem a b \<Longrightarrow> same_mem b c \<Longrightarrow> same_mem a c"
  by (simp add: same_mem_def)

lemma lview_simps [simp]:
  "lview [] a = None"
  "lview (s # ss) a = (if in_seg s a then Some (attr s a) else lview ss a)"
  by (simp_all add: lview_def)

lemma lT_simps [simp]: "lT [] a = False" "lT (s # ss) a = (in_seg s a \<and> hasT s \<or> lT ss a)"
  by (auto simp: lT_def)

lemma lview_append: "lview (xs @ ys) a = (case lview xs a of None \<Rightarrow> lview ys a | Some v \<Rightarrow> Some v)"
  by (simp add: lview_def seg_of_append split: option.split)

lemma lT_append: "lT (xs @ ys) a \<longleftrightarrow> lT xs a \<or> lT ys a"
  by (auto simp: lT_def)

lemma same_mem_append: "same_mem xs xs' \<Longrightarrow> same_mem ys ys' \<Longrightarrow> same_mem (xs @ ys) (xs' @ ys')"
  unfolding same_mem_def lview_append lT_append by (metis (no_types))

subsection \<open>Well-formed segments\<close>

definition client_kind :: "SegKind \<Rightarrow> bool" where
  "client_kind k \<longleftrightarrow> k = SkAnonC \<or> k = SkFileC"

text \<open>A segment passes the sanity check, and translations are only made from client memory.\<close>

definition seg_ok :: "SegName list \<Rightarrow> NSegment \<Rightarrow> bool" where
  "seg_ok sn s \<longleftrightarrow> sane_NSegment sn s \<and> (hasT s \<longrightarrow> client_kind (kind s))"

definition am_ok :: "am_state \<Rightarrow> bool" where
  "am_ok st \<longleftrightarrow> covers (nsegments st) \<and> (\<forall>s \<in> set (nsegments st). seg_ok (segnames st) s)"

text \<open>The check in two parts: the extent of a segment and the fields its kind allows.\<close>

definition extent_ok :: "NSegment \<Rightarrow> bool" where
  "extent_ok s \<longleftrightarrow> unat (start s) < unat (end' s) \<and> 4096 dvd unat (start s) \<and> 4096 dvd (unat (end' s) + 1)"

definition name_ok :: "SegName list \<Rightarrow> int \<Rightarrow> bool" where
  "name_ok sn j \<longleftrightarrow> j = -1 \<or> (j \<ge> 0 \<and> j < int (length sn) \<and> inUse (sn ! nat j))"

definition fields_ok :: "SegName list \<Rightarrow> NSegment \<Rightarrow> bool" where
  "fields_ok sn s \<longleftrightarrow>
     (kind s \<noteq> SkResvn \<longrightarrow> smode s = SmFixed) \<and> (isCH s \<longrightarrow> kind s = SkAnonC) \<and>
     (if kind s = SkFileC \<or> kind s = SkFileV then name_ok sn (fnIdx s)
      else dev s = 0 \<and> ino s = 0 \<and> offset s = 0 \<and> fnIdx s = -1) \<and>
     (kind s = SkFree \<or> kind s = SkResvn \<longrightarrow> \<not> hasR s \<and> \<not> hasW s \<and> \<not> hasX s \<and> \<not> hasT s)"

lemma sane_iff: "sane_NSegment sn s \<longleftrightarrow> extent_ok s \<and> \<not> mark s \<and> fields_ok sn s"
proof -
  have "extent_ok s \<longleftrightarrow> \<not> start s \<ge> end' s \<and> VG_IS_PAGE_ALIGNED (start s) \<and> VG_IS_PAGE_ALIGNED (end' s + 1)"
    by (simp only: extent_ok_def page_aligned_Suc) (simp add: page_aligned_dvd word_le_nat_alt not_le)
  then show ?thesis
    unfolding sane_NSegment_def fields_ok_def name_ok_def by (cases "kind s") auto
qed

lemma seg_ok_iff:
  "seg_ok sn s \<longleftrightarrow> extent_ok s \<and> \<not> mark s \<and> fields_ok sn s \<and> (hasT s \<longrightarrow> client_kind (kind s))"
  by (auto simp: seg_ok_def sane_iff)

lemma seg_ok_extent: "seg_ok sn s \<Longrightarrow> extent_ok s"
  by (simp add: seg_ok_iff)

lemma name_ok_mono:
  assumes "name_ok sn j" "\<And>i. j = int i \<Longrightarrow> i < length sn \<Longrightarrow> inUse (sn ! i) \<Longrightarrow> i < length sn' \<and> inUse (sn' ! i)"
  shows "name_ok sn' j"
  using assms(1) assms(2) [of "nat j"] by (auto simp: name_ok_def nat_less_iff)

lemma seg_ok_names_mono:
  assumes "seg_ok sn s"
    "\<And>i. fnIdx s = int i \<Longrightarrow> i < length sn \<Longrightarrow> inUse (sn ! i) \<Longrightarrow> i < length sn' \<and> inUse (sn' ! i)"
  shows "seg_ok sn' s"
  using assms(1) name_ok_mono [OF _ assms(2)] by (auto simp: seg_ok_iff fields_ok_def)

subsection \<open>Merging\<close>

lemma merge_base:
  assumes "maybe_merge_nsegments s1 s2 = Some s"
  shows "kind s2 = kind s1" "start s2 = end' s1 + 1" "start s1 \<le> end' s2"
  using assms unfolding maybe_merge_nsegments_def by (simp_all add: not_less split: if_split_asm)

lemma merge_result:
  assumes "maybe_merge_nsegments s1 s2 = Some s"
  shows "s = s1\<lparr>end' := end' s2, hasT := if kind s1 = SkFree \<or> kind s1 = SkResvn then hasT s1 else hasT s1 \<or> hasT s2\<rparr>"
    and "kind s1 = SkResvn \<Longrightarrow> smode s1 = smode s2"
    and "kind s1 \<noteq> SkFree \<Longrightarrow> kind s1 \<noteq> SkResvn \<Longrightarrow> hasR s1 = hasR s2 \<and> hasW s1 = hasW s2 \<and> hasX s1 = hasX s2"
    and "kind s1 = SkAnonC \<Longrightarrow> isCH s1 = isCH s2"
    and "kind s1 = SkFileC \<or> kind s1 = SkFileV \<Longrightarrow>
      dev s1 = dev s2 \<and> ino s1 = ino s2 \<and> offset s2 = offset s1 + start s2 - start s1"
  using assms merge_base [OF assms] unfolding maybe_merge_nsegments_def
  by (cases "kind s1"; simp split: if_split_asm)+

lemma maybe_merge_correct:
  assumes "maybe_merge_nsegments s1 s2 = Some s" "seg_ok sn s1" "seg_ok sn s2"
  shows "start s = start s1" "end' s = end' s2" "attr s = attr s1" "attr s = attr s2"
    "hasT s = (hasT s1 \<or> hasT s2)" "seg_ok sn s" "fnIdx s = fnIdx s1"
proof -
  note base = merge_base [OF assms(1)] and r = merge_result [OF assms(1)]
  show "start s = start s1" "end' s = end' s2" "attr s = attr s1" "fnIdx s = fnIdx s1"
    using r(1) by (simp_all add: attr_def fun_eq_iff)
  show "attr s = attr s2"
    using r base assms(2,3) by (cases "kind s1") (simp_all add: attr_def fun_eq_iff seg_ok_iff fields_ok_def)
  show "hasT s = (hasT s1 \<or> hasT s2)"
    using r(1) base assms(2,3) by (cases "kind s1") (simp_all add: seg_ok_iff fields_ok_def)
  have "extent_ok s"
    using aligned_page_fits [of "unat (start s1)" "unat (end' s2)"] base(3) r(1) assms(2,3)
    by (auto simp: seg_ok_iff extent_ok_def word_le_nat_alt)
  then show "seg_ok sn s"
    using r(1) base(1) assms(2,3) by (cases "kind s1") (simp_all add: seg_ok_iff fields_ok_def client_kind_def)
qed


lemma merge_pass_correct:
  "tiles n (w # rs) m \<Longrightarrow> \<forall>s \<in> set (w # rs). seg_ok sn s \<Longrightarrow>
     tiles n (merge_pass w rs) m \<and> same_mem (w # rs) (merge_pass w rs) \<and>
     (\<forall>s \<in> set (merge_pass w rs). seg_ok sn s) \<and>
     0 < length (merge_pass w rs) \<and> length (merge_pass w rs) \<le> length (w # rs)"
proof (induction rs arbitrary: w n)
  case (Cons r rs)
  show ?case
  proof (cases "maybe_merge_nsegments w r")
    case None
    then show ?thesis using Cons.IH [of "unat (end' w) + 1" r] Cons.prems
      by (auto simp: same_mem_def)
  next
    case (Some w')
    have ok: "seg_ok sn w" "seg_ok sn r" using Cons.prems(2) by auto
    note mm = maybe_merge_correct [OF Some ok]
    have adj: "unat (start r) = unat (end' w) + 1" "start w \<le> end' w" "start r \<le> end' r"
      using Cons.prems(1) by auto
    have in_w': "in_seg w' a \<longleftrightarrow> in_seg w a \<or> in_seg r a" for a
      using adj mm(1,2) by (auto simp: in_seg_nat word_le_nat_alt)
    have "tiles n (w' # rs) m" using Cons.prems(1) mm(1,2) by (auto simp: word_le_nat_alt)
    then have IH: "tiles n (merge_pass w' rs) m \<and> same_mem (w' # rs) (merge_pass w' rs) \<and>
       (\<forall>s \<in> set (merge_pass w' rs). seg_ok sn s) \<and>
       0 < length (merge_pass w' rs) \<and> length (merge_pass w' rs) \<le> length (w' # rs)"
      using Cons.prems(2) mm(6) by (intro Cons.IH) auto
    have "same_mem (w # r # rs) (w' # rs)"
      using mm(3-5) by (auto simp: same_mem_def in_w')
    then show ?thesis using IH Some same_mem_trans by fastforce
  qed
qed simp


lemma unat_Suc_imp: "unat (x :: 64 word) = unat y + 1 \<Longrightarrow> x = y + 1"
proof -
  assume "unat x = unat y + 1"
  then have "of_nat (unat x) = (of_nat (unat y + 1) :: 64 word)" by (rule arg_cong)
  then show "x = y + 1" by (simp only: of_nat_add of_nat_1 of_nat_unat ucast_id)
qed

text \<open>Merging leaves no two neighbouring free segments.\<close>

fun no_free_pair :: "NSegment list \<Rightarrow> bool" where
  "no_free_pair (x # y # zs) = (\<not> (kind x = SkFree \<and> kind y = SkFree) \<and> no_free_pair (y # zs))"
| "no_free_pair zs = True"

lemma merge_pass_hd: "\<exists>x xs. merge_pass w rs = x # xs \<and> kind x = kind w"
proof (induction rs arbitrary: w)
  case (Cons r rs)
  show ?case
  proof (cases "maybe_merge_nsegments w r")
    case (Some w')
    then have "kind w' = kind w" using merge_result(1) [OF Some] by simp
    then show ?thesis using Some Cons [of w'] by simp
  qed simp
qed simp

lemma merge_free: "unat (start r) = unat (end' w) + 1 \<Longrightarrow> start w \<le> end' w \<Longrightarrow> start r \<le> end' r \<Longrightarrow>
    kind w = SkFree \<Longrightarrow> kind r = SkFree \<Longrightarrow> maybe_merge_nsegments w r \<noteq> None"
  using unat_Suc_imp [of "start r" "end' w"] by (auto simp: maybe_merge_nsegments_def word_le_nat_alt word_less_nat_alt)

lemma merge_pass_no_free_pair: "tiles n (w # rs) m \<Longrightarrow> no_free_pair (merge_pass w rs)"
proof (induction rs arbitrary: w n)
  case (Cons r rs)
  show ?case
  proof (cases "maybe_merge_nsegments w r")
    case None
    obtain x xs where x: "merge_pass r rs = x # xs" "kind x = kind r" using merge_pass_hd by blast
    have "unat (start r) = unat (end' w) + 1" "start w \<le> end' w" "start r \<le> end' r" using Cons.prems by auto
    then have "\<not> (kind w = SkFree \<and> kind r = SkFree)" using merge_free None by blast
    then show ?thesis using None Cons.IH [of "unat (end' w) + 1" r] Cons.prems x by simp
  next
    case (Some w')
    have "start w' = start w" "end' w' = end' r" using merge_result(1) [OF Some] by simp_all
    then have "tiles n (w' # rs) m" using Cons.prems by (auto simp: word_le_nat_alt)
    then show ?thesis using Some Cons.IH by simp
  qed
qed simp

subsection \<open>Preening\<close>

lemma tiles_preen_check:
  "tiles n (prev # segs) m \<Longrightarrow> \<forall>s \<in> set segs. seg_ok sn s \<Longrightarrow> preen_check sn prev segs"
proof (induction segs arbitrary: n prev)
  case (Cons s ss)
  then have "unat (start s) = unat (end' prev) + 1" by simp
  then have "start s = end' prev + 1" by (rule unat_Suc_imp)
  then show ?case using Cons by (auto simp: seg_ok_def)
qed simp

lemma tiles_last: "tiles n segs m \<Longrightarrow> segs \<noteq> [] \<Longrightarrow> unat (end' (last segs)) + 1 = m"
  by (induction segs arbitrary: n) auto

text \<open>Marking leaves the marked names in use, and keeps the marks already made.\<close>

lemma mark_pass_correct:
  "\<forall>s \<in> set segs. name_ok sn (fnIdx s) \<Longrightarrow>
     \<exists>sn'. mark_pass segs sn = Some sn' \<and> length sn' = length sn \<and>
       (\<forall>i < length sn. inUse (sn' ! i) = inUse (sn ! i) \<and> (sn_mark (sn ! i) \<longrightarrow> sn_mark (sn' ! i))) \<and>
       (\<forall>s \<in> set segs. \<forall>i. fnIdx s = int i \<longrightarrow> sn_mark (sn' ! i))"
proof (induction segs arbitrary: sn)
  case (Cons s ss)
  define sn1 where "sn1 = (if fnIdx s \<ge> 0 then sn[nat (fnIdx s) := (sn ! nat (fnIdx s))\<lparr>sn_mark := True\<rparr>] else sn)"
  have use1: "inUse (sn1 ! i) = inUse (sn ! i)" if "i < length sn" for i
    using that by (cases "nat (fnIdx s) = i") (auto simp: sn1_def)
  have mark1: "sn_mark (sn ! i) \<longrightarrow> sn_mark (sn1 ! i)" if "i < length sn" for i
    using that by (cases "nat (fnIdx s) = i") (auto simp: sn1_def)
  have len1: "length sn1 = length sn" by (simp add: sn1_def)
  have "\<forall>s \<in> set ss. name_ok sn1 (fnIdx s)"
    using Cons.prems use1 len1 by (auto simp: name_ok_def)
  then obtain sn' where sn': "mark_pass ss sn1 = Some sn'" "length sn' = length sn1"
    "\<forall>i < length sn1. inUse (sn' ! i) = inUse (sn1 ! i) \<and> (sn_mark (sn1 ! i) \<longrightarrow> sn_mark (sn' ! i))"
    "\<forall>s \<in> set ss. \<forall>i. fnIdx s = int i \<longrightarrow> sn_mark (sn' ! i)"
    using Cons.IH by blast
  have ok: "name_ok sn (fnIdx s)" using Cons.prems by simp
  have "mark_pass (s # ss) sn = Some sn'"
    using sn'(1) ok by (auto simp: name_ok_def sn1_def Let_def split: if_splits)
  moreover have "sn_mark (sn' ! i)" if "fnIdx s = int i" for i
    using sn'(3) ok that by (auto simp: name_ok_def sn1_def)
  moreover have "inUse (sn' ! i) = inUse (sn ! i) \<and> (sn_mark (sn ! i) \<longrightarrow> sn_mark (sn' ! i))" if "i < length sn" for i
    using sn'(3) use1 mark1 len1 that by simp
  ultimately show ?case using sn'(2,4) len1 by auto
qed simp

lemma seg_ok_name: "seg_ok sn s \<Longrightarrow> name_ok sn (fnIdx s)"
  by (auto simp: seg_ok_iff fields_ok_def name_ok_def split: if_splits)

lemma preen_correct:
  assumes "am_ok st"
  obtains b segs' sn' where "preen_nsegments st = Some (b, st\<lparr>nsegments := segs', segnames := sn'\<rparr>)"
    "am_ok (st\<lparr>nsegments := segs', segnames := sn'\<rparr>)" "same_mem (nsegments st) segs'"
    "length segs' \<le> length (nsegments st)" "length sn' = length (segnames st)" "no_free_pair segs'"
proof -
  let ?segs = "nsegments st" and ?sn = "segnames st"
  have cov: "covers ?segs" and ok: "\<forall>s \<in> set ?segs. seg_ok ?sn s" using assms by (auto simp: am_ok_def)
  obtain w rs where segs: "?segs = w # rs" using cov by (cases ?segs) auto
  have ok': "\<forall>s \<in> set (w # rs). seg_ok ?sn s" using ok segs by simp
  have mp: "covers (merge_pass w rs)" "same_mem ?segs (merge_pass w rs)"
     "\<forall>s \<in> set (merge_pass w rs). seg_ok ?sn s" "0 < length (merge_pass w rs)" "length (merge_pass w rs) \<le> length ?segs"
    using merge_pass_correct [OF _ ok'] cov segs by auto
  let ?cleared = "map (\<lambda>n. n\<lparr>sn_mark := False\<rparr>) ?sn"
  have "\<forall>s \<in> set (merge_pass w rs). name_ok ?cleared (fnIdx s)"
  proof
    fix s assume "s \<in> set (merge_pass w rs)"
    then have "seg_ok ?sn s" using mp(3) by simp
    then have "name_ok ?sn (fnIdx s)" by (rule seg_ok_name)
    then show "name_ok ?cleared (fnIdx s)" by (rule name_ok_mono) simp
  qed
  then obtain sn' where sn': "mark_pass (merge_pass w rs) ?cleared = Some sn'" "length sn' = length ?sn"
    "\<forall>i < length ?sn. inUse (sn' ! i) = inUse (?sn ! i)"
    "\<forall>s \<in> set (merge_pass w rs). \<forall>i. fnIdx s = int i \<longrightarrow> sn_mark (sn' ! i)"
    using mark_pass_correct [of "merge_pass w rs" ?cleared] by auto
  have head: "start w = 0" "sane_NSegment ?sn w" using cov ok by (auto simp: segs seg_ok_def unsigned_eq_0_iff)
  have "unat (end' (last ?segs)) = 2 ^ 64 - 1" using tiles_last [OF cov] segs by simp
  then have last: "end' (last ?segs) = - 1" by (simp add: word_unat_eq_iff unsigned_minus_1_eq_mask mask_eq_exp_minus_1)
  have chk: "preen_check ?sn w rs" using tiles_preen_check cov ok segs by fastforce
  have "preen_nsegments st = Some (length (merge_pass w rs) \<noteq> length ?segs,
      st\<lparr>nsegments := merge_pass w rs, segnames := release_pass sn'\<rparr>)"
    using head chk mp(4,5) sn'(1) last last_conv_nth [of "w # rs"] by (simp add: preen_nsegments_def Let_def segs)
  moreover have "seg_ok (release_pass sn') s" if s: "s \<in> set (merge_pass w rs)" for s
  proof (rule seg_ok_names_mono)
    show "seg_ok ?sn s" using s mp(3) by simp
    fix i assume i: "fnIdx s = int i" "i < length ?sn" "inUse (?sn ! i)"
    then have "sn_mark (sn' ! i)" "inUse (sn' ! i)" "i < length sn'" using sn'(2-4) s by simp_all
    then show "i < length (release_pass sn') \<and> inUse (release_pass sn' ! i)" by (simp add: release_pass_def)
  qed
  moreover have "no_free_pair (merge_pass w rs)" using merge_pass_no_free_pair [of 0 w rs "2 ^ 64"] cov segs by simp
  ultimately show thesis using mp sn'(2) that by (simp add: am_ok_def release_pass_def)
qed

subsection \<open>Splitting\<close>

definition split_lo :: "NSegment \<Rightarrow> Addr \<Rightarrow> NSegment" where
  "split_lo s a = s\<lparr>end' := a - 1\<rparr>"

definition split_hi :: "NSegment \<Rightarrow> Addr \<Rightarrow> NSegment" where
  "split_hi s a = (if kind s = SkFileV \<or> kind s = SkFileC
     then s\<lparr>start := a, offset := offset s + (a - start s)\<rparr> else s\<lparr>start := a\<rparr>)"

lemma unat_pred: "0 < (a :: 64 word) \<Longrightarrow> unat (a - 1) + 1 = unat a"
  by (simp add: unat_minus_one word_greater_zero_iff unat_gt_0)

lemma split_parts:
  assumes "seg_ok sn s" "in_seg s a" "start s \<noteq> a" "4096 dvd unat a"
  shows "seg_ok sn (split_lo s a)" "seg_ok sn (split_hi s a)"
    "attr (split_lo s a) = attr s" "attr (split_hi s a) = attr s"
    "start (split_lo s a) = start s" "unat (end' (split_lo s a)) + 1 = unat a"
    "start (split_hi s a) = a" "end' (split_hi s a) = end' s"
    "hasT (split_lo s a) = hasT s" "hasT (split_hi s a) = hasT s"
    "in_seg (split_lo s a) x \<or> in_seg (split_hi s a) x \<longleftrightarrow> in_seg s x"
proof -
  have lt: "unat (start s) < unat a" "unat a \<le> unat (end' s)"
    using assms(2,3) by (auto simp: in_seg_nat word_unat_eq_iff)
  then have "0 < a" by (simp add: word_less_nat_alt)
  then have p: "unat (a - 1) + 1 = unat a" by (rule unat_pred)
  have ext: "4096 dvd unat (start s)" "4096 dvd (unat (end' s) + 1)"
    using assms(1) by (auto simp: seg_ok_iff extent_ok_def)
  have e1: "unat (start s) < unat (a - 1)" "unat a < unat (end' s)"
    using aligned_page_fits [of "unat (start s)" "unat (a - 1)"] aligned_page_fits [of "unat a" "unat (end' s)"]
      ext assms(4) p lt by auto
  show "seg_ok sn (split_lo s a)" "seg_ok sn (split_hi s a)"
    using assms(1,4) e1 p by (auto simp: seg_ok_iff extent_ok_def fields_ok_def split_lo_def split_hi_def)
  show "attr (split_lo s a) = attr s" "attr (split_hi s a) = attr s"
    by (auto simp: attr_def split_lo_def split_hi_def fun_eq_iff)
  show "start (split_lo s a) = start s" "unat (end' (split_lo s a)) + 1 = unat a"
    "start (split_hi s a) = a" "end' (split_hi s a) = end' s"
    "hasT (split_lo s a) = hasT s" "hasT (split_hi s a) = hasT s"
    using p by (auto simp: split_lo_def split_hi_def)
  show "in_seg (split_lo s a) x \<or> in_seg (split_hi s a) x \<longleftrightarrow> in_seg s x"
    using p lt by (auto simp: in_seg_nat split_lo_def split_hi_def)
qed

lemma split_correct:
  assumes "am_ok st" "0 < a" "VG_IS_PAGE_ALIGNED a"
    "length (nsegments st) < VG_N_SEGMENTS \<or> split_nsegment_at a st \<noteq> None"
  obtains segs' where "split_nsegment_at a st = Some (st\<lparr>nsegments := segs'\<rparr>)"
    "am_ok (st\<lparr>nsegments := segs'\<rparr>)" "same_mem (nsegments st) segs'" "lT segs' = lT (nsegments st)"
    "length segs' \<le> Suc (length (nsegments st))" "start ` set segs' = insert a (start ` set (nsegments st))"
proof -
  let ?segs = "nsegments st"
  have cov: "covers ?segs" and ok: "\<forall>s \<in> set ?segs. seg_ok (segnames st) s" using assms(1) by (auto simp: am_ok_def)
  obtain i where i: "find_nsegment_idx a st = Some i" "i < length ?segs" "in_seg (?segs ! i) a"
    using find_nsegment_idx_correct [OF cov] by metis
  show thesis
  proof (cases "start (?segs ! i) = a")
    case True
    then have "split_nsegment_at a st = Some (st\<lparr>nsegments := ?segs\<rparr>)"
      using assms(2,3) i by (simp add: split_nsegment_at_def Let_def)
    moreover have "insert a (start ` set ?segs) = start ` set ?segs"
      using True i(2) by (force simp: insert_absorb)
    ultimately show thesis using assms(1) by (intro that [of ?segs]) auto
  next
    case False
    let ?s = "?segs ! i"
    have s: "seg_ok (segnames st) ?s" using ok i(2) by simp
    note parts = split_parts [OF s i(3) False assms(3) [unfolded page_aligned_dvd]]
    let ?new = "take i ?segs @ [split_lo ?s a, split_hi ?s a] @ drop (Suc i) ?segs"
    have old: "?segs = take i ?segs @ [?s] @ drop (Suc i) ?segs" using i(2) by (simp add: id_take_nth_drop)
    have room: "length ?segs < VG_N_SEGMENTS"
      using assms(2-4) i False by (auto simp: split_nsegment_at_def Let_def split: if_splits)
    have "split_nsegment_at a st = Some (st\<lparr>nsegments := ?new\<rparr>)"
      using assms(2,3) room i False parts(1,2)
      by (auto simp: split_nsegment_at_def Let_def seg_ok_def split_lo_def split_hi_def)
    moreover have "covers ?new"
      using tiles_split [OF cov i(2)] parts(5-8) seg_ok_extent [OF parts(1)] seg_ok_extent [OF parts(2)]
      by (auto simp: tiles_append extent_ok_def word_le_nat_alt)
    moreover have "\<forall>s \<in> set ?new. seg_ok (segnames st) s"
      using ok parts(1,2) by (auto dest: in_set_takeD in_set_dropD)
    moreover have "same_mem ?segs ?new" "lT ?new = lT ?segs"
    proof -
      have "same_mem [?s] [split_lo ?s a, split_hi ?s a]" "lT [split_lo ?s a, split_hi ?s a] = lT [?s]"
        using parts(3,4,9-11) by (auto simp: same_mem_def fun_eq_iff)
      then have "same_mem (take i ?segs @ [?s] @ drop (Suc i) ?segs) ?new \<and>
        lT ?new = lT (take i ?segs @ [?s] @ drop (Suc i) ?segs)"
        by (simp only: fun_eq_iff lT_append same_mem_append same_mem_refl simp_thms)
      then show "same_mem ?segs ?new" "lT ?new = lT ?segs" by (simp_all only: old [symmetric])
    qed
    moreover have "start ` set ?new = insert a (start ` set ?segs)"
    proof -
      have "start ` set ?new = insert a (start ` set (take i ?segs @ [?s] @ drop (Suc i) ?segs))"
        using parts(5,7) by auto
      then show ?thesis by (simp only: old [symmetric])
    qed
    ultimately show thesis using i(2) by (intro that [of ?new]) (auto simp: am_ok_def)
  qed
qed

lemma unat_succ: "a \<noteq> -1 \<Longrightarrow> unat (a + 1) = unat (a :: 64 word) + 1"
proof -
  assume "a \<noteq> -1"
  then have "a + 1 \<noteq> 0" by (simp add: add_eq_0_iff2)
  then show ?thesis using unat_pred [of "a + 1"] by (simp add: word_gt_0)
qed

lemma start_found:
  assumes "covers segs" "a \<in> start ` set segs" "i < length segs" "in_seg (segs ! i) a"
  shows "start (segs ! i) = a"
proof -
  obtain s where s: "s \<in> set segs" "start s = a" using assms(2) by blast
  then have "in_seg s a" using tiles_bounds [OF assms(1) s(1)] by (simp add: in_seg_nat)
  then have "seg_of segs a = Some s" by (rule tiles_unique [OF assms(1) s(1)])
  moreover have "seg_of segs a = Some (segs ! i)"
    by (rule tiles_unique [OF assms(1) nth_mem [OF assms(3)] assms(4)])
  ultimately have "s = segs ! i" by simp
  then show ?thesis using s(2) by simp
qed

lemma end_found:
  assumes "covers segs" "a = -1 \<or> a + 1 \<in> start ` set segs" "i < length segs" "in_seg (segs ! i) a"
  shows "end' (segs ! i) = a"
proof (rule ccontr)
  assume ne: "end' (segs ! i) \<noteq> a"
  then have lt: "unat a < unat (end' (segs ! i))" using assms(4) by (auto simp: in_seg_nat word_unat_eq_iff)
  have "a \<noteq> -1"
  proof
    assume "a = -1"
    then show False using lt unsigned_less [of "end' (segs ! i)", where 'a = nat]
      by (simp add: unsigned_minus_1_eq_mask mask_eq_exp_minus_1)
  qed
  then have "unat (a + 1) = unat a + 1" by (rule unat_succ)
  then have "in_seg (segs ! i) (a + 1)" "start (segs ! i) \<noteq> a + 1"
    using lt assms(4) by (auto simp: in_seg_nat)
  then show False using start_found [OF assms(1) _ assms(3)] assms(2) \<open>a \<noteq> -1\<close> by blast
qed

lemma split_lo_and_hi_correct:
  assumes "am_ok st" "sLo < sHi" "VG_IS_PAGE_ALIGNED sLo" "VG_IS_PAGE_ALIGNED (sHi + 1)"
    "length (nsegments st) + 2 \<le> VG_N_SEGMENTS \<or> split_nsegments_lo_and_hi sLo sHi st \<noteq> None"
  obtains iLo iHi segs' where
    "split_nsegments_lo_and_hi sLo sHi st = Some ((iLo, iHi), st\<lparr>nsegments := segs'\<rparr>)"
    "am_ok (st\<lparr>nsegments := segs'\<rparr>)" "same_mem (nsegments st) segs'" "lT segs' = lT (nsegments st)"
    "length segs' \<le> length (nsegments st) + 2" "iLo \<le> iHi" "iHi < length segs'"
    "start (segs' ! iLo) = sLo" "end' (segs' ! iHi) = sHi"
proof -
  obtain segs1 where s1: "(if sLo > 0 then split_nsegment_at sLo st else Some st) = Some (st\<lparr>nsegments := segs1\<rparr>)"
    "am_ok (st\<lparr>nsegments := segs1\<rparr>)" "same_mem (nsegments st) segs1" "lT segs1 = lT (nsegments st)"
    "length segs1 \<le> Suc (length (nsegments st))" "sLo = 0 \<or> sLo \<in> start ` set segs1"
  proof (cases "sLo > 0")
    case True
    have "length (nsegments st) < VG_N_SEGMENTS \<or> split_nsegment_at sLo st \<noteq> None"
      using assms(2-5) True by (auto simp: split_nsegments_lo_and_hi_def)
    then obtain segs1 where "split_nsegment_at sLo st = Some (st\<lparr>nsegments := segs1\<rparr>)"
      "am_ok (st\<lparr>nsegments := segs1\<rparr>)" "same_mem (nsegments st) segs1" "lT segs1 = lT (nsegments st)"
      "length segs1 \<le> Suc (length (nsegments st))" "start ` set segs1 = insert sLo (start ` set (nsegments st))"
      using split_correct [OF assms(1) True assms(3)] by auto
    then show thesis using True by (intro that [of segs1]) auto
  next
    case False
    then show thesis using assms(1) by (intro that [of "nsegments st"]) (auto simp: word_gt_0)
  qed
  let ?st1 = "st\<lparr>nsegments := segs1\<rparr>"
  obtain segs2 where s2: "(if sHi < sHi + 1 then split_nsegment_at (sHi + 1) ?st1 else Some ?st1) = Some (st\<lparr>nsegments := segs2\<rparr>)"
    "am_ok (st\<lparr>nsegments := segs2\<rparr>)" "same_mem segs1 segs2" "lT segs2 = lT segs1"
    "length segs2 \<le> Suc (length segs1)" "sHi = -1 \<or> sHi + 1 \<in> start ` set segs2" "start ` set segs1 \<subseteq> start ` set segs2"
  proof (cases "sHi < sHi + 1")
    case True
    then have "0 < sHi + 1" by (rule le_less_trans [OF word_zero_le])
    moreover have "length (nsegments ?st1) < VG_N_SEGMENTS \<or> split_nsegment_at (sHi + 1) ?st1 \<noteq> None"
      using s1(1,5) assms(2-5) True by (auto simp: split_nsegments_lo_and_hi_def)
    ultimately obtain segs2 where "split_nsegment_at (sHi + 1) ?st1 = Some (?st1\<lparr>nsegments := segs2\<rparr>)"
      "am_ok (?st1\<lparr>nsegments := segs2\<rparr>)" "same_mem segs1 segs2" "lT segs2 = lT segs1"
      "length segs2 \<le> Suc (length segs1)" "start ` set segs2 = insert (sHi + 1) (start ` set segs1)"
      using split_correct [OF s1(2) _ assms(4)] by auto
    then show thesis using True by (intro that [of segs2]) auto
  next
    case False
    then have "sHi = -1" using unat_succ [of sHi] by (auto simp: word_less_nat_alt)
    then show thesis using s1(2) False by (intro that [of segs1]) auto
  qed
  have cov: "covers segs2" using s2(2) by (simp add: am_ok_def)
  let ?st2 = "st\<lparr>nsegments := segs2\<rparr>"
  obtain iLo where lo: "find_nsegment_idx sLo ?st2 = Some iLo" "iLo < length segs2" "in_seg (segs2 ! iLo) sLo"
    using find_nsegment_idx_correct [of ?st2 sLo] cov by auto
  obtain iHi where hi: "find_nsegment_idx sHi ?st2 = Some iHi" "iHi < length segs2" "in_seg (segs2 ! iHi) sHi"
    using find_nsegment_idx_correct [of ?st2 sHi] cov by auto
  have *: "start (segs2 ! iLo) = sLo"
    using start_found [OF cov _ lo(2,3)] s1(6) s2(7) lo(3) by (auto simp: in_seg_def)
  have **: "end' (segs2 ! iHi) = sHi" using end_found [OF cov s2(6) hi(2,3)] .
  have le: "iLo \<le> iHi"
  proof (rule ccontr)
    assume "\<not> iLo \<le> iHi"
    then have "unat sHi < unat sLo" using tiles_mono [OF cov, of iHi iLo] lo(2) * ** by simp
    then show False using assms(2) by (simp add: word_less_nat_alt)
  qed
  show thesis
  proof (rule that)
    show "split_nsegments_lo_and_hi sLo sHi st = Some ((iLo, iHi), ?st2)"
      unfolding split_nsegments_lo_and_hi_def using assms(2-4) s1(1) s2(1) lo hi * ** le by simp
    show "same_mem (nsegments st) segs2" by (rule same_mem_trans [OF s1(3) s2(3)])
    show "length segs2 \<le> length (nsegments st) + 2" using s1(5) s2(5) by simp
  qed (use s2(2,4) s1(4) hi(2) * ** le in simp_all)
qed


subsection \<open>Replacing a range\<close>

lemma tiles_end_unique: "tiles n xs m \<Longrightarrow> tiles n xs m' \<Longrightarrow> m = m'"
  by (induction xs arbitrary: n) auto

lemma lview3:
  assumes "tiles n A l" "tiles l B h" "tiles h C m"
  shows "lview (A @ B @ C) x = (if unat x < l then lview A x else if unat x < h then lview B x else lview C x)"
    and "lT (A @ B @ C) x = (if unat x < l then lT A x else if unat x < h then lT B x else lT C x)"
proof -
  have None: "lview xs x = None \<and> \<not> lT xs x" if "tiles p xs q" "unat x < p \<or> q \<le> unat x" for p xs q
    using tiles_seg_of_None [OF that] tiles_bounds [OF that(1)] that(2)
    by (fastforce simp: lview_def lT_def in_seg_nat)
  have "n \<le> l" "l \<le> h" "h \<le> m" using assms tiles_le by blast+
  then show "lview (A @ B @ C) x = (if unat x < l then lview A x else if unat x < h then lview B x else lview C x)"
    and "lT (A @ B @ C) x = (if unat x < l then lT A x else if unat x < h then lT B x else lT C x)"
    using None [OF assms(1)] None [OF assms(2)] None [OF assms(3)]
    by (auto simp: lview_append lT_append split: option.split)
qed

text \<open>Replacing the segments from one index to another by segments that cover the same range.\<close>

lemma replace_range:
  assumes "covers segs" "iLo \<le> iHi" "iHi < length segs"
    "tiles (unat (start (segs ! iLo))) new (unat (end' (segs ! iHi)) + 1)"
  shows "covers (take iLo segs @ new @ drop (Suc iHi) segs)"
    and "lview (take iLo segs @ new @ drop (Suc iHi) segs) x =
      (if start (segs ! iLo) \<le> x \<and> x \<le> end' (segs ! iHi) then lview new x else lview segs x)"
    and "lT (take iLo segs @ new @ drop (Suc iHi) segs) x =
      (if start (segs ! iLo) \<le> x \<and> x \<le> end' (segs ! iHi) then lT new x else lT segs x)"
proof -
  let ?A = "take iLo segs" and ?B = "seg_range segs iLo iHi" and ?C = "drop (Suc iHi) segs"
  let ?l = "unat (start (segs ! iLo))" and ?h = "unat (end' (segs ! iHi)) + 1"
  have iLo: "iLo < length segs" using assms(2,3) by simp
  have "?A @ ?B = take (Suc iHi) segs"
    using assms(2) take_add [of iLo "Suc iHi - iLo" segs] by (simp add: seg_range_def)
  then have segs: "segs = ?A @ ?B @ ?C" by (metis append.assoc append_take_drop_id)
  have A: "tiles 0 ?A ?l" and C: "tiles ?h ?C (2 ^ 64)"
    using tiles_split(1) [OF assms(1) iLo] tiles_split(2) [OF assms(1,3)] .
  obtain k where "tiles 0 ?A k" "tiles k ?B ?h"
    using tiles_take_Suc [OF assms(1,3)] \<open>?A @ ?B = take (Suc iHi) segs\<close> tiles_append by metis
  then have B: "tiles ?l ?B ?h" using tiles_end_unique [OF A] by simp
  show "covers (?A @ new @ ?C)" using A assms(4) C by (auto simp: tiles_append)
  have r: "start (segs ! iLo) \<le> x \<and> x \<le> end' (segs ! iHi) \<longleftrightarrow> \<not> unat x < ?l \<and> unat x < ?h"
    by (auto simp: word_le_nat_alt)
  note new = lview3 [OF A assms(4) C, of x] and old = lview3 [OF A B C, of x]
  have le: "?l \<le> ?h" using tiles_le [OF assms(4)] .
  show "lview (?A @ new @ ?C) x = (if start (segs ! iLo) \<le> x \<and> x \<le> end' (segs ! iHi) then lview new x else lview segs x)"
    using new(1) old(1) le unfolding r segs [symmetric] by auto
  show "lT (?A @ new @ ?C) x = (if start (segs ! iLo) \<le> x \<and> x \<le> end' (segs ! iHi) then lT new x else lT segs x)"
    using new(2) old(2) le unfolding r segs [symmetric] by auto
qed

subsection \<open>Adding a segment\<close>

definition am_view :: "am_state \<Rightarrow> Addr \<Rightarrow> page_attr option" where
  "am_view st = lview (nsegments st)"

definition am_T :: "am_state \<Rightarrow> Addr \<Rightarrow> bool" where
  "am_T st = lT (nsegments st)"

text \<open>The rest of the state: everything but the two tables.\<close>

definition same_rest :: "am_state \<Rightarrow> am_state \<Rightarrow> bool" where
  "same_rest st st' \<longleftrightarrow> (\<exists>segs sn. st' = st\<lparr>nsegments := segs, segnames := sn\<rparr>)"

lemma same_restD:
  assumes "same_rest st st'"
  shows "aspacem_minAddr st' = aspacem_minAddr st" "aspacem_maxAddr st' = aspacem_maxAddr st"
    "aspacem_cStart st' = aspacem_cStart st" "aspacem_vStart st' = aspacem_vStart st" "syscalls st' = syscalls st"
  using assms by (auto simp: same_rest_def)

lemma same_rest_refl [simp]: "same_rest st st"
  unfolding same_rest_def by (rule exI [of _ "nsegments st"], rule exI [of _ "segnames st"]) simp

text \<open>Memory after a change in one range: the view and the record of translations.\<close>

definition updates_range :: "am_state \<Rightarrow> Addr \<Rightarrow> Addr \<Rightarrow> (Addr \<Rightarrow> page_attr option) \<Rightarrow> am_state \<Rightarrow> bool" where
  "updates_range st lo hi f st' \<longleftrightarrow>
     (\<forall>x. am_view st' x = (if lo \<le> x \<and> x \<le> hi then f x else am_view st x)) \<and>
     (\<forall>x. am_T st x \<and> \<not> (lo \<le> x \<and> x \<le> hi) \<longrightarrow> am_T st' x)"

lemma replace_preen:
  assumes "am_ok st" "iLo \<le> iHi" "iHi < length (nsegments st)"
    "tiles (unat (start (nsegments st ! iLo))) new (unat (end' (nsegments st ! iHi)) + 1)"
    "\<forall>s \<in> set new. seg_ok (segnames st) s"
  obtains b st' where
    "preen_nsegments (st\<lparr>nsegments := take iLo (nsegments st) @ new @ drop (Suc iHi) (nsegments st)\<rparr>) = Some (b, st')"
    "am_ok st'" "same_rest st st'" "length (nsegments st') \<le> length (nsegments st) + length new"
    "updates_range st (start (nsegments st ! iLo)) (end' (nsegments st ! iHi)) (lview new) st'"
    "length (segnames st') = length (segnames st)" "no_free_pair (nsegments st')"
proof -
  let ?segs = "nsegments st"
  let ?new = "take iLo ?segs @ new @ drop (Suc iHi) ?segs"
  have cov: "covers ?segs" using assms(1) by (simp add: am_ok_def)
  note r = replace_range [OF cov assms(2-4)]
  have "am_ok (st\<lparr>nsegments := ?new\<rparr>)"
    using r(1) assms(1,5) by (auto simp: am_ok_def dest: in_set_takeD in_set_dropD)
  then obtain b segs' sn' where
    "preen_nsegments (st\<lparr>nsegments := ?new\<rparr>) = Some (b, (st\<lparr>nsegments := ?new\<rparr>)\<lparr>nsegments := segs', segnames := sn'\<rparr>)"
    "am_ok ((st\<lparr>nsegments := ?new\<rparr>)\<lparr>nsegments := segs', segnames := sn'\<rparr>)"
    "same_mem (nsegments (st\<lparr>nsegments := ?new\<rparr>)) segs'"
    "length segs' \<le> length (nsegments (st\<lparr>nsegments := ?new\<rparr>))"
    "length sn' = length (segnames (st\<lparr>nsegments := ?new\<rparr>))" "no_free_pair segs'"
    by (rule preen_correct)
  then have p: "preen_nsegments (st\<lparr>nsegments := ?new\<rparr>) = Some (b, st\<lparr>nsegments := segs', segnames := sn'\<rparr>)"
    "am_ok (st\<lparr>nsegments := segs', segnames := sn'\<rparr>)" "same_mem ?new segs'"
    "length segs' \<le> length ?new" "length sn' = length (segnames st)" "no_free_pair segs'"
    by simp_all
  show thesis
  proof (rule that [OF p(1,2)])
    show "same_rest st (st\<lparr>nsegments := segs', segnames := sn'\<rparr>)" by (auto simp: same_rest_def)
    show "length (nsegments (st\<lparr>nsegments := segs', segnames := sn'\<rparr>)) \<le> length ?segs + length new"
      using p(4) assms(2,3) by simp
    show "updates_range st (start (?segs ! iLo)) (end' (?segs ! iHi)) (lview new) (st\<lparr>nsegments := segs', segnames := sn'\<rparr>)"
      using p(3) r(2,3) by (auto simp: updates_range_def am_view_def am_T_def same_mem_def)
  qed (use p(5,6) in simp_all)
qed

lemma extent_aligned:
  "extent_ok s \<Longrightarrow> VG_IS_PAGE_ALIGNED (start s) \<and> VG_IS_PAGE_ALIGNED (end' s + 1) \<and> start s < end' s"
  by (simp only: extent_ok_def page_aligned_Suc) (simp add: page_aligned_dvd word_less_nat_alt)

text \<open>The main fact on the segment array: adding a segment gives its range the segment's
  attributes and leaves every other address alone.\<close>

lemma add_segment_correct:
  assumes "am_ok st" "seg_ok (segnames st) seg"
    "length (nsegments st) + 2 \<le> VG_N_SEGMENTS \<or> add_segment seg st \<noteq> None"
  obtains st' where "add_segment seg st = Some st'" "am_ok st'" "same_rest st st'"
    "length (nsegments st') \<le> length (nsegments st) + 3"
    "updates_range st (start seg) (end' seg) (\<lambda>x. Some (attr seg x)) st'"
    "length (segnames st') = length (segnames st)" "no_free_pair (nsegments st')"
proof -
  have ext: "VG_IS_PAGE_ALIGNED (start seg)" "VG_IS_PAGE_ALIGNED (end' seg + 1)" "start seg < end' seg"
    using extent_aligned [OF seg_ok_extent [OF assms(2)]] by auto
  have room: "length (nsegments st) + 2 \<le> VG_N_SEGMENTS \<or>
      split_nsegments_lo_and_hi (start seg) (end' seg) st \<noteq> None"
    using assms(3) by (cases "split_nsegments_lo_and_hi (start seg) (end' seg) st") (auto simp: add_segment_def Let_def split: if_splits)
  obtain iLo iHi segs where sp: "split_nsegments_lo_and_hi (start seg) (end' seg) st = Some ((iLo, iHi), st\<lparr>nsegments := segs\<rparr>)"
    "am_ok (st\<lparr>nsegments := segs\<rparr>)" "same_mem (nsegments st) segs" "lT segs = lT (nsegments st)"
    "length segs \<le> length (nsegments st) + 2" "iLo \<le> iHi" "iHi < length segs"
    "start (segs ! iLo) = start seg" "end' (segs ! iHi) = end' seg"
    using split_lo_and_hi_correct [OF assms(1) ext(3,1,2) room] by metis
  have t: "tiles (unat (start seg)) [seg] (unat (end' seg) + 1)" using ext(3) by simp
  obtain b st' where p: "preen_nsegments (st\<lparr>nsegments := take iLo segs @ [seg] @ drop (Suc iHi) segs\<rparr>) = Some (b, st')"
    "am_ok st'" "same_rest (st\<lparr>nsegments := segs\<rparr>) st'" "length (nsegments st') \<le> length segs + 1"
    "updates_range (st\<lparr>nsegments := segs\<rparr>) (start seg) (end' seg) (lview [seg]) st'"
    "length (segnames st') = length (segnames st)" "no_free_pair (nsegments st')"
    using replace_preen [OF sp(2), of iLo iHi "[seg]"] sp(6-9) t assms(2) by auto
  show thesis
  proof (rule that)
    show "add_segment seg st = Some st'"
      using ext assms(2) sp(1) p(1) by (simp add: add_segment_def Let_def seg_ok_def)
    show "same_rest st st'" using p(3) by (auto simp: same_rest_def)
    show "updates_range st (start seg) (end' seg) (\<lambda>x. Some (attr seg x)) st'"
      using p(5) sp(3,4) by (auto simp: updates_range_def am_view_def am_T_def same_mem_def in_seg_def)
  qed (use p(2,4,6,7) sp(5) in simp_all)
qed

subsection \<open>Queries on ranges\<close>

lemma range_nowrap:
  assumes "len \<noteq> 0" "\<not> a + len < (a :: 64 word)"
  shows "unat (a + len - 1) = unat a + unat len - 1" "unat (a + len) = unat a + unat len"
    "a \<le> a + len - 1" "unat a + unat len < 2 ^ 64"
proof -
  have "a \<le> a + len" using assms(2) by simp
  then show s: "unat (a + len) = unat a + unat len" by (rule unat_plus_simple [THEN iffD1])
  have "0 < a + len" using assms(1) s by (simp add: word_less_nat_alt unat_gt_0)
  then show p: "unat (a + len - 1) = unat a + unat len - 1" using unat_pred s by fastforce
  show "a \<le> a + len - 1" using p assms(1) unat_gt_0 [of len] by (simp add: word_le_nat_alt)
  show "unat a + unat len < 2 ^ 64" using s unsigned_less [of "a + len", where 'a = nat] by simp
qed

lemma page_aligned_end:
  assumes "len \<noteq> 0" "VG_IS_PAGE_ALIGNED a" "VG_IS_PAGE_ALIGNED len" "\<not> a + len < a"
  shows "VG_IS_PAGE_ALIGNED (a + len - 1 + 1)" "a < a + len - 1"
proof -
  have d: "4096 dvd unat a" "4096 dvd unat len" using assms(2,3) by (simp_all add: page_aligned_dvd)
  show "VG_IS_PAGE_ALIGNED (a + len - 1 + 1)"
    using d range_nowrap(2) [OF assms(1,4)] by (simp add: page_aligned_dvd)
  have "4096 \<le> unat len" using d(2) assms(1) by (simp add: dvd_imp_le unat_gt_0)
  then show "a < a + len - 1" using range_nowrap(1) [OF assms(1,4)] by (simp add: word_less_nat_alt)
qed

text \<open>The segments between the two found indices are exactly those of the addresses in between.\<close>

lemma range_found:
  assumes "am_ok st" "a \<le> b"
  obtains iLo iHi where "find_nsegment_idx a st = Some iLo" "find_nsegment_idx b st = Some iHi"
    "iLo < length (nsegments st)" "iHi < length (nsegments st)"
    "in_seg (nsegments st ! iLo) a" "in_seg (nsegments st ! iHi) b"
    "set (seg_range (nsegments st) iLo iHi) = {s \<in> set (nsegments st). \<exists>x. a \<le> x \<and> x \<le> b \<and> in_seg s x}"
proof -
  have cov: "covers (nsegments st)" using assms(1) by (simp add: am_ok_def)
  obtain iLo where lo: "find_nsegment_idx a st = Some iLo" "iLo < length (nsegments st)" "in_seg (nsegments st ! iLo) a"
    using find_nsegment_idx_correct [OF cov, of a] by metis
  obtain iHi where hi: "find_nsegment_idx b st = Some iHi" "iHi < length (nsegments st)" "in_seg (nsegments st ! iHi) b"
    using find_nsegment_idx_correct [OF cov, of b] by metis
  show thesis using that [OF lo(1) hi(1) lo(2) hi(2) lo(3) hi(3)] seg_range_set [OF cov lo(2) hi(2) lo(3) hi(3) assms(2)] .
qed

text \<open>A condition on segments that depends only on the attributes holds of all segments of a range
  exactly when it holds of the view of all its addresses.\<close>

lemma range_view:
  assumes "am_ok st" "set segs = {s \<in> set (nsegments st). \<exists>x. a \<le> x \<and> x \<le> b \<and> in_seg s x}"
    "\<And>s x. P s = Q (attr s x)"
  shows "list_all P segs \<longleftrightarrow> (\<forall>x. a \<le> x \<and> x \<le> b \<longrightarrow> (\<exists>pa. am_view st x = Some pa \<and> Q pa))"
proof -
  have cov: "covers (nsegments st)" using assms(1) by (simp add: am_ok_def)
  have v: "am_view st x = Some (attr s x)" if "s \<in> set (nsegments st)" "in_seg s x" for s x
    using tiles_unique [OF cov that] by (simp add: am_view_def lview_def)
  have e: "\<exists>s. s \<in> set (nsegments st) \<and> in_seg s x" for x
    using covers_seg_of [OF cov, of x] seg_of_SomeD by blast
  show ?thesis
  proof
    assume L: "list_all P segs"
    show "\<forall>x. a \<le> x \<and> x \<le> b \<longrightarrow> (\<exists>pa. am_view st x = Some pa \<and> Q pa)"
    proof clarify
      fix x assume x: "a \<le> x" "x \<le> b"
      obtain s where s: "s \<in> set (nsegments st)" "in_seg s x" using e by blast
      then have "s \<in> set segs" using assms(2) x by blast
      then have "Q (attr s x)" using L assms(3) by (simp add: list_all_iff)
      then show "\<exists>pa. am_view st x = Some pa \<and> Q pa" using v [OF s] by blast
    qed
  next
    assume R: "\<forall>x. a \<le> x \<and> x \<le> b \<longrightarrow> (\<exists>pa. am_view st x = Some pa \<and> Q pa)"
    show "list_all P segs"
      unfolding list_all_iff assms(2)
    proof clarify
      fix s x assume s: "s \<in> set (nsegments st)" "a \<le> x" "x \<le> b" "in_seg s x"
      then have "Q (attr s x)" using R v [OF s(1,4)] by auto
      then show "P s" using assms(3) by simp
    qed
  qed
qed

definition client_may :: "bool \<Rightarrow> UInt \<Rightarrow> page_attr \<Rightarrow> bool" where
  "client_may freeOk prot pa \<longleftrightarrow>
     (pa_kind pa \<in> {SkFileC, SkAnonC, SkShmC} \<or> freeOk \<and> pa_kind pa \<in> {SkFree, SkResvn}) \<and>
     (prot AND VKI_PROT_READ \<noteq> 0 \<longrightarrow> pa_R pa) \<and> (prot AND VKI_PROT_WRITE \<noteq> 0 \<longrightarrow> pa_W pa) \<and>
     (prot AND VKI_PROT_EXEC \<noteq> 0 \<longrightarrow> pa_X pa)"

lemma client_may_attr:
  "client_may freeOk prot (attr s x) \<longleftrightarrow>
     (kind s = SkFileC \<or> kind s = SkAnonC \<or> kind s = SkShmC \<or>
      (kind s = SkFree \<and> freeOk) \<or> (kind s = SkResvn \<and> freeOk)) \<and>
     (if prot AND VKI_PROT_READ \<noteq> 0 then hasR s else True) \<and>
     (if prot AND VKI_PROT_WRITE \<noteq> 0 then hasW s else True) \<and>
     (if prot AND VKI_PROT_EXEC \<noteq> 0 then hasX s else True)"
  by (auto simp: client_may_def attr_def)

definition all_in :: "am_state \<Rightarrow> Addr \<Rightarrow> SizeT \<Rightarrow> (page_attr \<Rightarrow> bool) \<Rightarrow> bool" where
  "all_in st a len Q \<longleftrightarrow> (\<forall>x. a \<le> x \<and> x \<le> a + len - 1 \<longrightarrow> (\<exists>pa. am_view st x = Some pa \<and> Q pa))"

lemma is_valid_for_client_ok:
  assumes "am_ok st" "len \<noteq> 0" "\<not> a + len < a"
  shows "is_valid_for_client a len prot freeOk st = Some (all_in st a len (client_may freeOk prot))"
proof -
  note nw = range_nowrap [OF assms(2,3)]
  obtain iLo iHi where f: "find_nsegment_idx a st = Some iLo" "find_nsegment_idx (a + len - 1) st = Some iHi"
    "iLo < length (nsegments st)" "iHi < length (nsegments st)"
    "in_seg (nsegments st ! iLo) a" "in_seg (nsegments st ! iHi) (a + len - 1)"
    "set (seg_range (nsegments st) iLo iHi) =
       {s \<in> set (nsegments st). \<exists>x. a \<le> x \<and> x \<le> a + len - 1 \<and> in_seg s x}"
    by (rule range_found [OF assms(1) nw(3)])
  have cov: "covers (nsegments st)" using assms(1) by (simp add: am_ok_def)
  have same: "iLo = iHi" if le: "a + len - 1 \<le> end' (nsegments st ! iLo)"
  proof -
    have "in_seg (nsegments st ! iLo) (a + len - 1)"
      using f(5) nw(3) le unfolding in_seg_def by (meson order_trans)
    then have "find_nsegment_idx (a + len - 1) st = Some iLo"
      using find_nsegment_idx_iff [OF cov] f(3) by simp
    then show ?thesis using f(2) by simp
  qed
  have hi: "(if a + len - 1 \<le> end' (nsegments st ! iLo) then Some iLo else find_nsegment_idx (a + len - 1) st) = Some iHi"
    using same f(2) by simp
  have "is_valid_for_client a len prot freeOk st =
      Some (list_all (\<lambda>s. client_may freeOk prot (attr s 0)) (seg_range (nsegments st) iLo iHi))"
    using assms(2,3) f(1) f(5) [unfolded in_seg_def] hi
    unfolding is_valid_for_client_def Let_def client_may_attr by simp
  also have "\<dots> = Some (all_in st a len (client_may freeOk prot))"
    unfolding all_in_def by (subst range_view [OF assms(1) f(7)]) (auto simp: client_may_def attr_def)
  finally show ?thesis .
qed

lemma is_valid_for_valgrind_ok:
  assumes "am_ok st" "len \<noteq> 0" "\<not> a + len < a"
  shows "is_valid_for_valgrind a len st = Some (all_in st a len (\<lambda>pa. pa_kind pa \<in> {SkFileV, SkAnonV}))"
proof -
  note nw = range_nowrap [OF assms(2,3)]
  obtain iLo iHi where f: "find_nsegment_idx a st = Some iLo" "find_nsegment_idx (a + len - 1) st = Some iHi"
    "iLo < length (nsegments st)" "iHi < length (nsegments st)"
    "in_seg (nsegments st ! iLo) a" "in_seg (nsegments st ! iHi) (a + len - 1)"
    "set (seg_range (nsegments st) iLo iHi) =
       {s \<in> set (nsegments st). \<exists>x. a \<le> x \<and> x \<le> a + len - 1 \<and> in_seg s x}"
    by (rule range_found [OF assms(1) nw(3)])
  show ?thesis
    unfolding is_valid_for_valgrind_def using assms(2,3) f(1,2)
    by (simp add: all_in_def) (rule range_view [OF assms(1) f(7)], auto simp: attr_def)
qed

lemma any_Ts_ok:
  assumes "am_ok st" "len \<noteq> 0" "a < a + len"
  shows "any_Ts_in_range a len st = Some (\<exists>x. a \<le> x \<and> x \<le> a + len - 1 \<and> am_T st x)"
proof -
  have nowrap: "\<not> a + len < a" using assms(3) by simp
  obtain iLo iHi where f: "find_nsegment_idx a st = Some iLo" "find_nsegment_idx (a + len - 1) st = Some iHi"
    "iLo < length (nsegments st)" "iHi < length (nsegments st)"
    "in_seg (nsegments st ! iLo) a" "in_seg (nsegments st ! iHi) (a + len - 1)"
    "set (seg_range (nsegments st) iLo iHi) =
       {s \<in> set (nsegments st). \<exists>x. a \<le> x \<and> x \<le> a + len - 1 \<and> in_seg s x}"
    by (rule range_found [OF assms(1) range_nowrap(3) [OF assms(2) nowrap]])
  then show ?thesis
    using assms(2,3) by (auto simp: any_Ts_in_range_def list_ex_iff am_T_def lT_def word_gt_0)
qed

subsection \<open>File names\<close>

lemma first_idx_le: "first_idx P xs \<le> length xs"
  by (simp add: first_idx_def length_takeWhile_le)

lemma first_idx_hit: "first_idx P xs < length xs \<Longrightarrow> P (xs ! first_idx P xs)"
  using nth_length_takeWhile [of "\<lambda>x. \<not> P x" xs] by (simp add: first_idx_def)

lemma first_idx_miss: "j < first_idx P xs \<Longrightarrow> \<not> P (xs ! j)"
  unfolding first_idx_def using nth_mem [of j "takeWhile (\<lambda>x. \<not> P x) xs"] set_takeWhileD takeWhile_nth by metis

lemma am_ok_names:
  assumes "am_ok st" "length (segnames st) \<le> length sn'"
    "\<And>i. i < length (segnames st) \<Longrightarrow> inUse (segnames st ! i) \<Longrightarrow> inUse (sn' ! i)"
  shows "am_ok (st\<lparr>segnames := sn'\<rparr>)"
proof -
  have "seg_ok sn' s" if s: "s \<in> set (nsegments st)" for s
  proof (rule seg_ok_names_mono)
    show "seg_ok (segnames st) s" using assms(1) s by (simp add: am_ok_def)
  qed (use assms(2,3) in simp)
  then show ?thesis using assms(1) by (simp add: am_ok_def)
qed

lemma allocate_segname_ok:
  assumes "am_ok st" "allocate_segname name st = Some (ix, st')"
  obtains sn' where "st' = st\<lparr>segnames := sn'\<rparr>" "am_ok st'" "name_ok sn' ix"
    "ix = -1 \<or> fname (sn' ! nat ix) = name" "length sn' \<le> length (segnames st) + 1"
proof -
  let ?sn = "segnames st"
  note keep = am_ok_names [OF assms(1)]
  let ?i = "first_idx (\<lambda>x. inUse x \<and> fname x = name) ?sn" and ?j = "first_idx (\<lambda>x. \<not> inUse x) ?sn"
  note a = assms(2) [unfolded allocate_segname_def Let_def]
  show thesis
  proof (cases "length name \<ge> VG_MAX_SEGNAMELEN - 1")
    case True
    then have "ix = -1" "st' = st" using a by simp_all
    then show thesis using assms(1) by (intro that [of ?sn]) (simp_all add: name_ok_def)
  next
    case len: False
    show thesis
    proof (cases "?i < length ?sn")
      case True
      then have "int ?i = ix \<and> st = st'" using a len by auto
      then have "ix = int ?i" "st' = st" by auto
      moreover have "inUse (?sn ! ?i) \<and> fname (?sn ! ?i) = name" by (rule first_idx_hit [OF True])
      ultimately show thesis using assms(1) True by (intro that [of ?sn]) (simp_all add: name_ok_def)
    next
      case new: False
      let ?n = "\<lparr>inUse = True, sn_mark = False, fname = name\<rparr>"
      show thesis
      proof (cases "?j = length ?sn")
        case True
        then have eq: "ix = int (length ?sn)" "st' = st\<lparr>segnames := ?sn @ [?n]\<rparr>"
          using a len new by (simp_all split: if_split_asm)
        have "am_ok st'" unfolding eq(2) by (rule keep) (simp_all add: nth_append)
        then show thesis using eq by (intro that [of "?sn @ [?n]"]) (simp_all add: name_ok_def)
      next
        case False
        then have lt: "?j < length ?sn" using first_idx_le [of _ ?sn] by (simp add: order.strict_iff_order)
        let ?sn' = "?sn[?j := (?sn ! ?j)\<lparr>inUse := True, fname := name\<rparr>]"
        have eq: "ix = int ?j" "st' = st\<lparr>segnames := ?sn'\<rparr>" using a len new False by simp_all
        have "am_ok st'" unfolding eq(2) by (rule keep) (simp_all add: nth_list_update lt)
        then show thesis using eq lt by (intro that [of ?sn']) (simp_all add: name_ok_def)
      qed
    qed
  qed
qed

subsection \<open>Every operation keeps the invariant\<close>

lemma am_ok_syscalls [simp]: "am_ok (st\<lparr>syscalls := l\<rparr>) = am_ok st"
  by (simp add: am_ok_def)

text \<open>Whatever passes the assertions of \<^verbatim>\<open>add_segment\<close> keeps the array well-formed.\<close>

lemma add_segment_inv:
  assumes "am_ok st" "add_segment seg st = Some st'" "hasT seg \<longrightarrow> client_kind (kind seg)"
  shows "am_ok st'" "same_rest st st'" "updates_range st (start seg) (end' seg) (\<lambda>x. Some (attr seg x)) st'"
    "seg_ok (segnames st) seg"
proof -
  show ok: "seg_ok (segnames st) seg"
    using assms(2,3) by (auto simp: add_segment_def seg_ok_def Let_def split: if_splits)
  obtain st'' where st'': "add_segment seg st = Some st''" "am_ok st''" "same_rest st st''"
    "length (nsegments st'') \<le> length (nsegments st) + 3"
    "updates_range st (start seg) (end' seg) (\<lambda>x. Some (attr seg x)) st''"
    "length (segnames st'') = length (segnames st)" "no_free_pair (nsegments st'')"
    by (rule add_segment_correct [OF assms(1) ok]) (use assms(2) in simp)
  then have "st'' = st'" using assms(2) by simp
  then show "am_ok st'" "same_rest st st'" "updates_range st (start seg) (end' seg) (\<lambda>x. Some (attr seg x)) st'"
    using st''(2,3,5) by simp_all
qed

lemma add_segment_keeps: "am_ok st \<Longrightarrow> add_segment seg st = Some st' \<Longrightarrow> \<not> hasT seg \<Longrightarrow> am_ok st'"
  using add_segment_inv(1) by blast

lemma allocate_keeps: "am_ok st \<Longrightarrow> allocate_segname name st = Some (ix, st') \<Longrightarrow> am_ok st'"
  by (erule (1) allocate_segname_ok)

lemma init_simps [simp]:
  "kind init_nsegment = SkFree" "smode init_nsegment = SmFixed" "dev init_nsegment = 0" "ino init_nsegment = 0"
  "offset init_nsegment = 0" "fnIdx init_nsegment = -1" "\<not> hasR init_nsegment" "\<not> hasW init_nsegment"
  "\<not> hasX init_nsegment" "\<not> hasT init_nsegment" "\<not> isCH init_nsegment" "\<not> mark init_nsegment"
  by (simp_all add: init_nsegment_def)

lemma set_prot_simps [simp]:
  "kind (set_prot p s) = kind s" "start (set_prot p s) = start s" "end' (set_prot p s) = end' s"
  "smode (set_prot p s) = smode s" "dev (set_prot p s) = dev s" "ino (set_prot p s) = ino s"
  "offset (set_prot p s) = offset s" "fnIdx (set_prot p s) = fnIdx s" "hasT (set_prot p s) = hasT s"
  "isCH (set_prot p s) = isCH s" "mark (set_prot p s) = mark s"
  by (simp_all add: set_prot_def)

lemma set_fd_info_keeps:
  assumes "am_ok st" "set_fd_info K fd seg st = Some (seg', st')"
  shows "am_ok st'" "hasT seg' = hasT seg" "kind seg' = kind seg" "start seg' = start seg" "end' seg' = end' seg"
    "same_rest st st'" "nsegments st' = nsegments st"
proof -
  have r: "same_rest st (st\<lparr>segnames := sn\<rparr>)" for sn
    unfolding same_rest_def by (rule exI [of _ "nsegments st"], rule exI [of _ sn]) simp
  show "am_ok st'" "hasT seg' = hasT seg" "kind seg' = kind seg" "start seg' = start seg" "end' seg' = end' seg"
    "same_rest st st'" "nsegments st' = nsegments st"
    using assms(2) allocate_keeps [OF assms(1)] assms(1) r
    by (auto simp: set_fd_info_def Let_def bind_Some_iff split: option.splits elim!: allocate_segname_ok [OF assms(1)])
qed

lemma read_maps_callback_keeps: "am_ok st \<Longrightarrow> read_maps_callback e st = Some st' \<Longrightarrow> am_ok st'"
  by (auto simp: read_maps_callback_def Let_def bind_Some_iff split: option.splits
      elim!: add_segment_keeps [rotated] dest: allocate_keeps)

lemma read_maps_keeps: "am_ok st \<Longrightarrow> read_maps es st = Some st' \<Longrightarrow> am_ok st'"
  by (induction es arbitrary: st) (auto simp: bind_Some_iff dest: read_maps_callback_keeps)

lemma notify_client_mmap_keeps:
  assumes "am_ok st" "am_notify_client_mmap K a len prot flags fd off st = Some (b, st')" shows "am_ok st'"
  using assms set_fd_info_keeps(1,2) [OF assms(1)]
  by (auto simp: am_notify_client_mmap_def Let_def bind_Some_iff split: if_splits elim!: add_segment_keeps [rotated])

lemma notify_client_shmat_keeps:
  "am_ok st \<Longrightarrow> am_notify_client_shmat a len prot st = Some (b, st') \<Longrightarrow> am_ok st'"
  by (auto simp: am_notify_client_shmat_def Let_def bind_Some_iff split: if_splits elim!: add_segment_keeps [rotated])

lemma notify_munmap_keeps:
  "am_ok st \<Longrightarrow> am_notify_munmap a len st = Some (b, st') \<Longrightarrow> am_ok st'"
  by (auto simp: am_notify_munmap_def Let_def bind_Some_iff split: if_splits elim!: add_segment_keeps [rotated])


lemma mprotect_loop_ok:
  "\<forall>s \<in> set segs. seg_ok sn s \<Longrightarrow>
     mprotect_loop sn prot segs = Some (map (\<lambda>s. if kind s = SkFree \<or> kind s = SkResvn then s else set_prot prot s) segs)"
proof (induction segs)
  case (Cons s ss)
  have "sane_NSegment sn (set_prot prot s)" if "kind s \<noteq> SkFree" "kind s \<noteq> SkResvn"
    using Cons.prems that by (auto simp: seg_ok_iff sane_iff fields_ok_def extent_ok_def)
  moreover have "kind s \<in> {SkAnonC, SkAnonV, SkFileC, SkFileV, SkShmC} \<longleftrightarrow> kind s \<noteq> SkFree \<and> kind s \<noteq> SkResvn"
    by (cases "kind s") auto
  ultimately show ?case using Cons by (auto simp: Let_def)
qed simp

definition reprot_seg :: "UInt \<Rightarrow> NSegment \<Rightarrow> NSegment" where
  "reprot_seg prot s = (if kind s = SkFree \<or> kind s = SkResvn then s else set_prot prot s)"

definition reprot :: "UInt \<Rightarrow> page_attr \<Rightarrow> page_attr" where
  "reprot prot pa = (if pa_kind pa = SkFree \<or> pa_kind pa = SkResvn then pa
     else pa\<lparr>pa_R := prot AND VKI_PROT_READ \<noteq> 0, pa_W := prot AND VKI_PROT_WRITE \<noteq> 0,
             pa_X := prot AND VKI_PROT_EXEC \<noteq> 0\<rparr>)"

lemma reprot_seg_simps [simp]:
  "start (reprot_seg p s) = start s" "end' (reprot_seg p s) = end' s" "hasT (reprot_seg p s) = hasT s"
  "in_seg (reprot_seg p s) x = in_seg s x" "attr (reprot_seg p s) x = reprot p (attr s x)"
  "seg_ok sn s \<Longrightarrow> seg_ok sn (reprot_seg p s)"
  by (auto simp: reprot_seg_def in_seg_def attr_def reprot_def set_prot_def seg_ok_iff extent_ok_def fields_ok_def client_kind_def)

lemma reprot_list [simp]:
  "tiles n (map (reprot_seg p) segs) m = tiles n segs m"
  "lview (map (reprot_seg p) segs) x = map_option (reprot p) (lview segs x)"
  "lT (map (reprot_seg p) segs) x = lT segs x"
  by (induction segs arbitrary: n) auto

lemma tiles_range:
  assumes "covers segs" "iLo \<le> iHi" "iHi < length segs"
  shows "tiles (unat (start (segs ! iLo))) (seg_range segs iLo iHi) (unat (end' (segs ! iHi)) + 1)"
proof -
  have "drop iLo (take (Suc iHi) segs) = seg_range segs iLo iHi" by (simp add: seg_range_def drop_take)
  moreover have "tiles 0 (take (Suc iHi) segs) (unat (end' (segs ! iHi)) + 1)"
    by (rule tiles_take_Suc [OF assms(1,3)])
  ultimately show ?thesis using tiles_drop [of 0 "take (Suc iHi) segs" _ iLo] assms(2,3) by simp
qed

lemma seg_range_parts: "iLo \<le> iHi \<Longrightarrow> take iLo segs @ seg_range segs iLo iHi @ drop (Suc iHi) segs = segs"
proof -
  assume "iLo \<le> iHi"
  then have "take iLo segs @ seg_range segs iLo iHi = take (Suc iHi) segs"
    using take_add [of iLo "Suc iHi - iLo" segs] by (simp add: seg_range_def)
  then show ?thesis by (metis append.assoc append_take_drop_id)
qed

text \<open>Changing the protection of a range, with any segments it meets.\<close>

lemma mprotect_ok:
  assumes "am_ok st" "VG_IS_PAGE_ALIGNED a" "VG_IS_PAGE_ALIGNED len" "a < a + len"
    "length (nsegments st) + 2 \<le> VG_N_SEGMENTS \<or> am_notify_mprotect a len prot st \<noteq> None"
  obtains st' where "am_notify_mprotect a len prot st =
      Some ((\<exists>x. a \<le> x \<and> x \<le> a + len - 1 \<and> am_T st x) \<and> prot AND VKI_PROT_EXEC = 0, st')"
    "am_ok st'" "same_rest st st'" "updates_range st a (a + len - 1) (\<lambda>x. map_option (reprot prot) (am_view st x)) st'"
proof -
  have nz: "len \<noteq> 0" and nw: "\<not> a + len < a" using assms(4) by auto
  note al = page_aligned_end [OF nz assms(2,3) nw] and ts = any_Ts_ok [OF assms(1) nz assms(4)]
  have room: "length (nsegments st) + 2 \<le> VG_N_SEGMENTS \<or> split_nsegments_lo_and_hi a (a + len - 1) st \<noteq> None"
    using assms(2,3,5) nz ts
    by (cases "split_nsegments_lo_and_hi a (a + len - 1) st") (auto simp: am_notify_mprotect_def Let_def)
  obtain iLo iHi segs where sp: "split_nsegments_lo_and_hi a (a + len - 1) st = Some ((iLo, iHi), st\<lparr>nsegments := segs\<rparr>)"
    "am_ok (st\<lparr>nsegments := segs\<rparr>)" "same_mem (nsegments st) segs" "lT segs = lT (nsegments st)"
    "length segs \<le> length (nsegments st) + 2" "iLo \<le> iHi" "iHi < length segs"
    "start (segs ! iLo) = a" "end' (segs ! iHi) = a + len - 1"
    by (rule split_lo_and_hi_correct [OF assms(1) al(2) assms(2) al(1) room])
  let ?st = "st\<lparr>nsegments := segs\<rparr>" and ?new = "map (reprot_seg prot) (seg_range segs iLo iHi)"
  have cov: "covers segs" and ok: "\<forall>s \<in> set segs. seg_ok (segnames st) s" using sp(2) by (auto simp: am_ok_def)
  have "in_seg (segs ! iLo) a" "in_seg (segs ! iHi) (a + len - 1)" "iLo < length segs"
    using tiles_split(3) [OF cov, of iLo] tiles_split(3) [OF cov sp(7)] sp(6-9) by (simp_all add: in_seg_def)
  then have f: "find_nsegment_idx a ?st = Some iLo" "find_nsegment_idx (a + len - 1) ?st = Some iHi"
    using find_nsegment_idx_iff [of ?st] cov sp(7) by simp_all
  have okr: "\<forall>s \<in> set (seg_range segs iLo iHi). seg_ok (segnames st) s"
    using ok by (auto simp: seg_range_def dest: in_set_takeD in_set_dropD)
  note t = tiles_range [OF cov sp(6,7)]
  obtain b st' where p: "preen_nsegments (?st\<lparr>nsegments := take iLo (nsegments ?st) @ ?new @ drop (Suc iHi) (nsegments ?st)\<rparr>) = Some (b, st')"
    "am_ok st'" "same_rest ?st st'" "length (nsegments st') \<le> length (nsegments ?st) + length ?new"
    "updates_range ?st (start (nsegments ?st ! iLo)) (end' (nsegments ?st ! iHi)) (lview ?new) st'"
    "length (segnames st') = length (segnames ?st)" "no_free_pair (nsegments st')"
    by (rule replace_preen [OF sp(2), of iLo iHi ?new]) (use sp(6,7) t okr in auto)
  show thesis
  proof (rule that [of st'])
    show "am_notify_mprotect a len prot st =
      Some ((\<exists>x. a \<le> x \<and> x \<le> a + len - 1 \<and> am_T st x) \<and> prot AND VKI_PROT_EXEC = 0, st')"
      using assms(2,3) nz ts sp(1) f mprotect_loop_ok [OF okr, of prot] p(1)
      by (simp add: am_notify_mprotect_def Let_def reprot_seg_def [abs_def])
    show "same_rest st st'" using p(3) by (auto simp: same_rest_def)
    have "lview (seg_range segs iLo iHi) x = lview segs x" if "a \<le> x" "x \<le> a + len - 1" for x
      using replace_range(2) [OF cov sp(6,7) t, of x] that sp(8,9) seg_range_parts [OF sp(6)] by simp
    then show "updates_range st a (a + len - 1) (\<lambda>x. map_option (reprot prot) (am_view st x)) st'"
      using p(5) sp(3,4,8,9) by (auto simp: updates_range_def am_view_def am_T_def same_mem_def)
  qed (rule p(2))
qed

end
