(* ===== verification/AspaceOps_Correct.thy ===== *)
theory AspaceOps_Correct
  imports AspaceMgr_Correct
begin

text \<open>
  The operations of the address space manager: each keeps the invariant, so every reachable state is
  well-formed; the allocation policy grants only what it promises; the effect of notifications and of
  Valgrind's own mappings on the view. \<open>segment_store\<close> is the contract of the array.
\<close>

lemma notify_mprotect_keeps:
  assumes "am_ok st" "am_notify_mprotect a len prot st = Some (b, st')" shows "am_ok st'"
proof (cases "len = 0")
  case True
  then show ?thesis using assms by (auto simp: am_notify_mprotect_def split: if_splits)
next
  case False
  then have al: "VG_IS_PAGE_ALIGNED a" "VG_IS_PAGE_ALIGNED len" "a < a + len"
    using assms(2) by (auto simp: am_notify_mprotect_def any_Ts_in_range_def bind_Some_iff Let_def split: if_splits)
  obtain st'' where "am_notify_mprotect a len prot st =
      Some ((\<exists>x. a \<le> x \<and> x \<le> a + len - 1 \<and> am_T st x) \<and> prot AND VKI_PROT_EXEC = 0, st'')" "am_ok st''"
    by (rule mprotect_ok [OF assms(1) al, of prot]) (use assms(2) in simp)
  then show ?thesis using assms(2) by simp
qed

text \<open>The mappings Valgrind makes itself.\<close>

lemma mmap_keeps:
  assumes "am_ok st"
  shows "am_mmap_file_fixed_client K a len prot fd off st = Some (r, st') \<Longrightarrow> am_ok st'"
    and "am_mmap_anon_fixed_client K a len prot st = Some (r, st') \<Longrightarrow> am_ok st'"
    and "am_mmap_anon_float_client K len prot st = Some (r, st') \<Longrightarrow> am_ok st'"
    and "am_mmap_anon_float_valgrind K len st = Some (r, st') \<Longrightarrow> am_ok st'"
    and "am_mmap_file_float_valgrind K len prot fd off st = Some (r, st') \<Longrightarrow> am_ok st'"
proof -
  have ok: "am_ok (st\<lparr>syscalls := l\<rparr>)" for l using assms by simp
  note defs = am_do_mmap_NO_NOTIFY_def am_do_munmap_NO_NOTIFY_def Let_def bind_Some_iff
  note fd = set_fd_info_keeps(1,2) [OF ok]
  show "am_mmap_file_fixed_client K a len prot fd off st = Some (r, st') \<Longrightarrow> am_ok st'"
    using assms fd by (auto simp: am_mmap_file_fixed_client_def defs split: if_splits elim!: add_segment_keeps [rotated])
  show "am_mmap_anon_fixed_client K a len prot st = Some (r, st') \<Longrightarrow> am_ok st'"
    using assms by (auto simp: am_mmap_anon_fixed_client_def defs split: if_splits elim!: add_segment_keeps [rotated])
  show "am_mmap_anon_float_client K len prot st = Some (r, st') \<Longrightarrow> am_ok st'"
    using assms by (auto simp: am_mmap_anon_float_client_def defs split: if_splits elim!: add_segment_keeps [rotated])
  show "am_mmap_anon_float_valgrind K len st = Some (r, st') \<Longrightarrow> am_ok st'"
    using assms by (auto simp: am_mmap_anon_float_valgrind_def defs split: if_splits elim!: add_segment_keeps [rotated])
  show "am_mmap_file_float_valgrind K len prot fd off st = Some (r, st') \<Longrightarrow> am_ok st'"
    using assms fd by (auto simp: am_mmap_file_float_valgrind_def defs split: if_splits elim!: add_segment_keeps [rotated])
qed

lemma munmap_keeps:
  assumes "am_ok st" "am_munmap_both_wrk K a len fc st = Some (r, st')" shows "am_ok st'"
  using assms
  by (auto simp: am_munmap_both_wrk_def am_do_munmap_NO_NOTIFY_def Let_def bind_Some_iff split: if_splits
      elim!: notify_munmap_keeps [rotated])

text \<open>Changing one segment in place: the extent stays.\<close>

lemma set_segment_ok:
  assumes "am_ok st" "i < length (nsegments st)" "start s = start (nsegments st ! i)" "end' s = end' (nsegments st ! i)"
    "seg_ok (segnames st) s"
  shows "am_ok (st\<lparr>nsegments := (nsegments st)[i := s]\<rparr>)"
proof -
  have cov: "covers (nsegments st)" using assms(1) by (simp add: am_ok_def)
  have eq: "(nsegments st)[i := s] = take i (nsegments st) @ [s] @ drop (Suc i) (nsegments st)"
    using assms(2) by (simp add: upd_conv_take_nth_drop)
  have "tiles (unat (start (nsegments st ! i))) [s] (unat (end' (nsegments st ! i)) + 1)"
    using tiles_split(3) [OF cov assms(2)] assms(3,4) by simp
  from replace_range(1) [OF cov order.refl assms(2) this] show ?thesis
    using assms(1,5) by (auto simp: am_ok_def eq dest: in_set_takeD in_set_dropD)
qed

lemma set_flag_keeps:
  assumes "am_ok st"
  shows "am_set_segment_isCH_if_SkAnonC p st = Some st' \<Longrightarrow> am_ok st'"
    and "am_set_segment_hasT_if_SkFileC_or_SkAnonC p st = Some st' \<Longrightarrow> am_ok st'"
proof -
  have ok: "seg_ok (segnames st) (nsegments st ! i)" if "i < length (nsegments st)" for i
    using assms that by (simp add: am_ok_def)
  show "am_set_segment_isCH_if_SkAnonC p st = Some st' \<Longrightarrow> am_ok st'"
    using assms ok by (auto simp: am_set_segment_isCH_if_SkAnonC_def segAddr_to_index_def Let_def seg_ok_iff
        extent_ok_def fields_ok_def client_kind_def split: if_splits option.splits intro!: set_segment_ok)
  show "am_set_segment_hasT_if_SkFileC_or_SkAnonC p st = Some st' \<Longrightarrow> am_ok st'"
    using assms ok by (auto simp: am_set_segment_hasT_if_SkFileC_or_SkAnonC_def segAddr_to_index_def Let_def seg_ok_iff
        extent_ok_def fields_ok_def client_kind_def split: if_splits option.splits intro!: set_segment_ok)
qed

lemma change_ownership_keeps:
  assumes "am_ok st" "am_change_ownership_v_to_c a len st = Some (b, st')" shows "am_ok st'"
proof (cases "split_nsegments_lo_and_hi a (a + len - 1) st")
  case None
  then show ?thesis using assms by (auto simp: am_change_ownership_v_to_c_def Let_def bind_Some_iff split: if_splits)
next
  case (Some r)
  then have *: "split_nsegments_lo_and_hi a (a + len - 1) st \<noteq> None" by simp
  then have al: "a < a + len - 1" "VG_IS_PAGE_ALIGNED a" "VG_IS_PAGE_ALIGNED (a + len - 1 + 1)"
    by (auto simp: split_nsegments_lo_and_hi_def split: if_splits)
  obtain iLo iHi segs where sp: "split_nsegments_lo_and_hi a (a + len - 1) st = Some ((iLo, iHi), st\<lparr>nsegments := segs\<rparr>)"
    "am_ok (st\<lparr>nsegments := segs\<rparr>)" "same_mem (nsegments st) segs" "lT segs = lT (nsegments st)"
    "length segs \<le> length (nsegments st) + 2" "iLo \<le> iHi" "iHi < length segs"
    "start (segs ! iLo) = a" "end' (segs ! iHi) = a + len - 1"
    by (rule split_lo_and_hi_correct [OF assms(1) al]) (use * in simp)
  have pre: "am_ok st''" if "preen_nsegments (st\<lparr>nsegments := segs[j := (segs ! j)\<lparr>kind := k\<rparr>]\<rparr>) = Some (c, st'')"
    "kind (segs ! j) = SkFileV \<and> k = SkFileC \<or> kind (segs ! j) = SkAnonV \<and> k = SkAnonC" "j < length segs"
    for j k c st''
  proof -
    let ?s = "(segs ! j)\<lparr>kind := k\<rparr>"
    have "seg_ok (segnames st) (segs ! j)" using sp(2) that(3) by (simp add: am_ok_def)
    then have "seg_ok (segnames st) ?s" using that(2) by (auto simp: seg_ok_iff extent_ok_def fields_ok_def client_kind_def)
    then have ok: "am_ok (st\<lparr>nsegments := segs[j := ?s]\<rparr>)" using set_segment_ok [OF sp(2), of j ?s] that(3) by simp
    show ?thesis by (rule preen_correct [OF ok]) (use that(1) in simp)
  qed
  show ?thesis
    using assms sp(1,7) by (auto simp: am_change_ownership_v_to_c_def Let_def bind_Some_iff split: if_splits SegKind.splits dest!: pre)
qed

lemma create_reservation_keeps:
  "am_ok st \<Longrightarrow> am_create_reservation a len sm extra st = Some (b, st') \<Longrightarrow> am_ok st'"
  by (auto simp: am_create_reservation_def Let_def bind_Some_iff split: if_splits elim!: add_segment_keeps [rotated])

text \<open>Moving the boundary between two neighbours.\<close>

lemma move_boundary:
  assumes "am_ok st" "Suc i < length (nsegments st)" "unat s' = unat e' + 1" "4096 dvd unat s'"
    "unat (start (nsegments st ! i)) < unat s'" "unat s' \<le> unat (end' (nsegments st ! Suc i))"
  shows "am_ok (st\<lparr>nsegments := (nsegments st)[i := (nsegments st ! i)\<lparr>end' := e'\<rparr>,
                     Suc i := (nsegments st ! Suc i)\<lparr>start := s'\<rparr>]\<rparr>)"
proof -
  let ?segs = "nsegments st" and ?X = "nsegments st ! i" and ?Y = "nsegments st ! Suc i"
  let ?X' = "?X\<lparr>end' := e'\<rparr>" and ?Y' = "?Y\<lparr>start := s'\<rparr>"
  have cov: "covers ?segs" and ok: "\<forall>s \<in> set ?segs. seg_ok (segnames st) s" using assms(1) by (auto simp: am_ok_def)
  have X: "seg_ok (segnames st) ?X" and Y: "seg_ok (segnames st) ?Y" using ok assms(2) by simp_all
  have "4096 dvd unat (start ?X)" "4096 dvd (unat (end' ?Y) + 1)"
    using seg_ok_extent [OF X] seg_ok_extent [OF Y] by (simp_all add: extent_ok_def)
  then have ext: "unat (start ?X) < unat e'" "unat s' < unat (end' ?Y)"
    using aligned_page_fits [of "unat (start ?X)" "unat e'"] aligned_page_fits [of "unat s'" "unat (end' ?Y)"] assms(3-6)
    by simp_all
  have X': "seg_ok (segnames st) ?X'" and Y': "seg_ok (segnames st) ?Y'"
    using X Y ext assms(3,4) by (auto simp: seg_ok_iff extent_ok_def fields_ok_def)
  have "tiles (unat (start ?X)) [?X', ?Y'] (unat (end' ?Y) + 1)"
    using ext assms(3) by (simp add: word_le_nat_alt)
  from replace_range(1) [OF cov _ assms(2) this] have c: "covers (take i ?segs @ [?X', ?Y'] @ drop (Suc (Suc i)) ?segs)" by simp
  have eq: "?segs[i := ?X', Suc i := ?Y'] = take i ?segs @ [?X', ?Y'] @ drop (Suc (Suc i)) ?segs"
    using assms(2) by (simp add: list_eq_iff_nth_eq nth_append nth_list_update nth_Cons split: nat.split)
       (auto intro!: arg_cong [of _ _ "nth (nsegments st)"])
  show ?thesis using c ok X' Y' unfolding am_ok_def eq by (auto dest: in_set_takeD in_set_dropD)
qed

lemma extend_room:
  fixes d s e :: "64 word"
  assumes "0 < sint d" "\<not> d + 4096 > e - s + 1" "unat s < unat e" "\<not> (s = 0 \<and> e = -1)"
  shows "unat d + 4096 \<le> unat e - unat s + 1"
proof -
  have "unat (drop_bit 63 d) = 0" using assms(1) by (simp add: sign_shift)
  then have "unat d div 2 ^ 63 = 0" by (simp add: drop_bit_eq_div unat_div)
  then have "unat d < 2 ^ 63" by (simp add: div_eq_0_iff)
  then have a: "unat (d + 4096) = unat d + 4096" by (simp add: unat_word_ariths)
  have es: "unat (e - s) = unat e - unat s" using assms(3) by (simp add: unat_sub_if')
  moreover have "e - s \<noteq> -1"
  proof
    assume "e - s = -1"
    then have "unat e - unat s = 2 ^ 64 - 1" using es by (simp add: unsigned_minus_1_eq_mask mask_eq_exp_minus_1)
    then have "unat s = 0" "unat e = 2 ^ 64 - 1" using unsigned_less [of e, where 'a = nat] assms(3) by simp_all
    then have "s = 0" "e = -1"
      by (simp_all only: unsigned_eq_0_iff) (simp add: word_unat_eq_iff unsigned_minus_1_eq_mask mask_eq_exp_minus_1)
    then show False using assms(4) by simp
  qed
  ultimately have "unat (e - s + 1) = unat e - unat s + 1" using unat_succ [of "e - s"] by simp
  then show ?thesis using assms(2) a by (simp add: word_less_nat_alt)
qed


lemma extend_forwards_keeps:
  assumes "am_ok st" "segA < length (nsegments st)" "VG_IS_PAGE_ALIGNED d" "0 < sint d"
    "extend_forwards K segA prot d st = Some (b, st')"
  shows "am_ok st'"
proof -
  let ?segs = "nsegments st" and ?A = "nsegments st ! segA" and ?R = "nsegments st ! Suc segA"
  have cov: "covers ?segs" and ok: "\<forall>s \<in> set ?segs. seg_ok (segnames st) s" using assms(1) by (auto simp: am_ok_def)
  let ?new = "?segs[Suc segA := ?R\<lparr>start := start ?R + d\<rparr>, segA := ?A\<lparr>end' := end' ?A + d\<rparr>]"
  consider (fail) l where "st' = st\<lparr>syscalls := l\<rparr>"
    | (ext) l where "st' = st\<lparr>syscalls := l, nsegments := ?new\<rparr>" "Suc segA < length ?segs"
        "\<not> d + 4096 > end' ?R - start ?R + 1"
  proof -
    let ?g = "segA + 1 \<ge> length ?segs \<or> kind (?segs ! (segA + 1)) \<noteq> SkResvn \<or> smode (?segs ! (segA + 1)) \<noteq> SmLower
         \<or> start (?segs ! (segA + 1)) \<noteq> end' (?segs ! segA) + 1
         \<or> d + VKI_PAGE_SIZE > end' (?segs ! (segA + 1)) - start (?segs ! (segA + 1)) + 1"
    note e = assms(5) [unfolded extend_forwards_def Let_def]
    show thesis
    proof (cases ?g)
      case True
      then have "st' = st\<lparr>syscalls := syscalls st\<rparr>" using e [unfolded if_P [OF True]] by simp
      then show thesis by (rule fail)
    next
      case False
      then have "Suc segA < length ?segs" "\<not> d + 4096 > end' ?R - start ?R + 1" by simp_all
      then show thesis using e [unfolded if_not_P [OF False]] fail ext
        by (auto simp: bind_Some_iff am_do_mmap_NO_NOTIFY_def am_do_munmap_NO_NOTIFY_def split: if_splits)
    qed
  qed
  then show ?thesis
  proof cases
    case fail then show ?thesis using assms(1) by simp
  next
    case (ext l)
    have "seg_ok (segnames st) ?R" "seg_ok (segnames st) ?A" using ok ext(2) assms(2) by simp_all
    then have R: "extent_ok ?R" and A: "extent_ok ?A" by (simp_all only: seg_ok_extent)
    have adj: "unat (start ?R) = unat (end' ?A) + 1"
      using tiles_split(2) [OF cov assms(2)] ext(2) by (simp add: Cons_nth_drop_Suc [symmetric])
    have "start ?R \<noteq> 0" using adj by auto
    then have room: "unat d + 4096 \<le> unat (end' ?R) - unat (start ?R) + 1"
      using extend_room [OF assms(4) ext(3)] R by (simp add: extent_ok_def)
    have lt: "unat (end' ?R) < 2 ^ 64" using unsigned_less [of "end' ?R", where 'a = nat] by simp
    have s': "unat (start ?R + d) = unat (start ?R) + unat d" and e': "unat (end' ?A + d) = unat (end' ?A) + unat d"
      using room lt R adj by (simp_all add: unat_word_ariths extent_ok_def)
    have "am_ok (st\<lparr>nsegments := ?segs[segA := ?A\<lparr>end' := end' ?A + d\<rparr>, Suc segA := ?R\<lparr>start := start ?R + d\<rparr>]\<rparr>)"
    proof (rule move_boundary [OF assms(1) ext(2)])
      show "4096 dvd unat (start ?R + d)" using R assms(3) s' by (simp add: extent_ok_def page_aligned_dvd)
      show "unat (start ?A) < unat (start ?R + d)" using A adj s' by (simp add: extent_ok_def)
      show "unat (start ?R + d) \<le> unat (end' ?R)" using room s' R by (simp add: extent_ok_def)
    qed (use s' e' adj in simp)
    then show ?thesis unfolding ext(1) by (simp add: am_ok_def list_update_swap)
  qed
qed

lemma extend_backwards_keeps:
  assumes "am_ok st" "segA < length (nsegments st)" "VG_IS_PAGE_ALIGNED d" "0 < sint d"
    "extend_backwards K segA prot d st = Some (b, st')"
  shows "am_ok st'"
proof -
  let ?segs = "nsegments st" and ?A = "nsegments st ! segA" and ?R = "nsegments st ! (segA - 1)"
  have cov: "covers ?segs" and ok: "\<forall>s \<in> set ?segs. seg_ok (segnames st) s" using assms(1) by (auto simp: am_ok_def)
  let ?new = "?segs[segA - 1 := ?R\<lparr>end' := end' ?R - d\<rparr>, segA := ?A\<lparr>start := start ?A - d\<rparr>]"
  consider (fail) l where "st' = st\<lparr>syscalls := l\<rparr>"
    | (ext) l where "st' = st\<lparr>syscalls := l, nsegments := ?new\<rparr>" "segA \<noteq> 0"
        "\<not> d + 4096 > end' ?R - start ?R + 1"
  proof -
    let ?g = "segA = 0 \<or> kind ?R \<noteq> SkResvn \<or> smode ?R \<noteq> SmUpper \<or> end' ?R + 1 \<noteq> start ?A
         \<or> d + VKI_PAGE_SIZE > end' ?R - start ?R + 1"
    note e = assms(5) [unfolded extend_backwards_def Let_def]
    show thesis
    proof (cases ?g)
      case True
      then have "st' = st\<lparr>syscalls := syscalls st\<rparr>" using e [unfolded if_P [OF True]] by simp
      then show thesis by (rule fail)
    next
      case False
      then have "segA \<noteq> 0" "\<not> d + 4096 > end' ?R - start ?R + 1" by simp_all
      then show thesis using e [unfolded if_not_P [OF False]] fail ext
        by (auto simp: bind_Some_iff am_do_mmap_NO_NOTIFY_def am_do_munmap_NO_NOTIFY_def split: if_splits)
    qed
  qed
  then show ?thesis
  proof cases
    case fail then show ?thesis using assms(1) by simp
  next
    case (ext l)
    then obtain i where i: "segA = Suc i" "Suc i < length ?segs" using assms(2) by (cases segA) auto
    have "seg_ok (segnames st) ?R" "seg_ok (segnames st) ?A" using ok assms(2) by simp_all
    then have R: "extent_ok ?R" and A: "extent_ok ?A" by (simp_all only: seg_ok_extent)
    have adj: "unat (start ?A) = unat (end' ?R) + 1"
      using tiles_split(2) [OF cov, of i] i by (simp add: Cons_nth_drop_Suc [symmetric])
    have "\<not> (start ?R = 0 \<and> end' ?R = -1)"
      using adj unsigned_less [of "start ?A", where 'a = nat] by (auto simp: unsigned_minus_1_eq_mask mask_eq_exp_minus_1)
    then have room: "unat d + 4096 \<le> unat (end' ?R) - unat (start ?R) + 1"
      using extend_room [OF assms(4) ext(3)] R by (simp add: extent_ok_def)
    have s': "unat (start ?A - d) = unat (start ?A) - unat d" and e': "unat (end' ?R - d) = unat (end' ?R) - unat d"
      using room R adj by (simp_all add: unat_sub_if' extent_ok_def)
    have "am_ok (st\<lparr>nsegments := ?segs[i := (?segs ! i)\<lparr>end' := end' ?R - d\<rparr>, Suc i := (?segs ! Suc i)\<lparr>start := start ?A - d\<rparr>]\<rparr>)"
    proof (rule move_boundary [OF assms(1) i(2)])
      show "4096 dvd unat (start ?A - d)" using A assms(3) s' by (simp add: extent_ok_def page_aligned_dvd)
      show "unat (start (?segs ! i)) < unat (start ?A - d)" using room s' adj R i(1) by (simp add: extent_ok_def)
      show "unat (start ?A - d) \<le> unat (end' (?segs ! Suc i))" using A s' i(1) by (auto simp: extent_ok_def)
    qed (use s' e' adj room R in \<open>auto simp: extent_ok_def Suc_diff_le\<close>)
    then show ?thesis unfolding ext(1) using i(1) by (simp add: am_ok_def)
  qed
qed

lemma extend_adjacent_keeps:
  assumes "am_ok st" "am_extend_into_adjacent_reservation_client K p delta st = Some (b, st')"
  shows "am_ok st'"
proof -
  let ?i = "segAddr_to_index p st" and ?n = "length (nsegments st)"
  have i: "0 \<le> ?i" "?i < int ?n" using assms(2)
    by (auto simp: am_extend_into_adjacent_reservation_client_def Let_def split: if_splits)
  then have lt: "nat ?i < ?n" by (simp add: nat_less_iff)
  consider "st' = st" | (fwd) prot where "0 < sint delta" "VG_IS_PAGE_ALIGNED delta"
      "extend_forwards K (nat ?i) prot delta st = Some (b, st')"
    | (bwd) prot where "0 < sint (- delta)" "VG_IS_PAGE_ALIGNED (- delta)"
      "extend_backwards K (nat ?i) prot (- delta) st = Some (b, st')"
  proof (cases "kind (nsegments st ! nat ?i) \<noteq> SkAnonC \<or> delta = 0")
    case True
    then show thesis using assms(2) i that(1)
      by (auto simp: am_extend_into_adjacent_reservation_client_def Let_def split: if_splits)
  next
    case nz: False
    define pr where "pr = ((if hasR (nsegments st ! nat ?i) then VKI_PROT_READ else 0)
       OR (if hasW (nsegments st ! nat ?i) then VKI_PROT_WRITE else 0)
       OR (if hasX (nsegments st ! nat ?i) then VKI_PROT_EXEC else 0))"
    have *: "VG_IS_PAGE_ALIGNED (if sint delta < 0 then - delta else delta)"
      "(if sint delta > 0 then extend_forwards K (nat ?i) pr delta st
        else do { vg_assert (sint (- delta) > 0); extend_backwards K (nat ?i) pr (- delta) st }) = Some (b, st')"
      using assms(2) i nz unfolding am_extend_into_adjacent_reservation_client_def Let_def pr_def [symmetric]
      by (auto split: if_split_asm)
    show thesis
    proof (cases "sint delta > 0")
      case True then show thesis using * fwd by auto
    next
      case False
      then have "sint delta < 0" using nz by (metis antisym_conv3 signed_0 signed_eq_0_iff)
      then show thesis using * False bwd by (auto split: if_split_asm)
    qed
  qed
  then show ?thesis
    by cases (use assms(1) extend_forwards_keeps [OF assms(1) lt] extend_backwards_keeps [OF assms(1) lt] in auto)
qed

lemma extend_map_keeps:
  assumes "am_ok st" "am_extend_map_client K i delta st = Some (r, st')" shows "am_ok st'"
  using assms
  by (auto simp: am_extend_map_client_def am_do_extend_mapping_NO_NOTIFY_def Let_def bind_Some_iff client_kind_def
      split: if_splits elim!: add_segment_inv(1) [rotated])

lemma relocate_keeps:
  assumes "am_ok st" "am_relocate_nooverlap_client K oa ol na nl st = Some (r, st')" shows "am_ok st'"
proof -
  have step: "am_ok st2" if "add_segment s (st\<lparr>syscalls := l\<rparr>) = Some st1" "client_kind (kind s)"
    "add_segment h st1 = Some st2" "\<not> hasT h" for s l st1 h st2
  proof -
    have "am_ok st1" by (rule add_segment_inv(1) [OF _ that(1)]) (use assms(1) that(2) in simp_all)
    then show ?thesis by (rule add_segment_keeps [OF _ that(3,4)])
  qed
  show ?thesis
    using assms
    by (auto simp: am_relocate_nooverlap_client_def am_do_relocate_nooverlap_mapping_NO_NOTIFY_def Let_def
        bind_Some_iff split: if_splits elim!: step simp: client_kind_def)
qed


subsection \<open>Start-up\<close>

definition resvn :: "Addr \<Rightarrow> Addr \<Rightarrow> NSegment" where
  "resvn lo hi = init_nsegment\<lparr>kind := SkResvn, start := lo, end' := hi\<rparr>"

lemma resvn_simps [simp]:
  "kind (resvn lo hi) = SkResvn" "start (resvn lo hi) = lo" "end' (resvn lo hi) = hi" "\<not> hasT (resvn lo hi)"
  "pa_kind (attr (resvn lo hi) x) = SkResvn"
  by (simp_all add: resvn_def attr_def)

lemma init_resvn_ok:
  assumes "lo < hi" "VG_IS_PAGE_ALIGNED lo" "VG_IS_PAGE_ALIGNED (hi + 1)"
  shows "init_resvn lo hi = Some (resvn lo hi)" "seg_ok sn (resvn lo hi)"
  using assms by (simp_all add: init_resvn_def resvn_def sane_NSegment_def seg_ok_def not_le)

lemma add_resvn:
  assumes "am_ok st" "lo < hi" "VG_IS_PAGE_ALIGNED lo" "VG_IS_PAGE_ALIGNED (hi + 1)" "length (nsegments st) \<le> 10"
  obtains st' where "init_resvn lo hi = Some (resvn lo hi)" "add_segment (resvn lo hi) st = Some st'"
    "am_ok st'" "same_rest st st'" "length (nsegments st') \<le> length (nsegments st) + 3"
    "\<And>x. map_option pa_kind (am_view st' x) =
       (if lo \<le> x \<and> x \<le> hi then Some SkResvn else map_option pa_kind (am_view st x))"
proof -
  have "length (nsegments st) + 2 \<le> VG_N_SEGMENTS \<or> add_segment (resvn lo hi) st \<noteq> None"
    using assms(5) by (simp add: VG_N_SEGMENTS_def)
  then obtain st' where st': "add_segment (resvn lo hi) st = Some st'" "am_ok st'" "same_rest st st'"
    "length (nsegments st') \<le> length (nsegments st) + 3"
    "updates_range st (start (resvn lo hi)) (end' (resvn lo hi)) (\<lambda>x. Some (attr (resvn lo hi) x)) st'"
    "length (segnames st') = length (segnames st)" "no_free_pair (nsegments st')"
    by (rule add_segment_correct [OF assms(1) init_resvn_ok(2) [OF assms(2-4)]])
  then show thesis using that [OF init_resvn_ok(1) [OF assms(2-4)]] by (simp add: updates_range_def)
qed

lemma startup_layout_ok:
  obtains st' where "am_startup_layout st = Some st'" "am_ok st'"
    "aspacem_minAddr st' = 0x04000000" "aspacem_maxAddr st' = 0x7FFFFFFFF" "aspacem_cStart st' = 0x04000000"
    "aspacem_vStart st' = 0x402000000" "length (nsegments st') \<le> 10"
    "\<And>x. map_option pa_kind (am_view st' x) = Some (
       if x < 0x04000000 \<or> 0x7FFFFFFFF < x \<or> 0x402000000 \<le> x \<and> x \<le> 0x402000FFF then SkResvn else SkFree)"
proof -
  let ?free = "init_nsegment\<lparr>kind := SkFree, start := 0, end' := -1\<rparr>"
  let ?st0 = "st\<lparr>nsegments := [?free], aspacem_minAddr := 0x04000000, aspacem_maxAddr := 0x7FFFFFFFF,
     aspacem_cStart := 0x04000000, aspacem_vStart := 0x402000000\<rparr>"
  have "seg_ok (segnames st) ?free"
    by (simp add: seg_ok_def sane_NSegment_def VG_IS_PAGE_ALIGNED_def not_le)
  then have ok0: "am_ok ?st0"
    by (simp add: am_ok_def unsigned_minus_1_eq_mask mask_eq_exp_minus_1)
  have v0: "map_option pa_kind (am_view ?st0 x) = Some SkFree" for x
    by (simp add: am_view_def attr_def in_seg_def)
  obtain st1 where st1: "init_resvn 0 0x03FFFFFF = Some (resvn 0 0x03FFFFFF)" "add_segment (resvn 0 0x03FFFFFF) ?st0 = Some st1"
    "am_ok st1" "same_rest ?st0 st1" "length (nsegments st1) \<le> length (nsegments ?st0) + 3"
    "\<And>x. map_option pa_kind (am_view st1 x) =
       (if 0 \<le> x \<and> x \<le> 0x03FFFFFF then Some SkResvn else map_option pa_kind (am_view ?st0 x))"
    by (rule add_resvn [OF ok0, of 0 "0x03FFFFFF"]) (simp_all add: VG_IS_PAGE_ALIGNED_def)
  obtain st2 where st2: "init_resvn 0x800000000 (-1) = Some (resvn 0x800000000 (-1))" "add_segment (resvn 0x800000000 (-1)) st1 = Some st2"
    "am_ok st2" "same_rest st1 st2" "length (nsegments st2) \<le> length (nsegments st1) + 3"
    "\<And>x. map_option pa_kind (am_view st2 x) =
       (if 0x800000000 \<le> x \<and> x \<le> -1 then Some SkResvn else map_option pa_kind (am_view st1 x))"
    by (rule add_resvn [OF st1(3), of "0x800000000" "-1"]) (use st1(5) in \<open>simp_all add: VG_IS_PAGE_ALIGNED_def\<close>)
  obtain st3 where st3: "init_resvn 0x402000000 0x402000FFF = Some (resvn 0x402000000 0x402000FFF)"
    "add_segment (resvn 0x402000000 0x402000FFF) st2 = Some st3"
    "am_ok st3" "same_rest st2 st3" "length (nsegments st3) \<le> length (nsegments st2) + 3"
    "\<And>x. map_option pa_kind (am_view st3 x) =
       (if 0x402000000 \<le> x \<and> x \<le> 0x402000FFF then Some SkResvn else map_option pa_kind (am_view st2 x))"
    by (rule add_resvn [OF st2(3), of "0x402000000" "0x402000FFF"]) (use st1(5) st2(5) in \<open>simp_all add: VG_IS_PAGE_ALIGNED_def\<close>)
  have al: "VG_IS_PAGE_ALIGNED 0x04000000" "VG_IS_PAGE_ALIGNED 0x800000000" "VG_IS_PAGE_ALIGNED 0x402000000" "VG_IS_PAGE_ALIGNED 0x7FF001000"
    "VG_PGROUNDUP 0x402000000 = 0x402000000"
    by (simp_all add: VG_IS_PAGE_ALIGNED_def VG_PGROUNDUP_def)
  note rests = same_restD [OF st1(4)] same_restD [OF st2(4)] same_restD [OF st3(4)]
  show thesis
  proof (rule that)
    show "am_startup_layout st = Some st3"
      using st1(1,2) st2(1,2) st3(1,2) rests al
      by (simp add: am_startup_layout_def suggested_clstack_top_def Let_def)
    show "length (nsegments st3) \<le> 10" using st1(5) st2(5) st3(5) by simp
    show "map_option pa_kind (am_view st3 x) = Some (
       if x < 0x04000000 \<or> 0x7FFFFFFFF < x \<or> 0x402000000 \<le> x \<and> x \<le> 0x402000FFF then SkResvn else SkFree)" for x
    proof -
      have "x \<le> 0x03FFFFFF \<longleftrightarrow> x < 0x04000000" "0x800000000 \<le> x \<longleftrightarrow> 0x7FFFFFFFF < x"
        by (auto simp: word_le_nat_alt word_less_nat_alt)
      then show ?thesis unfolding st3(6) st2(6) st1(6) v0 by simp
    qed
  qed (use st3(3) rests in simp_all)
qed


lemma startup_keeps: "am_startup entries st = Some (t, st') \<Longrightarrow> am_ok st'"
proof -
  assume a: "am_startup entries st = Some (t, st')"
  obtain s where "am_startup_layout st = Some s" "am_ok s" by (rule startup_layout_ok)
  then show "am_ok st'" using a read_maps_keeps by (auto simp: am_startup_def bind_Some_iff)
qed

subsection \<open>Reachable states\<close>

text \<open>Any sequence of completed operations after start-up, with any answers of the kernel.\<close>

inductive am_step :: "am_state \<Rightarrow> am_state \<Rightarrow> bool" where
  notify_mmap: "am_notify_client_mmap K a len prot flags fd off st = Some (b, st') \<Longrightarrow> am_step st st'"
| notify_shmat: "am_notify_client_shmat a len prot st = Some (b, st') \<Longrightarrow> am_step st st'"
| notify_mprotect: "am_notify_mprotect a len prot st = Some (b, st') \<Longrightarrow> am_step st st'"
| notify_munmap: "am_notify_munmap a len st = Some (b, st') \<Longrightarrow> am_step st st'"
| mmap_file_fixed: "am_mmap_file_fixed_client K a len prot fd off st = Some (r, st') \<Longrightarrow> am_step st st'"
| mmap_anon_fixed: "am_mmap_anon_fixed_client K a len prot st = Some (r, st') \<Longrightarrow> am_step st st'"
| mmap_anon_float: "am_mmap_anon_float_client K len prot st = Some (r, st') \<Longrightarrow> am_step st st'"
| mmap_anon_float_V: "am_mmap_anon_float_valgrind K len st = Some (r, st') \<Longrightarrow> am_step st st'"
| mmap_file_float_V: "am_mmap_file_float_valgrind K len prot fd off st = Some (r, st') \<Longrightarrow> am_step st st'"
| munmap_C: "am_munmap_client K a len st = Some (m, st') \<Longrightarrow> am_step st st'"
| munmap_V: "am_munmap_valgrind K a len st = Some (r, st') \<Longrightarrow> am_step st st'"
| change_ownership: "am_change_ownership_v_to_c a len st = Some (b, st') \<Longrightarrow> am_step st st'"
| set_isCH: "am_set_segment_isCH_if_SkAnonC p st = Some st' \<Longrightarrow> am_step st st'"
| set_hasT: "am_set_segment_hasT_if_SkFileC_or_SkAnonC p st = Some st' \<Longrightarrow> am_step st st'"
| create_reservation: "am_create_reservation a len sm extra st = Some (b, st') \<Longrightarrow> am_step st st'"
| extend_adjacent: "am_extend_into_adjacent_reservation_client K p delta st = Some (b, st') \<Longrightarrow> am_step st st'"
| extend_map: "am_extend_map_client K i delta st = Some (m, st') \<Longrightarrow> am_step st st'"
| relocate: "am_relocate_nooverlap_client K oa ol na nl st = Some (m, st') \<Longrightarrow> am_step st st'"

inductive am_reachable :: "am_state \<Rightarrow> bool" where
  startup: "am_startup entries st0 = Some (t, st) \<Longrightarrow> am_reachable st"
| step: "am_reachable st \<Longrightarrow> am_step st st' \<Longrightarrow> am_reachable st'"

lemma munmap_valgrind_keeps: "am_ok st \<Longrightarrow> am_munmap_valgrind K a len st = Some (r, st') \<Longrightarrow> am_ok st'"
  by (auto simp: am_munmap_valgrind_def bind_Some_iff dest: munmap_keeps split: if_splits)

lemma munmap_client_keeps: "am_ok st \<Longrightarrow> am_munmap_client K a len st = Some (m, st') \<Longrightarrow> am_ok st'"
  by (simp add: am_munmap_client_def munmap_keeps)

lemmas am_keeps = notify_client_mmap_keeps notify_client_shmat_keeps notify_mprotect_keeps notify_munmap_keeps
  mmap_keeps munmap_client_keeps munmap_valgrind_keeps change_ownership_keeps set_flag_keeps
  create_reservation_keeps extend_adjacent_keeps extend_map_keeps relocate_keeps

lemma am_step_keeps: "am_step st st' \<Longrightarrow> am_ok st \<Longrightarrow> am_ok st'"
  by (induction rule: am_step.induct) (erule (1) am_keeps [rotated])+

lemma am_reachable_ok: "am_reachable st \<Longrightarrow> am_ok st"
  by (induction rule: am_reachable.induct) (auto dest: startup_keeps am_step_keeps)

subsection \<open>The allocation policy\<close>

definition fixed_hit :: "am_state \<Rightarrow> Addr \<Rightarrow> Addr \<Rightarrow> int \<Rightarrow> bool" where
  "fixed_hit st lo hi j \<longleftrightarrow> j = -1 \<or> (0 \<le> j \<and> j < int (length (nsegments st)) \<and>
     (let s = nsegments st ! nat j in kind s = SkFree \<and> start s \<le> lo \<and> hi \<le> end' s))"

definition float_hit :: "am_state \<Rightarrow> Addr \<Rightarrow> int \<Rightarrow> bool" where
  "float_hit st len j \<longleftrightarrow> j = -1 \<or> (0 \<le> j \<and> j < int (length (nsegments st)) \<and>
     (let s = nsegments st ! nat j in kind s = SkFree \<and> len \<le> end' s - start s + 1))"

lemma advisory_loop_hits:
  "advisory_loop n st fnr lo hi len i fx fl = Some (fx', fl') \<Longrightarrow> i < length (nsegments st) \<Longrightarrow>
     fixed_hit st lo hi fx \<Longrightarrow> float_hit st len fl \<Longrightarrow> fixed_hit st lo hi fx' \<and> float_hit st len fl'"
proof (induction n arbitrary: i fx fl)
  case (Suc n)
  let ?s = "nsegments st ! i"
  define fx1 where "fx1 = (if fx = -1 \<and> start ?s \<le> lo \<and> hi \<le> end' ?s then int i else fx)"
  define fl1 where "fl1 = (if fl = -1 \<and> end' ?s - start ?s + 1 \<ge> len then int i else fl)"
  define i' where "i' = (if i + 1 \<ge> length (nsegments st) then 0 else i + 1)"
  have i': "i' < length (nsegments st)" using Suc.prems(2) by (auto simp: i'_def)
  show ?case
  proof (cases "kind ?s = SkFree")
    case False
    then show ?thesis using Suc.prems Suc.IH [OF _ i'] by (simp add: Let_def i'_def)
  next
    case True
    then have hits: "fixed_hit st lo hi fx1" "float_hit st len fl1"
      using Suc.prems(2-4) by (auto simp: fixed_hit_def float_hit_def fx1_def fl1_def Let_def)
    have "(if (fnr \<or> fx1 \<ge> 0) \<and> fl1 \<ge> 0 then Some (fx1, fl1) else advisory_loop n st fnr lo hi len i' fx1 fl1) = Some (fx', fl')"
      using Suc.prems(1) True unfolding advisory_loop.simps Let_def fx1_def fl1_def i'_def by (auto split: if_split_asm)
    then show ?thesis using hits Suc.IH [OF _ i'] by (auto split: if_split_asm)
  qed
qed simp

lemma float_hit_range:
  assumes "am_ok st" "float_hit st len j" "j \<noteq> -1" "len \<noteq> 0"
  shows "unat (start (nsegments st ! nat j)) + unat len \<le> unat (end' (nsegments st ! nat j)) + 1"
    "nsegments st ! nat j \<in> set (nsegments st)" "kind (nsegments st ! nat j) = SkFree"
proof -
  let ?s = "nsegments st ! nat j"
  have s: "?s \<in> set (nsegments st)" "kind ?s = SkFree" "len \<le> end' ?s - start ?s + 1"
    using assms(2,3) by (auto simp: float_hit_def Let_def nat_less_iff)
  then show "?s \<in> set (nsegments st)" "kind ?s = SkFree" by auto
  have lt: "unat (start ?s) < unat (end' ?s)"
    using assms(1) s(1) seg_ok_extent by (auto simp: am_ok_def extent_ok_def)
  have "end' ?s - start ?s \<noteq> -1" using s(3) assms(4) by auto
  then have "unat (end' ?s - start ?s + 1) = unat (end' ?s) - unat (start ?s) + 1"
    using unat_succ [of "end' ?s - start ?s"] lt by (simp add: unat_sub_if')
  then show "unat (start ?s) + unat len \<le> unat (end' ?s) + 1"
    using s(3) lt unfolding word_le_nat_alt by linarith
qed

text \<open>What a segment says of the addresses inside it.\<close>

lemma view_in_seg:
  assumes "am_ok st" "s \<in> set (nsegments st)" "in_seg s x"
  shows "am_view st x = Some (attr s x)"
  using tiles_unique [of 0 "nsegments st" "2 ^ 64" s x] assms by (simp add: am_ok_def am_view_def lview_def)

definition policy :: "bool \<Rightarrow> MapRequestKind \<Rightarrow> SegKind set" where
  "policy forClient rk = (if forClient \<and> rk = MFixed then {SkFree, SkFileC, SkAnonC, SkShmC, SkResvn}
     else if forClient \<and> rk = MHint then {SkFree, SkResvn} else {SkFree})"

lemma all_in_seg:
  assumes "am_ok st" "s \<in> set (nsegments st)" "start s \<le> a" "unat a + unat len \<le> unat (end' s) + 1" "len \<noteq> 0"
    "kind s \<in> ks"
  shows "all_in st a len (\<lambda>pa. pa_kind pa \<in> ks)"
  unfolding all_in_def
proof clarify
  fix x assume x: "a \<le> x" "x \<le> a + len - 1"
  have "unat len \<noteq> 0" using assms(5) by (simp add: unsigned_eq_0_iff)
  moreover have "unat (a + len - 1) < unat a + unat len"
  proof -
    have "unat (a + (len - 1)) \<le> unat a + unat (len - 1)" by (simp add: unat_word_ariths)
    then show ?thesis using unat_pred [of len] assms(5) by (simp add: word_gt_0 algebra_simps)
  qed
  ultimately have "in_seg s x" using x assms(3,4) by (simp add: in_seg_nat word_le_nat_alt)
  then show "\<exists>pa. am_view st x = Some pa \<and> pa_kind pa \<in> ks"
    using view_in_seg [OF assms(1,2)] assms(6) by (simp add: attr_def)
qed

lemma advisory_default_safe:
  assumes ok: "am_ok st" and len: "req_len req \<noteq> 0" and d: "advisory_default req fc lo hi st = Some (a, True)"
    and fixed: "rkind req \<noteq> MAny \<longrightarrow> lo = req_start req \<and> hi = lo + req_len req - 1 \<and> \<not> lo + req_len req < lo"
  shows "unat a + unat (req_len req) \<le> 2 ^ 64 \<and> all_in st a (req_len req) (\<lambda>pa. pa_kind pa \<in> {SkFree}) \<and>
    (rkind req = MFixed \<longrightarrow> a = req_start req)"
proof -
  let ?segs = "nsegments st" and ?len = "req_len req"
  have cov: "covers ?segs" using ok by (simp add: am_ok_def)
  obtain i fx fl where i: "find_nsegment_idx (if fc then aspacem_cStart st else aspacem_vStart st) st = Some i"
    and l: "advisory_loop (length ?segs) st (rkind req = MAny) lo hi ?len i (-1) (-1) = Some (fx, fl)"
    and r: "(case rkind req of
       MFixed \<Rightarrow> Some (if fx \<ge> 0 then (req_start req, True) else (0, False))
     | MHint \<Rightarrow> Some (if fx \<ge> 0 then (req_start req, True)
                     else if fl \<ge> 0 then (start (?segs ! nat fl), True) else (0, False))
     | MAny \<Rightarrow> Some (if fl \<ge> 0 then (start (?segs ! nat fl), True) else (0, False))) = Some (a, True)"
    using d unfolding advisory_default_def Let_def by (auto simp: bind_Some_iff split: if_split_asm)
  have "i < length ?segs" using i find_nsegment_idx_iff [OF cov] by simp
  then have hits: "fixed_hit st lo hi fx" "float_hit st ?len fl"
    using advisory_loop_hits [OF l] by (simp_all add: fixed_hit_def float_hit_def)
  have fl: ?thesis if "fl \<ge> 0" "a = start (?segs ! nat fl)" "rkind req \<noteq> MFixed"
  proof -
    note h = float_hit_range [OF ok hits(2) _ len]
    have "unat (end' (?segs ! nat fl)) < 2 ^ 64" using unsigned_less [of "end' (?segs ! nat fl)", where 'a = nat] by simp
    then show ?thesis using h that all_in_seg [OF ok h(2), of a ?len "{SkFree}"] len by simp
  qed
  have fx: ?thesis if "fx \<ge> 0" "a = req_start req" "rkind req \<noteq> MAny"
  proof -
    have s: "?segs ! nat fx \<in> set ?segs" "kind (?segs ! nat fx) = SkFree" "start (?segs ! nat fx) \<le> a"
      "a + ?len - 1 \<le> end' (?segs ! nat fx)"
      using hits(1) that fixed by (auto simp: fixed_hit_def Let_def nat_less_iff)
    have nw: "\<not> a + ?len < a" using that fixed by auto
    note n = range_nowrap [OF len nw]
    have "unat a + unat ?len \<le> unat (end' (?segs ! nat fx)) + 1"
      using s(4) n(1) unfolding word_le_nat_alt by linarith
    then show ?thesis using all_in_seg [OF ok s(1,3) _ len, of "{SkFree}"] s(2) n(4) that by simp
  qed
  show ?thesis using r fl fx by (cases "rkind req") (auto split: if_split_asm)
qed

lemma advisory_safe:
  assumes "am_ok st" "am_get_advisory req forClient st = Some (a, True)"
  shows "req_len req \<noteq> 0 \<and> unat a + unat (req_len req) \<le> 2 ^ 64 \<and>
    all_in st a (req_len req) (\<lambda>pa. pa_kind pa \<in> policy forClient (rkind req)) \<and>
    (rkind req = MFixed \<longrightarrow> a = req_start req)"
proof -
  let ?len = "req_len req" and ?lo = "if rkind req = MAny then 0 else req_start req"
  have len: "?len \<noteq> 0" using assms(2) by (auto simp: am_get_advisory_def Let_def split: if_split_asm)
  have nw: "rkind req \<noteq> MAny \<longrightarrow> \<not> req_start req + ?len < req_start req"
    using assms(2) len by (cases "rkind req") (auto simp: am_get_advisory_def Let_def split: if_split_asm)
  have default: ?thesis if "advisory_default req forClient ?lo (?lo + ?len - 1) st = Some (a, True)" "\<not> (forClient \<and> rkind req = MFixed)"
  proof -
    have "all_in st a ?len (\<lambda>pa. pa_kind pa \<in> policy forClient (rkind req))"
      if "all_in st a ?len (\<lambda>pa. pa_kind pa \<in> {SkFree})"
      using that unfolding all_in_def policy_def by fastforce
    then show ?thesis using advisory_default_safe [OF assms(1) len that(1)] nw len by auto
  qed
  have range: ?thesis if "a = req_start req" "rkind req \<noteq> MAny" "policy forClient (rkind req) = ks"
    "find_nsegment_idx (req_start req) st = Some iLo" "find_nsegment_idx (req_start req + ?len - 1) st = Some iHi"
    "list_all (\<lambda>s. kind s \<in> ks) (seg_range (nsegments st) iLo iHi)" for iLo iHi ks
  proof -
    note n = range_nowrap [OF len nw [rule_format, OF that(2)]]
    obtain iLo' iHi' where f: "find_nsegment_idx (req_start req) st = Some iLo'"
      "find_nsegment_idx (req_start req + ?len - 1) st = Some iHi'"
      "iLo' < length (nsegments st)" "iHi' < length (nsegments st)"
      "in_seg (nsegments st ! iLo') (req_start req)" "in_seg (nsegments st ! iHi') (req_start req + ?len - 1)"
      "set (seg_range (nsegments st) iLo' iHi') =
         {s \<in> set (nsegments st). \<exists>x. req_start req \<le> x \<and> x \<le> req_start req + ?len - 1 \<and> in_seg s x}"
      by (rule range_found [OF assms(1) n(3)])
    then have "iLo' = iLo" "iHi' = iHi" using that(4,5) by simp_all
    then have "all_in st a ?len (\<lambda>pa. pa_kind pa \<in> ks)"
      using range_view [OF assms(1) f(7), of "\<lambda>s. kind s \<in> ks" "\<lambda>pa. pa_kind pa \<in> ks"] that(1,6)
      by (simp add: attr_def all_in_def)
    then show ?thesis using that(1,3) n(4) len by simp
  qed
  note g = assms(2) [unfolded am_get_advisory_def Let_def]
  consider (F) "forClient" "rkind req = MFixed" | (H) "forClient" "rkind req = MHint"
    | (D) "\<not> (forClient \<and> (rkind req = MFixed \<or> rkind req = MHint))" by (cases "rkind req") auto
  then show ?thesis
  proof cases
    case F
    obtain iLo iHi where f: "a = req_start req" "find_nsegment_idx (req_start req) st = Some iLo"
      "find_nsegment_idx (req_start req + ?len - 1) st = Some iHi"
      "list_all (\<lambda>s. kind s \<in> {SkFree, SkFileC, SkAnonC, SkShmC, SkResvn}) (seg_range (nsegments st) iLo iHi)"
      using g F len nw by (auto simp: bind_Some_iff split: if_split_asm)
    have "rkind req \<noteq> MAny" "policy forClient (rkind req) = {SkFree, SkFileC, SkAnonC, SkShmC, SkResvn}"
      using F by (simp_all add: policy_def)
    then show ?thesis by (rule range [OF f(1) _ _ f(2-4)])
  next
    case H
    show ?thesis
    proof (cases "advisory_default req forClient ?lo (?lo + ?len - 1) st = Some (a, True)")
      case True then show ?thesis using default H by simp
    next
      case False
      obtain iLo iHi where f: "a = req_start req" "find_nsegment_idx (req_start req) st = Some iLo"
        "find_nsegment_idx (req_start req + ?len - 1) st = Some iHi"
        "list_all (\<lambda>s. kind s \<in> {SkFree, SkResvn}) (seg_range (nsegments st) iLo iHi)"
        using g H len nw False by (auto simp: bind_Some_iff split: if_split_asm)
      have "rkind req \<noteq> MAny" "policy forClient (rkind req) = {SkFree, SkResvn}" using H by (simp_all add: policy_def)
      then show ?thesis by (rule range [OF f(1) _ _ f(2-4)])
    qed
  next
    case D
    then have "advisory_default req forClient ?lo (?lo + ?len - 1) st = Some (a, True)"
      using g len nw by (cases "rkind req") (auto split: if_split_asm)
    then show ?thesis using default D by blast
  qed
qed

text \<open>The free segments lie between the limits of the manager, as the policy asserts.\<close>

definition holes_ok :: "am_state \<Rightarrow> bool" where
  "holes_ok st \<longleftrightarrow> (\<forall>s \<in> set (nsegments st). kind s = SkFree \<longrightarrow> aspacem_minAddr st \<le> start s \<and> end' s \<le> aspacem_maxAddr st)"

lemma advisory_loop_total:
  assumes "am_ok st" "holes_ok st" "i < length (nsegments st)"
  shows "\<exists>fx' fl'. advisory_loop n st fnr lo hi len i fx fl = Some (fx', fl')"
  using assms(3)
proof (induction n arbitrary: i fx fl)
  case (Suc n)
  let ?s = "nsegments st ! i"
  have "(if i + 1 \<ge> length (nsegments st) then 0 else i + 1) < length (nsegments st)" using Suc.prems by auto
  note IH = Suc.IH [OF this]
  have "?s \<in> set (nsegments st)" using Suc.prems by simp
  then have "kind ?s = SkFree \<longrightarrow> start ?s \<le> end' ?s \<and> aspacem_minAddr st \<le> start ?s \<and> end' ?s \<le> aspacem_maxAddr st"
    using assms(1,2) seg_ok_extent by (force simp: am_ok_def holes_ok_def extent_ok_def word_le_nat_alt)
  then show ?case using IH by (auto simp: Let_def)
qed simp

lemma advisory_loop_float_stays:
  "advisory_loop n st fnr lo hi len i fx fl = Some (fx', fl') \<Longrightarrow> fl \<noteq> -1 \<Longrightarrow> fl' = fl"
  by (induction n arbitrary: i fx) (auto simp: Let_def split: if_split_asm)

text \<open>When no floating hole was found, none of the segments visited is a large enough one.\<close>

abbreviation roomy :: "am_state \<Rightarrow> Addr \<Rightarrow> nat \<Rightarrow> bool" where
  "roomy st len i \<equiv> kind (nsegments st ! i) = SkFree \<and> len \<le> end' (nsegments st ! i) - start (nsegments st ! i) + 1"

lemma advisory_loop_complete:
  "advisory_loop n st fnr lo hi len i fx (-1) = Some (fx', -1) \<Longrightarrow> i < length (nsegments st) \<Longrightarrow> k < n \<Longrightarrow>
     \<not> roomy st len ((i + k) mod length (nsegments st))"
proof (induction n arbitrary: i fx k)
  case (Suc n)
  let ?N = "length (nsegments st)"
  define i' where "i' = (if i + 1 \<ge> ?N then 0 else i + 1)"
  have i': "i' < ?N" "(i' + j) mod ?N = (i + Suc j) mod ?N" for j
  proof -
    show "i' < ?N" using Suc.prems(2) by (auto simp: i'_def)
    show "(i' + j) mod ?N = (i + Suc j) mod ?N"
    proof (cases "i + 1 \<ge> ?N")
      case True
      then have "i' + j = j" "i + Suc j = ?N + j" using Suc.prems(2) by (simp_all add: i'_def)
      then show ?thesis by (simp only: mod_add_self1)
    qed (simp add: i'_def)
  qed
  have now: "\<not> roomy st len i"
  proof
    assume a: "roomy st len i"
    define fx1 where "fx1 = (if fx = -1 \<and> start (nsegments st ! i) \<le> lo \<and> hi \<le> end' (nsegments st ! i) then int i else fx)"
    have "(if (fnr \<or> fx1 \<ge> 0) \<and> int i \<ge> 0 then Some (fx1, int i) else advisory_loop n st fnr lo hi len i' fx1 (int i)) = Some (fx', -1)"
      using Suc.prems(1) a unfolding advisory_loop.simps Let_def fx1_def [symmetric] i'_def [symmetric]
      by (simp split: if_split_asm)
    then show False using advisory_loop_float_stays by (fastforce split: if_split_asm)
  qed
  have "\<exists>fx1. advisory_loop n st fnr lo hi len i' fx1 (-1) = Some (fx', -1)"
    using Suc.prems(1) now unfolding advisory_loop.simps Let_def i'_def [symmetric]
    by (auto split: if_split_asm)
  then obtain fx1 where rest: "advisory_loop n st fnr lo hi len i' fx1 (-1) = Some (fx', -1)" by blast
  show ?case
  proof (cases k)
    case 0 then show ?thesis using now Suc.prems(2) by simp
  next
    case (Suc j)
    then show ?thesis using Suc.IH [OF rest i'(1), of j] Suc.prems(3) i'(2) by simp
  qed
qed simp

text \<open>A floating request is granted exactly when some free segment is large enough.\<close>

lemma advisory_float_complete:
  assumes ok: "am_ok st" and holes: "holes_ok st" and req: "rkind req = MAny" "req_len req \<noteq> 0"
  shows "\<exists>a. am_get_advisory req fc st =
    Some (a, \<exists>s \<in> set (nsegments st). kind s = SkFree \<and> req_len req \<le> end' s - start s + 1)"
proof -
  let ?segs = "nsegments st" and ?len = "req_len req"
  have cov: "covers ?segs" using ok by (simp add: am_ok_def)
  obtain i where i: "find_nsegment_idx (if fc then aspacem_cStart st else aspacem_vStart st) st = Some i" "i < length ?segs"
    using find_nsegment_idx_correct [OF cov] by metis
  obtain fx fl where l: "advisory_loop (length ?segs) st True 0 (0 + ?len - 1) ?len i (-1) (-1) = Some (fx, fl)"
    using advisory_loop_total [OF ok holes i(2)] by blast
  have hits: "fixed_hit st 0 (0 + ?len - 1) fx" "float_hit st ?len fl"
    using advisory_loop_hits [OF l i(2)] by (simp_all add: fixed_hit_def float_hit_def)
  have "(fl \<ge> 0) = (\<exists>s \<in> set ?segs. kind s = SkFree \<and> ?len \<le> end' s - start s + 1)"
  proof
    assume "fl \<ge> 0"
    then show "\<exists>s \<in> set ?segs. kind s = SkFree \<and> ?len \<le> end' s - start s + 1"
      using hits(2) by (intro bexI [of _ "?segs ! nat fl"]) (auto simp: float_hit_def Let_def nat_less_iff)
  next
    assume "\<exists>s \<in> set ?segs. kind s = SkFree \<and> ?len \<le> end' s - start s + 1"
    then obtain j where j: "j < length ?segs" "roomy st ?len j" by (auto simp: in_set_conv_nth)
    define k where "k = (if i \<le> j then j - i else length ?segs - i + j)"
    have k: "k < length ?segs" "(i + k) mod length ?segs = j" using i(2) j(1) by (auto simp: k_def)
    show "fl \<ge> 0"
    proof (rule ccontr)
      assume "\<not> fl \<ge> 0"
      then have "fl = -1" using hits(2) by (auto simp: float_hit_def)
      then show False using advisory_loop_complete [of _ st True 0 _ ?len i "-1" fx k] l i(2) k j(2) by auto
    qed
  qed
  moreover have "am_get_advisory req fc st = advisory_default req fc 0 (0 + ?len - 1) st"
    using req i(2) by (auto simp: am_get_advisory_def Let_def)
  moreover have "advisory_default req fc 0 (0 + ?len - 1) st =
      Some (if fl \<ge> 0 then (start (?segs ! nat fl), True) else (0, False))"
    using req i(1) l hits unfolding advisory_default_def Let_def
    by (auto simp: fixed_hit_def float_hit_def Let_def)
  ultimately show ?thesis by auto
qed

subsection \<open>Rounding to pages\<close>

lemma and_not_page: "(x :: 64 word) AND NOT 4095 = x - take_bit 12 x"
  using and_not_mask [of x 12] by (simp add: mask_eq_exp_minus_1)

lemma pgroundup_nat:
  assumes "unat p + 4095 < 2 ^ 64"
  shows "unat (VG_PGROUNDUP p) = (unat p + 4095) div 4096 * 4096"
proof -
  let ?x = "p + 4096 - 1"
  have "?x = p + 4095" by simp
  then have x: "unat ?x = unat p + 4095" using assms by (simp only: unat_word_ariths) simp
  have t: "unat (take_bit 12 ?x) = unat ?x mod 4096"
    by (simp only: unsigned_take_bit_eq take_bit_eq_mod) (simp add: unat_mod)
  then have "unat (?x - take_bit 12 ?x) = unat ?x - unat ?x mod 4096"
    by (simp add: unat_sub_if')
  then have "unat (VG_PGROUNDUP p) = unat ?x - unat ?x mod 4096"
    using and_not_page [of ?x] by (simp add: VG_PGROUNDUP_def)
  then show ?thesis using x by (simp add: minus_mod_eq_div_mult)
qed

lemma pgroundup_bounds:
  assumes "unat p + 4095 < 2 ^ 64"
  shows "unat p \<le> unat (VG_PGROUNDUP p)" "unat (VG_PGROUNDUP p) \<le> unat p + 4095" "VG_IS_PAGE_ALIGNED (VG_PGROUNDUP p)"
    "4096 dvd q \<Longrightarrow> unat p \<le> q \<Longrightarrow> unat (VG_PGROUNDUP p) \<le> q"
proof -
  have d: "(unat p + 4095) div 4096 * 4096 + (unat p + 4095) mod 4096 = unat p + 4095" by (rule div_mult_mod_eq)
  have m: "(unat p + 4095) mod 4096 < 4096" by simp
  show "unat p \<le> unat (VG_PGROUNDUP p)" "unat (VG_PGROUNDUP p) \<le> unat p + 4095"
    unfolding pgroundup_nat [OF assms] using d m by linarith+
  show "VG_IS_PAGE_ALIGNED (VG_PGROUNDUP p)" by (simp add: page_aligned_dvd pgroundup_nat [OF assms])
  show "unat (VG_PGROUNDUP p) \<le> q" if q: "4096 dvd q" "unat p \<le> q"
  proof -
    obtain k where k: "q = 4096 * k" using q(1) by (elim dvdE)
    then have "(unat p + 4095) div 4096 \<le> k" using q(2) by linarith
    then show ?thesis unfolding pgroundup_nat [OF assms] k by simp
  qed
qed

subsection \<open>Mappings at an address of Valgrind's choice\<close>

lemma unat_max_iff: "unat (x :: 64 word) = 2 ^ 64 - 1 \<longleftrightarrow> x = -1"
  using word_unat_eq_iff [of x "-1"] by (simp add: unsigned_minus_1_eq_mask mask_eq_exp_minus_1)

lemma advisory_any:
  assumes ok: "am_ok st" and g: "am_get_advisory \<lparr>rkind = MAny, req_start = 0, req_len = len\<rparr> fc st = Some (a, True)"
  obtains s where "s \<in> set (nsegments st)" "kind s = SkFree" "start s = a" "unat a + unat len \<le> unat (end' s) + 1" "len \<noteq> 0"
    "unat (end' s) + 1 - unat a < 2 ^ 64"
proof -
  let ?req = "\<lparr>rkind = MAny, req_start = 0, req_len = len\<rparr>"
  have len: "len \<noteq> 0" using g by (auto simp: am_get_advisory_def Let_def split: if_split_asm)
  have d: "advisory_default ?req fc 0 (0 + len - 1) st = Some (a, True)"
    using g len by (auto simp: am_get_advisory_def Let_def split: if_split_asm)
  have cov: "covers (nsegments st)" using ok by (simp add: am_ok_def)
  obtain i fx fl where i: "find_nsegment_idx (if fc then aspacem_cStart st else aspacem_vStart st) st = Some i"
    and l: "advisory_loop (length (nsegments st)) st True 0 (0 + len - 1) len i (-1) (-1) = Some (fx, fl)"
    and r: "fl \<ge> 0" "a = start (nsegments st ! nat fl)"
    using d unfolding advisory_default_def Let_def by (auto simp: bind_Some_iff split: if_split_asm)
  have "i < length (nsegments st)" using i find_nsegment_idx_iff [OF cov] by simp
  then have hit: "float_hit st len fl" using advisory_loop_hits [OF l] by (simp add: fixed_hit_def float_hit_def)
  note h = float_hit_range [OF ok hit _ len]
  let ?s = "nsegments st ! nat fl"
  have "len \<le> end' ?s - start ?s + 1" using hit r(1) by (auto simp: float_hit_def Let_def)
  then have "end' ?s - start ?s \<noteq> -1" using len by auto
  then have "\<not> (start ?s = 0 \<and> end' ?s = -1)" by auto
  then have "unat (start ?s) \<noteq> 0 \<or> unat (end' ?s) \<noteq> 2 ^ 64 - 1"
    using unat_max_iff [of "end' ?s"] by (auto simp: unsigned_eq_0_iff)
  moreover have "unat (end' ?s) < 2 ^ 64" using unsigned_less [of "end' ?s", where 'a = nat] by simp
  ultimately have "unat (end' ?s) + 1 - unat a < 2 ^ 64" using r(2) by auto
  then show thesis using that [of ?s] h r len by simp
qed

text \<open>Rounded up to pages, the advised range is still inside the free segment.\<close>

lemma advised_pages:
  assumes ok: "am_ok st" and g: "am_get_advisory \<lparr>rkind = MAny, req_start = 0, req_len = len\<rparr> fc st = Some (a, True)"
  shows "all_in st a (VG_PGROUNDUP len) (\<lambda>pa. pa_kind pa = SkFree)" "all_in st a len (\<lambda>pa. pa_kind pa = SkFree)"
    "start s = a \<Longrightarrow> end' s = a + VG_PGROUNDUP len - 1 \<Longrightarrow> extent_ok s"
proof -
  obtain h where h: "h \<in> set (nsegments st)" "kind h = SkFree" "start h = a" "unat a + unat len \<le> unat (end' h) + 1" "len \<noteq> 0"
    "unat (end' h) + 1 - unat a < 2 ^ 64" by (rule advisory_any [OF assms])
  have ext: "4096 dvd unat a" "4096 dvd (unat (end' h) + 1)" "unat a < unat (end' h)"
    using seg_ok_extent [of "segnames st" h] ok h(1,3) by (auto simp: am_ok_def extent_ok_def)
  have dvd: "4096 dvd (unat (end' h) + 1 - unat a)" using ext by (simp add: dvd_diff_nat)
  then obtain k where k: "unat (end' h) + 1 - unat a = 4096 * k" by (elim dvdE)
  then have "k < 4503599627370496" using h(6) by simp
  then have "unat len + 4095 < 18446744073709551616" using h(4) k by linarith
  then have small: "unat len + 4095 < 2 ^ 64" by simp
  note p = pgroundup_bounds [OF small]
  have le: "unat a + unat (VG_PGROUNDUP len) \<le> unat (end' h) + 1"
    using p(4) [OF dvd] h(4) ext(3) by linarith
  have nz: "VG_PGROUNDUP len \<noteq> 0" using p(1) h(5) by (metis le_zero_eq unat_0 unsigned_eq_0_iff)
  show "all_in st a (VG_PGROUNDUP len) (\<lambda>pa. pa_kind pa = SkFree)" "all_in st a len (\<lambda>pa. pa_kind pa = SkFree)"
    using all_in_seg [OF ok h(1) _ le nz, of "{SkFree}"] all_in_seg [OF ok h(1) _ h(4,5), of "{SkFree}"] h(2,3) by simp_all
  have "unat a + unat (VG_PGROUNDUP len) \<le> 2 ^ 64"
    using le unsigned_less [of "end' h", where 'a = nat] by simp
  moreover have R: "4096 \<le> unat (VG_PGROUNDUP len)" using p(3) nz by (simp add: page_aligned_dvd dvd_imp_le unat_gt_0)
  ultimately have e: "unat (a + VG_PGROUNDUP len - 1) = unat a + unat (VG_PGROUNDUP len) - 1"
  proof -
    have "unat (VG_PGROUNDUP len - 1) + 1 = unat (VG_PGROUNDUP len)" using nz by (intro unat_pred) (simp add: word_gt_0)
    then show ?thesis using \<open>unat a + unat (VG_PGROUNDUP len) \<le> 2 ^ 64\<close> R
      unfolding add_diff_eq [symmetric] unat_word_ariths(1) by simp
  qed
  show "extent_ok s" if "start s = a" "end' s = a + VG_PGROUNDUP len - 1"
    using that e R ext(1) p(3) by (simp add: extent_ok_def page_aligned_dvd)
qed

subsection \<open>The segment array as an overwriting store\<close>

text \<open>What the operations above rely on: adding a segment overwrites exactly its range.\<close>

locale segment_store =
  fixes ok :: "'s \<Rightarrow> bool" and view :: "'s \<Rightarrow> Addr \<Rightarrow> page_attr option" and add :: "NSegment \<Rightarrow> 's \<Rightarrow> 's option"
  assumes add_ok: "ok st \<Longrightarrow> \<not> hasT seg \<Longrightarrow> add seg st = Some st' \<Longrightarrow> ok st'"
    and add_view: "ok st \<Longrightarrow> \<not> hasT seg \<Longrightarrow> add seg st = Some st' \<Longrightarrow>
      view st' x = (if in_seg seg x then Some (attr seg x) else view st x)"
begin

lemma add_disjoint:
  assumes "ok st" "\<not> hasT s" "\<not> hasT t" "\<And>x. \<not> (in_seg s x \<and> in_seg t x)"
    "add s st = Some a" "add t a = Some b" "add t st = Some c" "add s c = Some d"
  shows "view b = view d"
proof
  fix x
  have "ok a" "ok c" using add_ok assms(1-3,5,7) by blast+
  note va = add_view [OF assms(1,2,5)] and vb = add_view [OF \<open>ok a\<close> assms(3,6)]
    and vc = add_view [OF assms(1,3,7)] and vd = add_view [OF \<open>ok c\<close> assms(2,8)]
  show "view b x = view d x" unfolding vb va vd vc using assms(4) [of x] by simp
qed

lemma add_covers:
  assumes "ok st" "\<not> hasT s" "\<not> hasT t" "\<And>x. in_seg s x \<Longrightarrow> in_seg t x"
    "add s st = Some a" "add t a = Some b" "add t st = Some c"
  shows "view b = view c"
proof
  fix x
  have "ok a" using add_ok assms(1,2,5) by blast
  note va = add_view [OF assms(1,2,5)] and vb = add_view [OF \<open>ok a\<close> assms(3,6)] and vc = add_view [OF assms(1,3,7)]
  show "view b x = view c x" unfolding vb va vc using assms(4) [of x] by simp
qed

end

interpretation am: segment_store am_ok am_view add_segment
  by unfold_locales
     (auto dest: add_segment_keeps add_segment_inv(3) simp: updates_range_def in_seg_def)

subsection \<open>Unmapping\<close>

definition hole_kind :: "am_state \<Rightarrow> Addr \<Rightarrow> Addr \<Rightarrow> SegKind" where
  "hole_kind st lo hi = (if lo > aspacem_maxAddr st \<and> aspacem_maxAddr st < -1 then SkResvn
     else if hi < aspacem_minAddr st \<and> aspacem_minAddr st > 0 then SkResvn else SkFree)"

definition blank :: "SegKind \<Rightarrow> page_attr" where
  "blank k = \<lparr>pa_kind = k, pa_smode = SmFixed, pa_R = False, pa_W = False, pa_X = False, pa_CH = False, pa_file = None\<rparr>"

lemma munmap_notify_ok:
  assumes "am_ok st" "VG_IS_PAGE_ALIGNED a" "VG_IS_PAGE_ALIGNED len" "a < a + len"
    "length (nsegments st) + 2 \<le> VG_N_SEGMENTS \<or> am_notify_munmap a len st \<noteq> None"
  obtains st' where "am_notify_munmap a len st = Some (\<exists>x. a \<le> x \<and> x \<le> a + len - 1 \<and> am_T st x, st')"
    "am_ok st'" "same_rest st st'"
    "updates_range st a (a + len - 1) (\<lambda>x. Some (blank (hole_kind st a (a + len - 1)))) st'" "no_free_pair (nsegments st')"
proof -
  have nz: "len \<noteq> 0" and nw: "\<not> a + len < a" using assms(4) by auto
  note al = page_aligned_end [OF nz assms(2,3) nw] and ts = any_Ts_ok [OF assms(1) nz assms(4)]
  let ?seg = "init_nsegment\<lparr>start := a, end' := a + len - 1, kind := hole_kind st a (a + len - 1)\<rparr>"
  have op: "am_notify_munmap a len st =
      map_option (\<lambda>s. (\<exists>x. a \<le> x \<and> x \<le> a + len - 1 \<and> am_T st x, s)) (add_segment ?seg st)"
    using assms(2,3) nz ts unfolding am_notify_munmap_def Let_def hole_kind_def [symmetric]
    by (cases "add_segment ?seg st") (simp_all add: hole_kind_def [symmetric] split del: if_split)
  have ok: "seg_ok (segnames st) ?seg"
    using al assms(2) by (auto simp: seg_ok_def sane_NSegment_def hole_kind_def not_le)
  have "length (nsegments st) + 2 \<le> VG_N_SEGMENTS \<or> add_segment ?seg st \<noteq> None"
    using assms(5) op by auto
  then obtain st' where s: "add_segment ?seg st = Some st'" "am_ok st'" "same_rest st st'"
    "length (nsegments st') \<le> length (nsegments st) + 3"
    "updates_range st (start ?seg) (end' ?seg) (\<lambda>x. Some (attr ?seg x)) st'"
    "length (segnames st') = length (segnames st)" "no_free_pair (nsegments st')"
    by (rule add_segment_correct [OF assms(1) ok])
  have "attr ?seg x = blank (hole_kind st a (a + len - 1))" for x
    by (auto simp: attr_def blank_def hole_kind_def)
  then show thesis using that [of st'] op s by simp
qed

lemma no_free_pair_nth:
  "no_free_pair segs \<Longrightarrow> Suc i < length segs \<Longrightarrow> \<not> (kind (segs ! i) = SkFree \<and> kind (segs ! Suc i) = SkFree)"
  by (induction segs arbitrary: i rule: no_free_pair.induct) (auto simp: nth_Cons split: nat.splits)

text \<open>Two neighbouring free addresses are in one segment.\<close>

lemma free_neighbours:
  assumes ok: "am_ok st" and nfp: "no_free_pair (nsegments st)"
    and k: "map_option pa_kind (am_view st x) = Some SkFree" "map_option pa_kind (am_view st (x + 1)) = Some SkFree" "x \<noteq> -1"
    and s: "find_nsegment_idx (x + 1) st = Some i"
  shows "in_seg (nsegments st ! i) x" "kind (nsegments st ! i) = SkFree"
proof -
  let ?segs = "nsegments st"
  have cov: "covers ?segs" using ok by (simp add: am_ok_def)
  have i: "i < length ?segs" "in_seg (?segs ! i) (x + 1)" using s find_nsegment_idx_iff [OF cov] by simp_all
  show ki: "kind (?segs ! i) = SkFree" using k(2) view_in_seg [OF ok nth_mem [OF i(1)] i(2)] by (simp add: attr_def)
  obtain j where j: "j < length ?segs" "in_seg (?segs ! j) x" using find_nsegment_idx_correct [OF cov, of x] by metis
  have kj: "kind (?segs ! j) = SkFree" using k(1) view_in_seg [OF ok nth_mem [OF j(1)] j(2)] by (simp add: attr_def)
  have u: "unat (x + 1) = unat x + 1" using k(3) by (rule unat_succ)
  show "in_seg (?segs ! i) x"
  proof (rule ccontr)
    assume n: "\<not> in_seg (?segs ! i) x"
    then have si: "unat (start (?segs ! i)) = unat x + 1" using i(2) u by (auto simp: in_seg_nat)
    have "j \<noteq> i" using j(2) n by blast
    moreover have "\<not> i < j" using tiles_mono [OF cov, of i j] j i(2) u by (auto simp: in_seg_nat)
    ultimately have "j < i" by simp
    moreover have "\<not> Suc j < i"
    proof
      assume "Suc j < i"
      then have "unat (end' (?segs ! j)) < unat (start (?segs ! Suc j))" "unat (end' (?segs ! Suc j)) < unat (start (?segs ! i))"
        using tiles_mono [OF cov] i(1) by auto
      moreover have "unat (start (?segs ! Suc j)) \<le> unat (end' (?segs ! Suc j))"
        using tiles_split(3) [OF cov, of "Suc j"] \<open>Suc j < i\<close> i(1) by (simp add: word_le_nat_alt)
      ultimately show False using j(2) si by (simp add: in_seg_nat)
    qed
    ultimately have "i = Suc j" by simp
    then show False using no_free_pair_nth [OF nfp, of j] i(1) ki kj by simp
  qed
qed

subsection \<open>Results\<close>

text \<open>A small concrete state: one free segment between two reservations.\<close>

definition flat_state :: am_state where
  "flat_state = \<lparr>nsegments = [resvn 0 0x03FFFFFF, init_nsegment\<lparr>start := 0x04000000, end' := 0x7FFFFFFFF\<rparr>, resvn 0x800000000 (-1)],
     segnames = [], aspacem_minAddr = 0x04000000, aspacem_maxAddr = 0x7FFFFFFFF, aspacem_cStart = 0x04000000,
     aspacem_vStart = 0x402000000, syscalls = []\<rparr>"

lemma flat_state_ok: "am_ok flat_state" "holes_ok flat_state" "length (nsegments flat_state) = 3"
  by (simp_all add: flat_state_def am_ok_def holes_ok_def seg_ok_iff extent_ok_def fields_ok_def resvn_def
      unsigned_minus_1_eq_mask mask_eq_exp_minus_1 word_le_nat_alt)

lemma first_idx_eq:
  assumes "i < length xs" "P (xs ! i)" "\<And>j. j < i \<Longrightarrow> \<not> P (xs ! j)"
  shows "first_idx P xs = i"
proof -
  have "\<not> first_idx P xs < i" using first_idx_hit [of P xs] assms(1,3) by fastforce
  moreover have "\<not> i < first_idx P xs" using first_idx_miss [of i P xs] assms(2) by blast
  ultimately show ?thesis by simp
qed

text \<open>C8. Adding a segment to a well-formed segment array succeeds while two entries are free, keeps
  the array well-formed, gives the addresses of the segment its attributes, leaves the view of all
  others unchanged and forgets no translations outside the range.\<close>

theorem add_segment_exact:
  assumes "am_ok st" "seg_ok (segnames st) seg" "length (nsegments st) + 2 \<le> VG_N_SEGMENTS"
  shows "\<exists>st'. add_segment seg st = Some st' \<and> am_ok st' \<and> same_rest st st' \<and>
    (\<forall>x. am_view st' x = (if in_seg seg x then Some (attr seg x) else am_view st x)) \<and>
    (\<forall>x. am_T st x \<and> \<not> in_seg seg x \<longrightarrow> am_T st' x)"
  by (rule add_segment_correct [OF assms(1,2)]) (use assms(3) in \<open>auto simp: updates_range_def in_seg_def\<close>)

theorem add_segment_exact_witness:
  "\<exists>st'. add_segment (resvn 0x10000000 0x10000FFF) flat_state = Some st' \<and>
     map_option pa_kind (am_view st' 0x10000800) = Some SkResvn"
proof -
  have "seg_ok (segnames flat_state) (resvn 0x10000000 0x10000FFF)"
    by (rule init_resvn_ok(2)) (simp_all add: VG_IS_PAGE_ALIGNED_def)
  then show ?thesis
    using add_segment_exact [of flat_state "resvn 0x10000000 0x10000FFF"] flat_state_ok
    by (force simp: VG_N_SEGMENTS_def in_seg_def)
qed

text \<open>C12. The binary search returns the index a linear search would: the first segment holding
  the address.\<close>

theorem find_nsegment_idx_linear:
  assumes "am_ok st"
  shows "find_nsegment_idx a st = Some (first_idx (\<lambda>s. in_seg s a) (nsegments st))"
proof -
  have cov: "covers (nsegments st)" using assms by (simp add: am_ok_def)
  obtain i where i: "find_nsegment_idx a st = Some i" "i < length (nsegments st)" "in_seg (nsegments st ! i) a"
    using find_nsegment_idx_correct [OF cov] by metis
  have "\<not> in_seg (nsegments st ! j) a" if "j < i" for j
    using tiles_mono [OF cov that i(2)] i(3) by (auto simp: in_seg_nat)
  then show ?thesis using first_idx_eq [of i "nsegments st" "\<lambda>s. in_seg s a"] i by simp
qed

theorem find_nsegment_idx_linear_witness: "find_nsegment_idx 0x5000000 flat_state = Some 1"
  using find_nsegment_idx_linear [OF flat_state_ok(1), of "0x5000000"]
  by (simp add: flat_state_def first_idx_def in_seg_def resvn_def)

text \<open>C11. In every state reached from start-up by completed operations, whatever the kernel answered,
  the segments partition the address space, each passes the sanity check, and translations are only
  recorded in client segments.\<close>

theorem reachable_partition:
  assumes "am_reachable st"
  shows "(\<exists>!i. i < length (nsegments st) \<and> in_seg (nsegments st ! i) a) \<and>
    (\<forall>s \<in> set (nsegments st). sane_NSegment (segnames st) s \<and> (hasT s \<longrightarrow> kind s \<in> {SkAnonC, SkFileC}))"
proof -
  have ok: "am_ok st" by (rule am_reachable_ok [OF assms])
  then have cov: "covers (nsegments st)" by (simp add: am_ok_def)
  obtain i where "find_nsegment_idx a st = Some i" using find_nsegment_idx_correct [OF cov] by metis
  then have "\<exists>!i. i < length (nsegments st) \<and> in_seg (nsegments st ! i) a"
    using find_nsegment_idx_iff [OF cov, of a] by (metis option.inject)
  then show ?thesis using ok by (auto simp: am_ok_def seg_ok_def client_kind_def)
qed

theorem reachable_partition_witness:
  "\<exists>st. am_reachable st \<and> (\<exists>!i. i < length (nsegments st) \<and> in_seg (nsegments st ! i) 0x5000000)"
proof -
  obtain st where "am_startup_layout flat_state = Some st" by (rule startup_layout_ok)
  then have "am_startup [] flat_state = Some (suggested_clstack_top st, st)" by (simp add: am_startup_def)
  then have "am_reachable st" by (rule startup)
  then show ?thesis using reachable_partition [of st "0x5000000"] by blast
qed

text \<open>C9. A granted request covers only addresses the policy allows: for a fixed client request
  free, reserved or client memory, never Valgrind's; for a hinted client request free or reserved
  memory; in all other cases free memory. A fixed request is granted where it asks.\<close>

theorem advisory_respects_policy:
  assumes "am_ok st" "am_get_advisory req forClient st = Some (a, True)"
  shows "unat a + unat (req_len req) \<le> 2 ^ 64 \<and>
    all_in st a (req_len req) (\<lambda>pa. pa_kind pa \<in> policy forClient (rkind req)) \<and>
    (rkind req = MFixed \<longrightarrow> a = req_start req)"
  using advisory_safe [OF assms] by blast

theorem advisory_respects_policy_witness:
  "am_get_advisory \<lparr>rkind = MAny, req_start = 0, req_len = 0x2000\<rparr> True flat_state = Some (0x04000000, True) \<and>
   all_in flat_state 0x04000000 0x2000 (\<lambda>pa. pa_kind pa \<in> {SkFree})"
proof -
  have *: "am_get_advisory \<lparr>rkind = MAny, req_start = 0, req_len = 0x2000\<rparr> True flat_state = Some (0x04000000, True)"
    by (simp add: am_get_advisory_def advisory_default_def find_nsegment_idx_def find_nsegment_loop.simps flat_state_def
        Let_def)
  show ?thesis using * advisory_respects_policy [OF flat_state_ok(1) *] by (simp add: policy_def)
qed

text \<open>C13. While all free segments lie within the manager's limits, a floating request fails no
  assertion and is granted exactly when some free segment is large enough.\<close>

theorem advisory_float_exact:
  assumes "am_ok st" "holes_ok st" "rkind req = MAny" "req_len req \<noteq> 0"
  shows "\<exists>a. am_get_advisory req forClient st =
    Some (a, \<exists>s \<in> set (nsegments st). kind s = SkFree \<and> req_len req \<le> end' s - start s + 1)"
  by (rule advisory_float_complete [OF assms])

theorem advisory_float_exact_witness:
  "\<exists>a. am_get_advisory \<lparr>rkind = MAny, req_start = 0, req_len = 0x900000000\<rparr> False flat_state = Some (a, False)"
  using advisory_float_exact [OF flat_state_ok(1,2), of "\<lparr>rkind = MAny, req_start = 0, req_len = 0x900000000\<rparr>" False]
  by (simp add: flat_state_def)

text \<open>C10. Valgrind's own allocation, whatever the kernel answers: no assertion fails; on an error the
  view is unchanged; on success exactly the advised pages, all of them free before, become anonymous
  Valgrind memory; and every fixed mapping asked of the kernel lies in free memory.\<close>

theorem mmap_anon_float_valgrind_safe:
  assumes "am_ok st" "holes_ok st" "length (nsegments st) + 2 \<le> VG_N_SEGMENTS"
  shows "\<exists>r st'. am_mmap_anon_float_valgrind K len st = Some (r, st') \<and> am_ok st' \<and>
    (isError r \<longrightarrow> am_view st' = am_view st) \<and>
    (\<not> isError r \<longrightarrow> all_in st (res r) (VG_PGROUNDUP len) (\<lambda>pa. pa_kind pa = SkFree) \<and>
       (\<forall>x. am_view st' x = (if res r \<le> x \<and> x \<le> res r + VG_PGROUNDUP len - 1
          then Some ((blank SkAnonV)\<lparr>pa_R := True, pa_W := True, pa_X := True\<rparr>) else am_view st x))) \<and>
    (\<forall>a l p f. Sys_mmap a l p f \<in> set (syscalls st') \<longrightarrow>
       Sys_mmap a l p f \<in> set (syscalls st) \<or> all_in st a l (\<lambda>pa. pa_kind pa = SkFree))"
proof (cases "len = 0")
  case True
  then show ?thesis using assms(1) by (simp add: am_mmap_anon_float_valgrind_def mk_SysRes_Error_def)
next
  case len: False
  let ?req = "\<lparr>rkind = MAny, req_start = 0, req_len = len\<rparr>"
  obtain a ok where adv: "am_get_advisory ?req False st = Some (a, ok)"
    using advisory_float_complete [OF assms(1,2), of ?req False] len by auto
  show ?thesis
  proof (cases ok)
    case False
    then show ?thesis using adv len assms(1) by (simp add: am_mmap_anon_float_valgrind_def mk_SysRes_Error_def)
  next
    case True
    let ?prot = "VKI_PROT_READ OR VKI_PROT_WRITE OR VKI_PROT_EXEC" and ?fl = "VKI_MAP_FIXED OR VKI_MAP_PRIVATE OR VKI_MAP_ANONYMOUS"
    let ?sres = "k_mmap K a len ?prot ?fl 0 0" and ?st1 = "st\<lparr>syscalls := Sys_mmap a len ?prot ?fl # syscalls st\<rparr>"
    have adv: "am_get_advisory ?req False st = Some (a, True)" using adv True by simp
    note pages = advised_pages [OF assms(1) adv]
    have al0: "VG_IS_PAGE_ALIGNED 0" by (simp add: VG_IS_PAGE_ALIGNED_def)
    have view1: "am_view ?st1 = am_view st" by (simp add: am_view_def)
    consider (err) "isError ?sres" | (moved) "\<not> isError ?sres" "res ?sres \<noteq> a" | (good) "\<not> isError ?sres" "res ?sres = a" by blast
    then show ?thesis
    proof cases
      case err
      then show ?thesis using adv len assms(1) pages(2) al0 view1
        by (simp add: am_mmap_anon_float_valgrind_def am_do_mmap_NO_NOTIFY_def)
    next
      case moved
      have "am_mmap_anon_float_valgrind K len st = Some (mk_SysRes_Error VKI_EINVAL,
          ?st1\<lparr>syscalls := Sys_munmap (res ?sres) len # syscalls ?st1\<rparr>)"
        using moved adv len al0
        by (simp add: am_mmap_anon_float_valgrind_def am_do_mmap_NO_NOTIFY_def am_do_munmap_NO_NOTIFY_def Let_def)
      then show ?thesis using assms(1) pages(2) by (simp add: mk_SysRes_Error_def am_view_def)
    next
      case good
      let ?seg = "init_nsegment\<lparr>kind := SkAnonV, start := a, end' := a + VG_PGROUNDUP len - 1, hasR := True, hasW := True, hasX := True\<rparr>"
      have ext: "extent_ok ?seg" by (rule pages(3)) simp_all
      then have segok: "seg_ok (segnames ?st1) ?seg" by (simp add: seg_ok_iff fields_ok_def)
      have ok1: "am_ok ?st1" using assms(1) by simp
      obtain st' where st': "add_segment ?seg ?st1 = Some st'" "am_ok st'" "same_rest ?st1 st'"
        "length (nsegments st') \<le> length (nsegments ?st1) + 3"
        "updates_range ?st1 (start ?seg) (end' ?seg) (\<lambda>x. Some (attr ?seg x)) st'"
        "length (segnames st') = length (segnames ?st1)" "no_free_pair (nsegments st')"
        by (rule add_segment_correct [OF ok1 segok]) (use assms(3) in simp)
      have op: "am_mmap_anon_float_valgrind K len st = Some (?sres, st')"
        using good adv len st'(1) al0 by (simp add: am_mmap_anon_float_valgrind_def am_do_mmap_NO_NOTIFY_def)
      have "attr ?seg x = (blank SkAnonV)\<lparr>pa_R := True, pa_W := True, pa_X := True\<rparr>" for x
        by (simp add: attr_def blank_def)
      then have "\<forall>x. am_view st' x = (if a \<le> x \<and> x \<le> a + VG_PGROUNDUP len - 1
          then Some ((blank SkAnonV)\<lparr>pa_R := True, pa_W := True, pa_X := True\<rparr>) else am_view st x)"
        using st'(5) view1 by (simp add: updates_range_def)
      moreover have "syscalls st' = syscalls ?st1" by (rule same_restD(5) [OF st'(3)])
      ultimately show ?thesis using op good st'(2) pages(1,2) by auto
    qed
  qed
qed

definition yes_kernel :: am_kernel where
  "yes_kernel = \<lparr>k_mmap = (\<lambda>a l p f fd off. mk_SysRes_Success a), k_munmap = (\<lambda>a l. mk_SysRes_Success 0),
     k_mremap = (\<lambda>oa ol nl f na. mk_SysRes_Success na), k_fstat = (\<lambda>fd. None), k_readlink = (\<lambda>fd. None)\<rparr>"

theorem mmap_anon_float_valgrind_safe_witness:
  "\<exists>r st'. am_mmap_anon_float_valgrind yes_kernel 0x5000 flat_state = Some (r, st') \<and> am_ok st'"
  using mmap_anon_float_valgrind_safe [OF flat_state_ok(1,2), of yes_kernel "0x5000"] flat_state_ok(3)
  by (auto simp: VG_N_SEGMENTS_def)

text \<open>Recording a completed mprotect sets the permissions of the mapped addresses of the range and
  changes nothing else; translations are to be discarded exactly when some were made from the range
  and execute permission is withdrawn.\<close>

lemma notify_mprotect_exact:
  assumes "am_ok st" "VG_IS_PAGE_ALIGNED a" "VG_IS_PAGE_ALIGNED len" "a < a + len"
    "length (nsegments st) + 2 \<le> VG_N_SEGMENTS"
  shows "\<exists>st'. am_notify_mprotect a len prot st =
      Some ((\<exists>x. a \<le> x \<and> x \<le> a + len - 1 \<and> am_T st x) \<and> prot AND VKI_PROT_EXEC = 0, st') \<and> am_ok st' \<and>
    (\<forall>x. am_view st' x = (if a \<le> x \<and> x \<le> a + len - 1 then map_option (reprot prot) (am_view st x) else am_view st x))"
  by (rule mprotect_ok [OF assms(1-4), of prot]) (use assms(5) in \<open>auto simp: updates_range_def\<close>)

text \<open>C14. Recording a completed munmap makes exactly the range free (reserved, when it lies wholly
  outside the manager's limits) and reports whether translations were made from it.\<close>

theorem notify_munmap_exact:
  assumes "am_ok st" "VG_IS_PAGE_ALIGNED a" "VG_IS_PAGE_ALIGNED len" "a < a + len"
    "length (nsegments st) + 2 \<le> VG_N_SEGMENTS"
  shows "\<exists>st'. am_notify_munmap a len st = Some (\<exists>x. a \<le> x \<and> x \<le> a + len - 1 \<and> am_T st x, st') \<and> am_ok st' \<and>
    (\<forall>x. am_view st' x = (if a \<le> x \<and> x \<le> a + len - 1
       then Some (blank (hole_kind st a (a + len - 1))) else am_view st x))"
  by (rule munmap_notify_ok [OF assms(1-4)]) (use assms(5) in \<open>auto simp: updates_range_def\<close>)

theorem notify_munmap_exact_witness:
  "\<exists>b st'. am_notify_munmap 0x1000 0x2000 flat_state = Some (b, st') \<and> am_view st' 0x1000 = Some (blank SkResvn)"
  using notify_munmap_exact [OF flat_state_ok(1), of "0x1000" "0x2000"] flat_state_ok(3)
  by (auto simp: VG_IS_PAGE_ALIGNED_def VG_N_SEGMENTS_def hole_kind_def flat_state_def)

text \<open>C15. An munmap of a range that straddles the lower limit, where the client's area begins, makes a
  free segment that starts below the limit; every later floating request of the client then fails
  an assertion of the allocation policy.\<close>

theorem munmap_straddle_fatal:
  assumes "am_ok st" "VG_IS_PAGE_ALIGNED a" "VG_IS_PAGE_ALIGNED len" "length (nsegments st) + 2 \<le> VG_N_SEGMENTS"
    "aspacem_cStart st = aspacem_minAddr st" "a < aspacem_minAddr st" "aspacem_minAddr st \<le> a + len - 1" "a < a + len"
    "a \<le> aspacem_maxAddr st"
    "rkind req = MAny" "req_len req \<noteq> 0"
  shows "\<exists>b st'. am_notify_munmap a len st = Some (b, st') \<and> am_get_advisory req True st' = None"
proof -
  obtain st' where st': "am_notify_munmap a len st = Some (\<exists>x. a \<le> x \<and> x \<le> a + len - 1 \<and> am_T st x, st')"
    "am_ok st'" "same_rest st st'"
    "updates_range st a (a + len - 1) (\<lambda>x. Some (blank (hole_kind st a (a + len - 1)))) st'" "no_free_pair (nsegments st')"
    by (rule munmap_notify_ok [OF assms(1-3,8)]) (use assms(4) in simp)
  let ?c = "aspacem_minAddr st" and ?segs = "nsegments st'"
  have free: "hole_kind st a (a + len - 1) = SkFree" using assms(6,7,9) by (auto simp: hole_kind_def)
  have c0: "0 < ?c" using assms(6) by (rule le_less_trans [OF word_zero_le])
  then have p: "unat (?c - 1) + 1 = unat ?c" by (rule unat_pred)
  have "a \<le> ?c - 1" "?c - 1 \<le> a + len - 1" using assms(6,7) p by (simp_all add: word_le_nat_alt word_less_nat_alt)
  then have v: "map_option pa_kind (am_view st' (?c - 1)) = Some SkFree" "map_option pa_kind (am_view st' ?c) = Some SkFree"
    using st'(4) less_imp_le [OF assms(6)] assms(7) free by (simp_all add: updates_range_def blank_def)
  have cov: "covers ?segs" using st'(2) by (simp add: am_ok_def)
  obtain i where i: "find_nsegment_idx ?c st' = Some i" "i < length ?segs"
    using find_nsegment_idx_correct [OF cov] by metis
  have "?c - 1 \<noteq> -1" using c0 by (simp add: word_gt_0)
  then have "in_seg (?segs ! i) (?c - 1)" and k: "kind (?segs ! i) = SkFree"
    using free_neighbours [OF st'(2,5), of "?c - 1" i] v i(1) by simp_all
  then have bad: "\<not> ?c \<le> start (?segs ! i)" using p by (auto simp: in_seg_nat word_le_nat_alt)
  obtain n where n: "length ?segs = Suc n" using i(2) by (cases "length ?segs") auto
  have "advisory_default req True 0 (0 + req_len req - 1) st' = None"
    using i(1) n k bad assms(5) same_restD [OF st'(3)] by (simp add: advisory_default_def Let_def)
  then have "am_get_advisory req True st' = None"
    using assms(10,11) by (simp add: am_get_advisory_def Let_def)
  then show ?thesis using st'(1) by blast
qed

theorem munmap_straddle_fatal_witness:
  "\<exists>b st'. am_notify_munmap 0x03FFF000 0x2000 flat_state = Some (b, st') \<and>
     am_get_advisory \<lparr>rkind = MAny, req_start = 0, req_len = 0x1000\<rparr> True st' = None"
proof (rule munmap_straddle_fatal [OF flat_state_ok(1)])
  show "length (nsegments flat_state) + 2 \<le> VG_N_SEGMENTS" using flat_state_ok(3) by (simp add: VG_N_SEGMENTS_def)
qed (simp_all add: VG_IS_PAGE_ALIGNED_def flat_state_def)

text \<open>Unmapping Valgrind's memory never meets translated code: the assertion of
  \<^verbatim>\<open>VG_(am_munmap_valgrind)\<close> holds whenever the shared worker returns.\<close>

lemma munmap_valgrind_no_discard:
  assumes "am_ok st" "am_munmap_both_wrk K a len False st = Some ((d, r), st')"
  shows "am_munmap_valgrind K a len st = Some (r, st')"
proof -
  have "d = Some False" if r: "\<not> isError r"
  proof (cases "len = 0")
    case True
    then show ?thesis using assms(2) r by (auto simp: am_munmap_both_wrk_def mk_SysRes_Error_def split: if_split_asm)
  next
    case False
    let ?len = "VG_PGROUNDUP len"
    obtain t where t: "is_valid_for_valgrind a ?len st = Some True" "any_Ts_in_range a ?len st = Some t" "d = Some t"
      using assms(2) r False
      by (auto simp: am_munmap_both_wrk_def mk_SysRes_Error_def am_do_munmap_NO_NOTIFY_def Let_def bind_Some_iff split: if_split_asm)
    have nw: "?len \<noteq> 0" "a < a + ?len" using t(2) by (auto simp: any_Ts_in_range_def split: if_split_asm)
    have V: "all_in st a ?len (\<lambda>pa. pa_kind pa \<in> {SkFileV, SkAnonV})"
      using is_valid_for_valgrind_ok [OF assms(1) nw(1), of a] t(1) nw(2) by auto
    have "\<not> t"
    proof
      assume t
      then obtain x where x: "a \<le> x" "x \<le> a + ?len - 1" "am_T st x"
        using any_Ts_ok [OF assms(1) nw] t(2) by auto
      then obtain s where s: "s \<in> set (nsegments st)" "in_seg s x" "hasT s" by (auto simp: am_T_def lT_def)
      then have "client_kind (kind s)" using assms(1) by (auto simp: am_ok_def seg_ok_def)
      moreover have "pa_kind (attr s x) \<in> {SkFileV, SkAnonV}"
        using V x(1,2) view_in_seg [OF assms(1) s(1,2)] by (auto simp: all_in_def)
      ultimately show False by (auto simp: attr_def client_kind_def)
    qed
    then show ?thesis using t(3) by simp
  qed
  then show ?thesis using assms(2) by (simp add: am_munmap_valgrind_def)
qed

text \<open>Start-up lays out the address space: the first 64 megabytes, everything from 32 gigabytes up
  and one page at the boundary between the client's and Valgrind's areas are reserved, the rest is
  free, and all holes are within the limits.\<close>

lemma startup_layout_exact:
  "\<exists>st'. am_startup_layout st = Some st' \<and> am_ok st' \<and> aspacem_minAddr st' = 0x04000000 \<and> aspacem_maxAddr st' = 0x7FFFFFFFF \<and>
    (\<forall>x. map_option pa_kind (am_view st' x) = Some (
       if x < 0x04000000 \<or> 0x7FFFFFFFF < x \<or> 0x402000000 \<le> x \<and> x \<le> 0x402000FFF then SkResvn else SkFree))"
  by (rule startup_layout_ok [of st]) auto

text \<open>The test for client memory, with its shortcut for a single segment, holds exactly when every
  address of the range is client memory with the permissions asked for.\<close>

lemma is_valid_for_client_exact:
  assumes "am_ok st" "len \<noteq> 0" "a \<le> a + len"
  shows "am_is_valid_for_client a len prot st = Some (all_in st a len (client_may False prot)) \<and>
    am_is_valid_for_client_or_free_or_resvn a len prot st = Some (all_in st a len (client_may True prot))"
  using is_valid_for_client_ok [OF assms(1,2)] assms(3)
  by (simp add: am_is_valid_for_client_def am_is_valid_for_client_or_free_or_resvn_def)

end
