(* ===== verification/WordFM.thy ===== *)
theory WordFM
  imports VG_Prelude
begin

text \<open>
  The finite maps of \<^verbatim>\<open>coregrind/m_wordfm.c\<close>: AVL trees with balance factors, the
  \<^verbatim>\<open>WordFM\<close> built on them and its explicit-stack iterator.
  A node pointer is the subtree it points to, NULL is the empty tree. \<^verbatim>\<open>kCmp\<close> is either
  a client function (boxed keys) or NULL (unboxed keys, compared as unsigned words); a
  boxed key is the object its pointer refers to. An operation returns \<open>None\<close> exactly
  where the C code fails an assertion or dereferences NULL.
\<close>

subsection \<open>Data\<close>

datatype ('k, 'v) AvlNode =
    NULL
  | Node (key: 'k) (val: 'v) (child0: "('k, 'v) AvlNode") (child1: "('k, 'v) AvlNode") (balance: int)

text \<open>The comparison field: \<open>Boxed f\<close> is a non-NULL \<^verbatim>\<open>kCmp\<close>; \<open>Unboxed w\<close> a NULL one,
  \<open>w\<close> reading the machine word a key is.\<close>

datatype 'k keycmp = Boxed "'k \<Rightarrow> 'k \<Rightarrow> Word" | Unboxed "'k \<Rightarrow> UWord"

definition cmp_unsigned_Words :: "UWord \<Rightarrow> UWord \<Rightarrow> Word" where
  "cmp_unsigned_Words w1 w2 = (if w1 < w2 then - 1 else if w1 > w2 then 1 else 0)"

fun key_cmp :: "'k keycmp \<Rightarrow> 'k \<Rightarrow> 'k \<Rightarrow> Word" where
  "key_cmp (Boxed f) a b = f a b"
| "key_cmp (Unboxed w) a b = cmp_unsigned_Words (w a) (w b)"

definition set_balance :: "int \<Rightarrow> ('k, 'v) AvlNode \<Rightarrow> ('k, 'v) AvlNode option" where
  "set_balance b t = (case t of NULL \<Rightarrow> None | Node k v l r _ \<Rightarrow> Some (Node k v l r b))"

subsection \<open>Rotations\<close>

definition avl_swl :: "('k, 'v) AvlNode \<Rightarrow> ('k, 'v) AvlNode option" where
  "avl_swl root = (case root of
     Node ka va la (Node kb vb lb rb bb) ba \<Rightarrow> Some (Node kb vb (Node ka va la lb ba) rb bb)
   | _ \<Rightarrow> None)"

definition avl_swr :: "('k, 'v) AvlNode \<Rightarrow> ('k, 'v) AvlNode option" where
  "avl_swr root = (case root of
     Node ka va (Node kb vb lb rb bb) ra ba \<Rightarrow> Some (Node kb vb lb (Node ka va rb ra ba) bb)
   | _ \<Rightarrow> None)"

definition avl_nasty :: "('k, 'v) AvlNode \<Rightarrow> ('k, 'v) AvlNode option" where
  "avl_nasty root = (case root of
     Node k v l r b \<Rightarrow>
       if b = -1 then do { l' \<leftarrow> set_balance 0 l; r' \<leftarrow> set_balance 1 r; Some (Node k v l' r' 0) }
       else if b = 1 then do { l' \<leftarrow> set_balance (-1) l; r' \<leftarrow> set_balance 0 r; Some (Node k v l' r' 0) }
       else if b = 0 then do { l' \<leftarrow> set_balance 0 l; r' \<leftarrow> set_balance 0 r; Some (Node k v l' r' 0) }
       else None
   | NULL \<Rightarrow> None)"

text \<open>The assignments \<^verbatim>\<open>(*rootp)->balance = b; (*rootp)->child[i]->balance = b'\<close> that
  follow a single rotation.\<close>

definition set_bal_child0 :: "int \<Rightarrow> int \<Rightarrow> ('k, 'v) AvlNode \<Rightarrow> ('k, 'v) AvlNode option" where
  "set_bal_child0 b b0 t = (case t of
     Node k v l r _ \<Rightarrow> do { l' \<leftarrow> set_balance b0 l; Some (Node k v l' r b) } | NULL \<Rightarrow> None)"

definition set_bal_child1 :: "int \<Rightarrow> int \<Rightarrow> ('k, 'v) AvlNode \<Rightarrow> ('k, 'v) AvlNode option" where
  "set_bal_child1 b b1 t = (case t of
     Node k v l r _ \<Rightarrow> do { r' \<leftarrow> set_balance b1 r; Some (Node k v l r' b) } | NULL \<Rightarrow> None)"

text \<open>The double rotations: swing the child the other way, swing the root, repair.\<close>

definition swl_child0_swr :: "('k, 'v) AvlNode \<Rightarrow> ('k, 'v) AvlNode option" where
  "swl_child0_swr t = (case t of
     Node k v l r b \<Rightarrow> do { l' \<leftarrow> avl_swl l; t' \<leftarrow> avl_swr (Node k v l' r b); avl_nasty t' }
   | NULL \<Rightarrow> None)"

definition swr_child1_swl :: "('k, 'v) AvlNode \<Rightarrow> ('k, 'v) AvlNode option" where
  "swr_child1_swl t = (case t of
     Node k v l r b \<Rightarrow> do { r' \<leftarrow> avl_swr r; t' \<leftarrow> avl_swl (Node k v l r' b); avl_nasty t' }
   | NULL \<Rightarrow> None)"

primrec size_avl :: "('k, 'v) AvlNode \<Rightarrow> UWord" where
  "size_avl NULL = 0"
| "size_avl (Node k v l r b) = 1 + size_avl l + size_avl r"

subsection \<open>Insertion\<close>

text \<open>The rebalancing that follows an insertion that has deepened the left (right) subtree.\<close>

definition grown_left :: "('k, 'v) AvlNode \<Rightarrow> (bool \<times> ('k, 'v) AvlNode) option" where
  "grown_left t = (case t of NULL \<Rightarrow> None | Node k v l r b \<Rightarrow>
     if b = 1 then Some (False, Node k v l r 0)
     else if b = 0 then Some (True, Node k v l r (-1))
     else if b = -1 then
       (if l = NULL then None
        else if balance l < 0 then do {
          t \<leftarrow> avl_swr (Node k v l r (-2)) \<bind> set_bal_child1 0 0; Some (False, t) }
        else do { t \<leftarrow> swl_child0_swr (Node k v l r (-2)); Some (False, t) })
     else None)"

definition grown_right :: "('k, 'v) AvlNode \<Rightarrow> (bool \<times> ('k, 'v) AvlNode) option" where
  "grown_right t = (case t of NULL \<Rightarrow> None | Node k v l r b \<Rightarrow>
     if b = -1 then Some (False, Node k v l r 0)
     else if b = 0 then Some (True, Node k v l r 1)
     else if b = 1 then
       (if r = NULL then None
        else if balance r > 0 then do {
          t \<leftarrow> avl_swl (Node k v l r 2) \<bind> set_bal_child0 0 0; Some (False, t) }
        else do { t \<leftarrow> swr_child1_swl (Node k v l r 2); Some (False, t) })
     else None)"

text \<open>
  The result is whether the depth has grown, the old value of a duplicate key
  (\<^verbatim>\<open>*oldV\<close>) and the tree that \<^verbatim>\<open>*rootp\<close> then points to. When the recursive call has
  grown its subtree the C code leaves \<^verbatim>\<open>child[i]\<close> alone: the subtree's root node is
  then the one it was, updated in place (the last conjunct of \<open>avl_insert_balanced\<close>).
\<close>

fun avl_insert_wrk :: "'k keycmp \<Rightarrow> ('k, 'v) AvlNode \<Rightarrow> 'k \<Rightarrow> 'v
    \<Rightarrow> (bool \<times> 'v option \<times> ('k, 'v) AvlNode) option" where
  "avl_insert_wrk kc NULL a av = Some (True, None, Node a av NULL NULL 0)"
| "avl_insert_wrk kc (Node k v l r b) a av =
    (let cmpres = sint (key_cmp kc k a) in
     if cmpres > 0 then
       (if l \<noteq> NULL then do {
          (grown, oldV, l') \<leftarrow> avl_insert_wrk kc l a av;
          if grown then do { (g, t) \<leftarrow> grown_left (Node k v l' r b); Some (g, oldV, t) }
          else Some (False, oldV, Node k v l' r b) }
        else Some (b = 0, None, Node k v (Node a av NULL NULL 0) r (b - 1)))
     else if cmpres < 0 then
       (if r \<noteq> NULL then do {
          (grown, oldV, r') \<leftarrow> avl_insert_wrk kc r a av;
          if grown then do { (g, t) \<leftarrow> grown_right (Node k v l r' b); Some (g, oldV, t) }
          else Some (False, oldV, Node k v l r' b) }
        else Some (b = 0, None, Node k v l (Node a av NULL NULL 0) (b + 1)))
     else Some (False, Some v, Node k av l r b))"

subsection \<open>Removal\<close>

text \<open>The rebalancing that follows a removal that has shrunk the left (right) subtree.\<close>

definition shrunk_left :: "('k, 'v) AvlNode \<Rightarrow> (bool \<times> ('k, 'v) AvlNode) option" where
  "shrunk_left t = (case t of NULL \<Rightarrow> None | Node k v l r b \<Rightarrow>
     if b = -1 then Some (True, Node k v l r 0)
     else if b = 0 then Some (False, Node k v l r 1)
     else if b = 1 then
       (if r = NULL then None
        else if balance r = 0 then do {
          t \<leftarrow> avl_swl (Node k v l r 2) \<bind> set_bal_child0 (-1) 1; Some (False, t) }
        else if balance r = 1 then do {
          t \<leftarrow> avl_swl (Node k v l r 2) \<bind> set_bal_child0 0 0; Some (True, t) }
        else if balance r = -1 then do { t \<leftarrow> swr_child1_swl (Node k v l r 2); Some (True, t) }
        else None)
     else None)"

definition shrunk_right :: "('k, 'v) AvlNode \<Rightarrow> (bool \<times> ('k, 'v) AvlNode) option" where
  "shrunk_right t = (case t of NULL \<Rightarrow> None | Node k v l r b \<Rightarrow>
     if b = 1 then Some (True, Node k v l r 0)
     else if b = 0 then Some (False, Node k v l r (-1))
     else if b = -1 then
       (if l = NULL then None
        else if balance l = 0 then do {
          t \<leftarrow> avl_swr (Node k v l r (-2)) \<bind> set_bal_child1 1 (-1); Some (False, t) }
        else if balance l = -1 then do {
          t \<leftarrow> avl_swr (Node k v l r (-2)) \<bind> set_bal_child1 0 0; Some (True, t) }
        else if balance l = 1 then do { t \<leftarrow> swl_child0_swr (Node k v l r (-2)); Some (True, t) }
        else None)
     else None)"

text \<open>\<^verbatim>\<open>while (a->child[1]) a = a->child[1]\<close> and its mirror image, from a non-NULL node.\<close>

fun rightmost :: "('k, 'v) AvlNode \<Rightarrow> ('k, 'v) AvlNode" where
  "rightmost NULL = NULL"
| "rightmost (Node k v l r b) = (if r \<noteq> NULL then rightmost r else Node k v l r b)"

fun leftmost :: "('k, 'v) AvlNode \<Rightarrow> ('k, 'v) AvlNode" where
  "leftmost NULL = NULL"
| "leftmost (Node k v l r b) = (if l \<noteq> NULL then leftmost l else Node k v l r b)"

lemma size_rightmost: "size (rightmost t) \<le> size t"
  by (induction t) auto

lemma size_leftmost: "size (leftmost t) \<le> size t"
  by (induction t) auto

lemma rightmost_neq [simp]:
  "Node k v l r b \<noteq> rightmost l" "Node k v l r b \<noteq> rightmost r"
  using size_rightmost [of l] size_rightmost [of r] by (auto dest: arg_cong [where f = size])

lemma leftmost_neq [simp]:
  "Node k v l r b \<noteq> leftmost l" "Node k v l r b \<noteq> leftmost r"
  using size_leftmost [of l] size_leftmost [of r] by (auto dest: arg_cong [where f = size])

text \<open>
  \<^verbatim>\<open>a\<close> is a node of the tree, that is, the subtree rooted at it; the assertion
  \<^verbatim>\<open>(*rootp)==a\<close> compares the subtrees. The result is whether the depth has shrunk, and
  the new tree.
\<close>

function avl_remove_wrk :: "'k keycmp \<Rightarrow> ('k, 'v) AvlNode \<Rightarrow> ('k, 'v) AvlNode
      \<Rightarrow> (bool \<times> ('k, 'v) AvlNode) option"
  and avl_removeroot_wrk :: "'k keycmp \<Rightarrow> ('k, 'v) AvlNode
      \<Rightarrow> (bool \<times> ('k, 'v) AvlNode) option" where
  "avl_remove_wrk kc rootp NULL = None"
| "avl_remove_wrk kc NULL (Node ka va la ra ba) = None"
| "avl_remove_wrk kc (Node k v l r b) (Node ka va la ra ba) =
    (let cmpres = sint (key_cmp kc k ka) in
     if cmpres > 0 then do {
       vg_assert (l \<noteq> NULL);
       (ch, l') \<leftarrow> avl_remove_wrk kc l (Node ka va la ra ba);
       if ch then shrunk_left (Node k v l' r b) else Some (False, Node k v l' r b) }
     else if cmpres < 0 then do {
       vg_assert (r \<noteq> NULL);
       (ch, r') \<leftarrow> avl_remove_wrk kc r (Node ka va la ra ba);
       if ch then shrunk_right (Node k v l r' b) else Some (False, Node k v l r' b) }
     else if Node k v l r b = Node ka va la ra ba then avl_removeroot_wrk kc (Node k v l r b)
     else None)"
| "avl_removeroot_wrk kc NULL = None"
| "avl_removeroot_wrk kc (Node k v l r b) =
    (if l = NULL then (if r = NULL then Some (True, NULL) else Some (True, r))
     else if r = NULL then Some (True, l)
     else let a = (if b < 0 then rightmost l else leftmost r) in do {
       (ch, t) \<leftarrow> avl_remove_wrk kc (Node k v l r b) a;
       case t of NULL \<Rightarrow> None
       | Node _ _ l' r' b' \<Rightarrow>
           Some (if b' = 0 then ch else False, Node (key a) (val a) l' r' b') })"
  by pat_completeness auto
termination
  by (relation "measures
       [\<lambda>c. case c of Inl (kc, t, a) \<Rightarrow> size t | Inr (kc, t) \<Rightarrow> size t,
        \<lambda>c. case c of Inl (kc, t, a) \<Rightarrow> if t = a then 2 else 0 | Inr (kc, t) \<Rightarrow> 1]")
     auto

subsection \<open>Lookup\<close>

fun avl_find_node_boxed :: "('k \<Rightarrow> 'k \<Rightarrow> Word) \<Rightarrow> ('k, 'v) AvlNode \<Rightarrow> 'k \<Rightarrow> ('k, 'v) AvlNode" where
  "avl_find_node_boxed f NULL k = NULL"
| "avl_find_node_boxed f (Node tk v l r b) k =
    (let cmpresS = sint (f tk k) in
     if cmpresS > 0 then avl_find_node_boxed f l k
     else if cmpresS < 0 then avl_find_node_boxed f r k
     else Node tk v l r b)"

fun avl_find_node_unboxed :: "('k \<Rightarrow> UWord) \<Rightarrow> ('k, 'v) AvlNode \<Rightarrow> 'k \<Rightarrow> ('k, 'v) AvlNode" where
  "avl_find_node_unboxed w NULL k = NULL"
| "avl_find_node_unboxed w (Node tk v l r b) k =
    (let cmpresS = cmp_unsigned_Words (w tk) (w k) in
     if cmpresS = 0 then Node tk v l r b
     else let cmpresU = drop_bit 63 cmpresS in
       if cmpresU = 0 then avl_find_node_unboxed w l k else avl_find_node_unboxed w r k)"

definition avl_find_node :: "('k, 'v) AvlNode \<Rightarrow> 'k \<Rightarrow> 'k keycmp \<Rightarrow> ('k, 'v) AvlNode" where
  "avl_find_node t k kc = (case kc of
     Boxed f \<Rightarrow> avl_find_node_boxed f t k
   | Unboxed w \<Rightarrow> avl_find_node_unboxed w t k)"

fun avl_find_bounds_loop :: "('k, 'v) AvlNode \<Rightarrow> 'k \<Rightarrow> 'k \<Rightarrow> 'k \<Rightarrow> 'k keycmp \<Rightarrow> ('k \<times> 'k) option" where
  "avl_find_bounds_loop NULL lowerBound upperBound k kc = Some (lowerBound, upperBound)"
| "avl_find_bounds_loop (Node tk v l r b) lowerBound upperBound k kc =
    (let cmpresS = sint (key_cmp kc tk k) in
     if cmpresS < 0 then avl_find_bounds_loop r tk upperBound k kc
     else if cmpresS > 0 then avl_find_bounds_loop l lowerBound tk k kc
     else None)"

definition avl_find_bounds :: "('k, 'v) AvlNode \<Rightarrow> 'k \<Rightarrow> 'k \<Rightarrow> 'k \<Rightarrow> 'k keycmp \<Rightarrow> ('k \<times> 'k) option" where
  "avl_find_bounds t minKey maxKey k kc = avl_find_bounds_loop t minKey maxKey k kc"

subsection \<open>The map object and its public operations\<close>

text \<open>
  \<^verbatim>\<open>struct _WordFM\<close> without its allocation hooks: the two iterator arrays and
  \<^verbatim>\<open>stackTop\<close> are the list of the occupied slots, the top of the stack first.
\<close>

record ('k, 'v) WordFM =
  root :: "('k, 'v) AvlNode"
  kCmp :: "'k keycmp"
  iterStack :: "(('k, 'v) AvlNode \<times> nat) list"

definition WFM_STKMAX :: nat where
  "WFM_STKMAX = 32"

definition VG_newFM :: "'k keycmp \<Rightarrow> ('k, 'v) WordFM" where
  "VG_newFM kc = \<lparr>root = NULL, kCmp = kc, iterStack = []\<rparr>"

text \<open>Finalisation: the calls of \<^verbatim>\<open>kFin\<close> and \<^verbatim>\<open>vFin\<close>, in order; the flags say which of
  the two client functions is non-NULL.\<close>

datatype ('k, 'v) fin_call = KFin 'k | VFin 'v

fun avl_free :: "('k, 'v) AvlNode \<Rightarrow> bool \<Rightarrow> bool \<Rightarrow> ('k, 'v) fin_call list" where
  "avl_free NULL kFin vFin = []"
| "avl_free (Node k v l r b) kFin vFin =
    (if l \<noteq> NULL then avl_free l kFin vFin else []) @
    (if r \<noteq> NULL then avl_free r kFin vFin else []) @
    (if kFin then [KFin k] else []) @ (if vFin then [VFin v] else [])"

definition VG_deleteFM :: "('k, 'v) WordFM \<Rightarrow> bool \<Rightarrow> bool \<Rightarrow> ('k, 'v) fin_call list" where
  "VG_deleteFM fm kFin vFin = avl_free (root fm) kFin vFin"

definition VG_addToFM :: "('k, 'v) WordFM \<Rightarrow> 'k \<Rightarrow> 'v \<Rightarrow> (bool \<times> ('k, 'v) WordFM) option" where
  "VG_addToFM fm k v = do {
     (_, oldV, t) \<leftarrow> avl_insert_wrk (kCmp fm) (root fm) k v;
     Some (oldV \<noteq> None, fm\<lparr>root := t\<rparr>) }"

definition VG_delFromFM :: "('k, 'v) WordFM \<Rightarrow> 'k \<Rightarrow> (('k \<times> 'v) option \<times> ('k, 'v) WordFM) option" where
  "VG_delFromFM fm k = (case avl_find_node (root fm) k (kCmp fm) of
     NULL \<Rightarrow> Some (None, fm)
   | Node nk nv nl nr nb \<Rightarrow> do {
       (_, t) \<leftarrow> avl_remove_wrk (kCmp fm) (root fm) (Node nk nv nl nr nb);
       Some (Some (nk, nv), fm\<lparr>root := t\<rparr>) })"

definition VG_lookupFM :: "('k, 'v) WordFM \<Rightarrow> 'k \<Rightarrow> ('k \<times> 'v) option" where
  "VG_lookupFM fm k = (case avl_find_node (root fm) k (kCmp fm) of
     NULL \<Rightarrow> None | Node nk nv nl nr nb \<Rightarrow> Some (nk, nv))"

definition VG_findBoundsFM :: "('k, 'v) WordFM \<Rightarrow> 'k \<Rightarrow> 'k \<Rightarrow> 'k \<Rightarrow> ('k \<times> 'k) option" where
  "VG_findBoundsFM fm minKey maxKey k = avl_find_bounds (root fm) minKey maxKey k (kCmp fm)"

definition VG_sizeFM :: "('k, 'v) WordFM \<Rightarrow> UWord" where
  "VG_sizeFM fm = (if root fm \<noteq> NULL then size_avl (root fm) else 0)"

subsection \<open>The iterator\<close>

type_synonym ('k, 'v) iter_stack = "(('k, 'v) AvlNode \<times> nat) list"

definition stackPush :: "('k, 'v) iter_stack \<Rightarrow> ('k, 'v) AvlNode \<Rightarrow> nat \<Rightarrow> ('k, 'v) iter_stack option" where
  "stackPush st n i = do {
     vg_assert (length st < WFM_STKMAX);
     vg_assert (1 \<le> i \<and> i \<le> 3);
     Some ((n, i) # st) }"

definition stackPop :: "('k, 'v) iter_stack
    \<Rightarrow> ((('k, 'v) AvlNode \<times> nat) option \<times> ('k, 'v) iter_stack) option" where
  "stackPop st = do {
     vg_assert (length st \<le> WFM_STKMAX);
     (case st of [] \<Rightarrow> Some (None, [])
      | (n, i) # st' \<Rightarrow> do { vg_assert (1 \<le> i \<and> i \<le> 3); Some (Some (n, i), st') }) }"

definition VG_initIterFM :: "('k, 'v) WordFM \<Rightarrow> ('k, 'v) WordFM option" where
  "VG_initIterFM fm =
     (if root fm \<noteq> NULL then do { st \<leftarrow> stackPush [] (root fm) 1; Some (fm\<lparr>iterStack := st\<rparr>) }
      else Some (fm\<lparr>iterStack := []\<rparr>))"

text \<open>The search loop of \<^verbatim>\<open>VG_(initIterAtFM)\<close>: it leaves by one of its two returns, so the
  statements after it are not reached.\<close>

fun initIterAt_loop :: "'k keycmp \<Rightarrow> ('k, 'v) AvlNode \<Rightarrow> 'k \<Rightarrow> ('k, 'v) iter_stack
    \<Rightarrow> ('k, 'v) iter_stack option" where
  "initIterAt_loop kc NULL start_at st = Some st"
| "initIterAt_loop kc (Node k v l r b) start_at st =
    (let cmpresS = key_cmp kc k start_at in
     if cmpresS = 0 then stackPush st (Node k v l r b) 2
     else let cmpresU = drop_bit 63 cmpresS in
       if cmpresU = 0 then do {
         st' \<leftarrow> stackPush st (Node k v l r b) 2; initIterAt_loop kc l start_at st' }
       else initIterAt_loop kc r start_at st)"

definition VG_initIterAtFM :: "('k, 'v) WordFM \<Rightarrow> 'k \<Rightarrow> ('k, 'v) WordFM option" where
  "VG_initIterAtFM fm start_at =
     (if root fm = NULL then Some (fm\<lparr>iterStack := []\<rparr>)
      else do { st \<leftarrow> initIterAt_loop (kCmp fm) (root fm) start_at [];
                Some (fm\<lparr>iterStack := st\<rparr>) })"

text \<open>The \<^verbatim>\<open>goto case_1\<close> loop of \<^verbatim>\<open>VG_(nextIterFM)\<close>.\<close>

fun iter_case_1 :: "('k, 'v) iter_stack \<Rightarrow> ('k, 'v) AvlNode \<Rightarrow> ('k, 'v) iter_stack option" where
  "iter_case_1 st NULL = None"
| "iter_case_1 st (Node k v l r b) = do {
     st' \<leftarrow> stackPush st (Node k v l r b) 2;
     if l \<noteq> NULL then iter_case_1 st' l else Some st' }"

text \<open>Work left on the iterator stack: the measure of the loop of \<^verbatim>\<open>VG_(nextIterFM)\<close>.\<close>

primrec node_work :: "('k, 'v) AvlNode \<Rightarrow> nat" where
  "node_work NULL = 0"
| "node_work (Node k v l r b) = node_work l + node_work r + 3"

fun entry_work :: "('k, 'v) AvlNode \<times> nat \<Rightarrow> nat" where
  "entry_work (NULL, i) = 1"
| "entry_work (Node k v l r b, i) =
    (if i = 1 then node_work (Node k v l r b)
     else if i = 2 then node_work r + 2 else node_work r + 1)"

lemma iter_case_1_work:
  "iter_case_1 st n = Some st' \<Longrightarrow>
     sum_list (map entry_work st') < sum_list (map entry_work st) + node_work n"
  by (induction st n rule: iter_case_1.induct)
     (fastforce simp: stackPush_def bind_Some_iff split: if_splits)+

function nextIter_loop :: "('k, 'v) iter_stack
    \<Rightarrow> (('k \<times> 'v) option \<times> ('k, 'v) iter_stack) option" where
  "nextIter_loop st = (case stackPop st of
     None \<Rightarrow> None
   | Some (None, st') \<Rightarrow> Some (None, st')
   | Some (Some (NULL, i), st') \<Rightarrow> None
   | Some (Some (Node k v l r b, i), st') \<Rightarrow>
       if i = 1 then
         (case iter_case_1 st' (Node k v l r b) of None \<Rightarrow> None | Some st'' \<Rightarrow> nextIter_loop st'')
       else if i = 2 then do { st'' \<leftarrow> stackPush st' (Node k v l r b) 3; Some (Some (k, v), st'') }
       else if i = 3 then
         (if r \<noteq> NULL then
            (case iter_case_1 st' r of None \<Rightarrow> None | Some st'' \<Rightarrow> nextIter_loop st'')
          else nextIter_loop st')
       else None)"
  by pat_completeness auto
termination
  by (relation "measure (\<lambda>st. sum_list (map entry_work st))")
     (auto simp: stackPop_def simp del: iter_case_1.simps split: list.splits if_splits
       dest!: iter_case_1_work)

declare nextIter_loop.simps [simp del]

definition VG_nextIterFM :: "('k, 'v) WordFM \<Rightarrow> (('k \<times> 'v) option \<times> ('k, 'v) WordFM) option" where
  "VG_nextIterFM fm = do {
     (kv, st) \<leftarrow> nextIter_loop (iterStack fm);
     Some (kv, fm\<lparr>iterStack := st\<rparr>) }"

text \<open>What a client loop \<^verbatim>\<open>while (VG_(nextIterFM)(fm, &k, &v))\<close> sees.\<close>

inductive iter_yields :: "('k, 'v) WordFM \<Rightarrow> ('k \<times> 'v) list \<Rightarrow> bool" where
  exhausted: "VG_nextIterFM fm = Some (None, fm') \<Longrightarrow> iter_yields fm []"
| produces: "VG_nextIterFM fm = Some (Some kv, fm') \<Longrightarrow> iter_yields fm' kvs
    \<Longrightarrow> iter_yields fm (kv # kvs)"

inductive_simps iter_yields_Nil: "iter_yields fm []"
inductive_simps iter_yields_Cons: "iter_yields fm (kv # kvs)"

subsection \<open>Duplication\<close>

text \<open>A client copy function returns 0 when it runs out of memory on a non-zero argument;
  \<^verbatim>\<open>avl_dopy\<close> then returns NULL.\<close>

fun dopy_word :: "(UWord \<Rightarrow> UWord) option \<Rightarrow> UWord \<Rightarrow> UWord option" where
  "dopy_word None w = Some w"
| "dopy_word (Some f) w = (if w \<noteq> 0 \<and> f w = 0 then None else Some (f w))"

fun avl_dopy :: "(UWord, UWord) AvlNode \<Rightarrow> (UWord \<Rightarrow> UWord) option \<Rightarrow> (UWord \<Rightarrow> UWord) option
    \<Rightarrow> (UWord, UWord) AvlNode" where
  "avl_dopy NULL dopyK dopyV = NULL"
| "avl_dopy (Node k v l r b) dopyK dopyV =
    (case dopy_word dopyK k of None \<Rightarrow> NULL
     | Some k' \<Rightarrow> (case dopy_word dopyV v of None \<Rightarrow> NULL
       | Some v' \<Rightarrow>
           let l' = (if l \<noteq> NULL then avl_dopy l dopyK dopyV else NULL) in
           if l \<noteq> NULL \<and> l' = NULL then NULL
           else let r' = (if r \<noteq> NULL then avl_dopy r dopyK dopyV else NULL) in
             if r \<noteq> NULL \<and> r' = NULL then NULL
             else Node k' v' l' r' b))"

text \<open>Outer \<open>None\<close>: the assertion that no iteration is under way fails; inner \<open>None\<close>: NULL.\<close>

definition VG_dopyFM :: "(UWord, UWord) WordFM \<Rightarrow> (UWord \<Rightarrow> UWord) option \<Rightarrow> (UWord \<Rightarrow> UWord) option
    \<Rightarrow> (UWord, UWord) WordFM option option" where
  "VG_dopyFM fm dopyK dopyV = do {
     vg_assert (iterStack fm = []);
     Some (if root fm \<noteq> NULL then
             (let t = avl_dopy (root fm) dopyK dopyV in
              if t = NULL then None else Some (fm\<lparr>root := t\<rparr>))
           else Some fm) }"

end
