(* ===== verification/WordFM_Correct.thy ===== *)
theory WordFM_Correct
  imports WordFM
begin

text \<open>
  Correctness of the finite maps of \<^verbatim>\<open>m_wordfm.c\<close>. A tree stands for its in-order list of
  bindings; \<open>avl\<close> says that every stored balance factor is the difference of the subtree
  depths and lies between -1 and 1. The rotations keep both, so insertion and removal never
  reach a failing assertion and act on the list as \<open>upd_assoc\<close> and \<open>del_assoc\<close>. The laws
  of a comparison function are the locale \<open>key_order\<close>, the contract offered to clients is
  \<open>finite_map\<close>. The iterator is characterised by what is left on its stack.
\<close>

subsection \<open>Abstraction and balance\<close>

primrec inord :: "('k, 'v) AvlNode \<Rightarrow> ('k \<times> 'v) list" where
  "inord NULL = []"
| "inord (Node k v l r b) = inord l @ (k, v) # inord r"

primrec height :: "('k, 'v) AvlNode \<Rightarrow> nat" where
  "height NULL = 0"
| "height (Node k v l r b) = Suc (max (height l) (height r))"

primrec avl :: "('k, 'v) AvlNode \<Rightarrow> bool" where
  "avl NULL = True"
| "avl (Node k v l r b) =
    (avl l \<and> avl r \<and> b = int (height r) - int (height l) \<and> -1 \<le> b \<and> b \<le> 1)"

lemma height_0 [simp]: "height t = 0 \<longleftrightarrow> t = NULL"
  by (cases t) auto

lemma balance_height: "avl t \<Longrightarrow> t \<noteq> NULL \<Longrightarrow> balance t = int (height (child1 t)) - int (height (child0 t))"
  by (cases t) auto

lemmas rot_defs = avl_swl_def avl_swr_def avl_nasty_def set_balance_def set_bal_child0_def
  set_bal_child1_def swl_child0_swr_def swr_child1_swl_def

text \<open>single rotation\<close>

lemma swr_single:
  assumes "avl l" "avl r" "height l = height r + 2" "balance l < 0"
  shows "\<exists>t. avl_swr (Node k v l r c) \<bind> set_bal_child1 0 0 = Some t \<and> avl t \<and> t \<noteq> NULL \<and>
    height t = height r + 2 \<and> inord t = inord l @ (k, v) # inord r"
  using assms by (cases l) (auto simp: rot_defs)

lemma swl_single:
  assumes "avl l" "avl r" "height r = height l + 2" "balance r > 0"
  shows "\<exists>t. avl_swl (Node k v l r c) \<bind> set_bal_child0 0 0 = Some t \<and> avl t \<and> t \<noteq> NULL \<and>
    height t = height l + 2 \<and> inord t = inord l @ (k, v) # inord r"
  using assms by (cases r) (auto simp: rot_defs)

lemma swr_even:
  assumes "avl l" "avl r" "height l = height r + 2" "balance l = 0"
  shows "\<exists>t. avl_swr (Node k v l r c) \<bind> set_bal_child1 1 (-1) = Some t \<and> avl t \<and> t \<noteq> NULL \<and>
    height t = height r + 3 \<and> inord t = inord l @ (k, v) # inord r"
  using assms by (cases l) (auto simp: rot_defs)

lemma swl_even:
  assumes "avl l" "avl r" "height r = height l + 2" "balance r = 0"
  shows "\<exists>t. avl_swl (Node k v l r c) \<bind> set_bal_child0 (-1) 1 = Some t \<and> avl t \<and> t \<noteq> NULL \<and>
    height t = height l + 3 \<and> inord t = inord l @ (k, v) # inord r"
  using assms by (cases r) (auto simp: rot_defs)

lemma swr_double:
  assumes "avl l" "avl r" "height l = height r + 2" "balance l > 0"
  shows "\<exists>t. swl_child0_swr (Node k v l r c) = Some t \<and> avl t \<and> t \<noteq> NULL \<and>
    height t = height r + 2 \<and> inord t = inord l @ (k, v) # inord r"
proof (cases l)
  case (Node k1 v1 l1 r1 b1)
  with assms obtain k2 v2 l2 r2 b2 where r1: "r1 = Node k2 v2 l2 r2 b2"
    by (cases r1) auto
  show ?thesis
    using assms Node r1 by (auto simp: rot_defs max_def split: if_splits)
qed (use assms in auto)

lemma swl_double:
  assumes "avl l" "avl r" "height r = height l + 2" "balance r < 0"
  shows "\<exists>t. swr_child1_swl (Node k v l r c) = Some t \<and> avl t \<and> t \<noteq> NULL \<and>
    height t = height l + 2 \<and> inord t = inord l @ (k, v) # inord r"
proof (cases r)
  case (Node k1 v1 l1 r1 b1)
  with assms obtain k2 v2 l2 r2 b2 where r1: "l1 = Node k2 v2 l2 r2 b2"
    by (cases l1) auto
  show ?thesis
    using assms Node r1 by (auto simp: rot_defs max_def split: if_splits)
qed (use assms in auto)

lemma grown_left_ok:
  assumes "avl l" "avl r" "l \<noteq> NULL" "balance l \<noteq> 0" "b = int (height r) + 1 - int (height l)" "-1 \<le> b" "b \<le> 1"
  shows "\<exists>g t. grown_left (Node k v l r b) = Some (g, t) \<and> avl t \<and> t \<noteq> NULL \<and>
    inord t = inord l @ (k, v) # inord r \<and> (g \<longrightarrow> balance t \<noteq> 0 \<and> key t = k \<and> val t = v) \<and>
    height t = Suc (max (height l - 1) (height r)) + (if g then 1 else 0)"
proof (cases "b = -1")
  case True
  then have h: "height l = height r + 2" using assms by simp
  show ?thesis
  proof (cases "balance l < 0")
    case lt: True
    from swr_single [OF assms(1,2) h lt, of k v "-2"] show ?thesis
      using True assms(3) lt h by (auto simp: grown_left_def simp del: Option.bind_assoc)
  next
    case False
    then have "balance l > 0" using assms(4) by simp
    from swr_double [OF assms(1,2) h this, of k v "-2"] show ?thesis
      using True assms(3) False h by (auto simp: grown_left_def simp del: Option.bind_assoc)
  qed
qed (use assms in \<open>auto simp: grown_left_def\<close>)

lemma grown_right_ok:
  assumes "avl l" "avl r" "r \<noteq> NULL" "balance r \<noteq> 0" "b = int (height r) - 1 - int (height l)" "-1 \<le> b" "b \<le> 1"
  shows "\<exists>g t. grown_right (Node k v l r b) = Some (g, t) \<and> avl t \<and> t \<noteq> NULL \<and>
    inord t = inord l @ (k, v) # inord r \<and> (g \<longrightarrow> balance t \<noteq> 0 \<and> key t = k \<and> val t = v) \<and>
    height t = Suc (max (height l) (height r - 1)) + (if g then 1 else 0)"
proof (cases "b = 1")
  case True
  then have h: "height r = height l + 2" using assms by simp
  show ?thesis
  proof (cases "balance r > 0")
    case gt: True
    from swl_single [OF assms(1,2) h gt, of k v 2] show ?thesis
      using True assms(3) gt h by (auto simp: grown_right_def simp del: Option.bind_assoc)
  next
    case False
    then have "balance r < 0" using assms(4) by simp
    from swl_double [OF assms(1,2) h this, of k v 2] show ?thesis
      using True assms(3) False h by (auto simp: grown_right_def simp del: Option.bind_assoc)
  qed
qed (use assms in \<open>auto simp: grown_right_def\<close>)

lemma shrunk_left_ok:
  assumes "avl l" "avl r" "b = int (height r) - 1 - int (height l)" "-1 \<le> b" "b \<le> 1"
  shows "\<exists>ch t. shrunk_left (Node k v l r b) = Some (ch, t) \<and> avl t \<and> t \<noteq> NULL \<and>
    inord t = inord l @ (k, v) # inord r \<and> (b \<noteq> 1 \<longrightarrow> t = Node k v l r (b + 1) \<and> ch = (b = -1)) \<and>
    Suc (max (Suc (height l)) (height r)) = height t + (if ch then 1 else 0)"
proof (cases "b = 1")
  case True
  then have h: "height r = height l + 2" using assms by simp
  then have "r \<noteq> NULL" by auto
  consider "balance r = 0" | "balance r = 1" | "balance r = -1" 
    using assms(2) \<open>r \<noteq> NULL\<close> by (cases r) (auto, linarith)
  then show ?thesis
  proof cases
    case 1
    from swl_even [OF assms(1,2) h 1, of k v 2] show ?thesis
      using True \<open>r \<noteq> NULL\<close> 1 h by (auto simp: shrunk_left_def simp del: Option.bind_assoc)
  next
    case 2
    then have "balance r > 0" by simp
    from swl_single [OF assms(1,2) h this, of k v 2] show ?thesis
      using True \<open>r \<noteq> NULL\<close> 2 h by (auto simp: shrunk_left_def simp del: Option.bind_assoc)
  next
    case 3
    then have "balance r < 0" by simp
    from swl_double [OF assms(1,2) h this, of k v 2] show ?thesis
      using True \<open>r \<noteq> NULL\<close> 3 h by (auto simp: shrunk_left_def simp del: Option.bind_assoc)
  qed
qed (use assms in \<open>auto simp: shrunk_left_def\<close>)

lemma shrunk_right_ok:
  assumes "avl l" "avl r" "b = int (height r) + 1 - int (height l)" "-1 \<le> b" "b \<le> 1"
  shows "\<exists>ch t. shrunk_right (Node k v l r b) = Some (ch, t) \<and> avl t \<and> t \<noteq> NULL \<and>
    inord t = inord l @ (k, v) # inord r \<and> (b \<noteq> -1 \<longrightarrow> t = Node k v l r (b - 1) \<and> ch = (b = 1)) \<and>
    Suc (max (height l) (Suc (height r))) = height t + (if ch then 1 else 0)"
proof (cases "b = -1")
  case True
  then have h: "height l = height r + 2" using assms by simp
  then have "l \<noteq> NULL" by auto
  consider "balance l = 0" | "balance l = -1" | "balance l = 1" 
    using assms(1) \<open>l \<noteq> NULL\<close> by (cases l) (auto, linarith)
  then show ?thesis
  proof cases
    case 1
    from swr_even [OF assms(1,2) h 1, of k v "-2"] show ?thesis
      using True \<open>l \<noteq> NULL\<close> 1 h by (auto simp: shrunk_right_def simp del: Option.bind_assoc)
  next
    case 2
    then have "balance l < 0" by simp
    from swr_single [OF assms(1,2) h this, of k v "-2"] show ?thesis
      using True \<open>l \<noteq> NULL\<close> 2 h by (auto simp: shrunk_right_def simp del: Option.bind_assoc)
  next
    case 3
    then have "balance l > 0" by simp
    from swr_double [OF assms(1,2) h this, of k v "-2"] show ?thesis
      using True \<open>l \<noteq> NULL\<close> 3 h by (auto simp: shrunk_right_def simp del: Option.bind_assoc)
  qed
qed (use assms in \<open>auto simp: shrunk_right_def\<close>)

lemma avl_insert_balanced:
  assumes "avl t"
  shows "\<exists>g old t'. avl_insert_wrk kc t a av = Some (g, old, t') \<and> avl t' \<and> t' \<noteq> NULL \<and>
    height t' = height t + (if g then 1 else 0) \<and>
    (g \<longrightarrow> t \<noteq> NULL \<longrightarrow> balance t' \<noteq> 0 \<and> key t' = key t \<and> val t' = val t)"
  using assms
proof (induction t)
  case NULL
  then show ?case by auto
next
  case (Node k v l r b)
  then have al: "avl l" "avl r" and b: "b = int (height r) - int (height l)" "-1 \<le> b" "b \<le> 1"
    by auto
  consider (left) "sint (key_cmp kc k a) > 0" "l \<noteq> NULL" | (left0) "sint (key_cmp kc k a) > 0" "l = NULL"
    | (right) "sint (key_cmp kc k a) < 0" "r \<noteq> NULL" | (right0) "sint (key_cmp kc k a) < 0" "r = NULL"
    | (same) "sint (key_cmp kc k a) = 0"
    by linarith
  then show ?case
  proof cases
    case left
    from Node.IH(1) [OF al(1)] left obtain g old l' where l': "avl_insert_wrk kc l a av = Some (g, old, l')"
        "avl l'" "l' \<noteq> NULL" "height l' = height l + (if g then 1 else 0)" "g \<longrightarrow> balance l' \<noteq> 0"
      by blast
    show ?thesis
      using left l' b al grown_left_ok [OF l'(2) al(2) l'(3), of b k v] by (cases g) auto
  next
    case right
    from Node.IH(2) [OF al(2)] right obtain g old r' where r': "avl_insert_wrk kc r a av = Some (g, old, r')"
        "avl r'" "r' \<noteq> NULL" "height r' = height r + (if g then 1 else 0)" "g \<longrightarrow> balance r' \<noteq> 0"
      by blast
    show ?thesis
      using right r' b al grown_right_ok [OF al(1) r'(2) r'(3), of b k v] by (cases g) auto
  qed (use b al in \<open>auto simp: le_Suc_eq\<close>)
qed

subsection \<open>Ordered keys\<close>

lemma avl_find_node_unboxed_eq:
  "avl_find_node_unboxed w t k = avl_find_node_boxed (key_cmp (Unboxed w)) t k"
  by (induction t) (auto simp: cmp_unsigned_Words_def sign_shift Let_def)

lemma key_cmp_Boxed [simp]: "key_cmp (Boxed f) = f"
  by (intro ext) simp

lemma key_cmp_Unboxed: "key_cmp (Unboxed w) = (\<lambda>a b. cmp_unsigned_Words (w a) (w b))"
  by (intro ext) simp

lemma avl_find_node_eq: "avl_find_node t k kc = avl_find_node_boxed (key_cmp kc) t k"
  by (cases kc) (auto simp: avl_find_node_def avl_find_node_unboxed_eq)

definition key_lt :: "'k keycmp \<Rightarrow> 'k \<Rightarrow> 'k \<Rightarrow> bool" where
  "key_lt kc a b \<longleftrightarrow> sint (key_cmp kc a b) < 0"

definition sorted_keys :: "'k keycmp \<Rightarrow> ('k \<times> 'v) list \<Rightarrow> bool" where
  "sorted_keys kc = sorted_wrt (\<lambda>x y. key_lt kc (fst x) (fst y))"

fun upd_assoc :: "'k keycmp \<Rightarrow> 'k \<Rightarrow> 'v \<Rightarrow> ('k \<times> 'v) list \<Rightarrow> ('k \<times> 'v) list" where
  "upd_assoc kc a av [] = [(a, av)]"
| "upd_assoc kc a av ((k, v) # xs) =
    (if sint (key_cmp kc k a) > 0 then (a, av) # (k, v) # xs
     else if sint (key_cmp kc k a) < 0 then (k, v) # upd_assoc kc a av xs
     else (k, av) # xs)"

fun del_assoc :: "'k keycmp \<Rightarrow> 'k \<Rightarrow> ('k \<times> 'v) list \<Rightarrow> ('k \<times> 'v) list" where
  "del_assoc kc a [] = []"
| "del_assoc kc a ((k, v) # xs) = (if key_cmp kc k a = 0 then xs else (k, v) # del_assoc kc a xs)"

fun find_assoc :: "'k keycmp \<Rightarrow> 'k \<Rightarrow> ('k \<times> 'v) list \<Rightarrow> ('k \<times> 'v) option" where
  "find_assoc kc a [] = None"
| "find_assoc kc a ((k, v) # xs) = (if key_cmp kc k a = 0 then Some (k, v) else find_assoc kc a xs)"

lemma sorted_keys_simps [simp]:
  "sorted_keys kc []"
  "sorted_keys kc (x # xs) \<longleftrightarrow> (\<forall>y\<in>set xs. key_lt kc (fst x) (fst y)) \<and> sorted_keys kc xs"
  "sorted_keys kc (xs @ ys) \<longleftrightarrow> sorted_keys kc xs \<and> sorted_keys kc ys \<and>
     (\<forall>x\<in>set xs. \<forall>y\<in>set ys. key_lt kc (fst x) (fst y))"
  by (auto simp: sorted_keys_def sorted_wrt_append)

lemma sint_eq_0 [simp]: "sint (w :: Word) = 0 \<longleftrightarrow> w = 0"
  using signed_eq_0_iff by blast

locale key_order =
  fixes kc :: "'k keycmp"
  assumes cmp_flip: "sint (key_cmp kc a b) > 0 \<longleftrightarrow> sint (key_cmp kc b a) < 0"
    and cmp_trans: "sint (key_cmp kc a b) < 0 \<Longrightarrow> sint (key_cmp kc b c) < 0 \<Longrightarrow> sint (key_cmp kc a c) < 0"
    and cmp_cong: "key_cmp kc a b = 0 \<Longrightarrow> sint (key_cmp kc a c) < 0 \<longleftrightarrow> sint (key_cmp kc b c) < 0"
begin

lemma cmp_refl [simp]: "key_cmp kc a a = 0"
  using cmp_flip [of a a] sint_eq_0 by fastforce

lemma cmp_eq_sym: "key_cmp kc a b = 0 \<longleftrightarrow> key_cmp kc b a = 0"
  using cmp_flip [of a b] cmp_flip [of b a] by (metis linorder_neqE_linordered_idom sint_eq_0 less_irrefl)

lemma cmp_cong2: "key_cmp kc a b = 0 \<Longrightarrow> sint (key_cmp kc c a) < 0 \<longleftrightarrow> sint (key_cmp kc c b) < 0"
  by (metis cmp_cong cmp_eq_sym cmp_flip linorder_neqE_linordered_idom not_less_iff_gr_or_eq sint_eq_0)

lemma lt_not_eq: "key_lt kc a b \<Longrightarrow> key_cmp kc b a \<noteq> 0 \<and> key_cmp kc a b \<noteq> 0"
  by (metis cmp_flip key_lt_def less_irrefl sint_eq_0)

lemma lt_trans: "key_lt kc a b \<Longrightarrow> key_lt kc b c \<Longrightarrow> key_lt kc a c"
  unfolding key_lt_def by (rule cmp_trans)

lemma upd_assoc_left:
  "sint (key_cmp kc k a) > 0 \<Longrightarrow> upd_assoc kc a av (xs @ (k, v) # ys) = upd_assoc kc a av xs @ (k, v) # ys"
  by (induction xs) auto

lemma upd_assoc_right:
  assumes "\<forall>x\<in>set xs. key_lt kc (fst x) k" "\<not> sint (key_cmp kc k a) > 0"
  shows "upd_assoc kc a av (xs @ (k, v) # ys) = xs @ upd_assoc kc a av ((k, v) # ys)"
  using assms
proof (induction xs)
  case (Cons x xs)
  then have "sint (key_cmp kc (fst x) k) < 0" by (simp add: key_lt_def)
  with Cons.prems have "sint (key_cmp kc (fst x) a) < 0"
    using cmp_trans [of "fst x" k a] cmp_cong2 [of k a "fst x"]
    by (cases "key_cmp kc k a = 0") (auto simp: not_less order_le_less)
  with Cons show ?case by (cases x) auto
qed simp

lemma del_assoc_append:
  "\<forall>x\<in>set xs. key_cmp kc (fst x) a \<noteq> 0 \<Longrightarrow> del_assoc kc a (xs @ ys) = xs @ del_assoc kc a ys"
  by (induction xs) auto

lemma find_assoc_append:
  "\<forall>x\<in>set xs. key_cmp kc (fst x) a \<noteq> 0 \<Longrightarrow> find_assoc kc a (xs @ ys) = find_assoc kc a ys"
  by (induction xs) auto

lemma find_del_none:
  "\<forall>x\<in>set xs. key_cmp kc (fst x) a \<noteq> 0 \<Longrightarrow> find_assoc kc a xs = None \<and> del_assoc kc a xs = xs"
  by (induction xs) auto

lemma below_nomatch:
  "\<forall>x\<in>set xs. key_lt kc (fst x) k \<Longrightarrow> \<not> sint (key_cmp kc k a) > 0 \<Longrightarrow> \<forall>x\<in>set xs. key_cmp kc (fst x) a \<noteq> 0"
  by (metis cmp_cong cmp_flip key_lt_def cmp_eq_sym)

lemma above_nomatch:
  "\<forall>x\<in>set xs. key_lt kc k (fst x) \<Longrightarrow> sint (key_cmp kc k a) > 0 \<Longrightarrow> \<forall>x\<in>set xs. key_cmp kc (fst x) a \<noteq> 0"
  by (metis cmp_cong cmp_flip key_lt_def less_asym cmp_eq_sym)

lemma del_assoc_left:
  assumes "\<forall>y\<in>set ys. key_lt kc k (fst y)" "sint (key_cmp kc k a) > 0"
  shows "del_assoc kc a (xs @ (k, v) # ys) = del_assoc kc a xs @ (k, v) # ys"
    and "find_assoc kc a (xs @ (k, v) # ys) = find_assoc kc a xs"
proof -
  have "key_cmp kc k a \<noteq> 0" using assms(2) by auto
  then show "del_assoc kc a (xs @ (k, v) # ys) = del_assoc kc a xs @ (k, v) # ys"
    and "find_assoc kc a (xs @ (k, v) # ys) = find_assoc kc a xs"
    using find_del_none [OF above_nomatch [OF assms]] by (induction xs) auto
qed

lemma del_assoc_right:
  assumes "\<forall>x\<in>set xs. key_lt kc (fst x) k" "\<not> sint (key_cmp kc k a) > 0"
  shows "del_assoc kc a (xs @ (k, v) # ys) = xs @ del_assoc kc a ((k, v) # ys)"
    and "find_assoc kc a (xs @ (k, v) # ys) = find_assoc kc a ((k, v) # ys)"
  using below_nomatch [OF assms] by (simp_all add: del_assoc_append find_assoc_append)

lemma find_node_inord:
  "sorted_keys kc (inord t) \<Longrightarrow>
    find_assoc kc a (inord t) = (case avl_find_node t a kc of NULL \<Rightarrow> None | Node k v _ _ _ \<Rightarrow> Some (k, v))"
proof (induction t)
  case (Node k v l r b)
  then show ?case
    by (cases "sint (key_cmp kc k a) > 0")
       (auto simp: avl_find_node_eq Let_def del_assoc_left del_assoc_right not_less order_le_less)
qed (simp add: avl_find_node_eq)

lemma insert_inord:
  assumes "avl t" "sorted_keys kc (inord t)" "avl_insert_wrk kc t a av = Some (g, old, t')"
  shows "inord t' = upd_assoc kc a av (inord t) \<and> old = map_option snd (find_assoc kc a (inord t))"
  using assms
proof (induction t arbitrary: g old t')
  case (Node k v l r b)
  from Node.prems(1,2) have al: "avl l" "avl r" and b: "b = int (height r) - int (height l)" "-1 \<le> b" "b \<le> 1"
    and sl: "sorted_keys kc (inord l)" "sorted_keys kc (inord r)"
      "\<forall>x\<in>set (inord l). key_lt kc (fst x) k" "\<forall>y\<in>set (inord r). key_lt kc k (fst y)"
    by auto
  consider (left) "sint (key_cmp kc k a) > 0" | (right) "sint (key_cmp kc k a) < 0" | (same) "sint (key_cmp kc k a) = 0"
    by linarith
  then show ?case
  proof cases
    case left
    obtain g1 old1 l' where l': "avl_insert_wrk kc l a av = Some (g1, old1, l')" "avl l'" "l' \<noteq> NULL"
        "height l' = height l + (if g1 then 1 else 0)" "g1 \<and> l \<noteq> NULL \<longrightarrow> balance l' \<noteq> 0"
      using avl_insert_balanced [OF al(1), of kc a av] by blast
    have IH: "inord l' = upd_assoc kc a av (inord l) \<and> old1 = map_option snd (find_assoc kc a (inord l))"
      by (rule Node.IH(1) [OF al(1) sl(1) l'(1)])
    have u: "upd_assoc kc a av (inord l @ (k, v) # inord r) = inord l' @ (k, v) # inord r"
      "find_assoc kc a (inord l @ (k, v) # inord r) = find_assoc kc a (inord l)"
      using IH upd_assoc_left [OF left] del_assoc_left [OF sl(4) left] by simp_all
    show ?thesis
    proof (cases "l = NULL")
      case True
      then show ?thesis using Node.prems(3) left l' b u IH by auto
    next
      case False
      then show ?thesis
        using Node.prems(3) left l'(1,4,5) b u IH grown_left_ok [OF l'(2) al(2) l'(3) _ _ b(2,3), of k v] by (cases g1) auto
    qed
  next
    case right
    obtain g1 old1 r' where r': "avl_insert_wrk kc r a av = Some (g1, old1, r')" "avl r'" "r' \<noteq> NULL"
        "height r' = height r + (if g1 then 1 else 0)" "g1 \<and> r \<noteq> NULL \<longrightarrow> balance r' \<noteq> 0"
      using avl_insert_balanced [OF al(2), of kc a av] by blast
    have IH: "inord r' = upd_assoc kc a av (inord r) \<and> old1 = map_option snd (find_assoc kc a (inord r))"
      by (rule Node.IH(2) [OF al(2) sl(2) r'(1)])
    have nr: "\<not> sint (key_cmp kc k a) > 0" using right by simp
    have u: "upd_assoc kc a av (inord l @ (k, v) # inord r) = inord l @ (k, v) # inord r'"
      "find_assoc kc a (inord l @ (k, v) # inord r) = find_assoc kc a (inord r)"
      using IH right upd_assoc_right [OF sl(3) nr] del_assoc_right [OF sl(3) nr] by auto
    show ?thesis
    proof (cases "r = NULL")
      case True
      then show ?thesis using Node.prems(3) right r' b u IH by auto
    next
      case False
      then show ?thesis
        using Node.prems(3) right r'(1,4,5) b u IH grown_right_ok [OF al(1) r'(2) r'(3) _ _ b(2,3), of k v] by (cases g1) auto
    qed
  next
    case same
    then have ng: "\<not> sint (key_cmp kc k a) > 0" and z: "key_cmp kc k a = 0" by auto
    then show ?thesis
      using Node.prems upd_assoc_right [OF sl(3) ng] del_assoc_right [OF sl(3) ng] by auto
  qed
qed auto

lemma find_node_found:
  "avl_find_node t a kc = n \<Longrightarrow> n \<noteq> NULL \<Longrightarrow> key_cmp kc (key n) a = 0 \<and> (key n, val n) \<in> set (inord n) \<and> set (inord n) \<subseteq> set (inord t)"
  by (induction t) (auto simp: avl_find_node_eq Let_def split: if_splits)

lemma find_rightmost:
  assumes "sorted_keys kc (inord t)" "t \<noteq> NULL"
  shows "avl_find_node t (key (rightmost t)) kc = rightmost t \<and> rightmost t \<noteq> NULL \<and>
    (\<exists>xs. inord t = xs @ [(key (rightmost t), val (rightmost t))])"
  using assms
proof (induction t)
  case (Node k v l r b)
  show ?case
  proof (cases "r = NULL")
    case False
    with Node obtain xs where r: "avl_find_node r (key (rightmost r)) kc = rightmost r" "rightmost r \<noteq> NULL"
        "inord r = xs @ [(key (rightmost r), val (rightmost r))]"
      by auto
    then have "key_lt kc k (key (rightmost r))"
      using Node.prems by auto
    then show ?thesis
      using False r by (auto simp: avl_find_node_eq key_lt_def)
  qed (auto simp: avl_find_node_eq)
qed simp

lemma find_leftmost:
  assumes "sorted_keys kc (inord t)" "t \<noteq> NULL"
  shows "avl_find_node t (key (leftmost t)) kc = leftmost t \<and> leftmost t \<noteq> NULL \<and>
    (\<exists>xs. inord t = (key (leftmost t), val (leftmost t)) # xs)"
  using assms
proof (induction t)
  case (Node k v l r b)
  show ?case
  proof (cases "l = NULL")
    case False
    with Node obtain xs where l: "avl_find_node l (key (leftmost l)) kc = leftmost l" "leftmost l \<noteq> NULL"
        "inord l = (key (leftmost l), val (leftmost l)) # xs"
      by auto
    then have "key_lt kc (key (leftmost l)) k"
      using Node.prems by auto
    then have "sint (key_cmp kc k (key (leftmost l))) > 0"
      by (simp add: key_lt_def cmp_flip)
    then show ?thesis
      using False l by (auto simp: avl_find_node_eq)
  qed (auto simp: avl_find_node_eq)
qed simp

lemma remove_inord:
  assumes "avl t" "sorted_keys kc (inord t)" "avl_find_node t (key n) kc = n" "n \<noteq> NULL"
  shows "\<exists>ch t'. avl_remove_wrk kc t n = Some (ch, t') \<and> avl t' \<and>
    height t = height t' + (if ch then 1 else 0) \<and> inord t' = del_assoc kc (key n) (inord t)"
  using assms
proof (induction t arbitrary: n)
  case (Node k v l r b)
  from Node.prems(1,2) have al: "avl l" "avl r" and b: "b = int (height r) - int (height l)" "-1 \<le> b" "b \<le> 1"
    and sl: "sorted_keys kc (inord l)" "sorted_keys kc (inord r)"
      "\<forall>x\<in>set (inord l). key_lt kc (fst x) k" "\<forall>y\<in>set (inord r). key_lt kc k (fst y)"
    by auto
  have left: "\<exists>ch t'. avl_remove_wrk kc (Node k v l r b) m = Some (ch, t') \<and> avl t' \<and>
      height (Node k v l r b) = height t' + (if ch then 1 else 0) \<and>
      inord t' = del_assoc kc (key m) (inord l) @ (k, v) # inord r \<and>
      (b < 0 \<longrightarrow> (\<exists>l' b'. t' = Node k v l' r b' \<and> inord l' = del_assoc kc (key m) (inord l) \<and> (ch = (b' = 0))))"
    if gt: "sint (key_cmp kc k (key m)) > 0" and m: "avl_find_node l (key m) kc = m" "m \<noteq> NULL" for m
  proof -
    from m have nl: "l \<noteq> NULL" by (auto simp: avl_find_node_eq)
    obtain ch l' where l': "avl_remove_wrk kc l m = Some (ch, l')" "avl l'"
        "height l = height l' + (if ch then 1 else 0)" "inord l' = del_assoc kc (key m) (inord l)"
      using Node.IH(1) [OF al(1) sl(1) m] by blast
    have eq: "avl_remove_wrk kc (Node k v l r b) m =
        (if ch then shrunk_left (Node k v l' r b) else Some (False, Node k v l' r b))"
      using gt nl m(2) l'(1) by (cases m) auto
    show ?thesis
    proof (cases ch)
      case True
      have "b = int (height r) - 1 - int (height l')" using True b l'(3) by simp
      from shrunk_left_ok [OF l'(2) al(2) this b(2,3), of k v] obtain ch1 t where
          t: "shrunk_left (Node k v l' r b) = Some (ch1, t)" "avl t" "inord t = inord l' @ (k, v) # inord r"
             "b \<noteq> 1 \<longrightarrow> t = Node k v l' r (b + 1) \<and> ch1 = (b = -1)"
             "Suc (max (Suc (height l')) (height r)) = height t + (if ch1 then 1 else 0)"
        by blast
      have "b < 0 \<longrightarrow> b + 1 = 0 \<and> b \<noteq> 1" "b < 0 \<longrightarrow> b = -1" using b(2) by auto
      then show ?thesis
        using True t l'(3,4) eq by simp
    next
      case False
      then show ?thesis using b al l'(2-4) eq by auto
    qed
  qed
  have right: "\<exists>ch t'. avl_remove_wrk kc (Node k v l r b) m = Some (ch, t') \<and> avl t' \<and>
      height (Node k v l r b) = height t' + (if ch then 1 else 0) \<and>
      inord t' = inord l @ (k, v) # del_assoc kc (key m) (inord r) \<and>
      (b \<ge> 0 \<longrightarrow> (\<exists>r' b'. t' = Node k v l r' b' \<and> inord r' = del_assoc kc (key m) (inord r) \<and>
          (ch \<longrightarrow> b' = 0)))"
    if lt: "sint (key_cmp kc k (key m)) < 0" and m: "avl_find_node r (key m) kc = m" "m \<noteq> NULL" for m
  proof -
    from m have nl: "r \<noteq> NULL" by (auto simp: avl_find_node_eq)
    obtain ch r' where r': "avl_remove_wrk kc r m = Some (ch, r')" "avl r'"
        "height r = height r' + (if ch then 1 else 0)" "inord r' = del_assoc kc (key m) (inord r)"
      using Node.IH(2) [OF al(2) sl(2) m] by blast
    have eq: "avl_remove_wrk kc (Node k v l r b) m =
        (if ch then shrunk_right (Node k v l r' b) else Some (False, Node k v l r' b))"
      using lt nl m(2) r'(1) by (cases m) auto
    show ?thesis
    proof (cases ch)
      case True
      have "b = int (height r') + 1 - int (height l)" using True b r'(3) by simp
      from shrunk_right_ok [OF al(1) r'(2) this b(2,3), of k v] obtain ch1 t where
          t: "shrunk_right (Node k v l r' b) = Some (ch1, t)" "avl t" "inord t = inord l @ (k, v) # inord r'"
             "b \<noteq> -1 \<longrightarrow> t = Node k v l r' (b - 1) \<and> ch1 = (b = 1)"
             "Suc (max (height l) (Suc (height r'))) = height t + (if ch1 then 1 else 0)"
        by blast
      have "b \<ge> 0 \<longrightarrow> b \<noteq> -1" by auto
      then show ?thesis
        using True t r'(3,4) eq by simp
    next
      case False
      then show ?thesis using b al r'(2-4) eq by auto
    qed
  qed
  consider (gt) "sint (key_cmp kc k (key n)) > 0" | (lt) "sint (key_cmp kc k (key n)) < 0"
    | (eq) "key_cmp kc k (key n) = 0"
    by (metis linorder_neqE_linordered_idom sint_eq_0)
  then show ?case
  proof cases
    case gt
    then have "avl_find_node l (key n) kc = n"
      using Node.prems(3) by (simp add: avl_find_node_eq)
    from left [OF gt this Node.prems(4)] show ?thesis
      unfolding inord.simps del_assoc_left(1) [OF sl(4) gt] by blast
  next
    case lt
    then have nr: "\<not> sint (key_cmp kc k (key n)) > 0" and ne: "key_cmp kc k (key n) \<noteq> 0" by auto
    have "avl_find_node r (key n) kc = n"
      using Node.prems(3) lt nr by (simp add: avl_find_node_eq)
    from right [OF lt this Node.prems(4)] show ?thesis
      unfolding inord.simps del_assoc_right(1) [OF sl(3) nr] del_assoc.simps if_not_P [OF ne] by blast
  next
    case eq
    then have n: "n = Node k v l r b"
      using Node.prems(3) by (simp add: avl_find_node_eq)
    have d: "del_assoc kc k (inord l @ (k, v) # inord r) = inord l @ inord r"
      using del_assoc_right(1) [OF sl(3), of k] by simp
    have rm: "avl_remove_wrk kc (Node k v l r b) n = avl_removeroot_wrk kc (Node k v l r b)"
      by (simp add: n)
    consider (leaf) "l = NULL \<or> r = NULL" | (pred) "l \<noteq> NULL" "r \<noteq> NULL" "b < 0"
      | (succ) "l \<noteq> NULL" "r \<noteq> NULL" "\<not> b < 0"
      by linarith
    then show ?thesis
    proof cases
      case leaf
      then show ?thesis using rm n d al b by auto
    next
      case pred
      let ?a = "rightmost l"
      from find_rightmost [OF sl(1) pred(1)] obtain xs where a: "avl_find_node l (key ?a) kc = ?a"
          "?a \<noteq> NULL" "inord l = xs @ [(key ?a, val ?a)]"
        by blast
      then have gt: "sint (key_cmp kc k (key ?a)) > 0"
        using sl(3) by (simp add: key_lt_def cmp_flip)
      have xs: "del_assoc kc (key ?a) (inord l) = xs"
        using sl(1) lt_not_eq by (subst a(3), subst del_assoc_append) (auto simp: a(3))
      from left [OF gt a(1,2)] pred(3) xs obtain ch l' b' where
          t: "avl_remove_wrk kc (Node k v l r b) ?a = Some (ch, Node k v l' r b')" "avl (Node k v l' r b')"
             "height (Node k v l r b) = height (Node k v l' r b') + (if ch then 1 else 0)"
             "inord l' = xs" "ch = (b' = 0)"
        by auto
      then have "avl_remove_wrk kc (Node k v l r b) n = Some (ch, Node (key ?a) (val ?a) l' r b')"
        using rm pred by (simp add: Let_def)
      then show ?thesis using t(2-4) n d a(3) by auto
    next
      case succ
      let ?a = "leftmost r"
      from find_leftmost [OF sl(2) succ(2)] obtain xs where a: "avl_find_node r (key ?a) kc = ?a"
          "?a \<noteq> NULL" "inord r = (key ?a, val ?a) # xs"
        by blast
      then have lt: "sint (key_cmp kc k (key ?a)) < 0"
        using sl(4) by (simp add: key_lt_def)
      have xs: "del_assoc kc (key ?a) (inord r) = xs"
        by (subst a(3)) simp
      from right [OF lt a(1,2)] succ(3) xs obtain ch r' b' where
          t: "avl_remove_wrk kc (Node k v l r b) ?a = Some (ch, Node k v l r' b')" "avl (Node k v l r' b')"
             "height (Node k v l r b) = height (Node k v l r' b') + (if ch then 1 else 0)"
             "inord r' = xs" "ch \<longrightarrow> b' = 0"
        by auto
      then have "avl_remove_wrk kc (Node k v l r b) n = Some (ch, Node (key ?a) (val ?a) l r' b')"
        using rm succ by (auto simp: Let_def)
      then show ?thesis using t(2-4) n d a(3) by auto
    qed
  qed
qed (simp add: avl_find_node_eq)

end

interpretation uword_order: key_order "Unboxed (id :: UWord \<Rightarrow> UWord)"
  by unfold_locales (auto simp: cmp_unsigned_Words_def split: if_splits)

definition wfm_ok :: "('k, 'v) WordFM \<Rightarrow> bool" where
  "wfm_ok fm \<longleftrightarrow> avl (root fm) \<and> sorted_keys (kCmp fm) (inord (root fm))"

context key_order begin

lemma cmp_eq_iff: "key_cmp kc a b = 0 \<longleftrightarrow> \<not> key_lt kc a b \<and> \<not> key_lt kc b a"
  using cmp_flip [of a b] sint_eq_0 [of "key_cmp kc a b"] unfolding key_lt_def by linarith

lemma mem_find_assoc: "sorted_keys kc xs \<Longrightarrow> (k, v) \<in> set xs \<Longrightarrow> find_assoc kc k xs = Some (k, v)"
  by (induction xs) (auto dest!: bspec dest: lt_not_eq)

lemma upd_assoc_set: "set (upd_assoc kc a av xs) \<subseteq> {x. key_cmp kc (fst x) a = 0} \<union> set xs"
  by (induction xs) (fastforce split: if_splits)+

lemma upd_assoc_sorted: "sorted_keys kc xs \<Longrightarrow> sorted_keys kc (upd_assoc kc a av xs)"
proof (induction xs)
  case (Cons x xs)
  obtain k v where x: "x = (k, v)" by force
  consider "sint (key_cmp kc k a) > 0" | "sint (key_cmp kc k a) < 0" | "sint (key_cmp kc k a) = 0" by linarith
  then show ?case
  proof cases
    case 1
    then have "key_lt kc a k" by (simp add: cmp_flip key_lt_def)
    then show ?thesis using Cons.prems x 1 by (auto intro: lt_trans)
  next
    case 2
    then have "\<forall>y\<in>set (upd_assoc kc a av xs). key_lt kc k (fst y)"
      using upd_assoc_set [of a av xs] Cons.prems x by (auto simp: key_lt_def dest: cmp_cong2)
    then show ?thesis using Cons x 2 by simp
  qed (use Cons x in auto)
qed simp

lemma del_assoc_set: "set (del_assoc kc a xs) \<subseteq> set xs"
  by (induction xs) (auto split: if_splits)

lemma del_assoc_sorted: "sorted_keys kc xs \<Longrightarrow> sorted_keys kc (del_assoc kc a xs)"
  by (induction xs) (use del_assoc_set in fastforce)+

lemma cmp_eq_trans: "key_cmp kc a b = 0 \<Longrightarrow> key_cmp kc b c = 0 \<longleftrightarrow> key_cmp kc a c = 0"
  using cmp_cong [of a b c] cmp_cong2 [of a b c] by (auto simp: cmp_eq_iff key_lt_def)

lemma cmp_eq_common: "key_cmp kc a b = 0 \<Longrightarrow> key_cmp kc c b = 0 \<Longrightarrow> key_cmp kc c a = 0"
  using cmp_eq_trans cmp_eq_sym by blast

lemma find_upd_assoc:
  "map_option snd (find_assoc kc b (upd_assoc kc a av xs)) =
     (if key_cmp kc a b = 0 then Some av else map_option snd (find_assoc kc b xs))"
proof (induction xs)
  case (Cons x xs)
  have "key_cmp kc (fst x) b = 0 \<Longrightarrow> key_cmp kc a b = 0 \<Longrightarrow> key_cmp kc (fst x) a = 0"
    using cmp_eq_common by blast
  then show ?case
    using Cons by (cases x; cases "key_cmp kc (fst x) a = 0") (auto simp: cmp_eq_trans)
qed simp

lemma find_del_assoc:
  "sorted_keys kc xs \<Longrightarrow> find_assoc kc b (del_assoc kc a xs) = (if key_cmp kc a b = 0 then None else find_assoc kc b xs)"
proof (induction xs)
  case (Cons x xs)
  have "key_cmp kc (fst x) b = 0 \<Longrightarrow> find_assoc kc b xs = None"
    using find_del_none [of xs b] Cons.prems lt_not_eq cmp_eq_trans cmp_eq_sym by fastforce
  then show ?case using Cons by (cases x) (auto simp: cmp_eq_trans dest: cmp_eq_common)
qed simp

lemma lt_asym: "key_lt kc a b \<Longrightarrow> \<not> key_lt kc b a"
  using lt_trans [of a b a] by (auto simp: key_lt_def)

lemma find_assoc_None: "find_assoc kc k xs = None \<Longrightarrow> x \<in> set xs \<Longrightarrow> key_cmp kc (fst x) k \<noteq> 0"
  by (induction xs) (auto split: if_splits)

lemma cmp_sign_cong:
  assumes "key_cmp kc a b = 0"
  shows "sint (key_cmp kc c a) > 0 \<longleftrightarrow> sint (key_cmp kc c b) > 0"
    and "sint (key_cmp kc c a) < 0 \<longleftrightarrow> sint (key_cmp kc c b) < 0"
    and "key_cmp kc c a = 0 \<longleftrightarrow> key_cmp kc c b = 0"
  using cmp_cong [OF assms, of c] cmp_cong2 [OF assms, of c] cmp_eq_trans [OF assms, of c]
    cmp_flip cmp_eq_sym by auto

lemma avl_find_node_cong: "key_cmp kc a b = 0 \<Longrightarrow> avl_find_node t a kc = avl_find_node t b kc"
  by (induction t) (auto simp: avl_find_node_eq Let_def cmp_sign_cong [of a b])

lemma del_assoc_cong: "key_cmp kc a b = 0 \<Longrightarrow> del_assoc kc a xs = del_assoc kc b xs"
  by (induction xs) (auto simp: cmp_sign_cong [of a b])

end

subsection \<open>The contract\<close>

text \<open>What a client may rely on: a map that is read with \<open>lookup\<close>, extended with \<open>add\<close> and
  shrunk with \<open>del\<close>, none of which fails on a well-formed map.\<close>

locale finite_map =
  fixes ok :: "'m \<Rightarrow> bool"
    and same :: "'k \<Rightarrow> 'k \<Rightarrow> bool"
    and lookup :: "'m \<Rightarrow> 'k \<Rightarrow> ('k \<times> 'v) option"
    and add :: "'m \<Rightarrow> 'k \<Rightarrow> 'v \<Rightarrow> (bool \<times> 'm) option"
    and del :: "'m \<Rightarrow> 'k \<Rightarrow> (('k \<times> 'v) option \<times> 'm) option"
    and empty :: 'm
  assumes ok_empty: "ok empty"
    and lookup_empty: "lookup empty k = None"
    and add_total: "ok m \<Longrightarrow> \<exists>m'. add m k v = Some (lookup m k \<noteq> None, m') \<and> ok m'"
    and lookup_add: "ok m \<Longrightarrow> add m k v = Some (b, m') \<Longrightarrow>
      map_option snd (lookup m' j) = (if same k j then Some v else map_option snd (lookup m j))"
    and del_total: "ok m \<Longrightarrow> \<exists>m'. del m k = Some (lookup m k, m') \<and> ok m'"
    and lookup_del: "ok m \<Longrightarrow> del m k = Some (r, m') \<Longrightarrow>
      lookup m' j = (if same k j then None else lookup m j)"
    and lookup_same: "ok m \<Longrightarrow> lookup m k = Some (k', v) \<Longrightarrow> same k k'"
    and same_refl: "same k k"
    and same_sym: "same k j \<longleftrightarrow> same j k"
begin

lemma add_then_lookup:
  assumes "ok m" shows "\<exists>m' k'. add m k v = Some (lookup m k \<noteq> None, m') \<and> ok m' \<and> lookup m' k = Some (k', v)"
proof -
  obtain m' where m': "add m k v = Some (lookup m k \<noteq> None, m')" "ok m'"
    using add_total [OF assms] by blast
  then show ?thesis using lookup_add [OF assms m'(1), of k] same_refl by auto
qed

lemma del_then_add:
  assumes "ok m" "lookup m k = Some (k', v)" "del m k = Some (r, m1)" "add m1 k v = Some (b, m2)"
  shows "\<not> b \<and> map_option snd (lookup m2 j) = (if same k j then Some v else map_option snd (lookup m j))"
  using assms add_total [of m1 k v] del_total [of m k] lookup_add [of m1 k v b m2 j]
    lookup_del [OF assms(1,3)] same_refl
  by auto

end

context key_order begin

lemma wfm_lookup:
  "wfm_ok fm \<Longrightarrow> kCmp fm = kc \<Longrightarrow> VG_lookupFM fm k = find_assoc kc k (inord (root fm))"
  by (simp add: wfm_ok_def VG_lookupFM_def find_node_inord)

lemma wfm_add:
  assumes "wfm_ok fm" "kCmp fm = kc"
  shows "\<exists>fm'. VG_addToFM fm k v = Some (VG_lookupFM fm k \<noteq> None, fm') \<and> wfm_ok fm' \<and> kCmp fm' = kc \<and>
    inord (root fm') = upd_assoc kc k v (inord (root fm))"
proof -
  from assms have a: "avl (root fm)" "sorted_keys kc (inord (root fm))" by (auto simp: wfm_ok_def)
  obtain g old t where t: "avl_insert_wrk kc (root fm) k v = Some (g, old, t)" "avl t"
    using avl_insert_balanced [OF a(1)] by blast
  have "inord t = upd_assoc kc k v (inord (root fm))" "old = map_option snd (find_assoc kc k (inord (root fm)))"
    using insert_inord [OF a t(1)] by auto
  then show ?thesis
    using t assms a by (auto simp: VG_addToFM_def wfm_lookup wfm_ok_def upd_assoc_sorted)
qed

lemma wfm_del:
  assumes "wfm_ok fm" "kCmp fm = kc"
  shows "\<exists>fm'. VG_delFromFM fm k = Some (VG_lookupFM fm k, fm') \<and> wfm_ok fm' \<and> kCmp fm' = kc \<and>
    inord (root fm') = del_assoc kc k (inord (root fm))"
proof (cases "avl_find_node (root fm) k kc")
  case NULL
  have "\<forall>x\<in>set (inord (root fm)). key_cmp kc (fst x) k \<noteq> 0"
    using find_node_inord [of "root fm" k] NULL assms find_assoc_None [of k "inord (root fm)"]
    by (simp add: wfm_ok_def)
  with NULL show ?thesis
    using assms by (auto simp: VG_delFromFM_def VG_lookupFM_def find_del_none)
next
  case (Node nk nv nl nr nb)
  from assms have a: "avl (root fm)" "sorted_keys kc (inord (root fm))" by (auto simp: wfm_ok_def)
  have nk: "key_cmp kc nk k = 0" using find_node_found [OF Node] by simp
  then have f: "avl_find_node (root fm) nk kc = Node nk nv nl nr nb"
    using Node avl_find_node_cong by metis
  obtain ch t where "avl_remove_wrk kc (root fm) (Node nk nv nl nr nb) = Some (ch, t)" "avl t"
      "inord t = del_assoc kc nk (inord (root fm))"
    using remove_inord [OF a, of "Node nk nv nl nr nb"] f by auto
  moreover have "del_assoc kc nk (inord (root fm)) = del_assoc kc k (inord (root fm))"
    using nk del_assoc_cong by blast
  ultimately show ?thesis
    using Node assms a del_assoc_sorted [OF a(2), of k] by (auto simp: VG_delFromFM_def VG_lookupFM_def wfm_ok_def)
qed

end

lemma find_assoc_Some: "find_assoc kc k xs = Some (k', v) \<Longrightarrow> key_cmp kc k' k = 0 \<and> (k', v) \<in> set xs"
  by (induction xs) (auto split: if_splits)

text \<open>Every lawful comparison gives a finite map; equal keys are those that compare equal.\<close>

context key_order begin

lemma wfm_finite_map:
  "finite_map (\<lambda>fm :: ('k, 'v) WordFM. wfm_ok fm \<and> kCmp fm = kc) (\<lambda>a b. key_cmp kc a b = 0)
     VG_lookupFM VG_addToFM VG_delFromFM (VG_newFM kc)"
proof (unfold_locales, goal_cases)
  case 1 show ?case by (simp add: wfm_ok_def VG_newFM_def)
next
  case 2 show ?case by (simp add: VG_lookupFM_def VG_newFM_def avl_find_node_eq)
next
  case (3 m k v) then show ?case using wfm_add [of m k v] by auto
next
  case (4 m k v b m' j)
  then show ?case using wfm_add [of m k v] by (auto simp: wfm_lookup find_upd_assoc)
next
  case (5 m k) then show ?case using wfm_del [of m k] by auto
next
  case (6 m k r m' j)
  then have "sorted_keys kc (inord (root m))" by (auto simp: wfm_ok_def)
  with 6 show ?case using wfm_del [of m k] by (auto simp: wfm_lookup find_del_assoc)
next
  case (7 m k k' v)
  then have "find_assoc kc k (inord (root m)) = Some (k', v)" by (simp add: wfm_lookup)
  from find_assoc_Some [OF this] show ?case using cmp_eq_sym by blast
next
  case 8 show ?case by simp
next
  case 9 show ?case by (rule cmp_eq_sym)
qed

end

lemma uword_same: "(\<lambda>a b :: UWord. key_cmp (Unboxed id) a b = 0) = (=)"
  by (auto simp: fun_eq_iff cmp_unsigned_Words_def)

interpretation uword_map: finite_map
  "\<lambda>fm. wfm_ok fm \<and> kCmp fm = Unboxed (id :: UWord \<Rightarrow> UWord)" "(=)" VG_lookupFM VG_addToFM VG_delFromFM
  "VG_newFM (Unboxed id)"
  using uword_order.wfm_finite_map unfolding uword_same .

subsection \<open>iteration\<close>

fun entry_rest :: "('k, 'v) AvlNode \<times> nat \<Rightarrow> ('k \<times> 'v) list" where
  "entry_rest (NULL, i) = []"
| "entry_rest (Node k v l r b, i) =
    (if i = 1 then inord (Node k v l r b) else if i = 2 then (k, v) # inord r else inord r)"

definition stack_rest :: "('k, 'v) iter_stack \<Rightarrow> ('k \<times> 'v) list" where
  "stack_rest st = concat (map entry_rest st)"

text \<open>Every entry has room above it for the left spine of its subtree.\<close>

fun stack_ok :: "('k, 'v) iter_stack \<Rightarrow> bool" where
  "stack_ok [] = True"
| "stack_ok ((n, i) # st) =
    (n \<noteq> NULL \<and> 1 \<le> i \<and> i \<le> 3 \<and> length st + height n \<le> WFM_STKMAX \<and> stack_ok st)"

lemma stack_rest_simps [simp]:
  "stack_rest [] = []" "stack_rest (e # st) = entry_rest e @ stack_rest st"
  by (simp_all add: stack_rest_def)

lemma stack_ok_length: "stack_ok st \<Longrightarrow> length st \<le> WFM_STKMAX"
proof (cases st)
  case (Cons e st')
  assume "stack_ok st"
  moreover obtain n i where "e = (n, i)" by force
  ultimately show ?thesis using Cons by (cases n) auto
qed simp

lemma stackPop_ok [asserts]:
  "stack_ok ((n, i) # st) \<Longrightarrow> stackPop ((n, i) # st) = Some (Some (n, i), st)"
  using stack_ok_length [of "(n, i) # st"] by (auto simp: stackPop_def)

lemma stackPush_ok [asserts]:
  "length st < WFM_STKMAX \<Longrightarrow> 1 \<le> i \<Longrightarrow> i \<le> 3 \<Longrightarrow> stackPush st n i = Some ((n, i) # st)"
  by (simp add: stackPush_def)

lemma iter_case_1_ok:
  "stack_ok st \<Longrightarrow> n \<noteq> NULL \<Longrightarrow> length st + height n \<le> WFM_STKMAX \<Longrightarrow>
    \<exists>m st'. iter_case_1 st n = Some ((m, 2) # st') \<and> stack_ok ((m, 2) # st') \<and>
      stack_rest ((m, 2) # st') = inord n @ stack_rest st"
proof (induction st n rule: iter_case_1.induct)
  case (2 st k v l r b)
  then have p: "stackPush st (Node k v l r b) 2 = Some ((Node k v l r b, 2) # st)"
    by (intro stackPush_ok) auto
  show ?case
  proof (cases "l = NULL")
    case True
    then show ?thesis using 2 p by simp
  next
    case False
    have "stack_ok ((Node k v l r b, 2) # st)" using 2 by simp
    moreover have "length ((Node k v l r b, 2::nat) # st) + height l \<le> WFM_STKMAX" using 2 by simp
    ultimately show ?thesis
      using "2.IH" [OF p False _ False] p False by auto
  qed
qed simp

lemma nextIter_loop_2:
  assumes "stack_ok ((n, 2) # st)"
  shows "\<exists>kv st'. nextIter_loop ((n, 2) # st) = Some (Some kv, st') \<and> stack_ok st' \<and>
    stack_rest ((n, 2) # st) = kv # stack_rest st'"
proof -
  from assms obtain k v l r b where n: "n = Node k v l r b" by (cases n) auto
  then show ?thesis
    using assms stackPop_ok [OF assms] stackPush_ok [of st 3 n]
    by (auto simp: nextIter_loop.simps [of "(Node k v l r b, 2) # st"])
qed

lemma nextIter_loop_ok:
  "stack_ok st \<Longrightarrow> \<exists>st'. stack_ok st' \<and>
    (case stack_rest st of
       [] \<Rightarrow> nextIter_loop st = Some (None, st')
     | kv # rest \<Rightarrow> nextIter_loop st = Some (Some kv, st') \<and> stack_rest st' = rest)"
proof (induction st)
  case Nil
  then show ?case
    by (simp add: nextIter_loop.simps [of "[]"] stackPop_def)
next
  case (Cons e st)
  from Cons.prems obtain k v l r b i where e: "e = (Node k v l r b, i)" "1 \<le> i" "i \<le> 3"
    by (cases e; cases "fst e") auto
  then have i: "i = 1 \<or> i = 2 \<or> i = 3" by linarith
  have st: "stack_ok st" and room: "length st + height (Node k v l r b) \<le> WFM_STKMAX"
    using Cons.prems e by auto
  note pop = stackPop_ok [OF Cons.prems [unfolded e]]
  note unfold = nextIter_loop.simps [of "e # st"]
  consider (one) "i = 1" | (two) "i = 2" | (three) "i = 3" "r \<noteq> NULL" | (skip) "i = 3" "r = NULL"
    using i by auto
  then show ?case
  proof cases
    case one
    then obtain m st1 where m: "iter_case_1 st (Node k v l r b) = Some ((m, 2) # st1)" "stack_ok ((m, 2) # st1)"
        "stack_rest ((m, 2) # st1) = inord (Node k v l r b) @ stack_rest st"
      using iter_case_1_ok [OF st _ room] by blast
    then show ?thesis
      using nextIter_loop_2 [OF m(2)] one e pop unfold by (auto simp del: iter_case_1.simps)
  next
    case two
    then show ?thesis using nextIter_loop_2 Cons.prems e by fastforce
  next
    case three
    from room have "length st + height r \<le> WFM_STKMAX" by simp
    then obtain m st1 where m: "iter_case_1 st r = Some ((m, 2) # st1)" "stack_ok ((m, 2) # st1)"
        "stack_rest ((m, 2) # st1) = inord r @ stack_rest st"
      using iter_case_1_ok [OF st three(2)] by blast
    then show ?thesis
      using nextIter_loop_2 [OF m(2)] three e pop unfold by (auto simp del: iter_case_1.simps)
  next
    case skip
    then have "nextIter_loop (e # st) = nextIter_loop st" and "entry_rest e = []"
      using e pop unfold by simp_all
    then show ?thesis using Cons.IH [OF st] by (auto split: list.splits)
  qed
qed

lemma iter_yields_rest: "stack_ok (iterStack fm) \<Longrightarrow> iter_yields fm (stack_rest (iterStack fm))"
proof (induction "stack_rest (iterStack fm)" arbitrary: fm)
  case Nil
  then show ?case
    using nextIter_loop_ok [OF Nil.prems] by (auto simp: iter_yields_Nil VG_nextIterFM_def)
next
  case (Cons kv rest)
  have sr: "stack_rest (iterStack fm) = kv # rest"
    using Cons.hyps(2) by (rule sym)
  from nextIter_loop_ok [OF Cons.prems, unfolded sr list.case] obtain st' where
      st': "nextIter_loop (iterStack fm) = Some (Some kv, st')" "stack_rest st' = rest" "stack_ok st'"
    by blast
  let ?fm = "fm\<lparr>iterStack := st'\<rparr>"
  have r: "rest = stack_rest (iterStack ?fm)" and "stack_ok (iterStack ?fm)"
    using st'(2,3) by simp_all
  then have "iter_yields ?fm rest"
    using Cons.hyps(1) [OF r] unfolding r [symmetric] by blast
  moreover have "VG_nextIterFM fm = Some (Some kv, fm\<lparr>iterStack := st'\<rparr>)"
    using st'(1) by (simp add: VG_nextIterFM_def)
  ultimately show ?case
    unfolding sr by (intro produces)
qed

lemma init_iter_ok:
  assumes "height (root fm) \<le> WFM_STKMAX"
  shows "\<exists>fm'. VG_initIterFM fm = Some fm' \<and> root fm' = root fm \<and> iter_yields fm' (inord (root fm))"
proof (cases "root fm = NULL")
  case True
  then show ?thesis
    using iter_yields_rest [of "fm\<lparr>iterStack := []\<rparr>"] by (simp add: VG_initIterFM_def)
next
  case False
  have "stackPush [] (root fm) 1 = Some [(root fm, 1)]"
    by (simp add: stackPush_def WFM_STKMAX_def)
  moreover have "iter_yields (fm\<lparr>iterStack := [(root fm, 1)]\<rparr>) (inord (root fm))"
    using iter_yields_rest [of "fm\<lparr>iterStack := [(root fm, 1)]\<rparr>"] False assms by (cases "root fm") auto
  ultimately show ?thesis
    using False by (simp add: VG_initIterFM_def)
qed

lemma iter_yields_det: "iter_yields fm xs \<Longrightarrow> iter_yields fm ys \<Longrightarrow> xs = ys"
proof (induction arbitrary: ys rule: iter_yields.induct)
  case (exhausted fm fm')
  then show ?case by (cases ys) (auto simp: iter_yields_Cons)
next
  case (produces fm kv fm' kvs)
  from produces.prems show ?case
  proof (cases rule: iter_yields.cases)
    case exhausted
    with produces.hyps(1) show ?thesis by simp
  next
    case (produces kv1 fm1 kvs1)
    with produces.hyps(1) show ?thesis using \<open>\<And>ys. iter_yields fm' ys \<Longrightarrow> kvs = ys\<close> by simp
  qed
qed

context key_order begin

lemma initIterAt_loop_ok:
  assumes "sorted_keys kc (inord t)" "stack_ok st" "length st + height t \<le> WFM_STKMAX"
  shows "\<exists>st'. initIterAt_loop kc t start st = Some st' \<and> stack_ok st' \<and>
    stack_rest st' = filter (\<lambda>x. \<not> key_lt kc (fst x) start) (inord t) @ stack_rest st"
  using assms
proof (induction t arbitrary: st)
  case (Node k v l r b)
  from Node.prems have sl: "sorted_keys kc (inord l)" "sorted_keys kc (inord r)"
      "\<forall>x\<in>set (inord l). key_lt kc (fst x) k" "\<forall>y\<in>set (inord r). key_lt kc k (fst y)"
    and room: "length st + height l < WFM_STKMAX" "length st + height r < WFM_STKMAX"
    by auto
  have p: "stackPush st (Node k v l r b) 2 = Some ((Node k v l r b, 2) # st)"
    using room by (intro stackPush_ok) auto
  have ok2: "stack_ok ((Node k v l r b, 2) # st)" using Node.prems by simp
  consider (eq) "key_cmp kc k start = 0" | (gt) "sint (key_cmp kc k start) > 0" | (lt) "sint (key_cmp kc k start) < 0"
    by (metis linorder_neqE_linordered_idom sint_eq_0)
  then show ?case
  proof cases
    case eq
    have "filter (\<lambda>x. \<not> key_lt kc (fst x) start) (inord l) = []"
      using sl(3) cmp_cong2 [OF eq] by (auto simp: key_lt_def filter_empty_conv)
    moreover have "filter (\<lambda>x. \<not> key_lt kc (fst x) start) (inord r) = inord r"
      using sl(4) cmp_cong2 [OF eq] lt_asym unfolding key_lt_def by (intro filter_True) blast
    moreover have "\<not> key_lt kc k start" using eq by (simp add: key_lt_def)
    ultimately show ?thesis
      using p ok2 eq by simp
  next
    case gt
    then have "key_lt kc start k" by (simp add: key_lt_def cmp_flip)
    then have "\<forall>x\<in>set ((k, v) # inord r). \<not> key_lt kc (fst x) start"
      using sl(4) lt_asym [of start] lt_trans [of start k] by auto
    then have "filter (\<lambda>x. \<not> key_lt kc (fst x) start) ((k, v) # inord r) = (k, v) # inord r"
      by (rule filter_True)
    moreover obtain st' where "initIterAt_loop kc l start ((Node k v l r b, 2) # st) = Some st'" "stack_ok st'"
       "stack_rest st' = filter (\<lambda>x. \<not> key_lt kc (fst x) start) (inord l) @ stack_rest ((Node k v l r b, 2) # st)"
      using Node.IH(1) [OF sl(1) ok2] room(1) by auto
    ultimately show ?thesis
      using p gt by (auto simp: sign_shift Let_def)
  next
    case lt
    then have "\<forall>x\<in>set (inord l @ [(k, v)]). key_lt kc (fst x) start"
      using sl(3) lt_trans by (auto simp: key_lt_def)
    then have "filter (\<lambda>x. \<not> key_lt kc (fst x) start) (inord l @ [(k, v)]) = []"
      by (auto simp: filter_empty_conv)
    moreover obtain st' where "initIterAt_loop kc r start st = Some st'" "stack_ok st'"
       "stack_rest st' = filter (\<lambda>x. \<not> key_lt kc (fst x) start) (inord r) @ stack_rest st"
      using Node.IH(2) [OF sl(2) Node.prems(2)] room(2) by auto
    ultimately show ?thesis
      using lt by (auto simp: sign_shift Let_def)
  qed
qed simp

end

subsection \<open>Depth\<close>

text \<open>The least number of nodes of an AVL tree of depth \<open>h\<close> and of depth \<open>h + 1\<close>.\<close>

primrec avl_min :: "nat \<Rightarrow> nat \<times> nat" where
  "avl_min 0 = (0, 1)"
| "avl_min (Suc h) = (case avl_min h of (a, b) \<Rightarrow> (b, 1 + a + b))"

lemma avl_min_Suc: "fst (avl_min (Suc h)) = snd (avl_min h)"
  by (simp add: case_prod_beta)

lemma avl_min_mono: "fst (avl_min h) \<le> fst (avl_min (h + d)) \<and> fst (avl_min h) \<le> snd (avl_min h)"
proof -
  have s: "fst (avl_min h) \<le> snd (avl_min h)" for h
    by (cases h) (auto simp: case_prod_beta)
  have "fst (avl_min h) \<le> fst (avl_min (h + d))"
    by (induction d) (use s avl_min_Suc order_trans in \<open>force+\<close>)
  with s show ?thesis by simp
qed

lemma avl_min_size: "avl t \<Longrightarrow> fst (avl_min (height t)) \<le> length (inord t)"
proof (induction t)
  case (Node k v l r b)
  define h where "h = max (height l) (height r)"
  have lr: "fst (avl_min (height l)) \<le> length (inord l)" "fst (avl_min (height r)) \<le> length (inord r)"
    using Node by auto
  have hh: "h = height l \<or> h = height r" "h - 1 \<le> height l" "h - 1 \<le> height r"
    using Node.prems by (auto simp: h_def)
  have mono: "fst (avl_min (h - 1)) \<le> fst (avl_min x)" if "h - 1 \<le> x" for x
    using avl_min_mono [of "h - 1" "x - (h - 1)"] that by simp
  have "snd (avl_min h) \<le> Suc (fst (avl_min (h - 1)) + fst (avl_min h))"
    by (cases h) (auto simp: case_prod_beta avl_min_Suc)
  also have "\<dots> \<le> Suc (length (inord l) + length (inord r))"
    using hh(1) lr mono [OF hh(2)] mono [OF hh(3)] by auto
  finally show ?case using avl_min_Suc [of h] by (simp add: h_def)
qed simp

text \<open>The same recurrence with accumulators, which evaluates in linear time.\<close>

primrec avl_from :: "nat \<Rightarrow> nat \<Rightarrow> nat \<Rightarrow> nat" where
  "avl_from 0 a b = a"
| "avl_from (Suc h) a b = avl_from h b (1 + a + b)"

lemma avl_from_min: "avl_from h (fst (avl_min j)) (snd (avl_min j)) = fst (avl_min (h + j))"
proof (induction h arbitrary: j)
  case (Suc h)
  show ?case using Suc [of "Suc j"] by (simp add: case_prod_beta)
qed simp

lemma avl_from_numeral: "avl_from (numeral n) a b = avl_from (pred_numeral n) b (1 + a + b)"
  by (simp add: numeral_eq_Suc)

lemma avl_min_33: "fst (avl_min 33) = 9227464"
proof -
  have two: "avl_min 2 = (2, 4)" by (simp add: numeral_2_eq_2)
  have "fst (avl_min (31 + 2)) = avl_from 31 2 4"
    using avl_from_min [of 31 2] by (simp only: two fst_conv snd_conv)
  also have "\<dots> = 9227464" by (simp add: avl_from_numeral)
  finally show ?thesis by (simp only: numeral_plus_numeral add_num_simps)
qed

lemma avl_depth_32:
  assumes "avl t" "length (inord t) < 9227464" shows "height t \<le> WFM_STKMAX"
proof (rule ccontr)
  assume "\<not> height t \<le> WFM_STKMAX"
  then have "33 \<le> height t" by (simp add: WFM_STKMAX_def)
  then have "fst (avl_min 33) \<le> fst (avl_min (height t))"
    using avl_min_mono [of 33 "height t - 33"] by simp
  then show False using avl_min_size [OF assms(1)] assms(2) avl_min_33 by simp
qed

text \<open>The sparsest tree of depth \<open>h\<close>, its deeper subtrees to the left.\<close>

fun fib_tree :: "nat \<Rightarrow> nat \<Rightarrow> (UWord, UWord) AvlNode" where
  "fib_tree 0 i = NULL"
| "fib_tree (Suc 0) i = Node (of_nat i) 0 NULL NULL 0"
| "fib_tree (Suc (Suc h)) i =
    (let n = fst (avl_min (Suc h)) in
     Node (of_nat (i + n)) 0 (fib_tree (Suc h) i) (fib_tree h (i + n + 1)) (-1))"

lemma fib_tree_height: "height (fib_tree h i) = h"
  by (induction h i rule: fib_tree.induct) (auto simp: Let_def)

lemma fib_tree_avl: "avl (fib_tree h i)"
  by (induction h i rule: fib_tree.induct) (auto simp: Let_def fib_tree_height)

lemma upt_split3: "[i..<i + (m + 1 + n)] = [i..<i + m] @ (i + m) # [i + m + 1..<i + m + 1 + n]"
proof -
  have "[i..<(i + m) + (1 + n)] = [i..<i + m] @ [i + m..<(i + m) + (1 + n)]"
    by (rule upt_add_eq_append) simp
  moreover have "[i + m..<(i + m) + (1 + n)] = (i + m) # [Suc (i + m)..<(i + m) + (1 + n)]"
    by (rule upt_conv_Cons) simp
  ultimately show ?thesis by (simp only: add.assoc Suc_eq_plus1)
qed

lemma fib_tree_keys: "map fst (inord (fib_tree h i)) = map of_nat [i..<i + fst (avl_min h)]"
proof (induction h i rule: fib_tree.induct)
  case (3 h i)
  define m n where m: "m = fst (avl_min (Suc h))" and n: "n = fst (avl_min h)"
  have f: "fst (avl_min (Suc (Suc h))) = m + 1 + n"
    by (simp add: m n case_prod_beta)
  have t: "fib_tree (Suc (Suc h)) i
      = Node (of_nat (i + m)) 0 (fib_tree (Suc h) i) (fib_tree h (i + m + 1)) (-1)"
    by (simp add: m Let_def)
  show ?case
    using 3(1) [OF refl] 3(2) [OF refl] unfolding f t upt_split3 m [symmetric] n [symmetric]
    by (simp only: inord.simps map_append list.map fst_conv)
qed auto

lemma fib_tree_size: "length (inord (fib_tree h i)) = fst (avl_min h)"
  using arg_cong [OF fib_tree_keys, of length h i] by simp

lemma sorted_keys_map: "sorted_keys kc xs \<longleftrightarrow> sorted_wrt (key_lt kc) (map fst xs)"
  by (simp add: sorted_keys_def sorted_wrt_map)

lemma fib_tree_sorted:
  assumes "i + fst (avl_min h) \<le> 2 ^ 64"
  shows "sorted_keys (Unboxed id) (inord (fib_tree h i))"
proof -
  have lt: "key_lt (Unboxed id) (of_nat x :: UWord) (of_nat y)" if "x < y" "y < 2 ^ 64" for x y
    using that by (simp add: key_lt_def cmp_unsigned_Words_def wlift unsigned_of_nat take_bit_nat_eq_self)
  have "sorted_wrt (\<lambda>x y. key_lt (Unboxed id) (of_nat x :: UWord) (of_nat y)) [i..<i + fst (avl_min h)]"
    by (rule sorted_wrt_mono_rel [OF _ sorted_wrt_upt]) (use assms lt in auto)
  then show ?thesis
    by (simp add: sorted_keys_map fib_tree_keys sorted_wrt_map)
qed

lemma fib_tree_overflow:
  "0 < h \<Longrightarrow> WFM_STKMAX < length st + h \<Longrightarrow> iter_case_1 st (fib_tree h i) = None"
proof (induction h i arbitrary: st rule: fib_tree.induct)
  case (3 h i)
  have "fib_tree (Suc h) i \<noteq> NULL" using fib_tree_height [of "Suc h" i] by auto
  then show ?case
    using 3 by (auto simp: stackPush_def Let_def)
qed (auto simp: stackPush_def)

lemma avl_dopy_id:
  "avl_dopy t None None = t"
  by (induction t) auto

lemma avl_dopy_map:
  assumes "\<And>w. w \<noteq> 0 \<Longrightarrow> f w \<noteq> 0" "\<And>w. w \<noteq> 0 \<Longrightarrow> g w \<noteq> 0"
  shows "inord (avl_dopy t (Some f) (Some g)) = map (map_prod f g) (inord t) \<and>
    (t \<noteq> NULL \<longrightarrow> avl_dopy t (Some f) (Some g) \<noteq> NULL)"
  using assms by (induction t) auto

subsection \<open>Properties\<close>

text \<open>C3. Adding a binding to a well-formed map (keys ordered by a lawful \<^verbatim>\<open>kCmp\<close>, tree
  balanced) never fails an assertion, keeps the map well-formed, reports whether the key was
  there, and afterwards every equal key looks up the new value and every other key what it
  looked up before.\<close>

theorem addToFM_correct:
  assumes "key_order kc" "wfm_ok fm" "kCmp fm = kc"
  shows "\<exists>fm'. VG_addToFM fm k v = Some (VG_lookupFM fm k \<noteq> None, fm') \<and> wfm_ok fm' \<and> kCmp fm' = kc \<and>
    (\<forall>j. map_option snd (VG_lookupFM fm' j) =
       (if key_cmp kc k j = 0 then Some v else map_option snd (VG_lookupFM fm j)))"
proof -
  obtain fm' where fm': "VG_addToFM fm k v = Some (VG_lookupFM fm k \<noteq> None, fm')" "wfm_ok fm'" "kCmp fm' = kc"
      "inord (root fm') = upd_assoc kc k v (inord (root fm))"
    using key_order.wfm_add [OF assms] by blast
  have "VG_lookupFM fm' j = find_assoc kc j (upd_assoc kc k v (inord (root fm)))"
    "VG_lookupFM fm j = find_assoc kc j (inord (root fm))" for j
    using key_order.wfm_lookup [OF assms(1) fm'(2,3)] key_order.wfm_lookup [OF assms] fm'(4) by simp_all
  then show ?thesis
    using fm'(1-3) by (simp add: key_order.find_upd_assoc [OF assms(1)] del: map_option_eq_Some)
qed

theorem addToFM_correct_witness:
  "\<exists>fm'. VG_addToFM (VG_newFM (Unboxed id) :: (UWord, UWord) WordFM) 3 7 = Some (False, fm') \<and>
     map_option snd (VG_lookupFM fm' 3) = Some 7"
proof -
  let ?fm = "VG_newFM (Unboxed id) :: (UWord, UWord) WordFM"
  have "wfm_ok ?fm" "kCmp ?fm = Unboxed id"
    by (simp_all add: wfm_ok_def VG_newFM_def)
  from addToFM_correct [OF uword_order.key_order_axioms this, of 3 7] obtain fm' where
      fm': "VG_addToFM ?fm 3 7 = Some (VG_lookupFM ?fm 3 \<noteq> None, fm')"
      and l: "\<forall>j. map_option snd (VG_lookupFM fm' j) =
        (if key_cmp (Unboxed id) 3 j = 0 then Some 7 else map_option snd (VG_lookupFM ?fm j))"
    by blast
  have "map_option snd (VG_lookupFM fm' 3) = Some 7"
    using l by (simp add: cmp_unsigned_Words_def del: map_option_eq_Some)
  moreover have "VG_lookupFM ?fm 3 = None"
    by (rule uword_map.lookup_empty)
  ultimately show ?thesis
    using fm' by (intro exI [of _ fm']) (simp del: map_option_eq_Some)
qed

text \<open>C4. Deleting a key from a well-formed map never fails an assertion (in particular the
  node found by the search is the one the removal reaches), returns the binding that was
  there, keeps the map well-formed, and afterwards no equal key is bound and every other key
  is bound as before.\<close>

theorem delFromFM_correct:
  assumes "key_order kc" "wfm_ok fm" "kCmp fm = kc"
  shows "\<exists>fm'. VG_delFromFM fm k = Some (VG_lookupFM fm k, fm') \<and> wfm_ok fm' \<and> kCmp fm' = kc \<and>
    (\<forall>j. VG_lookupFM fm' j = (if key_cmp kc k j = 0 then None else VG_lookupFM fm j))"
proof -
  obtain fm' where fm': "VG_delFromFM fm k = Some (VG_lookupFM fm k, fm')" "wfm_ok fm'" "kCmp fm' = kc"
      "inord (root fm') = del_assoc kc k (inord (root fm))"
    using key_order.wfm_del [OF assms] by blast
  moreover have "sorted_keys kc (inord (root fm))" using assms by (simp add: wfm_ok_def)
  moreover have "VG_lookupFM fm' j = find_assoc kc j (del_assoc kc k (inord (root fm)))"
    "VG_lookupFM fm j = find_assoc kc j (inord (root fm))" for j
    using key_order.wfm_lookup [OF assms(1) fm'(2,3)] key_order.wfm_lookup [OF assms] fm'(4) by simp_all
  ultimately show ?thesis
    by (simp add: key_order.find_del_assoc [OF assms(1)])
qed

theorem delFromFM_correct_witness:
  "\<exists>fm'. VG_delFromFM \<lparr>root = Node (5 :: UWord) (6 :: UWord) NULL NULL 0, kCmp = Unboxed id, iterStack = []\<rparr> 5
     = Some (Some (5, 6), fm') \<and> VG_lookupFM fm' 5 = None"
proof -
  let ?fm = "\<lparr>root = Node (5 :: UWord) (6 :: UWord) NULL NULL 0, kCmp = Unboxed id, iterStack = []\<rparr>"
  have "wfm_ok ?fm" by (simp add: wfm_ok_def)
  from delFromFM_correct [OF uword_order.key_order_axioms this, of 5] show ?thesis
    by (auto simp: VG_lookupFM_def avl_find_node_eq cmp_unsigned_Words_def)
qed

text \<open>C39. Iterating over a balanced map of fewer than 9227464 entries with
  \<^verbatim>\<open>VG_(initIterFM)\<close> and repeated \<^verbatim>\<open>VG_(nextIterFM)\<close> never overflows the 32-entry stack and
  produces exactly the bindings of the map, in increasing key order, and then stops.\<close>

theorem iteration_in_order:
  assumes "wfm_ok fm" "length (inord (root fm)) < 9227464"
  shows "\<exists>fm'. VG_initIterFM fm = Some fm' \<and> iter_yields fm' (inord (root fm)) \<and>
    sorted_keys (kCmp fm) (inord (root fm))"
  using init_iter_ok [OF avl_depth_32] assms by (auto simp: wfm_ok_def)

theorem iteration_in_order_witness:
  "\<exists>fm'. VG_initIterFM \<lparr>root = Node (5 :: UWord) (6 :: UWord) (Node 2 3 NULL NULL 0) NULL (-1),
      kCmp = Unboxed id, iterStack = []\<rparr> = Some fm' \<and> iter_yields fm' [(2, 3), (5, 6)]"
proof -
  let ?fm = "\<lparr>root = Node (5 :: UWord) (6 :: UWord) (Node 2 3 NULL NULL 0) NULL (-1),
      kCmp = Unboxed id, iterStack = []\<rparr>"
  have "wfm_ok ?fm" by (simp add: wfm_ok_def key_lt_def cmp_unsigned_Words_def)
  from iteration_in_order [OF this] show ?thesis by auto
qed

text \<open>After \<^verbatim>\<open>VG_(initIterAtFM)(fm, start_at)\<close> the iteration produces exactly the bindings
  whose key is not below \<^verbatim>\<open>start_at\<close>, in order, whether or not that key is present.\<close>

lemma iterationAt_in_order:
  assumes "key_order kc" "wfm_ok fm" "kCmp fm = kc" "length (inord (root fm)) < 9227464"
  shows "\<exists>fm'. VG_initIterAtFM fm start_at = Some fm' \<and>
    iter_yields fm' (filter (\<lambda>x. \<not> key_lt kc (fst x) start_at) (inord (root fm)))"
proof (cases "root fm = NULL")
  case True
  then show ?thesis
    using iter_yields_rest [of "fm\<lparr>iterStack := []\<rparr>"] by (simp add: VG_initIterAtFM_def)
next
  case False
  from assms have "sorted_keys kc (inord (root fm))" "length [] + height (root fm) \<le> WFM_STKMAX"
    using avl_depth_32 by (auto simp: wfm_ok_def)
  from key_order.initIterAt_loop_ok [OF assms(1) this(1) _ this(2), of start_at]
  obtain st where st: "initIterAt_loop kc (root fm) start_at [] = Some st" "stack_ok st"
      "stack_rest st = filter (\<lambda>x. \<not> key_lt kc (fst x) start_at) (inord (root fm))"
    by auto
  then show ?thesis
    using iter_yields_rest [of "fm\<lparr>iterStack := st\<rparr>"] False assms(3) by (simp add: VG_initIterAtFM_def)
qed

text \<open>The branch-free search of \<^verbatim>\<open>avl_find_node\<close> for unboxed keys, which indexes
  \<^verbatim>\<open>child[]\<close> with the sign bit of the comparison, finds the same node as the three-way search
  for boxed keys run with the unsigned comparison.\<close>

lemma find_node_unboxed_boxed:
  "avl_find_node t k (Unboxed w) = avl_find_node t k (Boxed (\<lambda>a b. cmp_unsigned_Words (w a) (w b)))"
  by (simp add: avl_find_node_eq key_cmp_Unboxed)

text \<open>C40. The 32-entry iterator stack is not enough for every map of up to \<open>2\<^sup>3\<^sup>2\<close> entries:
  there is a well-formed map of 9227464 entries on which the first \<^verbatim>\<open>VG_(nextIterFM)\<close> fails
  the assertion of \<^verbatim>\<open>stackPush\<close>.\<close>

theorem iteration_overflow:
  "\<exists>fm :: (UWord, UWord) WordFM. wfm_ok fm \<and> kCmp fm = Unboxed id \<and>
     length (inord (root fm)) = 9227464 \<and>
     (\<exists>fm'. VG_initIterFM fm = Some fm' \<and> VG_nextIterFM fm' = None)"
proof -
  define t where "t = fib_tree 33 0"
  have t0: "t \<noteq> NULL" using fib_tree_height [of 33 0] by (auto simp: t_def)
  have "iter_case_1 [] t = None"
    unfolding t_def by (rule fib_tree_overflow) (simp_all add: WFM_STKMAX_def)
  then have "nextIter_loop [(t, 1)] = None"
    using t0 by (cases t) (simp_all add: nextIter_loop.simps [of "[(_, Suc 0)]"] stackPop_def
      WFM_STKMAX_def del: iter_case_1.simps)
  then have "VG_nextIterFM \<lparr>root = t, kCmp = Unboxed id, iterStack = [(t, 1)]\<rparr> = None"
    by (simp add: VG_nextIterFM_def)
  moreover have "VG_initIterFM \<lparr>root = t, kCmp = Unboxed id, iterStack = []\<rparr>
      = Some \<lparr>root = t, kCmp = Unboxed id, iterStack = [(t, 1)]\<rparr>"
    using t0 by (simp add: VG_initIterFM_def stackPush_def WFM_STKMAX_def)
  moreover have "wfm_ok \<lparr>root = t, kCmp = Unboxed id, iterStack = []\<rparr>"
    using fib_tree_avl [of 33 0] fib_tree_sorted [of 0 33] avl_min_33 by (simp add: wfm_ok_def t_def)
  moreover have "length (inord t) = 9227464"
    by (simp add: t_def fib_tree_size avl_min_33)
  ultimately show ?thesis by (intro exI [of _ "\<lparr>root = t, kCmp = Unboxed id, iterStack = []\<rparr>"]) simp
qed

end
