(* ===== verification/WordBag.thy ===== *)
theory WordBag
  imports WordFM_Correct
begin

text \<open>
  The \<^verbatim>\<open>WordBag\<close> of \<^verbatim>\<open>coregrind/m_wordfm.c\<close>: a multiset of words kept as a map from a word
  to its number of occurrences. The bag uses the map only through the contract
  \<open>finite_map\<close>, interpreted as \<open>uword_map\<close>.
\<close>

type_synonym WordBag = "(UWord, UWord) WordFM"

definition VG_newBag :: WordBag where
  "VG_newBag = VG_newFM (Unboxed id)"

definition VG_addToBag :: "WordBag \<Rightarrow> UWord \<Rightarrow> WordBag option" where
  "VG_addToBag bag w = (case VG_lookupFM bag w of
     Some (k, count) \<Rightarrow> do {
       vg_assert (k = w);
       vg_assert (count \<ge> 1);
       (_, bag') \<leftarrow> VG_addToFM bag w (count + 1);
       Some bag' }
   | None \<Rightarrow> do { (_, bag') \<leftarrow> VG_addToFM bag w 1; Some bag' })"

definition VG_elemBag :: "WordBag \<Rightarrow> UWord \<Rightarrow> UWord option" where
  "VG_elemBag bag w = (case VG_lookupFM bag w of
     Some (k, count) \<Rightarrow> do { vg_assert (k = w); vg_assert (count \<ge> 1); Some count }
   | None \<Rightarrow> Some 0)"

definition VG_sizeUniqueBag :: "WordBag \<Rightarrow> UWord" where
  "VG_sizeUniqueBag bag = VG_sizeFM bag"

fun sizeTotalBag_wrk :: "(UWord, UWord) AvlNode \<Rightarrow> UWord option" where
  "sizeTotalBag_wrk NULL = None"
| "sizeTotalBag_wrk (Node k w l r b) = do {
     vg_assert (w \<ge> 1);
     wl \<leftarrow> (if l \<noteq> NULL then sizeTotalBag_wrk l else Some 0);
     wr \<leftarrow> (if r \<noteq> NULL then sizeTotalBag_wrk r else Some 0);
     Some (w + wl + wr) }"

definition VG_sizeTotalBag :: "WordBag \<Rightarrow> UWord option" where
  "VG_sizeTotalBag bag = (if root bag \<noteq> NULL then sizeTotalBag_wrk (root bag) else Some 0)"

definition VG_delFromBag :: "WordBag \<Rightarrow> UWord \<Rightarrow> (bool \<times> WordBag) option" where
  "VG_delFromBag bag w = (case VG_lookupFM bag w of
     Some (k, count) \<Rightarrow> do {
       vg_assert (k = w);
       vg_assert (count \<ge> 1);
       if count > 1 then do { (_, bag') \<leftarrow> VG_addToFM bag w (count - 1); Some (True, bag') }
       else do { vg_assert (count = 1); (_, bag') \<leftarrow> VG_delFromFM bag w; Some (True, bag') } }
   | None \<Rightarrow> Some (False, bag))"

definition VG_isEmptyBag :: "WordBag \<Rightarrow> bool" where
  "VG_isEmptyBag bag \<longleftrightarrow> VG_sizeFM bag = 0"

definition VG_isSingletonTotalBag :: "WordBag \<Rightarrow> bool option" where
  "VG_isSingletonTotalBag bag =
     (if VG_sizeFM bag \<noteq> 1 then Some False
      else (case root bag of NULL \<Rightarrow> None
        | Node k v l r b \<Rightarrow> do { vg_assert (l = NULL); vg_assert (r = NULL); Some (v = 1) }))"

definition VG_anyElementOfBag :: "WordBag \<Rightarrow> UWord option" where
  "VG_anyElementOfBag bag = (case root bag of NULL \<Rightarrow> None
     | Node k v l r b \<Rightarrow> do { vg_assert (v \<ge> 1); Some k })"

definition VG_deleteBag :: "WordBag \<Rightarrow> (UWord, UWord) fin_call list" where
  "VG_deleteBag bag = VG_deleteFM bag False False"

definition VG_initIterBag :: "WordBag \<Rightarrow> WordBag option" where
  "VG_initIterBag bag = VG_initIterFM bag"

definition VG_nextIterBag :: "WordBag \<Rightarrow> ((UWord \<times> UWord) option \<times> WordBag) option" where
  "VG_nextIterBag bag = VG_nextIterFM bag"

subsection \<open>Well-formed bags and the multiset they stand for\<close>

definition bag_ok :: "WordBag \<Rightarrow> bool" where
  "bag_ok bag \<longleftrightarrow> wfm_ok bag \<and> kCmp bag = Unboxed id \<and> (\<forall>w k c. VG_lookupFM bag w = Some (k, c) \<longrightarrow> 1 \<le> c)"

definition bag_count :: "WordBag \<Rightarrow> UWord \<Rightarrow> UWord" where
  "bag_count bag w = (case VG_lookupFM bag w of Some (k, c) \<Rightarrow> c | None \<Rightarrow> 0)"

lemma bag_map: "bag_ok bag \<Longrightarrow> wfm_ok bag \<and> kCmp bag = Unboxed id"
  by (simp add: bag_ok_def)

lemma bag_lookup_key: "bag_ok bag \<Longrightarrow> VG_lookupFM bag w = Some (k, c) \<Longrightarrow> k = w \<and> 1 \<le> c"
  using uword_map.lookup_same [OF bag_map] by (auto simp: bag_ok_def)

lemma bag_count_lookup: "bag_count bag w = (case map_option snd (VG_lookupFM bag w) of Some c \<Rightarrow> c | None \<Rightarrow> 0)"
  by (auto simp: bag_count_def split: option.splits)

lemma bag_count_0: "bag_ok bag \<Longrightarrow> bag_count bag w = 0 \<longleftrightarrow> VG_lookupFM bag w = None"
  using bag_lookup_key by (fastforce simp: bag_count_def split: option.splits)

lemma elemBag_count [asserts]: "bag_ok bag \<Longrightarrow> VG_elemBag bag w = Some (bag_count bag w)"
  using bag_lookup_key by (auto simp: VG_elemBag_def bag_count_def split: option.splits)

lemma bag_add:
  assumes "bag_ok bag" "1 \<le> c"
  shows "\<exists>b bag'. VG_addToFM bag w c = Some (b, bag') \<and> bag_ok bag' \<and> bag_count bag' = (bag_count bag)(w := c)"
proof -
  obtain bag' where b: "VG_addToFM bag w c = Some (VG_lookupFM bag w \<noteq> None, bag')"
      "wfm_ok bag' \<and> kCmp bag' = Unboxed id"
    using uword_map.add_total [OF bag_map [OF assms(1)]] by blast
  have lk: "map_option snd (VG_lookupFM bag' j) = (if w = j then Some c else map_option snd (VG_lookupFM bag j))" for j
    by (rule uword_map.lookup_add [OF bag_map [OF assms(1)] b(1)])
  then have "bag_count bag' = (bag_count bag)(w := c)"
    by (intro ext) (simp add: bag_count_lookup)
  moreover have "1 \<le> d" if "VG_lookupFM bag' j = Some (k, d)" for j k d
    using lk [of j] that assms by (cases "VG_lookupFM bag j") (auto simp: bag_ok_def split: if_splits)
  ultimately show ?thesis using b by (auto simp: bag_ok_def)
qed

lemma bag_del:
  assumes "bag_ok bag"
  shows "\<exists>r bag'. VG_delFromFM bag w = Some (r, bag') \<and> bag_ok bag' \<and> bag_count bag' = (bag_count bag)(w := 0)"
proof -
  obtain bag' where b: "VG_delFromFM bag w = Some (VG_lookupFM bag w, bag')" "wfm_ok bag' \<and> kCmp bag' = Unboxed id"
    using uword_map.del_total [OF bag_map [OF assms(1)]] by blast
  have lk: "VG_lookupFM bag' j = (if w = j then None else VG_lookupFM bag j)" for j
    by (rule uword_map.lookup_del [OF bag_map [OF assms(1)] b(1)])
  then have "bag_count bag' = (bag_count bag)(w := 0)"
    by (intro ext) (simp add: bag_count_def)
  moreover have "1 \<le> d" if "VG_lookupFM bag' j = Some (k, d)" for j k d
    using lk [of j] that assms by (cases "VG_lookupFM bag j") (auto simp: bag_ok_def split: if_splits)
  ultimately show ?thesis using b by (auto simp: bag_ok_def)
qed

lemma bag_ok_vals:
  assumes "bag_ok bag" "(k, v) \<in> set (inord (root bag))" shows "1 \<le> v"
proof -
  have "sorted_keys (Unboxed id) (inord (root bag))" "wfm_ok bag" "kCmp bag = Unboxed id"
    using assms(1) by (auto simp: bag_ok_def wfm_ok_def)
  then have "VG_lookupFM bag k = Some (k, v)"
    by (simp add: uword_order.mem_find_assoc uword_order.wfm_lookup assms(2))
  from bag_lookup_key [OF assms(1) this] show ?thesis by simp
qed

lemma key_lt_unboxed: "key_lt (Unboxed (id :: UWord \<Rightarrow> UWord)) a b \<longleftrightarrow> a < b"
  by (simp add: key_lt_def cmp_unsigned_Words_def)

lemma bag_count_mem:
  assumes "bag_ok bag" shows "(w, c) \<in> set (inord (root bag)) \<longleftrightarrow> c = bag_count bag w \<and> c \<noteq> 0"
proof -
  have sk: "sorted_keys (Unboxed id) (inord (root bag))" and w: "wfm_ok bag" "kCmp bag = Unboxed id"
    using assms(1) by (auto simp: bag_ok_def wfm_ok_def)
  have lk: "VG_lookupFM bag w = find_assoc (Unboxed id) w (inord (root bag))"
    by (rule uword_order.wfm_lookup [OF w])
  show ?thesis
  proof
    assume "(w, c) \<in> set (inord (root bag))"
    then have "VG_lookupFM bag w = Some (w, c)" by (simp add: lk uword_order.mem_find_assoc [OF sk])
    then show "c = bag_count bag w \<and> c \<noteq> 0" using bag_lookup_key [OF assms] by (fastforce simp: bag_count_def)
  next
    assume c: "c = bag_count bag w \<and> c \<noteq> 0"
    then obtain k where k: "VG_lookupFM bag w = Some (k, c)" by (auto simp: bag_count_def split: option.splits)
    then have "k = w" using bag_lookup_key [OF assms] by blast
    then show "(w, c) \<in> set (inord (root bag))" using k lk find_assoc_Some by metis
  qed
qed

lemma sizeTotalBag_wrk_ok:
  "t \<noteq> NULL \<Longrightarrow> \<forall>(k, v)\<in>set (inord t). 1 \<le> v \<Longrightarrow> sizeTotalBag_wrk t = Some (sum_list (map snd (inord t)))"
proof (induction t)
  case (Node k v l r b)
  have "(if l \<noteq> NULL then sizeTotalBag_wrk l else Some 0) = Some (sum_list (map snd (inord l)))"
    "(if r \<noteq> NULL then sizeTotalBag_wrk r else Some 0) = Some (sum_list (map snd (inord r)))"
    using Node by auto
  then show ?case using Node.prems by (simp add: add_ac)
qed simp

lemma addToBag_ok:
  assumes "bag_ok bag" "bag_count bag w \<noteq> - 1"
  shows "\<exists>bag'. VG_addToBag bag w = Some bag' \<and> bag_ok bag' \<and>
    bag_count bag' = (bag_count bag)(w := bag_count bag w + 1)"
proof (cases "VG_lookupFM bag w")
  case None
  then have "bag_count bag w = 0" by (simp add: bag_count_def)
  then show ?thesis
    using None bag_add [OF assms(1), of 1 w] by (auto simp: VG_addToBag_def)
next
  case (Some kc)
  obtain k c where kc: "kc = (k, c)" by force
  then have c: "k = w" "1 \<le> c" "bag_count bag w = c"
    using bag_lookup_key [OF assms(1)] Some by (auto simp: bag_count_def)
  have "1 \<le> c + 1"
    using assms(2) c by (simp add: add_eq_0_iff2)
  then show ?thesis
    using Some kc c bag_add [OF assms(1), of "c + 1" w] by (auto simp: VG_addToBag_def)
qed

subsection \<open>Properties\<close>

text \<open>A bag implements a multiset of words. Adding an element to a well-formed bag whose
  count for it is not the largest word fails no assertion, keeps the bag well-formed and
  increases exactly that element's count by one.\<close>

lemma addToBag_correct:
  assumes "bag_ok bag" "bag_count bag w \<noteq> - 1"
  shows "\<exists>bag'. VG_addToBag bag w = Some bag' \<and> bag_ok bag' \<and>
    bag_count bag' = (bag_count bag)(w := bag_count bag w + 1)"
  by (rule addToBag_ok [OF assms])

text \<open>Removing an element from a well-formed bag fails no assertion, reports whether it
  occurred, and decreases exactly that element's count by one if it did.\<close>

lemma delFromBag_correct:
  assumes "bag_ok bag"
  shows "\<exists>bag'. VG_delFromBag bag w = Some (bag_count bag w \<noteq> 0, bag') \<and> bag_ok bag' \<and>
    bag_count bag' = (bag_count bag)(w := bag_count bag w - (if bag_count bag w = 0 then 0 else 1))"
proof (cases "VG_lookupFM bag w")
  case None
  then have "bag_count bag w = 0" by (simp add: bag_count_def)
  then show ?thesis using None assms by (auto simp: VG_delFromBag_def fun_upd_idem)
next
  case (Some kc)
  obtain k c where kc: "kc = (k, c)" by force
  then have c: "k = w" "1 \<le> c" "bag_count bag w = c" "c \<noteq> 0"
    using bag_lookup_key [OF assms(1)] Some by (auto simp: bag_count_def)
  show ?thesis
  proof (cases "c > 1")
    case True
    then have "1 \<le> c - 1" by auto
    then show ?thesis
      using True Some kc c bag_add [OF assms(1), of "c - 1" w] by (auto simp: VG_delFromBag_def)
  next
    case False
    then have "c = 1" using c(2) by simp
    then show ?thesis
      using Some kc c bag_del [OF assms(1), of w] by (auto simp: VG_delFromBag_def)
  qed
qed

lemma bag_ok_new: "bag_ok VG_newBag" "bag_count VG_newBag w = 0" "root VG_newBag = NULL"
proof -
  show "bag_ok VG_newBag"
    by (simp add: bag_ok_def VG_newBag_def uword_map.lookup_empty wfm_ok_def) (simp add: VG_newFM_def)
  show "bag_count VG_newBag w = 0"
    by (simp add: VG_newBag_def bag_count_def uword_map.lookup_empty)
  show "root VG_newBag = NULL"
    by (simp add: VG_newBag_def VG_newFM_def)
qed

text \<open>The total size of a well-formed bag is the sum of its counts (as a machine word), and
  the recursive count fails no assertion.\<close>

lemma sizeTotalBag_correct:
  assumes "bag_ok bag"
  shows "VG_sizeTotalBag bag = Some (sum_list (map snd (inord (root bag))))"
proof (cases "root bag = NULL")
  case False
  have "\<forall>(k, v)\<in>set (inord (root bag)). 1 \<le> v"
    using bag_ok_vals [OF assms] by auto
  from sizeTotalBag_wrk_ok [OF False this] show ?thesis
    using False by (simp add: VG_sizeTotalBag_def)
qed (simp add: VG_sizeTotalBag_def)

text \<open>Iterating over a well-formed bag of fewer than 9227464 distinct elements yields each of
  its elements exactly once, in ascending order, with its count.\<close>

lemma iterBag_correct:
  assumes "bag_ok bag" "length (inord (root bag)) < 9227464"
  shows "\<exists>bag' xs. VG_initIterBag bag = Some bag' \<and> iter_yields bag' xs \<and>
    sorted_wrt (\<lambda>a b. fst a < fst b) xs \<and> set xs = {(w, bag_count bag w) | w. bag_count bag w \<noteq> 0}"
proof -
  have kc: "kCmp bag = Unboxed id" and sk: "sorted_keys (Unboxed id) (inord (root bag))" and w: "wfm_ok bag"
    using assms(1) by (auto simp: bag_ok_def wfm_ok_def)
  obtain bag' where "VG_initIterBag bag = Some bag'" "iter_yields bag' (inord (root bag))"
    using init_iter_ok [OF avl_depth_32] assms w by (auto simp: wfm_ok_def VG_initIterBag_def)
  moreover have "sorted_wrt (\<lambda>a b. fst a < fst b) (inord (root bag))"
    using sk by (simp add: sorted_keys_def key_lt_unboxed)
  moreover have "set (inord (root bag)) = {(w, bag_count bag w) | w. bag_count bag w \<noteq> 0}"
    by (auto simp: bag_count_mem [OF assms(1)])
  ultimately show ?thesis by blast
qed

end
