(* ===== verification/HG_WordSet.thy ===== *)
theory HG_WordSet
  imports WordFM
begin

text \<open>
  Helgrind's word sets, \<^verbatim>\<open>helgrind/hg_wordset.c\<close>. A universe holds each set once, as a sorted
  vector; a set is named by its index. The map from vectors to indices is a \<^verbatim>\<open>WordFM\<close> over the
  comparison of vectors. Adding, deleting, intersection and difference sit behind small caches.
  A \<^verbatim>\<open>WordVec\<close> is the list of its words; its owner is the universe that holds it.
\<close>

type_synonym WordSet = UInt

type_synonym WordVec = "UWord list"

subsection \<open>Result caches\<close>

record WCacheEntry =
  arg1 :: UWord
  arg2 :: UWord
  res :: UWord

text \<open>\<^verbatim>\<open>ent[0 .. inUse-1]\<close> is the list \<open>ents\<close>, so \<^verbatim>\<open>inUse\<close> is its length.\<close>

record WCache =
  ents :: "WCacheEntry list"
  dynMax :: nat

definition N_WCACHE_STAT_MAX :: nat where "N_WCACHE_STAT_MAX = 32"

definition WCache_INIT :: "nat \<Rightarrow> WCache option" where
  "WCache_INIT dynmax = do {
     vg_assert (dynmax \<ge> 1);
     vg_assert (dynmax \<le> N_WCACHE_STAT_MAX);
     Some \<lparr>ents = [], dynMax = dynmax\<rparr> }"

definition WCache_asserts :: "WCache \<Rightarrow> unit option" where
  "WCache_asserts c = do {
     vg_assert (dynMax c \<ge> 1);
     vg_assert (dynMax c \<le> N_WCACHE_STAT_MAX);
     vg_assert (length (ents c) \<le> dynMax c) }"

text \<open>The search from index 1: a hit moves one place towards the front. \<open>prev\<close> is the entry before
  the ones left to search.\<close>

fun WCache_search :: "WCacheEntry \<Rightarrow> WCacheEntry list \<Rightarrow> UWord \<Rightarrow> UWord \<Rightarrow> (UWord \<times> WCacheEntry list) option" where
  "WCache_search prev [] a1 a2 = None"
| "WCache_search prev (e # es) a1 a2 =
     (if arg1 e = a1 \<and> arg2 e = a2 then Some (res e, e # prev # es)
      else map_option (\<lambda>(r, es'). (r, prev # es')) (WCache_search e es a1 a2))"

text \<open>Outer \<open>None\<close>: an assertion fails; inner \<open>None\<close>: not found.\<close>

definition WCache_LOOKUP :: "WCache \<Rightarrow> UWord \<Rightarrow> UWord \<Rightarrow> (UWord \<times> WCache) option option" where
  "WCache_LOOKUP c a1 a2 = do {
     _ \<leftarrow> WCache_asserts c;
     Some (case ents c of
         [] \<Rightarrow> None
       | e # es \<Rightarrow>
           if arg1 e = a1 \<and> arg2 e = a2 then Some (res e, c)
           else map_option (\<lambda>(r, es'). (r, c\<lparr>ents := es'\<rparr>)) (WCache_search e es a1 a2)) }"

definition WCache_UPDATE :: "WCache \<Rightarrow> UWord \<Rightarrow> UWord \<Rightarrow> UWord \<Rightarrow> WCache option" where
  "WCache_UPDATE c a1 a2 r = do {
     _ \<leftarrow> WCache_asserts c;
     let inUse = (if length (ents c) < dynMax c then length (ents c) + 1 else length (ents c));
     Some (c\<lparr>ents := \<lparr>arg1 = a1, arg2 = a2, res = r\<rparr> # take (inUse - 1) (ents c)\<rparr>) }"

subsection \<open>The universe\<close>

fun cmp_WordVecs_for_FM :: "WordVec \<Rightarrow> WordVec \<Rightarrow> Word" where
  "cmp_WordVecs_for_FM (x # xs) (y # ys) =
     (if x = y then cmp_WordVecs_for_FM xs ys else if x < y then - 1 else 1)"
| "cmp_WordVecs_for_FM [] (y # ys) = - 1"
| "cmp_WordVecs_for_FM (x # xs) [] = 1"
| "cmp_WordVecs_for_FM [] [] = 0"

record WordSetU_stats =
  n_add :: UWord
  n_add_uncached :: UWord
  n_del :: UWord
  n_del_uncached :: UWord
  n_union :: UWord
  n_intersect :: UWord
  n_intersect_uncached :: UWord
  n_minus :: UWord
  n_minus_uncached :: UWord
  n_elem :: UWord
  n_doubleton :: UWord
  n_isEmpty :: UWord
  n_isSingleton :: UWord
  n_anyElementOf :: UWord
  n_isSubsetOf :: UWord

text \<open>\<^verbatim>\<open>ix2vec[0 .. ix2vec_used-1]\<close> is the list \<open>ix2vec\<close>, so \<^verbatim>\<open>ix2vec_used\<close> is its length.\<close>

record WordSetU =
  vec2ix :: "(WordVec, UWord) WordFM"
  ix2vec :: "WordVec list"
  ix2vec_size :: UWord
  empty :: WordSet
  cache_addTo :: WCache
  cache_delFrom :: WCache
  cache_intersect :: WCache
  cache_minus :: WCache
  stats :: WordSetU_stats

definition ix2vec_used :: "WordSetU \<Rightarrow> nat" where
  "ix2vec_used wsu = length (ix2vec wsu)"

text \<open>The new size is a 32 bit number. Should it be smaller than the old one, copying the old
  entries would overrun the new array: \<open>None\<close>.\<close>

definition ensure_ix2vec_space :: "WordSetU \<Rightarrow> WordSetU option" where
  "ensure_ix2vec_space wsu = do {
     vg_assert (ix2vec_used wsu \<le> unat (ix2vec_size wsu));
     if ix2vec_used wsu < unat (ix2vec_size wsu) then Some wsu
     else do {
       let new_sz = (ucast (2 * ix2vec_size wsu) :: UInt);
       let new_sz = (if new_sz = 0 then 2 else new_sz);
       vg_assert (unat (ix2vec_size wsu) \<le> unat new_sz);
       Some (wsu\<lparr>ix2vec_size := ucast new_sz\<rparr>) } }"

definition do_ix2vec :: "WordSetU \<Rightarrow> WordSet \<Rightarrow> WordVec option" where
  "do_ix2vec wsu ws = do {
     vg_assert (ix2vec_used wsu \<le> unat (ix2vec_size wsu));
     vg_assert (unat ws < ix2vec_used wsu);
     Some (ix2vec wsu ! unat ws) }"

definition add_or_dealloc_WordVec :: "WordSetU \<Rightarrow> WordVec \<Rightarrow> (WordSet \<times> WordSetU) option" where
  "add_or_dealloc_WordVec wsu wv_new = (case VG_lookupFM (vec2ix wsu) wv_new of
     Some (wv_old, ix_old) \<Rightarrow> do {
       vg_assert (unat ix_old < ix2vec_used wsu);
       vg_assert (ix2vec wsu ! unat ix_old = wv_old);
       Some (ucast ix_old, wsu) }
   | None \<Rightarrow> do {
       wsu \<leftarrow> ensure_ix2vec_space wsu;
       vg_assert (ix2vec_used wsu < unat (ix2vec_size wsu));
       (_, fm) \<leftarrow> VG_addToFM (vec2ix wsu) wv_new (of_nat (ix2vec_used wsu));
       let wsu = wsu\<lparr>ix2vec := ix2vec wsu @ [wv_new], vec2ix := fm\<rparr>;
       vg_assert (ix2vec_used wsu \<le> unat (ix2vec_size wsu));
       Some (of_nat (ix2vec_used wsu - 1), wsu) })"

definition HG_newWordSetU :: "nat \<Rightarrow> WordSetU option" where
  "HG_newWordSetU cacheSize = do {
     c1 \<leftarrow> WCache_INIT cacheSize;
     c2 \<leftarrow> WCache_INIT cacheSize;
     c3 \<leftarrow> WCache_INIT cacheSize;
     c4 \<leftarrow> WCache_INIT cacheSize;
     let wsu = \<lparr>vec2ix = VG_newFM (Boxed cmp_WordVecs_for_FM), ix2vec = [], ix2vec_size = 0, empty = 0,
       cache_addTo = c1, cache_delFrom = c2, cache_intersect = c3, cache_minus = c4,
       stats = \<lparr>n_add = 0, n_add_uncached = 0, n_del = 0, n_del_uncached = 0, n_union = 0, n_intersect = 0,
         n_intersect_uncached = 0, n_minus = 0, n_minus_uncached = 0, n_elem = 0, n_doubleton = 0, n_isEmpty = 0,
         n_isSingleton = 0, n_anyElementOf = 0, n_isSubsetOf = 0\<rparr>\<rparr>;
     (ws, wsu) \<leftarrow> add_or_dealloc_WordVec wsu [];
     Some (wsu\<lparr>empty := ws\<rparr>) }"

text \<open>The vectors are finalised through the map.\<close>

definition HG_deleteWordSetU :: "WordSetU \<Rightarrow> (WordVec, UWord) fin_call list" where
  "HG_deleteWordSetU wsu = VG_deleteFM (vec2ix wsu) True False"

definition bump :: "(WordSetU_stats \<Rightarrow> WordSetU_stats) \<Rightarrow> WordSetU \<Rightarrow> WordSetU" where
  "bump f wsu = wsu\<lparr>stats := f (stats wsu)\<rparr>"

subsection \<open>Queries\<close>

definition HG_emptyWS :: "WordSetU \<Rightarrow> WordSet" where "HG_emptyWS wsu = empty wsu"

definition HG_isEmptyWS :: "WordSetU \<Rightarrow> WordSet \<Rightarrow> (bool \<times> WordSetU) option" where
  "HG_isEmptyWS wsu ws = do {
     wv \<leftarrow> do_ix2vec wsu ws;
     let wsu = bump (n_isEmpty_update (\<lambda>n. n + 1)) wsu;
     if length wv = 0 then do { vg_assert (ws = empty wsu); Some (True, wsu) }
     else do { vg_assert (ws \<noteq> empty wsu); Some (False, wsu) } }"

definition HG_isSingletonWS :: "WordSetU \<Rightarrow> WordSet \<Rightarrow> UWord \<Rightarrow> (bool \<times> WordSetU) option" where
  "HG_isSingletonWS wsu ws w = do {
     let wsu = bump (n_isSingleton_update (\<lambda>n. n + 1)) wsu;
     wv \<leftarrow> do_ix2vec wsu ws;
     Some (length wv = 1 \<and> wv ! 0 = w, wsu) }"

definition HG_cardinalityWS :: "WordSetU \<Rightarrow> WordSet \<Rightarrow> nat option" where
  "HG_cardinalityWS wsu ws = do { wv \<leftarrow> do_ix2vec wsu ws; Some (length wv) }"

definition HG_anyElementOfWS :: "WordSetU \<Rightarrow> WordSet \<Rightarrow> (UWord \<times> WordSetU) option" where
  "HG_anyElementOfWS wsu ws = do {
     let wsu = bump (n_anyElementOf_update (\<lambda>n. n + 1)) wsu;
     wv \<leftarrow> do_ix2vec wsu ws;
     vg_assert (length wv \<ge> 1);
     Some (wv ! 0, wsu) }"

definition HG_cardinalityWSU :: "WordSetU \<Rightarrow> nat" where "HG_cardinalityWSU wsu = ix2vec_used wsu"

definition HG_getPayloadWS :: "WordSetU \<Rightarrow> WordSet \<Rightarrow> UWord list option" where
  "HG_getPayloadWS wsu ws = do_ix2vec wsu ws"

definition HG_plausibleWS :: "WordSetU \<Rightarrow> WordSet \<Rightarrow> bool" where
  "HG_plausibleWS wsu ws \<longleftrightarrow> unat ws < ix2vec_used wsu"

definition HG_saneWS_SLOW :: "WordSetU \<Rightarrow> WordSet \<Rightarrow> bool option" where
  "HG_saneWS_SLOW wsu ws =
     (if unat ws \<ge> ix2vec_used wsu then Some False
      else do {
        wv \<leftarrow> do_ix2vec wsu ws;
        Some (list_all (\<lambda>i. \<not> wv ! i \<ge> wv ! (i + 1)) [0..<length wv - 1]) })"

definition HG_elemWS :: "WordSetU \<Rightarrow> WordSet \<Rightarrow> UWord \<Rightarrow> (bool \<times> WordSetU) option" where
  "HG_elemWS wsu ws w = do {
     wv \<leftarrow> do_ix2vec wsu ws;
     Some (list_ex (\<lambda>x. x = w) wv, bump (n_elem_update (\<lambda>n. n + 1)) wsu) }"

definition HG_doubletonWS :: "WordSetU \<Rightarrow> UWord \<Rightarrow> UWord \<Rightarrow> (WordSet \<times> WordSetU) option" where
  "HG_doubletonWS wsu w1 w2 =
     add_or_dealloc_WordVec (bump (n_doubleton_update (\<lambda>n. n + 1)) wsu)
       (if w1 = w2 then [w1] else if w1 < w2 then [w1, w2] else [w2, w1])"

definition HG_singletonWS :: "WordSetU \<Rightarrow> UWord \<Rightarrow> (WordSet \<times> WordSetU) option" where
  "HG_singletonWS wsu w = HG_doubletonWS wsu w w"

subsection \<open>Adding and deleting an element\<close>

text \<open>The part of each cached operation that computes a result.\<close>

definition addTo_uncached :: "WordSetU \<Rightarrow> WordSet \<Rightarrow> UWord \<Rightarrow> (WordSet \<times> WordSetU) option" where
  "addTo_uncached wsu ws w = do {
     wv \<leftarrow> do_ix2vec wsu ws;
     if list_ex (\<lambda>x. x = w) wv then Some (ws, wsu)
     else do {
       let rest = dropWhile (\<lambda>x. x < w) wv;
       vg_assert (list_all (\<lambda>x. x > w) rest);
       let wv_new = takeWhile (\<lambda>x. x < w) wv @ [w] @ rest;
       vg_assert (length wv_new = length wv + 1);
       (result, wsu) \<leftarrow> add_or_dealloc_WordVec wsu wv_new;
       vg_assert (result \<noteq> - 1);
       Some (result, wsu) } }"

definition HG_addToWS :: "WordSetU \<Rightarrow> WordSet \<Rightarrow> UWord \<Rightarrow> (WordSet \<times> WordSetU) option" where
  "HG_addToWS wsu ws w = do {
     let wsu = bump (n_add_update (\<lambda>n. n + 1)) wsu;
     hit \<leftarrow> WCache_LOOKUP (cache_addTo wsu) (ucast ws) w;
     (case hit of
        Some (r, c) \<Rightarrow> Some (ucast r, wsu\<lparr>cache_addTo := c\<rparr>)
      | None \<Rightarrow> do {
          let wsu = bump (n_add_uncached_update (\<lambda>n. n + 1)) wsu;
          (result, wsu) \<leftarrow> addTo_uncached wsu ws w;
          c \<leftarrow> WCache_UPDATE (cache_addTo wsu) (ucast ws) w (ucast result);
          Some (result, wsu\<lparr>cache_addTo := c\<rparr>) }) }"

text \<open>The index of the first occurrence of \<open>w\<close>, or the length of the vector.\<close>

fun find_word :: "UWord \<Rightarrow> WordVec \<Rightarrow> nat" where
  "find_word w [] = 0"
| "find_word w (x # xs) = (if x = w then 0 else find_word w xs + 1)"

definition delFrom_uncached :: "WordSetU \<Rightarrow> WordSet \<Rightarrow> WordVec \<Rightarrow> UWord \<Rightarrow> (WordSet \<times> WordSetU) option" where
  "delFrom_uncached wsu ws wv w = do {
     let i = find_word w wv;
     if i = length wv then Some (ws, wsu)
     else do {
       let wv_new = [wv ! j. j \<leftarrow> [0..<length wv], j \<noteq> i];
       vg_assert (length wv_new = length wv - 1);
       (result, wsu) \<leftarrow> add_or_dealloc_WordVec wsu wv_new;
       vg_assert (length wv = 1 \<longrightarrow> result = empty wsu);
       Some (result, wsu) } }"

definition HG_delFromWS :: "WordSetU \<Rightarrow> WordSet \<Rightarrow> UWord \<Rightarrow> (WordSet \<times> WordSetU) option" where
  "HG_delFromWS wsu ws w = do {
     wv \<leftarrow> do_ix2vec wsu ws;
     let wsu = bump (n_del_update (\<lambda>n. n + 1)) wsu;
     if length wv = 0 then do { vg_assert (ws = empty wsu); Some (ws, wsu) }
     else do {
       hit \<leftarrow> WCache_LOOKUP (cache_delFrom wsu) (ucast ws) w;
       (case hit of
          Some (r, c) \<Rightarrow> Some (ucast r, wsu\<lparr>cache_delFrom := c\<rparr>)
        | None \<Rightarrow> do {
            let wsu = bump (n_del_uncached_update (\<lambda>n. n + 1)) wsu;
            (result, wsu) \<leftarrow> delFrom_uncached wsu ws wv w;
            c \<leftarrow> WCache_UPDATE (cache_delFrom wsu) (ucast ws) w (ucast result);
            Some (result, wsu\<lparr>cache_delFrom := c\<rparr>) }) } }"

subsection \<open>Union, intersection, difference\<close>

text \<open>Each operation walks its two vectors twice: once to count, once to copy.\<close>

fun union_size :: "WordVec \<Rightarrow> WordVec \<Rightarrow> nat" where
  "union_size (x # xs) (y # ys) =
     (if x < y then 1 + union_size xs (y # ys)
      else if x > y then 1 + union_size (x # xs) ys
      else 1 + union_size xs ys)"
| "union_size [] ys = length ys"
| "union_size (x # xs) [] = length (x # xs)"

fun union_words :: "WordVec \<Rightarrow> WordVec \<Rightarrow> WordVec" where
  "union_words (x # xs) (y # ys) =
     (if x < y then x # union_words xs (y # ys)
      else if x > y then y # union_words (x # xs) ys
      else x # union_words xs ys)"
| "union_words [] ys = ys"
| "union_words (x # xs) [] = x # xs"

definition HG_unionWS :: "WordSetU \<Rightarrow> WordSet \<Rightarrow> WordSet \<Rightarrow> (WordSet \<times> WordSetU) option" where
  "HG_unionWS wsu ws1 ws2 = do {
     wv1 \<leftarrow> do_ix2vec wsu ws1;
     wv2 \<leftarrow> do_ix2vec wsu ws2;
     let wsu = bump (n_union_update (\<lambda>n. n + 1)) wsu;
     let wv_new = union_words wv1 wv2;
     vg_assert (length wv_new = union_size wv1 wv2);
     add_or_dealloc_WordVec wsu wv_new }"

fun intersect_size :: "WordVec \<Rightarrow> WordVec \<Rightarrow> nat" where
  "intersect_size (x # xs) (y # ys) =
     (if x < y then intersect_size xs (y # ys)
      else if x > y then intersect_size (x # xs) ys
      else 1 + intersect_size xs ys)"
| "intersect_size [] ys = 0"
| "intersect_size (x # xs) [] = 0"

fun intersect_words :: "WordVec \<Rightarrow> WordVec \<Rightarrow> WordVec" where
  "intersect_words (x # xs) (y # ys) =
     (if x < y then intersect_words xs (y # ys)
      else if x > y then intersect_words (x # xs) ys
      else x # intersect_words xs ys)"
| "intersect_words [] ys = []"
| "intersect_words (x # xs) [] = []"

definition intersect_uncached :: "WordSetU \<Rightarrow> WordSet \<Rightarrow> WordSet \<Rightarrow> (WordSet \<times> WordSetU) option" where
  "intersect_uncached wsu ws1 ws2 = do {
     wv1 \<leftarrow> do_ix2vec wsu ws1;
     wv2 \<leftarrow> do_ix2vec wsu ws2;
     let sz = intersect_size wv1 wv2;
     let wv_new = intersect_words wv1 wv2;
     vg_assert (length wv_new = sz);
     (ws_new, wsu) \<leftarrow> add_or_dealloc_WordVec wsu wv_new;
     vg_assert (sz = 0 \<longrightarrow> ws_new = empty wsu);
     vg_assert (ws_new \<noteq> - 1);
     Some (ws_new, wsu) }"

definition HG_intersectWS :: "WordSetU \<Rightarrow> WordSet \<Rightarrow> WordSet \<Rightarrow> (WordSet \<times> WordSetU) option" where
  "HG_intersectWS wsu ws1 ws2 = do {
     let wsu = bump (n_intersect_update (\<lambda>n. n + 1)) wsu;
     if ws1 = ws2 then Some (ws1, wsu)
     else do {
       let (ws1, ws2) = (if ws1 > ws2 then (ws2, ws1) else (ws1, ws2));
       hit \<leftarrow> WCache_LOOKUP (cache_intersect wsu) (ucast ws1) (ucast ws2);
       (case hit of
          Some (r, c) \<Rightarrow> Some (ucast r, wsu\<lparr>cache_intersect := c\<rparr>)
        | None \<Rightarrow> do {
            let wsu = bump (n_intersect_uncached_update (\<lambda>n. n + 1)) wsu;
            (ws_new, wsu) \<leftarrow> intersect_uncached wsu ws1 ws2;
            c \<leftarrow> WCache_UPDATE (cache_intersect wsu) (ucast ws1) (ucast ws2) (ucast ws_new);
            Some (ws_new, wsu\<lparr>cache_intersect := c\<rparr>) }) } }"

definition HG_isSubsetOf :: "WordSetU \<Rightarrow> WordSet \<Rightarrow> WordSet \<Rightarrow> (bool \<times> WordSetU) option" where
  "HG_isSubsetOf wsu small big = do {
     let wsu = bump (n_isSubsetOf_update (\<lambda>n. n + 1)) wsu;
     (ws, wsu) \<leftarrow> HG_intersectWS wsu small big;
     Some (small = ws, wsu) }"

fun minus_size :: "WordVec \<Rightarrow> WordVec \<Rightarrow> nat" where
  "minus_size (x # xs) (y # ys) =
     (if x < y then 1 + minus_size xs (y # ys)
      else if x > y then minus_size (x # xs) ys
      else minus_size xs ys)"
| "minus_size [] ys = 0"
| "minus_size (x # xs) [] = length (x # xs)"

fun minus_words :: "WordVec \<Rightarrow> WordVec \<Rightarrow> WordVec" where
  "minus_words (x # xs) (y # ys) =
     (if x < y then x # minus_words xs (y # ys)
      else if x > y then minus_words (x # xs) ys
      else minus_words xs ys)"
| "minus_words [] ys = []"
| "minus_words (x # xs) [] = x # xs"

definition minus_uncached :: "WordSetU \<Rightarrow> WordSet \<Rightarrow> WordSet \<Rightarrow> (WordSet \<times> WordSetU) option" where
  "minus_uncached wsu ws1 ws2 = do {
     wv1 \<leftarrow> do_ix2vec wsu ws1;
     wv2 \<leftarrow> do_ix2vec wsu ws2;
     let sz = minus_size wv1 wv2;
     let wv_new = minus_words wv1 wv2;
     vg_assert (length wv_new = sz);
     (ws_new, wsu) \<leftarrow> add_or_dealloc_WordVec wsu wv_new;
     vg_assert (sz = 0 \<longrightarrow> ws_new = empty wsu);
     vg_assert (ws_new \<noteq> - 1);
     Some (ws_new, wsu) }"

definition HG_minusWS :: "WordSetU \<Rightarrow> WordSet \<Rightarrow> WordSet \<Rightarrow> (WordSet \<times> WordSetU) option" where
  "HG_minusWS wsu ws1 ws2 = do {
     let wsu = bump (n_minus_update (\<lambda>n. n + 1)) wsu;
     hit \<leftarrow> WCache_LOOKUP (cache_minus wsu) (ucast ws1) (ucast ws2);
     (case hit of
        Some (r, c) \<Rightarrow> Some (ucast r, wsu\<lparr>cache_minus := c\<rparr>)
      | None \<Rightarrow> do {
          let wsu = bump (n_minus_uncached_update (\<lambda>n. n + 1)) wsu;
          (ws_new, wsu) \<leftarrow> minus_uncached wsu ws1 ws2;
          c \<leftarrow> WCache_UPDATE (cache_minus wsu) (ucast ws1) (ucast ws2) (ucast ws_new);
          Some (ws_new, wsu\<lparr>cache_minus := c\<rparr>) }) }"

end
