(* ===== verification/HG_WordSet_Correct.thy ===== *)
theory HG_WordSet_Correct
  imports WordFM_Correct HG_WordSet
begin

text \<open>
  Correctness of the word sets: the vector comparison is a lawful key order, so the map of vectors
  is an instance of \<open>finite_map\<close>; the merges compute the set operations on sorted vectors; a
  well-formed universe interns every set once, and its caches only hold right results. The
  contract offered to the race detector is the locale \<open>interned_sets\<close>.
\<close>

subsection \<open>The order of vectors\<close>

lemma sint_m1: "sint (- 1 :: Word) = - 1" "sint (1 :: Word) = 1"
  by simp_all

lemma cmp_vec_flip: "sint (cmp_WordVecs_for_FM xs ys) > 0 \<longleftrightarrow> sint (cmp_WordVecs_for_FM ys xs) < 0"
  by (induction xs ys rule: cmp_WordVecs_for_FM.induct) auto

lemma cmp_vec_0: "cmp_WordVecs_for_FM xs ys = 0 \<longleftrightarrow> xs = ys"
  by (induction xs ys rule: cmp_WordVecs_for_FM.induct) auto

lemma cmp_vec_trans:
  "sint (cmp_WordVecs_for_FM xs ys) < 0 \<Longrightarrow> sint (cmp_WordVecs_for_FM ys zs) < 0 \<Longrightarrow> sint (cmp_WordVecs_for_FM xs zs) < 0"
proof (induction xs ys arbitrary: zs rule: cmp_WordVecs_for_FM.induct)
  case (1 x xs y ys)
  then show ?case by (cases zs) (auto split: if_splits)
next
  case (2 y ys)
  then show ?case by (cases zs) auto
qed auto

interpretation wordvec_order: key_order "Boxed cmp_WordVecs_for_FM"
proof unfold_locales
  show "sint (key_cmp (Boxed cmp_WordVecs_for_FM) a b) > 0 \<longleftrightarrow> sint (key_cmp (Boxed cmp_WordVecs_for_FM) b a) < 0" for a b
    by (simp add: cmp_vec_flip)
  show "sint (key_cmp (Boxed cmp_WordVecs_for_FM) a c) < 0" if "sint (key_cmp (Boxed cmp_WordVecs_for_FM) a b) < 0"
    "sint (key_cmp (Boxed cmp_WordVecs_for_FM) b c) < 0" for a b c
    using cmp_vec_trans that by simp
  show "sint (key_cmp (Boxed cmp_WordVecs_for_FM) a c) < 0 \<longleftrightarrow> sint (key_cmp (Boxed cmp_WordVecs_for_FM) b c) < 0"
    if "key_cmp (Boxed cmp_WordVecs_for_FM) a b = 0" for a b c
    using that by (simp add: cmp_vec_0)
qed

lemma wordvec_same: "(\<lambda>a b. key_cmp (Boxed cmp_WordVecs_for_FM) a b = 0) = (=)"
  by (simp add: fun_eq_iff cmp_vec_0)

interpretation wordvec_map: finite_map
  "\<lambda>fm. wfm_ok fm \<and> kCmp fm = Boxed cmp_WordVecs_for_FM" "(=)" VG_lookupFM VG_addToFM VG_delFromFM
  "VG_newFM (Boxed cmp_WordVecs_for_FM)"
  using wordvec_order.wfm_finite_map unfolding wordvec_same .

subsection \<open>The merges\<close>

lemma union_words_set: "set (union_words xs ys) = set xs \<union> set ys"
  by (induction xs ys rule: union_words.induct) auto

lemma union_words_length: "length (union_words xs ys) = union_size xs ys"
  by (induction xs ys rule: union_words.induct) auto

lemma union_words_sorted: "sorted_wrt (<) xs \<Longrightarrow> sorted_wrt (<) ys \<Longrightarrow> sorted_wrt (<) (union_words xs ys)"
proof (induction xs ys rule: union_words.induct)
  case (1 x xs y ys)
  have h: "\<forall>z\<in>set xs. x < z" "\<forall>z\<in>set ys. y < z" "sorted_wrt (<) xs" "sorted_wrt (<) ys"
    using "1.prems" by auto
  consider "x < y" | "y < x" | "x = y" using linorder_cases by blast
  then show ?case
  proof cases
    case 1
    then have "\<forall>z\<in>set ys. x < z" using h(2) order.strict_trans by blast
    then show ?thesis using 1 "1.IH"(1) "1.prems" h by (simp add: union_words_set ball_Un)
  next
    case 2
    then have "\<forall>z\<in>set xs. y < z" using h(1) order.strict_trans by blast
    then show ?thesis using 2 "1.IH"(2) "1.prems" h by (simp add: union_words_set ball_Un less_not_sym)
  next
    case 3
    then show ?thesis using "1.IH"(3) h by (simp add: union_words_set ball_Un)
  qed
qed auto

lemma intersect_words_length: "length (intersect_words xs ys) = intersect_size xs ys"
  by (induction xs ys rule: intersect_words.induct) auto

lemma strict_above: "x < y \<Longrightarrow> \<forall>z\<in>set ys. y < z \<Longrightarrow> x \<notin> set (y # ys)" for x :: UWord
  by auto

lemma intersect_words_set:
  "sorted_wrt (<) xs \<Longrightarrow> sorted_wrt (<) ys \<Longrightarrow> set (intersect_words xs ys) = set xs \<inter> set ys"
proof (induction xs ys rule: intersect_words.induct)
  case (1 x xs y ys)
  have h: "\<forall>z\<in>set xs. x < z" "\<forall>z\<in>set ys. y < z" "sorted_wrt (<) xs" "sorted_wrt (<) ys"
    using "1.prems" by auto
  consider "x < y" | "y < x" | "x = y" using linorder_cases by blast
  then show ?case
  proof cases
    case 1
    then show ?thesis using "1.IH"(1) "1.prems" h(3) strict_above [OF 1 h(2)] by simp
  next
    case 2
    then show ?thesis using "1.IH"(2) "1.prems" h(4) strict_above [OF 2 h(1)] by auto
  next
    case 3
    then have "y \<notin> set xs" "y \<notin> set ys" using h by auto
    then show ?thesis using 3 "1.IH"(3) h by auto
  qed
qed auto

lemma intersect_words_sorted:
  "sorted_wrt (<) xs \<Longrightarrow> sorted_wrt (<) ys \<Longrightarrow> sorted_wrt (<) (intersect_words xs ys)"
proof (induction xs ys rule: intersect_words.induct)
  case (1 x xs y ys)
  then show ?case using intersect_words_set [of xs ys] by auto
qed auto

lemma minus_words_length: "length (minus_words xs ys) = minus_size xs ys"
  by (induction xs ys rule: minus_words.induct) auto

lemma minus_words_set:
  "sorted_wrt (<) xs \<Longrightarrow> sorted_wrt (<) ys \<Longrightarrow> set (minus_words xs ys) = set xs - set ys"
proof (induction xs ys rule: minus_words.induct)
  case (1 x xs y ys)
  have h: "\<forall>z\<in>set xs. x < z" "\<forall>z\<in>set ys. y < z" "sorted_wrt (<) xs" "sorted_wrt (<) ys"
    using "1.prems" by auto
  consider "x < y" | "y < x" | "x = y" using linorder_cases by blast
  then show ?case
  proof cases
    case 1
    then show ?thesis using "1.IH"(1) "1.prems" h(3) strict_above [OF 1 h(2)] by auto
  next
    case 2
    then show ?thesis using "1.IH"(2) "1.prems" h(4) strict_above [OF 2 h(1)] by auto
  next
    case 3
    then have "y \<notin> set xs" "y \<notin> set ys" using h by auto
    then show ?thesis using 3 "1.IH"(3) h by auto
  qed
qed auto

lemma minus_words_sorted:
  "sorted_wrt (<) xs \<Longrightarrow> sorted_wrt (<) ys \<Longrightarrow> sorted_wrt (<) (minus_words xs ys)"
proof (induction xs ys rule: minus_words.induct)
  case (1 x xs y ys)
  then show ?case using minus_words_set [of xs "y # ys"] by auto
qed auto

lemma sorted_insert:
  "sorted_wrt (<) t \<Longrightarrow> sorted_wrt (<) d \<Longrightarrow> \<forall>x\<in>set t. \<forall>y\<in>set d. x < y \<Longrightarrow> \<forall>x\<in>set t. x < w \<Longrightarrow> \<forall>x\<in>set d. w < x
    \<Longrightarrow> sorted_wrt (<) (t @ [w] @ d)"
  by (simp add: sorted_wrt_append)

lemma addTo_words_ok:
  assumes "sorted_wrt (<) (wv :: WordVec)" "w \<notin> set wv"
  shows "sorted_wrt (<) (takeWhile (\<lambda>x. x < w) wv @ [w] @ dropWhile (\<lambda>x. x < w) wv)"
    "list_all (\<lambda>x. x > w) (dropWhile (\<lambda>x. x < w) wv)"
    "length (takeWhile (\<lambda>x. x < w) wv @ [w] @ dropWhile (\<lambda>x. x < w) wv) = length wv + 1"
    "set (takeWhile (\<lambda>x. x < w) wv @ [w] @ dropWhile (\<lambda>x. x < w) wv) = insert w (set wv)"
proof -
  let ?t = "takeWhile (\<lambda>x. x < w) wv" and ?d = "dropWhile (\<lambda>x. x < w) wv"
  have s: "sorted_wrt (<) ?t" "sorted_wrt (<) ?d" "\<forall>x\<in>set ?t. \<forall>y\<in>set ?d. x < y"
    using assms(1) by (metis takeWhile_dropWhile_id sorted_wrt_append)+
  have t: "\<forall>x\<in>set ?t. x < w" by (auto dest: set_takeWhileD)
  have d: "x > w" if "x \<in> set ?d" for x
  proof (cases ?d)
    case (Cons y ys)
    then have "\<not> y < w" using hd_dropWhile [of "\<lambda>x. x < w" wv] by simp
    moreover have "y \<noteq> w" using assms(2) Cons set_dropWhileD [of y "\<lambda>x. x < w" wv] by auto
    ultimately have "w < y" by simp
    moreover have "\<forall>z\<in>set ys. y < z" using s Cons by (simp add: sorted_wrt_append)
    ultimately show ?thesis using that Cons by auto
  next
    case Nil
    show ?thesis using that unfolding Nil by simp
  qed
  show "list_all (\<lambda>x. x > w) ?d" using d by (simp add: list_all_iff)
  show "sorted_wrt (<) (?t @ [w] @ ?d)"
    by (rule sorted_insert [OF s t]) (use d in blast)
  have c: "?t @ ?d = wv" by simp
  show "length (?t @ [w] @ ?d) = length wv + 1" using length_append [of ?t ?d] unfolding c by simp
  show "set (?t @ [w] @ ?d) = insert w (set wv)" using set_append [of ?t ?d] unfolding c by auto
qed

lemma find_word_ok: "find_word w xs \<le> length xs" "find_word w xs = length xs \<longleftrightarrow> w \<notin> set xs"
  "find_word w xs < length xs \<Longrightarrow> xs ! find_word w xs = w"
  by (induction xs) auto

lemma concat_if_filter: "concat (map (\<lambda>j. if P j then [f j] else []) xs) = map f (filter P xs)"
  by (induction xs) auto

lemma delFrom_words_ok:
  assumes "sorted_wrt (<) wv" "w \<in> set wv"
  defines "i \<equiv> find_word w wv"
  shows "sorted_wrt (<) [wv ! j. j \<leftarrow> [0..<length wv], j \<noteq> i]" "length [wv ! j. j \<leftarrow> [0..<length wv], j \<noteq> i] = length wv - 1"
    "set [wv ! j. j \<leftarrow> [0..<length wv], j \<noteq> i] = set wv - {w}"
proof -
  have i: "i < length wv" "wv ! i = w" using find_word_ok [where xs = wv and w = w] assms(2) by (auto simp: i_def le_less)
  have e: "[wv ! j. j \<leftarrow> [0..<length wv], j \<noteq> i] = map ((!) wv) (filter (\<lambda>j. j \<noteq> i) [0..<length wv])"
    by (rule concat_if_filter)
  have up: "[0..<length wv] = [0..<i] @ i # [Suc i..<length wv]"
    using i(1) by (metis le_add1 le_add_same_cancel1 less_imp_add_positive upt_add_eq_append upt_conv_Cons)
  have f: "filter (\<lambda>j. j \<noteq> i) [0..<length wv] = [0..<i] @ [Suc i..<length wv]"
    unfolding up by (simp add: filter_id_conv)
  have l: "[wv ! j. j \<leftarrow> [0..<length wv], j \<noteq> i] = take i wv @ drop (Suc i) wv"
    unfolding e f using i(1) by (auto simp: list_eq_iff_nth_eq nth_append)
  have wv: "wv = take i wv @ w # drop (Suc i) wv" using i id_take_nth_drop by metis
  have d: "w \<notin> set (take i wv)" "w \<notin> set (drop (Suc i) wv)" "sorted_wrt (<) (take i wv @ drop (Suc i) wv)"
    using assms(1) by (subst (asm) wv; auto simp: sorted_wrt_append)+
  show "sorted_wrt (<) [wv ! j. j \<leftarrow> [0..<length wv], j \<noteq> i]" unfolding l by (rule d)
  show "length [wv ! j. j \<leftarrow> [0..<length wv], j \<noteq> i] = length wv - 1" unfolding l using i(1) by simp
  have "set wv = insert w (set (take i wv @ drop (Suc i) wv))" by (subst wv) auto
  then show "set [wv ! j. j \<leftarrow> [0..<length wv], j \<noteq> i] = set wv - {w}" unfolding l using d by auto
qed

subsection \<open>Result caches\<close>

text \<open>A cache holds only results that are right for \<open>P\<close>.\<close>

definition cache_ok :: "(UWord \<Rightarrow> UWord \<Rightarrow> UWord \<Rightarrow> bool) \<Rightarrow> WCache \<Rightarrow> bool" where
  "cache_ok P c \<longleftrightarrow> 1 \<le> dynMax c \<and> dynMax c \<le> N_WCACHE_STAT_MAX \<and> length (ents c) \<le> dynMax c \<and>
     (\<forall>e\<in>set (ents c). P (arg1 e) (arg2 e) (res e))"

lemma cache_ok_mono: "cache_ok P c \<Longrightarrow> (\<And>a b r. P a b r \<Longrightarrow> Q a b r) \<Longrightarrow> cache_ok Q c"
  by (auto simp: cache_ok_def)

lemma WCache_search_ok:
  "WCache_search prev es a1 a2 = Some (r, es') \<Longrightarrow>
     (\<exists>e\<in>set es. arg1 e = a1 \<and> arg2 e = a2 \<and> res e = r) \<and> set es' = insert prev (set es) \<and> length es' = Suc (length es)"
  by (induction prev es a1 a2 arbitrary: es' rule: WCache_search.induct) (auto split: if_splits)

lemma WCache_LOOKUP_ok:
  assumes "cache_ok P c"
  obtains "WCache_LOOKUP c a b = Some None"
  | r c' where "WCache_LOOKUP c a b = Some (Some (r, c'))" "P a b r" "cache_ok P c'"
proof (cases "ents c")
  case Nil
  then show ?thesis using assms that(1) by (simp add: WCache_LOOKUP_def WCache_asserts_def cache_ok_def)
next
  case (Cons e es)
  have as: "WCache_asserts c = Some ()" using assms by (simp add: WCache_asserts_def cache_ok_def)
  show ?thesis
  proof (cases "arg1 e = a \<and> arg2 e = b")
    case True
    then show ?thesis using assms Cons as that(2) by (auto simp: WCache_LOOKUP_def cache_ok_def)
  next
    case False
    show ?thesis
    proof (cases "WCache_search e es a b")
      case None
      then show ?thesis using that(1) False Cons as by (auto simp: WCache_LOOKUP_def)
    next
      case (Some p)
      obtain r es' where p: "p = (r, es')" by force
      from WCache_search_ok [OF Some [unfolded p]] obtain f where
        f: "f \<in> set es" "arg1 f = a" "arg2 f = b" "res f = r" "set es' = insert e (set es)" "length es' = Suc (length es)" by blast
      then have "P a b r" "cache_ok P (c\<lparr>ents := es'\<rparr>)" using assms Cons by (auto simp: cache_ok_def)
      then show ?thesis using that(2) False Cons as Some p by (auto simp: WCache_LOOKUP_def)
    qed
  qed
qed

lemma WCache_UPDATE_ok:
  assumes "cache_ok P c" "P a b r"
  shows "\<exists>c'. WCache_UPDATE c a b r = Some c' \<and> cache_ok P c'"
proof -
  have "set (take n (ents c)) \<subseteq> set (ents c)" for n by (rule set_take_subset)
  then show ?thesis using assms by (auto simp: WCache_UPDATE_def WCache_asserts_def cache_ok_def Let_def)
qed

subsection \<open>Well-formed universes\<close>

definition valid_ws :: "WordSetU \<Rightarrow> WordSet \<Rightarrow> bool" where
  "valid_ws u ws \<longleftrightarrow> unat ws < ix2vec_used u"

definition wset :: "WordSetU \<Rightarrow> WordSet \<Rightarrow> UWord set" where
  "wset u ws = set (ix2vec u ! unat ws)"

definition memo_elem :: "WordSetU \<Rightarrow> (UWord set \<Rightarrow> UWord \<Rightarrow> UWord set) \<Rightarrow> UWord \<Rightarrow> UWord \<Rightarrow> UWord \<Rightarrow> bool" where
  "memo_elem u f a1 a2 r \<longleftrightarrow> (\<exists>ws rs. a1 = ucast ws \<and> r = ucast rs \<and> valid_ws u ws \<and> valid_ws u rs \<and> wset u rs = f (wset u ws) a2)"

definition memo_set :: "WordSetU \<Rightarrow> (UWord set \<Rightarrow> UWord set \<Rightarrow> UWord set) \<Rightarrow> UWord \<Rightarrow> UWord \<Rightarrow> UWord \<Rightarrow> bool" where
  "memo_set u f a1 a2 r \<longleftrightarrow> (\<exists>ws1 ws2 rs. a1 = ucast ws1 \<and> a2 = ucast ws2 \<and> r = ucast rs \<and>
     valid_ws u ws1 \<and> valid_ws u ws2 \<and> valid_ws u rs \<and> wset u rs = f (wset u ws1) (wset u ws2))"

definition vecs_ok :: "WordSetU \<Rightarrow> bool" where
  "vecs_ok u \<longleftrightarrow> ix2vec_used u \<le> unat (ix2vec_size u) \<and> unat (ix2vec_size u) < 2 ^ 32 \<and>
     (\<forall>v\<in>set (ix2vec u). sorted_wrt (<) v) \<and> distinct (ix2vec u) \<and>
     wfm_ok (vec2ix u) \<and> kCmp (vec2ix u) = Boxed cmp_WordVecs_for_FM \<and>
     (\<forall>v i. map_option snd (VG_lookupFM (vec2ix u) v) = Some i \<longleftrightarrow> unat i < ix2vec_used u \<and> ix2vec u ! unat i = v)"

definition wsu_ok :: "WordSetU \<Rightarrow> bool" where
  "wsu_ok u \<longleftrightarrow> vecs_ok u \<and> valid_ws u (empty u) \<and> wset u (empty u) = {} \<and>
     cache_ok (memo_elem u (\<lambda>A w. insert w A)) (cache_addTo u) \<and> cache_ok (memo_elem u (\<lambda>A w. A - {w})) (cache_delFrom u) \<and>
     cache_ok (memo_set u (\<inter>)) (cache_intersect u) \<and> cache_ok (memo_set u (-)) (cache_minus u)"

text \<open>The universe grows: old sets keep their names.\<close>

definition ext :: "WordSetU \<Rightarrow> WordSetU \<Rightarrow> bool" where
  "ext u u' \<longleftrightarrow> (\<exists>vs. ix2vec u' = ix2vec u @ vs) \<and> empty u' = empty u"

lemma ext_refl [simp]: "ext u u" by (simp add: ext_def)

lemma ext_trans: "ext u v \<Longrightarrow> ext v w \<Longrightarrow> ext u w"
  by (auto simp: ext_def)

lemma ext_valid: "ext u u' \<Longrightarrow> valid_ws u ws \<Longrightarrow> valid_ws u' ws \<and> wset u' ws = wset u ws"
  by (auto simp: ext_def valid_ws_def wset_def ix2vec_used_def nth_append)

lemma memo_ext:
  assumes "ext u u'"
  shows "memo_elem u f a b r \<Longrightarrow> memo_elem u' f a b r" "memo_set u g a b r \<Longrightarrow> memo_set u' g a b r"
  using ext_valid [OF assms] unfolding memo_elem_def memo_set_def by metis+

definition room :: "WordSetU \<Rightarrow> bool" where
  "room u \<longleftrightarrow> ix2vec_used u < 2 ^ 31"

definition same_rest :: "WordSetU \<Rightarrow> WordSetU \<Rightarrow> bool" where
  "same_rest u u' \<longleftrightarrow> cache_addTo u' = cache_addTo u \<and> cache_delFrom u' = cache_delFrom u \<and>
     cache_intersect u' = cache_intersect u \<and> cache_minus u' = cache_minus u \<and> stats u' = stats u"

lemma ensure_space_ok:
  assumes "vecs_ok u" "room u"
  shows "\<exists>n. ensure_ix2vec_space u = Some (u\<lparr>ix2vec_size := n\<rparr>) \<and> ix2vec_used u < unat n \<and> unat n < 2 ^ 32"
proof (cases "ix2vec_used u < unat (ix2vec_size u)")
  case True
  then show ?thesis
    using assms by (intro exI [of _ "ix2vec_size u"]) (simp add: ensure_ix2vec_space_def vecs_ok_def)
next
  case False
  let ?n = "ucast (2 * ix2vec_size u) :: UInt"
  from False assms have e: "ix2vec_used u = unat (ix2vec_size u)" "unat (ix2vec_size u) < 2 ^ 31"
    by (auto simp: vecs_ok_def room_def)
  have n: "unat ?n = 2 * unat (ix2vec_size u)"
    using e(2) by (simp add: unsigned_ucast_eq take_bit_eq_mod unat_word_ariths)
  let ?m = "if ?n = 0 then 2 else ?n"
  have u: "unat (ucast x :: UWord) = unat x" for x :: UInt
    using unsigned_less [of x, where 'a = nat] by (simp add: unsigned_ucast_eq take_bit_eq_mod)
  have "unat ?m > unat (ix2vec_size u)" "unat ?m < 2 ^ 32"
    using n e(2) unsigned_less [of ?m, where 'a = nat] by (auto simp: unat_eq_0 [symmetric])
  then show ?thesis
    using e(1) by (intro exI [of _ "ucast ?m"]) (auto simp: ensure_ix2vec_space_def Let_def u)
qed

lemma lookup_vec:
  assumes "vecs_ok u" "VG_lookupFM (vec2ix u) v = Some (k, i)"
  shows "k = v" "unat i < ix2vec_used u" "ix2vec u ! unat i = v"
  using assms wordvec_map.lookup_same [of "vec2ix u" v k i] unfolding vecs_ok_def by auto

lemma unat_index: "n < 2 ^ 32 \<Longrightarrow> unat (of_nat n :: UInt) = n" "n < 2 ^ 32 \<Longrightarrow> unat (of_nat n :: UWord) = n"
  "unat (w :: UWord) < 2 ^ 32 \<Longrightarrow> unat (ucast w :: UInt) = unat w"
  by (simp_all add: unat_of_nat unsigned_ucast_eq take_bit_eq_mod)

lemma not_bogus: "unat ws < 2 ^ 32 - 1 \<Longrightarrow> ws \<noteq> (- 1 :: UInt)"
  by (auto simp: unsigned_minus_1_eq_mask mask_eq_exp_minus_1)

lemma add_or_dealloc_ok:
  assumes "vecs_ok u" "room u" "sorted_wrt (<) wv"
  shows "\<exists>ws u'. add_or_dealloc_WordVec u wv = Some (ws, u') \<and> vecs_ok u' \<and> ext u u' \<and> same_rest u u' \<and>
    valid_ws u' ws \<and> ix2vec u' ! unat ws = wv \<and> ws \<noteq> - 1"
proof (cases "VG_lookupFM (vec2ix u) wv")
  case (Some p)
  obtain k i where p: "p = (k, i)" by force
  note l = lookup_vec [OF assms(1) Some [unfolded p]]
  have "unat i < 2 ^ 32 - 1" using l(2) assms(1) by (simp add: vecs_ok_def)
  then have "unat (ucast i :: UInt) = unat i" "unat (ucast i :: UInt) < 2 ^ 32 - 1" by (simp_all add: unat_index)
  moreover from this(2) have "(ucast i :: UInt) \<noteq> - 1" by (rule not_bogus)
  ultimately show ?thesis
    using Some p l assms(1) by (auto simp: add_or_dealloc_WordVec_def same_rest_def valid_ws_def)
next
  case None
  obtain n where n: "ensure_ix2vec_space u = Some (u\<lparr>ix2vec_size := n\<rparr>)" "ix2vec_used u < unat n" "unat n < 2 ^ 32"
    using ensure_space_ok [OF assms(1,2)] by blast
  let ?k = "ix2vec_used u"
  have fm: "wfm_ok (vec2ix u) \<and> kCmp (vec2ix u) = Boxed cmp_WordVecs_for_FM" using assms(1) by (simp add: vecs_ok_def)
  obtain m where m: "VG_addToFM (vec2ix u) wv (of_nat ?k) = Some (False, m)" "wfm_ok m \<and> kCmp m = Boxed cmp_WordVecs_for_FM"
    using wordvec_map.add_total [OF fm, of wv "of_nat ?k"] None by auto
  have lk: "map_option snd (VG_lookupFM m v) = (if wv = v then Some (of_nat ?k) else map_option snd (VG_lookupFM (vec2ix u) v))" for v
    by (rule wordvec_map.lookup_add [OF fm m(1)])
  have k: "unat (of_nat ?k :: UWord) = ?k" "unat (of_nat ?k :: UInt) = ?k" using n by (simp_all add: unat_index)
  let ?u = "u\<lparr>ix2vec_size := n, ix2vec := ix2vec u @ [wv], vec2ix := m\<rparr>"
  have used: "ix2vec_used ?u = Suc ?k" by (simp add: ix2vec_used_def)
  have r: "add_or_dealloc_WordVec u wv = Some (of_nat ?k, ?u)"
    using None n(1,2) m(1) by (simp add: add_or_dealloc_WordVec_def ix2vec_used_def Let_def)
  have new: "\<not> (unat i < ?k \<and> ix2vec u ! unat i = wv)" for i :: UWord
    using None assms(1) unfolding vecs_ok_def by (metis option.map_disc_iff option.simps(3))
  have "wv \<notin> set (ix2vec u)"
  proof
    assume "wv \<in> set (ix2vec u)"
    then obtain i where i: "i < ?k" "ix2vec u ! i = wv" by (auto simp: in_set_conv_nth ix2vec_used_def)
    moreover have "unat (of_nat i :: UWord) = i" using i(1) n(2,3) by (simp add: unat_index)
    ultimately show False using new by metis
  qed
  moreover have "map_option snd (VG_lookupFM m v) = Some i \<longleftrightarrow> unat i < Suc ?k \<and> (ix2vec u @ [wv]) ! unat i = v" for v i
  proof (cases "unat i = ?k")
    case True
    then have "i = of_nat ?k" using k(1) by (metis unat_eq_iff)
    moreover have "map_option snd (VG_lookupFM (vec2ix u) v) \<noteq> Some i" using True assms(1) by (simp add: vecs_ok_def)
    ultimately show ?thesis using True by (auto simp: lk ix2vec_used_def)
  next
    case False
    then have "i \<noteq> of_nat ?k" using k(1) by metis
    then show ?thesis
      using False new [of i] assms(1) by (auto simp: lk vecs_ok_def ix2vec_used_def nth_append less_Suc_eq)
  qed
  ultimately have "vecs_ok ?u" using assms(1,3) m(2) n(2,3) used unfolding vecs_ok_def by simp
  moreover have "unat (of_nat ?k :: UInt) < 2 ^ 32 - 1" using k n by simp
  then have "(of_nat ?k :: UInt) \<noteq> - 1" by (rule not_bogus)
  ultimately show ?thesis
    using r k used by (auto simp: ext_def same_rest_def valid_ws_def ix2vec_used_def)
qed

subsection \<open>Sets are interned\<close>

lemma ucast_back [simp]: "(ucast (ucast (x :: UInt) :: UWord) :: UInt) = x"
  by (rule bit_word_eqI) (simp add: bit_ucast_iff)

lemma ucast_inj [simp]: "(ucast (x :: UInt) :: UWord) = ucast y \<longleftrightarrow> x = y"
  by (metis ucast_back)

lemma bump_simps [simp]:
  "ix2vec (bump f u) = ix2vec u" "vec2ix (bump f u) = vec2ix u" "ix2vec_size (bump f u) = ix2vec_size u" "empty (bump f u) = empty u"
  "cache_addTo (bump f u) = cache_addTo u" "cache_delFrom (bump f u) = cache_delFrom u"
  "cache_intersect (bump f u) = cache_intersect u" "cache_minus (bump f u) = cache_minus u"
  by (simp_all add: bump_def)

lemma frame_simps:
  assumes "ix2vec u' = ix2vec u"
  shows "ix2vec_used u' = ix2vec_used u" "valid_ws u' = valid_ws u" "wset u' = wset u" "memo_elem u' = memo_elem u" "memo_set u' = memo_set u"
  using assms by (simp_all add: ix2vec_used_def valid_ws_def wset_def memo_elem_def memo_set_def fun_eq_iff)

lemma bump_frame [simp]:
  "ix2vec_used (bump f u) = ix2vec_used u" "valid_ws (bump f u) = valid_ws u" "wset (bump f u) = wset u"
  "memo_elem (bump f u) = memo_elem u" "memo_set (bump f u) = memo_set u"
  by (rule frame_simps; simp)+

lemma bump_ok [simp]:
  "vecs_ok (bump f u) = vecs_ok u" "wsu_ok (bump f u) = wsu_ok u" "room (bump f u) = room u"
  "do_ix2vec (bump f u) ws = do_ix2vec u ws" "ext (bump f u) v = ext u v" "ext v (bump f u) = ext v u"
  by (simp_all add: vecs_ok_def wsu_ok_def room_def do_ix2vec_def ext_def)

lemma caches_frame:
  "ix2vec (u\<lparr>cache_addTo := c\<rparr>) = ix2vec u" "ix2vec (u\<lparr>cache_delFrom := c\<rparr>) = ix2vec u"
  "ix2vec (u\<lparr>cache_intersect := c\<rparr>) = ix2vec u" "ix2vec (u\<lparr>cache_minus := c\<rparr>) = ix2vec u"
  by simp_all

lemmas cache_frame = frame_simps [OF caches_frame(1)] frame_simps [OF caches_frame(2)]
  frame_simps [OF caches_frame(3)] frame_simps [OF caches_frame(4)]

lemma cache_wsu_ok:
  assumes "wsu_ok u"
  shows "cache_ok (memo_elem u (\<lambda>A w. insert w A)) c \<Longrightarrow> wsu_ok (u\<lparr>cache_addTo := c\<rparr>)"
    "cache_ok (memo_elem u (\<lambda>A w. A - {w})) c \<Longrightarrow> wsu_ok (u\<lparr>cache_delFrom := c\<rparr>)"
    "cache_ok (memo_set u (\<inter>)) c \<Longrightarrow> wsu_ok (u\<lparr>cache_intersect := c\<rparr>)"
    "cache_ok (memo_set u (-)) c \<Longrightarrow> wsu_ok (u\<lparr>cache_minus := c\<rparr>)"
  using assms by (simp_all add: wsu_ok_def vecs_ok_def cache_frame)

lemma ext_caches [simp]:
  "ext u (v\<lparr>cache_addTo := c\<rparr>) = ext u v" "ext u (v\<lparr>cache_delFrom := c\<rparr>) = ext u v"
  "ext u (v\<lparr>cache_intersect := c\<rparr>) = ext u v" "ext u (v\<lparr>cache_minus := c\<rparr>) = ext u v"
  by (simp_all add: ext_def)

lemma intern_ok:
  assumes "wsu_ok u" "room u" "sorted_wrt (<) wv"
  shows "\<exists>ws u'. add_or_dealloc_WordVec u wv = Some (ws, u') \<and> wsu_ok u' \<and> ext u u' \<and>
    valid_ws u' ws \<and> wset u' ws = set wv \<and> ws \<noteq> - 1"
proof -
  have "vecs_ok u" using assms(1) by (simp add: wsu_ok_def)
  from add_or_dealloc_ok [OF this assms(2,3)] obtain ws u' where
    r: "add_or_dealloc_WordVec u wv = Some (ws, u')" "vecs_ok u'" "ext u u'" "same_rest u u'" "valid_ws u' ws" "ix2vec u' ! unat ws = wv" "ws \<noteq> - 1"
    by blast
  have "cache_ok (memo_elem u f) c \<Longrightarrow> cache_ok (memo_elem u' f) c" "cache_ok (memo_set u g) c \<Longrightarrow> cache_ok (memo_set u' g) c" for f g c
    using cache_ok_mono memo_ext [OF r(3)] by metis+
  moreover have "valid_ws u' (empty u') \<and> wset u' (empty u') = {}"
    using assms(1) ext_valid [OF r(3), of "empty u"] r(3) by (simp add: wsu_ok_def ext_def)
  ultimately have "wsu_ok u'" using assms(1) r(2,4) by (simp add: wsu_ok_def same_rest_def)
  then show ?thesis using r by (auto simp: wset_def)
qed

lemma valid_vec: "wsu_ok u \<Longrightarrow> valid_ws u ws \<Longrightarrow> do_ix2vec u ws = Some (ix2vec u ! unat ws)"
  "wsu_ok u \<Longrightarrow> valid_ws u ws \<Longrightarrow> sorted_wrt (<) (ix2vec u ! unat ws)"
  by (auto simp: do_ix2vec_def wsu_ok_def vecs_ok_def valid_ws_def ix2vec_used_def)

lemma canonical:
  assumes "wsu_ok u" "valid_ws u ws1" "valid_ws u ws2" "wset u ws1 = wset u ws2"
  shows "ws1 = ws2"
proof -
  have "ix2vec u ! unat ws1 = ix2vec u ! unat ws2"
    using strict_sorted_equal [OF valid_vec(2) [OF assms(1,2)] valid_vec(2) [OF assms(1,3)]] assms(4) by (simp add: wset_def)
  then have "unat ws1 = unat ws2"
    using assms(1-3) nth_eq_iff_index_eq unfolding wsu_ok_def vecs_ok_def valid_ws_def ix2vec_used_def by blast
  then show ?thesis by (simp add: unat_eq_iff)
qed

lemma is_empty: "wsu_ok u \<Longrightarrow> valid_ws u ws \<Longrightarrow> wset u ws = {} \<longleftrightarrow> ws = empty u"
  using canonical [of u ws "empty u"] by (auto simp: wsu_ok_def)

definition op_ok :: "WordSetU \<Rightarrow> (WordSet \<times> WordSetU) option \<Rightarrow> UWord set \<Rightarrow> bool" where
  "op_ok u r S \<longleftrightarrow> (\<exists>ws u'. r = Some (ws, u') \<and> wsu_ok u' \<and> ext u u' \<and> valid_ws u' ws \<and> wset u' ws = S)"

lemma addTo_uncached_ok:
  assumes "wsu_ok u" "room u" "valid_ws u ws"
  shows "op_ok u (addTo_uncached u ws w) (insert w (wset u ws))"
proof -
  let ?v = "ix2vec u ! unat ws"
  note v = valid_vec [OF assms(1,3)]
  show ?thesis
  proof (cases "w \<in> set ?v")
    case True
    then have "list_ex (\<lambda>x. x = w) ?v" "insert w (wset u ws) = wset u ws" by (auto simp: list_ex_iff wset_def)
    then show ?thesis using assms v by (simp add: op_ok_def addTo_uncached_def)
  next
    case False
    note a = addTo_words_ok [OF v(2) False]
    obtain rs u' where "add_or_dealloc_WordVec u (takeWhile (\<lambda>x. x < w) ?v @ [w] @ dropWhile (\<lambda>x. x < w) ?v) = Some (rs, u')"
        "wsu_ok u'" "ext u u'" "valid_ws u' rs" "wset u' rs = insert w (set ?v)" "rs \<noteq> - 1"
      using intern_ok [OF assms(1,2) a(1)] unfolding a(4) by auto
    then show ?thesis using False a(2,3) v(1) by (auto simp: op_ok_def addTo_uncached_def list_ex_iff Let_def wset_def)
  qed
qed

lemma delFrom_uncached_ok:
  assumes "wsu_ok u" "room u" "valid_ws u ws"
  shows "op_ok u (delFrom_uncached u ws (ix2vec u ! unat ws) w) (wset u ws - {w})"
proof -
  let ?v = "ix2vec u ! unat ws"
  note v = valid_vec [OF assms(1,3)]
  show ?thesis
  proof (cases "w \<in> set ?v")
    case False
    then have "find_word w ?v = length ?v" by (simp add: find_word_ok)
    then show ?thesis using False assms by (simp add: op_ok_def delFrom_uncached_def wset_def)
  next
    case True
    note d = delFrom_words_ok [OF v(2) True]
    let ?n = "[?v ! j. j \<leftarrow> [0..<length ?v], j \<noteq> find_word w ?v]"
    have i: "find_word w ?v \<noteq> length ?v" using True by (simp add: find_word_ok)
    obtain rs u' where r: "add_or_dealloc_WordVec u ?n = Some (rs, u')"
        "wsu_ok u'" "ext u u'" "valid_ws u' rs" "wset u' rs = set ?n"
      using intern_ok [OF assms(1,2) d(1)] by blast
    have "rs = empty u'" if "length ?v = 1"
    proof -
      have "length ?n = 0" using d(2) that by simp
      then have "wset u' rs = {}" unfolding r(5) by (simp only: length_0_conv list.set)
      then show ?thesis using is_empty [OF r(2,4)] by simp
    qed
    then show ?thesis using i d(2,3) r by (auto simp: op_ok_def delFrom_uncached_def Let_def wset_def)
  qed
qed

lemma intersect_uncached_ok:
  assumes "wsu_ok u" "room u" "valid_ws u ws1" "valid_ws u ws2"
  shows "op_ok u (intersect_uncached u ws1 ws2) (wset u ws1 \<inter> wset u ws2)"
proof -
  let ?v = "ix2vec u ! unat ws1" and ?w = "ix2vec u ! unat ws2"
  note v = valid_vec [OF assms(1,3)] valid_vec [OF assms(1,4)]
  obtain rs u' where r: "add_or_dealloc_WordVec u (intersect_words ?v ?w) = Some (rs, u')"
      "wsu_ok u'" "ext u u'" "valid_ws u' rs" "wset u' rs = set (intersect_words ?v ?w)" "rs \<noteq> - 1"
    using intern_ok [OF assms(1,2) intersect_words_sorted [OF v(2,4)]] by blast
  have "intersect_size ?v ?w = 0 \<longrightarrow> rs = empty u'"
    using is_empty [OF r(2,4)] r(5) by (simp add: intersect_words_length [symmetric])
  then show ?thesis
    using r v intersect_words_set [OF v(2,4)] by (simp add: op_ok_def intersect_uncached_def intersect_words_length wset_def)
qed

lemma minus_uncached_ok:
  assumes "wsu_ok u" "room u" "valid_ws u ws1" "valid_ws u ws2"
  shows "op_ok u (minus_uncached u ws1 ws2) (wset u ws1 - wset u ws2)"
proof -
  let ?v = "ix2vec u ! unat ws1" and ?w = "ix2vec u ! unat ws2"
  note v = valid_vec [OF assms(1,3)] valid_vec [OF assms(1,4)]
  obtain rs u' where r: "add_or_dealloc_WordVec u (minus_words ?v ?w) = Some (rs, u')"
      "wsu_ok u'" "ext u u'" "valid_ws u' rs" "wset u' rs = set (minus_words ?v ?w)" "rs \<noteq> - 1"
    using intern_ok [OF assms(1,2) minus_words_sorted [OF v(2,4)]] by blast
  have "minus_size ?v ?w = 0 \<longrightarrow> rs = empty u'"
    using is_empty [OF r(2,4)] r(5) by (simp add: minus_words_length [symmetric])
  then show ?thesis
    using r v minus_words_set [OF v(2,4)] by (simp add: op_ok_def minus_uncached_def minus_words_length wset_def)
qed

subsection \<open>The cached operations\<close>

lemma op_ok_bump [simp]: "op_ok (bump f u) r S = op_ok u r S"
  by (simp add: op_ok_def)

lemma cached_ok:
  assumes u: "wsu_ok u"
    and get: "\<And>v. wsu_ok v \<Longrightarrow> cache_ok (P v) (get v)"
    and put: "\<And>v c. wsu_ok v \<Longrightarrow> cache_ok (P v) c \<Longrightarrow> wsu_ok (put c v) \<and> ix2vec (put c v) = ix2vec v \<and> empty (put c v) = empty v"
    and hit: "\<And>r. P u a b r \<Longrightarrow> \<exists>rs. r = ucast rs \<and> valid_ws u rs \<and> wset u rs = S"
    and miss: "op_ok u m S"
    and store: "\<And>v rs. ext u v \<Longrightarrow> valid_ws v rs \<Longrightarrow> wset v rs = S \<Longrightarrow> P v a b (ucast rs)"
  shows "op_ok u (do { h \<leftarrow> WCache_LOOKUP (get u) a b;
    (case h of Some (r, c) \<Rightarrow> Some (ucast r, put c u)
     | None \<Rightarrow> do { (rs, v) \<leftarrow> m; c \<leftarrow> WCache_UPDATE (get v) a b (ucast rs); Some (rs, put c v) }) }) S"
  using get [OF u]
proof (cases rule: WCache_LOOKUP_ok [where a = a and b = b])
  case 1
  obtain rs v where v: "m = Some (rs, v)" "wsu_ok v" "ext u v" "valid_ws v rs" "wset v rs = S"
    using miss by (auto simp: op_ok_def)
  obtain c where c: "WCache_UPDATE (get v) a b (ucast rs) = Some c" "cache_ok (P v) c"
    using WCache_UPDATE_ok [OF get [OF v(2)] store [OF v(3-5)]] by blast
  note p = put [OF v(2) c(2)]
  have "valid_ws (put c v) rs" "wset (put c v) rs = S" "ext u (put c v)"
    using v(3-5) p frame_simps [of "put c v" v] by (simp_all add: ext_def)
  then show ?thesis using 1 v(1) c(1) p by (simp add: op_ok_def)
next
  case (2 r c)
  obtain rs where rs: "r = ucast rs" "valid_ws u rs" "wset u rs = S" using hit [OF 2(2)] by blast
  note p = put [OF u 2(3)]
  have "valid_ws (put c u) rs" "wset (put c u) rs = S" "ext u (put c u)"
    using rs(2,3) p frame_simps [of "put c u" u] by (simp_all add: ext_def)
  then show ?thesis using 2(1) rs(1) p by (simp add: op_ok_def)
qed

lemma addToWS_ok:
  assumes "wsu_ok u" "room u" "valid_ws u ws"
  shows "op_ok u (HG_addToWS u ws w) (insert w (wset u ws))"
proof -
  let ?b = "bump (n_add_update (\<lambda>n. n + 1)) u" and ?f = "\<lambda>A w. insert w A"
  have "op_ok ?b (HG_addToWS u ws w) (insert w (wset u ws))"
    unfolding HG_addToWS_def Let_def
  proof (rule cached_ok [where get = cache_addTo and put = "\<lambda>c v. v\<lparr>cache_addTo := c\<rparr>" and P = "\<lambda>v. memo_elem v ?f"])
    show "op_ok ?b (addTo_uncached (bump (n_add_uncached_update (\<lambda>n. n + 1)) ?b) ws w) (insert w (wset u ws))"
      using addTo_uncached_ok [of "bump (n_add_uncached_update (\<lambda>n. n + 1)) ?b" ws w] assms by simp
    show "memo_elem v ?f (ucast ws) w (ucast rs)" if "ext ?b v" "valid_ws v rs" "wset v rs = insert w (wset u ws)" for v rs
      using that ext_valid [of u v ws] assms(3) by (auto simp: memo_elem_def)
  qed (use assms cache_wsu_ok(1) in \<open>auto simp: wsu_ok_def memo_elem_def\<close>)
  then show ?thesis by simp
qed

lemma minusWS_ok:
  assumes "wsu_ok u" "room u" "valid_ws u ws1" "valid_ws u ws2"
  shows "op_ok u (HG_minusWS u ws1 ws2) (wset u ws1 - wset u ws2)"
proof -
  let ?b = "bump (n_minus_update (\<lambda>n. n + 1)) u"
  have "op_ok ?b (HG_minusWS u ws1 ws2) (wset u ws1 - wset u ws2)"
    unfolding HG_minusWS_def Let_def
  proof (rule cached_ok [where get = cache_minus and put = "\<lambda>c v. v\<lparr>cache_minus := c\<rparr>" and P = "\<lambda>v. memo_set v (-)"])
    show "op_ok ?b (minus_uncached (bump (n_minus_uncached_update (\<lambda>n. n + 1)) ?b) ws1 ws2) (wset u ws1 - wset u ws2)"
      using minus_uncached_ok [of "bump (n_minus_uncached_update (\<lambda>n. n + 1)) ?b" ws1 ws2] assms by simp
    show "memo_set v (-) (ucast ws1) (ucast ws2) (ucast rs)" if "ext ?b v" "valid_ws v rs" "wset v rs = wset u ws1 - wset u ws2" for v rs
      using that ext_valid [of u v] assms(3,4) by (auto simp: memo_set_def)
  qed (use assms cache_wsu_ok(4) in \<open>auto simp: wsu_ok_def memo_set_def\<close>)
  then show ?thesis by simp
qed

lemma intersectWS_ok:
  assumes "wsu_ok u" "room u" "valid_ws u ws1" "valid_ws u ws2"
  shows "op_ok u (HG_intersectWS u ws1 ws2) (wset u ws1 \<inter> wset u ws2)"
proof (cases "ws1 = ws2")
  case True
  then show ?thesis using assms by (simp add: HG_intersectWS_def op_ok_def)
next
  case False
  let ?b = "bump (n_intersect_update (\<lambda>n. n + 1)) u"
  have main: "op_ok ?b (do {
       h \<leftarrow> WCache_LOOKUP (cache_intersect ?b) (ucast x) (ucast y);
       (case h of
          Some (r, c) \<Rightarrow> Some (ucast r, ?b\<lparr>cache_intersect := c\<rparr>)
        | None \<Rightarrow> do {
            (rs, v) \<leftarrow> intersect_uncached (bump (n_intersect_uncached_update (\<lambda>n. n + 1)) ?b) x y;
            c \<leftarrow> WCache_UPDATE (cache_intersect v) (ucast x) (ucast y) (ucast rs);
            Some (rs, v\<lparr>cache_intersect := c\<rparr>) }) }) (wset u x \<inter> wset u y)" if xy: "valid_ws u x" "valid_ws u y" for x y
  proof (rule cached_ok [where get = cache_intersect and put = "\<lambda>c v. v\<lparr>cache_intersect := c\<rparr>" and P = "\<lambda>v. memo_set v (\<inter>)"])
    show "op_ok ?b (intersect_uncached (bump (n_intersect_uncached_update (\<lambda>n. n + 1)) ?b) x y) (wset u x \<inter> wset u y)"
      using intersect_uncached_ok [of "bump (n_intersect_uncached_update (\<lambda>n. n + 1)) ?b" x y] assms xy by simp
    show "memo_set v (\<inter>) (ucast x) (ucast y) (ucast rs)" if "ext ?b v" "valid_ws v rs" "wset v rs = wset u x \<inter> wset u y" for v rs
      using that ext_valid [of u v] xy by (auto simp: memo_set_def)
  qed (use assms cache_wsu_ok(3) in \<open>auto simp: wsu_ok_def memo_set_def\<close>)
  show ?thesis
    using main [OF assms(3,4)] main [OF assms(4,3)] False by (auto simp: HG_intersectWS_def Let_def Int_commute)
qed

lemma delFromWS_ok:
  assumes "wsu_ok u" "room u" "valid_ws u ws"
  shows "op_ok u (HG_delFromWS u ws w) (wset u ws - {w})"
proof (cases "ix2vec u ! unat ws = []")
  case True
  then have "wset u ws = {}" by (simp add: wset_def)
  then have "ws = empty u" using is_empty [OF assms(1,3)] by simp
  then show ?thesis using True assms valid_vec(1) [OF assms(1,3)] by (simp add: HG_delFromWS_def op_ok_def wset_def Let_def)
next
  case False
  let ?b = "bump (n_del_update (\<lambda>n. n + 1)) u" and ?f = "\<lambda>A w. A - {w}"
  let ?v = "ix2vec u ! unat ws"
  have "op_ok ?b (do { h \<leftarrow> WCache_LOOKUP (cache_delFrom ?b) (ucast ws) w;
     (case h of Some (r, c) \<Rightarrow> Some (ucast r, ?b\<lparr>cache_delFrom := c\<rparr>)
      | None \<Rightarrow> do { (rs, v) \<leftarrow> delFrom_uncached (bump (n_del_uncached_update (\<lambda>n. n + 1)) ?b) ws ?v w;
          c \<leftarrow> WCache_UPDATE (cache_delFrom v) (ucast ws) w (ucast rs);
          Some (rs, v\<lparr>cache_delFrom := c\<rparr>) }) }) (wset u ws - {w})"
  proof (rule cached_ok [where get = cache_delFrom and put = "\<lambda>c v. v\<lparr>cache_delFrom := c\<rparr>" and P = "\<lambda>v. memo_elem v ?f"])
    show "op_ok ?b (delFrom_uncached (bump (n_del_uncached_update (\<lambda>n. n + 1)) ?b) ws ?v w) (wset u ws - {w})"
      using delFrom_uncached_ok [of "bump (n_del_uncached_update (\<lambda>n. n + 1)) ?b" ws w] assms by simp
    show "memo_elem v ?f (ucast ws) w (ucast rs)" if "ext ?b v" "valid_ws v rs" "wset v rs = wset u ws - {w}" for v rs
      using that ext_valid [of u v ws] assms(3) by (auto simp: memo_elem_def)
  qed (use assms cache_wsu_ok(2) in \<open>auto simp: wsu_ok_def memo_elem_def\<close>)
  then show ?thesis using False valid_vec(1) [OF assms(1,3)] by (simp add: HG_delFromWS_def Let_def)
qed

subsection \<open>The contract of interned sets\<close>

text \<open>Handles denote sets, equal sets have equal handles, and the universe only grows. Then the
  subset test by intersection is right.\<close>

locale interned_sets =
  fixes ok :: "'u \<Rightarrow> bool"
    and has_room :: "'u \<Rightarrow> bool"
    and grows :: "'u \<Rightarrow> 'u \<Rightarrow> bool"
    and valid :: "'u \<Rightarrow> 'h \<Rightarrow> bool"
    and den :: "'u \<Rightarrow> 'h \<Rightarrow> 'a set"
    and inter :: "'u \<Rightarrow> 'h \<Rightarrow> 'h \<Rightarrow> ('h \<times> 'u) option"
  assumes den_inj: "ok u \<Longrightarrow> valid u a \<Longrightarrow> valid u b \<Longrightarrow> den u a = den u b \<Longrightarrow> a = b"
    and grows_den: "grows u v \<Longrightarrow> valid u a \<Longrightarrow> valid v a \<and> den v a = den u a"
    and inter_den: "ok u \<Longrightarrow> has_room u \<Longrightarrow> valid u a \<Longrightarrow> valid u b \<Longrightarrow>
      \<exists>c v. inter u a b = Some (c, v) \<and> ok v \<and> grows u v \<and> valid v c \<and> den v c = den u a \<inter> den u b"
begin

lemma handle_eq: "ok u \<Longrightarrow> valid u a \<Longrightarrow> valid u b \<Longrightarrow> a = b \<longleftrightarrow> den u a = den u b"
  using den_inj by blast

lemma subset_by_inter:
  assumes "ok u" "has_room u" "valid u a" "valid u b"
  shows "\<exists>c v. inter u a b = Some (c, v) \<and> ok v \<and> grows u v \<and> (a = c \<longleftrightarrow> den u a \<subseteq> den u b)"
proof -
  obtain c v where v: "inter u a b = Some (c, v)" "ok v" "grows u v" "valid v c" "den v c = den u a \<inter> den u b"
    using inter_den [OF assms] by blast
  have "a = c \<longleftrightarrow> den v a = den v c" using handle_eq [OF v(2)] v(4) grows_den [OF v(3) assms(3)] by blast
  then show ?thesis using v grows_den [OF v(3) assms(3)] by auto
qed

end

interpretation hg_sets: interned_sets wsu_ok room ext valid_ws wset HG_intersectWS
  by unfold_locales (use canonical ext_valid intersectWS_ok in \<open>auto simp: op_ok_def\<close>)

lemma new_universe:
  assumes "1 \<le> n" "n \<le> N_WCACHE_STAT_MAX"
  shows "\<exists>u. HG_newWordSetU n = Some u \<and> wsu_ok u \<and> room u \<and> ix2vec u = [[]]"
proof -
  let ?c = "\<lparr>ents = [], dynMax = n\<rparr>"
  have c: "WCache_INIT n = Some ?c" "cache_ok P ?c" for P using assms by (simp_all add: WCache_INIT_def cache_ok_def)
  let ?z = "\<lparr>n_add = 0, n_add_uncached = 0, n_del = 0, n_del_uncached = 0, n_union = 0, n_intersect = 0,
         n_intersect_uncached = 0, n_minus = 0, n_minus_uncached = 0, n_elem = 0, n_doubleton = 0, n_isEmpty = 0,
         n_isSingleton = 0, n_anyElementOf = 0, n_isSubsetOf = 0\<rparr>"
  let ?u = "\<lparr>vec2ix = VG_newFM (Boxed cmp_WordVecs_for_FM), ix2vec = [], ix2vec_size = 0, empty = 0,
       cache_addTo = ?c, cache_delFrom = ?c, cache_intersect = ?c, cache_minus = ?c, stats = ?z\<rparr>"
  have u: "vecs_ok ?u" "room ?u"
    using wordvec_map.ok_empty by (simp_all add: vecs_ok_def ix2vec_used_def wordvec_map.lookup_empty room_def)
  obtain ws v where v: "add_or_dealloc_WordVec ?u [] = Some (ws, v)" "vecs_ok v" "same_rest ?u v" "valid_ws v ws" "ix2vec v ! unat ws = []"
    using add_or_dealloc_ok [OF u, of "[]"] by auto
  have iv: "ix2vec v = [[]]"
    using v(1) by (auto simp: add_or_dealloc_WordVec_def wordvec_map.lookup_empty bind_Some_iff ensure_ix2vec_space_def Let_def split: if_splits)
  let ?v = "v\<lparr>empty := ws\<rparr>"
  have "ix2vec ?v = ix2vec v" by simp
  note fr = frame_simps [OF this]
  have "wsu_ok ?v" using v c(2) unfolding wsu_ok_def fr vecs_ok_def by (simp add: same_rest_def wset_def)
  moreover have "HG_newWordSetU n = Some ?v" using c(1) v(1) by (simp add: HG_newWordSetU_def Let_def)
  moreover have "room ?v" using iv by (simp add: room_def ix2vec_used_def)
  ultimately show ?thesis using iv by simp
qed

lemma unionWS_ok:
  assumes "wsu_ok u" "room u" "valid_ws u ws1" "valid_ws u ws2"
  shows "op_ok u (HG_unionWS u ws1 ws2) (wset u ws1 \<union> wset u ws2)"
proof -
  note v = valid_vec [OF assms(1,3)] valid_vec [OF assms(1,4)]
  let ?b = "bump (n_union_update (\<lambda>n. n + 1)) u"
  have "\<exists>rs u'. add_or_dealloc_WordVec ?b (union_words (ix2vec u ! unat ws1) (ix2vec u ! unat ws2)) = Some (rs, u') \<and>
      wsu_ok u' \<and> ext ?b u' \<and> valid_ws u' rs \<and> wset u' rs = set (union_words (ix2vec u ! unat ws1) (ix2vec u ! unat ws2)) \<and> rs \<noteq> - 1"
    by (rule intern_ok) (use assms union_words_sorted [OF v(2,4)] in simp_all)
  then show ?thesis
    using v by (auto simp: op_ok_def HG_unionWS_def union_words_length union_words_set wset_def Let_def)
qed

lemma doubletonWS_ok:
  assumes "wsu_ok u" "room u"
  shows "op_ok u (HG_doubletonWS u w1 w2) {w1, w2}"
proof -
  let ?b = "bump (n_doubleton_update (\<lambda>n. n + 1)) u" and ?v = "if w1 = w2 then [w1] else if w1 < w2 then [w1, w2] else [w2, w1]"
  have "\<exists>rs u'. add_or_dealloc_WordVec ?b ?v = Some (rs, u') \<and>
      wsu_ok u' \<and> ext ?b u' \<and> valid_ws u' rs \<and> wset u' rs = set ?v \<and> rs \<noteq> - 1"
    by (rule intern_ok) (use assms in \<open>auto simp: not_less less_le\<close>)
  then show ?thesis by (auto simp: op_ok_def HG_doubletonWS_def insert_commute split: if_splits)
qed

lemma isEmpty_elem_ok:
  assumes "wsu_ok u" "valid_ws u ws"
  shows "\<exists>u'. HG_isEmptyWS u ws = Some (wset u ws = {}, u') \<and> wsu_ok u' \<and> ext u u'"
    "\<exists>u'. HG_elemWS u ws w = Some (w \<in> wset u ws, u') \<and> wsu_ok u' \<and> ext u u'"
    "\<exists>u'. HG_isSingletonWS u ws w = Some (wset u ws = {w}, u') \<and> wsu_ok u' \<and> ext u u'"
    "HG_cardinalityWS u ws = Some (card (wset u ws))"
proof -
  let ?v = "ix2vec u ! unat ws"
  note v = valid_vec [OF assms]
  have d: "distinct ?v" using v(2) strict_sorted_iff by blast
  show "\<exists>u'. HG_isEmptyWS u ws = Some (wset u ws = {}, u') \<and> wsu_ok u' \<and> ext u u'"
    using v(1) is_empty [OF assms] assms(1) by (auto simp: HG_isEmptyWS_def Let_def wset_def)
  show "\<exists>u'. HG_elemWS u ws w = Some (w \<in> wset u ws, u') \<and> wsu_ok u' \<and> ext u u'"
    using v(1) assms(1) by (auto simp: HG_elemWS_def wset_def list_ex_iff)
  have "length ?v = 1 \<and> ?v ! 0 = w \<longleftrightarrow> set ?v = {w}"
    using d by (cases ?v) (auto dest!: subset_singletonD)
  then show "\<exists>u'. HG_isSingletonWS u ws w = Some (wset u ws = {w}, u') \<and> wsu_ok u' \<and> ext u u'"
    using v(1) assms(1) by (auto simp: HG_isSingletonWS_def Let_def wset_def)
  show "HG_cardinalityWS u ws = Some (card (wset u ws))"
    using v(1) d by (simp add: HG_cardinalityWS_def wset_def distinct_card)
qed

text \<open>The doubled size is a 32 bit number: a full array of \<open>2\<^sup>3\<^sup>1\<close> entries cannot grow.\<close>

lemma ensure_ix2vec_space_overflow:
  "ix2vec_used u = 2 ^ 31 \<Longrightarrow> ix2vec_size u = 2 ^ 31 \<Longrightarrow> ensure_ix2vec_space u = None"
  by (simp add: ensure_ix2vec_space_def)

subsection \<open>Properties\<close>

text \<open>The operations that make word sets, each with the set it is named after.\<close>

definition makes_set :: "WordSetU \<Rightarrow> (WordSet \<times> WordSetU) option \<Rightarrow> UWord set \<Rightarrow> bool" where
  "makes_set u r S \<longleftrightarrow> (\<exists>ws1 ws2 w w'. valid_ws u ws1 \<and> valid_ws u ws2 \<and>
     (r, S) \<in> {(HG_unionWS u ws1 ws2, wset u ws1 \<union> wset u ws2), (HG_intersectWS u ws1 ws2, wset u ws1 \<inter> wset u ws2),
      (HG_minusWS u ws1 ws2, wset u ws1 - wset u ws2), (HG_addToWS u ws1 w, insert w (wset u ws1)),
      (HG_delFromWS u ws1 w, wset u ws1 - {w}), (HG_doubletonWS u w w', {w, w'}), (HG_singletonWS u w, {w})})"

lemma makes_set_ok:
  assumes "wsu_ok u" "room u" "makes_set u r S"
  shows "op_ok u r S"
proof -
  obtain ws1 ws2 w w' where "valid_ws u ws1" "valid_ws u ws2" and
    "(r, S) \<in> {(HG_unionWS u ws1 ws2, wset u ws1 \<union> wset u ws2), (HG_intersectWS u ws1 ws2, wset u ws1 \<inter> wset u ws2),
      (HG_minusWS u ws1 ws2, wset u ws1 - wset u ws2), (HG_addToWS u ws1 w, insert w (wset u ws1)),
      (HG_delFromWS u ws1 w, wset u ws1 - {w}), (HG_doubletonWS u w w', {w, w'}), (HG_singletonWS u w, {w})}"
    using assms(3) unfolding makes_set_def by blast
  then show ?thesis
    using unionWS_ok [OF assms(1,2)] intersectWS_ok [OF assms(1,2)] minusWS_ok [OF assms(1,2)]
      addToWS_ok [OF assms(1,2)] delFromWS_ok [OF assms(1,2)] doubletonWS_ok [OF assms(1,2), of w w']
      doubletonWS_ok [OF assms(1,2), of w w]
    by (auto simp: HG_singletonWS_def)
qed

text \<open>Any number of such operations, while there is room for new sets.\<close>

definition ws_step :: "WordSetU \<Rightarrow> WordSetU \<Rightarrow> bool" where
  "ws_step u u' \<longleftrightarrow> room u \<and> (\<exists>ws S. makes_set u (Some (ws, u')) S)"

lemma ws_steps_ok:
  assumes "ws_step\<^sup>*\<^sup>* u u'" "wsu_ok u"
  shows "wsu_ok u' \<and> ext u u'"
  using assms
proof (induction rule: rtranclp_induct)
  case (step v w)
  then obtain ws S where "op_ok v (Some (ws, w)) S" using makes_set_ok unfolding ws_step_def by blast
  then have "wsu_ok w" "ext v w" by (auto simp: op_ok_def)
  with step show ?case by (auto intro: ext_trans)
qed simp

text \<open>C36. Every operation of a universe of word sets refines the operation on sets it is named
  after: on valid handles it returns, through its cache or not, a handle of the union,
  intersection, difference, insertion or removal; the universe stays well-formed (vectors sorted
  and unique, both mappings inverse, caches right) and all earlier handles keep their meaning.\<close>

theorem wordset_ops_correct:
  assumes "wsu_ok u" "room u" "valid_ws u ws1" "valid_ws u ws2"
    "(r, S) \<in> {(HG_unionWS u ws1 ws2, wset u ws1 \<union> wset u ws2), (HG_intersectWS u ws1 ws2, wset u ws1 \<inter> wset u ws2),
      (HG_minusWS u ws1 ws2, wset u ws1 - wset u ws2), (HG_addToWS u ws1 w, insert w (wset u ws1)),
      (HG_delFromWS u ws1 w, wset u ws1 - {w}), (HG_doubletonWS u w w', {w, w'}), (HG_singletonWS u w, {w})}"
  shows "\<exists>ws u'. r = Some (ws, u') \<and> wsu_ok u' \<and> valid_ws u' ws \<and> wset u' ws = S \<and>
    (\<forall>x. valid_ws u x \<longrightarrow> valid_ws u' x \<and> wset u' x = wset u x)"
proof -
  have "makes_set u r S" unfolding makes_set_def using assms(3-5) by blast
  from makes_set_ok [OF assms(1,2) this] obtain ws u' where
    "r = Some (ws, u')" "wsu_ok u'" "ext u u'" "valid_ws u' ws" "wset u' ws = S" by (auto simp: op_ok_def)
  then show ?thesis using ext_valid [of u u'] by blast
qed

theorem wordset_ops_correct_witness:
  "\<exists>u ws u'. HG_newWordSetU 8 = Some u \<and> HG_addToWS u 0 7 = Some (ws, u') \<and> wset u' ws = {7} \<and> wset u' 0 = {}"
proof -
  obtain u where u: "HG_newWordSetU 8 = Some u" "wsu_ok u" "room u" "ix2vec u = [[]]"
    using new_universe [of 8] by (auto simp: N_WCACHE_STAT_MAX_def)
  have v: "valid_ws u 0" "wset u 0 = {}" using u(4) by (simp_all add: valid_ws_def ix2vec_used_def wset_def)
  show ?thesis using wordset_ops_correct [OF u(2,3) v(1) v(1), of "HG_addToWS u 0 7" "insert 7 (wset u 0)" 7] u(1) v by auto
qed

text \<open>C37. Handles are canonical: two operations of a universe, of the same or of different kinds and
  with any number of others between them, return the same handle exactly when they make the same set,
  through the caches or not. So comparing indices compares sets.\<close>

theorem wordset_handles_canonical:
  assumes "wsu_ok u" "room u" "makes_set u (Some (a, u1)) S" "ws_step\<^sup>*\<^sup>* u1 u2" "room u2"
    "makes_set u2 (Some (b, u3)) T"
  shows "a = b \<longleftrightarrow> S = T"
proof -
  have 1: "wsu_ok u1" "valid_ws u1 a" "wset u1 a = S" using makes_set_ok [OF assms(1-3)] by (auto simp: op_ok_def)
  have 2: "wsu_ok u2" "ext u1 u2" using ws_steps_ok [OF assms(4) 1(1)] by auto
  have 3: "wsu_ok u3" "ext u2 u3" "valid_ws u3 b" "wset u3 b = T"
    using makes_set_ok [OF 2(1) assms(5,6)] by (auto simp: op_ok_def)
  have "valid_ws u3 a" "wset u3 a = S" using ext_valid [OF ext_trans [OF 2(2) 3(2)] 1(2)] 1(3) by auto
  then show ?thesis using hg_sets.handle_eq [OF 3(1) _ 3(3)] 3(4) by simp
qed

lemma add_once_room:
  "(case HG_newWordSetU 8 of Some u \<Rightarrow> (case HG_addToWS u 0 7 of Some (ws, u1) \<Rightarrow> length (ix2vec u1) = 2
      | None \<Rightarrow> False) | None \<Rightarrow> False)"
  by code_simp

text \<open>Adding an element to the empty set and making a singleton.\<close>

theorem wordset_handles_canonical_witness:
  "\<exists>u a u1 b u2. HG_newWordSetU 8 = Some u \<and> HG_addToWS u 0 7 = Some (a, u1) \<and> HG_singletonWS u1 7 = Some (b, u2) \<and> a = b"
proof -
  obtain u where u: "HG_newWordSetU 8 = Some u" "wsu_ok u" "room u" "ix2vec u = [[]]"
    using new_universe [of 8] by (auto simp: N_WCACHE_STAT_MAX_def)
  have v: "valid_ws u 0" "wset u 0 = {}" using u(4) by (simp_all add: valid_ws_def ix2vec_used_def wset_def)
  have m: "makes_set u (HG_addToWS u 0 7) {7}" unfolding makes_set_def using v by blast
  obtain a u1 where 1: "HG_addToWS u 0 7 = Some (a, u1)" "wsu_ok u1" "valid_ws u1 a"
    using makes_set_ok [OF u(2,3) m] by (auto simp: op_ok_def)
  have r: "room u1" using add_once_room u(1) 1(1) by (simp add: room_def ix2vec_used_def)
  have n: "makes_set u1 (HG_singletonWS u1 7) {7}" unfolding makes_set_def using 1(3) by blast
  obtain b u2 where 2: "HG_singletonWS u1 7 = Some (b, u2)" using makes_set_ok [OF 1(2) r n] by (auto simp: op_ok_def)
  have "a = b" by (rule iffD2 [OF wordset_handles_canonical [OF u(2,3) _ rtranclp.rtrancl_refl r]])
      (use m n 1(1) 2 in auto)
  then show ?thesis using u(1) 1(1) 2 by blast
qed

text \<open>The subset test, which compares a handle with the handle of an intersection, and the
  queries for emptiness, membership, singletons and cardinality answer what they ask of the set.\<close>

lemma wordset_queries_correct:
  assumes "wsu_ok u" "room u" "valid_ws u ws1" "valid_ws u ws2"
  shows "(\<exists>u'. HG_isSubsetOf u ws1 ws2 = Some (wset u ws1 \<subseteq> wset u ws2, u') \<and> wsu_ok u') \<and>
    (\<exists>u'. HG_isEmptyWS u ws1 = Some (wset u ws1 = {}, u') \<and> wsu_ok u') \<and>
    (\<exists>u'. HG_elemWS u ws1 w = Some (w \<in> wset u ws1, u') \<and> wsu_ok u') \<and>
    (\<exists>u'. HG_isSingletonWS u ws1 w = Some (wset u ws1 = {w}, u') \<and> wsu_ok u') \<and>
    HG_cardinalityWS u ws1 = Some (card (wset u ws1))"
proof -
  let ?b = "bump (n_isSubsetOf_update (\<lambda>n. n + 1)) u"
  have "\<exists>u'. HG_isSubsetOf u ws1 ws2 = Some (wset u ws1 \<subseteq> wset u ws2, u') \<and> wsu_ok u'"
    using hg_sets.subset_by_inter [of ?b ws1 ws2] assms by (auto simp: HG_isSubsetOf_def Let_def)
  then show ?thesis using isEmpty_elem_ok [OF assms(1,3)] by blast
qed

end
