(* ===== verification/ShadowMem.thy ===== *)
theory ShadowMem
  imports VG_Prelude "HOL-Library.AList"
begin

text \<open>
  Memcheck's shadow memory, \<^verbatim>\<open>memcheck/mc_main.c\<close>: the three-level table of compressed
  V+A bits (primary map, auxiliary primary map with its self-organising front cache,
  secondary maps with copy-on-write of the distinguished ones) and the bit fields inside a
  secondary map. The state also has the secondary V bit table, used in \<open>VBits\<close>. 64-bit
  configuration.

  Pointers to secondary maps are \<open>SecMapPtr\<close>: the three distinguished maps or the n-th map
  ever allocated. A pointer into the primary map or to the \<^verbatim>\<open>sm\<close> field of an auxiliary entry
  (\<^verbatim>\<open>SecMap**\<close>) is a \<open>slot\<close>. The \<^verbatim>\<open>OSet\<close>s are association lists keyed by base address;
  a pointer to an entry is its key. Allocation of a secondary map can fail, as
  \<^verbatim>\<open>VG_(am_shadow_alloc)\<close> can; the operation then does not return (\<open>None\<close>).
\<close>

subsection \<open>Constants\<close>

definition VA_BITS2_NOACCESS :: UChar where "VA_BITS2_NOACCESS = 0"
definition VA_BITS2_UNDEFINED :: UChar where "VA_BITS2_UNDEFINED = 1"
definition VA_BITS2_DEFINED :: UChar where "VA_BITS2_DEFINED = 2"
definition VA_BITS2_PARTDEFINED :: UChar where "VA_BITS2_PARTDEFINED = 3"
definition VA_BITS8_NOACCESS :: UChar where "VA_BITS8_NOACCESS = 0x00"
definition VA_BITS8_UNDEFINED :: UChar where "VA_BITS8_UNDEFINED = 0x55"
definition VA_BITS8_DEFINED :: UChar where "VA_BITS8_DEFINED = 0xaa"
definition VA_BITS16_NOACCESS :: UShort where "VA_BITS16_NOACCESS = 0x0000"
definition VA_BITS16_UNDEFINED :: UShort where "VA_BITS16_UNDEFINED = 0x5555"
definition VA_BITS16_DEFINED :: UShort where "VA_BITS16_DEFINED = 0xaaaa"
definition V_BITS8_DEFINED :: UChar where "V_BITS8_DEFINED = 0"
definition V_BITS8_UNDEFINED :: UChar where "V_BITS8_UNDEFINED = 0xFF"

definition N_PRIMARY_MAP :: nat where "N_PRIMARY_MAP = 2 ^ 19"
definition MAX_PRIMARY_ADDRESS :: Addr where "MAX_PRIMARY_ADDRESS = 65536 * 2 ^ 19 - 1"
definition SM_CHUNKS :: nat where "SM_CHUNKS = 16384"
definition SM_SIZE :: Addr where "SM_SIZE = 65536"
definition SM_MASK :: Addr where "SM_MASK = SM_SIZE - 1"
definition SM_OFF :: "Addr \<Rightarrow> nat" where "SM_OFF a = unat (drop_bit 2 (a AND 0xffff))"
definition SM_OFF_16 :: "Addr \<Rightarrow> nat" where "SM_OFF_16 a = unat (drop_bit 3 (a AND 0xffff))"

lemmas va_consts = VA_BITS2_NOACCESS_def VA_BITS2_UNDEFINED_def VA_BITS2_DEFINED_def
  VA_BITS2_PARTDEFINED_def VA_BITS8_NOACCESS_def VA_BITS8_UNDEFINED_def VA_BITS8_DEFINED_def
  VA_BITS16_NOACCESS_def VA_BITS16_UNDEFINED_def VA_BITS16_DEFINED_def
  V_BITS8_DEFINED_def V_BITS8_UNDEFINED_def

definition start_of_this_sm :: "Addr \<Rightarrow> Addr" where
  "start_of_this_sm a = a AND NOT SM_MASK"

definition is_start_of_sm :: "Addr \<Rightarrow> bool" where
  "is_start_of_sm a \<longleftrightarrow> start_of_this_sm a = a"

text \<open>\<^verbatim>\<open>a &= ~(Addr)0xFFFF\<close>\<close>

definition sm_base :: "Addr \<Rightarrow> Addr" where
  "sm_base a = a AND NOT 0xFFFF"

subsection \<open>State\<close>

datatype SecMapPtr = Dsm nat | Sm nat

text \<open>\<^verbatim>\<open>UChar vabits8[SM_CHUNKS]\<close>\<close>

type_synonym SecMap = "nat \<Rightarrow> UChar"

datatype slot = PrimarySlot nat | AuxSlot Addr

text \<open>The counters that \<^verbatim>\<open>update_SM_counts\<close> maintains.\<close>

record sm_counts =
  n_issued_SMs :: int
  n_deissued_SMs :: int
  n_noaccess_SMs :: int
  n_undefined_SMs :: int
  n_defined_SMs :: int
  n_non_DSM_SMs :: int
  max_noaccess_SMs :: int
  max_undefined_SMs :: int
  max_defined_SMs :: int
  max_non_DSM_SMs :: int

record SecVBitNode =
  vbits8 :: "UChar list"
  last_touched :: UInt

text \<open>The calls into the origin tracking cache (the last four are the inlined, specialised stores
  of the origins of an aligned word), which is a component of its own; they leave
  the shadow tables alone and are only logged here, as are the address errors raised by
  \<^verbatim>\<open>MC_(record_address_error)\<close>.\<close>

datatype ocache_call =
    ocache_sarp_Clear_Origins Addr SizeT
  | ocache_sarp_Set_Origins Addr SizeT UInt
  | helperc_b_store1 Addr UInt
  | oc_set_word32 Addr UInt
  | oc_clear_word32 Addr
  | oc_set_word64 Addr UInt
  | oc_clear_word64 Addr

record mc_state =
  secmaps :: "SecMapPtr \<Rightarrow> SecMap"
  sm_allocs :: nat
  sm_freed :: "nat list"
  shadow_alloc_ok :: "nat \<Rightarrow> bool"
  counts :: sm_counts
  primary_map :: "nat \<Rightarrow> SecMapPtr"
  auxmap_L1 :: "(Addr \<times> Addr option) list"
  auxmap_L2 :: "(Addr \<times> SecMapPtr) list"
  n_auxmap_L1_searches :: nat
  n_auxmap_L1_cmps :: nat
  n_auxmap_L2_searches :: nat
  n_auxmap_L2_nodes :: nat
  secVBitTable :: "(Addr \<times> SecVBitNode) list"
  secVBitLimit :: nat
  GCs_done :: UInt
  sec_vbits_new_nodes :: nat
  sec_vbits_updates :: nat
  n_secVBit_nodes :: nat
  max_secVBit_nodes :: nat
  clo_partial_loads_ok :: bool
  clo_mc_level :: nat
  address_errors :: "(Addr \<times> SizeT \<times> bool) list"
  ocache_calls :: "ocache_call list"

definition SM_DIST_NOACCESS :: nat where "SM_DIST_NOACCESS = 0"
definition SM_DIST_UNDEFINED :: nat where "SM_DIST_UNDEFINED = 1"
definition SM_DIST_DEFINED :: nat where "SM_DIST_DEFINED = 2"

lemmas dsm_consts = SM_DIST_NOACCESS_def SM_DIST_UNDEFINED_def SM_DIST_DEFINED_def

fun is_distinguished_sm :: "SecMapPtr \<Rightarrow> bool" where
  "is_distinguished_sm (Dsm i) = True"
| "is_distinguished_sm (Sm n) = False"

text \<open>\<^verbatim>\<open>init_shadow_memory\<close>: the contents of the distinguished maps, the primary map, and the
  empty auxiliary tables (\<^verbatim>\<open>init_auxmap_L1_L2\<close>), with the statically initialised counters.\<close>

definition N_AUXMAP_L1 :: nat where "N_AUXMAP_L1 = 24"
definition AUXMAP_L1_INSERT_IX :: nat where "AUXMAP_L1_INSERT_IX = 12"

definition dsm_contents :: "nat \<Rightarrow> UChar" where
  "dsm_contents i = (if i = SM_DIST_NOACCESS then VA_BITS8_NOACCESS
     else if i = SM_DIST_UNDEFINED then VA_BITS8_UNDEFINED else VA_BITS8_DEFINED)"

definition init_shadow_memory :: "(nat \<Rightarrow> bool) \<Rightarrow> bool \<Rightarrow> nat \<Rightarrow> mc_state" where
  "init_shadow_memory alloc_ok partial_loads_ok mc_level = \<lparr>
     secmaps = (\<lambda>p. case p of Dsm i \<Rightarrow> (\<lambda>_. dsm_contents i) | Sm n \<Rightarrow> (\<lambda>_. 0)),
     sm_allocs = 0, sm_freed = [], shadow_alloc_ok = alloc_ok,
     counts = \<lparr>n_issued_SMs = 0, n_deissued_SMs = 0, n_noaccess_SMs = int N_PRIMARY_MAP,
       n_undefined_SMs = 0, n_defined_SMs = 0, n_non_DSM_SMs = 0, max_noaccess_SMs = 0,
       max_undefined_SMs = 0, max_defined_SMs = 0, max_non_DSM_SMs = 0\<rparr>,
     primary_map = (\<lambda>_. Dsm SM_DIST_NOACCESS),
     auxmap_L1 = replicate N_AUXMAP_L1 (0, None), auxmap_L2 = [],
     n_auxmap_L1_searches = 0, n_auxmap_L1_cmps = 0, n_auxmap_L2_searches = 0, n_auxmap_L2_nodes = 0,
     secVBitTable = [], secVBitLimit = 1024, GCs_done = 0,
     sec_vbits_new_nodes = 0, sec_vbits_updates = 0, n_secVBit_nodes = 0, max_secVBit_nodes = 0,
     clo_partial_loads_ok = partial_loads_ok, clo_mc_level = mc_level, address_errors = [], ocache_calls = []\<rparr>"

subsection \<open>Secondary map bookkeeping\<close>

definition count_leave :: "SecMapPtr \<Rightarrow> sm_counts \<Rightarrow> sm_counts" where
  "count_leave oldSM c =
     (if oldSM = Dsm SM_DIST_NOACCESS then c\<lparr>n_noaccess_SMs := n_noaccess_SMs c - 1\<rparr>
      else if oldSM = Dsm SM_DIST_UNDEFINED then c\<lparr>n_undefined_SMs := n_undefined_SMs c - 1\<rparr>
      else if oldSM = Dsm SM_DIST_DEFINED then c\<lparr>n_defined_SMs := n_defined_SMs c - 1\<rparr>
      else c\<lparr>n_non_DSM_SMs := n_non_DSM_SMs c - 1, n_deissued_SMs := n_deissued_SMs c + 1\<rparr>)"

definition count_enter :: "SecMapPtr \<Rightarrow> sm_counts \<Rightarrow> sm_counts" where
  "count_enter newSM c =
     (if newSM = Dsm SM_DIST_NOACCESS then c\<lparr>n_noaccess_SMs := n_noaccess_SMs c + 1\<rparr>
      else if newSM = Dsm SM_DIST_UNDEFINED then c\<lparr>n_undefined_SMs := n_undefined_SMs c + 1\<rparr>
      else if newSM = Dsm SM_DIST_DEFINED then c\<lparr>n_defined_SMs := n_defined_SMs c + 1\<rparr>
      else c\<lparr>n_non_DSM_SMs := n_non_DSM_SMs c + 1, n_issued_SMs := n_issued_SMs c + 1\<rparr>)"

definition count_max :: "sm_counts \<Rightarrow> sm_counts" where
  "count_max c = c\<lparr>
     max_noaccess_SMs := (if n_noaccess_SMs c > max_noaccess_SMs c then n_noaccess_SMs c else max_noaccess_SMs c),
     max_undefined_SMs := (if n_undefined_SMs c > max_undefined_SMs c then n_undefined_SMs c else max_undefined_SMs c),
     max_defined_SMs := (if n_defined_SMs c > max_defined_SMs c then n_defined_SMs c else max_defined_SMs c),
     max_non_DSM_SMs := (if n_non_DSM_SMs c > max_non_DSM_SMs c then n_non_DSM_SMs c else max_non_DSM_SMs c)\<rparr>"

definition update_SM_counts :: "SecMapPtr \<Rightarrow> SecMapPtr \<Rightarrow> mc_state \<Rightarrow> mc_state" where
  "update_SM_counts oldSM newSM s = s\<lparr>counts := count_max (count_enter newSM (count_leave oldSM (counts s)))\<rparr>"

definition copy_for_writing :: "SecMapPtr \<Rightarrow> mc_state \<Rightarrow> (SecMapPtr \<times> mc_state) option" where
  "copy_for_writing dist_sm s = do {
     vg_assert (dist_sm = Dsm 0 \<or> dist_sm = Dsm 1 \<or> dist_sm = Dsm 2);
     vg_assert (shadow_alloc_ok s (sm_allocs s));
     let new_sm = Sm (sm_allocs s);
     let s = s\<lparr>secmaps := (secmaps s)(new_sm := secmaps s dist_sm), sm_allocs := sm_allocs s + 1\<rparr>;
     Some (new_sm, update_SM_counts dist_sm new_sm s) }"

subsection \<open>The auxiliary primary map\<close>

definition insert_into_auxmap_L1_at :: "nat \<Rightarrow> Addr \<Rightarrow> mc_state \<Rightarrow> mc_state option" where
  "insert_into_auxmap_L1_at rank ent s = do {
     vg_assert (rank < N_AUXMAP_L1);
     Some (s\<lparr>auxmap_L1 := take rank (auxmap_L1 s) @ (ent, Some ent) # butlast (drop rank (auxmap_L1 s))\<rparr>) }"

text \<open>\<^verbatim>\<open>for (i = 0; i < N_AUXMAP_L1; i++) if (auxmap_L1[i].base == a) break;\<close>\<close>

fun auxmap_L1_index :: "(Addr \<times> Addr option) list \<Rightarrow> Addr \<Rightarrow> nat" where
  "auxmap_L1_index [] a = 0"
| "auxmap_L1_index (e # es) a = (if fst e = a then 0 else Suc (auxmap_L1_index es a))"

definition swap_auxmap_L1 :: "nat \<Rightarrow> nat \<Rightarrow> (Addr \<times> Addr option) list \<Rightarrow> (Addr \<times> Addr option) list" where
  "swap_auxmap_L1 i j es = es[i := es ! j, j := es ! i]"

definition maybe_find_in_auxmap :: "Addr \<Rightarrow> mc_state \<Rightarrow> (Addr option \<times> mc_state) option" where
  "maybe_find_in_auxmap a0 s = do {
     vg_assert (a0 > MAX_PRIMARY_ADDRESS);
     let a = sm_base a0;
     if fst (auxmap_L1 s ! 0) = a then Some (snd (auxmap_L1 s ! 0), s)
     else if fst (auxmap_L1 s ! 1) = a then
       (let es = swap_auxmap_L1 0 1 (auxmap_L1 s) in Some (snd (es ! 0), s\<lparr>auxmap_L1 := es\<rparr>))
     else do {
       let i = auxmap_L1_index (auxmap_L1 s) a;
       let s = s\<lparr>n_auxmap_L1_searches := n_auxmap_L1_searches s + 1,
                 n_auxmap_L1_cmps := n_auxmap_L1_cmps s + (i + 1)\<rparr>;
       if i < N_AUXMAP_L1 then
         (if i > 0 then
            (let es = swap_auxmap_L1 (i - 1) i (auxmap_L1 s) in Some (snd (es ! (i - 1)), s\<lparr>auxmap_L1 := es\<rparr>))
          else Some (snd (auxmap_L1 s ! i), s))
       else do {
         let s = s\<lparr>n_auxmap_L2_searches := n_auxmap_L2_searches s + 1\<rparr>;
         (case map_of (auxmap_L2 s) a of
            Some _ \<Rightarrow> do { s \<leftarrow> insert_into_auxmap_L1_at AUXMAP_L1_INSERT_IX a s; Some (Some a, s) }
          | None \<Rightarrow> Some (None, s)) } } }"

definition find_or_alloc_in_auxmap :: "Addr \<Rightarrow> mc_state \<Rightarrow> (Addr \<times> mc_state) option" where
  "find_or_alloc_in_auxmap a0 s = do {
     (res, s) \<leftarrow> maybe_find_in_auxmap a0 s;
     (case res of
        Some e \<Rightarrow> Some (e, s)
      | None \<Rightarrow> do {
          let a = sm_base a0;
          let s = s\<lparr>auxmap_L2 := (a, Dsm SM_DIST_NOACCESS) # auxmap_L2 s\<rparr>;
          s \<leftarrow> insert_into_auxmap_L1_at AUXMAP_L1_INSERT_IX a s;
          Some (a, s\<lparr>n_auxmap_L2_nodes := n_auxmap_L2_nodes s + 1\<rparr>) }) }"

subsection \<open>From an address to its secondary map\<close>

fun read_slot :: "slot \<Rightarrow> mc_state \<Rightarrow> SecMapPtr option" where
  "read_slot (PrimarySlot i) s = Some (primary_map s i)"
| "read_slot (AuxSlot e) s = map_of (auxmap_L2 s) e"

fun write_slot :: "slot \<Rightarrow> SecMapPtr \<Rightarrow> mc_state \<Rightarrow> mc_state" where
  "write_slot (PrimarySlot i) p s = s\<lparr>primary_map := (primary_map s)(i := p)\<rparr>"
| "write_slot (AuxSlot e) p s = s\<lparr>auxmap_L2 := AList.update e p (auxmap_L2 s)\<rparr>"

definition get_secmap_low_ptr :: "Addr \<Rightarrow> slot" where
  "get_secmap_low_ptr a = PrimarySlot (unat (drop_bit 16 a))"

definition get_secmap_high_ptr :: "Addr \<Rightarrow> mc_state \<Rightarrow> (slot \<times> mc_state) option" where
  "get_secmap_high_ptr a s = do { (e, s) \<leftarrow> find_or_alloc_in_auxmap a s; Some (AuxSlot e, s) }"

definition get_secmap_ptr :: "Addr \<Rightarrow> mc_state \<Rightarrow> (slot \<times> mc_state) option" where
  "get_secmap_ptr a s =
     (if a \<le> MAX_PRIMARY_ADDRESS then Some (get_secmap_low_ptr a, s) else get_secmap_high_ptr a s)"

definition get_secmap_for_reading :: "Addr \<Rightarrow> mc_state \<Rightarrow> (SecMapPtr \<times> mc_state) option" where
  "get_secmap_for_reading a s = do {
     (p, s) \<leftarrow> get_secmap_ptr a s;
     sm \<leftarrow> read_slot p s;
     Some (sm, s) }"

definition make_slot_writable :: "slot \<Rightarrow> mc_state \<Rightarrow> (SecMapPtr \<times> mc_state) option" where
  "make_slot_writable p s = do {
     sm \<leftarrow> read_slot p s;
     if is_distinguished_sm sm then do {
       (sm', s) \<leftarrow> copy_for_writing sm s;
       Some (sm', write_slot p sm' s) }
     else Some (sm, s) }"

definition get_secmap_for_writing_low :: "Addr \<Rightarrow> mc_state \<Rightarrow> (SecMapPtr \<times> mc_state) option" where
  "get_secmap_for_writing_low a s = make_slot_writable (get_secmap_low_ptr a) s"

definition get_secmap_for_writing :: "Addr \<Rightarrow> mc_state \<Rightarrow> (SecMapPtr \<times> mc_state) option" where
  "get_secmap_for_writing a s = do {
     (p, s) \<leftarrow> get_secmap_ptr a s;
     make_slot_writable p s }"

definition maybe_get_secmap_for :: "Addr \<Rightarrow> mc_state \<Rightarrow> (SecMapPtr option \<times> mc_state) option" where
  "maybe_get_secmap_for a s =
     (if a \<le> MAX_PRIMARY_ADDRESS then do {
        sm \<leftarrow> read_slot (get_secmap_low_ptr a) s; Some (Some sm, s) }
      else do {
        (am, s) \<leftarrow> maybe_find_in_auxmap a s;
        (case am of None \<Rightarrow> Some (None, s)
         | Some e \<Rightarrow> do { sm \<leftarrow> read_slot (AuxSlot e) s; Some (Some sm, s) }) })"

definition write_secmap :: "SecMapPtr \<Rightarrow> nat \<Rightarrow> UChar \<Rightarrow> mc_state \<Rightarrow> mc_state" where
  "write_secmap p off v s = s\<lparr>secmaps := (secmaps s)(p := (secmaps s p)(off := v))\<rparr>"

subsection \<open>Fields of a secondary map\<close>

definition insert_vabits2_into_vabits8 :: "Addr \<Rightarrow> UChar \<Rightarrow> UChar \<Rightarrow> UChar" where
  "insert_vabits2_into_vabits8 a vabits2 vabits8 =
     (let shift = unat (push_bit 1 (a AND 3)) in
      (vabits8 AND NOT (push_bit shift 3)) OR push_bit shift vabits2)"

definition insert_vabits4_into_vabits8 :: "Addr \<Rightarrow> UChar \<Rightarrow> UChar \<Rightarrow> UChar option" where
  "insert_vabits4_into_vabits8 a vabits4 vabits8 = do {
     vg_assert (a AND 1 = 0);
     let shift = unat (push_bit 1 (a AND 2));
     Some ((vabits8 AND NOT (push_bit shift 0xf)) OR push_bit shift vabits4) }"

definition extract_vabits2_from_vabits8 :: "Addr \<Rightarrow> UChar \<Rightarrow> UChar" where
  "extract_vabits2_from_vabits8 a vabits8 =
     (let shift = unat (push_bit 1 (a AND 3)) in 3 AND drop_bit shift vabits8)"

definition extract_vabits4_from_vabits8 :: "Addr \<Rightarrow> UChar \<Rightarrow> UChar option" where
  "extract_vabits4_from_vabits8 a vabits8 = do {
     vg_assert (a AND 1 = 0);
     let shift = unat (push_bit 1 (a AND 2));
     Some (0xf AND drop_bit shift vabits8) }"

definition set_vabits2 :: "Addr \<Rightarrow> UChar \<Rightarrow> mc_state \<Rightarrow> mc_state option" where
  "set_vabits2 a vabits2 s = do {
     (sm, s) \<leftarrow> get_secmap_for_writing a s;
     let sm_off = SM_OFF a;
     Some (write_secmap sm sm_off (insert_vabits2_into_vabits8 a vabits2 (secmaps s sm sm_off)) s) }"

definition get_vabits2 :: "Addr \<Rightarrow> mc_state \<Rightarrow> (UChar \<times> mc_state) option" where
  "get_vabits2 a s = do {
     (sm, s) \<leftarrow> get_secmap_for_reading a s;
     Some (extract_vabits2_from_vabits8 a (secmaps s sm (SM_OFF a)), s) }"

definition get_vabits8_for_aligned_word32 :: "Addr \<Rightarrow> mc_state \<Rightarrow> (UChar \<times> mc_state) option" where
  "get_vabits8_for_aligned_word32 a s = do {
     (sm, s) \<leftarrow> get_secmap_for_reading a s;
     Some (secmaps s sm (SM_OFF a), s) }"

definition set_vabits8_for_aligned_word32 :: "Addr \<Rightarrow> UChar \<Rightarrow> mc_state \<Rightarrow> mc_state option" where
  "set_vabits8_for_aligned_word32 a vabits8 s = do {
     (sm, s) \<leftarrow> get_secmap_for_writing a s;
     Some (write_secmap sm (SM_OFF a) vabits8 s) }"

end
