(* ===== verification/ShadowMem_Correct.thy ===== *)
theory ShadowMem_Correct
  imports ShadowMem
begin

text \<open>
  Correctness of the shadow tables: the arithmetic of addresses and slots, the invariant \<open>mc_ok\<close>
  (the front cache agrees with the auxiliary table, distinguished maps are never written, no two
  slots share a writable map and no slot points to a freed one), and that looking up an address
  changes no mapping while making a slot writable changes no contents. The two bits of an address
  are \<open>va\<close>; \<^verbatim>\<open>get_vabits2\<close> and \<^verbatim>\<open>set_vabits2\<close> read and update exactly them.
\<close>

subsection \<open>Addresses\<close>

lemma unat_drop: "unat (drop_bit n (a :: 'a::len word)) = unat a div 2 ^ n"
  by (simp only: unat_drop_bit_eq drop_bit_eq_div [of n "unat a"])

lemma unat_and_0xffff [wlift]: "unat (a AND 0xffff :: Addr) = unat a mod 65536"
  using unat_and_mask [of a 16] by (simp add: mask_eq_exp_minus_1)

lemma unat_and_3 [wlift]: "unat (a AND 3 :: Addr) = unat a mod 4"
  using unat_and_mask [of a 2] by (simp add: mask_eq_exp_minus_1)

lemma unat_and_1 [wlift]: "unat (a AND 1 :: Addr) = unat a mod 2"
  using unat_and_mask [of a 1] by (simp add: mask_eq_exp_minus_1)

lemma unat_and_7 [wlift]: "unat (a AND 7 :: Addr) = unat a mod 8"
  using unat_and_mask [of a 3] by (simp add: mask_eq_exp_minus_1)

lemma SM_OFF_unat: "SM_OFF a = unat a mod 65536 div 4"
  by (simp only: SM_OFF_def unat_drop unat_and_0xffff) simp

lemma SM_OFF_16_unat: "SM_OFF_16 a = unat a mod 65536 div 8"
  by (simp only: SM_OFF_16_def unat_drop unat_and_0xffff) simp

lemma unat_and_not: "unat (a AND NOT m :: 'a::len word) = unat a - unat (a AND m)"
proof -
  have "unat a = unat ((a AND NOT m) OR (a AND m))"
    by (rule arg_cong [where f = unat], rule bit_word_eqI) (auto simp: bit_simps)
  also have "\<dots> = unat (a AND NOT m) OR unat (a AND m)"
    by (rule unsigned_or_eq)
  also have "\<dots> = unat (a AND NOT m) + unat (a AND m)"
  proof (rule disjunctive_add_eq_or [symmetric])
    have "unat (a AND NOT m) AND unat (a AND m) = unat ((a AND NOT m) AND (a AND m))"
      by (rule unsigned_and_eq [symmetric])
    also have "(a AND NOT m) AND (a AND m) = 0"
      by (rule bit_word_eqI) (auto simp: bit_simps)
    finally show "unat (a AND NOT m) AND unat (a AND m) = 0" by simp
  qed
  finally show ?thesis by simp
qed

lemma unat_sm_base [wlift]: "unat (sm_base a) = 65536 * (unat a div 65536)"
  by (simp only: sm_base_def unat_and_not unat_and_0xffff minus_mod_eq_mult_div)

lemma unat_MAX_PRIMARY [wlift]: "unat MAX_PRIMARY_ADDRESS = 34359738367"
  by (simp add: MAX_PRIMARY_ADDRESS_def)

definition slot_of :: "Addr \<Rightarrow> slot" where
  "slot_of a = (if a \<le> MAX_PRIMARY_ADDRESS then PrimarySlot (unat (drop_bit 16 a)) else AuxSlot (sm_base a))"

lemma low_div: "a \<le> MAX_PRIMARY_ADDRESS \<longleftrightarrow> unat a div 65536 < 524288"
proof -
  have "unat a div 65536 < 524288 \<longleftrightarrow> unat a < 524288 * 65536"
    by (rule div_less_iff_less_mult) simp
  then show ?thesis by (auto simp: unat_le_iff unat_MAX_PRIMARY)
qed

lemma slot_of_eq: "slot_of a = slot_of b \<longleftrightarrow> unat a div 65536 = unat b div 65536"
  by (auto simp: slot_of_def low_div unat_drop unat_eq_iff [of "sm_base _"] unat_sm_base)

lemma high_page_nonzero: "a > MAX_PRIMARY_ADDRESS \<Longrightarrow> sm_base a \<noteq> 0"
  unfolding linorder_not_le [symmetric] low_div by (simp add: unat_eq_iff [of "sm_base a"] unat_sm_base)

lemma nat_split_64k:
  assumes "(x::nat) div 65536 = y div 65536" "x mod 65536 div 4 = y mod 65536 div 4" "x mod 4 = y mod 4"
  shows "x = y"
proof -
  have "x mod 65536 mod 4 = y mod 65536 mod 4" using assms(3) by (simp add: mod_mod_cancel)
  with assms(2) have "x mod 65536 = y mod 65536" by (metis div_mult_mod_eq)
  with assms(1) show ?thesis by (metis div_mult_mod_eq)
qed

lemma addr_eqI: "slot_of a = slot_of b \<Longrightarrow> SM_OFF a = SM_OFF b \<Longrightarrow> a AND 3 = b AND 3 \<Longrightarrow> a = b"
proof -
  assume "slot_of a = slot_of b" "SM_OFF a = SM_OFF b" "a AND 3 = b AND 3"
  then have "unat a div 65536 = unat b div 65536" "unat a mod 65536 div 4 = unat b mod 65536 div 4"
      "unat a mod 4 = unat b mod 4"
    by (simp_all add: slot_of_eq SM_OFF_unat flip: unat_and_3)
  then have "unat a = unat b" by (rule nat_split_64k)
  then show "a = b" by (simp add: unat_eq_iff [of a])
qed

subsection \<open>bit fields\<close>

lemma and3_cases:
  obtains "a AND 3 = (0 :: Addr)" | "a AND 3 = 1" | "a AND 3 = 2" | "a AND 3 = 3"
proof -
  have "unat (a AND 3) = 0 \<or> unat (a AND 3) = 1 \<or> unat (a AND 3) = 2 \<or> unat (a AND 3) = 3"
    unfolding unat_and_3 by presburger
  then show ?thesis
    using that by (auto simp: unat_eq_iff [of "a AND 3"])
qed

lemma shift2: "unat (push_bit 1 (a AND 3 :: Addr)) = 2 * (unat a mod 4)"
proof -
  have "unat (push_bit 1 (a AND 3)) = unat ((a AND 3) * 2)"
    by (simp only: push_bit_eq_mult power_one_right)
  also have "\<dots> = unat (a AND 3) * 2 mod 2 ^ 64"
    by (simp only: unat_word_ariths) simp
  also have "\<dots> = 2 * (unat a mod 4)"
    unfolding unat_and_3 by simp
  finally show ?thesis .
qed

lemma three_mask: "(3 :: UChar) = mask 2"
  by (simp add: mask_eq_exp_minus_1)

lemma bit_le_3: "v \<le> (3 :: UChar) \<Longrightarrow> bit v n \<Longrightarrow> n < 2"
proof -
  assume v: "v \<le> 3" "bit v n"
  then have "take_bit 2 (unat v) = unat v"
    by (intro take_bit_nat_eq_self) (simp add: unat_le_iff)
  moreover have "bit (unat v) n" using v(2) by (simp add: bit_unsigned_iff)
  ultimately show "n < 2" by (metis bit_take_bit_iff)
qed

lemma extract_insert:
  assumes "v \<le> (3 :: UChar)"
  shows "extract_vabits2_from_vabits8 b (insert_vabits2_into_vabits8 a v w) =
    (if a AND 3 = b AND 3 then v else extract_vabits2_from_vabits8 b w)"
proof -
  define i j where "i = unat a mod 4" and "j = unat b mod 4"
  have ij: "i < 4" "j < 4" "a AND 3 = b AND 3 \<longleftrightarrow> i = j"
    by (simp_all add: i_def j_def unat_eq_iff [of "a AND 3"] unat_and_3)
  have "mask 2 AND drop_bit (2 * j) (w AND NOT (push_bit (2 * i) (mask 2)) OR push_bit (2 * i) v) =
      (if i = j then v else mask 2 AND drop_bit (2 * j) w)"
  proof (rule bit_word_eqI)
    fix n assume "n < LENGTH(8)"
    show "bit (mask 2 AND drop_bit (2 * j) (w AND NOT (push_bit (2 * i) (mask 2)) OR push_bit (2 * i) v)) n =
        bit (if i = j then v else mask 2 AND drop_bit (2 * j) w) n"
      using \<open>n < LENGTH(8)\<close> ij(1,2) bit_le_3 [OF assms, of n] bit_le_3 [OF assms, of "2 * j + n - 2 * i"]
      by (auto simp: bit_simps)
  qed
  then show ?thesis
    unfolding extract_vabits2_from_vabits8_def insert_vabits2_into_vabits8_def Let_def shift2 three_mask
    unfolding i_def [symmetric] j_def [symmetric] ij(3) .
qed

lemma extract_le_3: "extract_vabits2_from_vabits8 b w \<le> 3"
  unfolding extract_vabits2_from_vabits8_def Let_def by (rule word_and_le2)

subsection \<open>Well-formed shadow tables\<close>

definition slot_ptr :: "mc_state \<Rightarrow> slot \<Rightarrow> SecMapPtr" where
  "slot_ptr s x = (case read_slot x s of Some p \<Rightarrow> p | None \<Rightarrow> Dsm SM_DIST_NOACCESS)"

definition L1_ok :: "mc_state \<Rightarrow> bool" where
  "L1_ok s \<longleftrightarrow> length (auxmap_L1 s) = N_AUXMAP_L1 \<and>
     (\<forall>(b, e)\<in>set (auxmap_L1 s). (b = 0 \<and> e = None) \<or> (e = Some b \<and> map_of (auxmap_L2 s) b \<noteq> None))"

definition mc_ok :: "mc_state \<Rightarrow> bool" where
  "mc_ok s \<longleftrightarrow> L1_ok s \<and>
     (\<forall>i x. secmaps s (Dsm i) x = dsm_contents i) \<and>
     (\<forall>x i. slot_ptr s x = Dsm i \<longrightarrow> i \<le> 2) \<and>
     (\<forall>x n. slot_ptr s x = Sm n \<longrightarrow> n < sm_allocs s \<and> n \<notin> set (sm_freed s)) \<and>
     (\<forall>n\<in>set (sm_freed s). n < sm_allocs s) \<and>
     (\<forall>x y n. slot_ptr s x = Sm n \<longrightarrow> slot_ptr s y = Sm n \<longrightarrow> x = y)"

text \<open>The compressed bits of the 64k chunk behind a slot.\<close>

definition contents :: "mc_state \<Rightarrow> slot \<Rightarrow> SecMap" where
  "contents s x = secmaps s (slot_ptr s x)"

text \<open>The fields that the address translation never touches.\<close>

definition vtab :: "mc_state \<Rightarrow> _" where
  "vtab s = (shadow_alloc_ok s, secVBitTable s, secVBitLimit s, GCs_done s,
     clo_partial_loads_ok s, clo_mc_level s, address_errors s, ocache_calls s)"

definition same_map :: "mc_state \<Rightarrow> mc_state \<Rightarrow> bool" where
  "same_map s s' \<longleftrightarrow> slot_ptr s' = slot_ptr s \<and> secmaps s' = secmaps s \<and> sm_allocs s' = sm_allocs s \<and> sm_freed s' = sm_freed s \<and> vtab s' = vtab s"

lemma same_map_refl [simp]: "same_map s s"
  by (simp add: same_map_def)

lemma same_map_trans: "same_map s t \<Longrightarrow> same_map t u \<Longrightarrow> same_map s u"
  by (simp add: same_map_def)

lemma same_map_contents: "same_map s s' \<Longrightarrow> contents s' = contents s \<and> vtab s' = vtab s"
  by (auto simp: same_map_def contents_def fun_eq_iff)

lemma same_map_ok: "same_map s s' \<Longrightarrow> mc_ok s \<Longrightarrow> L1_ok s' \<Longrightarrow> mc_ok s'"
  by (simp add: same_map_def mc_ok_def)

lemma L1_ok_swap:
  assumes "L1_ok s" "i < N_AUXMAP_L1" "j < N_AUXMAP_L1"
  shows "L1_ok (s\<lparr>auxmap_L1 := swap_auxmap_L1 i j (auxmap_L1 s)\<rparr>)"
proof -
  have "set (swap_auxmap_L1 i j (auxmap_L1 s)) = set (auxmap_L1 s)"
    using assms by (simp add: swap_auxmap_L1_def L1_ok_def)
  moreover have "length (swap_auxmap_L1 i j (auxmap_L1 s)) = length (auxmap_L1 s)"
    by (simp add: swap_auxmap_L1_def)
  ultimately show ?thesis using assms(1) by (simp add: L1_ok_def)
qed

lemma auxmap_L1_index_le: "auxmap_L1_index es a \<le> length es"
  by (induction es) auto

lemma auxmap_L1_index_nth: "auxmap_L1_index es a < length es \<Longrightarrow> fst (es ! auxmap_L1_index es a) = a"
  by (induction es) auto

lemma insert_L1:
  assumes "length (auxmap_L1 s) = N_AUXMAP_L1" "\<forall>(b, e)\<in>set (auxmap_L1 s). (b = 0 \<and> e = None) \<or> (e = Some b \<and> map_of (auxmap_L2 s) b \<noteq> None)"
    "map_of (auxmap_L2 s) a \<noteq> None" "rank < N_AUXMAP_L1"
  shows "\<exists>L1. insert_into_auxmap_L1_at rank a s = Some (s\<lparr>auxmap_L1 := L1\<rparr>) \<and> L1_ok (s\<lparr>auxmap_L1 := L1\<rparr>)"
proof -
  let ?L1 = "take rank (auxmap_L1 s) @ (a, Some a) # butlast (drop rank (auxmap_L1 s))"
  have "set ?L1 \<subseteq> insert (a, Some a) (set (auxmap_L1 s))"
    by (auto dest: in_set_takeD in_set_butlastD in_set_dropD)
  then have "L1_ok (s\<lparr>auxmap_L1 := ?L1\<rparr>)"
    using assms by (fastforce simp: L1_ok_def)
  then show ?thesis using assms(4) by (auto simp: insert_into_auxmap_L1_at_def)
qed

definition aux_update :: "mc_state \<Rightarrow> mc_state \<Rightarrow> bool" where
  "aux_update s s' \<longleftrightarrow> primary_map s' = primary_map s \<and> auxmap_L2 s' = auxmap_L2 s \<and> secmaps s' = secmaps s \<and>
     sm_allocs s' = sm_allocs s \<and> sm_freed s' = sm_freed s \<and> vtab s' = vtab s"

lemma slot_ptr_cong: "primary_map s' = primary_map s \<Longrightarrow> auxmap_L2 s' = auxmap_L2 s \<Longrightarrow> slot_ptr s' = slot_ptr s"
proof
  fix x assume "primary_map s' = primary_map s" "auxmap_L2 s' = auxmap_L2 s"
  then show "slot_ptr s' x = slot_ptr s x" by (cases x) (simp_all add: slot_ptr_def)
qed

lemma aux_update_same_map: "aux_update s s' \<Longrightarrow> same_map s s'"
  by (auto simp: aux_update_def same_map_def intro!: slot_ptr_cong)

lemma maybe_find_ok:
  assumes "L1_ok s" "a > MAX_PRIMARY_ADDRESS"
  shows "\<exists>s'. maybe_find_in_auxmap a s =
      Some (if map_of (auxmap_L2 s) (sm_base a) = None then None else Some (sm_base a), s') \<and>
    L1_ok s' \<and> aux_update s s'"
proof -
  let ?b = "sm_base a"
  have nz: "?b \<noteq> 0" using high_page_nonzero [OF assms(2)] .
  have len: "length (auxmap_L1 s) = 24" using assms(1) by (simp add: L1_ok_def N_AUXMAP_L1_def)
  have hit: "snd (auxmap_L1 s ! i) = Some ?b \<and> map_of (auxmap_L2 s) ?b \<noteq> None"
    if "fst (auxmap_L1 s ! i) = ?b" "i < 24" for i
    using assms(1) nz that len nth_mem [of i "auxmap_L1 s"] unfolding L1_ok_def by (fastforce simp: case_prod_beta)
  let ?i = "auxmap_L1_index (auxmap_L1 s) ?b"
  have ile: "?i \<le> 24" using auxmap_L1_index_le [of "auxmap_L1 s"] len by metis
  consider (zero) "fst (auxmap_L1 s ! 0) = ?b" | (one) "fst (auxmap_L1 s ! 0) \<noteq> ?b" "fst (auxmap_L1 s ! 1) = ?b"
    | (cached) "fst (auxmap_L1 s ! 0) \<noteq> ?b" "fst (auxmap_L1 s ! 1) \<noteq> ?b" "?i < 24"
    | (miss) "fst (auxmap_L1 s ! 0) \<noteq> ?b" "fst (auxmap_L1 s ! 1) \<noteq> ?b" "?i = 24"
    using ile by linarith
  then show ?thesis
  proof cases
    case zero
    then show ?thesis using assms hit [OF zero] by (auto simp: maybe_find_in_auxmap_def aux_update_def)
  next
    case one
    then show ?thesis
      using assms hit [OF one(2)] L1_ok_swap [OF assms(1), of 0 1] len
      by (auto simp: maybe_find_in_auxmap_def aux_update_def N_AUXMAP_L1_def swap_auxmap_L1_def vtab_def Let_def)
  next
    case cached
    have f: "fst (auxmap_L1 s ! ?i) = ?b" using auxmap_L1_index_nth [of "auxmap_L1 s" ?b] cached len by simp
    then have "?i \<noteq> 0" using cached(1) by metis
    have sw: "snd (swap_auxmap_L1 (?i - 1) ?i (auxmap_L1 s) ! (?i - 1)) = snd (auxmap_L1 s ! ?i)"
      using cached(3) len \<open>?i \<noteq> 0\<close> by (simp add: swap_auxmap_L1_def nth_list_update)
    show ?thesis
      using cached assms hit [OF f cached(3)] L1_ok_swap [OF assms(1), of "?i - 1" ?i] sw \<open>?i \<noteq> 0\<close>
      by (auto simp: maybe_find_in_auxmap_def aux_update_def N_AUXMAP_L1_def vtab_def Let_def L1_ok_def)
  next
    case miss
    show ?thesis
    proof (cases "map_of (auxmap_L2 s) ?b")
      case None
      then show ?thesis
        using miss assms by (auto simp: maybe_find_in_auxmap_def aux_update_def N_AUXMAP_L1_def vtab_def Let_def L1_ok_def)
    next
      case (Some p)
      let ?s = "s\<lparr>n_auxmap_L1_searches := n_auxmap_L1_searches s + 1, n_auxmap_L1_cmps := n_auxmap_L1_cmps s + (?i + 1),
          n_auxmap_L2_searches := n_auxmap_L2_searches s + 1\<rparr>"
      obtain L1 where "insert_into_auxmap_L1_at AUXMAP_L1_INSERT_IX ?b ?s = Some (?s\<lparr>auxmap_L1 := L1\<rparr>)" "L1_ok (?s\<lparr>auxmap_L1 := L1\<rparr>)"
        using insert_L1 [of ?s ?b AUXMAP_L1_INSERT_IX] assms(1) Some
        by (auto simp: L1_ok_def N_AUXMAP_L1_def AUXMAP_L1_INSERT_IX_def)
      then show ?thesis
        using miss assms Some
        by (auto simp: maybe_find_in_auxmap_def aux_update_def N_AUXMAP_L1_def vtab_def Let_def add.commute)
    qed
  qed
qed

lemma find_or_alloc_ok:
  assumes "L1_ok s" "a > MAX_PRIMARY_ADDRESS"
  shows "\<exists>s'. find_or_alloc_in_auxmap a s = Some (sm_base a, s') \<and> L1_ok s' \<and> same_map s s' \<and>
    map_of (auxmap_L2 s') (sm_base a) = Some (slot_ptr s (AuxSlot (sm_base a)))"
proof -
  obtain s1 where s1: "maybe_find_in_auxmap a s =
      Some (if map_of (auxmap_L2 s) (sm_base a) = None then None else Some (sm_base a), s1)" "L1_ok s1" "aux_update s s1"
    using maybe_find_ok [OF assms] by blast
  show ?thesis
  proof (cases "map_of (auxmap_L2 s) (sm_base a)")
    case (Some p)
    then show ?thesis
      using s1 aux_update_same_map [OF s1(3)] by (auto simp: find_or_alloc_in_auxmap_def slot_ptr_def aux_update_def)
  next
    case None
    let ?s = "s1\<lparr>auxmap_L2 := (sm_base a, Dsm SM_DIST_NOACCESS) # auxmap_L2 s1\<rparr>"
    have L2: "auxmap_L2 s1 = auxmap_L2 s" using s1(3) by (simp add: aux_update_def)
    obtain L1 where L1: "insert_into_auxmap_L1_at AUXMAP_L1_INSERT_IX (sm_base a) ?s = Some (?s\<lparr>auxmap_L1 := L1\<rparr>)"
        "L1_ok (?s\<lparr>auxmap_L1 := L1\<rparr>)"
    proof -
      have "(b = 0 \<and> e = None) \<or> (e = Some b \<and> map_of (auxmap_L2 ?s) b \<noteq> None)"
        if "(b, e) \<in> set (auxmap_L1 s1)" for b e
        using s1(2) that by (auto simp: L1_ok_def)
      then have "\<forall>(b, e)\<in>set (auxmap_L1 ?s). (b = 0 \<and> e = None) \<or> (e = Some b \<and> map_of (auxmap_L2 ?s) b \<noteq> None)"
        by auto
      moreover have "length (auxmap_L1 ?s) = N_AUXMAP_L1" using s1(2) by (simp add: L1_ok_def)
      moreover have "map_of (auxmap_L2 ?s) (sm_base a) \<noteq> None" "AUXMAP_L1_INSERT_IX < N_AUXMAP_L1"
        by (simp_all add: N_AUXMAP_L1_def AUXMAP_L1_INSERT_IX_def)
      ultimately show ?thesis using insert_L1 [of ?s "sm_base a" AUXMAP_L1_INSERT_IX] that by blast
    qed
    let ?t = "?s\<lparr>auxmap_L1 := L1, n_auxmap_L2_nodes := n_auxmap_L2_nodes s1 + 1\<rparr>"
    have "slot_ptr ?t = slot_ptr s1"
    proof
      fix x show "slot_ptr ?t x = slot_ptr s1 x"
        using None L2 by (cases x) (auto simp: slot_ptr_def)
    qed
    moreover have "slot_ptr s1 = slot_ptr s"
      using aux_update_same_map [OF s1(3)] by (simp add: same_map_def)
    ultimately have "same_map s ?t"
      using s1(3) by (simp add: same_map_def aux_update_def vtab_def)
    moreover have "L1_ok ?t" using L1(2) by (simp add: L1_ok_def)
    ultimately show ?thesis
      using None s1 L1(1) L2 by (auto simp: find_or_alloc_in_auxmap_def slot_ptr_def Let_def)
  qed
qed

lemma get_secmap_ptr_ok:
  assumes "mc_ok s"
  shows "\<exists>s'. get_secmap_ptr a s = Some (slot_of a, s') \<and> mc_ok s' \<and> same_map s s' \<and>
    read_slot (slot_of a) s' = Some (slot_ptr s (slot_of a))"
proof (cases "a \<le> MAX_PRIMARY_ADDRESS")
  case True
  then show ?thesis
    using assms by (auto simp: get_secmap_ptr_def slot_of_def get_secmap_low_ptr_def slot_ptr_def)
next
  case False
  then have "L1_ok s" "a > MAX_PRIMARY_ADDRESS" using assms by (auto simp: mc_ok_def)
  from find_or_alloc_ok [OF this] show ?thesis
    using False assms by (auto simp: get_secmap_ptr_def slot_of_def get_secmap_high_ptr_def intro: same_map_ok)
qed

lemma get_secmap_for_reading_ok:
  assumes "mc_ok s"
  shows "\<exists>s'. get_secmap_for_reading a s = Some (slot_ptr s (slot_of a), s') \<and> mc_ok s' \<and> same_map s s'"
  using get_secmap_ptr_ok [OF assms, of a] by (auto simp: get_secmap_for_reading_def)

definition alloc_ok :: "mc_state \<Rightarrow> bool" where
  "alloc_ok s \<longleftrightarrow> (\<forall>n. shadow_alloc_ok s n)"

lemma slot_ptr_write_slot:
  "slot_ptr (write_slot x p s) = (slot_ptr s)(x := p)"
proof
  fix y show "slot_ptr (write_slot x p s) y = ((slot_ptr s)(x := p)) y"
    by (cases x; cases y) (auto simp: slot_ptr_def update_conv')
qed

lemma write_slot_fields [simp]:
  "secmaps (write_slot x p s) = secmaps s" "sm_allocs (write_slot x p s) = sm_allocs s"
  "vtab (write_slot x p s) = vtab s" "auxmap_L1 (write_slot x p s) = auxmap_L1 s"
  "counts (write_slot x p s) = counts s" "sm_freed (write_slot x p s) = sm_freed s"
  by (cases x; simp add: vtab_def)+

lemma L1_ok_write_slot: "L1_ok s \<Longrightarrow> read_slot x s \<noteq> None \<Longrightarrow> L1_ok (write_slot x p s)"
proof (cases x)
  case (AuxSlot e)
  assume "L1_ok s"
  moreover have "map_of (auxmap_L2 (write_slot x p s)) b \<noteq> None" if "map_of (auxmap_L2 s) b \<noteq> None" for b
    using that AuxSlot by (simp add: update_conv')
  ultimately show ?thesis unfolding L1_ok_def by (simp add: case_prod_beta del: not_None_eq) blast
qed (auto simp: L1_ok_def)

lemma make_slot_writable_ok:
  assumes "mc_ok s" "alloc_ok s" "read_slot x s = Some (slot_ptr s x)"
  shows "\<exists>n s'. make_slot_writable x s = Some (Sm n, s') \<and> mc_ok s' \<and> slot_ptr s' x = Sm n \<and>
    contents s' = contents s \<and> vtab s' = vtab s"
proof (cases "slot_ptr s x")
  case (Sm n)
  then show ?thesis using assms by (auto simp: make_slot_writable_def)
next
  case (Dsm i)
  let ?n = "sm_allocs s"
  let ?s1 = "s\<lparr>secmaps := (secmaps s)(Sm ?n := secmaps s (Dsm i)), sm_allocs := ?n + 1\<rparr>"
  let ?s2 = "update_SM_counts (Dsm i) (Sm ?n) ?s1"
  let ?s3 = "write_slot x (Sm ?n) ?s2"
  from Dsm assms(1) have "i \<le> 2" by (auto simp: mc_ok_def)
  then have "i = 0 \<or> i = 1 \<or> i = 2" by auto
  then have "copy_for_writing (Dsm i) s = Some (Sm ?n, ?s2)"
    using assms(2) by (auto simp: copy_for_writing_def alloc_ok_def Let_def)
  then have r: "make_slot_writable x s = Some (Sm ?n, ?s3)"
    using assms(3) Dsm by (simp add: make_slot_writable_def)
  have sp2: "slot_ptr ?s2 = slot_ptr s"
    by (rule slot_ptr_cong) (simp_all add: update_SM_counts_def)
  then have sp: "slot_ptr ?s3 = (slot_ptr s)(x := Sm ?n)"
    by (simp add: slot_ptr_write_slot)
  have sm: "secmaps ?s3 = (secmaps s)(Sm ?n := secmaps s (Dsm i))" "sm_allocs ?s3 = ?n + 1" "sm_freed ?s3 = sm_freed s"
    by (simp_all add: update_SM_counts_def)
  have "L1_ok ?s2" using assms(1) by (simp add: update_SM_counts_def mc_ok_def L1_ok_def)
  moreover have "read_slot x ?s2 \<noteq> None"
    using assms(3) by (cases x) (auto simp: update_SM_counts_def)
  ultimately have "L1_ok ?s3" by (rule L1_ok_write_slot)
  moreover have fresh: "slot_ptr s y \<noteq> Sm ?n" for y
    using assms(1) by (auto simp: mc_ok_def)
  ultimately have "mc_ok ?s3"
    using assms(1) unfolding mc_ok_def sp sm by (auto simp: less_Suc_eq)
  moreover have "contents ?s3 = contents s"
    unfolding contents_def sp sm(1) using fresh Dsm by (auto simp: fun_eq_iff)
  moreover have "vtab ?s3 = vtab s"
    by (simp add: vtab_def update_SM_counts_def) (cases x; simp add: update_SM_counts_def)
  ultimately show ?thesis using r sp by auto
qed

lemma get_secmap_for_writing_ok:
  assumes "mc_ok s" "alloc_ok s"
  shows "\<exists>n s'. get_secmap_for_writing a s = Some (Sm n, s') \<and> mc_ok s' \<and> slot_ptr s' (slot_of a) = Sm n \<and>
    contents s' = contents s \<and> vtab s' = vtab s"
proof -
  obtain s1 where s1: "get_secmap_ptr a s = Some (slot_of a, s1)" "mc_ok s1" "same_map s s1"
      "read_slot (slot_of a) s1 = Some (slot_ptr s (slot_of a))"
    using get_secmap_ptr_ok [OF assms(1)] by blast
  moreover have "alloc_ok s1" "slot_ptr s1 = slot_ptr s"
    using s1(3) assms(2) by (auto simp: same_map_def alloc_ok_def vtab_def)
  moreover have "contents s1 = contents s" "vtab s1 = vtab s"
    using same_map_contents [OF s1(3)] by auto
  ultimately show ?thesis
    using make_slot_writable_ok [of s1 "slot_of a"] by (auto simp: get_secmap_for_writing_def)
qed

lemma write_secmap_ok:
  assumes "mc_ok s" "slot_ptr s x = Sm n"
  shows "mc_ok (write_secmap (Sm n) off v s) \<and> slot_ptr (write_secmap (Sm n) off v s) = slot_ptr s \<and>
    contents (write_secmap (Sm n) off v s) = (contents s)(x := (contents s x)(off := v)) \<and>
    vtab (write_secmap (Sm n) off v s) = vtab s"
proof -
  let ?s = "write_secmap (Sm n) off v s"
  have sp: "slot_ptr ?s = slot_ptr s"
    by (rule slot_ptr_cong) (simp_all add: write_secmap_def)
  have "L1_ok ?s" using assms(1) by (simp add: mc_ok_def L1_ok_def write_secmap_def)
  then have "mc_ok ?s"
    using assms(1) unfolding mc_ok_def sp by (auto simp: write_secmap_def)
  moreover have "contents ?s = (contents s)(x := (contents s x)(off := v))"
    using assms unfolding contents_def sp mc_ok_def by (fastforce simp: write_secmap_def fun_eq_iff)
  ultimately show ?thesis using sp by (simp add: vtab_def write_secmap_def)
qed

subsection \<open>The compressed bits of an address\<close>

definition cell :: "mc_state \<Rightarrow> Addr \<Rightarrow> UChar" where
  "cell s a = contents s (slot_of a) (SM_OFF a)"

definition va :: "mc_state \<Rightarrow> Addr \<Rightarrow> UChar" where
  "va s a = extract_vabits2_from_vabits8 a (cell s a)"

lemma va_le_3 [simp]: "va s a \<le> 3"
  by (simp add: va_def extract_le_3)

lemma va_cases:
  obtains "va s a = VA_BITS2_NOACCESS" | "va s a = VA_BITS2_UNDEFINED" | "va s a = VA_BITS2_DEFINED"
    | "va s a = VA_BITS2_PARTDEFINED"
proof -
  have "unat (va s a) \<le> 3" using va_le_3 [of s a] unfolding unat_le_iff by simp
  then have "unat (va s a) = 0 \<or> unat (va s a) = 1 \<or> unat (va s a) = 2 \<or> unat (va s a) = 3" by linarith
  then show ?thesis
    using that unfolding va_consts by (auto simp: unat_eq_iff [of "va s a"])
qed

lemma same_map_va: "same_map s s' \<Longrightarrow> va s' = va s \<and> cell s' = cell s"
  by (auto simp: va_def cell_def fun_eq_iff dest: same_map_contents)

lemma contents_va: "contents s' = contents s \<Longrightarrow> va s' = va s"
  by (auto simp: va_def cell_def fun_eq_iff)

lemma cell_slot: "slot_of a = slot_of b \<Longrightarrow> SM_OFF a = SM_OFF b \<longleftrightarrow> unat a div 4 = unat b div 4"
proof -
  assume "slot_of a = slot_of b"
  then have d: "unat a div 65536 = unat b div 65536" by (simp add: slot_of_eq)
  have e: "x div 4 = x div 65536 * 16384 + x mod 65536 div 4" for x :: nat
  proof -
    have "x div 4 = (x div 65536 * 16384 * 4 + x mod 65536) div 4"
      by (simp add: mult.assoc)
    also have "\<dots> = x div 65536 * 16384 + x mod 65536 div 4"
      by (rule div_mult_self3) simp
    finally show ?thesis .
  qed
  show ?thesis using e [of "unat a"] e [of "unat b"] d by (simp add: SM_OFF_unat)
qed

lemma word32_same_slot: "unat a div 4 = unat b div 4 \<Longrightarrow> slot_of a = slot_of b"
proof -
  assume "unat a div 4 = unat b div 4"
  then have "unat a div 4 div 16384 = unat b div 4 div 16384" by simp
  then show ?thesis by (simp add: slot_of_eq div_mult2_eq [symmetric])
qed

lemma cell_index: "slot_of a = slot_of b \<and> SM_OFF a = SM_OFF b \<longleftrightarrow> unat a div 4 = unat b div 4"
  using cell_slot word32_same_slot by blast

lemma write_cell_va:
  assumes "mc_ok s" "slot_ptr s (slot_of a) = Sm n"
  shows "va (write_secmap (Sm n) (SM_OFF a) w s) x =
    (if unat x div 4 = unat a div 4 then extract_vabits2_from_vabits8 x w else va s x)"
proof -
  have "contents (write_secmap (Sm n) (SM_OFF a) w s) =
      (contents s)(slot_of a := (contents s (slot_of a))(SM_OFF a := w))"
    using write_secmap_ok [OF assms] by blast
  then show ?thesis
    using cell_index [of x a] by (auto simp: va_def cell_def)
qed

lemma insert_vabits2_va:
  assumes "mc_ok s" "slot_ptr s (slot_of a) = Sm n" "v \<le> 3"
  shows "va (write_secmap (Sm n) (SM_OFF a) (insert_vabits2_into_vabits8 a v (secmaps s (Sm n) (SM_OFF a))) s) = (va s)(a := v)"
proof
  fix x
  have c: "secmaps s (Sm n) (SM_OFF a) = cell s a"
    using assms(2) by (simp add: cell_def contents_def)
  have "unat x div 4 = unat a div 4 \<Longrightarrow> cell s x = cell s a"
    using cell_index [of x a] by (simp add: cell_def)
  moreover have "unat x div 4 = unat a div 4 \<Longrightarrow> a AND 3 = x AND 3 \<Longrightarrow> x = a"
    using cell_index [of x a] addr_eqI [of x a] by simp
  ultimately show "va (write_secmap (Sm n) (SM_OFF a) (insert_vabits2_into_vabits8 a v (secmaps s (Sm n) (SM_OFF a))) s) x = ((va s)(a := v)) x"
    unfolding write_cell_va [OF assms(1,2)] c by (auto simp: extract_insert [OF assms(3)] va_def)
qed

lemma get_vabits2_ok:
  assumes "mc_ok s"
  shows "\<exists>s'. get_vabits2 a s = Some (va s a, s') \<and> mc_ok s' \<and> same_map s s'"
proof -
  obtain s' where s': "get_secmap_for_reading a s = Some (slot_ptr s (slot_of a), s')" "mc_ok s'" "same_map s s'"
    using get_secmap_for_reading_ok [OF assms] by blast
  moreover have "secmaps s' = secmaps s" using s'(3) by (simp add: same_map_def)
  ultimately show ?thesis
    by (simp add: get_vabits2_def va_def cell_def contents_def)
qed

lemma set_vabits2_ok:
  assumes "mc_ok s" "alloc_ok s" "v \<le> 3"
  shows "\<exists>s'. set_vabits2 a v s = Some s' \<and> mc_ok s' \<and> va s' = (va s)(a := v) \<and> vtab s' = vtab s"
proof -
  obtain n t where t: "get_secmap_for_writing a s = Some (Sm n, t)" "mc_ok t" "slot_ptr t (slot_of a) = Sm n"
      "contents t = contents s" "vtab t = vtab s"
    using get_secmap_for_writing_ok [OF assms(1,2)] by blast
  then show ?thesis
    using insert_vabits2_va [OF t(2,3) assms(3)] write_secmap_ok [OF t(2,3)] contents_va [OF t(4)]
    by (simp add: set_vabits2_def Let_def)
qed

lemma get_vabits8_ok:
  assumes "mc_ok s"
  shows "\<exists>s'. get_vabits8_for_aligned_word32 a s = Some (cell s a, s') \<and> mc_ok s' \<and> same_map s s'"
proof -
  obtain s' where s': "get_secmap_for_reading a s = Some (slot_ptr s (slot_of a), s')" "mc_ok s'" "same_map s s'"
    using get_secmap_for_reading_ok [OF assms] by blast
  moreover have "secmaps s' = secmaps s" using s'(3) by (simp add: same_map_def)
  ultimately show ?thesis
    by (simp add: get_vabits8_for_aligned_word32_def cell_def contents_def)
qed

lemma set_vabits8_ok:
  assumes "mc_ok s" "alloc_ok s"
  shows "\<exists>s'. set_vabits8_for_aligned_word32 a w s = Some s' \<and> mc_ok s' \<and> vtab s' = vtab s \<and>
    va s' = (\<lambda>x. if unat x div 4 = unat a div 4 then extract_vabits2_from_vabits8 x w else va s x)"
proof -
  obtain n t where t: "get_secmap_for_writing a s = Some (Sm n, t)" "mc_ok t" "slot_ptr t (slot_of a) = Sm n"
      "contents t = contents s" "vtab t = vtab s"
    using get_secmap_for_writing_ok [OF assms(1,2)] by blast
  then show ?thesis
    using write_cell_va [OF t(2,3)] write_secmap_ok [OF t(2,3)] contents_va [OF t(4)]
    by (simp add: set_vabits8_for_aligned_word32_def fun_eq_iff)
qed

subsection \<open>Whole words\<close>

lemma extract_uniform:
  "extract_vabits2_from_vabits8 a VA_BITS8_DEFINED = VA_BITS2_DEFINED"
  "extract_vabits2_from_vabits8 a VA_BITS8_UNDEFINED = VA_BITS2_UNDEFINED"
  "extract_vabits2_from_vabits8 a VA_BITS8_NOACCESS = VA_BITS2_NOACCESS"
  by (cases a rule: and3_cases; simp add: extract_vabits2_from_vabits8_def va_consts)+

end
