(* ===== verification/VBits.thy ===== *)
theory VBits
  imports ShadowMem
begin

text \<open>
  The V bit operations of Memcheck over the shadow tables, \<^verbatim>\<open>memcheck/mc_main.c\<close>: reading and
  writing the definedness of one byte with the secondary V bit table behind it (and its
  garbage collection), and the slow loads and stores built on them.

  A \<^verbatim>\<open>UShort\<close> access to \<^verbatim>\<open>vabits8\<close> reads two neighbouring bytes of a little-endian host.
  The secondary V bit table is an \<^verbatim>\<open>OSet\<close>, here a list of nodes in key order.
\<close>

definition V_BITS64_DEFINED :: UWord where "V_BITS64_DEFINED = 0"
definition V_BITS64_UNDEFINED :: UWord where "V_BITS64_UNDEFINED = 0xFFFFFFFFFFFFFFFF"
definition V_BITS32_DEFINED :: UWord where "V_BITS32_DEFINED = 0"
definition V_BITS32_UNDEFINED :: UWord where "V_BITS32_UNDEFINED = 0xFFFFFFFF"
definition V_BITS16_DEFINED :: UWord where "V_BITS16_DEFINED = 0"
definition V_BITS16_UNDEFINED :: UWord where "V_BITS16_UNDEFINED = 0xFFFF"
definition VA_BITS4_DEFINED :: UChar where "VA_BITS4_DEFINED = 0xa"
definition VA_BITS4_UNDEFINED :: UChar where "VA_BITS4_UNDEFINED = 0x5"

lemmas v_consts = V_BITS64_DEFINED_def V_BITS64_UNDEFINED_def V_BITS32_DEFINED_def
  V_BITS32_UNDEFINED_def V_BITS16_DEFINED_def V_BITS16_UNDEFINED_def VA_BITS4_DEFINED_def
  VA_BITS4_UNDEFINED_def

subsection \<open>The secondary V bit table\<close>

definition BYTES_PER_SEC_VBIT_NODE :: nat where "BYTES_PER_SEC_VBIT_NODE = 16"
definition TABLE_GROWTH_FACTOR :: nat where "TABLE_GROWTH_FACTOR = 2"
definition MAX_STALE_AGE :: UInt where "MAX_STALE_AGE = 2"

text \<open>\<^verbatim>\<open>VG_(OSetGen_Insert)\<close>: the elements stay in key order, a duplicate key is an assertion
  failure.\<close>

definition OSetGen_Insert :: "Addr \<Rightarrow> SecVBitNode \<Rightarrow> (Addr \<times> SecVBitNode) list \<Rightarrow> (Addr \<times> SecVBitNode) list option" where
  "OSetGen_Insert a n t = do {
     vg_assert (map_of t a = None);
     Some (insort_key fst (a, n) t) }"

text \<open>The inner loop of \<^verbatim>\<open>gcSecVBitTable\<close>: is any of the bytes non-stale?\<close>

fun gc_scan :: "Addr \<Rightarrow> nat list \<Rightarrow> mc_state \<Rightarrow> (bool \<times> mc_state) option" where
  "gc_scan a [] s = Some (False, s)"
| "gc_scan a (i # is) s = do {
     (vabits2, s) \<leftarrow> get_vabits2 (a + of_nat i) s;
     if VA_BITS2_PARTDEFINED = vabits2 then Some (True, s) else gc_scan a is s }"

definition gc_keep :: "Addr \<Rightarrow> SecVBitNode \<Rightarrow> mc_state \<Rightarrow> (bool \<times> mc_state) option" where
  "gc_keep a n s =
     (if GCs_done s - last_touched n \<le> MAX_STALE_AGE then Some (True, s)
      else gc_scan a [0..<BYTES_PER_SEC_VBIT_NODE] s)"

text \<open>The traversal, with the new table as accumulator.\<close>

fun gc_traverse :: "(Addr \<times> SecVBitNode) list \<Rightarrow> (Addr \<times> SecVBitNode) list \<Rightarrow> mc_state
    \<Rightarrow> ((Addr \<times> SecVBitNode) list \<times> mc_state) option" where
  "gc_traverse [] t2 s = Some (t2, s)"
| "gc_traverse ((a, n) # ns) t2 s = do {
     (keep, s) \<leftarrow> gc_keep a n s;
     t2 \<leftarrow> (if keep then OSetGen_Insert a n t2 else Some t2);
     gc_traverse ns t2 s }"

text \<open>\<^verbatim>\<open>n_survivors > secVBitLimit * MAX_SURVIVOR_PROPORTION\<close>, with the proportion 0.5.\<close>

definition gcSecVBitTable :: "mc_state \<Rightarrow> mc_state option" where
  "gcSecVBitTable s = do {
     let s = s\<lparr>GCs_done := GCs_done s + 1\<rparr>;
     (t2, s) \<leftarrow> gc_traverse (secVBitTable s) [] s;
     let n_survivors = length t2;
     let s = s\<lparr>secVBitTable := t2\<rparr>;
     Some (if 2 * n_survivors > secVBitLimit s
           then s\<lparr>secVBitLimit := secVBitLimit s * TABLE_GROWTH_FACTOR\<rparr> else s) }"

definition sec_aligned :: "Addr \<Rightarrow> Addr" where
  "sec_aligned a = a AND NOT (of_nat BYTES_PER_SEC_VBIT_NODE - 1)"

definition sec_amod :: "Addr \<Rightarrow> nat" where
  "sec_amod a = unat (a mod of_nat BYTES_PER_SEC_VBIT_NODE)"

definition get_sec_vbits8 :: "Addr \<Rightarrow> mc_state \<Rightarrow> UChar option" where
  "get_sec_vbits8 a s = do {
     n \<leftarrow> map_of (secVBitTable s) (sec_aligned a);
     let v = vbits8 n ! sec_amod a;
     vg_assert (V_BITS8_DEFINED \<noteq> v \<and> V_BITS8_UNDEFINED \<noteq> v);
     Some v }"

definition set_sec_vbits8 :: "Addr \<Rightarrow> UChar \<Rightarrow> mc_state \<Rightarrow> mc_state option" where
  "set_sec_vbits8 a v s = do {
     let aAligned = sec_aligned a;
     let amod = sec_amod a;
     let n = map_of (secVBitTable s) aAligned;
     vg_assert (V_BITS8_DEFINED \<noteq> v \<and> V_BITS8_UNDEFINED \<noteq> v);
     (case n of
        Some n \<Rightarrow>
          Some (s\<lparr>secVBitTable := AList.update aAligned
                    (n\<lparr>vbits8 := (vbits8 n)[amod := v], last_touched := GCs_done s\<rparr>) (secVBitTable s),
                  sec_vbits_updates := sec_vbits_updates s + 1\<rparr>)
      | None \<Rightarrow> do {
          let n = \<lparr>vbits8 = (replicate BYTES_PER_SEC_VBIT_NODE V_BITS8_UNDEFINED)[amod := v],
                   last_touched = GCs_done s\<rparr>;
          s \<leftarrow> (if secVBitLimit s = length (secVBitTable s) then gcSecVBitTable s else Some s);
          t \<leftarrow> OSetGen_Insert aAligned n (secVBitTable s);
          let nn = length t;
          Some (s\<lparr>secVBitTable := t, sec_vbits_new_nodes := sec_vbits_new_nodes s + 1,
                  n_secVBit_nodes := nn,
                  max_secVBit_nodes := (if nn > max_secVBit_nodes s then nn else max_secVBit_nodes s)\<rparr>) }) }"

subsection \<open>One byte of V bits\<close>

definition set_vbits8 :: "Addr \<Rightarrow> UChar \<Rightarrow> mc_state \<Rightarrow> (bool \<times> mc_state) option" where
  "set_vbits8 a v s = do {
     (vabits2, s) \<leftarrow> get_vabits2 a s;
     if VA_BITS2_NOACCESS \<noteq> vabits2 then do {
       (vabits2, s) \<leftarrow>
         (if V_BITS8_DEFINED = v then Some (VA_BITS2_DEFINED, s)
          else if V_BITS8_UNDEFINED = v then Some (VA_BITS2_UNDEFINED, s)
          else do { s \<leftarrow> set_sec_vbits8 a v s; Some (VA_BITS2_PARTDEFINED, s) });
       s \<leftarrow> set_vabits2 a vabits2 s;
       Some (True, s) }
     else Some (False, s) }"

definition get_vbits8 :: "Addr \<Rightarrow> mc_state \<Rightarrow> (bool \<times> UChar \<times> mc_state) option" where
  "get_vbits8 a s = do {
     (vabits2, s) \<leftarrow> get_vabits2 a s;
     if VA_BITS2_DEFINED = vabits2 then Some (True, V_BITS8_DEFINED, s)
     else if VA_BITS2_UNDEFINED = vabits2 then Some (True, V_BITS8_UNDEFINED, s)
     else if VA_BITS2_NOACCESS = vabits2 then Some (False, V_BITS8_DEFINED, s)
     else do {
       vg_assert (VA_BITS2_PARTDEFINED = vabits2);
       v \<leftarrow> get_sec_vbits8 a s;
       Some (True, v, s) } }"

definition byte_offset_w :: "UWord \<Rightarrow> bool \<Rightarrow> UWord \<Rightarrow> UWord" where
  "byte_offset_w wordszB bigendian byteno = (if bigendian then wordszB - 1 - byteno else byteno)"

subsection \<open>Loads and stores, slow cases\<close>

text \<open>\<^verbatim>\<open>((UShort*)(sm->vabits8))[i]\<close>\<close>

definition read_vabits16 :: "SecMapPtr \<Rightarrow> nat \<Rightarrow> mc_state \<Rightarrow> UShort" where
  "read_vabits16 sm i s = push_bit 8 (ucast (secmaps s sm (2 * i + 1))) OR ucast (secmaps s sm (2 * i))"

definition write_vabits16 :: "SecMapPtr \<Rightarrow> nat \<Rightarrow> UShort \<Rightarrow> mc_state \<Rightarrow> mc_state" where
  "write_vabits16 sm i v s =
     write_secmap sm (2 * i + 1) (ucast (drop_bit 8 v)) (write_secmap sm (2 * i) (ucast v) s)"

definition record_address_error :: "Addr \<Rightarrow> SizeT \<Rightarrow> bool \<Rightarrow> mc_state \<Rightarrow> mc_state" where
  "record_address_error a szB isWrite s = s\<lparr>address_errors := address_errors s @ [(a, szB, isWrite)]\<rparr>"

text \<open>The byte loop of the slow load, \<^verbatim>\<open>for (i = szB-1; i >= 0; i--)\<close>; the first argument is
  \<^verbatim>\<open>i+1\<close>.\<close>

fun loadv_loop :: "nat \<Rightarrow> Addr \<Rightarrow> SizeT \<Rightarrow> bool \<Rightarrow> UWord \<Rightarrow> SizeT \<Rightarrow> mc_state \<Rightarrow> (UWord \<times> SizeT \<times> mc_state) option" where
  "loadv_loop 0 a szB bigendian vbits64 n_addrs_bad s = Some (vbits64, n_addrs_bad, s)"
| "loadv_loop (Suc i) a szB bigendian vbits64 n_addrs_bad s = do {
     let ai = a + byte_offset_w szB bigendian (of_nat i);
     (ok, v, s) \<leftarrow> get_vbits8 ai s;
     let n_addrs_bad = (if \<not> ok then n_addrs_bad + 1 else n_addrs_bad);
     loadv_loop i a szB bigendian (push_bit 8 vbits64 OR ucast v) n_addrs_bad s }"

definition mc_LOADVn_bytes :: "Addr \<Rightarrow> SizeT \<Rightarrow> bool \<Rightarrow> mc_state \<Rightarrow> (UWord \<times> mc_state) option" where
  "mc_LOADVn_bytes a nBits bigendian s = do {
     let szB = nBits div 8;
     vg_assert (nBits = 64 \<or> nBits = 32 \<or> nBits = 16 \<or> nBits = 8);
     (vbits64, n_addrs_bad, s) \<leftarrow> loadv_loop (unat szB) a szB bigendian V_BITS64_UNDEFINED 0 s;
     let partial_load_exemption_applies =
       clo_partial_loads_ok s \<and> szB = 8 \<and> a AND 7 = 0 \<and> n_addrs_bad < 8;
     Some (vbits64, if n_addrs_bad > 0 \<and> \<not> partial_load_exemption_applies
                    then record_address_error a szB False s else s) }"

definition mc_LOADVn_slow :: "Addr \<Rightarrow> SizeT \<Rightarrow> bool \<Rightarrow> mc_state \<Rightarrow> (UWord \<times> mc_state) option" where
  "mc_LOADVn_slow a nBits bigendian s =
     (if nBits = 64 \<and> a AND 7 = 0 then do {
        (sm, s) \<leftarrow> get_secmap_for_reading a s;
        let vabits16 = read_vabits16 sm (SM_OFF_16 a) s;
        if vabits16 = VA_BITS16_DEFINED then Some (V_BITS64_DEFINED, s)
        else if vabits16 = VA_BITS16_UNDEFINED then Some (V_BITS64_UNDEFINED, s)
        else mc_LOADVn_bytes a nBits bigendian s }
      else if nBits = 32 \<and> a AND 3 = 0 then do {
        (sm, s) \<leftarrow> get_secmap_for_reading a s;
        let v8 = secmaps s sm (SM_OFF a);
        if v8 = VA_BITS8_DEFINED then Some (0xFFFFFFFF00000000 OR V_BITS32_DEFINED, s)
        else if v8 = VA_BITS8_UNDEFINED then Some (0xFFFFFFFF00000000 OR V_BITS32_UNDEFINED, s)
        else mc_LOADVn_bytes a nBits bigendian s }
      else mc_LOADVn_bytes a nBits bigendian s)"

text \<open>The byte loop of the slow store, \<^verbatim>\<open>for (i = 0; i < szB; i++)\<close>; the first argument is the
  number of bytes left.\<close>

fun storev_loop :: "nat \<Rightarrow> UWord \<Rightarrow> Addr \<Rightarrow> SizeT \<Rightarrow> bool \<Rightarrow> UWord \<Rightarrow> SizeT \<Rightarrow> mc_state \<Rightarrow> (SizeT \<times> mc_state) option" where
  "storev_loop 0 i a szB bigendian vbytes n_addrs_bad s = Some (n_addrs_bad, s)"
| "storev_loop (Suc k) i a szB bigendian vbytes n_addrs_bad s = do {
     let ai = a + byte_offset_w szB bigendian i;
     (ok, s) \<leftarrow> set_vbits8 ai (ucast (vbytes AND 0xff)) s;
     let n_addrs_bad = (if \<not> ok then n_addrs_bad + 1 else n_addrs_bad);
     storev_loop k (i + 1) a szB bigendian (drop_bit 8 vbytes) n_addrs_bad s }"

definition mc_STOREVn_bytes :: "Addr \<Rightarrow> SizeT \<Rightarrow> UWord \<Rightarrow> bool \<Rightarrow> mc_state \<Rightarrow> mc_state option" where
  "mc_STOREVn_bytes a nBits vbytes bigendian s = do {
     let szB = nBits div 8;
     vg_assert (nBits = 64 \<or> nBits = 32 \<or> nBits = 16 \<or> nBits = 8);
     (n_addrs_bad, s) \<leftarrow> storev_loop (unat szB) 0 a szB bigendian vbytes 0 s;
     Some (if n_addrs_bad > 0 then record_address_error a szB True s else s) }"

definition mc_STOREVn_slow :: "Addr \<Rightarrow> SizeT \<Rightarrow> UWord \<Rightarrow> bool \<Rightarrow> mc_state \<Rightarrow> mc_state option" where
  "mc_STOREVn_slow a nBits vbytes bigendian s =
     (if nBits = 64 \<and> a AND 7 = 0 then do {
        (sm, s) \<leftarrow> get_secmap_for_reading a s;
        let sm_off16 = SM_OFF_16 a;
        let vabits16 = read_vabits16 sm sm_off16 s;
        if \<not> is_distinguished_sm sm \<and> (VA_BITS16_DEFINED = vabits16 \<or> VA_BITS16_UNDEFINED = vabits16) then
          (if V_BITS64_DEFINED = vbytes then Some (write_vabits16 sm sm_off16 VA_BITS16_DEFINED s)
           else if V_BITS64_UNDEFINED = vbytes then Some (write_vabits16 sm sm_off16 VA_BITS16_UNDEFINED s)
           else mc_STOREVn_bytes a nBits vbytes bigendian s)
        else mc_STOREVn_bytes a nBits vbytes bigendian s }
      else if nBits = 32 \<and> a AND 3 = 0 then do {
        (sm, s) \<leftarrow> get_secmap_for_reading a s;
        let sm_off = SM_OFF a;
        let v8 = secmaps s sm sm_off;
        if \<not> is_distinguished_sm sm \<and> (VA_BITS8_DEFINED = v8 \<or> VA_BITS8_UNDEFINED = v8) then
          (if V_BITS32_DEFINED = (vbytes AND 0xFFFFFFFF) then Some (write_secmap sm sm_off VA_BITS8_DEFINED s)
           else if V_BITS32_UNDEFINED = (vbytes AND 0xFFFFFFFF) then Some (write_secmap sm sm_off VA_BITS8_UNDEFINED s)
           else mc_STOREVn_bytes a nBits vbytes bigendian s)
        else mc_STOREVn_bytes a nBits vbytes bigendian s }
      else mc_STOREVn_bytes a nBits vbytes bigendian s)"

end
