(* ===== verification/VBits_Correct.thy ===== *)
theory VBits_Correct
  imports ShadowMem_Correct VBits
begin

text \<open>
  Correctness of the V bit operations. The abstract memory \<open>view\<close> gives each byte address no
  access or eight V bits; the invariant \<open>mem_ok\<close> links every partially defined byte to a node of
  the secondary V bit table with non-trivial bits. The byte operations are the locale
  \<open>shadow_bytes\<close>; the slow loads and stores are specified byte by byte over \<open>view\<close>.
\<close>

lemma split16:
  fixes h l :: UChar
  defines "w \<equiv> (push_bit 8 (ucast h) OR ucast l :: UShort)"
  shows "ucast w = l" "ucast (drop_bit 8 w) = h"
  unfolding w_def by (rule bit_word_eqI; auto simp: bit_simps dest: bit_imp_le_length)+

lemma read16_eq:
  fixes h l :: UChar
  shows "(push_bit 8 (ucast h) OR ucast l :: UShort) = w \<longleftrightarrow> l = ucast w \<and> h = ucast (drop_bit 8 w)"
proof
  show "(push_bit 8 (ucast h) OR ucast l :: UShort) = w \<Longrightarrow> l = ucast w \<and> h = ucast (drop_bit 8 w)"
    using split16 [of h l] by metis
next
  assume "l = ucast w \<and> h = ucast (drop_bit 8 w)"
  then show "(push_bit 8 (ucast h) OR ucast l :: UShort) = w"
    by (auto intro!: bit_word_eqI simp: bit_simps)
qed

lemma aligned8_off:
  assumes "a AND 7 = (0 :: Addr)"
  shows "SM_OFF a = 2 * SM_OFF_16 a" "SM_OFF (a + 4) = 2 * SM_OFF_16 a + 1" "slot_of (a + 4) = slot_of a"
    "unat (a + 4) = unat a + 4"
    "unat x div 8 = unat a div 8 \<longleftrightarrow> unat x div 4 = unat a div 4 \<or> unat x div 4 = unat (a + 4) div 4"
proof -
  define k where "k = unat a div 8"
  have "unat (a AND 7) = 0" using assms by simp
  then have m: "unat a mod 8 = 0" by (simp only: unat_and_7)
  then have ua: "unat a = 8 * k" by (simp add: k_def mult.commute minus_mod_eq_mult_div [symmetric])
  have lt: "unat a < 18446744073709551616" using unsigned_less [of a] by simp
  then have "k < 2305843009213693952" unfolding ua by linarith
  then have "8 * k + 4 < 18446744073709551616" by linarith
  then show ua4: "unat (a + 4) = unat a + 4"
    using ua by (simp add: unat_word_ariths)
  have md: "8 * k mod 65536 = 8 * (k mod 8192)" using mod_mult_mult1 [of 8 k 8192] by simp
  have km: "k mod 8192 < 8192" by simp
  have "(8 * k + 4) mod 65536 = (8 * k mod 65536 + 4) mod 65536" by (simp add: mod_add_left_eq)
  also have "\<dots> = 8 * (k mod 8192) + 4" unfolding md using km by (intro mod_less) linarith
  finally have md4: "(8 * k + 4) mod 65536 = 8 * (k mod 8192) + 4" .
  show "SM_OFF a = 2 * SM_OFF_16 a"
    unfolding SM_OFF_unat SM_OFF_16_unat ua md by simp
  show "SM_OFF (a + 4) = 2 * SM_OFF_16 a + 1"
    unfolding SM_OFF_unat SM_OFF_16_unat ua4 ua md md4 by simp
  have "(8 * k + 4) div 65536 = (8 * k + 4) div 8 div 8192" by (simp add: div_mult2_eq [symmetric])
  also have "\<dots> = 8 * k div 8 div 8192" by simp
  finally have "(8 * k + 4) div 65536 = 8 * k div 65536" by (simp add: div_mult2_eq [symmetric])
  then show "slot_of (a + 4) = slot_of a"
    unfolding slot_of_eq ua4 ua .
  show "unat x div 8 = unat a div 8 \<longleftrightarrow> unat x div 4 = unat a div 4 \<or> unat x div 4 = unat (a + 4) div 4"
    unfolding ua4 ua by simp linarith
qed

lemma aligned4_off:
  assumes "a AND 3 = (0 :: Addr)"
  shows "k < 4 \<Longrightarrow> unat (a + of_nat k) = unat a + k"
    "unat x div 4 = unat a div 4 \<longleftrightarrow> (\<exists>k<4. x = a + of_nat k)"
proof -
  have "unat (a AND 3) = 0" using assms by simp
  then have m: "unat a mod 4 = 0" by (simp only: unat_and_3)
  have lt: "unat a < 18446744073709551616" using unsigned_less [of a] by simp
  show *: "unat (a + of_nat k) = unat a + k" if "k < 4" for k
  proof -
    have "unat a + k < 18446744073709551616" using lt m that by presburger
    moreover have "unat (of_nat k :: Addr) = k" using that by (simp add: unat_of_nat)
    ultimately show ?thesis by (simp add: unat_word_ariths)
  qed
  show "unat x div 4 = unat a div 4 \<longleftrightarrow> (\<exists>k<4. x = a + of_nat k)"
  proof
    assume h: "unat x div 4 = unat a div 4"
    then have "unat x = unat a + unat x mod 4"
      using m by (metis add.right_neutral mult_div_mod_eq)
    then have "x = a + of_nat (unat x mod 4)"
      using * [of "unat x mod 4"] by (simp add: unat_eq_iff)
    then show "\<exists>k<4. x = a + of_nat k" by (meson mod_less_divisor zero_less_numeral)
  next
    assume "\<exists>k<4. x = a + of_nat k"
    then obtain k where "k < 4" "unat x = unat a + k" using * by auto
    then show "unat x div 4 = unat a div 4" using m by presburger
  qed
qed

lemma read_vabits16_cell:
  assumes "a AND 7 = (0 :: Addr)" "slot_ptr s (slot_of a) = p"
  shows "read_vabits16 p (SM_OFF_16 a) s = w \<longleftrightarrow> cell s a = ucast w \<and> cell s (a + 4) = ucast (drop_bit 8 w)"
  unfolding read_vabits16_def read16_eq using assms aligned8_off [OF assms(1)]
  by (auto simp: cell_def contents_def)

lemma write_vabits16_va:
  assumes "a AND 7 = (0 :: Addr)" "mc_ok s" "slot_ptr s (slot_of a) = Sm n"
    "ucast w = w8" "ucast (drop_bit 8 w) = w8"
  shows "mc_ok (write_vabits16 (Sm n) (SM_OFF_16 a) w s)"
    "slot_ptr (write_vabits16 (Sm n) (SM_OFF_16 a) w s) = slot_ptr s"
    "vtab (write_vabits16 (Sm n) (SM_OFF_16 a) w s) = vtab s"
    "va (write_vabits16 (Sm n) (SM_OFF_16 a) w s) =
      (\<lambda>x. if unat x div 8 = unat a div 8 then extract_vabits2_from_vabits8 x w8 else va s x)"
proof -
  note al = aligned8_off [OF assms(1)]
  let ?t = "write_secmap (Sm n) (SM_OFF a) w8 s"
  have e: "write_vabits16 (Sm n) (SM_OFF_16 a) w s = write_secmap (Sm n) (SM_OFF (a + 4)) w8 ?t"
    unfolding write_vabits16_def assms(4,5) al(1,2) by simp
  have t: "mc_ok ?t" "slot_ptr ?t = slot_ptr s" "vtab ?t = vtab s"
    using write_secmap_ok [OF assms(2,3)] by blast+
  then have t4: "slot_ptr ?t (slot_of (a + 4)) = Sm n" using assms(3) al(3) by simp
  show "mc_ok (write_vabits16 (Sm n) (SM_OFF_16 a) w s)"
    "slot_ptr (write_vabits16 (Sm n) (SM_OFF_16 a) w s) = slot_ptr s"
    "vtab (write_vabits16 (Sm n) (SM_OFF_16 a) w s) = vtab s"
    unfolding e using write_secmap_ok [OF t(1) t4] t by auto
  show "va (write_vabits16 (Sm n) (SM_OFF_16 a) w s) =
      (\<lambda>x. if unat x div 8 = unat a div 8 then extract_vabits2_from_vabits8 x w8 else va s x)"
    unfolding e fun_eq_iff write_cell_va [OF t(1) t4] write_cell_va [OF assms(2,3)] al(5) by auto
qed

lemma cell_va: "unat x div 4 = unat a div 4 \<Longrightarrow> va s x = extract_vabits2_from_vabits8 x (cell s a)"
  using cell_index [of x a] by (simp add: va_def cell_def)

lemma cast16:
  "ucast VA_BITS16_DEFINED = VA_BITS8_DEFINED" "ucast (drop_bit 8 VA_BITS16_DEFINED) = VA_BITS8_DEFINED"
  "ucast VA_BITS16_UNDEFINED = VA_BITS8_UNDEFINED" "ucast (drop_bit 8 VA_BITS16_UNDEFINED) = VA_BITS8_UNDEFINED"
  "ucast VA_BITS16_NOACCESS = VA_BITS8_NOACCESS" "ucast (drop_bit 8 VA_BITS16_NOACCESS) = VA_BITS8_NOACCESS"
  by (simp_all add: va_consts)

lemma read16_uniform:
  assumes "a AND 7 = (0 :: Addr)" "slot_ptr s (slot_of a) = p" "unat x div 8 = unat a div 8"
  shows "read_vabits16 p (SM_OFF_16 a) s = VA_BITS16_DEFINED \<Longrightarrow> va s x = VA_BITS2_DEFINED"
    "read_vabits16 p (SM_OFF_16 a) s = VA_BITS16_UNDEFINED \<Longrightarrow> va s x = VA_BITS2_UNDEFINED"
  using assms(3) cell_va [of x a s] cell_va [of x "a + 4" s]
  unfolding read_vabits16_cell [OF assms(1,2)] aligned8_off(5) [OF assms(1)] cast16
  by (auto simp: extract_uniform)

subsection \<open>The secondary V bit table\<close>

definition sec :: "mc_state \<Rightarrow> Addr \<Rightarrow> UChar option" where
  "sec s x = map_option (\<lambda>n. vbits8 n ! sec_amod x) (map_of (secVBitTable s) (sec_aligned x))"

definition tab_ok :: "(Addr \<times> SecVBitNode) list \<Rightarrow> bool" where
  "tab_ok t \<longleftrightarrow> distinct (map fst t) \<and> (\<forall>(k, n)\<in>set t. length (vbits8 n) = BYTES_PER_SEC_VBIT_NODE)"

text \<open>The fields outside the shadow tables.\<close>

definition env :: "mc_state \<Rightarrow> _" where
  "env s = (shadow_alloc_ok s, clo_partial_loads_ok s, clo_mc_level s, address_errors s, ocache_calls s)"

lemma vtab_env: "vtab s' = vtab s \<Longrightarrow> env s' = env s \<and> sec s' = sec s \<and> secVBitTable s' = secVBitTable s"
  by (auto simp: vtab_def env_def sec_def fun_eq_iff)

lemma env_alloc_ok: "env s' = env s \<Longrightarrow> alloc_ok s' = alloc_ok s"
  by (simp add: env_def alloc_ok_def)

lemma slot_ptr_sec [simp]:
  "slot_ptr (s\<lparr>secVBitTable := t\<rparr>) = slot_ptr s" "slot_ptr (s\<lparr>GCs_done := g\<rparr>) = slot_ptr s"
  "slot_ptr (s\<lparr>secVBitLimit := l\<rparr>) = slot_ptr s" "slot_ptr (s\<lparr>sec_vbits_updates := u\<rparr>) = slot_ptr s"
  "slot_ptr (s\<lparr>sec_vbits_new_nodes := u\<rparr>) = slot_ptr s" "slot_ptr (s\<lparr>n_secVBit_nodes := u\<rparr>) = slot_ptr s"
  "slot_ptr (s\<lparr>max_secVBit_nodes := u\<rparr>) = slot_ptr s" "slot_ptr (s\<lparr>address_errors := e\<rparr>) = slot_ptr s"
  "slot_ptr (s\<lparr>ocache_calls := oc\<rparr>) = slot_ptr s"
  by (rule slot_ptr_cong; simp)+

lemma mc_ok_sec [simp]:
  "mc_ok (s\<lparr>secVBitTable := t\<rparr>) = mc_ok s" "mc_ok (s\<lparr>GCs_done := g\<rparr>) = mc_ok s"
  "mc_ok (s\<lparr>secVBitLimit := l\<rparr>) = mc_ok s" "mc_ok (s\<lparr>sec_vbits_updates := u\<rparr>) = mc_ok s"
  "mc_ok (s\<lparr>sec_vbits_new_nodes := u\<rparr>) = mc_ok s" "mc_ok (s\<lparr>n_secVBit_nodes := u\<rparr>) = mc_ok s"
  "mc_ok (s\<lparr>max_secVBit_nodes := u\<rparr>) = mc_ok s" "mc_ok (s\<lparr>address_errors := e\<rparr>) = mc_ok s"
  "mc_ok (s\<lparr>ocache_calls := oc\<rparr>) = mc_ok s"
  by (simp_all add: mc_ok_def L1_ok_def)

lemma va_sec [simp]:
  "va (s\<lparr>secVBitTable := t\<rparr>) = va s" "va (s\<lparr>GCs_done := g\<rparr>) = va s"
  "va (s\<lparr>secVBitLimit := l\<rparr>) = va s" "va (s\<lparr>sec_vbits_updates := u\<rparr>) = va s"
  "va (s\<lparr>sec_vbits_new_nodes := u\<rparr>) = va s" "va (s\<lparr>n_secVBit_nodes := u\<rparr>) = va s"
  "va (s\<lparr>max_secVBit_nodes := u\<rparr>) = va s" "va (s\<lparr>address_errors := e\<rparr>) = va s"
  "va (s\<lparr>ocache_calls := oc\<rparr>) = va s"
  by (simp_all add: va_def cell_def contents_def fun_eq_iff)

lemma sec_split: "x = sec_aligned x + of_nat (sec_amod x)" "sec_amod x < 16"
proof -
  have a: "sec_aligned x = x AND NOT 15" by (simp add: sec_aligned_def BYTES_PER_SEC_VBIT_NODE_def)
  have m: "unat (x AND 15) = unat x mod 16"
    using unat_and_mask [of x 4] by (simp add: mask_eq_exp_minus_1)
  have am: "sec_amod x = unat x mod 16"
    by (simp add: sec_amod_def BYTES_PER_SEC_VBIT_NODE_def unat_mod)
  then show "sec_amod x < 16" by simp
  have "of_nat (sec_amod x) = x AND 15"
    unfolding am m [symmetric] by simp
  then have "sec_aligned x + of_nat (sec_amod x) = (x AND NOT 15) + (x AND 15)"
    by (simp only: a)
  also have "\<dots> = (x AND NOT 15) OR (x AND 15)"
    by (rule disjunctive_add_eq_or) (auto intro!: bit_word_eqI simp: bit_simps)
  also have "\<dots> = x"
    by (rule bit_word_eqI) (auto simp: bit_simps)
  finally show "x = sec_aligned x + of_nat (sec_amod x)" by simp
qed

lemma map_of_insort_key:
  "map_of t a = None \<Longrightarrow> map_of (insort_key fst (a, n) t) = (map_of t)(a \<mapsto> n)"
  by (induction t) (auto simp: fun_eq_iff split: if_splits)

lemma gc_scan_ok:
  "mc_ok s \<Longrightarrow> \<exists>s'. gc_scan a is s = Some (\<exists>i\<in>set is. va s (a + of_nat i) = VA_BITS2_PARTDEFINED, s') \<and>
     mc_ok s' \<and> same_map s s'"
proof (induction "is" arbitrary: s)
  case (Cons i "is")
  obtain t where t: "get_vabits2 (a + of_nat i) s = Some (va s (a + of_nat i), t)" "mc_ok t" "same_map s t"
    using get_vabits2_ok [OF Cons.prems] by blast
  obtain u where "gc_scan a is t = Some (\<exists>i\<in>set is. va s (a + of_nat i) = VA_BITS2_PARTDEFINED, u)" "mc_ok u" "same_map s u"
    using Cons.IH [OF t(2)] same_map_va [OF t(3)] same_map_trans [OF t(3)] by fastforce
  then show ?case using t by auto
qed simp

lemma gc_keep_ok:
  assumes "mc_ok s"
  shows "\<exists>b s'. gc_keep a n s = Some (b, s') \<and> mc_ok s' \<and> same_map s s' \<and>
    ((\<exists>i<16. va s (a + of_nat i) = VA_BITS2_PARTDEFINED) \<longrightarrow> b)"
  using gc_scan_ok [OF assms, of a "[0..<BYTES_PER_SEC_VBIT_NODE]"] assms
  by (force simp: gc_keep_def BYTES_PER_SEC_VBIT_NODE_def)

lemma OSetGen_Insert_ok:
  assumes "map_of t a = None" "tab_ok t" "length (vbits8 n) = BYTES_PER_SEC_VBIT_NODE"
  shows "\<exists>t'. OSetGen_Insert a n t = Some t' \<and> tab_ok t' \<and> map_of t' = (map_of t)(a \<mapsto> n)"
proof -
  have "a \<notin> fst ` set t" using assms(1) by (simp add: map_of_eq_None_iff)
  then have "tab_ok (insort_key fst (a, n) t)"
    using assms(2,3) by (force simp: tab_ok_def set_insort_key distinct_map inj_on_def distinct_insort)
  then show ?thesis
    using assms(1) by (simp add: OSetGen_Insert_def map_of_insort_key)
qed

lemma gc_traverse_ok:
  "mc_ok s \<Longrightarrow> tab_ok ns \<Longrightarrow> tab_ok t2 \<Longrightarrow> fst ` set ns \<inter> fst ` set t2 = {} \<Longrightarrow>
   \<exists>t s'. gc_traverse ns t2 s = Some (t, s') \<and> mc_ok s' \<and> same_map s s' \<and> tab_ok t \<and>
     (\<forall>k. map_of t k = map_of (ns @ t2) k \<or> map_of t k = None \<and> k \<in> fst ` set ns \<and>
        (\<forall>i<16. va s (k + of_nat i) \<noteq> VA_BITS2_PARTDEFINED))"
proof (induction ns t2 s rule: gc_traverse.induct)
  case (2 a n ns t2 s)
  obtain b u where b: "gc_keep a n s = Some (b, u)" "mc_ok u" "same_map s u"
      "(\<exists>i<16. va s (a + of_nat i) = VA_BITS2_PARTDEFINED) \<longrightarrow> b"
    using gc_keep_ok [OF "2.prems"(1)] by blast
  have va: "va u = va s" using same_map_va [OF b(3)] by simp
  have fresh: "a \<notin> fst ` set ns" "a \<notin> fst ` set t2" and ns: "tab_ok ns" and len: "length (vbits8 n) = BYTES_PER_SEC_VBIT_NODE"
    using "2.prems"(2,4) by (auto simp: tab_ok_def)
  then have none: "map_of t2 a = None" "map_of ns a = None" by (simp_all add: map_of_eq_None_iff)
  obtain t3 where t3: "(if b then OSetGen_Insert a n t2 else Some t2) = Some t3" "tab_ok t3"
      "map_of t3 = (if b then (map_of t2)(a \<mapsto> n) else map_of t2)"
    using OSetGen_Insert_ok [OF none(1) "2.prems"(3) len] "2.prems"(3) by (cases b) auto
  have "dom (map_of t3) \<subseteq> insert a (dom (map_of t2))" using t3(3) by auto
  then have "fst ` set t3 \<subseteq> insert a (fst ` set t2)" by (simp add: dom_map_of_conv_image_fst)
  moreover have "fst ` set ns \<inter> fst ` set t2 = {}" using "2.prems"(4) by simp
  ultimately have disj: "fst ` set ns \<inter> fst ` set t3 = {}" using fresh(1) by blast
  obtain t v where t: "gc_traverse ns t3 u = Some (t, v)" "mc_ok v" "same_map u v" "tab_ok t"
     "\<forall>k. map_of t k = map_of (ns @ t3) k \<or> map_of t k = None \<and> k \<in> fst ` set ns \<and>
        (\<forall>i<16. va s (k + of_nat i) \<noteq> VA_BITS2_PARTDEFINED)"
    using "2.IH" [OF b(1) refl t3(1) b(2) ns t3(2) disj] va by auto
  have "map_of t k = map_of (((a, n) # ns) @ t2) k \<or> map_of t k = None \<and> k \<in> fst ` set ((a, n) # ns) \<and>
        (\<forall>i<16. va s (k + of_nat i) \<noteq> VA_BITS2_PARTDEFINED)" for k
  proof (cases "k = a")
    case True
    then have "map_of t a = map_of t3 a" using t(5) [rule_format, of a] fresh(1) none(2) by (simp add: map_add_def)
    then show ?thesis using True t3(3) b(4) none by auto
  next
    case False
    then have "map_of t3 k = map_of t2 k" using t3(3) by simp
    then show ?thesis using t(5) [rule_format, of k] False by (auto simp: map_add_def split: option.split)
  qed
  then show ?case using b(1) t3(1) t same_map_trans [OF b(3) t(3)] by simp
qed simp

lemma gcSecVBitTable_ok:
  assumes "mc_ok s" "tab_ok (secVBitTable s)"
  shows "\<exists>s'. gcSecVBitTable s = Some s' \<and> mc_ok s' \<and> va s' = va s \<and> env s' = env s \<and> tab_ok (secVBitTable s') \<and>
    dom (map_of (secVBitTable s')) \<subseteq> dom (map_of (secVBitTable s)) \<and>
    (\<forall>x. va s x = VA_BITS2_PARTDEFINED \<longrightarrow> sec s' x = sec s x)"
proof -
  let ?s = "s\<lparr>GCs_done := GCs_done s + 1\<rparr>"
  have "mc_ok ?s" "tab_ok (secVBitTable ?s)" using assms by simp_all
  from gc_traverse_ok [OF this, of "[]"] obtain t u where
    t: "gc_traverse (secVBitTable s) [] ?s = Some (t, u)" "mc_ok u" "same_map ?s u" "tab_ok t"
      "\<forall>k. map_of t k = map_of (secVBitTable s) k \<or> map_of t k = None \<and> k \<in> fst ` set (secVBitTable s) \<and>
        (\<forall>i<16. va s (k + of_nat i) \<noteq> VA_BITS2_PARTDEFINED)"
    by (auto simp: tab_ok_def)
  have u: "va u = va s" "env u = env s"
    using same_map_va [OF t(3)] t(3) by (simp_all add: same_map_def vtab_def env_def)
  define s' where "s' = (let v = u\<lparr>secVBitTable := t\<rparr> in
    if 2 * length t > secVBitLimit v then v\<lparr>secVBitLimit := secVBitLimit v * TABLE_GROWTH_FACTOR\<rparr> else v)"
  have r: "gcSecVBitTable s = Some s'"
    using t(1) by (simp add: gcSecVBitTable_def s'_def Let_def)
  have s': "mc_ok s'" "va s' = va s" "env s' = env s" "secVBitTable s' = t"
    using t(2) u by (simp_all add: s'_def Let_def env_def)
  have "sec s' x = sec s x" if "va s x = VA_BITS2_PARTDEFINED" for x
  proof -
    have "va s (sec_aligned x + of_nat (sec_amod x)) = VA_BITS2_PARTDEFINED"
      using that sec_split(1) [of x] by simp
    then have "map_of t (sec_aligned x) = map_of (secVBitTable s) (sec_aligned x)"
      using t(5) sec_split(2) [of x] by blast
    then show ?thesis using s'(4) by (simp add: sec_def)
  qed
  moreover have "dom (map_of t) \<subseteq> dom (map_of (secVBitTable s))"
  proof
    fix k assume "k \<in> dom (map_of t)"
    then show "k \<in> dom (map_of (secVBitTable s))" using t(5) [rule_format, of k] by auto
  qed
  ultimately show ?thesis using r s' t(4) by simp
qed

text \<open>Writing one byte of the table leaves the live bytes at other addresses alone.\<close>

lemma sec_eqI: "sec_aligned x = sec_aligned a \<Longrightarrow> sec_amod x = sec_amod a \<Longrightarrow> x = a"
  using sec_split(1) [of x] sec_split(1) [of a] by simp

lemma set_update_subset: "set (AList.update k v t) \<subseteq> insert (k, v) (set t)"
  by (induction t) auto

lemma set_sec_vbits8_ok:
  assumes "mc_ok s" "tab_ok (secVBitTable s)" "v \<noteq> V_BITS8_DEFINED" "v \<noteq> V_BITS8_UNDEFINED"
  shows "\<exists>s'. set_sec_vbits8 a v s = Some s' \<and> mc_ok s' \<and> va s' = va s \<and> env s' = env s \<and> tab_ok (secVBitTable s') \<and>
    sec s' a = Some v \<and> (\<forall>x. x \<noteq> a \<longrightarrow> va s x = VA_BITS2_PARTDEFINED \<longrightarrow> sec s x \<noteq> None \<longrightarrow> sec s' x = sec s x)"
proof (cases "map_of (secVBitTable s) (sec_aligned a)")
  case (Some n)
  let ?n = "n\<lparr>vbits8 := (vbits8 n)[sec_amod a := v], last_touched := GCs_done s\<rparr>"
  let ?t = "AList.update (sec_aligned a) ?n (secVBitTable s)"
  let ?s = "s\<lparr>secVBitTable := ?t, sec_vbits_updates := sec_vbits_updates s + 1\<rparr>"
  have r: "set_sec_vbits8 a v s = Some ?s"
    using Some assms(3,4) by (simp add: set_sec_vbits8_def Let_def)
  have len: "length (vbits8 n) = 16"
    using assms(2) map_of_SomeD [OF Some] by (auto simp: tab_ok_def BYTES_PER_SEC_VBIT_NODE_def)
  have "set ?t \<subseteq> insert (sec_aligned a, ?n) (set (secVBitTable s))"
    by (rule set_update_subset)
  then have "tab_ok ?t"
    using assms(2) len by (fastforce simp: tab_ok_def distinct_update BYTES_PER_SEC_VBIT_NODE_def)
  moreover have "sec ?s a = Some v"
    using len sec_split(2) [of a] by (simp add: sec_def update_conv')
  moreover have "sec ?s x = sec s x" if "x \<noteq> a" for x
    using that sec_eqI [of x a] Some 
    by (cases "sec_amod x = sec_amod a") (auto simp: sec_def update_conv')
  ultimately show ?thesis using r assms(1) by (simp add: env_def)
next
  case None
  let ?n = "\<lparr>vbits8 = (replicate BYTES_PER_SEC_VBIT_NODE V_BITS8_UNDEFINED)[sec_amod a := v], last_touched = GCs_done s\<rparr>"
  obtain u where u: "(if secVBitLimit s = length (secVBitTable s) then gcSecVBitTable s else Some s) = Some u"
      "mc_ok u" "va u = va s" "env u = env s" "tab_ok (secVBitTable u)"
      "dom (map_of (secVBitTable u)) \<subseteq> dom (map_of (secVBitTable s))"
      "\<forall>x. va s x = VA_BITS2_PARTDEFINED \<longrightarrow> sec u x = sec s x"
    using gcSecVBitTable_ok [OF assms(1,2)] assms(1,2) by (cases "secVBitLimit s = length (secVBitTable s)") auto
  have "map_of (secVBitTable u) (sec_aligned a) = None"
    using u(6) None by blast
  then obtain t where t: "OSetGen_Insert (sec_aligned a) ?n (secVBitTable u) = Some t" "tab_ok t"
      "map_of t = (map_of (secVBitTable u))(sec_aligned a \<mapsto> ?n)"
    using OSetGen_Insert_ok [of "secVBitTable u" "sec_aligned a" ?n] u(5) by auto
  define s' where "s' = u\<lparr>secVBitTable := t, sec_vbits_new_nodes := sec_vbits_new_nodes u + 1,
                  n_secVBit_nodes := length t,
                  max_secVBit_nodes := (if length t > max_secVBit_nodes u then length t else max_secVBit_nodes u)\<rparr>"
  have "set_sec_vbits8 a v s = Some s'"
    using None assms(3,4) u(1) t(1) by (simp add: set_sec_vbits8_def Let_def s'_def)
  moreover have "sec s' a = Some v"
    using sec_split(2) [of a] t(3) by (simp add: sec_def s'_def BYTES_PER_SEC_VBIT_NODE_def)
  moreover have "sec s' x = sec s x" if "va s x = VA_BITS2_PARTDEFINED" "sec s x \<noteq> None" for x
  proof -
    have "sec u x = sec s x" using u(7) that(1) by blast
    moreover have "sec_aligned x \<noteq> sec_aligned a" using that(2) None by (auto simp: sec_def)
    ultimately show ?thesis using t(3) by (simp add: sec_def s'_def)
  qed
  ultimately show ?thesis using u t(2) by (simp add: s'_def env_def)
qed

subsection \<open>The abstract shadow memory\<close>

text \<open>For every byte address: inaccessible, or accessible with eight V bits.\<close>

definition view :: "mc_state \<Rightarrow> Addr \<Rightarrow> UChar option" where
  "view s x = (if va s x = VA_BITS2_NOACCESS then None
     else if va s x = VA_BITS2_DEFINED then Some V_BITS8_DEFINED
     else if va s x = VA_BITS2_UNDEFINED then Some V_BITS8_UNDEFINED else sec s x)"

text \<open>The invariant: sound tables, and a node with non-trivial V bits behind every
  partially defined byte.\<close>

definition mem_ok :: "mc_state \<Rightarrow> bool" where
  "mem_ok s \<longleftrightarrow> mc_ok s \<and> tab_ok (secVBitTable s) \<and>
     (\<forall>x. va s x = VA_BITS2_PARTDEFINED \<longrightarrow> (\<exists>v. sec s x = Some v \<and> v \<noteq> V_BITS8_DEFINED \<and> v \<noteq> V_BITS8_UNDEFINED))"

lemma same_map_mem:
  assumes "same_map s s'" "mc_ok s'" "mem_ok s"
  shows "mem_ok s' \<and> view s' = view s \<and> env s' = env s"
proof -
  have "va s' = va s" "vtab s' = vtab s" using same_map_va [OF assms(1)] assms(1) by (auto simp: same_map_def)
  moreover from this have "env s' = env s" "sec s' = sec s" "secVBitTable s' = secVBitTable s" using vtab_env by blast+
  ultimately show ?thesis using assms(2,3) by (simp add: mem_ok_def view_def fun_eq_iff)
qed

lemma set_va_mem:
  assumes "mem_ok s" "mc_ok s'" "vtab s' = vtab s"
    "\<And>x. va s' x \<noteq> va s x \<Longrightarrow> va s' x \<noteq> VA_BITS2_PARTDEFINED"
  shows "mem_ok s'" "env s' = env s" "sec s' = sec s"
proof -
  show e: "env s' = env s" "sec s' = sec s" using vtab_env [OF assms(3)] by blast+
  show "mem_ok s'"
    unfolding mem_ok_def e using assms vtab_env [OF assms(3)] unfolding mem_ok_def by metis
qed

lemma get_vbits8_ok:
  assumes "mem_ok s"
  shows "\<exists>s'. get_vbits8 a s = Some (view s a \<noteq> None, case view s a of None \<Rightarrow> V_BITS8_DEFINED | Some v \<Rightarrow> v, s') \<and>
    mem_ok s' \<and> view s' = view s \<and> env s' = env s"
proof -
  have "mc_ok s" using assms by (simp add: mem_ok_def)
  then obtain t where t: "get_vabits2 a s = Some (va s a, t)" "mc_ok t" "same_map s t"
    using get_vabits2_ok by blast
  note m = same_map_mem [OF t(3,2) assms]
  have s: "sec t a = sec s a" "secVBitTable t = secVBitTable s"
    using vtab_env [of t s] t(3) by (auto simp: same_map_def)
  show ?thesis
  proof (cases "va s a = VA_BITS2_PARTDEFINED")
    case True
    then obtain v where v: "sec s a = Some v" "v \<noteq> V_BITS8_DEFINED" "v \<noteq> V_BITS8_UNDEFINED"
      using assms by (auto simp: mem_ok_def)
    then have "get_sec_vbits8 a t = Some v"
      using s by (auto simp: get_sec_vbits8_def sec_def Let_def)
    then show ?thesis using True t(1) m v(1) by (auto simp: get_vbits8_def view_def va_consts)
  next
    case False
    then show ?thesis using t(1) m
      by (cases rule: va_cases [of s a]) (auto simp: get_vbits8_def view_def va_consts)
  qed
qed

lemma set_vbits8_ok:
  assumes "mem_ok s" "alloc_ok s"
  shows "\<exists>s'. set_vbits8 a v s = Some (view s a \<noteq> None, s') \<and> mem_ok s' \<and> env s' = env s \<and>
    view s' = (if view s a = None then view s else (view s)(a \<mapsto> v))"
proof -
  have "mc_ok s" using assms by (simp add: mem_ok_def)
  then obtain t where t: "get_vabits2 a s = Some (va s a, t)" "mc_ok t" "same_map s t"
    using get_vabits2_ok by blast
  have m: "mem_ok t" "view t = view s" "env t = env s" using same_map_mem [OF t(3,2) assms(1)] by auto
  have al: "alloc_ok t" using assms(2) env_alloc_ok [OF m(3)] by simp
  have vt: "va t = va s" using same_map_va [OF t(3)] by simp
  have acc: "view s a = None \<longleftrightarrow> va s a = VA_BITS2_NOACCESS"
  proof (cases rule: va_cases [of s a])
    case 4
    then obtain v where "sec s a = Some v" using assms(1) by (auto simp: mem_ok_def)
    then show ?thesis using 4 by (simp add: view_def va_consts)
  qed (simp_all add: view_def va_consts)
  show ?thesis
  proof (cases "va s a = VA_BITS2_NOACCESS")
    case True
    then show ?thesis using t(1) m acc by (simp add: set_vbits8_def)
  next
    case acc': False
    show ?thesis
    proof (cases "v = V_BITS8_DEFINED \<or> v = V_BITS8_UNDEFINED")
      case True
      define w where "w = (if v = V_BITS8_DEFINED then VA_BITS2_DEFINED else VA_BITS2_UNDEFINED)"
      have w: "w \<le> 3" "w \<noteq> VA_BITS2_PARTDEFINED" "w \<noteq> VA_BITS2_NOACCESS" by (auto simp: w_def va_consts)
      obtain u where u: "set_vabits2 a w t = Some u" "mc_ok u" "va u = (va t)(a := w)" "vtab u = vtab t"
        using set_vabits2_ok [OF t(2) al w(1)] by blast
      have "va u x \<noteq> VA_BITS2_PARTDEFINED" if "va u x \<noteq> va t x" for x using u(3) w(2) that by (auto split: if_splits)
      then have mu: "mem_ok u" "env u = env t" "sec u = sec t" using set_va_mem [OF m(1) u(2,4)] by blast+
      have "view u = (view t)(a \<mapsto> v)"
        using True u(3) mu(3) by (auto simp: view_def fun_eq_iff w_def va_consts)
      moreover have "set_vbits8 a v s = Some (True, u)"
        using True t(1) u(1) acc' by (auto simp: set_vbits8_def w_def va_consts)
      ultimately show ?thesis using acc acc' mu m by auto
    next
      case False
      have "tab_ok (secVBitTable t)" using m(1) by (simp add: mem_ok_def)
      from set_sec_vbits8_ok [OF t(2) this, of v a] False obtain r where
        r: "set_sec_vbits8 a v t = Some r" "mc_ok r" "va r = va t" "env r = env t" "tab_ok (secVBitTable r)"
          "sec r a = Some v" "\<forall>x. x \<noteq> a \<longrightarrow> va t x = VA_BITS2_PARTDEFINED \<longrightarrow> sec t x \<noteq> None \<longrightarrow> sec r x = sec t x"
        by auto
      have live: "sec r x = sec t x \<and> (\<exists>v. sec t x = Some v \<and> v \<noteq> V_BITS8_DEFINED \<and> v \<noteq> V_BITS8_UNDEFINED)"
        if "x \<noteq> a" "va t x = VA_BITS2_PARTDEFINED" for x
        using r(7) that m(1) unfolding mem_ok_def by fastforce
      have "VA_BITS2_PARTDEFINED \<le> 3" by (simp add: va_consts)
      moreover have "alloc_ok r" using al env_alloc_ok [OF r(4)] by simp
      ultimately obtain u where u: "set_vabits2 a VA_BITS2_PARTDEFINED r = Some u" "mc_ok u"
          "va u = (va r)(a := VA_BITS2_PARTDEFINED)" "vtab u = vtab r"
        using set_vabits2_ok [OF r(2)] by blast
      note e = vtab_env [OF u(4)]
      have "mem_ok u"
        using u(2,3) e r(3,5,6) live False unfolding mem_ok_def by auto
      moreover have "view u = (view t)(a \<mapsto> v)"
      proof
        fix x show "view u x = ((view t)(a \<mapsto> v)) x"
        proof (cases rule: va_cases [of t x])
          case 4
          then show ?thesis using u(3) e r(3,6) live [of x] by (auto simp: view_def va_consts)
        qed (use u(3) e r(3,6) in \<open>auto simp: view_def va_consts\<close>)
      qed
      moreover have "set_vbits8 a v s = Some (True, u)"
        using False t(1) u(1) r(1) acc' by (auto simp: set_vbits8_def)
      ultimately show ?thesis using acc acc' m e r(4) by auto
    qed
  qed
qed

subsection \<open>Loads and stores\<close>

text \<open>The address of the byte of significance \<open>i\<close> of a \<open>szB\<close>-byte access.\<close>

definition byte_at :: "Addr \<Rightarrow> nat \<Rightarrow> bool \<Rightarrow> nat \<Rightarrow> Addr" where
  "byte_at a szB be i = a + of_nat (if be then szB - 1 - i else i)"

text \<open>The V bits an access sees; inaccessible bytes count as defined.\<close>

definition vb :: "mc_state \<Rightarrow> Addr \<Rightarrow> UChar" where
  "vb s x = (case view s x of None \<Rightarrow> V_BITS8_DEFINED | Some v \<Rightarrow> v)"

lemma vb_cong: "view s' = view s \<Longrightarrow> vb s' = vb s"
  by (simp add: vb_def fun_eq_iff)

lemma unat_small: "i < 4294967296 \<Longrightarrow> unat (of_nat i :: 64 word) = i"
  by (simp add: unat_of_nat)

lemma byte_offset_byte_at:
  "i < szB \<Longrightarrow> a + byte_offset_w (of_nat szB) be (of_nat i) = byte_at a szB be i"
  by (simp add: byte_offset_w_def byte_at_def of_nat_diff)

lemma byte_at_inj:
  assumes "szB \<le> 8" "i < szB" "j < szB" "byte_at a szB be i = byte_at a szB be j"
  shows "i = j"
proof -
  have "unat (of_nat (if be then szB - 1 - i else i) :: Addr) = unat (of_nat (if be then szB - 1 - j else j) :: Addr)"
    using assms(4) by (simp add: byte_at_def)
  then have "(if be then szB - 1 - i else i) = (if be then szB - 1 - j else j)"
    using assms(1-3) unat_small [of "if be then szB - 1 - i else i"] unat_small [of "if be then szB - 1 - j else j"]
    by (simp split: if_splits)
  then show ?thesis using assms(2,3) by (simp split: if_splits)
qed

lemma byte_at_range: "i < szB \<Longrightarrow> \<exists>j < szB. byte_at a szB be i = a + of_nat j"
  by (rule exI [of _ "if be then szB - 1 - i else i"]) (simp add: byte_at_def)

definition loaded :: "mc_state \<Rightarrow> Addr \<Rightarrow> nat \<Rightarrow> bool \<Rightarrow> UWord \<Rightarrow> bool" where
  "loaded s a szB be r \<longleftrightarrow> (\<forall>k<64. bit r k = (if k < 8 * szB then bit (vb s (byte_at a szB be (k div 8))) (k mod 8) else True))"

definition bad_bytes :: "mc_state \<Rightarrow> Addr \<Rightarrow> nat \<Rightarrow> bool \<Rightarrow> nat list \<Rightarrow> nat" where
  "bad_bytes s a szB be is = length (filter (\<lambda>i. view s (byte_at a szB be i) = None) is)"

lemma loadv_loop_ok:
  "mem_ok s \<Longrightarrow> i \<le> szB \<Longrightarrow> 8 * i \<le> 64 \<Longrightarrow>
   \<exists>r s'. loadv_loop i a (of_nat szB) be v n s = Some (r, n + of_nat (bad_bytes s a szB be [0..<i]), s') \<and>
     mem_ok s' \<and> view s' = view s \<and> env s' = env s \<and>
     (\<forall>k<64. bit r k = (if k < 8 * i then bit (vb s (byte_at a szB be (k div 8))) (k mod 8) else bit v (k - 8 * i)))"
proof (induction i arbitrary: v n s)
  case (Suc i)
  let ?x = "byte_at a szB be i"
  obtain t where t: "get_vbits8 ?x s = Some (view s ?x \<noteq> None, vb s ?x, t)" "mem_ok t" "view t = view s" "env t = env s"
    using get_vbits8_ok [OF Suc.prems(1), of ?x] by (auto simp: vb_def)
  let ?n = "if view s ?x = None then n + 1 else n"
  let ?v = "push_bit 8 v OR ucast (vb s ?x) :: UWord"
  have bb: "bad_bytes t = bad_bytes s" using t(3) by (simp add: bad_bytes_def fun_eq_iff)
  obtain r u where u: "loadv_loop i a (of_nat szB) be ?v ?n t = Some (r, ?n + of_nat (bad_bytes s a szB be [0..<i]), u)"
      "mem_ok u" "view u = view t" "env u = env t"
      "\<forall>k<64. bit r k = (if k < 8 * i then bit (vb s (byte_at a szB be (k div 8))) (k mod 8) else bit ?v (k - 8 * i))"
    using Suc.IH [OF t(2), of ?v ?n] Suc.prems vb_cong [OF t(3)] bb by auto
  have "bit r k = (if k < 8 * Suc i then bit (vb s (byte_at a szB be (k div 8))) (k mod 8) else bit v (k - 8 * Suc i))" if "k < 64" for k
  proof -
    consider "k < 8 * i" | "8 * i \<le> k" "k < 8 * Suc i" | "8 * Suc i \<le> k" by linarith
    then show ?thesis
    proof cases
      case 2
      then have "k div 8 = i" by simp
      then have "k div 8 = i" "k mod 8 = k - 8 * i" using minus_mult_div_eq_mod [of k 8] by simp_all
      moreover have "k - 8 * i < 8" using 2 by (simp add: less_diff_conv2)
      ultimately show ?thesis using 2 u(5) that by (auto simp: bit_simps)
    next
      case 3
      then show ?thesis using u(5) that bit_imp_le_length [of "vb s ?x" "k - 8 * i"] by (auto simp: bit_simps add.commute)
    qed (use u(5) that in simp)
  qed
  moreover have "loadv_loop (Suc i) a (of_nat szB) be v n s = Some (r, n + of_nat (bad_bytes s a szB be [0..<Suc i]), u)"
    using Suc.prems(2) t(1) u(1) byte_offset_byte_at [of i szB a be]
    by (simp add: Let_def bad_bytes_def add.commute add.left_commute)
  ultimately show ?case using u t by metis
qed (auto simp: bad_bytes_def)

lemma bad_bytes_le: "bad_bytes s a szB be is \<le> length is"
  by (simp add: bad_bytes_def)

lemma bad_bytes_pos: "bad_bytes s a szB be is = 0 \<longleftrightarrow> (\<forall>i\<in>set is. view s (byte_at a szB be i) \<noteq> None)"
  by (simp add: bad_bytes_def filter_empty_conv)

lemma bad_bytes_all: "bad_bytes s a szB be is < length is \<longleftrightarrow> (\<exists>i\<in>set is. view s (byte_at a szB be i) \<noteq> None)"
proof
  show "bad_bytes s a szB be is < length is \<Longrightarrow> \<exists>i\<in>set is. view s (byte_at a szB be i) \<noteq> None"
    unfolding bad_bytes_def by (rule ccontr) (simp add: filter_True)
  show "\<exists>i\<in>set is. view s (byte_at a szB be i) \<noteq> None \<Longrightarrow> bad_bytes s a szB be is < length is"
    unfolding bad_bytes_def by (elim bexE, rule length_filter_less)
qed

definition stored :: "(Addr \<Rightarrow> UChar option) \<Rightarrow> (Addr \<Rightarrow> UChar option) \<Rightarrow> Addr \<Rightarrow> nat \<Rightarrow> bool \<Rightarrow> UWord \<Rightarrow> nat set \<Rightarrow> bool" where
  "stored m m' a szB be v J \<longleftrightarrow>
     (\<forall>i\<in>J. m (byte_at a szB be i) \<noteq> None \<longrightarrow> m' (byte_at a szB be i) = Some (ucast (drop_bit (8 * i) v))) \<and>
     (\<forall>x. m x = None \<or> (\<forall>i\<in>J. x \<noteq> byte_at a szB be i) \<longrightarrow> m' x = m x)"

lemma ucast_and_ff: "(ucast (w AND 0xff :: UWord) :: UChar) = ucast w"
proof -
  have "w AND 0xff = take_bit 8 w" by (simp add: take_bit_eq_mask mask_eq_exp_minus_1)
  then show ?thesis by (auto intro: bit_word_eqI simp: bit_simps)
qed

lemma storev_loop_ok:
  "mem_ok s \<Longrightarrow> alloc_ok s \<Longrightarrow> i + k = szB \<Longrightarrow> szB \<le> 8 \<Longrightarrow>
   \<exists>s'. storev_loop k (of_nat i) a (of_nat szB) be (drop_bit (8 * i) v) n s =
       Some (n + of_nat (bad_bytes s a szB be [i..<szB]), s') \<and>
     mem_ok s' \<and> env s' = env s \<and> stored (view s) (view s') a szB be v {i..<szB}"
proof (induction k arbitrary: i n s)
  case (Suc k)
  let ?x = "byte_at a szB be i"
  let ?b = "ucast (drop_bit (8 * i) v) :: UChar"
  have lt: "i < szB" using Suc.prems(3) by simp
  obtain t where t: "set_vbits8 ?x ?b s = Some (view s ?x \<noteq> None, t)" "mem_ok t" "env t = env s"
      "view t = (if view s ?x = None then view s else (view s)(?x \<mapsto> ?b))"
    using set_vbits8_ok [OF Suc.prems(1,2)] by blast
  have none: "view t y = None \<longleftrightarrow> view s y = None" for y using t(4) by auto
  let ?n = "if view s ?x = None then n + 1 else n"
  have al: "alloc_ok t" using env_alloc_ok [OF t(3)] Suc.prems(2) by simp
  have dn: "drop_bit 8 (drop_bit (8 * i) v) = drop_bit (8 * Suc i) v" by (simp add: add.commute)
  obtain u where u: "storev_loop k (of_nat (Suc i)) a (of_nat szB) be (drop_bit (8 * Suc i) v) ?n t =
        Some (?n + of_nat (bad_bytes t a szB be [Suc i..<szB]), u)"
      "mem_ok u" "env u = env t" "stored (view t) (view u) a szB be v {Suc i..<szB}"
    using Suc.IH [OF t(2) al, of "Suc i" ?n] Suc.prems by auto
  have bb: "bad_bytes t a szB be js = bad_bytes s a szB be js" for js by (simp add: bad_bytes_def none)
  have ne: "byte_at a szB be j \<noteq> ?x" if "j \<in> {Suc i..<szB}" for j
    using byte_at_inj [OF Suc.prems(4), of j i a be] that lt by auto
  have "stored (view s) (view u) a szB be v {i..<szB}"
    unfolding stored_def
  proof (intro conjI ballI allI impI)
    fix j assume j: "j \<in> {i..<szB}" "view s (byte_at a szB be j) \<noteq> None"
    show "view u (byte_at a szB be j) = Some (ucast (drop_bit (8 * j) v))"
    proof (cases "j = i")
      case True
      then have "view t ?x = Some ?b" using t(4) j(2) by auto
      moreover have "view u ?x = view t ?x" using u(4) ne unfolding stored_def by metis
      ultimately show ?thesis using True by simp
    next
      case False
      then have "j \<in> {Suc i..<szB}" using j(1) by simp
      moreover have "view t (byte_at a szB be j) \<noteq> None" using none j(2) by simp
      ultimately show ?thesis using u(4) unfolding stored_def by blast
    qed
  next
    fix x assume x: "view s x = None \<or> (\<forall>j\<in>{i..<szB}. x \<noteq> byte_at a szB be j)"
    have "view u x = view t x"
      using u(4) x none [of x] unfolding stored_def by auto
    moreover have "view t x = view s x"
      using x t(4) lt by auto
    ultimately show "view u x = view s x" by simp
  qed
  moreover have "storev_loop (Suc k) (of_nat i) a (of_nat szB) be (drop_bit (8 * i) v) n s =
       Some (n + of_nat (bad_bytes s a szB be [i..<szB]), u)"
  proof -
    have "bad_bytes s a szB be [i..<szB] = (if view s ?x = None then 1 else 0) + bad_bytes s a szB be [Suc i..<szB]"
      using lt by (simp add: bad_bytes_def upt_conv_Cons)
    moreover have "(of_nat i :: UWord) + 1 = of_nat (Suc i)" by simp
    ultimately show ?thesis
      using t(1) u(1) unfolding storev_loop.simps Let_def byte_offset_byte_at [OF lt] ucast_and_ff dn bb
      by (cases "view s ?x") (simp_all add: ac_simps)
  qed
  ultimately show ?case using u t by auto
qed (auto simp: bad_bytes_def stored_def)

subsection \<open>The slow cases meet their specification\<close>

lemma aligned8_aligned4:
  assumes "a AND 7 = (0 :: Addr)"
  shows "unat a mod 8 = 0" "a AND 3 = 0" "(a + 4) AND 3 = 0"
proof -
  have "unat (a AND 7) = 0" using assms by simp
  then show m: "unat a mod 8 = 0" by (simp only: unat_and_7)
  have "a AND 3 = (a AND 7) AND 3" by (simp add: and.assoc)
  then show "a AND 3 = 0" using assms by simp
  have "unat ((a + 4) AND 3) = 0"
    unfolding unat_and_3 aligned8_off(4) [OF assms] using m by presburger
  then show "(a + 4) AND 3 = 0" by (simp add: unat_eq_iff)
qed

lemma aligned8_range:
  assumes "a AND 7 = (0 :: Addr)" "j < 8"
  shows "unat (a + of_nat j) div 8 = unat a div 8"
proof -
  note m = aligned8_aligned4(1) [OF assms(1)] and a4 = aligned8_aligned4(2) [OF assms(1)]
    and m4 = aligned8_aligned4(3) [OF assms(1)]
  have "unat (a + of_nat j) = unat a + j"
  proof (cases "j < 4")
    case True
    then show ?thesis using aligned4_off(1) [OF a4] by simp
  next
    case False
    then have "a + of_nat j = (a + 4) + of_nat (j - 4)" by (simp add: of_nat_diff)
    then show ?thesis
      using aligned4_off(1) [OF m4, of "j - 4"] aligned8_off(4) [OF assms(1)] assms(2) False by simp
  qed
  moreover obtain q where "unat a = 8 * q" using m by (metis mod_0_imp_dvd dvdE)
  ultimately show ?thesis using assms(2) by simp
qed

lemma aligned4_range:
  "a AND 3 = (0 :: Addr) \<Longrightarrow> j < 4 \<Longrightarrow> unat (a + of_nat j) div 4 = unat a div 4"
  using aligned4_off(2) [of a] by blast

lemma view_uniform:
  "va s x = VA_BITS2_DEFINED \<Longrightarrow> view s x = Some V_BITS8_DEFINED"
  "va s x = VA_BITS2_UNDEFINED \<Longrightarrow> view s x = Some V_BITS8_UNDEFINED"
  "va s x = VA_BITS2_NOACCESS \<Longrightarrow> view s x = None"
  by (simp_all add: view_def va_consts)

lemma ones64: "bit (0xFFFFFFFFFFFFFFFF :: UWord) k \<longleftrightarrow> k < 64"
proof -
  have e: "(0xFFFFFFFFFFFFFFFF :: UWord) = mask 64" by (simp add: mask_eq_exp_minus_1)
  show ?thesis unfolding e by (simp add: bit_simps)
qed

lemma ones8: "bit (0xFF :: UChar) k \<longleftrightarrow> k < 8"
proof -
  have e: "(0xFF :: UChar) = mask 8" by (simp add: mask_eq_exp_minus_1)
  show ?thesis unfolding e by (simp add: bit_simps)
qed

lemma ones_hi: "bit (0xFFFFFFFF00000000 :: UWord) k \<longleftrightarrow> 32 \<le> k \<and> k < 64"
proof -
  have e: "(0xFFFFFFFF00000000 :: UWord) = push_bit 32 (mask 32)" by (simp add: mask_eq_exp_minus_1 push_bit_eq_mult)
  show ?thesis unfolding e by (auto simp: bit_simps)
qed

lemma ones_lo: "bit (0xFFFFFFFF :: UWord) k \<longleftrightarrow> k < 32"
proof -
  have e: "(0xFFFFFFFF :: UWord) = mask 32" by (simp add: mask_eq_exp_minus_1)
  show ?thesis unfolding e by (auto simp: bit_simps)
qed

lemma or_hi_lo: "(0xFFFFFFFF00000000 :: UWord) OR 0xFFFFFFFF = 0xFFFFFFFFFFFFFFFF"
  by simp

lemma loaded_uniform:
  assumes "\<And>i. i < szB \<Longrightarrow> vb s (byte_at a szB be i) = w" "szB \<le> 8"
  shows "w = V_BITS8_UNDEFINED \<Longrightarrow> loaded s a szB be V_BITS64_UNDEFINED"
    "w = V_BITS8_DEFINED \<Longrightarrow> szB = 8 \<Longrightarrow> loaded s a szB be V_BITS64_DEFINED"
    "w = V_BITS8_DEFINED \<Longrightarrow> szB = 4 \<Longrightarrow> loaded s a szB be (0xFFFFFFFF00000000 OR V_BITS32_DEFINED)"
    "w = V_BITS8_UNDEFINED \<Longrightarrow> szB = 4 \<Longrightarrow> loaded s a szB be (0xFFFFFFFF00000000 OR V_BITS32_UNDEFINED)"
proof -
  have b: "vb s (byte_at a szB be (k div 8)) = w" if "k < 8 * szB" for k
    using assms(1) that by (simp add: less_mult_imp_div_less mult.commute)
  show "w = V_BITS8_UNDEFINED \<Longrightarrow> loaded s a szB be V_BITS64_UNDEFINED"
    using b by (auto simp: loaded_def v_consts va_consts ones64 ones8 simp del: bit_numeral_word_iff)
  show "w = V_BITS8_DEFINED \<Longrightarrow> szB = 8 \<Longrightarrow> loaded s a szB be V_BITS64_DEFINED"
    using b by (auto simp: loaded_def v_consts va_consts)
  show "w = V_BITS8_DEFINED \<Longrightarrow> szB = 4 \<Longrightarrow> loaded s a szB be (0xFFFFFFFF00000000 OR V_BITS32_DEFINED)"
    using b by (auto simp: loaded_def v_consts va_consts bit_simps ones_hi simp del: bit_numeral_word_iff)
  show "w = V_BITS8_UNDEFINED \<Longrightarrow> szB = 4 \<Longrightarrow> loaded s a szB be (0xFFFFFFFF00000000 OR V_BITS32_UNDEFINED)"
    using b by (auto simp: loaded_def v_consts va_consts bit_simps ones_hi ones_lo ones8 ones64 simp del: bit_numeral_word_iff)
qed

lemma read16_view:
  assumes "a AND 7 = (0 :: Addr)" "slot_ptr s (slot_of a) = p" "i < 8"
  shows "read_vabits16 p (SM_OFF_16 a) s = VA_BITS16_DEFINED \<Longrightarrow> view s (byte_at a 8 be i) = Some V_BITS8_DEFINED"
    "read_vabits16 p (SM_OFF_16 a) s = VA_BITS16_UNDEFINED \<Longrightarrow> view s (byte_at a 8 be i) = Some V_BITS8_UNDEFINED"
proof -
  obtain j where j: "j < 8" "byte_at a 8 be i = a + of_nat j" using byte_at_range [OF assms(3)] by blast
  note u = read16_uniform [OF assms(1,2) aligned8_range [OF assms(1) j(1)]]
  show "read_vabits16 p (SM_OFF_16 a) s = VA_BITS16_DEFINED \<Longrightarrow> view s (byte_at a 8 be i) = Some V_BITS8_DEFINED"
    "read_vabits16 p (SM_OFF_16 a) s = VA_BITS16_UNDEFINED \<Longrightarrow> view s (byte_at a 8 be i) = Some V_BITS8_UNDEFINED"
    unfolding j(2) using u view_uniform by blast+
qed

lemma read8_view:
  assumes "a AND 3 = (0 :: Addr)" "slot_ptr s (slot_of a) = p" "i < 4"
  shows "secmaps s p (SM_OFF a) = VA_BITS8_DEFINED \<Longrightarrow> view s (byte_at a 4 be i) = Some V_BITS8_DEFINED"
    "secmaps s p (SM_OFF a) = VA_BITS8_UNDEFINED \<Longrightarrow> view s (byte_at a 4 be i) = Some V_BITS8_UNDEFINED"
proof -
  obtain j where j: "j < 4" "byte_at a 4 be i = a + of_nat j" using byte_at_range [OF assms(3)] by blast
  have "secmaps s p (SM_OFF a) = cell s a" using assms(2) by (simp add: cell_def contents_def)
  then show "secmaps s p (SM_OFF a) = VA_BITS8_DEFINED \<Longrightarrow> view s (byte_at a 4 be i) = Some V_BITS8_DEFINED"
    "secmaps s p (SM_OFF a) = VA_BITS8_UNDEFINED \<Longrightarrow> view s (byte_at a 4 be i) = Some V_BITS8_UNDEFINED"
    unfolding j(2) using cell_va [OF aligned4_range [OF assms(1) j(1)], of s] by (auto intro: view_uniform simp: extract_uniform)
qed

text \<open>A load: the value seen, the unchanged memory, and the error that is reported.\<close>

definition partial_load_exempt :: "mc_state \<Rightarrow> Addr \<Rightarrow> nat \<Rightarrow> bool" where
  "partial_load_exempt s a szB \<longleftrightarrow> clo_partial_loads_ok s \<and> szB = 8 \<and> a AND 7 = 0 \<and> (\<exists>i < 8. view s (a + of_nat i) \<noteq> None)"

definition load_errors :: "mc_state \<Rightarrow> Addr \<Rightarrow> nat \<Rightarrow> (Addr \<times> SizeT \<times> bool) list" where
  "load_errors s a szB =
     (if (\<exists>i < szB. view s (a + of_nat i) = None) \<and> \<not> partial_load_exempt s a szB then [(a, of_nat szB, False)] else [])"

definition store_errors :: "mc_state \<Rightarrow> Addr \<Rightarrow> nat \<Rightarrow> (Addr \<times> SizeT \<times> bool) list" where
  "store_errors s a szB = (if \<exists>i < szB. view s (a + of_nat i) = None then [(a, of_nat szB, True)] else [])"

lemma byte_at_any: "(\<exists>i < szB. P (byte_at a szB be i)) \<longleftrightarrow> (\<exists>i < szB. P (a + of_nat i))"
proof (cases be)
  case True
  have "P (a + of_nat i) \<Longrightarrow> i < szB \<Longrightarrow> \<exists>i < szB. P (byte_at a szB be i)" for i
    using True by (intro exI [of _ "szB - 1 - i"]) (simp add: byte_at_def)
  then show ?thesis using byte_at_range by metis
qed (simp add: byte_at_def)

definition env_but_errors :: "mc_state \<Rightarrow> _" where
  "env_but_errors s = (shadow_alloc_ok s, clo_partial_loads_ok s, clo_mc_level s, ocache_calls s)"

lemma view_errors [simp]: "view (s\<lparr>address_errors := e\<rparr>) = view s" "mem_ok (s\<lparr>address_errors := e\<rparr>) = mem_ok s"
  by (simp_all add: view_def mem_ok_def sec_def fun_eq_iff)

lemma reading_mem:
  assumes "mem_ok s"
  shows "\<exists>t. get_secmap_for_reading a s = Some (slot_ptr t (slot_of a), t) \<and> mem_ok t \<and> view t = view s \<and> env t = env s"
proof -
  have "mc_ok s" using assms by (simp add: mem_ok_def)
  then obtain t where t: "get_secmap_for_reading a s = Some (slot_ptr s (slot_of a), t)" "mc_ok t" "same_map s t"
    using get_secmap_for_reading_ok by blast
  moreover have "slot_ptr t = slot_ptr s" using t(3) by (simp add: same_map_def)
  ultimately show ?thesis using same_map_mem [OF t(3,2) assms] by auto
qed

definition load_ok :: "mc_state \<Rightarrow> Addr \<Rightarrow> nat \<Rightarrow> bool \<Rightarrow> UWord \<Rightarrow> mc_state \<Rightarrow> bool" where
  "load_ok s a szB be r s' \<longleftrightarrow> loaded s a szB be r \<and> mem_ok s' \<and> view s' = view s \<and>
     env_but_errors s' = env_but_errors s \<and> address_errors s' = address_errors s @ load_errors s a szB"

lemma env_split: "env s' = env s \<longleftrightarrow> env_but_errors s' = env_but_errors s \<and> address_errors s' = address_errors s"
  by (auto simp: env_def env_but_errors_def)

lemma env_errors: "env_but_errors (s\<lparr>address_errors := e\<rparr>) = env_but_errors s"
  by (simp add: env_but_errors_def)

lemma env_flags: "env t = env s \<Longrightarrow> clo_partial_loads_ok t = clo_partial_loads_ok s"
  by (simp add: env_def)

lemma load_ok_cong:
  assumes "view t = view s" "env t = env s"
  shows "load_ok t a szB be r s' = load_ok s a szB be r s'"
proof -
  have "loaded t a szB be r = loaded s a szB be r" using vb_cong [OF assms(1)] by (simp add: loaded_def)
  moreover have "load_errors t a szB = load_errors s a szB"
    using assms(1) env_flags [OF assms(2)] by (simp add: load_errors_def partial_load_exempt_def)
  ultimately show ?thesis using assms by (simp add: load_ok_def env_split)
qed

lemma load_ok_uniform:
  assumes "mem_ok s" "\<And>i. i < szB \<Longrightarrow> view s (byte_at a szB be i) = Some w" "szB \<le> 8"
    "r = V_BITS64_UNDEFINED \<and> w = V_BITS8_UNDEFINED \<or> r = V_BITS64_DEFINED \<and> w = V_BITS8_DEFINED \<and> szB = 8 \<or>
     r = 0xFFFFFFFF00000000 OR V_BITS32_DEFINED \<and> w = V_BITS8_DEFINED \<and> szB = 4 \<or>
     r = 0xFFFFFFFF00000000 OR V_BITS32_UNDEFINED \<and> w = V_BITS8_UNDEFINED \<and> szB = 4"
  shows "load_ok s a szB be r s"
proof -
  have "vb s (byte_at a szB be i) = w" if "i < szB" for i using assms(2) that by (simp add: vb_def)
  then have "loaded s a szB be r" using loaded_uniform [of szB s a be w] assms(3,4) by blast
  moreover have "\<not> (\<exists>i < szB. view s (a + of_nat i) = None)"
    using assms(2) byte_at_any [of szB "\<lambda>x. view s x = None" a be] by auto
  then have "load_errors s a szB = []" by (simp add: load_errors_def)
  ultimately show ?thesis using assms(1) by (simp add: load_ok_def)
qed

lemma sizes:
  fixes nBits :: SizeT
  assumes "(nBits, szB) \<in> {(64, 8), (32, 4), (16, 2), (8, 1)}"
  shows "nBits div 8 = of_nat szB" "unat (of_nat szB :: SizeT) = szB" "szB \<le> 8"
    "nBits = 64 \<longleftrightarrow> szB = 8" "nBits = 32 \<longleftrightarrow> szB = 4"
    "nBits = 64 \<or> nBits = 32 \<or> nBits = 16 \<or> nBits = 8"
  using assms by auto

lemma bad_bytes_word:
  assumes "szB \<le> 8"
  shows "(of_nat (bad_bytes s a szB be [0..<szB]) :: SizeT) > 0 \<longleftrightarrow> (\<exists>i < szB. view s (a + of_nat i) = None)"
    "szB = 8 \<Longrightarrow> (of_nat (bad_bytes s a szB be [0..<szB]) :: SizeT) < 8 \<longleftrightarrow> (\<exists>i < 8. view s (a + of_nat i) \<noteq> None)"
proof -
  let ?n = "bad_bytes s a szB be [0..<szB]"
  have n8: "?n \<le> 8" using bad_bytes_le [of s a szB be "[0..<szB]"] assms by simp
  have "(of_nat ?n :: SizeT) > 0 \<longleftrightarrow> ?n \<noteq> 0" unfolding unat_less_iff using n8 by (simp add: unat_small)
  also have "\<dots> \<longleftrightarrow> (\<exists>i < szB. view s (byte_at a szB be i) = None)" by (auto simp: bad_bytes_pos)
  also have "\<dots> \<longleftrightarrow> (\<exists>i < szB. view s (a + of_nat i) = None)" by (rule byte_at_any)
  finally show "(of_nat ?n :: SizeT) > 0 \<longleftrightarrow> (\<exists>i < szB. view s (a + of_nat i) = None)" .
  assume that: "szB = 8"
  have "(of_nat ?n :: SizeT) < 8 \<longleftrightarrow> ?n < length [0..<szB]" unfolding unat_less_iff using n8 that by (simp add: unat_small)
  also have "\<dots> \<longleftrightarrow> (\<exists>i < szB. view s (byte_at a szB be i) \<noteq> None)" unfolding bad_bytes_all by auto
  also have "\<dots> \<longleftrightarrow> (\<exists>i < szB. view s (a + of_nat i) \<noteq> None)" by (rule byte_at_any)
  finally show "(of_nat ?n :: SizeT) < 8 \<longleftrightarrow> (\<exists>i < 8. view s (a + of_nat i) \<noteq> None)" using that by simp
qed

lemma mc_LOADVn_bytes_ok:
  assumes "mem_ok s"
    "(nBits, szB) \<in> {(64, 8), (32, 4), (16, 2), (8, 1)}"
  shows "\<exists>r s'. mc_LOADVn_bytes a nBits be s = Some (r, s') \<and> load_ok s a szB be r s'"
proof -
  note sz = sizes [OF assms(2)]
  let ?n = "bad_bytes s a szB be [0..<szB]"
  obtain r t where t: "loadv_loop szB a (of_nat szB) be V_BITS64_UNDEFINED 0 s = Some (r, of_nat ?n, t)"
      "mem_ok t" "view t = view s" "env t = env s"
      "\<forall>k<64. bit r k = (if k < 8 * szB then bit (vb s (byte_at a szB be (k div 8))) (k mod 8) else bit V_BITS64_UNDEFINED (k - 8 * szB))"
    using loadv_loop_ok [OF assms(1), of szB szB a be V_BITS64_UNDEFINED 0] sz(3) by auto
  have "loaded s a szB be r"
    unfolding loaded_def
  proof (intro allI impI)
    fix k :: nat assume "k < 64"
    then show "bit r k = (if k < 8 * szB then bit (vb s (byte_at a szB be (k div 8))) (k mod 8) else True)"
      using t(5) by (auto simp: V_BITS64_UNDEFINED_def ones64 simp del: bit_numeral_word_iff)
  qed
  moreover note pos = bad_bytes_word(1) [OF sz(3), of s a be] and lt8 = bad_bytes_word(2) [OF sz(3), of s a be]
  have e8: "of_nat szB = (8 :: SizeT) \<longleftrightarrow> szB = 8" unfolding unat_eq_iff using sz(2) by simp
  define ex where "ex \<longleftrightarrow> clo_partial_loads_ok t \<and> of_nat szB = (8 :: SizeT) \<and> a AND 7 = 0 \<and> (of_nat ?n :: SizeT) < 8"
  have "ex \<longleftrightarrow> partial_load_exempt s a szB"
    using env_flags [OF t(4)] lt8 e8 by (auto simp: partial_load_exempt_def ex_def)
  then have "load_errors s a szB = (if (of_nat ?n :: SizeT) > 0 \<and> \<not> ex then [(a, of_nat szB, False)] else [])"
    using pos by (simp add: load_errors_def)
  ultimately have "load_ok s a szB be r (if (of_nat ?n :: SizeT) > 0 \<and> \<not> ex then record_address_error a (of_nat szB) False t else t)"
    using t(2-4) by (simp add: load_ok_def record_address_error_def env_split env_errors)
  then show ?thesis using t(1) sz unfolding ex_def by (simp add: mc_LOADVn_bytes_def Let_def)
qed

lemma mc_LOADVn_slow_ok:
  assumes "mem_ok s" "(nBits, szB) \<in> {(64, 8), (32, 4), (16, 2), (8, 1)}"
  shows "\<exists>r s'. mc_LOADVn_slow a nBits be s = Some (r, s') \<and> load_ok s a szB be r s'"
proof -
  note sz = sizes [OF assms(2)]
  obtain t where t: "get_secmap_for_reading a s = Some (slot_ptr t (slot_of a), t)" "mem_ok t" "view t = view s" "env t = env s"
    using reading_mem [OF assms(1)] by blast
  note bytes = mc_LOADVn_bytes_ok [OF t(2) assms(2), of a be, unfolded load_ok_cong [OF t(3,4)]]
  note unif = load_ok_uniform [OF t(2) _ sz(3), of a be, unfolded load_ok_cong [OF t(3,4)]]
  consider (w64) "szB = 8" "a AND 7 = 0" | (w32) "szB = 4" "a AND 3 = 0" | (other) "\<not> (szB = 8 \<and> a AND 7 = 0)" "\<not> (szB = 4 \<and> a AND 3 = 0)"
    by blast
  then show ?thesis
  proof cases
    case w64
    let ?v = "read_vabits16 (slot_ptr t (slot_of a)) (SM_OFF_16 a) t"
    have "?v = VA_BITS16_DEFINED \<Longrightarrow> load_ok s a szB be V_BITS64_DEFINED t"
      by (rule unif [of V_BITS8_DEFINED]) (use w64 read16_view(1) [OF w64(2) refl, of _ t be] in auto)
    moreover have "?v = VA_BITS16_UNDEFINED \<Longrightarrow> load_ok s a szB be V_BITS64_UNDEFINED t"
      by (rule unif [of V_BITS8_UNDEFINED]) (use w64 read16_view(2) [OF w64(2) refl, of _ t be] in auto)
    ultimately show ?thesis using w64 t(1) sz(4) bytes by (auto simp: mc_LOADVn_slow_def Let_def)
  next
    case w32
    let ?v = "secmaps t (slot_ptr t (slot_of a)) (SM_OFF a)"
    have "?v = VA_BITS8_DEFINED \<Longrightarrow> load_ok s a szB be (0xFFFFFFFF00000000 OR V_BITS32_DEFINED) t"
      by (rule unif [of V_BITS8_DEFINED]) (use w32 read8_view(1) [OF w32(2) refl, of _ t be] in auto)
    moreover have "?v = VA_BITS8_UNDEFINED \<Longrightarrow> load_ok s a szB be (0xFFFFFFFF00000000 OR V_BITS32_UNDEFINED) t"
      by (rule unif [of V_BITS8_UNDEFINED]) (use w32 read8_view(2) [OF w32(2) refl, of _ t be] in auto)
    ultimately show ?thesis using w32 t(1) sz(4,5) bytes by (auto simp: mc_LOADVn_slow_def Let_def)
  next
    case other
    then show ?thesis using mc_LOADVn_bytes_ok [OF assms, of a be] sz(4,5) by (auto simp: mc_LOADVn_slow_def)
  qed
qed

lemma aligned8_iff:
  assumes "a AND 7 = (0 :: Addr)"
  shows "unat x div 8 = unat a div 8 \<longleftrightarrow> (\<exists>j<8. x = a + of_nat j)"
proof
  note a4 = aligned8_aligned4(2) [OF assms] and m4 = aligned8_aligned4(3) [OF assms]
  assume "unat x div 8 = unat a div 8"
  then have "unat x div 4 = unat a div 4 \<or> unat x div 4 = unat (a + 4) div 4" using aligned8_off(5) [OF assms] by blast
  then consider j where "j < 4" "x = a + of_nat j" | j where "j < 4" "x = (a + 4) + of_nat j"
    using aligned4_off(2) [OF a4] aligned4_off(2) [OF m4] by blast
  then show "\<exists>j<8. x = a + of_nat j"
  proof cases
    case (2 j)
    then show ?thesis by (intro exI [of _ "4 + j"]) simp
  next
    case (1 j)
    then show ?thesis by (intro exI [of _ j]) simp
  qed
qed (use aligned8_range [OF assms] in blast)

definition store_ok :: "mc_state \<Rightarrow> Addr \<Rightarrow> nat \<Rightarrow> bool \<Rightarrow> UWord \<Rightarrow> mc_state \<Rightarrow> bool" where
  "store_ok s a szB be v s' \<longleftrightarrow> stored (view s) (view s') a szB be v {..<szB} \<and> mem_ok s' \<and>
     env_but_errors s' = env_but_errors s \<and> address_errors s' = address_errors s @ store_errors s a szB"

lemma store_ok_cong:
  assumes "view t = view s" "env t = env s"
  shows "store_ok t a szB be r s' = store_ok s a szB be r s'"
  using assms by (simp add: store_ok_def env_split store_errors_def)

lemma mc_STOREVn_bytes_ok:
  assumes "mem_ok s" "alloc_ok s" "(nBits, szB) \<in> {(64, 8), (32, 4), (16, 2), (8, 1)}"
  shows "\<exists>s'. mc_STOREVn_bytes a nBits v be s = Some s' \<and> store_ok s a szB be v s'"
proof -
  note sz = sizes [OF assms(3)]
  let ?n = "bad_bytes s a szB be [0..<szB]"
  obtain t where t: "storev_loop szB 0 a (of_nat szB) be v 0 s = Some (of_nat ?n, t)"
      "mem_ok t" "env t = env s" "stored (view s) (view t) a szB be v {0..<szB}"
    using storev_loop_ok [OF assms(1,2), of 0 szB szB a be v 0] sz(3) by auto
  have "(of_nat ?n :: SizeT) > 0 \<longleftrightarrow> (\<exists>i < szB. view s (a + of_nat i) = None)"
    using bad_bytes_word(1) [OF sz(3)] .
  then have "store_ok s a szB be v (if (of_nat ?n :: SizeT) > 0 then record_address_error a (of_nat szB) True t else t)"
    using t by (simp add: store_ok_def store_errors_def record_address_error_def env_split env_errors lessThan_atLeast0)
  then show ?thesis using t(1) sz by (simp add: mc_STOREVn_bytes_def Let_def)
qed

lemma store_ok_uniform:
  assumes "mem_ok s" "mc_ok s'" "vtab s' = vtab s"
    "va s' = (\<lambda>x. if \<exists>i < szB. x = a + of_nat i then w2 else va s x)"
    "w2 = VA_BITS2_DEFINED \<and> w8 = V_BITS8_DEFINED \<or> w2 = VA_BITS2_UNDEFINED \<and> w8 = V_BITS8_UNDEFINED"
    "\<And>i. i < szB \<Longrightarrow> view s (byte_at a szB be i) \<noteq> None"
    "\<And>i. i < szB \<Longrightarrow> ucast (drop_bit (8 * i) v) = w8"
  shows "store_ok s a szB be v s'"
proof -
  have "va s' x \<noteq> VA_BITS2_PARTDEFINED" if "va s' x \<noteq> va s x" for x
    using that assms(4,5) by (auto simp: va_consts split: if_splits)
  then have m: "mem_ok s'" "env s' = env s" "sec s' = sec s" using set_va_mem [OF assms(1-3)] by blast+
  have view: "view s' x = (if \<exists>i < szB. x = a + of_nat i then Some w8 else view s x)" for x
    unfolding view_def assms(4) m(3) using assms(5) by (auto simp: va_consts)
  have any: "(\<exists>i < szB. x = a + of_nat i) \<longleftrightarrow> (\<exists>i < szB. x = byte_at a szB be i)" for x
    using byte_at_any [of szB "\<lambda>y. x = y" a be] by simp
  have "stored (view s) (view s') a szB be v {..<szB}"
    unfolding stored_def view any using assms(6,7) by (auto split: if_splits)
  moreover have "\<not> (\<exists>i < szB. view s (a + of_nat i) = None)"
    using assms(6) byte_at_any [of szB "\<lambda>x. view s x = None" a be] by blast
  then have "store_errors s a szB = []" by (simp add: store_errors_def)
  ultimately show ?thesis using m by (simp add: store_ok_def env_split)
qed

lemma ucast_ones: "i < 8 \<Longrightarrow> (ucast (drop_bit (8 * i) V_BITS64_UNDEFINED) :: UChar) = V_BITS8_UNDEFINED"
  by (rule bit_word_eqI) (auto simp: bit_simps v_consts va_consts ones64 ones8 simp del: bit_numeral_word_iff)

lemma ucast_zeros:
  "(ucast (drop_bit k V_BITS64_DEFINED) :: UChar) = V_BITS8_DEFINED"
  "(ucast (drop_bit k V_BITS32_DEFINED) :: UChar) = V_BITS8_DEFINED"
  by (simp_all add: v_consts va_consts)

lemma ucast_lo32:
  assumes "i < 4"
  shows "(ucast (drop_bit (8 * i) v) :: UChar) = ucast (drop_bit (8 * i) (v AND 0xFFFFFFFF :: UWord))"
  by (rule bit_word_eqI) (use assms in \<open>auto simp: bit_simps ones_lo simp del: bit_numeral_word_iff\<close>)

lemma ucast_ones32: "i < 4 \<Longrightarrow> (ucast (drop_bit (8 * i) V_BITS32_UNDEFINED) :: UChar) = V_BITS8_UNDEFINED"
  by (rule bit_word_eqI) (auto simp: bit_simps v_consts va_consts ones_lo ones8 simp del: bit_numeral_word_iff)

lemma ucast_low32:
  assumes "i < 4"
  shows "v AND 0xFFFFFFFF = V_BITS32_UNDEFINED \<Longrightarrow> (ucast (drop_bit (8 * i) v) :: UChar) = V_BITS8_UNDEFINED"
    "v AND 0xFFFFFFFF = V_BITS32_DEFINED \<Longrightarrow> (ucast (drop_bit (8 * i) v) :: UChar) = V_BITS8_DEFINED"
  using ucast_lo32 [OF assms, of v] ucast_ones32 [OF assms] ucast_zeros by metis+

lemma write16_store_ok:
  assumes "mem_ok s" "a AND 7 = 0" "slot_ptr s (slot_of a) = Sm n"
    "read_vabits16 (Sm n) (SM_OFF_16 a) s = VA_BITS16_DEFINED \<or> read_vabits16 (Sm n) (SM_OFF_16 a) s = VA_BITS16_UNDEFINED"
  shows "store_ok s a 8 be V_BITS64_DEFINED (write_vabits16 (Sm n) (SM_OFF_16 a) VA_BITS16_DEFINED s)"
    "store_ok s a 8 be V_BITS64_UNDEFINED (write_vabits16 (Sm n) (SM_OFF_16 a) VA_BITS16_UNDEFINED s)"
proof -
  have mc: "mc_ok s" using assms(1) by (simp add: mem_ok_def)
  have acc: "view s (byte_at a 8 be i) \<noteq> None" if "i < 8" for i
    using read16_view [OF assms(2,3) that, of be] assms(4) by auto
  note w = write_vabits16_va [OF assms(2) mc assms(3)]
  show "store_ok s a 8 be V_BITS64_DEFINED (write_vabits16 (Sm n) (SM_OFF_16 a) VA_BITS16_DEFINED s)"
    by (rule store_ok_uniform [where ?w2.0 = VA_BITS2_DEFINED and ?w8.0 = V_BITS8_DEFINED])
      (use assms(1) w [OF cast16(1,2)] acc in \<open>auto intro!: ext simp: extract_uniform aligned8_iff [OF assms(2)] ucast_zeros\<close>)
  show "store_ok s a 8 be V_BITS64_UNDEFINED (write_vabits16 (Sm n) (SM_OFF_16 a) VA_BITS16_UNDEFINED s)"
    by (rule store_ok_uniform [where ?w2.0 = VA_BITS2_UNDEFINED and ?w8.0 = V_BITS8_UNDEFINED])
      (use assms(1) w [OF cast16(3,4)] acc in \<open>auto intro!: ext simp: extract_uniform aligned8_iff [OF assms(2)] ucast_ones\<close>)
qed

lemma write8_store_ok:
  assumes "mem_ok s" "a AND 3 = 0" "slot_ptr s (slot_of a) = Sm n"
    "secmaps s (Sm n) (SM_OFF a) = VA_BITS8_DEFINED \<or> secmaps s (Sm n) (SM_OFF a) = VA_BITS8_UNDEFINED"
  shows "v AND 0xFFFFFFFF = V_BITS32_DEFINED \<Longrightarrow> store_ok s a 4 be v (write_secmap (Sm n) (SM_OFF a) VA_BITS8_DEFINED s)"
    "v AND 0xFFFFFFFF = V_BITS32_UNDEFINED \<Longrightarrow> store_ok s a 4 be v (write_secmap (Sm n) (SM_OFF a) VA_BITS8_UNDEFINED s)"
proof -
  have mc: "mc_ok s" using assms(1) by (simp add: mem_ok_def)
  have acc: "view s (byte_at a 4 be i) \<noteq> None" if "i < 4" for i
    using read8_view [OF assms(2,3) that, of be] assms(4) by auto
  note w = write_cell_va [OF mc assms(3)] and w' = write_secmap_ok [OF mc assms(3)]
  show "v AND 0xFFFFFFFF = V_BITS32_DEFINED \<Longrightarrow> store_ok s a 4 be v (write_secmap (Sm n) (SM_OFF a) VA_BITS8_DEFINED s)"
    by (rule store_ok_uniform [where ?w2.0 = VA_BITS2_DEFINED and ?w8.0 = V_BITS8_DEFINED])
      (use assms(1) w w' acc in \<open>auto intro!: ext simp: extract_uniform aligned4_off(2) [OF assms(2)] ucast_low32\<close>)
  show "v AND 0xFFFFFFFF = V_BITS32_UNDEFINED \<Longrightarrow> store_ok s a 4 be v (write_secmap (Sm n) (SM_OFF a) VA_BITS8_UNDEFINED s)"
    by (rule store_ok_uniform [where ?w2.0 = VA_BITS2_UNDEFINED and ?w8.0 = V_BITS8_UNDEFINED])
      (use assms(1) w w' acc in \<open>auto intro!: ext simp: extract_uniform aligned4_off(2) [OF assms(2)] ucast_low32\<close>)
qed

lemma not_distinguished: "\<not> is_distinguished_sm p \<Longrightarrow> \<exists>n. p = Sm n"
  by (cases p) auto

lemma mc_STOREVn_slow_ok:
  assumes "mem_ok s" "alloc_ok s" "(nBits, szB) \<in> {(64, 8), (32, 4), (16, 2), (8, 1)}"
  shows "\<exists>s'. mc_STOREVn_slow a nBits v be s = Some s' \<and> store_ok s a szB be v s'"
proof -
  note sz = sizes [OF assms(3)]
  obtain t where t: "get_secmap_for_reading a s = Some (slot_ptr t (slot_of a), t)" "mem_ok t" "view t = view s" "env t = env s"
    using reading_mem [OF assms(1)] by blast
  have "alloc_ok t" using env_alloc_ok [OF t(4)] assms(2) by simp
  note bytes = mc_STOREVn_bytes_ok [OF t(2) this assms(3), of a v be, unfolded store_ok_cong [OF t(3,4)]]
  let ?p = "slot_ptr t (slot_of a)"
  consider (w64) "szB = 8" "a AND 7 = 0" | (w32) "szB = 4" "a AND 3 = 0" | (other) "\<not> (szB = 8 \<and> a AND 7 = 0)" "\<not> (szB = 4 \<and> a AND 3 = 0)"
    by blast
  then show ?thesis
  proof cases
    case w64
    note w = write16_store_ok [OF t(2) w64(2), where be = be, unfolded store_ok_cong [OF t(3,4)]]
    show ?thesis
    proof (cases "\<exists>n. ?p = Sm n \<and> (read_vabits16 ?p (SM_OFF_16 a) t = VA_BITS16_DEFINED \<or> read_vabits16 ?p (SM_OFF_16 a) t = VA_BITS16_UNDEFINED)")
      case True
      then show ?thesis using w64 t(1) sz(4) bytes w by (auto simp: mc_STOREVn_slow_def Let_def)
    next
      case False
      then show ?thesis using w64 t(1) sz(4) bytes by (cases ?p) (auto simp: mc_STOREVn_slow_def Let_def)
    qed
  next
    case w32
    note w = write8_store_ok [OF t(2) w32(2), where be = be, unfolded store_ok_cong [OF t(3,4)]]
    show ?thesis
    proof (cases "\<exists>n. ?p = Sm n \<and> (secmaps t ?p (SM_OFF a) = VA_BITS8_DEFINED \<or> secmaps t ?p (SM_OFF a) = VA_BITS8_UNDEFINED)")
      case True
      then show ?thesis using w32 t(1) sz(4,5) bytes w by (auto simp: mc_STOREVn_slow_def Let_def)
    next
      case False
      then show ?thesis using w32 t(1) sz(4,5) bytes by (cases ?p) (auto simp: mc_STOREVn_slow_def Let_def)
    qed
  next
    case other
    then show ?thesis using mc_STOREVn_bytes_ok [OF assms, of a v be] sz(4,5) by (auto simp: mc_STOREVn_slow_def)
  qed
qed

subsection \<open>The initial state\<close>

lemma init_slot_ptr: "slot_ptr (init_shadow_memory f p l) x = Dsm SM_DIST_NOACCESS"
  by (cases x) (simp_all add: slot_ptr_def init_shadow_memory_def)

lemma init_mc_ok: "mc_ok (init_shadow_memory f p l)"
  unfolding mc_ok_def init_slot_ptr
  by (auto simp: L1_ok_def init_shadow_memory_def dsm_consts)

lemma init_va: "va (init_shadow_memory f p l) x = VA_BITS2_NOACCESS"
  unfolding va_def cell_def contents_def init_slot_ptr
  by (simp add: init_shadow_memory_def dsm_contents_def extract_uniform)

lemma init_mem_ok: "mem_ok (init_shadow_memory f p l)"
  unfolding mem_ok_def init_va using init_mc_ok
  by (auto simp: tab_ok_def init_shadow_memory_def va_consts)

lemma init_view: "view (init_shadow_memory f p l) = (\<lambda>_. None)"
  by (simp add: fun_eq_iff view_def init_va)

lemma init_alloc_ok: "alloc_ok (init_shadow_memory (\<lambda>_. True) p l)"
  by (simp add: alloc_ok_def init_shadow_memory_def)

text \<open>A small memory with one accessible byte, for the examples.\<close>

definition sample_mem :: mc_state where
  "sample_mem = the (set_vabits2 0x1000 VA_BITS2_UNDEFINED (init_shadow_memory (\<lambda>_. True) False 2))"

lemma sample_mem_ok: "mem_ok sample_mem" "alloc_ok sample_mem"
  "view sample_mem = [0x1000 \<mapsto> V_BITS8_UNDEFINED]"
proof -
  let ?s = "init_shadow_memory (\<lambda>_. True) False 2"
  have "VA_BITS2_UNDEFINED \<le> 3" by (simp add: va_consts)
  then obtain t where t: "set_vabits2 0x1000 VA_BITS2_UNDEFINED ?s = Some t" "mc_ok t"
      "va t = (va ?s)(0x1000 := VA_BITS2_UNDEFINED)" "vtab t = vtab ?s"
    using set_vabits2_ok [OF init_mc_ok init_alloc_ok] by blast
  then have e: "sample_mem = t" by (simp add: sample_mem_def)
  have "va t x \<noteq> VA_BITS2_PARTDEFINED" if "va t x \<noteq> va ?s x" for x
    using that t(3) by (auto simp: va_consts split: if_splits)
  then have m: "mem_ok t" "env t = env ?s" using set_va_mem [OF init_mem_ok t(2,4)] by blast+
  show "mem_ok sample_mem" "alloc_ok sample_mem"
    unfolding e using m env_alloc_ok [OF m(2)] init_alloc_ok by simp_all
  show "view sample_mem = [0x1000 \<mapsto> V_BITS8_UNDEFINED]"
    unfolding e view_def t(3) init_va by (auto simp: fun_eq_iff va_consts)
qed

subsection \<open>The contract of the byte operations\<close>

text \<open>What the loads, stores and range operations rely on: reading and writing one byte act on
  an abstract memory of optional V bits.\<close>

locale shadow_bytes =
  fixes inv :: "'s \<Rightarrow> bool"
    and sees :: "'s \<Rightarrow> Addr \<Rightarrow> UChar option"
    and rd :: "Addr \<Rightarrow> 's \<Rightarrow> (bool \<times> UChar \<times> 's) option"
    and wr :: "Addr \<Rightarrow> UChar \<Rightarrow> 's \<Rightarrow> (bool \<times> 's) option"
  assumes rd_law: "inv s \<Longrightarrow> \<exists>s'. rd a s =
        Some (sees s a \<noteq> None, case sees s a of None \<Rightarrow> V_BITS8_DEFINED | Some v \<Rightarrow> v, s') \<and>
      inv s' \<and> sees s' = sees s"
    and wr_law: "inv s \<Longrightarrow> \<exists>s'. wr a v s = Some (sees s a \<noteq> None, s') \<and> inv s' \<and>
      sees s' = (if sees s a = None then sees s else (sees s)(a \<mapsto> v))"
begin

lemma read_own_write:
  assumes "inv s" "sees s a \<noteq> None"
  shows "\<exists>t u. wr a v s = Some (True, t) \<and> rd a t = Some (True, v, u)"
proof -
  obtain t where t: "wr a v s = Some (sees s a \<noteq> None, t)" "inv t" "sees t = (if sees s a = None then sees s else (sees s)(a \<mapsto> v))"
    using wr_law [OF assms(1)] by blast
  then show ?thesis using rd_law [OF t(2), of a] assms(2) by auto
qed

lemma write_frame:
  assumes "inv s" "b \<noteq> a" "wr a v s = Some (r, t)"
  shows "\<exists>u u'. rd b t = Some (sees s b \<noteq> None, case sees s b of None \<Rightarrow> V_BITS8_DEFINED | Some v \<Rightarrow> v, u) \<and>
    rd b s = Some (sees s b \<noteq> None, case sees s b of None \<Rightarrow> V_BITS8_DEFINED | Some v \<Rightarrow> v, u')"
proof -
  obtain t' where t': "wr a v s = Some (sees s a \<noteq> None, t')" "inv t'" "sees t' = (if sees s a = None then sees s else (sees s)(a \<mapsto> v))"
    using wr_law [OF assms(1)] by blast
  then have "t' = t" using assms(3) by simp
  then show ?thesis using rd_law [OF t'(2), of b] rd_law [OF assms(1), of b] t'(3) assms(2) by auto
qed

lemma black_hole:
  assumes "inv s" "sees s a = None"
  shows "\<exists>t. wr a v s = Some (False, t) \<and> inv t \<and> sees t = sees s"
  using wr_law [OF assms(1), of a v] assms(2) by auto

end

interpretation vbits: shadow_bytes "\<lambda>s. mem_ok s \<and> alloc_ok s" view get_vbits8 set_vbits8
proof
  fix s a assume "mem_ok s \<and> alloc_ok s"
  then show "\<exists>s'. get_vbits8 a s = Some (view s a \<noteq> None, case view s a of None \<Rightarrow> V_BITS8_DEFINED | Some v \<Rightarrow> v, s') \<and>
      (mem_ok s' \<and> alloc_ok s') \<and> view s' = view s"
    using get_vbits8_ok [of s a] env_alloc_ok by blast
next
  fix s a v assume "mem_ok s \<and> alloc_ok s"
  then show "\<exists>s'. set_vbits8 a v s = Some (view s a \<noteq> None, s') \<and> (mem_ok s' \<and> alloc_ok s') \<and>
      view s' = (if view s a = None then view s else (view s)(a \<mapsto> v))"
    using set_vbits8_ok [of s a v] env_alloc_ok by blast
qed

subsection \<open>Properties\<close>

text \<open>Memcheck starts with sound shadow tables in which every byte of the address space is
  inaccessible.\<close>

lemma init_shadow_memory_correct:
  "mem_ok (init_shadow_memory ok partial level) \<and> view (init_shadow_memory ok partial level) = (\<lambda>_. None)"
  using init_mem_ok init_view by blast

text \<open>C32. Writing the V bits of a byte refines a single update of the abstract memory: the
  operation returns, reports whether the byte is accessible, keeps the invariant (in particular
  the link between partially defined bytes and the secondary V bit table, across its garbage
  collection) and leaves every other byte as it was; an inaccessible byte swallows the write.\<close>

theorem set_vbits8_refines:
  assumes "mem_ok s" "alloc_ok s"
  shows "\<exists>s'. set_vbits8 a v s = Some (view s a \<noteq> None, s') \<and> mem_ok s' \<and>
    view s' = (if view s a = None then view s else (view s)(a \<mapsto> v)) \<and> address_errors s' = address_errors s"
  using set_vbits8_ok [OF assms, of a v] by (auto simp: env_def)

theorem set_vbits8_refines_witness:
  "\<exists>s'. set_vbits8 0x1000 0x0F sample_mem = Some (True, s') \<and> mem_ok s' \<and> view s' = [0x1000 \<mapsto> 0x0F]"
  using set_vbits8_refines [OF sample_mem_ok(1,2), of "0x1000" "0x0F"] by (auto simp: sample_mem_ok(3))

text \<open>Round trip of one byte: V bits written to an accessible byte are read back unchanged,
  whether they are all defined, all undefined or mixed.\<close>

lemma vbits8_round_trip:
  assumes "mem_ok s" "alloc_ok s" "view s a \<noteq> None"
  shows "\<exists>t u. set_vbits8 a v s = Some (True, t) \<and> get_vbits8 a t = Some (True, v, u)"
  using vbits.read_own_write [of s a v] assms by blast

text \<open>C33. Garbage collection of the secondary V bit table returns, keeps the invariant and
  changes no byte of the abstract memory: no node of a partially defined byte is evicted.\<close>

theorem gcSecVBitTable_preserves:
  assumes "mem_ok s"
  shows "\<exists>s'. gcSecVBitTable s = Some s' \<and> mem_ok s' \<and> view s' = view s"
proof -
  have h: "mc_ok s" "tab_ok (secVBitTable s)" using assms by (simp_all add: mem_ok_def)
  obtain s' where s': "gcSecVBitTable s = Some s'" "mc_ok s'" "va s' = va s" "tab_ok (secVBitTable s')"
      "\<forall>x. va s x = VA_BITS2_PARTDEFINED \<longrightarrow> sec s' x = sec s x"
    using gcSecVBitTable_ok [OF h] by blast
  have "view s' x = view s x" for x
    by (cases rule: va_cases [of s x]) (use s'(3,5) in \<open>auto simp: view_def va_consts\<close>)
  moreover have "mem_ok s'" using s' assms by (simp add: mem_ok_def)
  ultimately show ?thesis using s'(1) by auto
qed

theorem gcSecVBitTable_preserves_witness:
  "\<exists>s'. gcSecVBitTable sample_mem = Some s' \<and> mem_ok s' \<and> view s' = [0x1000 \<mapsto> V_BITS8_UNDEFINED]"
  using gcSecVBitTable_preserves [OF sample_mem_ok(1)] by (simp add: sample_mem_ok(3))

text \<open>The slow load of 64, 32, 16 or 8 bits returns, for every byte of the access in the given
  byte order, the V bits of that byte (defined for an inaccessible one) and ones above the access;
  memory is unchanged, and an address error is recorded exactly when some byte is inaccessible and
  the partial-loads exemption does not apply. The aligned shortcuts give the same.\<close>

lemma mc_LOADVn_slow_correct:
  assumes "mem_ok s" "(nBits, szB) \<in> {(64, 8), (32, 4), (16, 2), (8, 1)}"
  shows "\<exists>r s'. mc_LOADVn_slow a nBits be s = Some (r, s') \<and>
    (\<forall>k<64. bit r k = (if k < 8 * szB then bit (vb s (byte_at a szB be (k div 8))) (k mod 8) else True)) \<and>
    mem_ok s' \<and> view s' = view s \<and> address_errors s' = address_errors s @ load_errors s a szB"
  using mc_LOADVn_slow_ok [OF assms, of a be] by (auto simp: load_ok_def loaded_def)

text \<open>The slow store writes each byte of the value, in the given byte order, to the accessible
  bytes of the access and nothing else, and records an address error exactly when some byte is
  inaccessible. The aligned shortcuts give the same.\<close>

lemma mc_STOREVn_slow_correct:
  assumes "mem_ok s" "alloc_ok s" "(nBits, szB) \<in> {(64, 8), (32, 4), (16, 2), (8, 1)}"
  shows "\<exists>s'. mc_STOREVn_slow a nBits v be s = Some s' \<and> mem_ok s' \<and>
    (\<forall>i < szB. view s (byte_at a szB be i) \<noteq> None \<longrightarrow>
       view s' (byte_at a szB be i) = Some (ucast (drop_bit (8 * i) v))) \<and>
    (\<forall>x. view s x = None \<or> (\<forall>i < szB. x \<noteq> byte_at a szB be i) \<longrightarrow> view s' x = view s x) \<and>
    address_errors s' = address_errors s @ store_errors s a szB"
  using mc_STOREVn_slow_ok [OF assms, of a v be] by (auto simp: store_ok_def stored_def)

end
