(* ===== verification/FastPaths.thy ===== *)
theory FastPaths
  imports VBits
begin

text \<open>
  The load and store helpers that instrumented code calls, \<^verbatim>\<open>memcheck/mc_main.c\<close>, with
  \<^verbatim>\<open>PERF_FAST_LOADV\<close> and \<^verbatim>\<open>PERF_FAST_STOREV\<close>: one test for alignment and address range, then
  the common cases straight from the primary map, everything else through the slow cases.
\<close>

definition MASK :: "UWord \<Rightarrow> UWord" where
  "MASK szInBytes = NOT ((0x10000 - szInBytes) OR push_bit 16 (of_nat N_PRIMARY_MAP - 1))"

definition UNALIGNED_OR_HIGH :: "Addr \<Rightarrow> UWord \<Rightarrow> bool" where
  "UNALIGNED_OR_HIGH a szInBits \<longleftrightarrow> a AND MASK (drop_bit 3 szInBits) \<noteq> 0"

definition get_secmap_for_reading_low :: "Addr \<Rightarrow> mc_state \<Rightarrow> SecMapPtr" where
  "get_secmap_for_reading_low a s = primary_map s (unat (drop_bit 16 a))"

subsection \<open>Size 8\<close>

definition mc_LOADV64 :: "Addr \<Rightarrow> bool \<Rightarrow> mc_state \<Rightarrow> (UWord \<times> mc_state) option" where
  "mc_LOADV64 a isBigEndian s =
     (if UNALIGNED_OR_HIGH a 64 then mc_LOADVn_slow a 64 isBigEndian s
      else let sm = get_secmap_for_reading_low a s;
               vabits16 = read_vabits16 sm (SM_OFF_16 a) s in
        if vabits16 = VA_BITS16_DEFINED then Some (V_BITS64_DEFINED, s)
        else if vabits16 = VA_BITS16_UNDEFINED then Some (V_BITS64_UNDEFINED, s)
        else mc_LOADVn_slow a 64 isBigEndian s)"

definition helperc_LOADV64be :: "Addr \<Rightarrow> mc_state \<Rightarrow> (UWord \<times> mc_state) option" where
  "helperc_LOADV64be a s = mc_LOADV64 a True s"

definition helperc_LOADV64le :: "Addr \<Rightarrow> mc_state \<Rightarrow> (UWord \<times> mc_state) option" where
  "helperc_LOADV64le a s = mc_LOADV64 a False s"

definition mc_STOREV64 :: "Addr \<Rightarrow> UWord \<Rightarrow> bool \<Rightarrow> mc_state \<Rightarrow> mc_state option" where
  "mc_STOREV64 a vbits64 isBigEndian s =
     (if UNALIGNED_OR_HIGH a 64 then mc_STOREVn_slow a 64 vbits64 isBigEndian s
      else let sm = get_secmap_for_reading_low a s;
               sm_off16 = SM_OFF_16 a;
               vabits16 = read_vabits16 sm sm_off16 s in
        if \<not> is_distinguished_sm sm \<and> (VA_BITS16_DEFINED = vabits16 \<or> VA_BITS16_UNDEFINED = vabits16) then
          (if V_BITS64_DEFINED = vbits64 then Some (write_vabits16 sm sm_off16 VA_BITS16_DEFINED s)
           else if V_BITS64_UNDEFINED = vbits64 then Some (write_vabits16 sm sm_off16 VA_BITS16_UNDEFINED s)
           else mc_STOREVn_slow a 64 vbits64 isBigEndian s)
        else mc_STOREVn_slow a 64 vbits64 isBigEndian s)"

definition helperc_STOREV64be :: "Addr \<Rightarrow> UWord \<Rightarrow> mc_state \<Rightarrow> mc_state option" where
  "helperc_STOREV64be a vbits64 s = mc_STOREV64 a vbits64 True s"

definition helperc_STOREV64le :: "Addr \<Rightarrow> UWord \<Rightarrow> mc_state \<Rightarrow> mc_state option" where
  "helperc_STOREV64le a vbits64 s = mc_STOREV64 a vbits64 False s"

subsection \<open>Size 4\<close>

definition mc_LOADV32 :: "Addr \<Rightarrow> bool \<Rightarrow> mc_state \<Rightarrow> (UWord \<times> mc_state) option" where
  "mc_LOADV32 a isBigEndian s =
     (if UNALIGNED_OR_HIGH a 32 then mc_LOADVn_slow a 32 isBigEndian s
      else let sm = get_secmap_for_reading_low a s;
               v8 = secmaps s sm (SM_OFF a) in
        if v8 = VA_BITS8_DEFINED then Some (0xFFFFFFFF00000000 OR V_BITS32_DEFINED, s)
        else if v8 = VA_BITS8_UNDEFINED then Some (0xFFFFFFFF00000000 OR V_BITS32_UNDEFINED, s)
        else mc_LOADVn_slow a 32 isBigEndian s)"

definition helperc_LOADV32be :: "Addr \<Rightarrow> mc_state \<Rightarrow> (UWord \<times> mc_state) option" where
  "helperc_LOADV32be a s = mc_LOADV32 a True s"

definition helperc_LOADV32le :: "Addr \<Rightarrow> mc_state \<Rightarrow> (UWord \<times> mc_state) option" where
  "helperc_LOADV32le a s = mc_LOADV32 a False s"

definition mc_STOREV32 :: "Addr \<Rightarrow> UWord \<Rightarrow> bool \<Rightarrow> mc_state \<Rightarrow> mc_state option" where
  "mc_STOREV32 a vbits32 isBigEndian s =
     (if UNALIGNED_OR_HIGH a 32 then mc_STOREVn_slow a 32 vbits32 isBigEndian s
      else let sm = get_secmap_for_reading_low a s;
               sm_off = SM_OFF a;
               v8 = secmaps s sm sm_off in
        if V_BITS32_DEFINED = vbits32 then
          (if v8 = VA_BITS8_DEFINED then Some s
           else if \<not> is_distinguished_sm sm \<and> VA_BITS8_UNDEFINED = v8 then
             Some (write_secmap sm sm_off VA_BITS8_DEFINED s)
           else mc_STOREVn_slow a 32 vbits32 isBigEndian s)
        else if V_BITS32_UNDEFINED = vbits32 then
          (if v8 = VA_BITS8_UNDEFINED then Some s
           else if \<not> is_distinguished_sm sm \<and> VA_BITS8_DEFINED = v8 then
             Some (write_secmap sm sm_off VA_BITS8_UNDEFINED s)
           else mc_STOREVn_slow a 32 vbits32 isBigEndian s)
        else mc_STOREVn_slow a 32 vbits32 isBigEndian s)"

definition helperc_STOREV32be :: "Addr \<Rightarrow> UWord \<Rightarrow> mc_state \<Rightarrow> mc_state option" where
  "helperc_STOREV32be a vbits32 s = mc_STOREV32 a vbits32 True s"

definition helperc_STOREV32le :: "Addr \<Rightarrow> UWord \<Rightarrow> mc_state \<Rightarrow> mc_state option" where
  "helperc_STOREV32le a vbits32 s = mc_STOREV32 a vbits32 False s"

subsection \<open>Size 2\<close>

definition mc_LOADV16 :: "Addr \<Rightarrow> bool \<Rightarrow> mc_state \<Rightarrow> (UWord \<times> mc_state) option" where
  "mc_LOADV16 a isBigEndian s =
     (if UNALIGNED_OR_HIGH a 16 then mc_LOADVn_slow a 16 isBigEndian s
      else let sm = get_secmap_for_reading_low a s;
               v8 = secmaps s sm (SM_OFF a) in
        if v8 = VA_BITS8_DEFINED then Some (V_BITS16_DEFINED, s)
        else if v8 = VA_BITS8_UNDEFINED then Some (V_BITS16_UNDEFINED, s)
        else do {
          vabits4 \<leftarrow> extract_vabits4_from_vabits8 a v8;
          if vabits4 = VA_BITS4_DEFINED then Some (V_BITS16_DEFINED, s)
          else if vabits4 = VA_BITS4_UNDEFINED then Some (V_BITS16_UNDEFINED, s)
          else mc_LOADVn_slow a 16 isBigEndian s })"

definition helperc_LOADV16be :: "Addr \<Rightarrow> mc_state \<Rightarrow> (UWord \<times> mc_state) option" where
  "helperc_LOADV16be a s = mc_LOADV16 a True s"

definition helperc_LOADV16le :: "Addr \<Rightarrow> mc_state \<Rightarrow> (UWord \<times> mc_state) option" where
  "helperc_LOADV16le a s = mc_LOADV16 a False s"

definition mc_STOREV16 :: "Addr \<Rightarrow> UWord \<Rightarrow> bool \<Rightarrow> mc_state \<Rightarrow> mc_state option" where
  "mc_STOREV16 a vbits16 isBigEndian s =
     (if UNALIGNED_OR_HIGH a 16 then mc_STOREVn_slow a 16 vbits16 isBigEndian s
      else let sm = get_secmap_for_reading_low a s;
               sm_off = SM_OFF a;
               v8 = secmaps s sm sm_off in
        if \<not> is_distinguished_sm sm \<and> (VA_BITS8_DEFINED = v8 \<or> VA_BITS8_UNDEFINED = v8) then
          (if V_BITS16_DEFINED = vbits16 then do {
             w \<leftarrow> insert_vabits4_into_vabits8 a VA_BITS4_DEFINED v8;
             Some (write_secmap sm sm_off w s) }
           else if V_BITS16_UNDEFINED = vbits16 then do {
             w \<leftarrow> insert_vabits4_into_vabits8 a VA_BITS4_UNDEFINED v8;
             Some (write_secmap sm sm_off w s) }
           else mc_STOREVn_slow a 16 vbits16 isBigEndian s)
        else mc_STOREVn_slow a 16 vbits16 isBigEndian s)"

definition helperc_STOREV16be :: "Addr \<Rightarrow> UWord \<Rightarrow> mc_state \<Rightarrow> mc_state option" where
  "helperc_STOREV16be a vbits16 s = mc_STOREV16 a vbits16 True s"

definition helperc_STOREV16le :: "Addr \<Rightarrow> UWord \<Rightarrow> mc_state \<Rightarrow> mc_state option" where
  "helperc_STOREV16le a vbits16 s = mc_STOREV16 a vbits16 False s"

subsection \<open>Size 1\<close>

definition helperc_LOADV8 :: "Addr \<Rightarrow> mc_state \<Rightarrow> (UWord \<times> mc_state) option" where
  "helperc_LOADV8 a s =
     (if UNALIGNED_OR_HIGH a 8 then mc_LOADVn_slow a 8 False s
      else let sm = get_secmap_for_reading_low a s;
               v8 = secmaps s sm (SM_OFF a) in
        if v8 = VA_BITS8_DEFINED then Some (ucast V_BITS8_DEFINED, s)
        else if v8 = VA_BITS8_UNDEFINED then Some (ucast V_BITS8_UNDEFINED, s)
        else let vabits2 = extract_vabits2_from_vabits8 a v8 in
          if vabits2 = VA_BITS2_DEFINED then Some (ucast V_BITS8_DEFINED, s)
          else if vabits2 = VA_BITS2_UNDEFINED then Some (ucast V_BITS8_UNDEFINED, s)
          else mc_LOADVn_slow a 8 False s)"

definition helperc_STOREV8 :: "Addr \<Rightarrow> UWord \<Rightarrow> mc_state \<Rightarrow> mc_state option" where
  "helperc_STOREV8 a vbytes s =
     (if UNALIGNED_OR_HIGH a 8 then mc_STOREVn_slow a 8 vbytes False s
      else let sm = get_secmap_for_reading_low a s;
               sm_off = SM_OFF a;
               v8 = secmaps s sm sm_off in
        if \<not> is_distinguished_sm sm \<and>
           ((VA_BITS8_DEFINED = v8 \<or> VA_BITS8_UNDEFINED = v8) \<or>
            VA_BITS2_NOACCESS \<noteq> extract_vabits2_from_vabits8 a v8) then
          (if ucast V_BITS8_DEFINED = vbytes then
             Some (write_secmap sm sm_off (insert_vabits2_into_vabits8 a VA_BITS2_DEFINED v8) s)
           else if ucast V_BITS8_UNDEFINED = vbytes then
             Some (write_secmap sm sm_off (insert_vabits2_into_vabits8 a VA_BITS2_UNDEFINED v8) s)
           else mc_STOREVn_slow a 8 vbytes False s)
        else mc_STOREVn_slow a 8 vbytes False s)"

end
