(* ===== verification/FastPaths_Correct.thy ===== *)
theory FastPaths_Correct
  imports VBits_Correct FastPaths
begin

text \<open>
  The load and store helpers for instrumented code agree with the byte-wise specification: the
  combined alignment and range test is exact, and every shortcut through the primary map has the
  effect of the slow case.
\<close>

subsection \<open>The combined alignment and range test\<close>

lemma low_addr_bits: "a \<le> MAX_PRIMARY_ADDRESS \<longleftrightarrow> (\<forall>k. bit a k \<longrightarrow> k < 35)"
proof -
  have "a \<le> MAX_PRIMARY_ADDRESS \<longleftrightarrow> unat a < 2 ^ 35"
    unfolding unat_le_iff unat_MAX_PRIMARY by (simp, linarith)
  also have "\<dots> \<longleftrightarrow> take_bit 35 (unat a) = unat a" by (rule take_bit_nat_eq_self_iff [symmetric])
  also have "\<dots> \<longleftrightarrow> (\<forall>k. bit (unat a) k \<longrightarrow> k < 35)" by (auto simp: bit_eq_iff bit_take_bit_iff)
  finally show ?thesis by (simp add: bit_unsigned_iff)
qed

lemma unaligned_or_high:
  assumes "0x10000 - szB OR push_bit 16 (of_nat N_PRIMARY_MAP - 1) = push_bit j (mask (35 - j) :: UWord)" "j \<le> 35"
  shows "a AND MASK szB = 0 \<longleftrightarrow> a AND mask j = 0 \<and> a \<le> MAX_PRIMARY_ADDRESS"
proof -
  have "a AND MASK szB = 0 \<longleftrightarrow> (\<forall>k. bit a k \<longrightarrow> \<not> (k < j \<or> 35 \<le> k))"
    unfolding MASK_def assms(1) bit_eq_iff using assms(2) bit_imp_le_length [of a] by (fastforce simp: bit_simps)
  moreover have "a AND mask j = 0 \<longleftrightarrow> (\<forall>k. bit a k \<longrightarrow> \<not> k < j)"
    unfolding bit_eq_iff using bit_imp_le_length [of a] by (fastforce simp: bit_simps)
  ultimately show ?thesis unfolding low_addr_bits by (meson not_le)
qed

lemma unaligned_or_high_sizes:
  "\<not> UNALIGNED_OR_HIGH a 64 \<longleftrightarrow> a AND 7 = 0 \<and> a \<le> MAX_PRIMARY_ADDRESS"
  "\<not> UNALIGNED_OR_HIGH a 32 \<longleftrightarrow> a AND 3 = 0 \<and> a \<le> MAX_PRIMARY_ADDRESS"
  "\<not> UNALIGNED_OR_HIGH a 16 \<longleftrightarrow> a AND 1 = 0 \<and> a \<le> MAX_PRIMARY_ADDRESS"
  "\<not> UNALIGNED_OR_HIGH a 8 \<longleftrightarrow> a \<le> MAX_PRIMARY_ADDRESS"
  using unaligned_or_high [of 8 3 a] unaligned_or_high [of 4 2 a] unaligned_or_high [of 2 1 a] unaligned_or_high [of 1 0 a]
  by (simp_all add: UNALIGNED_OR_HIGH_def mask_eq_exp_minus_1 N_PRIMARY_MAP_def)

lemma secmap_low: "a \<le> MAX_PRIMARY_ADDRESS \<Longrightarrow> get_secmap_for_reading_low a s = slot_ptr s (slot_of a)"
  by (simp add: get_secmap_for_reading_low_def slot_ptr_def slot_of_def)

subsection \<open>Sizes 8 and 4\<close>

lemma mc_LOADV64_ok:
  assumes "mem_ok s"
  shows "\<exists>r s'. mc_LOADV64 a be s = Some (r, s') \<and> load_ok s a 8 be r s'"
proof -
  have slow: "\<exists>r s'. mc_LOADVn_slow a 64 be s = Some (r, s') \<and> load_ok s a 8 be r s'"
    using mc_LOADVn_slow_ok [OF assms, of 64 8] by simp
  show ?thesis
  proof (cases "UNALIGNED_OR_HIGH a 64")
    case False
    then have al: "a AND 7 = 0" "a \<le> MAX_PRIMARY_ADDRESS" using unaligned_or_high_sizes by auto
    let ?v = "read_vabits16 (slot_ptr s (slot_of a)) (SM_OFF_16 a) s"
    have "?v = VA_BITS16_DEFINED \<Longrightarrow> load_ok s a 8 be V_BITS64_DEFINED s"
      by (rule load_ok_uniform [OF assms, of _ _ _ V_BITS8_DEFINED]) (use read16_view(1) [OF al(1) refl, of _ s be] in auto)
    moreover have "?v = VA_BITS16_UNDEFINED \<Longrightarrow> load_ok s a 8 be V_BITS64_UNDEFINED s"
      by (rule load_ok_uniform [OF assms, of _ _ _ V_BITS8_UNDEFINED]) (use read16_view(2) [OF al(1) refl, of _ s be] in auto)
    ultimately show ?thesis using False slow secmap_low [OF al(2)] by (simp add: mc_LOADV64_def Let_def)
  qed (use slow in \<open>simp add: mc_LOADV64_def\<close>)
qed

lemma mc_LOADV32_ok:
  assumes "mem_ok s"
  shows "\<exists>r s'. mc_LOADV32 a be s = Some (r, s') \<and> load_ok s a 4 be r s'"
proof -
  have slow: "\<exists>r s'. mc_LOADVn_slow a 32 be s = Some (r, s') \<and> load_ok s a 4 be r s'"
    using mc_LOADVn_slow_ok [OF assms, of 32 4] by simp
  show ?thesis
  proof (cases "UNALIGNED_OR_HIGH a 32")
    case False
    then have al: "a AND 3 = 0" "a \<le> MAX_PRIMARY_ADDRESS" using unaligned_or_high_sizes by auto
    let ?v = "secmaps s (slot_ptr s (slot_of a)) (SM_OFF a)"
    have "?v = VA_BITS8_DEFINED \<Longrightarrow> load_ok s a 4 be (0xFFFFFFFF00000000 OR V_BITS32_DEFINED) s"
      by (rule load_ok_uniform [OF assms, of _ _ _ V_BITS8_DEFINED]) (use read8_view(1) [OF al(1) refl, of _ s be] in auto)
    moreover have "?v = VA_BITS8_UNDEFINED \<Longrightarrow> load_ok s a 4 be (0xFFFFFFFF00000000 OR V_BITS32_UNDEFINED) s"
      by (rule load_ok_uniform [OF assms, of _ _ _ V_BITS8_UNDEFINED]) (use read8_view(2) [OF al(1) refl, of _ s be] in auto)
    ultimately show ?thesis using False slow secmap_low [OF al(2)] by (simp add: mc_LOADV32_def Let_def)
  qed (use slow in \<open>simp add: mc_LOADV32_def\<close>)
qed

lemma mc_STOREV64_ok:
  assumes "mem_ok s" "alloc_ok s"
  shows "\<exists>s'. mc_STOREV64 a v be s = Some s' \<and> store_ok s a 8 be v s'"
proof -
  have slow: "\<exists>s'. mc_STOREVn_slow a 64 v be s = Some s' \<and> store_ok s a 8 be v s'"
    using mc_STOREVn_slow_ok [OF assms, of 64 8] by simp
  show ?thesis
  proof (cases "UNALIGNED_OR_HIGH a 64")
    case False
    then have al: "a AND 7 = 0" "a \<le> MAX_PRIMARY_ADDRESS" using unaligned_or_high_sizes by auto
    let ?p = "slot_ptr s (slot_of a)"
    note w = write16_store_ok [OF assms(1) al(1), where be = be]
    have "\<not> is_distinguished_sm ?p \<Longrightarrow> \<exists>n. ?p = Sm n" by (rule not_distinguished)
    then show ?thesis
      using False slow w unfolding mc_STOREV64_def secmap_low [OF al(2)] Let_def by auto
  qed (use slow in \<open>simp add: mc_STOREV64_def\<close>)
qed

lemma store_ok_same:
  assumes "mem_ok s" "\<And>i. i < szB \<Longrightarrow> view s (byte_at a szB be i) = Some (ucast (drop_bit (8 * i) v))"
  shows "store_ok s a szB be v s"
proof -
  have "\<not> (\<exists>i < szB. view s (a + of_nat i) = None)"
    using assms(2) byte_at_any [of szB "\<lambda>x. view s x = None" a be] by auto
  then show ?thesis using assms by (simp add: store_ok_def stored_def store_errors_def)
qed

lemma mc_STOREV32_ok:
  assumes "mem_ok s" "alloc_ok s"
  shows "\<exists>s'. mc_STOREV32 a v be s = Some s' \<and> store_ok s a 4 be v s'"
proof -
  have slow: "\<exists>s'. mc_STOREVn_slow a 32 v be s = Some s' \<and> store_ok s a 4 be v s'"
    using mc_STOREVn_slow_ok [OF assms, of 32 4] by simp
  show ?thesis
  proof (cases "UNALIGNED_OR_HIGH a 32")
    case False
    then have al: "a AND 3 = 0" "a \<le> MAX_PRIMARY_ADDRESS" using unaligned_or_high_sizes by auto
    let ?p = "slot_ptr s (slot_of a)" and ?v = "secmaps s (slot_ptr s (slot_of a)) (SM_OFF a)"
    have m: "V_BITS32_DEFINED AND 0xFFFFFFFF = V_BITS32_DEFINED" "V_BITS32_UNDEFINED AND 0xFFFFFFFF = V_BITS32_UNDEFINED"
      by (simp_all add: v_consts)
    have "store_ok s a 4 be V_BITS32_DEFINED s" if "?v = VA_BITS8_DEFINED"
      by (rule store_ok_same [OF assms(1)]) (use read8_view(1) [OF al(1) refl, of _ s be] that ucast_zeros in auto)
    moreover have "store_ok s a 4 be V_BITS32_UNDEFINED s" if "?v = VA_BITS8_UNDEFINED"
      by (rule store_ok_same [OF assms(1)]) (use read8_view(2) [OF al(1) refl, of _ s be] that ucast_ones32 in auto)
    moreover have "\<not> is_distinguished_sm ?p \<Longrightarrow> \<exists>n. ?p = Sm n" by (rule not_distinguished)
    ultimately show ?thesis
      using False slow write8_store_ok [OF assms(1) al(1), where be = be, of _ V_BITS32_DEFINED]
        write8_store_ok [OF assms(1) al(1), where be = be, of _ V_BITS32_UNDEFINED] m
      unfolding mc_STOREV32_def secmap_low [OF al(2)] Let_def by auto
  qed (use slow in \<open>simp add: mc_STOREV32_def\<close>)
qed

subsection \<open>Sizes 2 and 1\<close>

text \<open>The helpers for the small sizes return the V bits in the low part of the word only.\<close>

definition load_low_ok :: "mc_state \<Rightarrow> Addr \<Rightarrow> nat \<Rightarrow> bool \<Rightarrow> UWord \<Rightarrow> mc_state \<Rightarrow> bool" where
  "load_low_ok s a szB be r s' \<longleftrightarrow>
     (\<forall>k < 8 * szB. bit r k = bit (vb s (byte_at a szB be (k div 8))) (k mod 8)) \<and> mem_ok s' \<and> view s' = view s \<and>
     env_but_errors s' = env_but_errors s \<and> address_errors s' = address_errors s @ load_errors s a szB"

lemma load_ok_low: "load_ok s a szB be r s' \<Longrightarrow> szB \<le> 8 \<Longrightarrow> load_low_ok s a szB be r s'"
  by (auto simp: load_ok_def load_low_ok_def loaded_def)

lemma ones16: "bit (0xFFFF :: UWord) k \<longleftrightarrow> k < 16"
proof -
  have e: "(0xFFFF :: UWord) = mask 16" by (simp add: mask_eq_exp_minus_1)
  show ?thesis unfolding e by (auto simp: bit_simps)
qed

lemma load_low_uniform:
  assumes "mem_ok s" "\<And>i. i < szB \<Longrightarrow> view s (a + of_nat i) = Some w"
    "w = V_BITS8_DEFINED \<and> r = 0 \<or> w = V_BITS8_UNDEFINED \<and> (\<forall>k < 8 * szB. bit r k)"
  shows "load_low_ok s a szB be r s"
proof -
  have "view s (byte_at a szB be i) = Some w" if "i < szB" for i
    using byte_at_range [OF that] assms(2) by metis
  then have "vb s (byte_at a szB be (k div 8)) = w" if "k < 8 * szB" for k
    using that by (simp add: vb_def less_mult_imp_div_less mult.commute)
  then have "\<forall>k < 8 * szB. bit r k = bit (vb s (byte_at a szB be (k div 8))) (k mod 8)"
    using assms(3) by (auto simp: va_consts ones8 simp del: bit_numeral_word_iff)
  moreover have "load_errors s a szB = []" using assms(2) by (auto simp: load_errors_def)
  ultimately show ?thesis using assms(1) by (simp add: load_low_ok_def)
qed

lemma and1_cases: "a AND 1 = (0 :: Addr) \<Longrightarrow> a AND 3 = 0 \<or> a AND 3 = 2"
proof -
  assume "a AND 1 = 0"
  moreover have "(a AND 3) AND 1 = a AND 1" by (simp add: and.assoc)
  ultimately have "(a AND 3) AND 1 = 0" by simp
  then show ?thesis by (cases a rule: and3_cases) auto
qed

lemma aligned2:
  assumes "a AND 1 = (0 :: Addr)"
  shows "unat (a + 1) = unat a + 1" "unat (a + 1) div 4 = unat a div 4"
    "(a + 1) AND 3 = (a AND 3) + 1" "a AND 2 = a AND 3"
proof -
  from assms have "unat (a AND 1) = 0" by simp
  then have m: "unat a mod 2 = 0" by (simp only: unat_and_1)
  then obtain q where q: "unat a = 2 * q" by (metis mod_0_imp_dvd dvdE)
  have "unat a < 18446744073709551616" using unsigned_less [of a] by simp
  then have "q < 9223372036854775808" unfolding q by linarith
  then have "2 * q + 1 < 18446744073709551616" by linarith
  then show u: "unat (a + 1) = unat a + 1" using q by (simp add: unat_word_ariths)
  have "(2 * q + 1) div 4 = (2 * q + 1) div 2 div 2" by (simp add: div_mult2_eq [symmetric])
  also have "\<dots> = 2 * q div 2 div 2" by simp
  finally show "unat (a + 1) div 4 = unat a div 4" unfolding u q by (simp add: div_mult2_eq [symmetric])
  have "unat ((a + 1) AND 3) = unat (a AND 3) + 1"
    unfolding unat_and_3 u q by (simp add: mod_mult2_eq [of _ 2 2, simplified])
  moreover have "unat (a AND 3) + 1 < 18446744073709551616" unfolding unat_and_3 using mod_less_divisor [of 4 "unat a"] by linarith
  ultimately show "(a + 1) AND 3 = (a AND 3) + 1" unfolding unat_eq_iff by (simp add: unat_word_ariths)
  have "a AND 2 = (a AND 3) AND 2" by (simp add: and.assoc)
  then show "a AND 2 = a AND 3" using and1_cases [OF assms] by auto
qed

lemma extract_mod4: "a AND 3 = b AND 3 \<Longrightarrow> extract_vabits2_from_vabits8 a w = extract_vabits2_from_vabits8 b w"
  by (simp add: extract_vabits2_from_vabits8_def)

lemma nibble_mask: "(0xf :: UChar) = mask 4"
  by (simp add: mask_eq_exp_minus_1)

text \<open>A two-aligned field of four bits holds the fields of two neighbouring bytes.\<close>

lemma extract4_split:
  assumes "a AND 1 = (0 :: Addr)"
  shows "\<exists>n. extract_vabits4_from_vabits8 a w = Some n \<and> extract_vabits2_from_vabits8 a w = n AND 3 \<and>
    extract_vabits2_from_vabits8 (a + 1) w = drop_bit 2 n"
proof -
  note al = aligned2 [OF assms]
  have "(0xf AND drop_bit 0 w) AND 3 = 3 AND drop_bit 0 w" "drop_bit 2 (0xf AND drop_bit 0 w) = 3 AND drop_bit 2 w"
    "(0xf AND drop_bit 4 w) AND 3 = 3 AND drop_bit 4 w" "drop_bit 2 (0xf AND drop_bit 4 w) = 3 AND drop_bit 6 w"
    unfolding nibble_mask three_mask by (rule bit_word_eqI; auto simp: bit_simps)+
  note f = this
  from and1_cases [OF assms] show ?thesis
  proof
    assume a: "a AND 3 = 0"
    show ?thesis
      using f(1,2) assms unfolding extract_vabits4_from_vabits8_def extract_vabits2_from_vabits8_def Let_def al(3,4) a by simp
  next
    assume a: "a AND 3 = 2"
    show ?thesis
      using f(3,4) assms unfolding extract_vabits4_from_vabits8_def extract_vabits2_from_vabits8_def Let_def al(3,4) a by simp
  qed
qed

lemma insert4_split:
  assumes "a AND 1 = (0 :: Addr)" "n < 16"
  shows "\<exists>u. insert_vabits4_into_vabits8 a n w = Some u \<and>
    (\<forall>x. extract_vabits2_from_vabits8 x u = (if x AND 3 = a AND 3 then n AND 3 else
       if x AND 3 = (a AND 3) + 1 then drop_bit 2 n else extract_vabits2_from_vabits8 x w))"
proof -
  note al = aligned2 [OF assms(1)]
  have n: "bit n k \<Longrightarrow> k < 4" for k
  proof -
    assume "bit n k"
    have "unat n < 2 ^ 4" using assms(2) unfolding unat_less_iff by simp
    then have "take_bit 4 (unat n) = unat n" by (simp only: take_bit_nat_eq_self)
    then show "k < 4" using \<open>bit n k\<close> bit_take_bit_iff [of 4 "unat n" k] by (simp add: bit_unsigned_iff)
  qed
  have f: "3 AND drop_bit 0 (w AND NOT (push_bit 0 0xf) OR push_bit 0 n) = n AND 3"
    "3 AND drop_bit 2 (w AND NOT (push_bit 0 0xf) OR push_bit 0 n) = drop_bit 2 n"
    "3 AND drop_bit 4 (w AND NOT (push_bit 0 0xf) OR push_bit 0 n) = 3 AND drop_bit 4 w"
    "3 AND drop_bit 6 (w AND NOT (push_bit 0 0xf) OR push_bit 0 n) = 3 AND drop_bit 6 w"
    "3 AND drop_bit 0 (w AND NOT (push_bit 4 0xf) OR push_bit 4 n) = 3 AND drop_bit 0 w"
    "3 AND drop_bit 2 (w AND NOT (push_bit 4 0xf) OR push_bit 4 n) = 3 AND drop_bit 2 w"
    "3 AND drop_bit 4 (w AND NOT (push_bit 4 0xf) OR push_bit 4 n) = n AND 3"
    "3 AND drop_bit 6 (w AND NOT (push_bit 4 0xf) OR push_bit 4 n) = drop_bit 2 n"
    unfolding nibble_mask three_mask by (rule bit_word_eqI; auto simp: bit_simps dest: n)+
  show ?thesis
  proof (cases "a AND 3 = 0")
    case True
    let ?u = "w AND NOT (push_bit 0 0xf) OR push_bit 0 n"
    have "insert_vabits4_into_vabits8 a n w = Some ?u"
      using True al(4) assms(1) by (simp add: insert_vabits4_into_vabits8_def Let_def)
    moreover have "extract_vabits2_from_vabits8 x ?u = (if x AND 3 = a AND 3 then n AND 3 else
       if x AND 3 = (a AND 3) + 1 then drop_bit 2 n else extract_vabits2_from_vabits8 x w)" for x
      unfolding True extract_vabits2_from_vabits8_def Let_def
      by (cases x rule: and3_cases; simp only:; simp add: f [simplified])
    ultimately show ?thesis by blast
  next
    case False
    then have a2: "a AND 3 = 2" using and1_cases [OF assms(1)] by blast
    let ?u = "w AND NOT (push_bit 4 0xf) OR push_bit 4 n"
    have "insert_vabits4_into_vabits8 a n w = Some ?u"
      using a2 al(4) assms(1) by (simp add: insert_vabits4_into_vabits8_def Let_def)
    moreover have "extract_vabits2_from_vabits8 x ?u = (if x AND 3 = a AND 3 then n AND 3 else
       if x AND 3 = (a AND 3) + 1 then drop_bit 2 n else extract_vabits2_from_vabits8 x w)" for x
      unfolding a2 extract_vabits2_from_vabits8_def Let_def
      by (cases x rule: and3_cases; simp only:; simp add: f [simplified])
    ultimately show ?thesis by blast
  qed
qed

lemma two_bytes:
  assumes "P (a :: Addr)" "P (a + 1)" "i < 2"
  shows "P (a + of_nat i)"
  using assms by (cases i) (auto simp: less_Suc_eq numeral_2_eq_2)

lemma cell_low: "slot_ptr s (slot_of a) = p \<Longrightarrow> secmaps s p (SM_OFF a) = cell s a"
  by (simp add: cell_def contents_def)

lemma pair_va:
  assumes "a AND 1 = (0 :: Addr)"
  shows "va s a = extract_vabits2_from_vabits8 a (cell s a)" "va s (a + 1) = extract_vabits2_from_vabits8 (a + 1) (cell s a)"
  using cell_va [of "a + 1" a s] aligned2(2) [OF assms] by (simp_all add: va_def)

lemma ones8w: "bit (0xFF :: UWord) k \<longleftrightarrow> k < 8"
proof -
  have e: "(0xFF :: UWord) = mask 8" by (simp add: mask_eq_exp_minus_1)
  show ?thesis unfolding e by (auto simp: bit_simps)
qed

lemma va_neq: "VA_BITS2_DEFINED \<noteq> VA_BITS2_NOACCESS" "VA_BITS2_UNDEFINED \<noteq> VA_BITS2_NOACCESS"
  by (simp_all add: va_consts)

lemma mc_LOADV16_ok:
  assumes "mem_ok s"
  shows "\<exists>r s'. mc_LOADV16 a be s = Some (r, s') \<and> load_low_ok s a 2 be r s'"
proof -
  have slow: "\<exists>r s'. mc_LOADVn_slow a 16 be s = Some (r, s') \<and> load_low_ok s a 2 be r s'"
    using mc_LOADVn_slow_ok [OF assms, of 16 2] load_ok_low by fastforce
  show ?thesis
  proof (cases "UNALIGNED_OR_HIGH a 16")
    case False
    then have al: "a AND 1 = 0" "a \<le> MAX_PRIMARY_ADDRESS" using unaligned_or_high_sizes by auto
    obtain n where n: "extract_vabits4_from_vabits8 a (cell s a) = Some n" "va s a = n AND 3" "va s (a + 1) = drop_bit 2 n"
      using extract4_split [OF al(1), of "cell s a"] pair_va [OF al(1)] by auto
    have D: "load_low_ok s a 2 be V_BITS16_DEFINED s" if "va s a = VA_BITS2_DEFINED" "va s (a + 1) = VA_BITS2_DEFINED"
      by (rule load_low_uniform [OF assms, where w = V_BITS8_DEFINED])
        (use that view_uniform two_bytes [of "\<lambda>x. view s x = Some V_BITS8_DEFINED" a] in \<open>auto simp: V_BITS16_DEFINED_def\<close>)
    have U: "load_low_ok s a 2 be V_BITS16_UNDEFINED s" if "va s a = VA_BITS2_UNDEFINED" "va s (a + 1) = VA_BITS2_UNDEFINED"
      by (rule load_low_uniform [OF assms, where w = V_BITS8_UNDEFINED])
        (use that view_uniform two_bytes [of "\<lambda>x. view s x = Some V_BITS8_UNDEFINED" a] in \<open>auto simp: V_BITS16_UNDEFINED_def ones16 simp del: bit_numeral_word_iff\<close>)
    have "cell s a = VA_BITS8_DEFINED \<Longrightarrow> va s a = VA_BITS2_DEFINED \<and> va s (a + 1) = VA_BITS2_DEFINED"
      "cell s a = VA_BITS8_UNDEFINED \<Longrightarrow> va s a = VA_BITS2_UNDEFINED \<and> va s (a + 1) = VA_BITS2_UNDEFINED"
      using pair_va [OF al(1)] by (simp_all add: extract_uniform)
    moreover have "n = VA_BITS4_DEFINED \<Longrightarrow> va s a = VA_BITS2_DEFINED \<and> va s (a + 1) = VA_BITS2_DEFINED"
      "n = VA_BITS4_UNDEFINED \<Longrightarrow> va s a = VA_BITS2_UNDEFINED \<and> va s (a + 1) = VA_BITS2_UNDEFINED"
      using n by (simp_all add: v_consts va_consts)
    ultimately show ?thesis
      using False slow n(1) D U unfolding mc_LOADV16_def secmap_low [OF al(2)] Let_def cell_low [OF refl] by auto
  qed (use slow in \<open>simp add: mc_LOADV16_def\<close>)
qed

lemma helperc_LOADV8_ok:
  assumes "mem_ok s"
  shows "\<exists>r s'. helperc_LOADV8 a s = Some (r, s') \<and> load_low_ok s a 1 False r s'"
proof -
  have slow: "\<exists>r s'. mc_LOADVn_slow a 8 False s = Some (r, s') \<and> load_low_ok s a 1 False r s'"
    using mc_LOADVn_slow_ok [OF assms, of 8 1] load_ok_low by fastforce
  show ?thesis
  proof (cases "UNALIGNED_OR_HIGH a 8")
    case False
    then have al: "a \<le> MAX_PRIMARY_ADDRESS" using unaligned_or_high_sizes by auto
    have D: "load_low_ok s a 1 False (ucast V_BITS8_DEFINED) s" if "va s a = VA_BITS2_DEFINED"
      by (rule load_low_uniform [OF assms, where w = V_BITS8_DEFINED])
        (use that view_uniform in \<open>auto simp: va_consts\<close>)
    have U: "load_low_ok s a 1 False (ucast V_BITS8_UNDEFINED) s" if "va s a = VA_BITS2_UNDEFINED"
      by (rule load_low_uniform [OF assms, where w = V_BITS8_UNDEFINED])
        (use that view_uniform in \<open>auto simp: bit_simps V_BITS8_UNDEFINED_def ones8w simp del: bit_numeral_word_iff\<close>)
    have "cell s a = VA_BITS8_DEFINED \<Longrightarrow> va s a = VA_BITS2_DEFINED"
      "cell s a = VA_BITS8_UNDEFINED \<Longrightarrow> va s a = VA_BITS2_UNDEFINED"
      by (simp_all add: extract_uniform va_def)
    then show ?thesis
      using False slow D U unfolding helperc_LOADV8_def secmap_low [OF al] Let_def cell_low [OF refl] va_def by auto
  qed (use slow in \<open>simp add: helperc_LOADV8_def\<close>)
qed

lemma mc_STOREV16_ok:
  assumes "mem_ok s" "alloc_ok s"
  shows "\<exists>s'. mc_STOREV16 a v be s = Some s' \<and> store_ok s a 2 be v s'"
proof -
  have slow: "\<exists>s'. mc_STOREVn_slow a 16 v be s = Some s' \<and> store_ok s a 2 be v s'"
    using mc_STOREVn_slow_ok [OF assms, of 16 2] by simp
  have mc: "mc_ok s" using assms(1) by (simp add: mem_ok_def)
  show ?thesis
  proof (cases "UNALIGNED_OR_HIGH a 16 \<or> is_distinguished_sm (slot_ptr s (slot_of a)) \<or> (cell s a \<noteq> VA_BITS8_DEFINED \<and> cell s a \<noteq> VA_BITS8_UNDEFINED)")
    case False
    then have al: "a AND 1 = 0" "a \<le> MAX_PRIMARY_ADDRESS" using unaligned_or_high_sizes by auto
    obtain n where p: "slot_ptr s (slot_of a) = Sm n" using False not_distinguished by blast
    have acc: "view s (byte_at a 2 be i) \<noteq> None" if "i < 2" for i
    proof -
      have "view s a \<noteq> None" "view s (a + 1) \<noteq> None"
        using False pair_va [OF al(1), of s] view_uniform [of s a] view_uniform [of s "a + 1"] by (auto simp: extract_uniform)
      then show ?thesis using byte_at_range [OF that, of a be] two_bytes [of "\<lambda>x. view s x \<noteq> None" a] by metis
    qed
    have pair: "(\<exists>i < 2. x = a + of_nat i) \<longleftrightarrow> unat x div 4 = unat a div 4 \<and> (x AND 3 = a AND 3 \<or> x AND 3 = (a AND 3) + 1)" for x
    proof -
      have "(\<exists>i < 2. x = a + of_nat i) \<longleftrightarrow> x = a \<or> x = a + 1" by (auto simp: less_Suc_eq numeral_2_eq_2)
      moreover have "unat x div 4 = unat a div 4 \<Longrightarrow> x AND 3 = a AND 3 \<Longrightarrow> x = a"
        using addr_eqI [of x a] cell_index [of x a] by simp
      moreover have "unat x div 4 = unat a div 4 \<Longrightarrow> x AND 3 = (a AND 3) + 1 \<Longrightarrow> x = a + 1"
        using addr_eqI [of x "a + 1"] cell_index [of x "a + 1"] aligned2 [OF al(1)] by simp
      ultimately show ?thesis using aligned2(2,3) [OF al(1)] by metis
    qed
    have wr: "\<exists>u. insert_vabits4_into_vabits8 a w4 (cell s a) = Some u \<and> store_ok s a 2 be v' (write_secmap (Sm n) (SM_OFF a) u s)"
      if "w4 < 16" "w4 AND 3 = w2" "drop_bit 2 w4 = w2"
        "w2 = VA_BITS2_DEFINED \<and> w8 = V_BITS8_DEFINED \<or> w2 = VA_BITS2_UNDEFINED \<and> w8 = V_BITS8_UNDEFINED"
        "\<And>i. i < 2 \<Longrightarrow> ucast (drop_bit (8 * i) v') = w8" for w4 w2 w8 v'
    proof -
      note w4 = that
      obtain u where u: "insert_vabits4_into_vabits8 a w4 (cell s a) = Some u"
         "\<forall>x. extract_vabits2_from_vabits8 x u = (if x AND 3 = a AND 3 then w2 else
           if x AND 3 = (a AND 3) + 1 then w2 else extract_vabits2_from_vabits8 x (cell s a))"
        using insert4_split [OF al(1) w4(1), of "cell s a"] w4(2,3) by auto
      have "va (write_secmap (Sm n) (SM_OFF a) u s) = (\<lambda>x. if \<exists>i < 2. x = a + of_nat i then w2 else va s x)"
        unfolding fun_eq_iff write_cell_va [OF mc p] pair using u(2) cell_va [of _ a s] by auto
      then have "store_ok s a 2 be v' (write_secmap (Sm n) (SM_OFF a) u s)"
        using store_ok_uniform [OF assms(1) _ _ _ that(4) acc that(5)] write_secmap_ok [OF mc p] by blast
      then show ?thesis using u(1) by blast
    qed
    have "ucast (drop_bit (8 * i) V_BITS16_UNDEFINED) = V_BITS8_UNDEFINED" if "i < 2" for i
      by (rule bit_word_eqI) (use that in \<open>auto simp: bit_simps v_consts va_consts ones16 ones8 simp del: bit_numeral_word_iff\<close>)
    then have "\<exists>u. insert_vabits4_into_vabits8 a VA_BITS4_DEFINED (cell s a) = Some u \<and> store_ok s a 2 be V_BITS16_DEFINED (write_secmap (Sm n) (SM_OFF a) u s)"
      "\<exists>u. insert_vabits4_into_vabits8 a VA_BITS4_UNDEFINED (cell s a) = Some u \<and> store_ok s a 2 be V_BITS16_UNDEFINED (write_secmap (Sm n) (SM_OFF a) u s)"
      using wr [of VA_BITS4_DEFINED VA_BITS2_DEFINED V_BITS8_DEFINED V_BITS16_DEFINED]
        wr [of VA_BITS4_UNDEFINED VA_BITS2_UNDEFINED V_BITS8_UNDEFINED V_BITS16_UNDEFINED]
      by (simp_all add: v_consts va_consts)
    then show ?thesis
      using False slow p unfolding mc_STOREV16_def secmap_low [OF al(2)] Let_def cell_low [OF refl] by auto
  next
    case True
    show ?thesis
    proof (cases "UNALIGNED_OR_HIGH a 16")
      case False
      then have "a \<le> MAX_PRIMARY_ADDRESS" using unaligned_or_high_sizes by auto
      then show ?thesis
        using True False slow unfolding mc_STOREV16_def Let_def by (auto simp: secmap_low cell_low [OF refl])
    qed (use slow in \<open>simp add: mc_STOREV16_def\<close>)
  qed
qed

lemma helperc_STOREV8_ok:
  assumes "mem_ok s" "alloc_ok s"
  shows "\<exists>s'. helperc_STOREV8 a v s = Some s' \<and> store_ok s a 1 False v s'"
proof -
  have slow: "\<exists>s'. mc_STOREVn_slow a 8 v False s = Some s' \<and> store_ok s a 1 False v s'"
    using mc_STOREVn_slow_ok [OF assms, of 8 1] by simp
  have mc: "mc_ok s" using assms(1) by (simp add: mem_ok_def)
  show ?thesis
  proof (cases "UNALIGNED_OR_HIGH a 8")
    case False
    then have al: "a \<le> MAX_PRIMARY_ADDRESS" using unaligned_or_high_sizes by auto
    let ?p = "slot_ptr s (slot_of a)"
    have nz: "va s a \<noteq> VA_BITS2_NOACCESS" if "(VA_BITS8_DEFINED = cell s a \<or> VA_BITS8_UNDEFINED = cell s a) \<or>
            VA_BITS2_NOACCESS \<noteq> extract_vabits2_from_vabits8 a (cell s a)"
      using that unfolding va_def by (elim disjE) (auto simp: extract_uniform va_neq)
    have wr: "store_ok s a 1 False v' (write_secmap ?p (SM_OFF a) (insert_vabits2_into_vabits8 a w2 (cell s a)) s)"
      if "\<not> is_distinguished_sm ?p" "va s a \<noteq> VA_BITS2_NOACCESS"
       "w2 = VA_BITS2_DEFINED \<and> w8 = V_BITS8_DEFINED \<or> w2 = VA_BITS2_UNDEFINED \<and> w8 = V_BITS8_UNDEFINED"
       "ucast v' = w8" for w2 w8 v'
    proof -
      have "\<exists>n. ?p = Sm n" using that(1) not_distinguished by blast
      then obtain n where p: "?p = Sm n" by blast
      have "w2 \<le> 3" using that(3) by (auto simp: va_consts)
      then have w: "va (write_secmap ?p (SM_OFF a) (insert_vabits2_into_vabits8 a w2 (cell s a)) s) = (va s)(a := w2)"
        using insert_vabits2_va [OF mc p] p unfolding cell_low [OF p] by simp
      have "view s a \<noteq> None"
        using that(2) assms(1) by (cases rule: va_cases [of s a]) (auto simp: view_def mem_ok_def va_consts)
      then show ?thesis
        by (intro store_ok_uniform [OF assms(1) _ _ _ that(3)]) (use that(4) w write_secmap_ok [OF mc p] p in \<open>auto simp: byte_at_def\<close>)
    qed
    have "store_ok s a 1 False (ucast V_BITS8_DEFINED) (write_secmap ?p (SM_OFF a) (insert_vabits2_into_vabits8 a VA_BITS2_DEFINED (cell s a)) s) \<and>
        store_ok s a 1 False (ucast V_BITS8_UNDEFINED) (write_secmap ?p (SM_OFF a) (insert_vabits2_into_vabits8 a VA_BITS2_UNDEFINED (cell s a)) s)"
      if "\<not> is_distinguished_sm ?p" "va s a \<noteq> VA_BITS2_NOACCESS"
      by (intro conjI; rule wr [OF that]) (auto simp: va_consts)
    then show ?thesis
      using False slow nz unfolding helperc_STOREV8_def secmap_low [OF al] Let_def cell_low [OF refl] by auto
  qed (use slow in \<open>simp add: helperc_STOREV8_def\<close>)
qed

subsection \<open>Properties\<close>

text \<open>C38. The single mask test in front of every fast path is exact: it lets an access through
  precisely when the address is aligned to the access size and covered by the primary map.\<close>

theorem UNALIGNED_OR_HIGH_exact:
  "(\<not> UNALIGNED_OR_HIGH a 64 \<longleftrightarrow> unat a mod 8 = 0 \<and> a \<le> MAX_PRIMARY_ADDRESS) \<and>
   (\<not> UNALIGNED_OR_HIGH a 32 \<longleftrightarrow> unat a mod 4 = 0 \<and> a \<le> MAX_PRIMARY_ADDRESS) \<and>
   (\<not> UNALIGNED_OR_HIGH a 16 \<longleftrightarrow> unat a mod 2 = 0 \<and> a \<le> MAX_PRIMARY_ADDRESS) \<and>
   (\<not> UNALIGNED_OR_HIGH a 8 \<longleftrightarrow> a \<le> MAX_PRIMARY_ADDRESS)"
proof -
  have "a AND 7 = 0 \<longleftrightarrow> unat a mod 8 = 0" "a AND 3 = 0 \<longleftrightarrow> unat a mod 4 = 0" "a AND 1 = 0 \<longleftrightarrow> unat a mod 2 = 0"
    unfolding unat_eq_iff [of "a AND _" 0] unat_and_7 unat_and_3 unat_and_1 by simp_all
  then show ?thesis using unaligned_or_high_sizes [of a] by (metis not_le)
qed

text \<open>C34. Each load helper for instrumented code returns the V bits of the bytes it covers, in the
  byte order of the access, leaves memory as it is and reports the same address errors as the
  byte-wise definition, whether it answers from the primary map or through the slow case. The
  64 and 32 bit helpers also set the unused high bits to undefined.\<close>

theorem load_helpers_correct:
  assumes "mem_ok s"
  shows "(\<exists>r s'. mc_LOADV64 a be s = Some (r, s') \<and> load_ok s a 8 be r s') \<and>
    (\<exists>r s'. mc_LOADV32 a be s = Some (r, s') \<and> load_ok s a 4 be r s') \<and>
    (\<exists>r s'. mc_LOADV16 a be s = Some (r, s') \<and> load_low_ok s a 2 be r s') \<and>
    (\<exists>r s'. helperc_LOADV8 a s = Some (r, s') \<and> load_low_ok s a 1 False r s')"
  using mc_LOADV64_ok [OF assms] mc_LOADV32_ok [OF assms] mc_LOADV16_ok [OF assms] helperc_LOADV8_ok [OF assms] by blast

theorem load_helpers_correct_witness:
  "\<exists>r s'. helperc_LOADV8 0x1000 sample_mem = Some (r, s') \<and> bit r 0 \<and> bit r 7 \<and> view s' = [0x1000 \<mapsto> V_BITS8_UNDEFINED]"
proof -
  from load_helpers_correct [OF sample_mem_ok(1), of "0x1000" False] obtain r s' where
    r: "helperc_LOADV8 0x1000 sample_mem = Some (r, s')" "load_low_ok sample_mem 0x1000 1 False r s'" by blast
  have "bit r k" if "k < 8" for k
    using r(2) that by (simp add: load_low_ok_def vb_def byte_at_def sample_mem_ok(3) V_BITS8_UNDEFINED_def ones8 del: bit_numeral_word_iff)
  then show ?thesis using r by (auto simp: load_low_ok_def sample_mem_ok(3))
qed

text \<open>C35. Each store helper writes the bytes of its operand to the accessible bytes it covers, in
  the byte order of the access, changes no other byte, keeps the invariant and reports the same
  address errors as the byte-wise definition, on every fast and slow path.\<close>

theorem store_helpers_correct:
  assumes "mem_ok s" "alloc_ok s"
  shows "(\<exists>s'. mc_STOREV64 a v be s = Some s' \<and> store_ok s a 8 be v s') \<and>
    (\<exists>s'. mc_STOREV32 a v be s = Some s' \<and> store_ok s a 4 be v s') \<and>
    (\<exists>s'. mc_STOREV16 a v be s = Some s' \<and> store_ok s a 2 be v s') \<and>
    (\<exists>s'. helperc_STOREV8 a v s = Some s' \<and> store_ok s a 1 False v s')"
  using mc_STOREV64_ok [OF assms] mc_STOREV32_ok [OF assms] mc_STOREV16_ok [OF assms] helperc_STOREV8_ok [OF assms] by blast

theorem store_helpers_correct_witness:
  "\<exists>s'. helperc_STOREV8 0x1000 0 sample_mem = Some s' \<and> mem_ok s' \<and> view s' 0x1000 = Some 0"
proof -
  from store_helpers_correct [OF sample_mem_ok(1,2), of "0x1000" 0 False] obtain s' where
    s': "helperc_STOREV8 0x1000 0 sample_mem = Some s'" "store_ok sample_mem 0x1000 1 False 0 s'" by blast
  then show ?thesis by (auto simp: store_ok_def stored_def byte_at_def sample_mem_ok(3))
qed

end
