(* ===== verification/MemPerms.thy ===== *)
theory MemPerms
  imports VBits
begin

text \<open>
  Permissions over address ranges, \<^verbatim>\<open>memcheck/mc_main.c\<close>: \<^verbatim>\<open>set_address_range_perms\<close> with its
  three parts (partial first map, whole maps, partial last map), the operations built on it, the
  copying of the state of a range, and the checks of a range.
\<close>

lemma word_dec_measure: "\<not> (n::'a::len word) < k \<Longrightarrow> k \<noteq> 0 \<Longrightarrow> unat (n - k) < unat n"
proof -
  assume "\<not> n < k" "k \<noteq> 0"
  then have "unat (n - k) = unat n - unat k" "unat k \<le> unat n" "unat k \<noteq> 0"
    by (simp_all add: unat_sub unat_le_iff [symmetric] not_less unat_eq_0)
  then show ?thesis by linarith
qed

subsection \<open>The loops of \<^verbatim>\<open>set_address_range_perms\<close>\<close>

text \<open>One byte steps up to an 8-aligned address (\<^verbatim>\<open>loop1a\<close>).\<close>

function sarp_loop1a :: "SecMapPtr \<Rightarrow> UChar \<Rightarrow> Addr \<Rightarrow> SizeT \<Rightarrow> mc_state \<Rightarrow> Addr \<times> SizeT \<times> mc_state" where
  "sarp_loop1a sm vabits2 a lenA s =
     (if a AND 7 = 0 then (a, lenA, s)
      else if lenA < 1 then (a, lenA, s)
      else sarp_loop1a sm vabits2 (a + 1) (lenA - 1)
        (write_secmap sm (SM_OFF a) (insert_vabits2_into_vabits8 a vabits2 (secmaps s sm (SM_OFF a))) s))"
  by pat_completeness auto
termination by (relation "measure (\<lambda>(sm, v, a, lenA, s). unat lenA)") (simp_all add: word_dec_measure)

text \<open>8-aligned, eight byte steps (\<^verbatim>\<open>loop8a\<close>, \<^verbatim>\<open>loop8b\<close>).\<close>

function sarp_loop8 :: "SecMapPtr \<Rightarrow> UShort \<Rightarrow> Addr \<Rightarrow> SizeT \<Rightarrow> mc_state \<Rightarrow> Addr \<times> SizeT \<times> mc_state" where
  "sarp_loop8 sm vabits16 a lenA s =
     (if lenA < 8 then (a, lenA, s)
      else sarp_loop8 sm vabits16 (a + 8) (lenA - 8) (write_vabits16 sm (SM_OFF_16 a) vabits16 s))"
  by pat_completeness auto
termination by (relation "measure (\<lambda>(sm, v, a, lenA, s). unat lenA)") (simp_all add: word_dec_measure)

text \<open>One byte steps to the end (\<^verbatim>\<open>loop1b\<close>, \<^verbatim>\<open>loop1c\<close>).\<close>

function sarp_loop1b :: "SecMapPtr \<Rightarrow> UChar \<Rightarrow> Addr \<Rightarrow> SizeT \<Rightarrow> mc_state \<Rightarrow> Addr \<times> mc_state" where
  "sarp_loop1b sm vabits2 a lenA s =
     (if lenA < 1 then (a, s)
      else sarp_loop1b sm vabits2 (a + 1) (lenA - 1)
        (write_secmap sm (SM_OFF a) (insert_vabits2_into_vabits8 a vabits2 (secmaps s sm (SM_OFF a))) s))"
  by pat_completeness auto
termination by (relation "measure (\<lambda>(sm, v, a, lenA, s). unat lenA)") (simp_all add: word_dec_measure)

declare sarp_loop1a.simps [simp del] sarp_loop8.simps [simp del] sarp_loop1b.simps [simp del]

text \<open>\<^verbatim>\<open>VG_(am_munmap_valgrind)((Addr)*sm_ptr, sizeof(SecMap))\<close>\<close>

fun free_secmap :: "SecMapPtr \<Rightarrow> mc_state \<Rightarrow> mc_state" where
  "free_secmap (Sm n) s = s\<lparr>sm_freed := n # sm_freed s\<rparr>"
| "free_secmap (Dsm i) s = s"

text \<open>Whole secondary maps (\<^verbatim>\<open>loop64K\<close>).\<close>

function sarp_loop64K :: "nat \<Rightarrow> Addr \<Rightarrow> SizeT \<Rightarrow> mc_state \<Rightarrow> (Addr \<times> SizeT \<times> mc_state) option" where
  "sarp_loop64K dsm_num a lenB s =
     (if lenB < SM_SIZE then Some (a, lenB, s)
      else do {
        vg_assert (is_start_of_sm a);
        (sm_ptr, s) \<leftarrow> get_secmap_ptr a s;
        sm \<leftarrow> read_slot sm_ptr s;
        let s = (if \<not> is_distinguished_sm sm then free_secmap sm s else s);
        let s = update_SM_counts sm (Dsm dsm_num) s;
        sarp_loop64K dsm_num (a + SM_SIZE) (lenB - SM_SIZE) (write_slot sm_ptr (Dsm dsm_num) s) })"
  by pat_completeness auto
termination by (relation "measure (\<lambda>(d, a, lenB, s). unat lenB)") (simp_all add: word_dec_measure SM_SIZE_def)

declare sarp_loop64K.simps [simp del]

subsection \<open>\<^verbatim>\<open>set_address_range_perms\<close>\<close>

text \<open>Part 1: the first secondary map, starting at \<open>a\<close>. The result is the address reached.\<close>

definition sarp_part1 :: "Addr \<Rightarrow> Addr \<Rightarrow> SizeT \<Rightarrow> UShort \<Rightarrow> UChar \<Rightarrow> nat \<Rightarrow> mc_state \<Rightarrow> (Addr \<times> mc_state) option" where
  "sarp_part1 a aNext lenA vabits16 vabits2 dsm_num s = do {
     (sm_ptr, s) \<leftarrow> get_secmap_ptr a s;
     sm \<leftarrow> read_slot sm_ptr s;
     (a, lenA, s) \<leftarrow>
       (if is_distinguished_sm sm then
          (if sm = Dsm dsm_num then Some (aNext, 0, s)
           else do { (sm', s) \<leftarrow> copy_for_writing sm s; Some (a, lenA, write_slot sm_ptr sm' s) })
        else Some (a, lenA, s));
     sm \<leftarrow> read_slot sm_ptr s;
     let (a, lenA, s) = sarp_loop1a sm vabits2 a lenA s;
     let (a, lenA, s) = sarp_loop8 sm vabits16 a lenA s;
     Some (sarp_loop1b sm vabits2 a lenA s) }"

text \<open>Parts 2 and 3: whole maps, then the partial last one.\<close>

definition sarp_part2 :: "Addr \<Rightarrow> SizeT \<Rightarrow> UShort \<Rightarrow> UChar \<Rightarrow> nat \<Rightarrow> mc_state \<Rightarrow> mc_state option" where
  "sarp_part2 a lenB vabits16 vabits2 dsm_num s = do {
     (a, lenB, s) \<leftarrow> sarp_loop64K dsm_num a lenB s;
     if lenB = 0 then Some s
     else do {
       vg_assert (is_start_of_sm a \<and> lenB < SM_SIZE);
       (sm_ptr, s) \<leftarrow> get_secmap_ptr a s;
       sm \<leftarrow> read_slot sm_ptr s;
       if is_distinguished_sm sm \<and> sm = Dsm dsm_num then Some s
       else do {
         s \<leftarrow> (if is_distinguished_sm sm then do {
                 (sm', s) \<leftarrow> copy_for_writing sm s; Some (write_slot sm_ptr sm' s) }
               else Some s);
         sm \<leftarrow> read_slot sm_ptr s;
         let (a, lenB, s) = sarp_loop8 sm vabits16 a lenB s;
         Some (snd (sarp_loop1b sm vabits2 a lenB s)) } } }"

definition set_address_range_perms :: "Addr \<Rightarrow> SizeT \<Rightarrow> UShort \<Rightarrow> nat \<Rightarrow> mc_state \<Rightarrow> mc_state option" where
  "set_address_range_perms a lenT vabits16 dsm_num s = do {
     let vabits2 = (ucast (vabits16 AND 3) :: UChar);
     vg_assert (VA_BITS16_NOACCESS = vabits16 \<or> VA_BITS16_UNDEFINED = vabits16 \<or> VA_BITS16_DEFINED = vabits16);
     vg_assert (VA_BITS2_PARTDEFINED \<noteq> vabits2);
     if lenT = 0 then Some s
     else do {
       let aNext = start_of_this_sm a + SM_SIZE;
       let len_to_next_secmap = aNext - a;
       if lenT \<le> len_to_next_secmap then do {
         (a, s) \<leftarrow> sarp_part1 a aNext lenT vabits16 vabits2 dsm_num s;
         Some s }
       else if is_start_of_sm a then sarp_part2 a lenT vabits16 vabits2 dsm_num s
       else do {
         let lenA = len_to_next_secmap;
         let lenB = lenT - lenA;
         (a, s) \<leftarrow> sarp_part1 a aNext lenA vabits16 vabits2 dsm_num s;
         if lenB = 0 then Some s else sarp_part2 a lenB vabits16 vabits2 dsm_num s } } }"

subsection \<open>The operations built on it\<close>

definition make_mem_noaccess :: "Addr \<Rightarrow> SizeT \<Rightarrow> mc_state \<Rightarrow> mc_state option" where
  "make_mem_noaccess a len s = do {
     s \<leftarrow> set_address_range_perms a len VA_BITS16_NOACCESS SM_DIST_NOACCESS s;
     Some (if clo_mc_level s = 3 then s\<lparr>ocache_calls := ocache_calls s @ [ocache_sarp_Clear_Origins a len]\<rparr> else s) }"

definition make_mem_undefined :: "Addr \<Rightarrow> SizeT \<Rightarrow> mc_state \<Rightarrow> mc_state option" where
  "make_mem_undefined a len s = set_address_range_perms a len VA_BITS16_UNDEFINED SM_DIST_UNDEFINED s"

definition make_mem_undefined_w_otag :: "Addr \<Rightarrow> SizeT \<Rightarrow> UInt \<Rightarrow> mc_state \<Rightarrow> mc_state option" where
  "make_mem_undefined_w_otag a len otag s = do {
     s \<leftarrow> set_address_range_perms a len VA_BITS16_UNDEFINED SM_DIST_UNDEFINED s;
     Some (if clo_mc_level s = 3 then s\<lparr>ocache_calls := ocache_calls s @ [ocache_sarp_Set_Origins a len otag]\<rparr> else s) }"

definition make_mem_defined :: "Addr \<Rightarrow> SizeT \<Rightarrow> mc_state \<Rightarrow> mc_state option" where
  "make_mem_defined a len s = do {
     s \<leftarrow> set_address_range_perms a len VA_BITS16_DEFINED SM_DIST_DEFINED s;
     Some (if clo_mc_level s = 3 then s\<lparr>ocache_calls := ocache_calls s @ [ocache_sarp_Clear_Origins a len]\<rparr> else s) }"

text \<open>The loop of \<^verbatim>\<open>make_mem_defined_if_addressable\<close>, with the number of bytes left and the
  address of the next one.\<close>

fun defined_if_addressable_loop :: "nat \<Rightarrow> Addr \<Rightarrow> mc_state \<Rightarrow> mc_state option" where
  "defined_if_addressable_loop 0 a s = Some s"
| "defined_if_addressable_loop (Suc k) a s = do {
     (vabits2, s) \<leftarrow> get_vabits2 a s;
     s \<leftarrow> (if VA_BITS2_NOACCESS \<noteq> vabits2 then do {
             s \<leftarrow> set_vabits2 a VA_BITS2_DEFINED s;
             Some (if clo_mc_level s \<ge> 3 then s\<lparr>ocache_calls := ocache_calls s @ [helperc_b_store1 a 0]\<rparr> else s) }
           else Some s);
     defined_if_addressable_loop k (a + 1) s }"

definition make_mem_defined_if_addressable :: "Addr \<Rightarrow> SizeT \<Rightarrow> mc_state \<Rightarrow> mc_state option" where
  "make_mem_defined_if_addressable a len s = defined_if_addressable_loop (unat len) a s"

subsection \<open>Copying the state of a range\<close>

definition copy_sec_if_partdefined :: "Addr \<Rightarrow> Addr \<Rightarrow> mc_state \<Rightarrow> mc_state option" where
  "copy_sec_if_partdefined src dst s = do {
     (vabits2, s) \<leftarrow> get_vabits2 src s;
     if VA_BITS2_PARTDEFINED = vabits2 then do {
       v \<leftarrow> get_sec_vbits8 src s;
       set_sec_vbits8 dst v s }
     else Some s }"

definition copy_byte_state :: "Addr \<Rightarrow> Addr \<Rightarrow> mc_state \<Rightarrow> mc_state option" where
  "copy_byte_state src dst s = do {
     (vabits2, s) \<leftarrow> get_vabits2 src s;
     s \<leftarrow> set_vabits2 dst vabits2 s;
     if VA_BITS2_PARTDEFINED = vabits2 then do {
       v \<leftarrow> get_sec_vbits8 src s;
       set_sec_vbits8 dst v s }
     else Some s }"

definition copy_word32_state :: "Addr \<Rightarrow> Addr \<Rightarrow> mc_state \<Rightarrow> mc_state option" where
  "copy_word32_state src dst s = do {
     (v8, s) \<leftarrow> get_vabits8_for_aligned_word32 src s;
     s \<leftarrow> set_vabits8_for_aligned_word32 dst v8 s;
     if VA_BITS8_DEFINED = v8 \<or> VA_BITS8_UNDEFINED = v8 \<or> VA_BITS8_NOACCESS = v8 then Some s
     else do {
       s \<leftarrow> copy_sec_if_partdefined (src + 0) (dst + 0) s;
       s \<leftarrow> copy_sec_if_partdefined (src + 1) (dst + 1) s;
       s \<leftarrow> copy_sec_if_partdefined (src + 2) (dst + 2) s;
       copy_sec_if_partdefined (src + 3) (dst + 3) s } }"

text \<open>The vector loop and its fixup, ascending over \<open>i\<close>.\<close>

function copy_vector_loop :: "Addr \<Rightarrow> Addr \<Rightarrow> SizeT \<Rightarrow> SizeT \<Rightarrow> mc_state \<Rightarrow> (SizeT \<times> SizeT \<times> mc_state) option" where
  "copy_vector_loop src dst i len s =
     (if len \<ge> 4 then do {
        s \<leftarrow> copy_word32_state (src + i) (dst + i) s;
        copy_vector_loop src dst (i + 4) (len - 4) s }
      else Some (i, len, s))"
  by pat_completeness auto
termination by (relation "measure (\<lambda>(src, dst, i, len, s). unat len)") (simp_all add: word_dec_measure not_less)

declare copy_vector_loop.simps [simp del]

fun copy_up_loop :: "nat \<Rightarrow> Addr \<Rightarrow> Addr \<Rightarrow> SizeT \<Rightarrow> mc_state \<Rightarrow> mc_state option" where
  "copy_up_loop 0 src dst i s = Some s"
| "copy_up_loop (Suc k) src dst i s = do {
     s \<leftarrow> copy_byte_state (src + i) (dst + i) s;
     copy_up_loop k src dst (i + 1) s }"

fun copy_down_loop :: "nat \<Rightarrow> Addr \<Rightarrow> Addr \<Rightarrow> SizeT \<Rightarrow> mc_state \<Rightarrow> mc_state option" where
  "copy_down_loop 0 src dst j s = Some s"
| "copy_down_loop (Suc k) src dst j s = do {
     s \<leftarrow> copy_byte_state (src + j) (dst + j) s;
     copy_down_loop k src dst (j - 1) s }"

definition copy_address_range_state :: "Addr \<Rightarrow> Addr \<Rightarrow> SizeT \<Rightarrow> mc_state \<Rightarrow> mc_state option" where
  "copy_address_range_state src dst len s =
     (if len = 0 \<or> src = dst then Some s
      else let aligned = (src AND 3 = 0 \<and> dst AND 3 = 0);
               nooverlap = (src + len \<le> dst \<or> dst + len \<le> src) in
        if nooverlap \<and> aligned then do {
          (i, len, s) \<leftarrow> copy_vector_loop src dst 0 len s;
          copy_up_loop (unat len) src dst i s }
        else if src < dst then copy_down_loop (unat len) src dst (len - 1) s
        else copy_up_loop (unat len) src dst 0 s)"

subsection \<open>Checking a range\<close>

fun check_noaccess_loop :: "nat \<Rightarrow> Addr \<Rightarrow> mc_state \<Rightarrow> (Addr option \<times> mc_state) option" where
  "check_noaccess_loop 0 a s = Some (None, s)"
| "check_noaccess_loop (Suc k) a s = do {
     (vabits2, s) \<leftarrow> get_vabits2 a s;
     if VA_BITS2_NOACCESS \<noteq> vabits2 then Some (Some a, s) else check_noaccess_loop k (a + 1) s }"

text \<open>The result is the value returned with what is written to \<^verbatim>\<open>*bad_addr\<close>.\<close>

definition check_mem_is_noaccess :: "Addr \<Rightarrow> SizeT \<Rightarrow> mc_state \<Rightarrow> (bool \<times> Addr option \<times> mc_state) option" where
  "check_mem_is_noaccess a len s = do {
     (bad, s) \<leftarrow> check_noaccess_loop (unat len) a s;
     Some (bad = None, bad, s) }"

fun addressable_loop :: "nat \<Rightarrow> Addr \<Rightarrow> mc_state \<Rightarrow> (Addr option \<times> mc_state) option" where
  "addressable_loop 0 a s = Some (None, s)"
| "addressable_loop (Suc k) a s = do {
     (vabits2, s) \<leftarrow> get_vabits2 a s;
     if VA_BITS2_NOACCESS = vabits2 then Some (Some a, s) else addressable_loop k (a + 1) s }"

definition is_mem_addressable :: "Addr \<Rightarrow> SizeT \<Rightarrow> mc_state \<Rightarrow> (bool \<times> Addr option \<times> mc_state) option" where
  "is_mem_addressable a len s = do {
     (bad, s) \<leftarrow> addressable_loop (unat len) a s;
     Some (bad = None, bad, s) }"

datatype MC_ReadResult = MC_Ok | MC_AddrErr | MC_ValueErr

fun is_mem_defined_loop :: "nat \<Rightarrow> Addr \<Rightarrow> Addr \<Rightarrow> mc_state \<Rightarrow> (MC_ReadResult \<times> Addr \<times> mc_state) option" where
  "is_mem_defined_loop 0 a bad_addr s = Some (MC_Ok, bad_addr, s)"
| "is_mem_defined_loop (Suc k) a bad_addr s = do {
     (vabits2, s) \<leftarrow> get_vabits2 a s;
     if VA_BITS2_DEFINED \<noteq> vabits2 then
       (if VA_BITS2_NOACCESS = vabits2 then Some (MC_AddrErr, a, s)
        else if clo_mc_level s \<ge> 2 then Some (MC_ValueErr, a, s)
        else is_mem_defined_loop k (a + 1) a s)
     else is_mem_defined_loop k (a + 1) bad_addr s }"

text \<open>Called with \<^verbatim>\<open>otag == NULL\<close>; the result carries what ends up in \<^verbatim>\<open>*bad_addr\<close>.\<close>

definition is_mem_defined :: "Addr \<Rightarrow> SizeT \<Rightarrow> mc_state \<Rightarrow> (MC_ReadResult \<times> Addr \<times> mc_state) option" where
  "is_mem_defined a len s = is_mem_defined_loop (unat len) a 0 s"

text \<open>\<^verbatim>\<open>mc_is_defined_asciiz\<close> walks to the terminating zero of a string; \<open>mem\<close> is the client's
  memory. The loop may not end, and then has no result.\<close>

partial_function (option) is_defined_asciiz_loop ::
    "(Addr \<Rightarrow> UChar) \<Rightarrow> Addr \<Rightarrow> Addr \<Rightarrow> mc_state \<Rightarrow> (MC_ReadResult \<times> Addr \<times> mc_state) option" where
  "is_defined_asciiz_loop mem a bad_addr s = do {
     (vabits2, s) \<leftarrow> get_vabits2 a s;
     if VA_BITS2_DEFINED \<noteq> vabits2 then
       (if VA_BITS2_NOACCESS = vabits2 then Some (MC_AddrErr, a, s)
        else if clo_mc_level s \<ge> 2 then Some (MC_ValueErr, a, s)
        else if mem a = 0 then Some (MC_Ok, a, s)
        else is_defined_asciiz_loop mem (a + 1) a s)
     else if mem a = 0 then Some (MC_Ok, bad_addr, s)
     else is_defined_asciiz_loop mem (a + 1) bad_addr s }"

definition mc_is_defined_asciiz :: "(Addr \<Rightarrow> UChar) \<Rightarrow> Addr \<Rightarrow> mc_state \<Rightarrow> (MC_ReadResult \<times> Addr \<times> mc_state) option" where
  "mc_is_defined_asciiz mem a s = is_defined_asciiz_loop mem a 0 s"

end
