(* ===== verification/MemPerms_Correct.thy ===== *)
theory MemPerms_Correct
  imports VBits_Correct MemPerms
begin

text \<open>
  Correctness of the operations on address ranges: setting permissions acts on exactly the bytes
  of the range (taken modulo the address space), whichever parts and loops of the code handle
  them; copying a range has the effect of a simultaneous copy, also for overlapping ranges; the
  checks find the first offending address.
\<close>

subsection \<open>Ranges of addresses\<close>

lemma range_word: "(n::nat) \<le> 18446744073709551616 \<Longrightarrow> (\<exists>j<n. x = a + of_nat j) \<longleftrightarrow> unat (x - a :: Addr) < n"
proof
  assume n: "n \<le> 18446744073709551616"
  { assume "\<exists>j<n. x = a + of_nat j"
    then obtain j where "j < n" "x - a = of_nat j" by auto
    then show "unat (x - a) < n" using n by (simp add: unat_of_nat) }
  { assume "unat (x - a) < n"
    moreover have "x = a + of_nat (unat (x - a))" by simp
    ultimately show "\<exists>j<n. x = a + of_nat j" by blast }
qed

lemma range_append:
  assumes "k + m \<le> 18446744073709551616"
  shows "unat (y - a :: Addr) < k + m \<longleftrightarrow> unat (y - a) < k \<or> unat (y - (a + of_nat k)) < m"
proof (cases "unat (y - a) < k")
  case False
  have lt: "unat (y - a) < 18446744073709551616" using unsigned_less [of "y - a"] by simp
  then have k: "unat (of_nat k :: Addr) = k" using False by (simp add: unat_of_nat)
  have "unat (y - (a + of_nat k)) = unat ((y - a) - of_nat k)" by (simp add: algebra_simps)
  also have "\<dots> = unat (y - a) - k"
    using False k by (simp add: unat_sub unat_le_iff)
  finally show ?thesis using False by auto
qed auto

definition set_range :: "mc_state \<Rightarrow> mc_state \<Rightarrow> Addr \<Rightarrow> nat \<Rightarrow> UChar \<Rightarrow> bool" where
  "set_range s s' a k w \<longleftrightarrow> mc_ok s' \<and> vtab s' = vtab s \<and> va s' = (\<lambda>y. if unat (y - a) < k then w else va s y)"

lemma set_range_0: "mc_ok s \<Longrightarrow> set_range s s a 0 w"
  by (simp add: set_range_def)

lemma set_range_append:
  assumes "set_range s t a k w" "set_range t u (a + of_nat k) m w" "k + m \<le> 18446744073709551616"
  shows "set_range s u a (k + m) w"
  using assms(1,2) range_append [OF assms(3), of _ a] by (auto simp: set_range_def fun_eq_iff)

lemma slot_step:
  assumes "unat (a::Addr) mod 65536 + d < 65536"
  shows "slot_of (a + of_nat d) = slot_of a" "unat (a + of_nat d) mod 65536 = unat a mod 65536 + d"
proof -
  define q where "q = unat a div 65536"
  have ua: "unat a = 65536 * q + unat a mod 65536" by (simp add: q_def)
  have "unat a < 18446744073709551616" using unsigned_less [of a] by simp
  then have "q < 281474976710656" unfolding q_def using less_mult_imp_div_less [of "unat a" 281474976710656 65536] by simp
  then have "65536 * q + 65535 < 18446744073709551616" by linarith
  then have lt: "unat a + d < 18446744073709551616" using assms ua by linarith
  moreover have "unat (of_nat d :: Addr) = d" using assms by (simp add: unat_of_nat)
  ultimately have u: "unat (a + of_nat d) = unat a + d" by (simp add: unat_word_ariths)
  have e: "unat a + d = 65536 * q + (unat a mod 65536 + d)" using ua by linarith
  show "unat (a + of_nat d) mod 65536 = unat a mod 65536 + d" unfolding u e using assms by simp
  have "(unat a + d) div 65536 = q" unfolding e using assms by simp
  then show "slot_of (a + of_nat d) = slot_of a" unfolding slot_of_eq u q_def .
qed

definition in_slot :: "nat \<Rightarrow> mc_state \<Rightarrow> Addr \<Rightarrow> nat \<Rightarrow> bool" where
  "in_slot n s a k \<longleftrightarrow> (k = 0 \<or> slot_ptr s (slot_of a) = Sm n \<and> unat a mod 65536 + k \<le> 65536)"

lemma in_slot_step:
  assumes "in_slot n s a k" "0 < d" "d \<le> k" "slot_ptr t = slot_ptr s"
  shows "in_slot n t (a + of_nat d) (k - d)" "slot_ptr s (slot_of a) = Sm n"
proof -
  have h: "slot_ptr s (slot_of a) = Sm n" "unat a mod 65536 + k \<le> 65536"
    using assms(1-3) by (auto simp: in_slot_def)
  show "slot_ptr s (slot_of a) = Sm n" by (rule h)
  show "in_slot n t (a + of_nat d) (k - d)"
  proof (cases "k = d")
    case False
    then have "unat a mod 65536 + d < 65536" using h(2) assms(3) by linarith
    from slot_step [OF this] show ?thesis using h assms by (auto simp: in_slot_def)
  qed (simp add: in_slot_def)
qed

definition loop_ok :: "mc_state \<Rightarrow> mc_state \<Rightarrow> Addr \<Rightarrow> nat \<Rightarrow> UChar \<Rightarrow> bool" where
  "loop_ok s s' a k w \<longleftrightarrow> set_range s s' a k w \<and> slot_ptr s' = slot_ptr s"

lemma loop_ok_append:
  "loop_ok s t a k w \<Longrightarrow> loop_ok t u (a + of_nat k) m w \<Longrightarrow> k + m \<le> 18446744073709551616 \<Longrightarrow> loop_ok s u a (k + m) w"
  by (auto simp: loop_ok_def intro: set_range_append)

lemma byte_step:
  assumes "mc_ok s" "slot_ptr s (slot_of a) = Sm n" "w \<le> 3"
  shows "loop_ok s (write_secmap (Sm n) (SM_OFF a) (insert_vabits2_into_vabits8 a w (secmaps s (Sm n) (SM_OFF a))) s) a 1 w"
proof -
  have "unat (y - a) < 1 \<longleftrightarrow> y = a" for y by (auto simp: unat_eq_0)
  then show ?thesis
    using insert_vabits2_va [OF assms] write_secmap_ok [OF assms(1,2)]
    by (simp add: loop_ok_def set_range_def fun_eq_iff)
qed

lemma word8_step:
  assumes "mc_ok s" "slot_ptr s (slot_of a) = Sm n" "a AND 7 = 0"
    "ucast w16 = w8" "ucast (drop_bit 8 w16) = w8" "\<And>x. extract_vabits2_from_vabits8 x w8 = w"
  shows "loop_ok s (write_vabits16 (Sm n) (SM_OFF_16 a) w16 s) a 8 w"
  using write_vabits16_va [OF assms(3,1,2,4,5)] assms(6) range_word [of 8]
  by (simp add: loop_ok_def set_range_def aligned8_iff [OF assms(3)] fun_eq_iff)

subsection \<open>The loops\<close>

lemma one_of_nat: "(1 :: 64 word) = of_nat 1" by simp

lemma len_le: "unat (len :: SizeT) \<le> 18446744073709551616"
  using unsigned_less [of len, where 'a = nat] by simp

lemma sarp_loop1b_ok:
  "mc_ok s \<Longrightarrow> w \<le> 3 \<Longrightarrow> in_slot n s a (unat len) \<Longrightarrow>
   \<exists>s'. sarp_loop1b (Sm n) w a len s = (a + len, s') \<and> loop_ok s s' a (unat len) w"
proof (induction "Sm n" w a len s rule: sarp_loop1b.induct)
  case (1 w a len s)
  show ?case
  proof (cases "len = 0")
    case True
    then show ?thesis using 1 by (simp add: sarp_loop1b.simps [of _ _ _ 0] loop_ok_def set_range_0)
  next
    case False
    then have u: "unat (len - 1) = unat len - 1" "1 \<le> unat len" by (simp_all add: unat_minus_one Suc_leI unat_gt_0)
    let ?t = "write_secmap (Sm n) (SM_OFF a) (insert_vabits2_into_vabits8 a w (secmaps s (Sm n) (SM_OFF a))) s"
    note sl = in_slot_step [OF 1(4) zero_less_one u(2)]
    have st: "loop_ok s ?t a 1 w" by (rule byte_step [OF 1(2) sl(2) 1(3)]) simp
    then have "mc_ok ?t" "slot_ptr ?t = slot_ptr s" by (simp_all add: loop_ok_def set_range_def)
    then obtain v where v: "sarp_loop1b (Sm n) w (a + 1) (len - 1) ?t = (a + 1 + (len - 1), v)" "loop_ok ?t v (a + 1) (unat len - 1) w"
      using 1(1) [OF _ _ 1(3)] False sl(1) u(1) by (auto simp: word_less_1)
    have "loop_ok s v a (1 + (unat len - 1)) w"
      using loop_ok_append [OF st, of v "unat len - 1"] v(2) u(2) len_le [of len] by simp
    moreover have "sarp_loop1b (Sm n) w a len s = sarp_loop1b (Sm n) w (a + 1) (len - 1) ?t"
      using False by (subst sarp_loop1b.simps) (simp add: word_less_1)
    ultimately show ?thesis using v(1) u(2) by simp
  qed
qed

lemma sarp_loop1a_ok:
  "mc_ok s \<Longrightarrow> w \<le> 3 \<Longrightarrow> in_slot n s a (unat len) \<Longrightarrow>
   \<exists>k s'. k \<le> unat len \<and> sarp_loop1a (Sm n) w a len s = (a + of_nat k, len - of_nat k, s') \<and> loop_ok s s' a k w \<and>
     ((a + of_nat k) AND 7 = 0 \<or> k = unat len)"
proof (induction "Sm n" w a len s rule: sarp_loop1a.induct)
  case (1 w a len s)
  show ?case
  proof (cases "a AND 7 = 0 \<or> len = 0")
    case True
    then have "sarp_loop1a (Sm n) w a len s = (a, len, s)"
      by (subst sarp_loop1a.simps) (auto simp: word_less_1)
    then show ?thesis using 1 True by (intro exI [of _ 0] exI [of _ s]) (auto simp: loop_ok_def set_range_0)
  next
    case False
    then have u: "unat (len - 1) = unat len - 1" "1 \<le> unat len" by (simp_all add: unat_minus_one Suc_leI unat_gt_0)
    let ?t = "write_secmap (Sm n) (SM_OFF a) (insert_vabits2_into_vabits8 a w (secmaps s (Sm n) (SM_OFF a))) s"
    note sl = in_slot_step [OF 1(4) zero_less_one u(2)]
    have st: "loop_ok s ?t a 1 w" by (rule byte_step [OF 1(2) sl(2) 1(3)]) simp
    then have "mc_ok ?t" "slot_ptr ?t = slot_ptr s" by (simp_all add: loop_ok_def set_range_def)
    then obtain k v where v: "k \<le> unat len - 1" "sarp_loop1a (Sm n) w (a + 1) (len - 1) ?t = (a + 1 + of_nat k, len - 1 - of_nat k, v)"
        "loop_ok ?t v (a + 1) k w" "(a + 1 + of_nat k) AND 7 = 0 \<or> k = unat len - 1"
      using 1(1) [OF _ _ _ 1(3)] False sl(1) u(1) by (auto simp: word_less_1)
    have "loop_ok s v a (1 + k) w"
      using loop_ok_append [OF st, of v k] v(1,3) u(2) len_le [of len] by simp
    moreover have "sarp_loop1a (Sm n) w a len s = sarp_loop1a (Sm n) w (a + 1) (len - 1) ?t"
      using False by (subst sarp_loop1a.simps) (simp add: word_less_1)
    ultimately show ?thesis using v u(2) by (intro exI [of _ "1 + k"] exI [of _ v]) (auto simp: algebra_simps)
  qed
qed

lemma add8_aligned: "a AND 7 = (0 :: Addr) \<Longrightarrow> (a + 8) AND 7 = 0"
proof -
  assume "a AND 7 = 0"
  then have m: "unat a mod 8 = 0" by (rule aligned8_aligned4)
  have "unat (a + 8) = (unat a + 8) mod 18446744073709551616" by (simp add: unat_word_ariths)
  then have "unat (a + 8) mod 8 = (unat a + 8) mod 8" by (simp add: mod_mod_cancel)
  then have "unat (a + 8) mod 8 = 0" using m by simp
  then show "(a + 8) AND 7 = 0" by (simp add: unat_eq_iff unat_and_7)
qed

lemma sarp_loop8_ok:
  assumes w16: "ucast w16 = w8" "ucast (drop_bit 8 w16) = w8" "\<And>x. extract_vabits2_from_vabits8 x w8 = w"
  shows "mc_ok s \<Longrightarrow> a AND 7 = 0 \<or> len = 0 \<Longrightarrow> in_slot n s a (unat len) \<Longrightarrow>
   \<exists>k s'. k \<le> unat len \<and> sarp_loop8 (Sm n) w16 a len s = (a + of_nat k, len - of_nat k, s') \<and> loop_ok s s' a k w"
proof (induction "unat len" arbitrary: a len s rule: less_induct)
  case less
  show ?case
  proof (cases "len < 8")
    case True
    then have "sarp_loop8 (Sm n) w16 a len s = (a, len, s)" by (simp add: sarp_loop8.simps)
    then show ?thesis using less.prems by (intro exI [of _ 0] exI [of _ s]) (simp add: loop_ok_def set_range_0)
  next
    case False
    then have u: "unat (len - 8) = unat len - 8" "8 \<le> unat len" by (simp_all add: unat_sub not_less unat_le_iff)
    have al: "a AND 7 = 0" using less.prems(2) False by auto
    let ?t = "write_vabits16 (Sm n) (SM_OFF_16 a) w16 s"
    have "(0::nat) < 8" by simp
    note sl = in_slot_step [OF less.prems(3) this u(2)]
    have st: "loop_ok s ?t a 8 w" by (rule word8_step [OF less.prems(1) sl(2) al w16]) simp
    then have t: "mc_ok ?t" "slot_ptr ?t = slot_ptr s" by (simp_all add: loop_ok_def set_range_def)
    have "in_slot n ?t (a + 8) (unat (len - 8))" using sl(1) [OF t(2)] u(1) by simp
    then obtain k v where v: "k \<le> unat len - 8" "sarp_loop8 (Sm n) w16 (a + 8) (len - 8) ?t = (a + 8 + of_nat k, len - 8 - of_nat k, v)"
        "loop_ok ?t v (a + 8) k w"
      using less.hyps [of "len - 8" ?t "a + 8"] t(1) add8_aligned [OF al] u by auto
    have "loop_ok s v a (8 + k) w"
      using loop_ok_append [OF st, of v k] v(1,3) u(2) len_le [of len] by simp
    moreover have "sarp_loop8 (Sm n) w16 a len s = sarp_loop8 (Sm n) w16 (a + 8) (len - 8) ?t"
      using False by (subst sarp_loop8.simps) simp
    ultimately show ?thesis using v u(2) by (intro exI [of _ "8 + k"] exI [of _ v]) (auto simp: algebra_simps)
  qed
qed

subsection \<open>Part 1\<close>

text \<open>The 16 bit pattern, its two bit field and the distinguished map agree.\<close>

definition perm_args :: "UShort \<Rightarrow> UChar \<Rightarrow> nat \<Rightarrow> bool" where
  "perm_args w16 w d \<longleftrightarrow> (w16, w, d) \<in>
     {(VA_BITS16_NOACCESS, VA_BITS2_NOACCESS, SM_DIST_NOACCESS), (VA_BITS16_UNDEFINED, VA_BITS2_UNDEFINED, SM_DIST_UNDEFINED),
      (VA_BITS16_DEFINED, VA_BITS2_DEFINED, SM_DIST_DEFINED)}"

lemma perm_args_facts:
  assumes "perm_args w16 w d"
  shows "ucast w16 = dsm_contents d" "ucast (drop_bit 8 w16) = dsm_contents d"
    "extract_vabits2_from_vabits8 x (dsm_contents d) = w" "w \<le> 3" "w \<noteq> VA_BITS2_PARTDEFINED" "d \<le> 2"
    "ucast (w16 AND 3) = w"
    "VA_BITS16_NOACCESS = w16 \<or> VA_BITS16_UNDEFINED = w16 \<or> VA_BITS16_DEFINED = w16"
proof -
  have c: "dsm_contents SM_DIST_NOACCESS = VA_BITS8_NOACCESS" "dsm_contents SM_DIST_UNDEFINED = VA_BITS8_UNDEFINED"
    "dsm_contents SM_DIST_DEFINED = VA_BITS8_DEFINED" by (simp_all add: dsm_contents_def dsm_consts)
  show "ucast w16 = dsm_contents d" "ucast (drop_bit 8 w16) = dsm_contents d"
    using assms by (auto simp: perm_args_def c cast16)
  show "extract_vabits2_from_vabits8 x (dsm_contents d) = w"
    using assms by (auto simp: perm_args_def c extract_uniform)
  show "w \<le> 3" "w \<noteq> VA_BITS2_PARTDEFINED" "d \<le> 2" "ucast (w16 AND 3) = w"
    "VA_BITS16_NOACCESS = w16 \<or> VA_BITS16_UNDEFINED = w16 \<or> VA_BITS16_DEFINED = w16"
    using assms by (auto simp: perm_args_def va_consts dsm_consts)
qed

lemma va_dsm:
  assumes "mc_ok s" "slot_ptr s (slot_of y) = Dsm d"
  shows "va s y = extract_vabits2_from_vabits8 y (dsm_contents d)"
  using assms by (simp add: va_def cell_def contents_def mc_ok_def)

lemma read_slot_Sm: "slot_ptr s x = Sm n \<Longrightarrow> read_slot x s = Some (Sm n)"
  by (auto simp: slot_ptr_def split: option.splits)

lemma writable_inline:
  assumes "make_slot_writable p s = Some (Sm n, t)" "read_slot p s = Some sm"
  shows "is_distinguished_sm sm \<Longrightarrow> \<exists>sm' u. copy_for_writing sm s = Some (sm', u) \<and> write_slot p sm' u = t"
    "\<not> is_distinguished_sm sm \<Longrightarrow> s = t"
  using assms by (auto simp: make_slot_writable_def bind_Some_iff split: if_splits)

lemma set_range_trans0:
  assumes "mc_ok t" "va t = va s" "vtab t = vtab s" "set_range t u a k w"
  shows "set_range s u a k w"
  using assms by (simp add: set_range_def fun_eq_iff)

lemma bytes_in_slot:
  assumes "unat (y - a :: Addr) < k" "unat a mod 65536 + k \<le> 65536"
  shows "slot_of y = slot_of a"
proof -
  have "slot_of (a + of_nat (unat (y - a))) = slot_of a"
    by (rule slot_step) (use assms in linarith)
  then show ?thesis by simp
qed

lemma three_loops:
  assumes "perm_args w16 w d" "mc_ok s" "in_slot n s a (unat len)"
  shows "\<exists>s'. (let (a, len, s) = sarp_loop1a (Sm n) w a len s; (a, len, s) = sarp_loop8 (Sm n) w16 a len s
     in sarp_loop1b (Sm n) w a len s) = (a + len, s') \<and> set_range s s' a (unat len) w"
proof -
  note p = perm_args_facts [OF assms(1)]
  obtain k1 s1 where s1: "k1 \<le> unat len" "sarp_loop1a (Sm n) w a len s = (a + of_nat k1, len - of_nat k1, s1)" "loop_ok s s1 a k1 w"
      "(a + of_nat k1) AND 7 = 0 \<or> k1 = unat len"
    using sarp_loop1a_ok [OF assms(2) p(4) assms(3)] by blast
  have ok1: "mc_ok s1" "slot_ptr s1 = slot_ptr s" using s1(3) by (simp_all add: loop_ok_def set_range_def)
  have sub: "unat (len - of_nat k) = unat len - k" if "k \<le> unat len" for k
  proof -
    have "unat (of_nat k :: SizeT) = k" using that len_le [of len] unsigned_less [of len, where 'a = nat] by (simp add: unat_of_nat)
    then show ?thesis using that by (simp add: unat_sub unat_le_iff)
  qed
  have in1: "in_slot n s1 (a + of_nat k1) (unat (len - of_nat k1))"
  proof (cases "k1 = 0")
    case True
    then show ?thesis using assms(3) ok1(2) by (simp add: in_slot_def)
  next
    case False
    then show ?thesis using in_slot_step(1) [OF assms(3) _ s1(1) ok1(2)] sub [OF s1(1)] by simp
  qed
  have "(a + of_nat k1) AND 7 = 0 \<or> len - of_nat k1 = 0" using s1(4) by auto
  then obtain k2 s2 where s2: "k2 \<le> unat (len - of_nat k1)"
      "sarp_loop8 (Sm n) w16 (a + of_nat k1) (len - of_nat k1) s1 = (a + of_nat k1 + of_nat k2, len - of_nat k1 - of_nat k2, s2)"
      "loop_ok s1 s2 (a + of_nat k1) k2 w"
    using sarp_loop8_ok [OF p(1-3) ok1(1) _ in1] by blast
  have ok2: "mc_ok s2" "slot_ptr s2 = slot_ptr s1" using s2(3) by (simp_all add: loop_ok_def set_range_def)
  have k12: "k1 + k2 \<le> unat len" using s2(1) s1(1) sub [OF s1(1)] by linarith
  have len2: "len - of_nat k1 - of_nat k2 = len - of_nat (k1 + k2)" by simp
  have in2: "in_slot n s2 (a + of_nat k1 + of_nat k2) (unat (len - of_nat k1 - of_nat k2))"
  proof (cases "k2 = 0")
    case True
    then show ?thesis using in1 ok2(2) by (simp add: in_slot_def)
  next
    case False
    have "unat (len - of_nat k1 - of_nat k2) = unat (len - of_nat k1) - k2"
      unfolding len2 sub [OF k12] sub [OF s1(1)] by simp
    then show ?thesis using in_slot_step(1) [OF in1 _ s2(1) ok2(2)] False by simp
  qed
  obtain s3 where s3: "sarp_loop1b (Sm n) w (a + of_nat k1 + of_nat k2) (len - of_nat k1 - of_nat k2) s2 = (a + len, s3)"
      "loop_ok s2 s3 (a + of_nat k1 + of_nat k2) (unat (len - of_nat k1 - of_nat k2)) w"
    using sarp_loop1b_ok [OF ok2(1) p(4) in2] by auto
  have "loop_ok s s2 a (k1 + k2) w"
    using loop_ok_append [OF s1(3) s2(3)] k12 len_le [of len] by simp
  then have "loop_ok s s3 a (k1 + k2 + (unat len - (k1 + k2))) w"
    using loop_ok_append [of s s2 a "k1 + k2" w s3 "unat len - (k1 + k2)"] s3(2) k12 len_le [of len] unfolding len2 sub [OF k12]
    by (simp add: add.assoc)
  then show ?thesis using s1(2) s2(2) s3(1) k12 by (auto simp: loop_ok_def)
qed

lemma slot_writable:
  assumes "mc_ok s" "alloc_ok s" "read_slot x s = Some (slot_ptr s x)"
  obtains n t where "make_slot_writable x s = Some (Sm n, t)" "mc_ok t" "slot_ptr t x = Sm n" "va t = va s" "vtab t = vtab s"
  using make_slot_writable_ok [OF assms] contents_va by metis

lemma sarp_part1_ok:
  assumes "perm_args w16 w d" "mc_ok s" "alloc_ok s" "unat a mod 65536 + unat len \<le> 65536"
  shows "\<exists>a' s'. sarp_part1 a aNext len w16 w d s = Some (a', s') \<and> (a' = aNext \<or> a' = a + len) \<and> set_range s s' a (unat len) w"
proof -
  note p = perm_args_facts [OF assms(1)]
  obtain s1 where s1: "get_secmap_ptr a s = Some (slot_of a, s1)" "mc_ok s1" "same_map s s1"
      "read_slot (slot_of a) s1 = Some (slot_ptr s (slot_of a))"
    using get_secmap_ptr_ok [OF assms(2)] by blast
  have e: "slot_ptr s1 = slot_ptr s" "va s1 = va s" "vtab s1 = vtab s" "alloc_ok s1"
    using s1(3) same_map_va [OF s1(3)] assms(3) by (auto simp: same_map_def alloc_ok_def vtab_def)
  show ?thesis
  proof (cases "slot_ptr s (slot_of a) = Dsm d")
    case True
    have "sarp_part1 a aNext len w16 w d s = Some (sarp_loop1b (Dsm d) w aNext 0 s1)"
      using s1(1,4) True by (simp add: sarp_part1_def sarp_loop1a.simps [of _ _ _ 0] sarp_loop8.simps [of _ _ _ 0])
    then have "sarp_part1 a aNext len w16 w d s = Some (aNext, s1)"
      by (simp add: sarp_loop1b.simps [of _ _ _ 0])
    moreover have "va s y = w" if "unat (y - a) < unat len" for y
      using va_dsm [OF assms(2)] True bytes_in_slot [OF that assms(4)] p(3) by simp
    ultimately show ?thesis using e s1(2) by (auto simp: set_range_def)
  next
    case False
    obtain n t where t: "make_slot_writable (slot_of a) s1 = Some (Sm n, t)" "mc_ok t" "slot_ptr t (slot_of a) = Sm n" "va t = va s1" "vtab t = vtab s1"
      using slot_writable [OF s1(2) e(4)] s1(4) e(1) by metis
    note wi = writable_inline [OF t(1) s1(4)]
    have "in_slot n t a (unat len)" using t(3) assms(4) by (simp add: in_slot_def)
    then obtain s' where s': "(let (a, len, s) = sarp_loop1a (Sm n) w a len t; (a, len, s) = sarp_loop8 (Sm n) w16 a len s
        in sarp_loop1b (Sm n) w a len s) = (a + len, s')" "set_range t s' a (unat len) w"
      using three_loops [OF assms(1) t(2)] by blast
    have "sarp_part1 a aNext len w16 w d s = Some (a + len, s')"
      using s1(1,4) False wi read_slot_Sm [OF t(3)] s'(1)
      by (cases "is_distinguished_sm (slot_ptr s (slot_of a))") (auto simp: sarp_part1_def split: prod.splits)
    moreover have "set_range s s' a (unat len) w"
      using set_range_trans0 [OF t(2) _ _ s'(2)] t e by simp
    ultimately show ?thesis by blast
  qed
qed

subsection \<open>Parts 2 and 3\<close>

lemma start_of_this_sm_base: "start_of_this_sm a = sm_base a"
  by (simp add: start_of_this_sm_def SM_MASK_def SM_SIZE_def sm_base_def)

lemma is_start_iff: "is_start_of_sm a \<longleftrightarrow> unat a mod 65536 = 0"
proof -
  have "is_start_of_sm a \<longleftrightarrow> 65536 * (unat a div 65536) = unat a"
    unfolding is_start_of_sm_def start_of_this_sm_base unat_eq_iff unat_sm_base ..
  also have "\<dots> \<longleftrightarrow> unat a mod 65536 = 0" using mult_div_mod_eq [of 65536 "unat a"] by linarith
  finally show ?thesis .
qed

lemma whole_slot:
  assumes "unat (a::Addr) mod 65536 = 0"
  shows "slot_of y = slot_of a \<longleftrightarrow> unat (y - a) < 65536"
proof
  assume "slot_of y = slot_of a"
  then have d: "unat y div 65536 = unat a div 65536" by (simp add: slot_of_eq)
  have "unat y = 65536 * (unat y div 65536) + unat y mod 65536" by simp
  moreover have "unat a = 65536 * (unat a div 65536)" using assms mult_div_mod_eq [of 65536 "unat a"] by linarith
  ultimately have "unat y = unat a + unat y mod 65536" using d by linarith
  moreover from this have "a \<le> y" by (simp add: unat_le_iff)
  ultimately have "unat (y - a) = unat y mod 65536" by (simp add: unat_sub)
  then show "unat (y - a) < 65536" by simp
qed (use bytes_in_slot [of y a 65536] assms in simp)

lemma next_start: "unat (a::Addr) mod 65536 = 0 \<Longrightarrow> unat (a + SM_SIZE) mod 65536 = 0"
proof -
  assume a: "unat a mod 65536 = 0"
  have "unat (a + SM_SIZE) = (unat a + 65536) mod 18446744073709551616" by (simp add: unat_word_ariths SM_SIZE_def)
  then have "unat (a + SM_SIZE) mod 65536 = (unat a + 65536) mod 65536" by (simp add: mod_mod_cancel)
  then show ?thesis using a by simp
qed

lemma free_secmap_fields [simp]:
  "primary_map (free_secmap p s) = primary_map s" "auxmap_L1 (free_secmap p s) = auxmap_L1 s"
  "auxmap_L2 (free_secmap p s) = auxmap_L2 s" "secmaps (free_secmap p s) = secmaps s"
  "sm_allocs (free_secmap p s) = sm_allocs s" "vtab (free_secmap p s) = vtab s"
  by (cases p; simp add: vtab_def)+

lemma read_slot_cong: "primary_map t = primary_map s \<Longrightarrow> auxmap_L2 t = auxmap_L2 s \<Longrightarrow> read_slot x t = read_slot x s"
  by (cases x) auto

text \<open>Replacing the map behind a slot by a distinguished one.\<close>

lemma replace_slot:
  assumes "mc_ok s" "read_slot x s = Some (slot_ptr s x)" "d \<le> 2"
  defines "t \<equiv> write_slot x (Dsm d) (update_SM_counts (slot_ptr s x) (Dsm d)
     (if \<not> is_distinguished_sm (slot_ptr s x) then free_secmap (slot_ptr s x) s else s))"
  shows "mc_ok t" "slot_ptr t = (slot_ptr s)(x := Dsm d)" "vtab t = vtab s" "secmaps t = secmaps s"
proof -
  let ?r = "if \<not> is_distinguished_sm (slot_ptr s x) then free_secmap (slot_ptr s x) s else s"
  let ?u = "update_SM_counts (slot_ptr s x) (Dsm d) ?r"
  have f: "primary_map ?u = primary_map s" "auxmap_L2 ?u = auxmap_L2 s" "auxmap_L1 ?u = auxmap_L1 s" "secmaps ?u = secmaps s"
    "sm_allocs ?u = sm_allocs s" "vtab ?u = vtab s" "sm_freed ?u = sm_freed ?r"
    by (auto simp: update_SM_counts_def vtab_def)
      (cases "slot_ptr s x"; simp)+
  have sp: "slot_ptr ?u = slot_ptr s" by (rule slot_ptr_cong) (rule f)+
  show st: "slot_ptr t = (slot_ptr s)(x := Dsm d)"
    unfolding t_def slot_ptr_write_slot sp ..
  show "vtab t = vtab s" "secmaps t = secmaps s" using f by (simp_all add: t_def)
  have "L1_ok ?u" using assms(1) f by (simp add: mc_ok_def L1_ok_def)
  moreover have "read_slot x ?u \<noteq> None" using read_slot_cong [OF f(1,2)] assms(2) by simp
  ultimately have "L1_ok t" unfolding t_def by (rule L1_ok_write_slot)
  moreover have "set (sm_freed t) = (case slot_ptr s x of Sm n \<Rightarrow> insert n (set (sm_freed s)) | Dsm i \<Rightarrow> set (sm_freed s))"
    unfolding t_def using f(7) by (cases "slot_ptr s x") (simp_all add: update_SM_counts_def)
  moreover have "sm_allocs t = sm_allocs s" "secmaps t = secmaps s" using f by (simp_all add: t_def)
  ultimately show "mc_ok t"
    using assms(1,3) unfolding mc_ok_def st by (auto split: SecMapPtr.splits if_splits)
qed

lemma sarp_loop64K_ok:
  assumes "perm_args w16 w d"
  shows "mc_ok s \<Longrightarrow> unat a mod 65536 = 0 \<Longrightarrow>
   \<exists>k s' lenB'. k \<le> unat lenB \<and> unat lenB' = unat lenB - k \<and> lenB' < SM_SIZE \<and> unat (a + of_nat k) mod 65536 = 0 \<and>
     sarp_loop64K d a lenB s = Some (a + of_nat k, lenB', s') \<and> set_range s s' a k w"
proof (induction "unat lenB" arbitrary: a lenB s rule: less_induct)
  case less
  note p = perm_args_facts [OF assms]
  show ?case
  proof (cases "lenB < SM_SIZE")
    case True
    then show ?thesis
      using less.prems by (intro exI [of _ 0] exI [of _ s] exI [of _ lenB]) (simp add: set_range_0 sarp_loop64K.simps)
  next
    case False
    then have u: "unat (lenB - SM_SIZE) = unat lenB - 65536" "65536 \<le> unat lenB"
      by (simp_all add: unat_sub not_less unat_le_iff SM_SIZE_def)
    obtain s1 where s1: "get_secmap_ptr a s = Some (slot_of a, s1)" "mc_ok s1" "same_map s s1"
        "read_slot (slot_of a) s1 = Some (slot_ptr s (slot_of a))"
      using get_secmap_ptr_ok [OF less.prems(1)] by blast
    have e: "slot_ptr s1 = slot_ptr s" "secmaps s1 = secmaps s" "va s1 = va s" "vtab s1 = vtab s"
      using s1(3) same_map_va [OF s1(3)] by (auto simp: same_map_def)
    let ?p = "slot_ptr s1 (slot_of a)"
    define t' where "t' = write_slot (slot_of a) (Dsm d) (update_SM_counts ?p (Dsm d) (if \<not> is_distinguished_sm ?p then free_secmap ?p s1 else s1))"
    have rs: "read_slot (slot_of a) s1 = Some ?p" using s1(4) e(1) by simp
    note t = replace_slot [OF s1(2) rs p(6), folded t'_def]
    have "va t' y = (if unat (y - a) < 65536 then w else va s y)" for y
    proof (cases "slot_of y = slot_of a")
      case True
      then have "slot_ptr t' (slot_of y) = Dsm d" using t(2) by simp
      then have "va t' y = w" using va_dsm [OF t(1)] p(3) by simp
      then show ?thesis using True whole_slot [OF less.prems(2), of y] by simp
    next
      case False
      then have "va t' y = va s1 y" using t(2,4) by (simp add: va_def cell_def contents_def)
      then show ?thesis using False whole_slot [OF less.prems(2)] e(3) by simp
    qed
    then have r1: "set_range s t' a 65536 w" using t e by (simp add: set_range_def fun_eq_iff)
    have "unat (lenB - SM_SIZE) < unat lenB" using u by linarith
    from less.hyps [OF this t(1) next_start [OF less.prems(2)]] obtain k v l where
      v: "k \<le> unat lenB - 65536" "unat l = unat lenB - 65536 - k" "l < SM_SIZE" "unat (a + SM_SIZE + of_nat k) mod 65536 = 0"
        "sarp_loop64K d (a + SM_SIZE) (lenB - SM_SIZE) t' = Some (a + SM_SIZE + of_nat k, l, v)" "set_range t' v (a + SM_SIZE) k w"
      unfolding u(1) by (elim exE conjE) (rule that)
    have sz: "SM_SIZE = of_nat 65536" by (simp add: SM_SIZE_def)
    have "set_range s v a (65536 + k) w"
      using set_range_append [OF r1, of v k] v(1,6) u(2) len_le [of lenB] unfolding sz by simp
    moreover have "sarp_loop64K d a lenB s = sarp_loop64K d (a + SM_SIZE) (lenB - SM_SIZE) t'"
      using False less.prems(2) s1(1) rs by (subst sarp_loop64K.simps) (simp add: is_start_iff Let_def t'_def)
    moreover have ad: "a + SM_SIZE + of_nat k = a + of_nat (65536 + k)" unfolding sz by simp
    moreover note v(4) [unfolded ad] v(5) [unfolded ad]
    moreover have "65536 + k \<le> unat lenB" "unat l = unat lenB - (65536 + k)" using v(1,2) u(2) by linarith+
    ultimately show ?thesis
      using v(3) by (intro exI [of _ "65536 + k"] exI [of _ v] exI [of _ l]) (simp only: simp_thms)
  qed
qed

lemma loop8_1b:
  assumes "perm_args w16 w d" "mc_ok s" "in_slot n s a (unat len)" "a AND 7 = 0"
  shows "\<exists>s'. (let (a, len, s) = sarp_loop8 (Sm n) w16 a len s in snd (sarp_loop1b (Sm n) w a len s)) = s' \<and>
     set_range s s' a (unat len) w"
proof -
  have "sarp_loop1a (Sm n) w a len s = (a, len, s)" using assms(4) by (subst sarp_loop1a.simps) simp
  then show ?thesis using three_loops [OF assms(1-3)] by (auto simp: Let_def split: prod.splits)
qed

lemma sarp_part2_ok:
  assumes "perm_args w16 w d" "mc_ok s" "alloc_ok s" "unat a mod 65536 = 0"
  shows "\<exists>s'. sarp_part2 a lenB w16 w d s = Some s' \<and> set_range s s' a (unat lenB) w"
proof -
  note p = perm_args_facts [OF assms(1)]
  obtain k t l where t: "k \<le> unat lenB" "unat l = unat lenB - k" "l < SM_SIZE" "unat (a + of_nat k) mod 65536 = 0"
      "sarp_loop64K d a lenB s = Some (a + of_nat k, l, t)" "set_range s t a k w"
    using sarp_loop64K_ok [OF assms(1,2,4), of lenB] by (elim exE conjE) (rule that)
  have lenB: "unat lenB = k + unat l" using t(1,2) by simp
  let ?a = "a + of_nat k"
  have mt: "mc_ok t" "alloc_ok t" using t(6) assms(3) by (simp_all add: set_range_def vtab_def alloc_ok_def)
  have app: "set_range s u a (unat lenB) w" if "set_range t u ?a (unat l) w" for u
    using set_range_append [OF t(6) that] lenB len_le [of lenB] by simp
  show ?thesis
  proof (cases "l = 0")
    case True
    then show ?thesis using t(5,6) lenB by (simp add: sarp_part2_def)
  next
    case False
    obtain s1 where s1: "get_secmap_ptr ?a t = Some (slot_of ?a, s1)" "mc_ok s1" "same_map t s1"
        "read_slot (slot_of ?a) s1 = Some (slot_ptr t (slot_of ?a))"
      using get_secmap_ptr_ok [OF mt(1)] by blast
    have e: "slot_ptr s1 = slot_ptr t" "va s1 = va t" "vtab s1 = vtab t" "alloc_ok s1"
      using s1(3) same_map_va [OF s1(3)] mt(2) by (auto simp: same_map_def alloc_ok_def vtab_def)
    have l64: "unat ?a mod 65536 + unat l \<le> 65536" using t(3,4) by (simp add: unat_less_iff SM_SIZE_def)
    have st: "is_start_of_sm ?a \<and> l < SM_SIZE" using t(3,4) is_start_iff by simp
    show ?thesis
    proof (cases "slot_ptr t (slot_of ?a) = Dsm d")
      case True
      have "va t y = w" if "unat (y - ?a) < unat l" for y
        using va_dsm [OF mt(1)] True bytes_in_slot [OF that l64] p(3) by simp
      then have "set_range t s1 ?a (unat l) w" using e s1(2) by (auto simp: set_range_def)
      moreover have "sarp_part2 a lenB w16 w d s = Some s1"
        using t(5) False st s1(1,4) True by (simp add: sarp_part2_def)
      ultimately show ?thesis using app by blast
    next
      case other: False
      obtain n u where u: "make_slot_writable (slot_of ?a) s1 = Some (Sm n, u)" "mc_ok u" "slot_ptr u (slot_of ?a) = Sm n" "va u = va s1" "vtab u = vtab s1"
        using slot_writable [OF s1(2) e(4)] s1(4) e(1) by metis
      note wi = writable_inline [OF u(1) s1(4)]
      have "in_slot n u ?a (unat l)" using u(3) l64 by (simp add: in_slot_def)
      moreover have "?a AND 7 = 0"
      proof -
        have "unat ?a mod 65536 mod 8 = 0" using t(4) by simp
        then have "unat ?a mod 8 = 0" by (simp add: mod_mod_cancel)
        then show ?thesis by (simp add: unat_eq_iff unat_and_7)
      qed
      ultimately obtain s' where s': "(let (a, len, s) = sarp_loop8 (Sm n) w16 ?a l u in snd (sarp_loop1b (Sm n) w a len s)) = s'"
          "set_range u s' ?a (unat l) w"
        using loop8_1b [OF assms(1) u(2)] by blast
      have "sarp_part2 a lenB w16 w d s = Some s'"
        using t(5) False st s1(1,4) other wi read_slot_Sm [OF u(3)] s'(1)
        by (cases "is_distinguished_sm (slot_ptr t (slot_of ?a))") (auto simp: sarp_part2_def Let_def split: prod.splits)
      moreover have "set_range t s' ?a (unat l) w"
        using set_range_trans0 [OF u(2) _ _ s'(2)] u e by simp
      ultimately show ?thesis using app by blast
    qed
  qed
qed

text \<open>The whole operation sets exactly the bytes of the range.\<close>

lemma sarp_ok:
  assumes "perm_args w16 w d" "mc_ok s" "alloc_ok s"
  shows "\<exists>s'. set_address_range_perms a lenT w16 d s = Some s' \<and> set_range s s' a (unat lenT) w"
proof (cases "lenT = 0")
  case True
  then show ?thesis using perm_args_facts [OF assms(1)] assms(2) by (simp add: set_address_range_perms_def set_range_0)
next
  case False
  note p = perm_args_facts [OF assms(1)]
  define m where "m = unat a mod 65536"
  let ?aNext = "start_of_this_sm a + SM_SIZE"
  have m: "m < 65536" by (simp add: m_def)
  have ab: "a = sm_base a + of_nat m"
  proof -
    have "unat (sm_base a) + m = unat a" unfolding unat_sm_base m_def by simp
    then have "of_nat (unat (sm_base a) + m) = a" by simp
    then show ?thesis by (simp del: unat_sm_base)
  qed
  have len_next: "unat (?aNext - a) = 65536 - m"
  proof -
    have "?aNext - a = 65536 - of_nat m"
      unfolding start_of_this_sm_base SM_SIZE_def by (subst ab) simp
    also have "\<dots> = of_nat (65536 - m)" using m by (simp add: of_nat_diff)
    finally show ?thesis by (simp add: unat_of_nat)
  qed
  have nx: "unat ?aNext mod 65536 = 0"
  proof -
    have "unat (sm_base a) mod 65536 = 0" unfolding unat_sm_base by simp
    then show ?thesis unfolding start_of_this_sm_base by (rule next_start)
  qed
  show ?thesis
  proof (cases "lenT \<le> ?aNext - a")
    case True
    then have "unat a mod 65536 + unat lenT \<le> 65536" using len_next m unfolding unat_le_iff m_def by linarith
    from sarp_part1_ok [OF assms this, of ?aNext] obtain a' s' where
      "sarp_part1 a ?aNext lenT w16 w d s = Some (a', s')" "set_range s s' a (unat lenT) w" by blast
    then show ?thesis
      using False True p(4-8) by (simp add: set_address_range_perms_def Let_def)
  next
    case more: False
    show ?thesis
    proof (cases "is_start_of_sm a")
      case True
      then have "unat a mod 65536 = 0" using is_start_iff by simp
      from sarp_part2_ok [OF assms this] show ?thesis
        using False True more p by (simp add: set_address_range_perms_def Let_def)
    next
      case ns: False
      let ?lenA = "?aNext - a"
      have "unat a mod 65536 + unat ?lenA \<le> 65536" using len_next m by (simp add: m_def)
      from sarp_part1_ok [OF assms this, of ?aNext] obtain t where
        t: "sarp_part1 a ?aNext ?lenA w16 w d s = Some (?aNext, t)" "set_range s t a (unat ?lenA) w"
        by auto
      have lt: "unat (lenT - ?lenA) = unat lenT - unat ?lenA" "unat ?lenA < unat lenT"
        using more by (simp_all add: unat_sub unat_less_iff [symmetric] not_le)
      have mt: "mc_ok t" "alloc_ok t" using t(2) assms(3) by (simp_all add: set_range_def vtab_def alloc_ok_def)
      obtain u where u: "sarp_part2 ?aNext (lenT - ?lenA) w16 w d t = Some u" "set_range t u ?aNext (unat (lenT - ?lenA)) w"
        using sarp_part2_ok [OF assms(1) mt nx] by blast
      have "lenT - ?lenA \<noteq> 0" using lt by (metis less_irrefl right_minus_eq)
      then have "set_address_range_perms a lenT w16 d s = Some u"
        using False more ns t(1) u(1) p by (simp add: set_address_range_perms_def Let_def)
      moreover have "set_range s u a (unat ?lenA + (unat lenT - unat ?lenA)) w"
        using set_range_append [OF t(2), of u "unat lenT - unat ?lenA"] u(2) lt len_le [of lenT] by simp
      ultimately show ?thesis using lt(2) by simp
    qed
  qed
qed

subsection \<open>Permissions in terms of the abstract memory\<close>

lemma set_range_view:
  assumes "mem_ok s" "set_range s s' a k w"
    "(w, p) \<in> {(VA_BITS2_NOACCESS, None), (VA_BITS2_UNDEFINED, Some V_BITS8_UNDEFINED), (VA_BITS2_DEFINED, Some V_BITS8_DEFINED)}"
  shows "mem_ok s'" "env s' = env s" "view s' = (\<lambda>y. if unat (y - a) < k then p else view s y)"
proof -
  have h: "mc_ok s'" "vtab s' = vtab s" "va s' = (\<lambda>y. if unat (y - a) < k then w else va s y)"
    using assms(2) by (simp_all add: set_range_def)
  have "va s' x \<noteq> VA_BITS2_PARTDEFINED" if "va s' x \<noteq> va s x" for x
    using that h(3) assms(3) by (auto simp: va_consts split: if_splits)
  then have m: "mem_ok s'" "env s' = env s" "sec s' = sec s" using set_va_mem [OF assms(1) h(1,2)] by blast+
  show "mem_ok s'" "env s' = env s" by (rule m)+
  show "view s' = (\<lambda>y. if unat (y - a) < k then p else view s y)"
    unfolding view_def h(3) m(3) using assms(3) by (auto simp: va_consts)
qed

lemma view_ocache [simp]: "view (s\<lparr>ocache_calls := e\<rparr>) = view s" "mem_ok (s\<lparr>ocache_calls := e\<rparr>) = mem_ok s"
  by (simp_all add: view_def mem_ok_def sec_def fun_eq_iff)

lemma mem_mc: "mem_ok s \<Longrightarrow> mc_ok s"
  by (simp add: mem_ok_def)

lemma set_address_range_perms_ok:
  assumes "mem_ok s" "alloc_ok s" "(w16, d, p) \<in> {(VA_BITS16_NOACCESS, SM_DIST_NOACCESS, None),
     (VA_BITS16_UNDEFINED, SM_DIST_UNDEFINED, Some V_BITS8_UNDEFINED), (VA_BITS16_DEFINED, SM_DIST_DEFINED, Some V_BITS8_DEFINED)}"
  shows "\<exists>s'. set_address_range_perms a len w16 d s = Some s' \<and> mem_ok s' \<and> env s' = env s \<and>
    view s' = (\<lambda>y. if unat (y - a) < unat len then p else view s y)"
proof -
  obtain w where w: "perm_args w16 w d"
    "(w, p) \<in> {(VA_BITS2_NOACCESS, None), (VA_BITS2_UNDEFINED, Some V_BITS8_UNDEFINED), (VA_BITS2_DEFINED, Some V_BITS8_DEFINED)}"
    using assms(3) that [of VA_BITS2_NOACCESS] that [of VA_BITS2_UNDEFINED] that [of VA_BITS2_DEFINED]
    by (auto simp: perm_args_def)
  obtain s' where s': "set_address_range_perms a len w16 d s = Some s'" "set_range s s' a (unat len) w"
    using sarp_ok [OF w(1) mem_mc [OF assms(1)] assms(2)] by blast
  show ?thesis using s'(1) set_range_view [OF assms(1) s'(2) w(2)] by simp
qed

subsection \<open>Walking over a range\<close>

lemma acc_iff:
  assumes "mem_ok s"
  shows "va s a = VA_BITS2_NOACCESS \<longleftrightarrow> view s a = None"
proof (cases rule: va_cases [of s a])
  case 4
  then obtain v where "sec s a = Some v" using assms by (auto simp: mem_ok_def)
  then show ?thesis using 4 by (simp add: view_def va_consts)
qed (simp_all add: view_def va_consts)

lemma def_iff:
  assumes "mem_ok s"
  shows "va s a = VA_BITS2_DEFINED \<longleftrightarrow> view s a = Some V_BITS8_DEFINED"
proof (cases rule: va_cases [of s a])
  case 4
  then obtain v where "sec s a = Some v" "v \<noteq> V_BITS8_DEFINED" using assms by (auto simp: mem_ok_def)
  then show ?thesis using 4 by (simp add: view_def va_consts)
qed (simp_all add: view_def va_consts)

lemma get_vabits2_mem:
  assumes "mem_ok s"
  obtains t where "get_vabits2 a s = Some (va s a, t)" "mem_ok t" "view t = view s" "env t = env s" "va t = va s"
proof -
  obtain t where "get_vabits2 a s = Some (va s a, t)" "mc_ok t" "same_map s t" using get_vabits2_ok [OF mem_mc [OF assms]] by blast
  then show ?thesis using that same_map_mem [of s t] same_map_va [of s t] assms by blast
qed

lemma range_Suc:
  assumes "Suc k \<le> 18446744073709551616"
  shows "unat (y - a :: Addr) < Suc k \<longleftrightarrow> y = a \<or> unat (y - (a + 1)) < k"
  using range_append [of 1 k y a] assms by (auto simp: unat_eq_0)

lemma defined_if_addressable_ok:
  "mem_ok s \<Longrightarrow> alloc_ok s \<Longrightarrow> k \<le> 18446744073709551616 \<Longrightarrow>
   \<exists>s'. defined_if_addressable_loop k a s = Some s' \<and> mem_ok s' \<and> address_errors s' = address_errors s \<and>
     view s' = (\<lambda>y. if unat (y - a) < k \<and> view s y \<noteq> None then Some V_BITS8_DEFINED else view s y)"
proof (induction k arbitrary: a s)
  case (Suc k)
  obtain t where t: "get_vabits2 a s = Some (va s a, t)" "mem_ok t" "view t = view s" "env t = env s" "va t = va s"
    using get_vabits2_mem [OF Suc.prems(1)] .
  have al: "alloc_ok t" using env_alloc_ok [OF t(4)] Suc.prems(2) by simp
  let ?f = "\<lambda>s. if clo_mc_level s \<ge> 3 then s\<lparr>ocache_calls := ocache_calls s @ [helperc_b_store1 a 0]\<rparr> else s"
  have "\<exists>u. (if VA_BITS2_NOACCESS \<noteq> va s a then do { s \<leftarrow> set_vabits2 a VA_BITS2_DEFINED t; Some (?f s) } else Some t) = Some u \<and>
      mem_ok u \<and> alloc_ok u \<and> address_errors u = address_errors s \<and>
      view u = (if view s a = None then view s else (view s)(a \<mapsto> V_BITS8_DEFINED))"
  proof (cases "view s a = None")
    case True
    then show ?thesis using t al acc_iff [OF Suc.prems(1), of a] by (auto simp: env_def)
  next
    case False
    then have nz: "VA_BITS2_NOACCESS \<noteq> va s a" using acc_iff [OF Suc.prems(1), of a] by metis
    have "VA_BITS2_DEFINED \<le> 3" by (simp add: va_consts)
    then obtain v where v: "set_vabits2 a VA_BITS2_DEFINED t = Some v" "mc_ok v" "va v = (va t)(a := VA_BITS2_DEFINED)" "vtab v = vtab t"
      using set_vabits2_ok [OF mem_mc [OF t(2)] al] by blast
    have "va v x \<noteq> VA_BITS2_PARTDEFINED" if "va v x \<noteq> va t x" for x
      using that v(3) by (auto simp: va_consts split: if_splits)
    then have m: "mem_ok v" "env v = env t" "sec v = sec t" using set_va_mem [OF t(2) v(2,4)] by blast+
    have "view v = (view t)(a \<mapsto> V_BITS8_DEFINED)"
      by (auto simp: view_def v(3) m(3) va_consts fun_eq_iff)
    then show ?thesis
      using nz v(1) m t(3,4) False al by (auto simp: env_def alloc_ok_def)
  qed
  then obtain u where u: "(if VA_BITS2_NOACCESS \<noteq> va s a then do { s \<leftarrow> set_vabits2 a VA_BITS2_DEFINED t; Some (?f s) } else Some t) = Some u"
      "mem_ok u" "alloc_ok u" "address_errors u = address_errors s"
      "view u = (if view s a = None then view s else (view s)(a \<mapsto> V_BITS8_DEFINED))"
    by blast
  have k: "k \<le> 18446744073709551616" using Suc.prems(3) by simp
  obtain v where v: "defined_if_addressable_loop k (a + 1) u = Some v" "mem_ok v" "address_errors v = address_errors u"
     "view v = (\<lambda>y. if unat (y - (a + 1)) < k \<and> view u y \<noteq> None then Some V_BITS8_DEFINED else view u y)"
    using Suc.IH [OF u(2,3) k] by blast
  have "view v = (\<lambda>y. if unat (y - a) < Suc k \<and> view s y \<noteq> None then Some V_BITS8_DEFINED else view s y)"
    unfolding v(4) u(5) range_Suc [OF Suc.prems(3)] by (auto simp: fun_eq_iff)
  then show ?case using t(1) u(1,4) v by simp
qed simp

text \<open>The first address of a range with a property.\<close>

definition first_addr :: "(Addr \<Rightarrow> bool) \<Rightarrow> Addr \<Rightarrow> nat \<Rightarrow> Addr option" where
  "first_addr P a k = map_option (\<lambda>i. a + of_nat i) (List.find (\<lambda>i. P (a + of_nat i)) [0..<k])"

lemma first_addr_Suc: "first_addr P a (Suc k) = (if P a then Some a else first_addr P (a + 1) k)"
proof -
  have "[0..<Suc k] = 0 # map Suc [0..<k]" by (metis map_Suc_upt upt_conv_Cons zero_less_Suc)
  moreover have "List.find Q (map Suc xs) = map_option Suc (List.find (Q \<circ> Suc) xs)" for Q xs by (induction xs) auto
  ultimately show ?thesis
    by (simp add: first_addr_def option.map_comp comp_def add.assoc)
qed

lemma first_addr_0 [simp]: "first_addr P a 0 = None"
  by (simp add: first_addr_def)

lemma first_addr_cong: "(\<And>x. P x = Q x) \<Longrightarrow> first_addr P a k = first_addr Q a k"
  by (simp add: first_addr_def)

lemma check_noaccess_loop_ok:
  "mem_ok s \<Longrightarrow> \<exists>s'. check_noaccess_loop k a s = Some (first_addr (\<lambda>x. view s x \<noteq> None) a k, s') \<and> mem_ok s' \<and> view s' = view s \<and> env s' = env s"
proof (induction k arbitrary: a s)
  case (Suc k)
  obtain t where t: "get_vabits2 a s = Some (va s a, t)" "mem_ok t" "view t = view s" "env t = env s" "va t = va s"
    using get_vabits2_mem [OF Suc.prems] .
  then show ?case using Suc.IH [OF t(2), of "a + 1"] acc_iff [OF Suc.prems, of a] by (auto simp: first_addr_Suc)
qed simp

lemma addressable_loop_ok:
  "mem_ok s \<Longrightarrow> \<exists>s'. addressable_loop k a s = Some (first_addr (\<lambda>x. view s x = None) a k, s') \<and> mem_ok s' \<and> view s' = view s \<and> env s' = env s"
proof (induction k arbitrary: a s)
  case (Suc k)
  obtain t where t: "get_vabits2 a s = Some (va s a, t)" "mem_ok t" "view t = view s" "env t = env s" "va t = va s"
    using get_vabits2_mem [OF Suc.prems] .
  then show ?case using Suc.IH [OF t(2), of "a + 1"] acc_iff [OF Suc.prems, of a] by (auto simp: first_addr_Suc)
qed simp

text \<open>What counts as an error for \<^verbatim>\<open>is_mem_defined\<close>: an inaccessible byte, and from level 2 on an
  undefined one.\<close>

definition read_error :: "mc_state \<Rightarrow> Addr \<Rightarrow> bool" where
  "read_error s x \<longleftrightarrow> view s x = None \<or> clo_mc_level s \<ge> 2 \<and> view s x \<noteq> Some V_BITS8_DEFINED"

lemma is_mem_defined_loop_ok:
  "mem_ok s \<Longrightarrow> \<exists>r b s'. is_mem_defined_loop k a b0 s = Some (r, b, s') \<and> mem_ok s' \<and> view s' = view s \<and> env s' = env s \<and>
     (case first_addr (read_error s) a k of
        None \<Rightarrow> r = MC_Ok
      | Some x \<Rightarrow> b = x \<and> r = (if view s x = None then MC_AddrErr else MC_ValueErr))"
proof (induction k arbitrary: a b0 s)
  case (Suc k)
  obtain t where t: "get_vabits2 a s = Some (va s a, t)" "mem_ok t" "view t = view s" "env t = env s" "va t = va s"
    using get_vabits2_mem [OF Suc.prems] .
  have lv: "clo_mc_level t = clo_mc_level s" using t(4) by (simp add: env_def)
  then have re: "read_error t = read_error s" using t(3) by (simp add: read_error_def fun_eq_iff)
  show ?case
  proof (cases "read_error s a")
    case True
    then show ?thesis
      using t acc_iff [OF Suc.prems, of a] def_iff [OF Suc.prems, of a] lv
      by (auto simp: first_addr_Suc read_error_def va_consts)
  next
    case False
    then have "view s a \<noteq> None" "clo_mc_level s \<ge> 2 \<longrightarrow> view s a = Some V_BITS8_DEFINED" by (auto simp: read_error_def)
    then have v: "va s a \<noteq> VA_BITS2_NOACCESS" "clo_mc_level s \<ge> 2 \<longrightarrow> va s a = VA_BITS2_DEFINED"
      using acc_iff [OF Suc.prems, of a] def_iff [OF Suc.prems, of a] by auto
    have step: "is_mem_defined_loop (Suc k) a b0 s = is_mem_defined_loop k (a + 1) (if va s a = VA_BITS2_DEFINED then b0 else a) t"
      using t(1) v lv by auto
    have "first_addr (read_error s) a (Suc k) = first_addr (read_error s) (a + 1) k"
      using False by (simp add: first_addr_Suc)
    then show ?thesis
      using Suc.IH [OF t(2), of "a + 1" "if va s a = VA_BITS2_DEFINED then b0 else a"]
      unfolding step re t(3,4) by simp
  qed
qed simp

subsection \<open>Copying the state of a range\<close>

text \<open>The state between writing the compressed bits of the destination (already the final ones,
  \<open>V\<close>) and completing the secondary V bits: those at \<open>D\<close> may still be missing.\<close>

definition mid_ok :: "mc_state \<Rightarrow> mc_state \<Rightarrow> (Addr \<Rightarrow> UChar) \<Rightarrow> (Addr \<Rightarrow> UChar option) \<Rightarrow> Addr set \<Rightarrow> bool" where
  "mid_ok s t V S D \<longleftrightarrow> mc_ok t \<and> tab_ok (secVBitTable t) \<and> va t = V \<and> env t = env s \<and>
     (\<forall>x. x \<notin> D \<longrightarrow> V x = VA_BITS2_PARTDEFINED \<longrightarrow> sec t x = S x \<and>
        (\<exists>v. S x = Some v \<and> v \<noteq> V_BITS8_DEFINED \<and> v \<noteq> V_BITS8_UNDEFINED))"

definition view_of :: "(Addr \<Rightarrow> UChar) \<Rightarrow> (Addr \<Rightarrow> UChar option) \<Rightarrow> Addr \<Rightarrow> UChar option" where
  "view_of V S x = (if V x = VA_BITS2_NOACCESS then None
     else if V x = VA_BITS2_DEFINED then Some V_BITS8_DEFINED
     else if V x = VA_BITS2_UNDEFINED then Some V_BITS8_UNDEFINED else S x)"

lemma mid_ok_done:
  assumes "mid_ok s t V S {}"
  shows "mem_ok t" "env t = env s" "view t = view_of V S"
proof -
  have h: "mc_ok t" "tab_ok (secVBitTable t)" "va t = V" "env t = env s"
    "\<And>x. V x = VA_BITS2_PARTDEFINED \<Longrightarrow> sec t x = S x \<and> (\<exists>v. S x = Some v \<and> v \<noteq> V_BITS8_DEFINED \<and> v \<noteq> V_BITS8_UNDEFINED)"
    using assms by (auto simp: mid_ok_def)
  show "mem_ok t" using h by (fastforce simp: mem_ok_def)
  show "env t = env s" by (rule h)
  show "view t = view_of V S"
  proof
    fix x show "view t x = view_of V S x"
      by (cases rule: va_cases [of t x]) (use h(3,5) in \<open>auto simp: view_def view_of_def va_consts\<close>)
  qed
qed

lemma mid_ok_same_map:
  assumes "mid_ok s t V S D" "mc_ok r" "same_map t r"
  shows "mid_ok s r V S D"
proof -
  have "va r = va t" "env r = env t" "sec r = sec t" "secVBitTable r = secVBitTable t"
    using same_map_va [OF assms(3)] vtab_env [of r t] assms(3) by (auto simp: same_map_def)
  then show ?thesis using assms(1,2) by (simp add: mid_ok_def)
qed

lemma copy_sec_tail:
  assumes "mid_ok s t V S D" "src \<notin> D" "V src = VA_BITS2_PARTDEFINED" "S dst = S src"
  shows "\<exists>u. get_sec_vbits8 src t \<bind> (\<lambda>v. set_sec_vbits8 dst v t) = Some u \<and> mid_ok s u V S (D - {dst})"
proof -
  have h: "mc_ok t" "tab_ok (secVBitTable t)" "va t = V" "env t = env s"
    "\<And>x. x \<notin> D \<Longrightarrow> V x = VA_BITS2_PARTDEFINED \<Longrightarrow> sec t x = S x \<and> (\<exists>v. S x = Some v \<and> v \<noteq> V_BITS8_DEFINED \<and> v \<noteq> V_BITS8_UNDEFINED)"
    using assms(1) by (auto simp: mid_ok_def)
  obtain v where v: "sec t src = Some v" "S src = Some v" "v \<noteq> V_BITS8_DEFINED" "v \<noteq> V_BITS8_UNDEFINED"
    using h(5) [OF assms(2,3)] by auto
  then have g: "get_sec_vbits8 src t = Some v"
    by (auto simp: get_sec_vbits8_def sec_def Let_def)
  obtain u where u: "set_sec_vbits8 dst v t = Some u" "mc_ok u" "va u = va t" "env u = env t" "tab_ok (secVBitTable u)"
     "sec u dst = Some v" "\<forall>x. x \<noteq> dst \<longrightarrow> va t x = VA_BITS2_PARTDEFINED \<longrightarrow> sec t x \<noteq> None \<longrightarrow> sec u x = sec t x"
    using set_sec_vbits8_ok [OF h(1,2) v(3,4)] by blast
  have "sec u x = S x \<and> (\<exists>v. S x = Some v \<and> v \<noteq> V_BITS8_DEFINED \<and> v \<noteq> V_BITS8_UNDEFINED)"
    if "x \<notin> D - {dst}" "V x = VA_BITS2_PARTDEFINED" for x
  proof (cases "x = dst")
    case True
    then show ?thesis using u(6) v assms(4) by simp
  next
    case False
    then show ?thesis using that h(3) h(5) [of x] u(7) by auto
  qed
  then have "mid_ok s u V S (D - {dst})" using u h by (simp add: mid_ok_def)
  then show ?thesis using g u(1) by simp
qed

lemma copy_sec_step:
  assumes "mid_ok s t V S D" "src \<notin> D" "V src = V dst" "S dst = S src"
  shows "\<exists>u. copy_sec_if_partdefined src dst t = Some u \<and> mid_ok s u V S (D - {dst})"
proof -
  have "mc_ok t" "va t = V" using assms(1) by (simp_all add: mid_ok_def)
  then obtain r where r: "get_vabits2 src t = Some (V src, r)" "mc_ok r" "same_map t r"
    using get_vabits2_ok [of t src] by auto
  note m = mid_ok_same_map [OF assms(1) r(2,3)]
  show ?thesis
  proof (cases "V src = VA_BITS2_PARTDEFINED")
    case False
    then have "mid_ok s r V S (D - {dst})" using m assms(3) by (auto simp: mid_ok_def)
    then show ?thesis using r(1) False by (simp add: copy_sec_if_partdefined_def)
  next
    case True
    then show ?thesis using r(1) copy_sec_tail [OF m assms(2) True assms(4)] by (simp add: copy_sec_if_partdefined_def)
  qed
qed

lemma mid_ok_start:
  assumes "mem_ok s" "mc_ok t" "vtab t = vtab s" "va t = V" "env s' = env s" "\<And>x. x \<notin> D \<Longrightarrow> V x = va s x \<and> S x = sec s x"
  shows "mid_ok s' t V S D"
  using assms vtab_env [OF assms(3)] unfolding mid_ok_def mem_ok_def by metis

lemma view_view_of: "view s = view_of (va s) (sec s)"
  by (simp add: view_def view_of_def fun_eq_iff)

lemma copy_byte_state_ok:
  assumes "mem_ok s" "alloc_ok s" "src \<noteq> dst"
  shows "\<exists>s'. copy_byte_state src dst s = Some s' \<and> mem_ok s' \<and> env s' = env s \<and> view s' = (view s)(dst := view s src)"
proof -
  obtain r where r: "get_vabits2 src s = Some (va s src, r)" "mem_ok r" "view r = view s" "env r = env s" "va r = va s"
    using get_vabits2_mem [OF assms(1)] .
  have al: "alloc_ok r" using env_alloc_ok [OF r(4)] assms(2) by simp
  obtain t where t: "set_vabits2 dst (va s src) r = Some t" "mc_ok t" "va t = (va r)(dst := va s src)" "vtab t = vtab r"
    using set_vabits2_ok [OF mem_mc [OF r(2)] al va_le_3] by blast
  let ?V = "(va r)(dst := va s src)" and ?S = "(sec r)(dst := sec r src)"
  have "mid_ok s t ?V ?S {dst}"
    by (rule mid_ok_start [OF r(2) t(2,4,3)]) (use r(4) in auto)
  note m = this
  have "view_of ?V ?S = (view r)(dst := view r src)"
    unfolding view_view_of [of r] using r(5) by (auto simp: view_of_def fun_eq_iff)
  then have fin: "mem_ok u \<and> env u = env s \<and> view u = (view s)(dst := view s src)" if "mid_ok s u ?V ?S {}" for u
    using mid_ok_done [OF that] r(3) by simp
  show ?thesis
  proof (cases "va s src = VA_BITS2_PARTDEFINED")
    case False
    then have "mid_ok s t ?V ?S {}" using m by (auto simp: mid_ok_def)
    then show ?thesis using fin r(1) t(1) False by (simp add: copy_byte_state_def)
  next
    case True
    then obtain u where "get_sec_vbits8 src t \<bind> (\<lambda>v. set_sec_vbits8 dst v t) = Some u" "mid_ok s u ?V ?S {}"
      using copy_sec_tail [OF m, of src dst] assms(3) r(5) by auto
    then show ?thesis using fin r(1) t(1) True by (simp add: copy_byte_state_def)
  qed
qed

text \<open>An aligned word at a time.\<close>

lemma aligned4_word:
  assumes "a AND 3 = (0::Addr)" "k < 4"
  shows "(a + of_nat k) AND 3 = of_nat k" "unat (a + of_nat k) div 4 = unat a div 4"
proof -
  have "unat (a AND 3) = 0" using assms by simp
  then have m: "unat a mod 4 = 0" by (simp only: unat_and_3)
  have "unat (a + of_nat k) = unat a + k" by (rule aligned4_off(1) [OF assms])
  moreover obtain q where "unat a = 4 * q" using m by (metis mod_0_imp_dvd dvdE)
  ultimately have "unat ((a + of_nat k) AND 3) = unat (of_nat k :: Addr)"
    unfolding unat_and_3 using assms(2) unat_small [of k] by simp
  then show "(a + of_nat k) AND 3 = of_nat k" by (simp only: unat_eq_iff)
  show "unat (a + of_nat k) div 4 = unat a div 4" by (rule aligned4_range [OF assms])
qed

lemma va_neq_part:
  "VA_BITS2_DEFINED \<noteq> VA_BITS2_PARTDEFINED" "VA_BITS2_UNDEFINED \<noteq> VA_BITS2_PARTDEFINED" "VA_BITS2_NOACCESS \<noteq> VA_BITS2_PARTDEFINED"
  by (simp_all add: va_consts)

lemma copy_word32_state_ok:
  assumes "mem_ok s" "alloc_ok s" "src AND 3 = 0" "dst AND 3 = 0" "src \<noteq> dst"
  shows "\<exists>s'. copy_word32_state src dst s = Some s' \<and> mem_ok s' \<and> env s' = env s \<and>
    view s' = (\<lambda>y. if unat (y - dst) < 4 then view s (src + (y - dst)) else view s y)"
proof -
  let ?in = "\<lambda>y. unat (y - dst) < 4"
  obtain r where r: "get_vabits8_for_aligned_word32 src s = Some (cell s src, r)" "mc_ok r" "same_map s r"
    using get_vabits8_ok [OF mem_mc [OF assms(1)]] by blast
  have e: "va r = va s" "vtab r = vtab s" "env r = env s" using same_map_va [OF r(3)] r(3) vtab_env [of r s] by (auto simp: same_map_def)
  have al: "alloc_ok r" using env_alloc_ok [OF e(3)] assms(2) by simp
  obtain t where t: "set_vabits8_for_aligned_word32 dst (cell s src) r = Some t" "mc_ok t" "vtab t = vtab r"
      "va t = (\<lambda>x. if unat x div 4 = unat dst div 4 then extract_vabits2_from_vabits8 x (cell s src) else va r x)"
    using set_vabits8_ok [OF r(2) al] by blast
  define V where "V = (\<lambda>y. if ?in y then va s (src + (y - dst)) else va s y)"
  define S where "S = (\<lambda>y. if ?in y then sec s (src + (y - dst)) else sec s y)"
  have in_iff: "?in y \<longleftrightarrow> unat y div 4 = unat dst div 4" for y
    using aligned4_off(2) [OF assms(4), of y] range_word [of 4 y dst] by simp
  have dist: "\<not> ?in (src + of_nat k)" if "k < 4" for k
  proof
    assume "?in (src + of_nat k)"
    then have "unat src div 4 = unat dst div 4" using in_iff aligned4_word(2) [OF assms(3) that] by simp
    then have "src = dst" using addr_eqI [of src dst] cell_index [of src dst] assms(3,4) by simp
    then show False using assms(5) by simp
  qed
  have vat: "va t = V"
  proof
    fix y show "va t y = V y"
    proof (cases "?in y")
      case True
      then obtain k where k: "k < 4" "y = dst + of_nat k" using range_word [of 4 y dst] by auto
      have "extract_vabits2_from_vabits8 y (cell s src) = extract_vabits2_from_vabits8 (src + of_nat k) (cell s src)"
        unfolding k(2) extract_vabits2_from_vabits8_def aligned4_word(1) [OF assms(4) k(1)] aligned4_word(1) [OF assms(3) k(1)] ..
      also have "\<dots> = va s (src + of_nat k)" using cell_va [OF aligned4_word(2) [OF assms(3) k(1)], of s] by simp
      finally show ?thesis using True k aligned4_word(2) [OF assms(4) k(1)] t(4) by (simp add: V_def)
    next
      case False
      then show ?thesis using t(4) e(1) in_iff by (simp add: V_def)
    qed
  qed
  have m: "mid_ok s t V S {y. ?in y}"
    by (rule mid_ok_start [OF assms(1) t(2) _ vat]) (use t(3) e in \<open>auto simp: V_def S_def\<close>)
  have vf: "view_of V S = (\<lambda>y. if ?in y then view s (src + (y - dst)) else view s y)"
    unfolding view_view_of [of s] by (auto simp: view_of_def V_def S_def fun_eq_iff)
  have fin: "mem_ok u \<and> env u = env s \<and> view u = (\<lambda>y. if ?in y then view s (src + (y - dst)) else view s y)" if "mid_ok s u V S {}" for u
    using mid_ok_done [OF that] vf by simp
  show ?thesis
  proof (cases "VA_BITS8_DEFINED = cell s src \<or> VA_BITS8_UNDEFINED = cell s src \<or> VA_BITS8_NOACCESS = cell s src")
    case True
    have "V y \<noteq> VA_BITS2_PARTDEFINED" if "?in y" for y
      using that t(4) in_iff True unfolding vat [symmetric] by (auto simp: extract_uniform va_neq_part)
    then have "mid_ok s t V S {}" using m by (auto simp: mid_ok_def)
    then show ?thesis using fin r(1) t(1) True by (auto simp: copy_word32_state_def)
  next
    case False
    have st: "\<exists>u. copy_sec_if_partdefined (src + of_nat k) (dst + of_nat k) q = Some u \<and> mid_ok s u V S (D - {dst + of_nat k})"
      if "mid_ok s q V S D" "k < 4" "D \<subseteq> {y. ?in y}" for q k D
    proof (rule copy_sec_step [OF that(1)])
      have "?in (dst + of_nat k)" using range_word [of 4 "dst + of_nat k" dst] that(2) by auto
      then show "V (src + of_nat k) = V (dst + of_nat k)" "S (dst + of_nat k) = S (src + of_nat k)"
        using dist [OF that(2)] by (simp_all add: V_def S_def)
      show "src + of_nat k \<notin> D" using dist [OF that(2)] that(3) by auto
    qed
    obtain u0 where u0: "copy_sec_if_partdefined (src + 0) (dst + 0) t = Some u0" "mid_ok s u0 V S ({y. ?in y} - {dst + 0})"
      using st [OF m, of 0] by auto
    obtain u1 where u1: "copy_sec_if_partdefined (src + 1) (dst + 1) u0 = Some u1" "mid_ok s u1 V S ({y. ?in y} - {dst + 0} - {dst + 1})"
      using st [OF u0(2), of 1] by auto
    obtain u2 where u2: "copy_sec_if_partdefined (src + 2) (dst + 2) u1 = Some u2"
        "mid_ok s u2 V S ({y. ?in y} - {dst + 0} - {dst + 1} - {dst + 2})"
      using st [OF u1(2), of 2] by auto
    obtain u3 where u3: "copy_sec_if_partdefined (src + 3) (dst + 3) u2 = Some u3"
        "mid_ok s u3 V S ({y. ?in y} - {dst + 0} - {dst + 1} - {dst + 2} - {dst + 3})"
      using st [OF u2(2), of 3] by auto
    have "{y. ?in y} - {dst + 0} - {dst + 1} - {dst + 2} - {dst + 3} = {}"
    proof -
      have "y \<in> {dst + 0, dst + 1, dst + 2, dst + 3}" if "?in y" for y
      proof -
        obtain k where k: "k < 4" "y = dst + of_nat k" using range_word [of 4 y dst] \<open>?in y\<close> by auto
        then have "k = 0 \<or> k = 1 \<or> k = 2 \<or> k = 3" by auto
        then show ?thesis using k(2) by auto
      qed
      then show ?thesis by blast
    qed
    then have "mid_ok s u3 V S {}" using u3(2) by (simp only:)
    then show ?thesis
      using fin False r(1) t(1) u0(1) u1(1) u2(1) u3(1) by (simp add: copy_word32_state_def)
  qed
qed

text \<open>Copying upwards and downwards, byte by byte.\<close>

definition copied :: "(Addr \<Rightarrow> UChar option) \<Rightarrow> (Addr \<Rightarrow> UChar option) \<Rightarrow> Addr \<Rightarrow> Addr \<Rightarrow> nat set \<Rightarrow> bool" where
  "copied m m' src dst J \<longleftrightarrow> (\<forall>j\<in>J. m' (dst + of_nat j) = m (src + of_nat j)) \<and>
     (\<forall>y. (\<forall>j\<in>J. y \<noteq> dst + of_nat j) \<longrightarrow> m' y = m y)"

lemma of_nat_inj64: "i < 18446744073709551616 \<Longrightarrow> j < 18446744073709551616 \<Longrightarrow> (of_nat i :: Addr) = of_nat j \<Longrightarrow> i = j"
proof -
  assume h: "i < 18446744073709551616" "j < 18446744073709551616" "(of_nat i :: Addr) = of_nat j"
  from h(3) have "unat (of_nat i :: Addr) = unat (of_nat j :: Addr)" by simp
  then show "i = j" using h(1,2) by (simp add: unat_of_nat)
qed

lemma copied_compose:
  assumes "copied m m1 src dst I" "copied m1 m2 src dst J"
    "\<And>i j. i \<in> I \<Longrightarrow> j \<in> J \<Longrightarrow> dst + of_nat i \<noteq> src + of_nat j"
    "\<And>i j. i \<in> I \<Longrightarrow> j \<in> J \<Longrightarrow> dst + of_nat i \<noteq> dst + of_nat j"
  shows "copied m m2 src dst (I \<union> J)"
  unfolding copied_def
proof (intro conjI ballI allI impI)
  fix j assume "j \<in> I \<union> J"
  then show "m2 (dst + of_nat j) = m (src + of_nat j)"
  proof
    assume "j \<in> J"
    then have "m2 (dst + of_nat j) = m1 (src + of_nat j)" using assms(2) by (simp add: copied_def)
    also have "\<dots> = m (src + of_nat j)" using assms(1,3) \<open>j \<in> J\<close> unfolding copied_def by metis
    finally show ?thesis .
  next
    assume "j \<in> I"
    then have "m2 (dst + of_nat j) = m1 (dst + of_nat j)" using assms(2,4) unfolding copied_def by metis
    then show ?thesis using assms(1) \<open>j \<in> I\<close> by (simp add: copied_def)
  qed
next
  fix y assume "\<forall>j\<in>I \<union> J. y \<noteq> dst + of_nat j"
  then show "m2 y = m y" using assms(1,2) by (simp add: copied_def)
qed

lemma copied_empty: "copied m m src dst {}"
  by (simp add: copied_def)

lemma copied_one: "m' = m(dst + of_nat i := m (src + of_nat i)) \<Longrightarrow> copied m m' src dst {i}"
  by (simp add: copied_def)

lemma copied_range:
  assumes "copied m m' src dst {0..<n}" "n \<le> 18446744073709551616"
  shows "m' = (\<lambda>y. if unat (y - dst) < n then m (src + (y - dst)) else m y)"
proof
  fix y
  show "m' y = (if unat (y - dst) < n then m (src + (y - dst)) else m y)"
    using assms range_word [of n y dst] unfolding copied_def by (auto split: if_splits)
qed

text \<open>No byte of the range is overwritten before it is read.\<close>

definition up_safe :: "Addr \<Rightarrow> Addr \<Rightarrow> nat \<Rightarrow> bool" where
  "up_safe src dst n \<longleftrightarrow> (\<forall>i j. i < j \<longrightarrow> j < n \<longrightarrow> dst + of_nat i \<noteq> src + of_nat j)"

definition down_safe :: "Addr \<Rightarrow> Addr \<Rightarrow> nat \<Rightarrow> bool" where
  "down_safe src dst n \<longleftrightarrow> (\<forall>i j. j < i \<longrightarrow> i < n \<longrightarrow> dst + of_nat i \<noteq> src + of_nat j)"

lemma copy_up_loop_ok:
  "mem_ok s \<Longrightarrow> alloc_ok s \<Longrightarrow> src \<noteq> dst \<Longrightarrow> i + k = n \<Longrightarrow> n \<le> 18446744073709551616 \<Longrightarrow> up_safe src dst n \<Longrightarrow>
   \<exists>s'. copy_up_loop k src dst (of_nat i) s = Some s' \<and> mem_ok s' \<and> env s' = env s \<and> copied (view s) (view s') src dst {i..<n}"
proof (induction k arbitrary: i s)
  case (Suc k)
  obtain t where t: "copy_byte_state (src + of_nat i) (dst + of_nat i) s = Some t" "mem_ok t" "env t = env s"
      "view t = (view s)(dst + of_nat i := view s (src + of_nat i))"
    using copy_byte_state_ok [OF Suc.prems(1,2), of "src + of_nat i" "dst + of_nat i"] Suc.prems(3) by auto
  have al: "alloc_ok t" using env_alloc_ok [OF t(3)] Suc.prems(2) by simp
  have "Suc i + k = n" using Suc.prems(4) by simp
  from Suc.IH [OF t(2) al Suc.prems(3) this Suc.prems(5,6)] obtain u where
    u: "copy_up_loop k src dst (of_nat (Suc i)) t = Some u" "mem_ok u" "env u = env t" "copied (view t) (view u) src dst {Suc i..<n}"
    by blast
  have "copied (view s) (view u) src dst ({i} \<union> {Suc i..<n})"
  proof (rule copied_compose [OF copied_one [OF t(4)] u(4)])
    fix i' j assume h: "i' \<in> {i}" "j \<in> {Suc i..<n}"
    show "dst + of_nat i' \<noteq> src + of_nat j" using h Suc.prems(6) by (auto simp: up_safe_def)
    show "dst + of_nat i' \<noteq> dst + of_nat j" using h Suc.prems(5) of_nat_inj64 [of i j] by auto
  qed
  moreover have "{i} \<union> {Suc i..<n} = {i..<n}" using Suc.prems(4) by auto
  ultimately show ?case using t u by (simp add: add.commute)
qed (simp add: copied_empty)

lemma copy_down_loop_ok:
  "mem_ok s \<Longrightarrow> alloc_ok s \<Longrightarrow> src \<noteq> dst \<Longrightarrow> k = 0 \<or> j = of_nat (k - 1) \<Longrightarrow> k \<le> 18446744073709551616 \<Longrightarrow> down_safe src dst k \<Longrightarrow>
   \<exists>s'. copy_down_loop k src dst j s = Some s' \<and> mem_ok s' \<and> env s' = env s \<and> copied (view s) (view s') src dst {0..<k}"
proof (induction k arbitrary: j s)
  case (Suc k)
  then have j: "j = of_nat k" by simp
  obtain t where t: "copy_byte_state (src + of_nat k) (dst + of_nat k) s = Some t" "mem_ok t" "env t = env s"
      "view t = (view s)(dst + of_nat k := view s (src + of_nat k))"
    using copy_byte_state_ok [OF Suc.prems(1,2), of "src + of_nat k" "dst + of_nat k"] Suc.prems(3) by auto
  have al: "alloc_ok t" using env_alloc_ok [OF t(3)] Suc.prems(2) by simp
  have pre: "k = 0 \<or> j - 1 = of_nat (k - 1)" using j by (cases k) auto
  have "k \<le> 18446744073709551616" "down_safe src dst k" using Suc.prems(5,6) by (auto simp: down_safe_def)
  from Suc.IH [OF t(2) al Suc.prems(3) pre this] obtain u where
    u: "copy_down_loop k src dst (j - 1) t = Some u" "mem_ok u" "env u = env t" "copied (view t) (view u) src dst {0..<k}"
    by blast
  have "copied (view s) (view u) src dst ({k} \<union> {0..<k})"
  proof (rule copied_compose [OF copied_one [OF t(4)] u(4)])
    fix i' j assume h: "i' \<in> {k}" "j \<in> {0..<k}"
    show "dst + of_nat i' \<noteq> src + of_nat j" using h Suc.prems(6) by (auto simp: down_safe_def)
    show "dst + of_nat i' \<noteq> dst + of_nat j" using h Suc.prems(5) of_nat_inj64 [of k j] by auto
  qed
  moreover have "{k} \<union> {0..<k} = {0..<Suc k}" by auto
  ultimately show ?case using t u j by simp
qed (simp add: copied_empty)

lemma add4_aligned: "a AND 3 = (0 :: Addr) \<Longrightarrow> (a + 4) AND 3 = 0"
proof -
  assume "a AND 3 = 0"
  then have "unat (a AND 3) = 0" by simp
  then have m: "unat a mod 4 = 0" by (simp only: unat_and_3)
  have "unat (a + 4) = (unat a + 4) mod 18446744073709551616" by (simp add: unat_word_ariths)
  then have "unat (a + 4) mod 4 = (unat a + 4) mod 4" by (simp add: mod_mod_cancel)
  then have "unat (a + 4) mod 4 = 0" using m by simp
  then show "(a + 4) AND 3 = 0" by (simp add: unat_eq_iff unat_and_3)
qed

lemma copy_vector_loop_ok:
  "mem_ok s \<Longrightarrow> alloc_ok s \<Longrightarrow> src \<noteq> dst \<Longrightarrow> (src + of_nat i) AND 3 = 0 \<Longrightarrow> (dst + of_nat i) AND 3 = 0 \<Longrightarrow> i + unat len = n \<Longrightarrow>
   n \<le> 18446744073709551616 \<Longrightarrow> up_safe src dst n \<Longrightarrow>
   \<exists>e l s'. copy_vector_loop src dst (of_nat i) len s = Some (of_nat e, l, s') \<and> i \<le> e \<and> e + unat l = n \<and> mem_ok s' \<and>
     env s' = env s \<and> copied (view s) (view s') src dst {i..<e}"
proof (induction "unat len" arbitrary: i len s rule: less_induct)
  case less
  show ?case
  proof (cases "len \<ge> 4")
    case False
    then show ?thesis
      using less.prems by (intro exI [of _ i] exI [of _ len] exI [of _ s]) (simp add: copy_vector_loop.simps copied_empty)
  next
    case True
    then have u: "unat (len - 4) = unat len - 4" "4 \<le> unat len" by (simp_all add: unat_sub unat_le_iff)
    let ?src = "src + of_nat i" and ?dst = "dst + of_nat i"
    obtain t where t: "copy_word32_state ?src ?dst s = Some t" "mem_ok t" "env t = env s"
        "view t = (\<lambda>y. if unat (y - ?dst) < 4 then view s (?src + (y - ?dst)) else view s y)"
      using copy_word32_state_ok [OF less.prems(1,2,4,5)] less.prems(3) by auto
    have al: "alloc_ok t" using env_alloc_ok [OF t(3)] less.prems(2) by simp
    have c1: "copied (view s) (view t) src dst {i..<i + 4}"
      unfolding copied_def
    proof (intro conjI ballI allI impI)
      fix j assume "j \<in> {i..<i + 4}"
      then obtain d where d: "d < 4" "j = i + d" using less_eqE by (metis atLeastLessThan_iff nat_add_left_cancel_less)
      then show "view t (dst + of_nat j) = view s (src + of_nat j)"
        unfolding t(4) using range_word [of 4 "dst + of_nat j" ?dst] by (auto simp: add.assoc)
    next
      fix y assume y: "\<forall>j\<in>{i..<i + 4}. y \<noteq> dst + of_nat j"
      have "\<not> (\<exists>d<4. y = ?dst + of_nat d)"
      proof
        assume "\<exists>d<4. y = ?dst + of_nat d"
        then obtain d where d: "d < 4" "y = dst + of_nat (i + d)" by (auto simp: add.assoc)
        have "i + d \<in> {i..<i + 4}" using d(1) by simp
        then show False using y d(2) by blast
      qed
      then show "view t y = view s y" unfolding t(4) using range_word [of 4 y ?dst] by simp
    qed
    have al4: "(src + of_nat (i + 4)) AND 3 = 0" "(dst + of_nat (i + 4)) AND 3 = 0" "i + 4 + unat (len - 4) = n" "unat (len - 4) < unat len"
      using add4_aligned [OF less.prems(4)] add4_aligned [OF less.prems(5)] less.prems(6) u by (simp_all add: add.assoc)
    from less.hyps [OF al4(4) t(2) al less.prems(3) al4(1-3) less.prems(7,8)] obtain e l v where
      v: "copy_vector_loop src dst (of_nat (i + 4)) (len - 4) t = Some (of_nat e, l, v)" "i + 4 \<le> e" "e + unat l = n" "mem_ok v"
        "env v = env t" "copied (view t) (view v) src dst {i + 4..<e}"
      by (elim exE conjE) (rule that)
    have "copied (view s) (view v) src dst ({i..<i + 4} \<union> {i + 4..<e})"
    proof (rule copied_compose [OF c1 v(6)])
      fix i' j assume h: "i' \<in> {i..<i + 4}" "j \<in> {i + 4..<e}"
      show "dst + of_nat i' \<noteq> src + of_nat j" using h less.prems(8) v(3) by (auto simp: up_safe_def)
      show "dst + of_nat i' \<noteq> dst + of_nat j" using h less.prems(7) v(3) of_nat_inj64 [of i' j] by auto
    qed
    moreover have "{i..<i + 4} \<union> {i + 4..<e} = {i..<e}" using v(2) by auto
    moreover have "copy_vector_loop src dst (of_nat i) len s = copy_vector_loop src dst (of_nat (i + 4)) (len - 4) t"
      using True t(1) by (subst copy_vector_loop.simps) (simp add: add.commute)
    ultimately show ?thesis using v t(3) by (intro exI [of _ e] exI [of _ l] exI [of _ v]) simp
  qed
qed

lemma sum_word:
  assumes "unat (a::Addr) + j < 18446744073709551616"
  shows "unat (a + of_nat j) = unat a + j"
proof -
  have "unat (of_nat j :: Addr) = j" using assms by (simp add: unat_of_nat)
  then show ?thesis using assms by (simp add: unat_word_ariths)
qed

lemma safe_order:
  assumes "unat src + n \<le> 18446744073709551616" "unat dst + n \<le> 18446744073709551616"
  shows "dst < src \<Longrightarrow> up_safe src dst n" "src < dst \<Longrightarrow> down_safe src dst n"
    "unat src + n \<le> unat dst \<Longrightarrow> up_safe src dst n"
proof -
  have ne: "dst + of_nat i \<noteq> src + of_nat j" if "i < n" "j < n" "unat dst + i \<noteq> unat src + j" for i j
  proof
    assume "dst + of_nat i = src + of_nat j"
    then have "unat (dst + of_nat i) = unat (src + of_nat j)" by simp
    then show False using sum_word [of dst i] sum_word [of src j] that assms by simp
  qed
  show "dst < src \<Longrightarrow> up_safe src dst n"
    unfolding up_safe_def unat_less_iff using ne by (auto simp: less_trans)
  show "src < dst \<Longrightarrow> down_safe src dst n"
    unfolding down_safe_def unat_less_iff using ne by (auto simp: less_trans)
  show "unat src + n \<le> unat dst \<Longrightarrow> up_safe src dst n"
    unfolding up_safe_def using ne by (auto simp: less_trans)
qed

lemma copy_address_range_state_ok:
  assumes "mem_ok s" "alloc_ok s" "unat src + unat len < 18446744073709551616" "unat dst + unat len < 18446744073709551616"
  shows "\<exists>s'. copy_address_range_state src dst len s = Some s' \<and> mem_ok s' \<and> env s' = env s \<and>
    view s' = (\<lambda>y. if unat (y - dst) < unat len then view s (src + (y - dst)) else view s y)"
proof (cases "len = 0 \<or> src = dst")
  case True
  then have "copy_address_range_state src dst len s = Some s" by (auto simp: copy_address_range_state_def)
  moreover have "view s = (\<lambda>y. if unat (y - dst) < unat len then view s (src + (y - dst)) else view s y)"
    using True by auto
  ultimately show ?thesis using assms(1) by auto
next
  case False
  let ?n = "unat len"
  have n64: "?n \<le> 18446744073709551616" by (rule len_le)
  have le: "unat src + ?n \<le> 18446744073709551616" "unat dst + ?n \<le> 18446744073709551616" using assms(3,4) by simp_all
  note safe = safe_order [OF le]
  have fin: "\<exists>s'. r = Some s' \<and> mem_ok s' \<and> env s' = env s \<and>
      view s' = (\<lambda>y. if unat (y - dst) < ?n then view s (src + (y - dst)) else view s y)"
    if "\<exists>s'. r = Some s' \<and> mem_ok s' \<and> env s' = env s \<and> copied (view s) (view s') src dst {0..<?n}" for r
    using that copied_range [OF _ n64, of "view s" _ src dst] by blast
  have sums: "unat (src + len) = unat src + ?n" "unat (dst + len) = unat dst + ?n"
    using assms(3,4) by (simp_all add: unat_word_ariths)
  let ?nooverlap = "src + len \<le> dst \<or> dst + len \<le> src"
  have up: "up_safe src dst ?n" if ?nooverlap
  proof -
    have "unat src + ?n \<le> unat dst \<or> unat dst + ?n \<le> unat src" using that sums by (simp add: unat_le_iff)
    moreover have "0 < ?n" using False by (simp add: unat_gt_0)
    ultimately have "unat src + ?n \<le> unat dst \<or> dst < src" by (auto simp: unat_less_iff)
    then show ?thesis using safe(1,3) by blast
  qed
  show ?thesis
  proof (cases "?nooverlap \<and> src AND 3 = 0 \<and> dst AND 3 = 0")
    case True
    then have us: "up_safe src dst ?n" using up by blast
    obtain e l t where t: "copy_vector_loop src dst 0 len s = Some (of_nat e, l, t)" "e + unat l = ?n" "mem_ok t" "env t = env s"
        "copied (view s) (view t) src dst {0..<e}"
      using copy_vector_loop_ok [OF assms(1,2), of src dst 0 len ?n] True False us n64 by auto
    have al: "alloc_ok t" using env_alloc_ok [OF t(4)] assms(2) by simp
    have ne: "src \<noteq> dst" using False by simp
    obtain u where u: "copy_up_loop (unat l) src dst (of_nat e) t = Some u" "mem_ok u" "env u = env t" "copied (view t) (view u) src dst {e..<?n}"
      using copy_up_loop_ok [OF t(3) al ne t(2) n64 us] by blast
    have "copied (view s) (view u) src dst ({0..<e} \<union> {e..<?n})"
    proof (rule copied_compose [OF t(5) u(4)])
      fix i j assume h: "i \<in> {0..<e}" "j \<in> {e..<?n}"
      show "dst + of_nat i \<noteq> src + of_nat j" using h us by (auto simp: up_safe_def)
      show "dst + of_nat i \<noteq> dst + of_nat j" using h n64 of_nat_inj64 [of i j] by auto
    qed
    moreover have "{0..<e} \<union> {e..<?n} = {0..<?n}" using t(2) by auto
    moreover have "copy_address_range_state src dst len s = Some u"
      using False True t(1) u(1) by (auto simp: copy_address_range_state_def Let_def)
    ultimately have "\<exists>s'. copy_address_range_state src dst len s = Some s' \<and> mem_ok s' \<and> env s' = env s \<and> copied (view s) (view s') src dst {0..<?n}"
      using u(2,3) t(4) by simp
    then show ?thesis by (rule fin)
  next
    case slow: False
    show ?thesis
    proof (cases "src < dst")
      case True
      have "copy_address_range_state src dst len s = copy_down_loop ?n src dst (len - 1) s"
        using False slow True by (auto simp: copy_address_range_state_def Let_def)
      moreover have "?n = 0 \<or> len - 1 = of_nat (?n - 1)"
      proof -
        have "unat (len - 1) = ?n - 1" using False by (simp add: unat_minus_one)
        then have "of_nat (?n - 1) = (of_nat (unat (len - 1)) :: SizeT)" by simp
        then show ?thesis by simp
      qed
      ultimately show ?thesis
        using fin copy_down_loop_ok [OF assms(1,2), of src dst ?n "len - 1"] False safe(2) True n64 by simp
    next
      case up': False
      then have "dst < src" using False by (metis linorder_neqE)
      then show ?thesis
        using fin copy_up_loop_ok [OF assms(1,2), of src dst 0 ?n ?n] False slow up' safe(1) n64
        by (auto simp: copy_address_range_state_def Let_def)
    qed
  qed
qed

subsection \<open>Properties\<close>

lemma sample_mem_level: "clo_mc_level sample_mem = 2"
proof -
  let ?s = "init_shadow_memory (\<lambda>_. True) False 2"
  have "VA_BITS2_UNDEFINED \<le> 3" by (simp add: va_consts)
  then obtain t where t: "set_vabits2 0x1000 VA_BITS2_UNDEFINED ?s = Some t" "vtab t = vtab ?s"
    using set_vabits2_ok [OF init_mc_ok init_alloc_ok] by blast
  then show ?thesis by (simp add: sample_mem_def vtab_def init_shadow_memory_def)
qed

text \<open>C1. Setting the permissions of a range returns and sets exactly the bytes at distance less
  than the length from its start (modulo the address space) to the requested state; every other
  byte keeps its state. It covers ranges inside one secondary map, across maps, of whole maps and
  around the end of the address space, for all start addresses and lengths.\<close>

theorem set_address_range_perms_correct:
  assumes "mem_ok s" "alloc_ok s" "(w16, d, p) \<in> {(VA_BITS16_NOACCESS, SM_DIST_NOACCESS, None),
     (VA_BITS16_UNDEFINED, SM_DIST_UNDEFINED, Some V_BITS8_UNDEFINED), (VA_BITS16_DEFINED, SM_DIST_DEFINED, Some V_BITS8_DEFINED)}"
  shows "\<exists>s'. set_address_range_perms a len w16 d s = Some s' \<and> mem_ok s' \<and>
    view s' = (\<lambda>y. if y - a < len then p else view s y) \<and> address_errors s' = address_errors s"
  using set_address_range_perms_ok [OF assms, of a len] by (auto simp: env_def unat_less_iff fun_eq_iff)

theorem set_address_range_perms_correct_witness:
  "\<exists>s'. set_address_range_perms 0x1FFF0 0x20020 VA_BITS16_DEFINED SM_DIST_DEFINED sample_mem = Some s' \<and>
     mem_ok s' \<and> view s' 0x2FFFF = Some V_BITS8_DEFINED \<and> view s' 0x40010 = None \<and> view s' 0x1000 = Some V_BITS8_UNDEFINED"
  using set_address_range_perms_correct [OF sample_mem_ok(1,2), of VA_BITS16_DEFINED SM_DIST_DEFINED "Some V_BITS8_DEFINED" "0x1FFF0" "0x20020"]
  by (auto simp: sample_mem_ok(3))

text \<open>The three public operations on permissions: afterwards the bytes of the range are
  inaccessible, undefined or defined, the rest of memory is unchanged and the invariant holds; at
  level 3 the origin tracking cache is told.\<close>

lemma make_mem_correct:
  assumes "mem_ok s" "alloc_ok s"
  shows "(\<exists>s'. make_mem_noaccess a len s = Some s' \<and> mem_ok s' \<and> view s' = (\<lambda>y. if y - a < len then None else view s y) \<and>
      ocache_calls s' = ocache_calls s @ (if clo_mc_level s = 3 then [ocache_sarp_Clear_Origins a len] else [])) \<and>
    (\<exists>s'. make_mem_undefined_w_otag a len otag s = Some s' \<and> mem_ok s' \<and>
      view s' = (\<lambda>y. if y - a < len then Some V_BITS8_UNDEFINED else view s y) \<and>
      ocache_calls s' = ocache_calls s @ (if clo_mc_level s = 3 then [ocache_sarp_Set_Origins a len otag] else [])) \<and>
    (\<exists>s'. make_mem_defined a len s = Some s' \<and> mem_ok s' \<and> view s' = (\<lambda>y. if y - a < len then Some V_BITS8_DEFINED else view s y) \<and>
      ocache_calls s' = ocache_calls s @ (if clo_mc_level s = 3 then [ocache_sarp_Clear_Origins a len] else []))"
proof -
  note r = set_address_range_perms_ok [OF assms, of _ _ _ a len, folded unat_less_iff]
  show ?thesis
    using r [of VA_BITS16_NOACCESS SM_DIST_NOACCESS None] r [of VA_BITS16_UNDEFINED SM_DIST_UNDEFINED "Some V_BITS8_UNDEFINED"]
      r [of VA_BITS16_DEFINED SM_DIST_DEFINED "Some V_BITS8_DEFINED"]
    by (auto simp: make_mem_noaccess_def make_mem_undefined_w_otag_def make_mem_defined_def env_def)
qed

text \<open>Making a range defined where addressable turns exactly its accessible bytes defined and
  gives no access to any other.\<close>

lemma make_mem_defined_if_addressable_correct:
  assumes "mem_ok s" "alloc_ok s"
  shows "\<exists>s'. make_mem_defined_if_addressable a len s = Some s' \<and> mem_ok s' \<and>
    view s' = (\<lambda>y. if y - a < len \<and> view s y \<noteq> None then Some V_BITS8_DEFINED else view s y)"
  using defined_if_addressable_ok [OF assms len_le [of len], of a] by (auto simp: make_mem_defined_if_addressable_def unat_less_iff)

text \<open>C2. Copying the state of a range (as \<^verbatim>\<open>realloc\<close> and \<^verbatim>\<open>mremap\<close> need it) has the effect of a
  simultaneous copy: every destination byte gets the state its source byte had before, partially
  defined bytes included, also when the ranges overlap in either direction and in the vectorised
  case. The ranges must end below the top of the address space: the overlap test of the code
  computes their ends modulo the word size.\<close>

theorem copy_address_range_state_correct:
  assumes "mem_ok s" "alloc_ok s" "unat src + unat len < 2 ^ 64" "unat dst + unat len < 2 ^ 64"
  shows "\<exists>s'. copy_address_range_state src dst len s = Some s' \<and> mem_ok s' \<and>
    view s' = (\<lambda>y. if y - dst < len then view s (src + (y - dst)) else view s y)"
  using copy_address_range_state_ok [OF assms(1,2), of src len dst] assms(3,4) by (auto simp: unat_less_iff)

theorem copy_address_range_state_correct_witness:
  "\<exists>s'. copy_address_range_state 0xFFC 0x1000 12 sample_mem = Some s' \<and> mem_ok s' \<and>
     view s' 0x1000 = None \<and> view s' 0x1004 = Some V_BITS8_UNDEFINED"
  using copy_address_range_state_correct [OF sample_mem_ok(1,2), of "0xFFC" 12 "0x1000"] by (auto simp: sample_mem_ok(3))

text \<open>The check that a range is inaccessible and the check that it is addressable change
  nothing, answer the question, and on failure name the lowest offending address.\<close>

lemma check_range_correct:
  assumes "mem_ok s"
  shows "(\<exists>s'. check_mem_is_noaccess a len s =
        Some (\<forall>i < unat len. view s (a + of_nat i) = None, first_addr (\<lambda>x. view s x \<noteq> None) a (unat len), s') \<and> view s' = view s) \<and>
    (\<exists>s'. is_mem_addressable a len s =
        Some (\<forall>i < unat len. view s (a + of_nat i) \<noteq> None, first_addr (\<lambda>x. view s x = None) a (unat len), s') \<and> view s' = view s)"
proof -
  have f: "first_addr P a n = None \<longleftrightarrow> (\<forall>i<n. \<not> P (a + of_nat i))" for P n
    by (auto simp: first_addr_def find_None_iff)
  show ?thesis
    using check_noaccess_loop_ok [OF assms, of "unat len" a] addressable_loop_ok [OF assms, of "unat len" a]
    by (auto simp: check_mem_is_noaccess_def is_mem_addressable_def f)
qed

text \<open>Checking that a range is defined prefers address errors to value errors only in order of
  addresses: the result is decided by the first byte that is inaccessible or, from level 2 on, not
  fully defined, and that byte is the one reported.\<close>

lemma is_mem_defined_correct:
  assumes "mem_ok s"
  shows "\<exists>r b s'. is_mem_defined a len s = Some (r, b, s') \<and> mem_ok s' \<and> view s' = view s \<and>
     (case first_addr (read_error s) a (unat len) of
        None \<Rightarrow> r = MC_Ok
      | Some x \<Rightarrow> b = x \<and> r = (if view s x = None then MC_AddrErr else MC_ValueErr))"
  unfolding is_mem_defined_def using is_mem_defined_loop_ok [OF assms, of "unat len" a 0] by blast

end
