(* ===== verification/StackPerms.thy ===== *)
theory StackPerms
  imports MemPerms
begin

text \<open>
  Stack pointer adjustment, \<^verbatim>\<open>memcheck/mc_main.c\<close>: the aligned fast setters, the unrolled handlers
  for the common adjustments, with and without origin tracking, and
  \<^verbatim>\<open>MC_(helperc_MAKE_STACK_UNINIT)\<close> with its cache from instruction addresses to execution
  context numbers. The red zone is that of amd64.
\<close>

definition VG_IS_4_ALIGNED :: "Addr \<Rightarrow> bool" where "VG_IS_4_ALIGNED a \<longleftrightarrow> 0 = a AND 3"
definition VG_IS_8_ALIGNED :: "Addr \<Rightarrow> bool" where "VG_IS_8_ALIGNED a \<longleftrightarrow> 0 = a AND 7"
definition VG_STACK_REDZONE_SZB :: Addr where "VG_STACK_REDZONE_SZB = 128"
definition MC_OKIND_STACK :: UInt where "MC_OKIND_STACK = 2"

definition OC_W32S_PER_LINE :: nat where "OC_W32S_PER_LINE = 8"

definition oc_line_offset :: "Addr \<Rightarrow> nat" where
  "oc_line_offset a = unat (drop_bit 2 a AND of_nat (OC_W32S_PER_LINE - 1))"

definition log_ocache :: "ocache_call \<Rightarrow> mc_state \<Rightarrow> mc_state" where
  "log_ocache c s = s\<lparr>ocache_calls := ocache_calls s @ [c]\<rparr>"

subsection \<open>Aligned fast case permission setters\<close>

definition make_aligned_word32_undefined :: "Addr \<Rightarrow> mc_state \<Rightarrow> mc_state option" where
  "make_aligned_word32_undefined a s =
     (if a > MAX_PRIMARY_ADDRESS then make_mem_undefined a 4 s
      else do {
        (sm, s) \<leftarrow> get_secmap_for_writing_low a s;
        Some (write_secmap sm (SM_OFF a) VA_BITS8_UNDEFINED s) })"

definition make_aligned_word32_undefined_w_otag :: "Addr \<Rightarrow> UInt \<Rightarrow> mc_state \<Rightarrow> mc_state option" where
  "make_aligned_word32_undefined_w_otag a otag s = do {
     s \<leftarrow> make_aligned_word32_undefined a s;
     Some (log_ocache (oc_set_word32 a otag) s) }"

definition make_aligned_word32_noaccess :: "Addr \<Rightarrow> mc_state \<Rightarrow> mc_state option" where
  "make_aligned_word32_noaccess a s =
     (if a > MAX_PRIMARY_ADDRESS then make_mem_noaccess a 4 s
      else do {
        (sm, s) \<leftarrow> get_secmap_for_writing_low a s;
        let s = write_secmap sm (SM_OFF a) VA_BITS8_NOACCESS s;
        Some (if clo_mc_level s = 3 then log_ocache (oc_clear_word32 a) s else s) })"

definition make_aligned_word64_undefined :: "Addr \<Rightarrow> mc_state \<Rightarrow> mc_state option" where
  "make_aligned_word64_undefined a s =
     (if a > MAX_PRIMARY_ADDRESS then make_mem_undefined a 8 s
      else do {
        (sm, s) \<leftarrow> get_secmap_for_writing_low a s;
        Some (write_vabits16 sm (SM_OFF_16 a) VA_BITS16_UNDEFINED s) })"

definition make_aligned_word64_undefined_w_otag :: "Addr \<Rightarrow> UInt \<Rightarrow> mc_state \<Rightarrow> mc_state option" where
  "make_aligned_word64_undefined_w_otag a otag s = do {
     s \<leftarrow> make_aligned_word64_undefined a s;
     vg_assert (oc_line_offset a < OC_W32S_PER_LINE - 1);
     Some (log_ocache (oc_set_word64 a otag) s) }"

definition make_aligned_word64_noaccess :: "Addr \<Rightarrow> mc_state \<Rightarrow> mc_state option" where
  "make_aligned_word64_noaccess a s =
     (if a > MAX_PRIMARY_ADDRESS then make_mem_noaccess a 8 s
      else do {
        (sm, s) \<leftarrow> get_secmap_for_writing_low a s;
        let s = write_vabits16 sm (SM_OFF_16 a) VA_BITS16_NOACCESS s;
        if clo_mc_level s = 3 then do {
          vg_assert (oc_line_offset a < OC_W32S_PER_LINE - 1);
          Some (log_ocache (oc_clear_word64 a) s) }
        else Some s })"

subsection \<open>Stack pointer adjustment\<close>

definition mc_new_mem_stack_4_w_ECU :: "Addr \<Rightarrow> UInt \<Rightarrow> mc_state \<Rightarrow> mc_state option" where
  "mc_new_mem_stack_4_w_ECU new_SP ecu s =
     (let otag = ecu OR MC_OKIND_STACK in
     if VG_IS_4_ALIGNED (- VG_STACK_REDZONE_SZB + new_SP) then make_aligned_word32_undefined_w_otag (- VG_STACK_REDZONE_SZB + new_SP) otag s
     else make_mem_undefined_w_otag (- VG_STACK_REDZONE_SZB + new_SP) 4 otag s)"

definition mc_new_mem_stack_4 :: "Addr \<Rightarrow> mc_state \<Rightarrow> mc_state option" where
  "mc_new_mem_stack_4 new_SP s =
     (if VG_IS_4_ALIGNED (- VG_STACK_REDZONE_SZB + new_SP) then make_aligned_word32_undefined (- VG_STACK_REDZONE_SZB + new_SP) s
     else make_mem_undefined (- VG_STACK_REDZONE_SZB + new_SP) 4 s)"

definition mc_die_mem_stack_4 :: "Addr \<Rightarrow> mc_state \<Rightarrow> mc_state option" where
  "mc_die_mem_stack_4 new_SP s =
     (if VG_IS_4_ALIGNED (- VG_STACK_REDZONE_SZB + new_SP) then make_aligned_word32_noaccess (- VG_STACK_REDZONE_SZB + new_SP - 4) s
     else make_mem_noaccess (- VG_STACK_REDZONE_SZB + new_SP - 4) 4 s)"

definition mc_new_mem_stack_8_w_ECU :: "Addr \<Rightarrow> UInt \<Rightarrow> mc_state \<Rightarrow> mc_state option" where
  "mc_new_mem_stack_8_w_ECU new_SP ecu s =
     (let otag = ecu OR MC_OKIND_STACK in
     if VG_IS_8_ALIGNED (- VG_STACK_REDZONE_SZB + new_SP) then make_aligned_word64_undefined_w_otag (- VG_STACK_REDZONE_SZB + new_SP) otag s
     else if VG_IS_4_ALIGNED (- VG_STACK_REDZONE_SZB + new_SP) then do {
         s \<leftarrow> make_aligned_word32_undefined_w_otag (- VG_STACK_REDZONE_SZB + new_SP) otag s;
         make_aligned_word32_undefined_w_otag (- VG_STACK_REDZONE_SZB + new_SP + 4) otag s }
     else make_mem_undefined_w_otag (- VG_STACK_REDZONE_SZB + new_SP) 8 otag s)"

definition mc_new_mem_stack_8 :: "Addr \<Rightarrow> mc_state \<Rightarrow> mc_state option" where
  "mc_new_mem_stack_8 new_SP s =
     (if VG_IS_8_ALIGNED (- VG_STACK_REDZONE_SZB + new_SP) then make_aligned_word64_undefined (- VG_STACK_REDZONE_SZB + new_SP) s
     else if VG_IS_4_ALIGNED (- VG_STACK_REDZONE_SZB + new_SP) then do {
         s \<leftarrow> make_aligned_word32_undefined (- VG_STACK_REDZONE_SZB + new_SP) s;
         make_aligned_word32_undefined (- VG_STACK_REDZONE_SZB + new_SP + 4) s }
     else make_mem_undefined (- VG_STACK_REDZONE_SZB + new_SP) 8 s)"

definition mc_die_mem_stack_8 :: "Addr \<Rightarrow> mc_state \<Rightarrow> mc_state option" where
  "mc_die_mem_stack_8 new_SP s =
     (if VG_IS_8_ALIGNED (- VG_STACK_REDZONE_SZB + new_SP) then make_aligned_word64_noaccess (- VG_STACK_REDZONE_SZB + new_SP - 8) s
     else if VG_IS_4_ALIGNED (- VG_STACK_REDZONE_SZB + new_SP) then do {
         s \<leftarrow> make_aligned_word32_noaccess (- VG_STACK_REDZONE_SZB + new_SP - 8) s;
         make_aligned_word32_noaccess (- VG_STACK_REDZONE_SZB + new_SP - 4) s }
     else make_mem_noaccess (- VG_STACK_REDZONE_SZB + new_SP - 8) 8 s)"

definition mc_new_mem_stack_12_w_ECU :: "Addr \<Rightarrow> UInt \<Rightarrow> mc_state \<Rightarrow> mc_state option" where
  "mc_new_mem_stack_12_w_ECU new_SP ecu s =
     (let otag = ecu OR MC_OKIND_STACK in
     if VG_IS_8_ALIGNED (- VG_STACK_REDZONE_SZB + new_SP) then do {
         s \<leftarrow> make_aligned_word64_undefined_w_otag (- VG_STACK_REDZONE_SZB + new_SP) otag s;
         make_aligned_word32_undefined_w_otag (- VG_STACK_REDZONE_SZB + new_SP + 8) otag s }
     else if VG_IS_4_ALIGNED (- VG_STACK_REDZONE_SZB + new_SP) then do {
         s \<leftarrow> make_aligned_word32_undefined_w_otag (- VG_STACK_REDZONE_SZB + new_SP) otag s;
         make_aligned_word64_undefined_w_otag (- VG_STACK_REDZONE_SZB + new_SP + 4) otag s }
     else make_mem_undefined_w_otag (- VG_STACK_REDZONE_SZB + new_SP) 12 otag s)"

definition mc_new_mem_stack_12 :: "Addr \<Rightarrow> mc_state \<Rightarrow> mc_state option" where
  "mc_new_mem_stack_12 new_SP s =
     (if VG_IS_8_ALIGNED (- VG_STACK_REDZONE_SZB + new_SP) then do {
         s \<leftarrow> make_aligned_word64_undefined (- VG_STACK_REDZONE_SZB + new_SP) s;
         make_aligned_word32_undefined (- VG_STACK_REDZONE_SZB + new_SP + 8) s }
     else if VG_IS_4_ALIGNED (- VG_STACK_REDZONE_SZB + new_SP) then do {
         s \<leftarrow> make_aligned_word32_undefined (- VG_STACK_REDZONE_SZB + new_SP) s;
         make_aligned_word64_undefined (- VG_STACK_REDZONE_SZB + new_SP + 4) s }
     else make_mem_undefined (- VG_STACK_REDZONE_SZB + new_SP) 12 s)"

definition mc_die_mem_stack_12 :: "Addr \<Rightarrow> mc_state \<Rightarrow> mc_state option" where
  "mc_die_mem_stack_12 new_SP s =
     (if VG_IS_8_ALIGNED (- VG_STACK_REDZONE_SZB + new_SP - 12) then do {
         s \<leftarrow> make_aligned_word64_noaccess (- VG_STACK_REDZONE_SZB + new_SP - 12) s;
         make_aligned_word32_noaccess (- VG_STACK_REDZONE_SZB + new_SP - 4) s }
     else if VG_IS_4_ALIGNED (- VG_STACK_REDZONE_SZB + new_SP) then do {
         s \<leftarrow> make_aligned_word32_noaccess (- VG_STACK_REDZONE_SZB + new_SP - 12) s;
         make_aligned_word64_noaccess (- VG_STACK_REDZONE_SZB + new_SP - 8) s }
     else make_mem_noaccess (- VG_STACK_REDZONE_SZB + new_SP - 12) 12 s)"

definition mc_new_mem_stack_16_w_ECU :: "Addr \<Rightarrow> UInt \<Rightarrow> mc_state \<Rightarrow> mc_state option" where
  "mc_new_mem_stack_16_w_ECU new_SP ecu s =
     (let otag = ecu OR MC_OKIND_STACK in
     if VG_IS_8_ALIGNED (- VG_STACK_REDZONE_SZB + new_SP) then do {
         s \<leftarrow> make_aligned_word64_undefined_w_otag (- VG_STACK_REDZONE_SZB + new_SP) otag s;
         make_aligned_word64_undefined_w_otag (- VG_STACK_REDZONE_SZB + new_SP + 8) otag s }
     else if VG_IS_4_ALIGNED (- VG_STACK_REDZONE_SZB + new_SP) then do {
         s \<leftarrow> make_aligned_word32_undefined_w_otag (- VG_STACK_REDZONE_SZB + new_SP) otag s;
         s \<leftarrow> make_aligned_word64_undefined_w_otag (- VG_STACK_REDZONE_SZB + new_SP + 4) otag s;
         make_aligned_word32_undefined_w_otag (- VG_STACK_REDZONE_SZB + new_SP + 12) otag s }
     else make_mem_undefined_w_otag (- VG_STACK_REDZONE_SZB + new_SP) 16 otag s)"

definition mc_new_mem_stack_16 :: "Addr \<Rightarrow> mc_state \<Rightarrow> mc_state option" where
  "mc_new_mem_stack_16 new_SP s =
     (if VG_IS_8_ALIGNED (- VG_STACK_REDZONE_SZB + new_SP) then do {
         s \<leftarrow> make_aligned_word64_undefined (- VG_STACK_REDZONE_SZB + new_SP) s;
         make_aligned_word64_undefined (- VG_STACK_REDZONE_SZB + new_SP + 8) s }
     else if VG_IS_4_ALIGNED (- VG_STACK_REDZONE_SZB + new_SP) then do {
         s \<leftarrow> make_aligned_word32_undefined (- VG_STACK_REDZONE_SZB + new_SP) s;
         s \<leftarrow> make_aligned_word64_undefined (- VG_STACK_REDZONE_SZB + new_SP + 4) s;
         make_aligned_word32_undefined (- VG_STACK_REDZONE_SZB + new_SP + 12) s }
     else make_mem_undefined (- VG_STACK_REDZONE_SZB + new_SP) 16 s)"

definition mc_die_mem_stack_16 :: "Addr \<Rightarrow> mc_state \<Rightarrow> mc_state option" where
  "mc_die_mem_stack_16 new_SP s =
     (if VG_IS_8_ALIGNED (- VG_STACK_REDZONE_SZB + new_SP) then do {
         s \<leftarrow> make_aligned_word64_noaccess (- VG_STACK_REDZONE_SZB + new_SP - 16) s;
         make_aligned_word64_noaccess (- VG_STACK_REDZONE_SZB + new_SP - 8) s }
     else if VG_IS_4_ALIGNED (- VG_STACK_REDZONE_SZB + new_SP) then do {
         s \<leftarrow> make_aligned_word32_noaccess (- VG_STACK_REDZONE_SZB + new_SP - 16) s;
         s \<leftarrow> make_aligned_word64_noaccess (- VG_STACK_REDZONE_SZB + new_SP - 12) s;
         make_aligned_word32_noaccess (- VG_STACK_REDZONE_SZB + new_SP - 4) s }
     else make_mem_noaccess (- VG_STACK_REDZONE_SZB + new_SP - 16) 16 s)"

definition mc_new_mem_stack_32_w_ECU :: "Addr \<Rightarrow> UInt \<Rightarrow> mc_state \<Rightarrow> mc_state option" where
  "mc_new_mem_stack_32_w_ECU new_SP ecu s =
     (let otag = ecu OR MC_OKIND_STACK in
     if VG_IS_8_ALIGNED (- VG_STACK_REDZONE_SZB + new_SP) then do {
         s \<leftarrow> make_aligned_word64_undefined_w_otag (- VG_STACK_REDZONE_SZB + new_SP) otag s;
         s \<leftarrow> make_aligned_word64_undefined_w_otag (- VG_STACK_REDZONE_SZB + new_SP + 8) otag s;
         s \<leftarrow> make_aligned_word64_undefined_w_otag (- VG_STACK_REDZONE_SZB + new_SP + 16) otag s;
         make_aligned_word64_undefined_w_otag (- VG_STACK_REDZONE_SZB + new_SP + 24) otag s }
     else if VG_IS_4_ALIGNED (- VG_STACK_REDZONE_SZB + new_SP) then do {
         s \<leftarrow> make_aligned_word32_undefined_w_otag (- VG_STACK_REDZONE_SZB + new_SP) otag s;
         s \<leftarrow> make_aligned_word64_undefined_w_otag (- VG_STACK_REDZONE_SZB + new_SP + 4) otag s;
         s \<leftarrow> make_aligned_word64_undefined_w_otag (- VG_STACK_REDZONE_SZB + new_SP + 12) otag s;
         s \<leftarrow> make_aligned_word64_undefined_w_otag (- VG_STACK_REDZONE_SZB + new_SP + 20) otag s;
         make_aligned_word32_undefined_w_otag (- VG_STACK_REDZONE_SZB + new_SP + 28) otag s }
     else make_mem_undefined_w_otag (- VG_STACK_REDZONE_SZB + new_SP) 32 otag s)"

definition mc_new_mem_stack_32 :: "Addr \<Rightarrow> mc_state \<Rightarrow> mc_state option" where
  "mc_new_mem_stack_32 new_SP s =
     (if VG_IS_8_ALIGNED (- VG_STACK_REDZONE_SZB + new_SP) then do {
         s \<leftarrow> make_aligned_word64_undefined (- VG_STACK_REDZONE_SZB + new_SP) s;
         s \<leftarrow> make_aligned_word64_undefined (- VG_STACK_REDZONE_SZB + new_SP + 8) s;
         s \<leftarrow> make_aligned_word64_undefined (- VG_STACK_REDZONE_SZB + new_SP + 16) s;
         make_aligned_word64_undefined (- VG_STACK_REDZONE_SZB + new_SP + 24) s }
     else if VG_IS_4_ALIGNED (- VG_STACK_REDZONE_SZB + new_SP) then do {
         s \<leftarrow> make_aligned_word32_undefined (- VG_STACK_REDZONE_SZB + new_SP) s;
         s \<leftarrow> make_aligned_word64_undefined (- VG_STACK_REDZONE_SZB + new_SP + 4) s;
         s \<leftarrow> make_aligned_word64_undefined (- VG_STACK_REDZONE_SZB + new_SP + 12) s;
         s \<leftarrow> make_aligned_word64_undefined (- VG_STACK_REDZONE_SZB + new_SP + 20) s;
         make_aligned_word32_undefined (- VG_STACK_REDZONE_SZB + new_SP + 28) s }
     else make_mem_undefined (- VG_STACK_REDZONE_SZB + new_SP) 32 s)"

definition mc_die_mem_stack_32 :: "Addr \<Rightarrow> mc_state \<Rightarrow> mc_state option" where
  "mc_die_mem_stack_32 new_SP s =
     (if VG_IS_8_ALIGNED (- VG_STACK_REDZONE_SZB + new_SP) then do {
         s \<leftarrow> make_aligned_word64_noaccess (- VG_STACK_REDZONE_SZB + new_SP - 32) s;
         s \<leftarrow> make_aligned_word64_noaccess (- VG_STACK_REDZONE_SZB + new_SP - 24) s;
         s \<leftarrow> make_aligned_word64_noaccess (- VG_STACK_REDZONE_SZB + new_SP - 16) s;
         make_aligned_word64_noaccess (- VG_STACK_REDZONE_SZB + new_SP - 8) s }
     else if VG_IS_4_ALIGNED (- VG_STACK_REDZONE_SZB + new_SP) then do {
         s \<leftarrow> make_aligned_word32_noaccess (- VG_STACK_REDZONE_SZB + new_SP - 32) s;
         s \<leftarrow> make_aligned_word64_noaccess (- VG_STACK_REDZONE_SZB + new_SP - 28) s;
         s \<leftarrow> make_aligned_word64_noaccess (- VG_STACK_REDZONE_SZB + new_SP - 20) s;
         s \<leftarrow> make_aligned_word64_noaccess (- VG_STACK_REDZONE_SZB + new_SP - 12) s;
         make_aligned_word32_noaccess (- VG_STACK_REDZONE_SZB + new_SP - 4) s }
     else make_mem_noaccess (- VG_STACK_REDZONE_SZB + new_SP - 32) 32 s)"

definition mc_new_mem_stack_112_w_ECU :: "Addr \<Rightarrow> UInt \<Rightarrow> mc_state \<Rightarrow> mc_state option" where
  "mc_new_mem_stack_112_w_ECU new_SP ecu s =
     (let otag = ecu OR MC_OKIND_STACK in
     if VG_IS_8_ALIGNED (- VG_STACK_REDZONE_SZB + new_SP) then do {
         s \<leftarrow> make_aligned_word64_undefined_w_otag (- VG_STACK_REDZONE_SZB + new_SP) otag s;
         s \<leftarrow> make_aligned_word64_undefined_w_otag (- VG_STACK_REDZONE_SZB + new_SP + 8) otag s;
         s \<leftarrow> make_aligned_word64_undefined_w_otag (- VG_STACK_REDZONE_SZB + new_SP + 16) otag s;
         s \<leftarrow> make_aligned_word64_undefined_w_otag (- VG_STACK_REDZONE_SZB + new_SP + 24) otag s;
         s \<leftarrow> make_aligned_word64_undefined_w_otag (- VG_STACK_REDZONE_SZB + new_SP + 32) otag s;
         s \<leftarrow> make_aligned_word64_undefined_w_otag (- VG_STACK_REDZONE_SZB + new_SP + 40) otag s;
         s \<leftarrow> make_aligned_word64_undefined_w_otag (- VG_STACK_REDZONE_SZB + new_SP + 48) otag s;
         s \<leftarrow> make_aligned_word64_undefined_w_otag (- VG_STACK_REDZONE_SZB + new_SP + 56) otag s;
         s \<leftarrow> make_aligned_word64_undefined_w_otag (- VG_STACK_REDZONE_SZB + new_SP + 64) otag s;
         s \<leftarrow> make_aligned_word64_undefined_w_otag (- VG_STACK_REDZONE_SZB + new_SP + 72) otag s;
         s \<leftarrow> make_aligned_word64_undefined_w_otag (- VG_STACK_REDZONE_SZB + new_SP + 80) otag s;
         s \<leftarrow> make_aligned_word64_undefined_w_otag (- VG_STACK_REDZONE_SZB + new_SP + 88) otag s;
         s \<leftarrow> make_aligned_word64_undefined_w_otag (- VG_STACK_REDZONE_SZB + new_SP + 96) otag s;
         make_aligned_word64_undefined_w_otag (- VG_STACK_REDZONE_SZB + new_SP + 104) otag s }
     else make_mem_undefined_w_otag (- VG_STACK_REDZONE_SZB + new_SP) 112 otag s)"

definition mc_new_mem_stack_112 :: "Addr \<Rightarrow> mc_state \<Rightarrow> mc_state option" where
  "mc_new_mem_stack_112 new_SP s =
     (if VG_IS_8_ALIGNED (- VG_STACK_REDZONE_SZB + new_SP) then do {
         s \<leftarrow> make_aligned_word64_undefined (- VG_STACK_REDZONE_SZB + new_SP) s;
         s \<leftarrow> make_aligned_word64_undefined (- VG_STACK_REDZONE_SZB + new_SP + 8) s;
         s \<leftarrow> make_aligned_word64_undefined (- VG_STACK_REDZONE_SZB + new_SP + 16) s;
         s \<leftarrow> make_aligned_word64_undefined (- VG_STACK_REDZONE_SZB + new_SP + 24) s;
         s \<leftarrow> make_aligned_word64_undefined (- VG_STACK_REDZONE_SZB + new_SP + 32) s;
         s \<leftarrow> make_aligned_word64_undefined (- VG_STACK_REDZONE_SZB + new_SP + 40) s;
         s \<leftarrow> make_aligned_word64_undefined (- VG_STACK_REDZONE_SZB + new_SP + 48) s;
         s \<leftarrow> make_aligned_word64_undefined (- VG_STACK_REDZONE_SZB + new_SP + 56) s;
         s \<leftarrow> make_aligned_word64_undefined (- VG_STACK_REDZONE_SZB + new_SP + 64) s;
         s \<leftarrow> make_aligned_word64_undefined (- VG_STACK_REDZONE_SZB + new_SP + 72) s;
         s \<leftarrow> make_aligned_word64_undefined (- VG_STACK_REDZONE_SZB + new_SP + 80) s;
         s \<leftarrow> make_aligned_word64_undefined (- VG_STACK_REDZONE_SZB + new_SP + 88) s;
         s \<leftarrow> make_aligned_word64_undefined (- VG_STACK_REDZONE_SZB + new_SP + 96) s;
         make_aligned_word64_undefined (- VG_STACK_REDZONE_SZB + new_SP + 104) s }
     else make_mem_undefined (- VG_STACK_REDZONE_SZB + new_SP) 112 s)"

definition mc_die_mem_stack_112 :: "Addr \<Rightarrow> mc_state \<Rightarrow> mc_state option" where
  "mc_die_mem_stack_112 new_SP s =
     (if VG_IS_8_ALIGNED (- VG_STACK_REDZONE_SZB + new_SP) then do {
         s \<leftarrow> make_aligned_word64_noaccess (- VG_STACK_REDZONE_SZB + new_SP - 112) s;
         s \<leftarrow> make_aligned_word64_noaccess (- VG_STACK_REDZONE_SZB + new_SP - 104) s;
         s \<leftarrow> make_aligned_word64_noaccess (- VG_STACK_REDZONE_SZB + new_SP - 96) s;
         s \<leftarrow> make_aligned_word64_noaccess (- VG_STACK_REDZONE_SZB + new_SP - 88) s;
         s \<leftarrow> make_aligned_word64_noaccess (- VG_STACK_REDZONE_SZB + new_SP - 80) s;
         s \<leftarrow> make_aligned_word64_noaccess (- VG_STACK_REDZONE_SZB + new_SP - 72) s;
         s \<leftarrow> make_aligned_word64_noaccess (- VG_STACK_REDZONE_SZB + new_SP - 64) s;
         s \<leftarrow> make_aligned_word64_noaccess (- VG_STACK_REDZONE_SZB + new_SP - 56) s;
         s \<leftarrow> make_aligned_word64_noaccess (- VG_STACK_REDZONE_SZB + new_SP - 48) s;
         s \<leftarrow> make_aligned_word64_noaccess (- VG_STACK_REDZONE_SZB + new_SP - 40) s;
         s \<leftarrow> make_aligned_word64_noaccess (- VG_STACK_REDZONE_SZB + new_SP - 32) s;
         s \<leftarrow> make_aligned_word64_noaccess (- VG_STACK_REDZONE_SZB + new_SP - 24) s;
         s \<leftarrow> make_aligned_word64_noaccess (- VG_STACK_REDZONE_SZB + new_SP - 16) s;
         make_aligned_word64_noaccess (- VG_STACK_REDZONE_SZB + new_SP - 8) s }
     else make_mem_noaccess (- VG_STACK_REDZONE_SZB + new_SP - 112) 112 s)"

definition mc_new_mem_stack_128_w_ECU :: "Addr \<Rightarrow> UInt \<Rightarrow> mc_state \<Rightarrow> mc_state option" where
  "mc_new_mem_stack_128_w_ECU new_SP ecu s =
     (let otag = ecu OR MC_OKIND_STACK in
     if VG_IS_8_ALIGNED (- VG_STACK_REDZONE_SZB + new_SP) then do {
         s \<leftarrow> make_aligned_word64_undefined_w_otag (- VG_STACK_REDZONE_SZB + new_SP) otag s;
         s \<leftarrow> make_aligned_word64_undefined_w_otag (- VG_STACK_REDZONE_SZB + new_SP + 8) otag s;
         s \<leftarrow> make_aligned_word64_undefined_w_otag (- VG_STACK_REDZONE_SZB + new_SP + 16) otag s;
         s \<leftarrow> make_aligned_word64_undefined_w_otag (- VG_STACK_REDZONE_SZB + new_SP + 24) otag s;
         s \<leftarrow> make_aligned_word64_undefined_w_otag (- VG_STACK_REDZONE_SZB + new_SP + 32) otag s;
         s \<leftarrow> make_aligned_word64_undefined_w_otag (- VG_STACK_REDZONE_SZB + new_SP + 40) otag s;
         s \<leftarrow> make_aligned_word64_undefined_w_otag (- VG_STACK_REDZONE_SZB + new_SP + 48) otag s;
         s \<leftarrow> make_aligned_word64_undefined_w_otag (- VG_STACK_REDZONE_SZB + new_SP + 56) otag s;
         s \<leftarrow> make_aligned_word64_undefined_w_otag (- VG_STACK_REDZONE_SZB + new_SP + 64) otag s;
         s \<leftarrow> make_aligned_word64_undefined_w_otag (- VG_STACK_REDZONE_SZB + new_SP + 72) otag s;
         s \<leftarrow> make_aligned_word64_undefined_w_otag (- VG_STACK_REDZONE_SZB + new_SP + 80) otag s;
         s \<leftarrow> make_aligned_word64_undefined_w_otag (- VG_STACK_REDZONE_SZB + new_SP + 88) otag s;
         s \<leftarrow> make_aligned_word64_undefined_w_otag (- VG_STACK_REDZONE_SZB + new_SP + 96) otag s;
         s \<leftarrow> make_aligned_word64_undefined_w_otag (- VG_STACK_REDZONE_SZB + new_SP + 104) otag s;
         s \<leftarrow> make_aligned_word64_undefined_w_otag (- VG_STACK_REDZONE_SZB + new_SP + 112) otag s;
         make_aligned_word64_undefined_w_otag (- VG_STACK_REDZONE_SZB + new_SP + 120) otag s }
     else make_mem_undefined_w_otag (- VG_STACK_REDZONE_SZB + new_SP) 128 otag s)"

definition mc_new_mem_stack_128 :: "Addr \<Rightarrow> mc_state \<Rightarrow> mc_state option" where
  "mc_new_mem_stack_128 new_SP s =
     (if VG_IS_8_ALIGNED (- VG_STACK_REDZONE_SZB + new_SP) then do {
         s \<leftarrow> make_aligned_word64_undefined (- VG_STACK_REDZONE_SZB + new_SP) s;
         s \<leftarrow> make_aligned_word64_undefined (- VG_STACK_REDZONE_SZB + new_SP + 8) s;
         s \<leftarrow> make_aligned_word64_undefined (- VG_STACK_REDZONE_SZB + new_SP + 16) s;
         s \<leftarrow> make_aligned_word64_undefined (- VG_STACK_REDZONE_SZB + new_SP + 24) s;
         s \<leftarrow> make_aligned_word64_undefined (- VG_STACK_REDZONE_SZB + new_SP + 32) s;
         s \<leftarrow> make_aligned_word64_undefined (- VG_STACK_REDZONE_SZB + new_SP + 40) s;
         s \<leftarrow> make_aligned_word64_undefined (- VG_STACK_REDZONE_SZB + new_SP + 48) s;
         s \<leftarrow> make_aligned_word64_undefined (- VG_STACK_REDZONE_SZB + new_SP + 56) s;
         s \<leftarrow> make_aligned_word64_undefined (- VG_STACK_REDZONE_SZB + new_SP + 64) s;
         s \<leftarrow> make_aligned_word64_undefined (- VG_STACK_REDZONE_SZB + new_SP + 72) s;
         s \<leftarrow> make_aligned_word64_undefined (- VG_STACK_REDZONE_SZB + new_SP + 80) s;
         s \<leftarrow> make_aligned_word64_undefined (- VG_STACK_REDZONE_SZB + new_SP + 88) s;
         s \<leftarrow> make_aligned_word64_undefined (- VG_STACK_REDZONE_SZB + new_SP + 96) s;
         s \<leftarrow> make_aligned_word64_undefined (- VG_STACK_REDZONE_SZB + new_SP + 104) s;
         s \<leftarrow> make_aligned_word64_undefined (- VG_STACK_REDZONE_SZB + new_SP + 112) s;
         make_aligned_word64_undefined (- VG_STACK_REDZONE_SZB + new_SP + 120) s }
     else make_mem_undefined (- VG_STACK_REDZONE_SZB + new_SP) 128 s)"

definition mc_die_mem_stack_128 :: "Addr \<Rightarrow> mc_state \<Rightarrow> mc_state option" where
  "mc_die_mem_stack_128 new_SP s =
     (if VG_IS_8_ALIGNED (- VG_STACK_REDZONE_SZB + new_SP) then do {
         s \<leftarrow> make_aligned_word64_noaccess (- VG_STACK_REDZONE_SZB + new_SP - 128) s;
         s \<leftarrow> make_aligned_word64_noaccess (- VG_STACK_REDZONE_SZB + new_SP - 120) s;
         s \<leftarrow> make_aligned_word64_noaccess (- VG_STACK_REDZONE_SZB + new_SP - 112) s;
         s \<leftarrow> make_aligned_word64_noaccess (- VG_STACK_REDZONE_SZB + new_SP - 104) s;
         s \<leftarrow> make_aligned_word64_noaccess (- VG_STACK_REDZONE_SZB + new_SP - 96) s;
         s \<leftarrow> make_aligned_word64_noaccess (- VG_STACK_REDZONE_SZB + new_SP - 88) s;
         s \<leftarrow> make_aligned_word64_noaccess (- VG_STACK_REDZONE_SZB + new_SP - 80) s;
         s \<leftarrow> make_aligned_word64_noaccess (- VG_STACK_REDZONE_SZB + new_SP - 72) s;
         s \<leftarrow> make_aligned_word64_noaccess (- VG_STACK_REDZONE_SZB + new_SP - 64) s;
         s \<leftarrow> make_aligned_word64_noaccess (- VG_STACK_REDZONE_SZB + new_SP - 56) s;
         s \<leftarrow> make_aligned_word64_noaccess (- VG_STACK_REDZONE_SZB + new_SP - 48) s;
         s \<leftarrow> make_aligned_word64_noaccess (- VG_STACK_REDZONE_SZB + new_SP - 40) s;
         s \<leftarrow> make_aligned_word64_noaccess (- VG_STACK_REDZONE_SZB + new_SP - 32) s;
         s \<leftarrow> make_aligned_word64_noaccess (- VG_STACK_REDZONE_SZB + new_SP - 24) s;
         s \<leftarrow> make_aligned_word64_noaccess (- VG_STACK_REDZONE_SZB + new_SP - 16) s;
         make_aligned_word64_noaccess (- VG_STACK_REDZONE_SZB + new_SP - 8) s }
     else make_mem_noaccess (- VG_STACK_REDZONE_SZB + new_SP - 128) 128 s)"

definition mc_new_mem_stack_144_w_ECU :: "Addr \<Rightarrow> UInt \<Rightarrow> mc_state \<Rightarrow> mc_state option" where
  "mc_new_mem_stack_144_w_ECU new_SP ecu s =
     (let otag = ecu OR MC_OKIND_STACK in
     if VG_IS_8_ALIGNED (- VG_STACK_REDZONE_SZB + new_SP) then do {
         s \<leftarrow> make_aligned_word64_undefined_w_otag (- VG_STACK_REDZONE_SZB + new_SP) otag s;
         s \<leftarrow> make_aligned_word64_undefined_w_otag (- VG_STACK_REDZONE_SZB + new_SP + 8) otag s;
         s \<leftarrow> make_aligned_word64_undefined_w_otag (- VG_STACK_REDZONE_SZB + new_SP + 16) otag s;
         s \<leftarrow> make_aligned_word64_undefined_w_otag (- VG_STACK_REDZONE_SZB + new_SP + 24) otag s;
         s \<leftarrow> make_aligned_word64_undefined_w_otag (- VG_STACK_REDZONE_SZB + new_SP + 32) otag s;
         s \<leftarrow> make_aligned_word64_undefined_w_otag (- VG_STACK_REDZONE_SZB + new_SP + 40) otag s;
         s \<leftarrow> make_aligned_word64_undefined_w_otag (- VG_STACK_REDZONE_SZB + new_SP + 48) otag s;
         s \<leftarrow> make_aligned_word64_undefined_w_otag (- VG_STACK_REDZONE_SZB + new_SP + 56) otag s;
         s \<leftarrow> make_aligned_word64_undefined_w_otag (- VG_STACK_REDZONE_SZB + new_SP + 64) otag s;
         s \<leftarrow> make_aligned_word64_undefined_w_otag (- VG_STACK_REDZONE_SZB + new_SP + 72) otag s;
         s \<leftarrow> make_aligned_word64_undefined_w_otag (- VG_STACK_REDZONE_SZB + new_SP + 80) otag s;
         s \<leftarrow> make_aligned_word64_undefined_w_otag (- VG_STACK_REDZONE_SZB + new_SP + 88) otag s;
         s \<leftarrow> make_aligned_word64_undefined_w_otag (- VG_STACK_REDZONE_SZB + new_SP + 96) otag s;
         s \<leftarrow> make_aligned_word64_undefined_w_otag (- VG_STACK_REDZONE_SZB + new_SP + 104) otag s;
         s \<leftarrow> make_aligned_word64_undefined_w_otag (- VG_STACK_REDZONE_SZB + new_SP + 112) otag s;
         s \<leftarrow> make_aligned_word64_undefined_w_otag (- VG_STACK_REDZONE_SZB + new_SP + 120) otag s;
         s \<leftarrow> make_aligned_word64_undefined_w_otag (- VG_STACK_REDZONE_SZB + new_SP + 128) otag s;
         make_aligned_word64_undefined_w_otag (- VG_STACK_REDZONE_SZB + new_SP + 136) otag s }
     else make_mem_undefined_w_otag (- VG_STACK_REDZONE_SZB + new_SP) 144 otag s)"

definition mc_new_mem_stack_144 :: "Addr \<Rightarrow> mc_state \<Rightarrow> mc_state option" where
  "mc_new_mem_stack_144 new_SP s =
     (if VG_IS_8_ALIGNED (- VG_STACK_REDZONE_SZB + new_SP) then do {
         s \<leftarrow> make_aligned_word64_undefined (- VG_STACK_REDZONE_SZB + new_SP) s;
         s \<leftarrow> make_aligned_word64_undefined (- VG_STACK_REDZONE_SZB + new_SP + 8) s;
         s \<leftarrow> make_aligned_word64_undefined (- VG_STACK_REDZONE_SZB + new_SP + 16) s;
         s \<leftarrow> make_aligned_word64_undefined (- VG_STACK_REDZONE_SZB + new_SP + 24) s;
         s \<leftarrow> make_aligned_word64_undefined (- VG_STACK_REDZONE_SZB + new_SP + 32) s;
         s \<leftarrow> make_aligned_word64_undefined (- VG_STACK_REDZONE_SZB + new_SP + 40) s;
         s \<leftarrow> make_aligned_word64_undefined (- VG_STACK_REDZONE_SZB + new_SP + 48) s;
         s \<leftarrow> make_aligned_word64_undefined (- VG_STACK_REDZONE_SZB + new_SP + 56) s;
         s \<leftarrow> make_aligned_word64_undefined (- VG_STACK_REDZONE_SZB + new_SP + 64) s;
         s \<leftarrow> make_aligned_word64_undefined (- VG_STACK_REDZONE_SZB + new_SP + 72) s;
         s \<leftarrow> make_aligned_word64_undefined (- VG_STACK_REDZONE_SZB + new_SP + 80) s;
         s \<leftarrow> make_aligned_word64_undefined (- VG_STACK_REDZONE_SZB + new_SP + 88) s;
         s \<leftarrow> make_aligned_word64_undefined (- VG_STACK_REDZONE_SZB + new_SP + 96) s;
         s \<leftarrow> make_aligned_word64_undefined (- VG_STACK_REDZONE_SZB + new_SP + 104) s;
         s \<leftarrow> make_aligned_word64_undefined (- VG_STACK_REDZONE_SZB + new_SP + 112) s;
         s \<leftarrow> make_aligned_word64_undefined (- VG_STACK_REDZONE_SZB + new_SP + 120) s;
         s \<leftarrow> make_aligned_word64_undefined (- VG_STACK_REDZONE_SZB + new_SP + 128) s;
         make_aligned_word64_undefined (- VG_STACK_REDZONE_SZB + new_SP + 136) s }
     else make_mem_undefined (- VG_STACK_REDZONE_SZB + new_SP) 144 s)"

definition mc_die_mem_stack_144 :: "Addr \<Rightarrow> mc_state \<Rightarrow> mc_state option" where
  "mc_die_mem_stack_144 new_SP s =
     (if VG_IS_8_ALIGNED (- VG_STACK_REDZONE_SZB + new_SP) then do {
         s \<leftarrow> make_aligned_word64_noaccess (- VG_STACK_REDZONE_SZB + new_SP - 144) s;
         s \<leftarrow> make_aligned_word64_noaccess (- VG_STACK_REDZONE_SZB + new_SP - 136) s;
         s \<leftarrow> make_aligned_word64_noaccess (- VG_STACK_REDZONE_SZB + new_SP - 128) s;
         s \<leftarrow> make_aligned_word64_noaccess (- VG_STACK_REDZONE_SZB + new_SP - 120) s;
         s \<leftarrow> make_aligned_word64_noaccess (- VG_STACK_REDZONE_SZB + new_SP - 112) s;
         s \<leftarrow> make_aligned_word64_noaccess (- VG_STACK_REDZONE_SZB + new_SP - 104) s;
         s \<leftarrow> make_aligned_word64_noaccess (- VG_STACK_REDZONE_SZB + new_SP - 96) s;
         s \<leftarrow> make_aligned_word64_noaccess (- VG_STACK_REDZONE_SZB + new_SP - 88) s;
         s \<leftarrow> make_aligned_word64_noaccess (- VG_STACK_REDZONE_SZB + new_SP - 80) s;
         s \<leftarrow> make_aligned_word64_noaccess (- VG_STACK_REDZONE_SZB + new_SP - 72) s;
         s \<leftarrow> make_aligned_word64_noaccess (- VG_STACK_REDZONE_SZB + new_SP - 64) s;
         s \<leftarrow> make_aligned_word64_noaccess (- VG_STACK_REDZONE_SZB + new_SP - 56) s;
         s \<leftarrow> make_aligned_word64_noaccess (- VG_STACK_REDZONE_SZB + new_SP - 48) s;
         s \<leftarrow> make_aligned_word64_noaccess (- VG_STACK_REDZONE_SZB + new_SP - 40) s;
         s \<leftarrow> make_aligned_word64_noaccess (- VG_STACK_REDZONE_SZB + new_SP - 32) s;
         s \<leftarrow> make_aligned_word64_noaccess (- VG_STACK_REDZONE_SZB + new_SP - 24) s;
         s \<leftarrow> make_aligned_word64_noaccess (- VG_STACK_REDZONE_SZB + new_SP - 16) s;
         make_aligned_word64_noaccess (- VG_STACK_REDZONE_SZB + new_SP - 8) s }
     else make_mem_noaccess (- VG_STACK_REDZONE_SZB + new_SP - 144) 144 s)"

definition mc_new_mem_stack_160_w_ECU :: "Addr \<Rightarrow> UInt \<Rightarrow> mc_state \<Rightarrow> mc_state option" where
  "mc_new_mem_stack_160_w_ECU new_SP ecu s =
     (let otag = ecu OR MC_OKIND_STACK in
     if VG_IS_8_ALIGNED (- VG_STACK_REDZONE_SZB + new_SP) then do {
         s \<leftarrow> make_aligned_word64_undefined_w_otag (- VG_STACK_REDZONE_SZB + new_SP) otag s;
         s \<leftarrow> make_aligned_word64_undefined_w_otag (- VG_STACK_REDZONE_SZB + new_SP + 8) otag s;
         s \<leftarrow> make_aligned_word64_undefined_w_otag (- VG_STACK_REDZONE_SZB + new_SP + 16) otag s;
         s \<leftarrow> make_aligned_word64_undefined_w_otag (- VG_STACK_REDZONE_SZB + new_SP + 24) otag s;
         s \<leftarrow> make_aligned_word64_undefined_w_otag (- VG_STACK_REDZONE_SZB + new_SP + 32) otag s;
         s \<leftarrow> make_aligned_word64_undefined_w_otag (- VG_STACK_REDZONE_SZB + new_SP + 40) otag s;
         s \<leftarrow> make_aligned_word64_undefined_w_otag (- VG_STACK_REDZONE_SZB + new_SP + 48) otag s;
         s \<leftarrow> make_aligned_word64_undefined_w_otag (- VG_STACK_REDZONE_SZB + new_SP + 56) otag s;
         s \<leftarrow> make_aligned_word64_undefined_w_otag (- VG_STACK_REDZONE_SZB + new_SP + 64) otag s;
         s \<leftarrow> make_aligned_word64_undefined_w_otag (- VG_STACK_REDZONE_SZB + new_SP + 72) otag s;
         s \<leftarrow> make_aligned_word64_undefined_w_otag (- VG_STACK_REDZONE_SZB + new_SP + 80) otag s;
         s \<leftarrow> make_aligned_word64_undefined_w_otag (- VG_STACK_REDZONE_SZB + new_SP + 88) otag s;
         s \<leftarrow> make_aligned_word64_undefined_w_otag (- VG_STACK_REDZONE_SZB + new_SP + 96) otag s;
         s \<leftarrow> make_aligned_word64_undefined_w_otag (- VG_STACK_REDZONE_SZB + new_SP + 104) otag s;
         s \<leftarrow> make_aligned_word64_undefined_w_otag (- VG_STACK_REDZONE_SZB + new_SP + 112) otag s;
         s \<leftarrow> make_aligned_word64_undefined_w_otag (- VG_STACK_REDZONE_SZB + new_SP + 120) otag s;
         s \<leftarrow> make_aligned_word64_undefined_w_otag (- VG_STACK_REDZONE_SZB + new_SP + 128) otag s;
         s \<leftarrow> make_aligned_word64_undefined_w_otag (- VG_STACK_REDZONE_SZB + new_SP + 136) otag s;
         s \<leftarrow> make_aligned_word64_undefined_w_otag (- VG_STACK_REDZONE_SZB + new_SP + 144) otag s;
         make_aligned_word64_undefined_w_otag (- VG_STACK_REDZONE_SZB + new_SP + 152) otag s }
     else make_mem_undefined_w_otag (- VG_STACK_REDZONE_SZB + new_SP) 160 otag s)"

definition mc_new_mem_stack_160 :: "Addr \<Rightarrow> mc_state \<Rightarrow> mc_state option" where
  "mc_new_mem_stack_160 new_SP s =
     (if VG_IS_8_ALIGNED (- VG_STACK_REDZONE_SZB + new_SP) then do {
         s \<leftarrow> make_aligned_word64_undefined (- VG_STACK_REDZONE_SZB + new_SP) s;
         s \<leftarrow> make_aligned_word64_undefined (- VG_STACK_REDZONE_SZB + new_SP + 8) s;
         s \<leftarrow> make_aligned_word64_undefined (- VG_STACK_REDZONE_SZB + new_SP + 16) s;
         s \<leftarrow> make_aligned_word64_undefined (- VG_STACK_REDZONE_SZB + new_SP + 24) s;
         s \<leftarrow> make_aligned_word64_undefined (- VG_STACK_REDZONE_SZB + new_SP + 32) s;
         s \<leftarrow> make_aligned_word64_undefined (- VG_STACK_REDZONE_SZB + new_SP + 40) s;
         s \<leftarrow> make_aligned_word64_undefined (- VG_STACK_REDZONE_SZB + new_SP + 48) s;
         s \<leftarrow> make_aligned_word64_undefined (- VG_STACK_REDZONE_SZB + new_SP + 56) s;
         s \<leftarrow> make_aligned_word64_undefined (- VG_STACK_REDZONE_SZB + new_SP + 64) s;
         s \<leftarrow> make_aligned_word64_undefined (- VG_STACK_REDZONE_SZB + new_SP + 72) s;
         s \<leftarrow> make_aligned_word64_undefined (- VG_STACK_REDZONE_SZB + new_SP + 80) s;
         s \<leftarrow> make_aligned_word64_undefined (- VG_STACK_REDZONE_SZB + new_SP + 88) s;
         s \<leftarrow> make_aligned_word64_undefined (- VG_STACK_REDZONE_SZB + new_SP + 96) s;
         s \<leftarrow> make_aligned_word64_undefined (- VG_STACK_REDZONE_SZB + new_SP + 104) s;
         s \<leftarrow> make_aligned_word64_undefined (- VG_STACK_REDZONE_SZB + new_SP + 112) s;
         s \<leftarrow> make_aligned_word64_undefined (- VG_STACK_REDZONE_SZB + new_SP + 120) s;
         s \<leftarrow> make_aligned_word64_undefined (- VG_STACK_REDZONE_SZB + new_SP + 128) s;
         s \<leftarrow> make_aligned_word64_undefined (- VG_STACK_REDZONE_SZB + new_SP + 136) s;
         s \<leftarrow> make_aligned_word64_undefined (- VG_STACK_REDZONE_SZB + new_SP + 144) s;
         make_aligned_word64_undefined (- VG_STACK_REDZONE_SZB + new_SP + 152) s }
     else make_mem_undefined (- VG_STACK_REDZONE_SZB + new_SP) 160 s)"

definition mc_die_mem_stack_160 :: "Addr \<Rightarrow> mc_state \<Rightarrow> mc_state option" where
  "mc_die_mem_stack_160 new_SP s =
     (if VG_IS_8_ALIGNED (- VG_STACK_REDZONE_SZB + new_SP) then do {
         s \<leftarrow> make_aligned_word64_noaccess (- VG_STACK_REDZONE_SZB + new_SP - 160) s;
         s \<leftarrow> make_aligned_word64_noaccess (- VG_STACK_REDZONE_SZB + new_SP - 152) s;
         s \<leftarrow> make_aligned_word64_noaccess (- VG_STACK_REDZONE_SZB + new_SP - 144) s;
         s \<leftarrow> make_aligned_word64_noaccess (- VG_STACK_REDZONE_SZB + new_SP - 136) s;
         s \<leftarrow> make_aligned_word64_noaccess (- VG_STACK_REDZONE_SZB + new_SP - 128) s;
         s \<leftarrow> make_aligned_word64_noaccess (- VG_STACK_REDZONE_SZB + new_SP - 120) s;
         s \<leftarrow> make_aligned_word64_noaccess (- VG_STACK_REDZONE_SZB + new_SP - 112) s;
         s \<leftarrow> make_aligned_word64_noaccess (- VG_STACK_REDZONE_SZB + new_SP - 104) s;
         s \<leftarrow> make_aligned_word64_noaccess (- VG_STACK_REDZONE_SZB + new_SP - 96) s;
         s \<leftarrow> make_aligned_word64_noaccess (- VG_STACK_REDZONE_SZB + new_SP - 88) s;
         s \<leftarrow> make_aligned_word64_noaccess (- VG_STACK_REDZONE_SZB + new_SP - 80) s;
         s \<leftarrow> make_aligned_word64_noaccess (- VG_STACK_REDZONE_SZB + new_SP - 72) s;
         s \<leftarrow> make_aligned_word64_noaccess (- VG_STACK_REDZONE_SZB + new_SP - 64) s;
         s \<leftarrow> make_aligned_word64_noaccess (- VG_STACK_REDZONE_SZB + new_SP - 56) s;
         s \<leftarrow> make_aligned_word64_noaccess (- VG_STACK_REDZONE_SZB + new_SP - 48) s;
         s \<leftarrow> make_aligned_word64_noaccess (- VG_STACK_REDZONE_SZB + new_SP - 40) s;
         s \<leftarrow> make_aligned_word64_noaccess (- VG_STACK_REDZONE_SZB + new_SP - 32) s;
         s \<leftarrow> make_aligned_word64_noaccess (- VG_STACK_REDZONE_SZB + new_SP - 24) s;
         s \<leftarrow> make_aligned_word64_noaccess (- VG_STACK_REDZONE_SZB + new_SP - 16) s;
         make_aligned_word64_noaccess (- VG_STACK_REDZONE_SZB + new_SP - 8) s }
     else make_mem_noaccess (- VG_STACK_REDZONE_SZB + new_SP - 160) 160 s)"

definition mc_new_mem_stack_w_ECU :: "Addr \<Rightarrow> SizeT \<Rightarrow> UInt \<Rightarrow> mc_state \<Rightarrow> mc_state option" where
  "mc_new_mem_stack_w_ECU a len ecu s =
     (let otag = ecu OR MC_OKIND_STACK in make_mem_undefined_w_otag (- VG_STACK_REDZONE_SZB + a) len otag s)"

definition mc_new_mem_stack :: "Addr \<Rightarrow> SizeT \<Rightarrow> mc_state \<Rightarrow> mc_state option" where
  "mc_new_mem_stack a len s = make_mem_undefined (- VG_STACK_REDZONE_SZB + a) len s"

definition mc_die_mem_stack :: "Addr \<Rightarrow> SizeT \<Rightarrow> mc_state \<Rightarrow> mc_state option" where
  "mc_die_mem_stack a len s = make_mem_noaccess (- VG_STACK_REDZONE_SZB + a) len s"

subsection \<open>The handlers registered for each adjustment\<close>

definition new_mem_stack_handlers :: "(Addr \<times> (Addr \<Rightarrow> mc_state \<Rightarrow> mc_state option)) list" where
  "new_mem_stack_handlers = [(4, mc_new_mem_stack_4),
     (8, mc_new_mem_stack_8),
     (12, mc_new_mem_stack_12),
     (16, mc_new_mem_stack_16),
     (32, mc_new_mem_stack_32),
     (112, mc_new_mem_stack_112),
     (128, mc_new_mem_stack_128),
     (144, mc_new_mem_stack_144),
     (160, mc_new_mem_stack_160)]"

definition new_mem_stack_w_ECU_handlers :: "(Addr \<times> (Addr \<Rightarrow> UInt \<Rightarrow> mc_state \<Rightarrow> mc_state option)) list" where
  "new_mem_stack_w_ECU_handlers = [(4, mc_new_mem_stack_4_w_ECU),
     (8, mc_new_mem_stack_8_w_ECU),
     (12, mc_new_mem_stack_12_w_ECU),
     (16, mc_new_mem_stack_16_w_ECU),
     (32, mc_new_mem_stack_32_w_ECU),
     (112, mc_new_mem_stack_112_w_ECU),
     (128, mc_new_mem_stack_128_w_ECU),
     (144, mc_new_mem_stack_144_w_ECU),
     (160, mc_new_mem_stack_160_w_ECU)]"

definition die_mem_stack_handlers :: "(Addr \<times> (Addr \<Rightarrow> mc_state \<Rightarrow> mc_state option)) list" where
  "die_mem_stack_handlers = [(4, mc_die_mem_stack_4),
     (8, mc_die_mem_stack_8),
     (12, mc_die_mem_stack_12),
     (16, mc_die_mem_stack_16),
     (32, mc_die_mem_stack_32),
     (112, mc_die_mem_stack_112),
     (128, mc_die_mem_stack_128),
     (144, mc_die_mem_stack_144),
     (160, mc_die_mem_stack_160)]"

subsection \<open>The cache from instruction addresses to execution context numbers\<close>

text \<open>\<open>make_ecu\<close> stands for \<^verbatim>\<open>VG_(get_ECU_from_ExeContext)\<close> of
  \<^verbatim>\<open>VG_(make_depth_1_ExeContext_from_Addr)\<close>: execution contexts are hash-consed, so the number of
  an address does not change.\<close>

definition is_plausible_ECU :: "UInt \<Rightarrow> bool" where
  "is_plausible_ECU ecu \<longleftrightarrow> ecu > 0 \<and> ecu AND 3 = 0"

record WCacheEnt =
  nia0 :: UWord
  ecu0 :: UWord
  nia1 :: UWord
  ecu1 :: UWord

definition N_NIA_TO_ECU_CACHE :: nat where "N_NIA_TO_ECU_CACHE = 511"

record nia_cache =
  nia_to_ecu_cache :: "WCacheEnt list"
  nia_cache_queries :: UWord
  nia_cache_misses :: UWord

definition init_nia_to_ecu_cache :: "(Addr \<Rightarrow> UInt) \<Rightarrow> nia_cache option" where
  "init_nia_to_ecu_cache make_ecu = do {
     let zero_ecu = make_ecu 0;
     vg_assert (is_plausible_ECU zero_ecu);
     Some \<lparr>nia_to_ecu_cache = replicate N_NIA_TO_ECU_CACHE \<lparr>nia0 = 0, ecu0 = ucast zero_ecu, nia1 = 0, ecu1 = ucast zero_ecu\<rparr>,
       nia_cache_queries = 0, nia_cache_misses = 0\<rparr> }"

definition convert_nia_to_ecu :: "(Addr \<Rightarrow> UInt) \<Rightarrow> Addr \<Rightarrow> nia_cache \<Rightarrow> (UInt \<times> nia_cache) option" where
  "convert_nia_to_ecu make_ecu nia c = do {
     let c = c\<lparr>nia_cache_queries := nia_cache_queries c + 1\<rparr>;
     let i = unat nia mod N_NIA_TO_ECU_CACHE;
     let e = nia_to_ecu_cache c ! i;
     if nia0 e = nia then Some (ucast (ecu0 e), c)
     else if nia1 e = nia then do {
       let e = \<lparr>nia0 = nia1 e, ecu0 = ecu1 e, nia1 = nia0 e, ecu1 = ecu0 e\<rparr>;
       Some (ucast (ecu0 e), c\<lparr>nia_to_ecu_cache := (nia_to_ecu_cache c)[i := e]\<rparr>) }
     else do {
       let c = c\<lparr>nia_cache_misses := nia_cache_misses c + 1\<rparr>;
       let ecu = make_ecu nia;
       vg_assert (is_plausible_ECU ecu);
       let e = \<lparr>nia0 = nia, ecu0 = ucast ecu, nia1 = nia0 e, ecu1 = ecu0 e\<rparr>;
       Some (ecu, c\<lparr>nia_to_ecu_cache := (nia_to_ecu_cache c)[i := e]\<rparr>) } }"

subsection \<open>Undefined red zones\<close>

text \<open>\<^verbatim>\<open>p[i] = v\<close> with \<^verbatim>\<open>UShort* p = (UShort*)(&sm->vabits8[off])\<close>, on a little-endian host.\<close>

definition write_ushort :: "SecMapPtr \<Rightarrow> nat \<Rightarrow> nat \<Rightarrow> UShort \<Rightarrow> mc_state \<Rightarrow> mc_state" where
  "write_ushort sm off i v s =
     write_secmap sm (off + 2 * i + 1) (ucast (drop_bit 8 v)) (write_secmap sm (off + 2 * i) (ucast v) s)"

text \<open>The fast case for a range of \<open>n\<close> aligned words (\<open>n\<close> is 16 or 36): the state, and whether the
  whole range was done.\<close>

definition make_stack_uninit_fast :: "nat \<Rightarrow> Addr \<Rightarrow> UInt \<Rightarrow> mc_state \<Rightarrow> (bool \<times> mc_state) option" where
  "make_stack_uninit_fast n base otag s = do {
     let a_lo = base;
     let a_hi = base + of_nat (8 * n) - 1;
     vg_assert (a_lo < a_hi);
     if a_hi \<le> MAX_PRIMARY_ADDRESS then do {
       (sm, s) \<leftarrow> get_secmap_for_writing_low a_lo s;
       (sm_hi, s) \<leftarrow> get_secmap_for_writing_low a_hi s;
       if sm = sm_hi then do {
         let v_off = SM_OFF a_lo;
         let s = foldl (\<lambda>s i. write_ushort sm v_off i VA_BITS16_UNDEFINED s) s [0..<n];
         Some (True, if clo_mc_level s = 3
           then foldl (\<lambda>s i. log_ocache (oc_set_word64 (base + 8 * of_nat i) otag) s) s [0..<n] else s) }
       else Some (False, s) }
     else Some (False, s) }"

definition make_stack_uninit_otag :: "Addr \<Rightarrow> UWord \<Rightarrow> UInt \<Rightarrow> mc_state \<Rightarrow> mc_state option" where
  "make_stack_uninit_otag base len otag s = do {
     (done1, s) \<leftarrow> (if len = 128 \<and> VG_IS_8_ALIGNED base then make_stack_uninit_fast 16 base otag s else Some (False, s));
     if done1 then Some s
     else do {
       (done2, s) \<leftarrow> (if len = 288 \<and> VG_IS_8_ALIGNED base then make_stack_uninit_fast 36 base otag s else Some (False, s));
       if done2 then Some s else make_mem_undefined_w_otag base len otag s } }"

definition helperc_MAKE_STACK_UNINIT :: "(Addr \<Rightarrow> UInt) \<Rightarrow> Addr \<Rightarrow> UWord \<Rightarrow> Addr
    \<Rightarrow> nia_cache \<times> mc_state \<Rightarrow> (nia_cache \<times> mc_state) option" where
  "helperc_MAKE_STACK_UNINIT make_ecu base len nia cs = do {
     let (c, s) = cs;
     (otag, c) \<leftarrow>
       (if clo_mc_level s = 3 then do {
          (ecu, c) \<leftarrow> convert_nia_to_ecu make_ecu nia c;
          vg_assert (is_plausible_ECU ecu);
          Some (ecu OR MC_OKIND_STACK, c) }
        else do { vg_assert (nia = 0); Some (0, c) });
     s \<leftarrow> make_stack_uninit_otag base len otag s;
     Some (c, s) }"

end
