(* ===== verification/StackPerms_Correct.thy ===== *)
theory StackPerms_Correct
  imports MemPerms_Correct StackPerms
begin

text \<open>
  Correctness of the stack handlers. \<open>sets_bytes\<close> says that an action sets a range of bytes and
  asks the origin cache for the matching origins; it composes over adjacent ranges, so each
  unrolled handler reduces to its aligned pieces. The red zone helper and its cache follow.
\<close>

subsection \<open>Alignment\<close>

lemma al8_iff: "VG_IS_8_ALIGNED a \<longleftrightarrow> unat a mod 8 = 0"
  unfolding VG_IS_8_ALIGNED_def unat_eq_iff [of 0] unat_and_7 by auto

lemma al4_iff: "VG_IS_4_ALIGNED a \<longleftrightarrow> unat a mod 4 = 0"
  unfolding VG_IS_4_ALIGNED_def unat_eq_iff [of 0] unat_and_3 by auto

lemma unat_add_mod: "unat (a + b :: Addr) mod 8 = (unat a + unat b) mod 8" "unat (a + b :: Addr) mod 4 = (unat a + unat b) mod 4"
  by (simp_all add: unat_word_ariths mod_mod_cancel)

lemma unat_diff_mod: "(unat (a - b :: Addr) + unat b) mod 8 = unat a mod 8" "(unat (a - b :: Addr) + unat b) mod 4 = unat a mod 4"
  using unat_add_mod [of "a - b" b] by simp_all

lemma al8_add: "VG_IS_8_ALIGNED a \<Longrightarrow> VG_IS_8_ALIGNED b \<Longrightarrow> VG_IS_8_ALIGNED (a + b)"
  unfolding al8_iff unat_add_mod by presburger

lemma al8_diff: "VG_IS_8_ALIGNED a \<Longrightarrow> VG_IS_8_ALIGNED b \<Longrightarrow> VG_IS_8_ALIGNED (a - b)"
  unfolding al8_iff using unat_diff_mod(1) [of a b] by presburger

lemma al4_add: "VG_IS_4_ALIGNED a \<Longrightarrow> VG_IS_4_ALIGNED b \<Longrightarrow> VG_IS_4_ALIGNED (a + b)"
  unfolding al4_iff unat_add_mod by presburger

lemma al4_diff: "VG_IS_4_ALIGNED a \<Longrightarrow> VG_IS_4_ALIGNED b \<Longrightarrow> VG_IS_4_ALIGNED (a - b)"
  unfolding al4_iff using unat_diff_mod(2) [of a b] by presburger

lemma al8_al4: "VG_IS_8_ALIGNED a \<Longrightarrow> VG_IS_4_ALIGNED a"
  unfolding al8_iff al4_iff by presburger

lemma al8_plus4: "VG_IS_4_ALIGNED a \<Longrightarrow> \<not> VG_IS_8_ALIGNED a \<Longrightarrow> VG_IS_8_ALIGNED (a + 4)"
proof -
  have "unat (4 :: Addr) = 4" by simp
  then show "VG_IS_4_ALIGNED a \<Longrightarrow> \<not> VG_IS_8_ALIGNED a \<Longrightarrow> VG_IS_8_ALIGNED (a + 4)"
    unfolding al4_iff al8_iff unat_add_mod by presburger
qed

lemma al8_minus4: "VG_IS_4_ALIGNED a \<Longrightarrow> \<not> VG_IS_8_ALIGNED a \<Longrightarrow> VG_IS_8_ALIGNED (a - 4)"
  using al8_diff [OF al8_plus4, of a 8] by (simp add: VG_IS_8_ALIGNED_def)

lemma al8_line_offset: "VG_IS_8_ALIGNED a \<Longrightarrow> oc_line_offset a < OC_W32S_PER_LINE - 1"
proof -
  assume "VG_IS_8_ALIGNED a"
  then have a: "unat a mod 8 = 0" by (simp add: al8_iff)
  have "oc_line_offset a = unat a div 4 mod 8"
    unfolding oc_line_offset_def OC_W32S_PER_LINE_def by (simp add: unat_and_7 drop_bit_eq_div unat_div)
  moreover have "unat a div 4 mod 8 < 7" using a by presburger
  ultimately show ?thesis by (simp add: OC_W32S_PER_LINE_def)
qed

subsection \<open>Actions on a range\<close>

text \<open>What a sequence of calls into the origin cache asks for: the origin tag each byte is given,
  0 for none.\<close>

fun oc_range :: "ocache_call \<Rightarrow> Addr \<times> SizeT \<times> UInt" where
  "oc_range (ocache_sarp_Clear_Origins a len) = (a, len, 0)"
| "oc_range (ocache_sarp_Set_Origins a len otag) = (a, len, otag)"
| "oc_range (helperc_b_store1 a otag) = (a, 1, otag)"
| "oc_range (oc_set_word32 a otag) = (a, 4, otag)"
| "oc_range (oc_clear_word32 a) = (a, 4, 0)"
| "oc_range (oc_set_word64 a otag) = (a, 8, otag)"
| "oc_range (oc_clear_word64 a) = (a, 8, 0)"

fun oc_effect :: "ocache_call list \<Rightarrow> Addr \<Rightarrow> UInt option" where
  "oc_effect [] y = None"
| "oc_effect (c # cs) y = (case oc_effect cs y of Some t \<Rightarrow> Some t
     | None \<Rightarrow> (case oc_range c of (a, len, otag) \<Rightarrow> if y - a < len then Some otag else None))"

lemma oc_effect_append: "oc_effect (cs @ ds) y = (case oc_effect ds y of Some t \<Rightarrow> Some t | None \<Rightarrow> oc_effect cs y)"
  by (induction cs) (auto split: option.splits)

text \<open>An action sets the \<open>k\<close> bytes from \<open>a\<close> to the state \<open>p\<close> and, at level 3, asks for origin \<open>e\<close> for
  exactly these bytes (\<open>None\<close>: for no byte).\<close>

definition sets_bytes :: "(mc_state \<Rightarrow> mc_state option) \<Rightarrow> Addr \<Rightarrow> nat \<Rightarrow> UChar option \<Rightarrow> UInt option \<Rightarrow> bool" where
  "sets_bytes f a k p e \<longleftrightarrow> (\<forall>s. mem_ok s \<longrightarrow> alloc_ok s \<longrightarrow> (\<exists>s' cs. f s = Some s' \<and> mem_ok s' \<and> alloc_ok s' \<and>
     view s' = (\<lambda>y. if unat (y - a) < k then p else view s y) \<and> address_errors s' = address_errors s \<and>
     clo_mc_level s' = clo_mc_level s \<and> ocache_calls s' = ocache_calls s @ cs \<and>
     (clo_mc_level s = 3 \<longrightarrow> oc_effect cs = (\<lambda>y. if unat (y - a) < k then e else None))))"

lemma sets_bytes_bind:
  assumes "sets_bytes f a k p e" "sets_bytes g b m p e" "b = a + of_nat k" "n = k + m" "n \<le> 2 ^ 64"
  shows "sets_bytes (\<lambda>s. f s \<bind> g) a n p e"
  unfolding sets_bytes_def
proof (intro allI impI)
  fix s assume s: "mem_ok s" "alloc_ok s"
  obtain t cs where t: "f s = Some t" "mem_ok t" "alloc_ok t" "view t = (\<lambda>y. if unat (y - a) < k then p else view s y)"
    "address_errors t = address_errors s" "clo_mc_level t = clo_mc_level s" "ocache_calls t = ocache_calls s @ cs"
    "clo_mc_level s = 3 \<longrightarrow> oc_effect cs = (\<lambda>y. if unat (y - a) < k then e else None)"
    using assms(1) s unfolding sets_bytes_def by blast
  obtain u ds where u: "g t = Some u" "mem_ok u" "alloc_ok u" "view u = (\<lambda>y. if unat (y - b) < m then p else view t y)"
    "address_errors u = address_errors t" "clo_mc_level u = clo_mc_level t" "ocache_calls u = ocache_calls t @ ds"
    "clo_mc_level t = 3 \<longrightarrow> oc_effect ds = (\<lambda>y. if unat (y - b) < m then e else None)"
    using assms(2) t(2,3) unfolding sets_bytes_def by blast
  have r: "unat (y - a) < k + m \<longleftrightarrow> unat (y - a) < k \<or> unat (y - b) < m" for y
    using range_append [of k m y a] assms(3-5) by auto
  show "\<exists>s' cs. f s \<bind> g = Some s' \<and> mem_ok s' \<and> alloc_ok s' \<and>
     view s' = (\<lambda>y. if unat (y - a) < n then p else view s y) \<and> address_errors s' = address_errors s \<and>
     clo_mc_level s' = clo_mc_level s \<and> ocache_calls s' = ocache_calls s @ cs \<and>
     (clo_mc_level s = 3 \<longrightarrow> oc_effect cs = (\<lambda>y. if unat (y - a) < n then e else None))"
    by (rule exI [of _ u], rule exI [of _ "cs @ ds"])
       (use t u in \<open>auto simp: assms(4) r fun_eq_iff oc_effect_append split: option.splits\<close>)
qed

lemma sets_bytes_if:
  "(c \<Longrightarrow> sets_bytes f a k p e) \<Longrightarrow> (\<not> c \<Longrightarrow> sets_bytes g a k p e) \<Longrightarrow> sets_bytes (\<lambda>s. if c then f s else g s) a k p e"
  by (cases c) auto

lemma sets_bytesI:
  assumes "\<And>s. mem_ok s \<Longrightarrow> alloc_ok s \<Longrightarrow> \<exists>t. f s = Some (t\<lparr>ocache_calls := ocache_calls s @ g s\<rparr>) \<and> set_range s t a k w \<and>
     (clo_mc_level s = 3 \<longrightarrow> oc_effect (g s) = (\<lambda>y. if unat (y - a) < k then e else None))"
    "(w, p) \<in> {(VA_BITS2_NOACCESS, None), (VA_BITS2_UNDEFINED, Some V_BITS8_UNDEFINED), (VA_BITS2_DEFINED, Some V_BITS8_DEFINED)}"
  shows "sets_bytes f a k p e"
  unfolding sets_bytes_def
proof (intro allI impI)
  fix s assume s: "mem_ok s" "alloc_ok s"
  from assms(1) [OF this] obtain t where t: "f s = Some (t\<lparr>ocache_calls := ocache_calls s @ g s\<rparr>)" "set_range s t a k w"
    "clo_mc_level s = 3 \<longrightarrow> oc_effect (g s) = (\<lambda>y. if unat (y - a) < k then e else None)" by blast
  note v = set_range_view [OF s(1) t(2) assms(2)]
  have "alloc_ok t" "clo_mc_level t = clo_mc_level s" "address_errors t = address_errors s"
    using v(2) s(2) env_alloc_ok [OF v(2)] by (auto simp: env_def)
  then show "\<exists>s' cs. f s = Some s' \<and> mem_ok s' \<and> alloc_ok s' \<and>
     view s' = (\<lambda>y. if unat (y - a) < k then p else view s y) \<and> address_errors s' = address_errors s \<and>
     clo_mc_level s' = clo_mc_level s \<and> ocache_calls s' = ocache_calls s @ cs \<and>
     (clo_mc_level s = 3 \<longrightarrow> oc_effect cs = (\<lambda>y. if unat (y - a) < k then e else None))"
    by (intro exI [of _ "t\<lparr>ocache_calls := ocache_calls s @ g s\<rparr>"] exI [of _ "g s"])
       (use t v in \<open>auto simp: alloc_ok_def\<close>)
qed

subsection \<open>The aligned setters\<close>

lemma writing_low_eq: "a \<le> MAX_PRIMARY_ADDRESS \<Longrightarrow> get_secmap_for_writing_low a s = get_secmap_for_writing a s"
  by (simp add: get_secmap_for_writing_low_def get_secmap_for_writing_def get_secmap_ptr_def)

lemma writing_low_ok:
  assumes "mc_ok s" "alloc_ok s" "a \<le> MAX_PRIMARY_ADDRESS"
  obtains n t where "get_secmap_for_writing_low a s = Some (Sm n, t)" "mc_ok t" "slot_ptr t (slot_of a) = Sm n" "va t = va s" "vtab t = vtab s"
  using get_secmap_for_writing_ok [OF assms(1,2), of a] contents_va writing_low_eq [OF assms(3)] by metis

lemma fast32:
  assumes "mc_ok s" "alloc_ok s" "a \<le> MAX_PRIMARY_ADDRESS" "VG_IS_4_ALIGNED a" "perm_args w16 w d"
  shows "\<exists>sm t. get_secmap_for_writing_low a s = Some (sm, t) \<and> set_range s (write_secmap sm (SM_OFF a) (dsm_contents d) t) a 4 w"
proof -
  obtain s' where s': "set_vabits8_for_aligned_word32 a (dsm_contents d) s = Some s'" "mc_ok s'" "vtab s' = vtab s"
    "va s' = (\<lambda>x. if unat x div 4 = unat a div 4 then extract_vabits2_from_vabits8 x (dsm_contents d) else va s x)"
    using set_vabits8_ok [OF assms(1,2)] by blast
  have "a AND 3 = 0" using assms(4) by (simp add: VG_IS_4_ALIGNED_def)
  from aligned4_off(2) [OF this] have "set_range s s' a 4 w"
    using s' perm_args_facts(3) [OF assms(5)] range_word [of 4] by (simp add: set_range_def fun_eq_iff)
  then show ?thesis
    using s'(1) by (auto simp: set_vabits8_for_aligned_word32_def writing_low_eq [OF assms(3)] bind_Some_iff)
qed

lemma fast64:
  assumes "mc_ok s" "alloc_ok s" "a \<le> MAX_PRIMARY_ADDRESS" "VG_IS_8_ALIGNED a" "perm_args w16 w d"
  shows "\<exists>sm t. get_secmap_for_writing_low a s = Some (sm, t) \<and> set_range s (write_vabits16 sm (SM_OFF_16 a) w16 t) a 8 w"
proof -
  obtain n t where t: "get_secmap_for_writing_low a s = Some (Sm n, t)" "mc_ok t" "slot_ptr t (slot_of a) = Sm n" "va t = va s" "vtab t = vtab s"
    using writing_low_ok [OF assms(1-3)] .
  have "a AND 7 = 0" using assms(4) by (simp add: VG_IS_8_ALIGNED_def)
  from word8_step [OF t(2,3) this perm_args_facts(1-3) [OF assms(5)]]
  have "set_range t (write_vabits16 (Sm n) (SM_OFF_16 a) w16 t) a 8 w" by (simp add: loop_ok_def)
  from set_range_trans0 [OF t(2,4,5) this] show ?thesis using t(1) by blast
qed

lemma set_range_log:
  assumes "set_range s t a k w"
  shows "t = t\<lparr>ocache_calls := ocache_calls s @ []\<rparr>" "log_ocache c t = t\<lparr>ocache_calls := ocache_calls s @ [c]\<rparr>"
    "clo_mc_level t = clo_mc_level s" "ocache_calls t = ocache_calls s"
  using assms by (auto simp: set_range_def vtab_def log_ocache_def)

lemma oc_effect_single: "oc_range c = (a, of_nat k, e) \<Longrightarrow> k < 2 ^ 64 \<Longrightarrow> oc_effect [c] = (\<lambda>y. if unat (y - a) < k then Some e else None)"
  by (auto simp: fun_eq_iff word_less_nat_alt unat_of_nat)

lemmas perm_noaccess = perm_args_def [of VA_BITS16_NOACCESS VA_BITS2_NOACCESS SM_DIST_NOACCESS, simplified]
  and perm_undefined = perm_args_def [of VA_BITS16_UNDEFINED VA_BITS2_UNDEFINED SM_DIST_UNDEFINED, simplified]

lemma dsm_noaccess: "VA_BITS8_NOACCESS = dsm_contents SM_DIST_NOACCESS" and dsm_undefined: "VA_BITS8_UNDEFINED = dsm_contents SM_DIST_UNDEFINED"
  by (simp_all add: dsm_contents_def dsm_consts)

lemma sets_make_mem_undefined: "sets_bytes (make_mem_undefined a len) a (unat len) (Some V_BITS8_UNDEFINED) None"
proof (rule sets_bytesI [where g = "\<lambda>_. []" and w = VA_BITS2_UNDEFINED])
  fix s assume "mem_ok s" "alloc_ok s"
  then obtain t where "make_mem_undefined a len s = Some t" "set_range s t a (unat len) VA_BITS2_UNDEFINED"
    using sarp_ok [OF perm_undefined mem_mc, of s a len] unfolding make_mem_undefined_def by blast
  then show "\<exists>t. make_mem_undefined a len s = Some (t\<lparr>ocache_calls := ocache_calls s @ []\<rparr>) \<and> set_range s t a (unat len) VA_BITS2_UNDEFINED \<and>
     (clo_mc_level s = 3 \<longrightarrow> oc_effect [] = (\<lambda>y. if unat (y - a) < unat len then None else None))"
    using set_range_log(1) by (intro exI [of _ t]) (auto simp: fun_eq_iff)
qed simp

lemma sets_make_mem_undefined_w_otag:
  "sets_bytes (make_mem_undefined_w_otag a len otag) a (unat len) (Some V_BITS8_UNDEFINED) (Some otag)"
proof (rule sets_bytesI [where g = "\<lambda>s. if clo_mc_level s = 3 then [ocache_sarp_Set_Origins a len otag] else []" and w = VA_BITS2_UNDEFINED])
  fix s assume "mem_ok s" "alloc_ok s"
  then obtain t where t: "set_address_range_perms a len VA_BITS16_UNDEFINED SM_DIST_UNDEFINED s = Some t" "set_range s t a (unat len) VA_BITS2_UNDEFINED"
    using sarp_ok [OF perm_undefined mem_mc] by blast
  then show "\<exists>t. make_mem_undefined_w_otag a len otag s = Some (t\<lparr>ocache_calls := ocache_calls s @
       (if clo_mc_level s = 3 then [ocache_sarp_Set_Origins a len otag] else [])\<rparr>) \<and> set_range s t a (unat len) VA_BITS2_UNDEFINED \<and>
     (clo_mc_level s = 3 \<longrightarrow> oc_effect (if clo_mc_level s = 3 then [ocache_sarp_Set_Origins a len otag] else []) =
        (\<lambda>y. if unat (y - a) < unat len then Some otag else None))"
    using set_range_log [OF t(2)] by (intro exI [of _ t]) (auto simp: make_mem_undefined_w_otag_def fun_eq_iff unat_less_iff)
qed simp

lemma sets_make_mem_noaccess: "sets_bytes (make_mem_noaccess a len) a (unat len) None (Some 0)"
proof (rule sets_bytesI [where g = "\<lambda>s. if clo_mc_level s = 3 then [ocache_sarp_Clear_Origins a len] else []" and w = VA_BITS2_NOACCESS])
  fix s assume "mem_ok s" "alloc_ok s"
  then obtain t where t: "set_address_range_perms a len VA_BITS16_NOACCESS SM_DIST_NOACCESS s = Some t" "set_range s t a (unat len) VA_BITS2_NOACCESS"
    using sarp_ok [OF perm_noaccess mem_mc] by blast
  then show "\<exists>t. make_mem_noaccess a len s = Some (t\<lparr>ocache_calls := ocache_calls s @
       (if clo_mc_level s = 3 then [ocache_sarp_Clear_Origins a len] else [])\<rparr>) \<and> set_range s t a (unat len) VA_BITS2_NOACCESS \<and>
     (clo_mc_level s = 3 \<longrightarrow> oc_effect (if clo_mc_level s = 3 then [ocache_sarp_Clear_Origins a len] else []) =
        (\<lambda>y. if unat (y - a) < unat len then Some 0 else None))"
    using set_range_log [OF t(2)] by (intro exI [of _ t]) (auto simp: make_mem_noaccess_def fun_eq_iff unat_less_iff)
qed simp

text \<open>An action followed by logging the origins of its bytes.\<close>

lemma sets_bytes_log:
  assumes "sets_bytes f a k p None" "oc_range c = (a, of_nat k, e)" "k < 2 ^ 64"
  shows "sets_bytes (\<lambda>s. f s \<bind> (\<lambda>s. Some (log_ocache c s))) a k p (Some e)"
  unfolding sets_bytes_def
proof (intro allI impI)
  fix s assume "mem_ok s" "alloc_ok s"
  then obtain t cs where t: "f s = Some t" "mem_ok t" "alloc_ok t" "view t = (\<lambda>y. if unat (y - a) < k then p else view s y)"
    "address_errors t = address_errors s" "clo_mc_level t = clo_mc_level s" "ocache_calls t = ocache_calls s @ cs"
    "clo_mc_level s = 3 \<longrightarrow> oc_effect cs = (\<lambda>y. None)"
    using assms(1) unfolding sets_bytes_def by (metis (no_types, lifting))
  then show "\<exists>s' cs. f s \<bind> (\<lambda>s. Some (log_ocache c s)) = Some s' \<and> mem_ok s' \<and> alloc_ok s' \<and>
     view s' = (\<lambda>y. if unat (y - a) < k then p else view s y) \<and> address_errors s' = address_errors s \<and>
     clo_mc_level s' = clo_mc_level s \<and> ocache_calls s' = ocache_calls s @ cs \<and>
     (clo_mc_level s = 3 \<longrightarrow> oc_effect cs = (\<lambda>y. if unat (y - a) < k then Some e else None))"
    using oc_effect_single [OF assms(2,3)]
    by (intro exI [of _ "log_ocache c t"] exI [of _ "cs @ [c]"])
       (auto simp: log_ocache_def alloc_ok_def oc_effect_append fun_eq_iff split: option.splits)
qed

lemma sets_word32_undefined:
  assumes "VG_IS_4_ALIGNED a" shows "sets_bytes (make_aligned_word32_undefined a) a 4 (Some V_BITS8_UNDEFINED) None"
proof (cases "a > MAX_PRIMARY_ADDRESS")
  case True
  then show ?thesis using sets_make_mem_undefined [of a 4] by (simp add: make_aligned_word32_undefined_def [abs_def])
next
  case False
  then have lo: "a \<le> MAX_PRIMARY_ADDRESS" by simp
  show ?thesis
  proof (rule sets_bytesI [where g = "\<lambda>_. []" and w = VA_BITS2_UNDEFINED])
    fix s assume "mem_ok s" "alloc_ok s"
    then obtain sm t where t: "get_secmap_for_writing_low a s = Some (sm, t)" "set_range s (write_secmap sm (SM_OFF a) VA_BITS8_UNDEFINED t) a 4 VA_BITS2_UNDEFINED"
      using fast32 [OF mem_mc _ lo assms perm_undefined] unfolding dsm_undefined by blast
    then show "\<exists>t. make_aligned_word32_undefined a s = Some (t\<lparr>ocache_calls := ocache_calls s @ []\<rparr>) \<and> set_range s t a 4 VA_BITS2_UNDEFINED \<and>
      (clo_mc_level s = 3 \<longrightarrow> oc_effect [] = (\<lambda>y. if unat (y - a) < 4 then None else None))"
      using set_range_log(1) False by (intro exI) (auto simp: make_aligned_word32_undefined_def fun_eq_iff)
  qed simp
qed

lemma sets_word64_undefined:
  assumes "VG_IS_8_ALIGNED a" shows "sets_bytes (make_aligned_word64_undefined a) a 8 (Some V_BITS8_UNDEFINED) None"
proof (cases "a > MAX_PRIMARY_ADDRESS")
  case True
  then show ?thesis using sets_make_mem_undefined [of a 8] by (simp add: make_aligned_word64_undefined_def [abs_def])
next
  case False
  then have lo: "a \<le> MAX_PRIMARY_ADDRESS" by simp
  show ?thesis
  proof (rule sets_bytesI [where g = "\<lambda>_. []" and w = VA_BITS2_UNDEFINED])
    fix s assume "mem_ok s" "alloc_ok s"
    then obtain sm t where t: "get_secmap_for_writing_low a s = Some (sm, t)" "set_range s (write_vabits16 sm (SM_OFF_16 a) VA_BITS16_UNDEFINED t) a 8 VA_BITS2_UNDEFINED"
      using fast64 [OF mem_mc _ lo assms perm_undefined] by blast
    then show "\<exists>t. make_aligned_word64_undefined a s = Some (t\<lparr>ocache_calls := ocache_calls s @ []\<rparr>) \<and> set_range s t a 8 VA_BITS2_UNDEFINED \<and>
      (clo_mc_level s = 3 \<longrightarrow> oc_effect [] = (\<lambda>y. if unat (y - a) < 8 then None else None))"
      using set_range_log(1) False by (intro exI) (auto simp: make_aligned_word64_undefined_def fun_eq_iff)
  qed simp
qed

lemma sets_word32_noaccess:
  assumes "VG_IS_4_ALIGNED a" shows "sets_bytes (make_aligned_word32_noaccess a) a 4 None (Some 0)"
proof (cases "a > MAX_PRIMARY_ADDRESS")
  case True
  then show ?thesis using sets_make_mem_noaccess [of a 4] by (simp add: make_aligned_word32_noaccess_def [abs_def])
next
  case False
  then have lo: "a \<le> MAX_PRIMARY_ADDRESS" by simp
  show ?thesis
  proof (rule sets_bytesI [where g = "\<lambda>s. if clo_mc_level s = 3 then [oc_clear_word32 a] else []" and w = VA_BITS2_NOACCESS])
    fix s assume "mem_ok s" "alloc_ok s"
    then obtain sm t where t: "get_secmap_for_writing_low a s = Some (sm, t)" "set_range s (write_secmap sm (SM_OFF a) VA_BITS8_NOACCESS t) a 4 VA_BITS2_NOACCESS"
      using fast32 [OF mem_mc _ lo assms perm_noaccess] unfolding dsm_noaccess by blast
    then show "\<exists>t. make_aligned_word32_noaccess a s = Some (t\<lparr>ocache_calls := ocache_calls s @ (if clo_mc_level s = 3 then [oc_clear_word32 a] else [])\<rparr>) \<and>
      set_range s t a 4 VA_BITS2_NOACCESS \<and>
      (clo_mc_level s = 3 \<longrightarrow> oc_effect (if clo_mc_level s = 3 then [oc_clear_word32 a] else []) = (\<lambda>y. if unat (y - a) < 4 then Some 0 else None))"
      using set_range_log [OF t(2)] False oc_effect_single [of "oc_clear_word32 a" a 4 0]
      by (intro exI [of _ "write_secmap sm (SM_OFF a) VA_BITS8_NOACCESS t"]) (auto simp: make_aligned_word32_noaccess_def Let_def simp del: oc_effect.simps)
  qed simp
qed

lemma sets_word64_noaccess:
  assumes "VG_IS_8_ALIGNED a" shows "sets_bytes (make_aligned_word64_noaccess a) a 8 None (Some 0)"
proof (cases "a > MAX_PRIMARY_ADDRESS")
  case True
  then show ?thesis using sets_make_mem_noaccess [of a 8] by (simp add: make_aligned_word64_noaccess_def [abs_def])
next
  case False
  then have lo: "a \<le> MAX_PRIMARY_ADDRESS" by simp
  show ?thesis
  proof (rule sets_bytesI [where g = "\<lambda>s. if clo_mc_level s = 3 then [oc_clear_word64 a] else []" and w = VA_BITS2_NOACCESS])
    fix s assume "mem_ok s" "alloc_ok s"
    then obtain sm t where t: "get_secmap_for_writing_low a s = Some (sm, t)" "set_range s (write_vabits16 sm (SM_OFF_16 a) VA_BITS16_NOACCESS t) a 8 VA_BITS2_NOACCESS"
      using fast64 [OF mem_mc _ lo assms perm_noaccess] by blast
    then show "\<exists>t. make_aligned_word64_noaccess a s = Some (t\<lparr>ocache_calls := ocache_calls s @ (if clo_mc_level s = 3 then [oc_clear_word64 a] else [])\<rparr>) \<and>
      set_range s t a 8 VA_BITS2_NOACCESS \<and>
      (clo_mc_level s = 3 \<longrightarrow> oc_effect (if clo_mc_level s = 3 then [oc_clear_word64 a] else []) = (\<lambda>y. if unat (y - a) < 8 then Some 0 else None))"
      using set_range_log [OF t(2)] False oc_effect_single [of "oc_clear_word64 a" a 8 0] al8_line_offset [OF assms]
      by (intro exI [of _ "write_vabits16 sm (SM_OFF_16 a) VA_BITS16_NOACCESS t"]) (auto simp: make_aligned_word64_noaccess_def Let_def simp del: oc_effect.simps)
  qed simp
qed

lemma sets_word32_undefined_w_otag:
  assumes "VG_IS_4_ALIGNED a" shows "sets_bytes (make_aligned_word32_undefined_w_otag a otag) a 4 (Some V_BITS8_UNDEFINED) (Some otag)"
  using sets_bytes_log [OF sets_word32_undefined [OF assms], of "oc_set_word32 a otag"]
  by (simp add: make_aligned_word32_undefined_w_otag_def [abs_def])

lemma sets_word64_undefined_w_otag:
  assumes "VG_IS_8_ALIGNED a" shows "sets_bytes (make_aligned_word64_undefined_w_otag a otag) a 8 (Some V_BITS8_UNDEFINED) (Some otag)"
  using sets_bytes_log [OF sets_word64_undefined [OF assms], of "oc_set_word64 a otag"] al8_line_offset [OF assms]
  by (simp add: make_aligned_word64_undefined_w_otag_def [abs_def])

subsection \<open>The handlers\<close>

lemma al_numeral [simp]: "VG_IS_8_ALIGNED (numeral n) \<longleftrightarrow> numeral n AND 7 = (0 :: Addr)" "VG_IS_4_ALIGNED (numeral n) \<longleftrightarrow> numeral n AND 3 = (0 :: Addr)"
  by (auto simp: VG_IS_8_ALIGNED_def VG_IS_4_ALIGNED_def)

lemma al8_shift4:
  assumes "VG_IS_4_ALIGNED a" "\<not> VG_IS_8_ALIGNED a" "VG_IS_8_ALIGNED (n + 4)"
  shows "VG_IS_8_ALIGNED (a + n)" "VG_IS_8_ALIGNED (a - n)"
proof -
  have "VG_IS_8_ALIGNED ((a - 4) + (n + 4))" by (rule al8_add [OF al8_minus4 [OF assms(1,2)] assms(3)])
  then show "VG_IS_8_ALIGNED (a + n)" by simp
  have "VG_IS_8_ALIGNED ((a + 4) - (n + 4))" by (rule al8_diff [OF al8_plus4 [OF assms(1,2)] assms(3)])
  then show "VG_IS_8_ALIGNED (a - n)" by simp
qed

lemmas sets_words = sets_word32_undefined sets_word64_undefined sets_word32_noaccess sets_word64_noaccess
  sets_word32_undefined_w_otag sets_word64_undefined_w_otag

lemmas sets_mem = sets_make_mem_undefined sets_make_mem_undefined_w_otag sets_make_mem_noaccess

lemma al_shift12:
  "VG_IS_8_ALIGNED (a - 12) \<Longrightarrow> VG_IS_4_ALIGNED (a - 4)"
  "VG_IS_4_ALIGNED a \<Longrightarrow> \<not> VG_IS_8_ALIGNED (a - 12) \<Longrightarrow> VG_IS_8_ALIGNED (a - 8)"
proof -
  show "VG_IS_4_ALIGNED (a - 4)" if "VG_IS_8_ALIGNED (a - 12)"
    using al8_al4 [OF al8_add [OF that, of 8]] by simp
  show "VG_IS_8_ALIGNED (a - 8)" if "VG_IS_4_ALIGNED a" "\<not> VG_IS_8_ALIGNED (a - 12)"
  proof -
    have "VG_IS_4_ALIGNED (a - 12)" using al4_diff [OF that(1), of 12] by simp
    from al8_plus4 [OF this that(2)] show ?thesis by simp
  qed
qed

lemmas al_solve = al8_add al8_diff al4_add al4_diff al8_shift4 al8_al4 al_shift12

lemma sets_mem_n:
  assumes "unat len = n"
  shows "sets_bytes (make_mem_undefined a len) a n (Some V_BITS8_UNDEFINED) None"
    and "sets_bytes (make_mem_undefined_w_otag a len otag) a n (Some V_BITS8_UNDEFINED) (Some otag)"
    and "sets_bytes (make_mem_noaccess a len) a n None (Some 0)"
  using sets_mem assms by blast+

lemma sets_new_mem_stack:
  shows "sets_bytes (mc_new_mem_stack_4 sp) (- VG_STACK_REDZONE_SZB + sp) 4 (Some V_BITS8_UNDEFINED) (None)"
  and "sets_bytes (mc_new_mem_stack_8 sp) (- VG_STACK_REDZONE_SZB + sp) 8 (Some V_BITS8_UNDEFINED) (None)"
  and "sets_bytes (mc_new_mem_stack_12 sp) (- VG_STACK_REDZONE_SZB + sp) 12 (Some V_BITS8_UNDEFINED) (None)"
  and "sets_bytes (mc_new_mem_stack_16 sp) (- VG_STACK_REDZONE_SZB + sp) 16 (Some V_BITS8_UNDEFINED) (None)"
  and "sets_bytes (mc_new_mem_stack_32 sp) (- VG_STACK_REDZONE_SZB + sp) 32 (Some V_BITS8_UNDEFINED) (None)"
  and "sets_bytes (mc_new_mem_stack_112 sp) (- VG_STACK_REDZONE_SZB + sp) 112 (Some V_BITS8_UNDEFINED) (None)"
  and "sets_bytes (mc_new_mem_stack_128 sp) (- VG_STACK_REDZONE_SZB + sp) 128 (Some V_BITS8_UNDEFINED) (None)"
  and "sets_bytes (mc_new_mem_stack_144 sp) (- VG_STACK_REDZONE_SZB + sp) 144 (Some V_BITS8_UNDEFINED) (None)"
  and "sets_bytes (mc_new_mem_stack_160 sp) (- VG_STACK_REDZONE_SZB + sp) 160 (Some V_BITS8_UNDEFINED) (None)"
  unfolding mc_new_mem_stack_4_def [abs_def] mc_new_mem_stack_8_def [abs_def] mc_new_mem_stack_12_def [abs_def] mc_new_mem_stack_16_def [abs_def] mc_new_mem_stack_32_def [abs_def] mc_new_mem_stack_112_def [abs_def] mc_new_mem_stack_128_def [abs_def] mc_new_mem_stack_144_def [abs_def] mc_new_mem_stack_160_def [abs_def] Let_def
  by (rule sets_bytes_if sets_bytes_bind sets_words | simp add: al_solve sets_mem_n)+

lemma sets_new_mem_stack_w_ECU:
  shows "sets_bytes (mc_new_mem_stack_4_w_ECU sp ecu) (- VG_STACK_REDZONE_SZB + sp) 4 (Some V_BITS8_UNDEFINED) (Some (ecu OR MC_OKIND_STACK))"
  and "sets_bytes (mc_new_mem_stack_8_w_ECU sp ecu) (- VG_STACK_REDZONE_SZB + sp) 8 (Some V_BITS8_UNDEFINED) (Some (ecu OR MC_OKIND_STACK))"
  and "sets_bytes (mc_new_mem_stack_12_w_ECU sp ecu) (- VG_STACK_REDZONE_SZB + sp) 12 (Some V_BITS8_UNDEFINED) (Some (ecu OR MC_OKIND_STACK))"
  and "sets_bytes (mc_new_mem_stack_16_w_ECU sp ecu) (- VG_STACK_REDZONE_SZB + sp) 16 (Some V_BITS8_UNDEFINED) (Some (ecu OR MC_OKIND_STACK))"
  and "sets_bytes (mc_new_mem_stack_32_w_ECU sp ecu) (- VG_STACK_REDZONE_SZB + sp) 32 (Some V_BITS8_UNDEFINED) (Some (ecu OR MC_OKIND_STACK))"
  and "sets_bytes (mc_new_mem_stack_112_w_ECU sp ecu) (- VG_STACK_REDZONE_SZB + sp) 112 (Some V_BITS8_UNDEFINED) (Some (ecu OR MC_OKIND_STACK))"
  and "sets_bytes (mc_new_mem_stack_128_w_ECU sp ecu) (- VG_STACK_REDZONE_SZB + sp) 128 (Some V_BITS8_UNDEFINED) (Some (ecu OR MC_OKIND_STACK))"
  and "sets_bytes (mc_new_mem_stack_144_w_ECU sp ecu) (- VG_STACK_REDZONE_SZB + sp) 144 (Some V_BITS8_UNDEFINED) (Some (ecu OR MC_OKIND_STACK))"
  and "sets_bytes (mc_new_mem_stack_160_w_ECU sp ecu) (- VG_STACK_REDZONE_SZB + sp) 160 (Some V_BITS8_UNDEFINED) (Some (ecu OR MC_OKIND_STACK))"
  unfolding mc_new_mem_stack_4_w_ECU_def [abs_def] mc_new_mem_stack_8_w_ECU_def [abs_def] mc_new_mem_stack_12_w_ECU_def [abs_def] mc_new_mem_stack_16_w_ECU_def [abs_def] mc_new_mem_stack_32_w_ECU_def [abs_def] mc_new_mem_stack_112_w_ECU_def [abs_def] mc_new_mem_stack_128_w_ECU_def [abs_def] mc_new_mem_stack_144_w_ECU_def [abs_def] mc_new_mem_stack_160_w_ECU_def [abs_def] Let_def
  by (rule sets_bytes_if sets_bytes_bind sets_words | simp add: al_solve sets_mem_n)+

lemma sets_die_mem_stack:
  shows "sets_bytes (mc_die_mem_stack_4 sp) (- VG_STACK_REDZONE_SZB + sp - 4) 4 (None) (Some 0)"
  and "sets_bytes (mc_die_mem_stack_8 sp) (- VG_STACK_REDZONE_SZB + sp - 8) 8 (None) (Some 0)"
  and "sets_bytes (mc_die_mem_stack_12 sp) (- VG_STACK_REDZONE_SZB + sp - 12) 12 (None) (Some 0)"
  and "sets_bytes (mc_die_mem_stack_16 sp) (- VG_STACK_REDZONE_SZB + sp - 16) 16 (None) (Some 0)"
  and "sets_bytes (mc_die_mem_stack_32 sp) (- VG_STACK_REDZONE_SZB + sp - 32) 32 (None) (Some 0)"
  and "sets_bytes (mc_die_mem_stack_112 sp) (- VG_STACK_REDZONE_SZB + sp - 112) 112 (None) (Some 0)"
  and "sets_bytes (mc_die_mem_stack_128 sp) (- VG_STACK_REDZONE_SZB + sp - 128) 128 (None) (Some 0)"
  and "sets_bytes (mc_die_mem_stack_144 sp) (- VG_STACK_REDZONE_SZB + sp - 144) 144 (None) (Some 0)"
  and "sets_bytes (mc_die_mem_stack_160 sp) (- VG_STACK_REDZONE_SZB + sp - 160) 160 (None) (Some 0)"
  unfolding mc_die_mem_stack_4_def [abs_def] mc_die_mem_stack_8_def [abs_def] mc_die_mem_stack_12_def [abs_def] mc_die_mem_stack_16_def [abs_def] mc_die_mem_stack_32_def [abs_def] mc_die_mem_stack_112_def [abs_def] mc_die_mem_stack_128_def [abs_def] mc_die_mem_stack_144_def [abs_def] mc_die_mem_stack_160_def [abs_def] Let_def
  by (rule sets_bytes_if sets_bytes_bind sets_words | simp add: al_solve sets_mem_n)+

subsection \<open>The cache of execution context numbers\<close>

text \<open>Every cached pair is right for the function the cache stands in front of.\<close>

definition nia_cache_ok :: "(Addr \<Rightarrow> UInt) \<Rightarrow> nia_cache \<Rightarrow> bool" where
  "nia_cache_ok make_ecu c \<longleftrightarrow> length (nia_to_ecu_cache c) = N_NIA_TO_ECU_CACHE \<and>
     (\<forall>e\<in>set (nia_to_ecu_cache c). ecu0 e = ucast (make_ecu (nia0 e)) \<and> ecu1 e = ucast (make_ecu (nia1 e)))"

lemma convert_nia_to_ecu_ok:
  assumes "nia_cache_ok make_ecu c" "is_plausible_ECU (make_ecu nia)"
  shows "\<exists>c'. convert_nia_to_ecu make_ecu nia c = Some (make_ecu nia, c') \<and> nia_cache_ok make_ecu c' \<and>
    nia_cache_queries c' = nia_cache_queries c + 1"
proof -
  define i where "i = unat nia mod N_NIA_TO_ECU_CACHE"
  have i: "i < length (nia_to_ecu_cache c)"
    using assms(1) by (simp add: nia_cache_ok_def i_def N_NIA_TO_ECU_CACHE_def)
  let ?e = "nia_to_ecu_cache c ! i"
  have e: "ecu0 ?e = ucast (make_ecu (nia0 ?e))" "ecu1 ?e = ucast (make_ecu (nia1 ?e))"
    using assms(1) i nth_mem by (auto simp: nia_cache_ok_def)
  have u: "ucast (ucast x :: UWord) = (x :: UInt)" for x
    by (rule bit_word_eqI) (simp add: bit_ucast_iff)
  show ?thesis
    using assms e i
    by (auto simp: convert_nia_to_ecu_def Let_def i_def [symmetric] nia_cache_ok_def u
      dest!: set_update_subset_insert [THEN subsetD])
qed

subsection \<open>Undefined red zones\<close>

lemma slot_ptr_writable:
  assumes "make_slot_writable x s = Some (p, t)" "read_slot x s = Some (slot_ptr s x)"
  shows "slot_ptr t = (slot_ptr s)(x := p)"
proof (cases "is_distinguished_sm (slot_ptr s x)")
  case True
  then obtain u where u: "copy_for_writing (slot_ptr s x) s = Some (p, u)" "t = write_slot x p u"
    using assms by (auto simp: make_slot_writable_def bind_Some_iff)
  have "slot_ptr u = slot_ptr s"
    by (rule slot_ptr_cong) (use u(1) in \<open>auto simp: copy_for_writing_def Let_def update_SM_counts_def bind_Some_iff split: if_splits\<close>)
  then show ?thesis using u(2) by (simp add: slot_ptr_write_slot)
next
  case False
  then show ?thesis using assms by (auto simp: make_slot_writable_def)
qed

lemma write_ushort_vabits16:
  assumes "VG_IS_8_ALIGNED base" "unat base mod 65536 + 8 * i < 65536"
  shows "write_ushort sm (SM_OFF base) i v s = write_vabits16 sm (SM_OFF_16 (base + of_nat (8 * i))) v s"
proof -
  have m: "unat base mod 65536 mod 8 = 0" using assms(1) by (simp add: al8_iff mod_mod_cancel)
  have h: "2 * ((q + 8 * i) div 8) = q div 4 + 2 * i" if "q mod 8 = 0" for q using that by presburger
  have "unat (base + of_nat (8 * i)) mod 65536 = unat base mod 65536 + 8 * i"
    by (rule slot_step(2) [OF assms(2)])
  then have "2 * SM_OFF_16 (base + of_nat (8 * i)) = SM_OFF base + 2 * i"
    unfolding SM_OFF_unat SM_OFF_16_unat using h [OF m] by simp
  then show ?thesis by (simp add: write_ushort_def write_vabits16_def)
qed

lemma write_ushorts_ok:
  assumes "mc_ok s" "slot_ptr s (slot_of base) = Sm m" "VG_IS_8_ALIGNED base" "unat base mod 65536 + 8 * n \<le> 65536"
  shows "loop_ok s (foldl (\<lambda>s i. write_ushort (Sm m) (SM_OFF base) i VA_BITS16_UNDEFINED s) s [0..<n]) base (8 * n) VA_BITS2_UNDEFINED"
  using assms(4)
proof (induction n)
  case 0
  then show ?case using assms(1) by (simp add: loop_ok_def set_range_0)
next
  case (Suc n)
  let ?t = "foldl (\<lambda>s i. write_ushort (Sm m) (SM_OFF base) i VA_BITS16_UNDEFINED s) s [0..<n]"
  let ?a = "base + of_nat (8 * n)"
  have t: "loop_ok s ?t base (8 * n) VA_BITS2_UNDEFINED" using Suc by simp
  have lt: "unat base mod 65536 + 8 * n < 65536" using Suc.prems by simp
  have sl: "slot_ptr ?t (slot_of ?a) = Sm m"
    using t assms(2) unfolding slot_step(1) [OF lt] by (simp add: loop_ok_def)
  have al: "?a AND 7 = 0"
  proof -
    have "unat base mod 8 = 0" using assms(3) by (simp add: al8_iff)
    then have "(unat base mod 65536 + 8 * n) mod 8 = 0" using mod_mod_cancel [of 8 65536 "unat base"] by (simp add: mod_add_eq)
    then have "unat ?a mod 65536 mod 8 = 0" using slot_step(2) [OF lt] by simp
    then have "VG_IS_8_ALIGNED ?a" unfolding al8_iff by (simp add: mod_mod_cancel)
    then show ?thesis by (simp add: VG_IS_8_ALIGNED_def)
  qed
  have "mc_ok ?t" using t by (simp add: loop_ok_def set_range_def)
  from word8_step [OF this sl al perm_args_facts(1-3) [OF perm_undefined]]
  have "loop_ok ?t (write_ushort (Sm m) (SM_OFF base) n VA_BITS16_UNDEFINED ?t) ?a 8 VA_BITS2_UNDEFINED"
    unfolding write_ushort_vabits16 [OF assms(3) lt] .
  from loop_ok_append [OF t this] show ?case using Suc.prems by (simp add: add.commute)
qed

lemma writing_low_slot:
  assumes "mc_ok s" "alloc_ok s" "a \<le> MAX_PRIMARY_ADDRESS" "get_secmap_for_writing_low a s = Some (p, t)"
  shows "slot_ptr t = (slot_ptr s)(slot_of a := p)"
proof -
  have "get_secmap_low_ptr a = slot_of a" using assms(3) by (simp add: slot_of_def get_secmap_low_ptr_def)
  moreover have "read_slot (slot_of a) s = Some (slot_ptr s (slot_of a))"
    using assms(3) by (simp add: slot_of_def slot_ptr_def)
  ultimately show ?thesis using slot_ptr_writable assms(4) by (simp add: get_secmap_for_writing_low_def)
qed

lemma log_words: "foldl (\<lambda>s i. log_ocache (f i) s) s xs = s\<lparr>ocache_calls := ocache_calls s @ map f xs\<rparr>"
  by (induction xs arbitrary: s) (simp_all add: log_ocache_def)

lemma oc_effect_words:
  "8 * n \<le> 2 ^ 64 \<Longrightarrow> oc_effect (map (\<lambda>i. oc_set_word64 (base + 8 * of_nat i) otag) [0..<n]) = (\<lambda>y. if unat (y - base) < 8 * n then Some otag else None)"
proof (induction n)
  case (Suc n)
  have "oc_effect [oc_set_word64 (base + of_nat (8 * n)) otag] = (\<lambda>y. if unat (y - (base + of_nat (8 * n))) < 8 then Some otag else None)"
    by (rule oc_effect_single) simp_all
  moreover have "unat (y - base) < 8 * Suc n \<longleftrightarrow> unat (y - base) < 8 * n \<or> unat (y - (base + of_nat (8 * n))) < 8" for y
    using range_append [of "8 * n" 8 y base] Suc.prems by (simp add: add.commute)
  ultimately show ?case
    using Suc by (auto simp: oc_effect_append fun_eq_iff simp del: oc_effect.simps split: option.splits)
qed (simp add: fun_eq_iff)

lemma unat_add_of_nat: "unat (a :: Addr) + k < 2 ^ 64 \<Longrightarrow> unat (a + of_nat k) = unat a + k"
  by (simp add: unat_word_ariths unat_of_nat)

lemma high_end:
  assumes "0 < n" "unat (base :: Addr) + 8 * n \<le> 2 ^ 64"
  shows "unat (base + of_nat (8 * n) - 1) = unat base + (8 * n - 1)" "base < base + of_nat (8 * n) - 1"
proof -
  have "base + of_nat (8 * n) - 1 = base + of_nat (8 * n - 1)" using assms(1) by (simp add: of_nat_diff)
  moreover have "unat (base + of_nat (8 * n - 1)) = unat base + (8 * n - 1)"
    by (rule unat_add_of_nat) (use assms in linarith)
  ultimately show u: "unat (base + of_nat (8 * n) - 1) = unat base + (8 * n - 1)" by (simp only:)
  show "base < base + of_nat (8 * n) - 1" unfolding word_less_nat_alt u using assms(1) by simp
qed

lemma same_slot_end:
  assumes "x div 65536 = (x + (k - 1)) div 65536" "0 < k"
  shows "x mod 65536 + k \<le> (65536 :: nat)"
proof -
  have "x + (k - 1) = x div 65536 * 65536 + (x mod 65536 + (k - 1))" by simp
  then have "(x mod 65536 + (k - 1)) div 65536 = 0" using assms(1) by (metis add_diff_cancel_left' diff_self_eq_0 div_mult_self3 zero_neq_numeral)
  then have "x mod 65536 + (k - 1) < 65536" by (simp add: div_eq_0_iff)
  then show ?thesis using assms(2) by linarith
qed

definition uninit_ok :: "mc_state \<Rightarrow> mc_state \<Rightarrow> Addr \<Rightarrow> nat \<Rightarrow> UInt \<Rightarrow> bool" where
  "uninit_ok s s' base k otag \<longleftrightarrow> view s' = (\<lambda>y. if unat (y - base) < k then Some V_BITS8_UNDEFINED else view s y) \<and>
     (\<exists>cs. ocache_calls s' = ocache_calls s @ cs \<and>
       (clo_mc_level s = 3 \<longrightarrow> oc_effect cs = (\<lambda>y. if unat (y - base) < k then Some otag else None)))"

lemma make_stack_uninit_fast_ok:
  assumes s: "mem_ok s" "alloc_ok s" and b: "VG_IS_8_ALIGNED base" "0 < n" "unat base + 8 * n \<le> 2 ^ 64"
  shows "\<exists>d s'. make_stack_uninit_fast n base otag s = Some (d, s') \<and> mem_ok s' \<and> alloc_ok s' \<and>
    address_errors s' = address_errors s \<and> clo_mc_level s' = clo_mc_level s \<and>
    (if d then uninit_ok s s' base (8 * n) otag else view s' = view s \<and> ocache_calls s' = ocache_calls s)"
proof -
  let ?hi = "base + of_nat (8 * n) - 1"
  note hi = high_end [OF b(2,3)]
  show ?thesis
  proof (cases "?hi \<le> MAX_PRIMARY_ADDRESS")
    case False
    then show ?thesis using s hi(2) by (auto simp: make_stack_uninit_fast_def Let_def)
  next
    case True
    then have lo: "base \<le> MAX_PRIMARY_ADDRESS" using hi(2) by (meson less_imp_le order.trans)
    obtain n1 t1 where t1: "get_secmap_for_writing_low base s = Some (Sm n1, t1)" "mc_ok t1" "slot_ptr t1 (slot_of base) = Sm n1" "va t1 = va s" "vtab t1 = vtab s"
      using writing_low_ok [OF mem_mc [OF s(1)] s(2) lo] .
    have a1: "alloc_ok t1" using s(2) t1(5) by (simp add: alloc_ok_def vtab_def)
    obtain n2 t2 where t2: "get_secmap_for_writing_low ?hi t1 = Some (Sm n2, t2)" "mc_ok t2" "slot_ptr t2 (slot_of ?hi) = Sm n2" "va t2 = va t1" "vtab t2 = vtab t1"
      using writing_low_ok [OF t1(2) a1 True] .
    have sp: "slot_ptr t2 = (slot_ptr t1)(slot_of ?hi := Sm n2)" by (rule writing_low_slot [OF t1(2) a1 True t2(1)])
    have m2: "mem_ok t2" "env t2 = env s" "view t2 = view s"
      using set_va_mem [OF s(1) t2(2)] t2 t1 by (auto simp: view_def)
    have e2: "alloc_ok t2" "address_errors t2 = address_errors s" "clo_mc_level t2 = clo_mc_level s" "ocache_calls t2 = ocache_calls s"
      using m2(2) s(2) by (auto simp: env_def alloc_ok_def)
    show ?thesis
    proof (cases "n1 = n2")
      case neq: False
      then show ?thesis using True hi(2) t1(1) t2(1) m2 e2 by (auto simp: make_stack_uninit_fast_def Let_def)
    next
      case eq: True
      then have sl: "slot_ptr t2 (slot_of base) = Sm n1" using sp t1(3) by simp
      then have "slot_of base = slot_of ?hi" using t2(2,3) eq unfolding mc_ok_def by blast
      then have fit: "unat base mod 65536 + 8 * n \<le> 65536"
        unfolding slot_of_eq hi(1) by (rule same_slot_end) (use b(2) in simp)
      define u where "u = foldl (\<lambda>s i. write_ushort (Sm n1) (SM_OFF base) i VA_BITS16_UNDEFINED s) t2 [0..<n]"
      have sr: "set_range t2 u base (8 * n) VA_BITS2_UNDEFINED"
        using write_ushorts_ok [OF t2(2) sl b(1) fit] by (simp add: loop_ok_def u_def)
      note v = set_range_view [OF m2(1) sr, of "Some V_BITS8_UNDEFINED", simplified]
      have eu: "alloc_ok u" "address_errors u = address_errors s" "clo_mc_level u = clo_mc_level s" "ocache_calls u = ocache_calls s"
        using v(2) e2 by (auto simp: env_def alloc_ok_def)
      define cs where "cs = (if clo_mc_level s = 3 then map (\<lambda>i. oc_set_word64 (base + 8 * of_nat i) otag) [0..<n] else [])"
      have r: "make_stack_uninit_fast n base otag s = Some (True, u\<lparr>ocache_calls := ocache_calls s @ cs\<rparr>)"
        using True hi(2) t1(1) t2(1) eq eu set_range_log(1) [OF sr]
        by (simp add: make_stack_uninit_fast_def Let_def u_def [unfolded eq, symmetric] log_words cs_def e2(4))
      have "clo_mc_level s = 3 \<longrightarrow> oc_effect cs = (\<lambda>y. if unat (y - base) < 8 * n then Some otag else None)"
        using oc_effect_words [of n base otag] b(3) by (simp add: cs_def)
      then have "uninit_ok s (u\<lparr>ocache_calls := ocache_calls s @ cs\<rparr>) base (8 * n) otag"
        using v(3) m2(3) by (simp add: uninit_ok_def fun_eq_iff)
      then show ?thesis using r v(1) eu by (auto simp: alloc_ok_def)
    qed
  qed
qed

text \<open>The slow case is reached with memory unchanged.\<close>

lemma uninit_slow:
  assumes "mem_ok s'" "alloc_ok s'" "view s' = view s" "ocache_calls s' = ocache_calls s"
    "clo_mc_level s' = clo_mc_level s" "address_errors s' = address_errors s"
  shows "\<exists>t. make_mem_undefined_w_otag base len otag s' = Some t \<and> mem_ok t \<and> alloc_ok t \<and>
    address_errors t = address_errors s \<and> clo_mc_level t = clo_mc_level s \<and> uninit_ok s t base (unat len) otag"
proof -
  obtain t cs where "make_mem_undefined_w_otag base len otag s' = Some t" "mem_ok t" "alloc_ok t"
     "view t = (\<lambda>y. if unat (y - base) < unat len then Some V_BITS8_UNDEFINED else view s' y)" "address_errors t = address_errors s'"
     "clo_mc_level t = clo_mc_level s'" "ocache_calls t = ocache_calls s' @ cs"
     "clo_mc_level s' = 3 \<longrightarrow> oc_effect cs = (\<lambda>y. if unat (y - base) < unat len then Some otag else None)"
    using sets_make_mem_undefined_w_otag [of base len otag] assms(1,2) unfolding sets_bytes_def by blast
  then show ?thesis using assms(3-6) by (auto simp: uninit_ok_def)
qed

lemma make_stack_uninit_ok:
  assumes "mem_ok s" "alloc_ok s" "unat base + unat len \<le> 2 ^ 64"
  shows "\<exists>t. make_stack_uninit_otag base len otag s = Some t \<and> mem_ok t \<and> alloc_ok t \<and>
    address_errors t = address_errors s \<and> clo_mc_level t = clo_mc_level s \<and> uninit_ok s t base (unat len) otag"
proof (cases "VG_IS_8_ALIGNED base \<and> (len = 128 \<or> len = 288)")
  case False
  then have "make_stack_uninit_otag base len otag s = make_mem_undefined_w_otag base len otag s"
    by (auto simp: make_stack_uninit_otag_def)
  then show ?thesis using uninit_slow [OF assms(1,2)] by simp
next
  case True
  define n :: nat where "n = (if len = 128 then 16 else 36)"
  have n: "0 < n" "8 * n = unat len" using True by (auto simp: n_def)
  have fast: "make_stack_uninit_otag base len otag s = do {
      (d, s) \<leftarrow> make_stack_uninit_fast n base otag s; if d then Some s else make_mem_undefined_w_otag base len otag s }"
    using True by (cases "make_stack_uninit_fast n base otag s") (auto simp: make_stack_uninit_otag_def n_def)
  obtain d s' where s': "make_stack_uninit_fast n base otag s = Some (d, s')" "mem_ok s'" "alloc_ok s'"
      "address_errors s' = address_errors s" "clo_mc_level s' = clo_mc_level s"
      "if d then uninit_ok s s' base (8 * n) otag else view s' = view s \<and> ocache_calls s' = ocache_calls s"
    using make_stack_uninit_fast_ok [OF assms(1,2) _ n(1)] True assms(3) n(2) by metis
  show ?thesis
  proof (cases d)
    case True
    then show ?thesis using fast s' n(2) by auto
  next
    case False
    then show ?thesis using fast s' uninit_slow [of s' s base len otag] by auto
  qed
qed

subsection \<open>Properties\<close>

lemma new_handler_sets:
  "(n, f) \<in> set new_mem_stack_handlers \<Longrightarrow> sets_bytes (f sp) (sp - VG_STACK_REDZONE_SZB) (unat n) (Some V_BITS8_UNDEFINED) None"
  using sets_new_mem_stack [of sp] by (auto simp: new_mem_stack_handlers_def)

lemma new_ECU_handler_sets:
  "(n, f) \<in> set new_mem_stack_w_ECU_handlers \<Longrightarrow>
     sets_bytes (f sp ecu) (sp - VG_STACK_REDZONE_SZB) (unat n) (Some V_BITS8_UNDEFINED) (Some (ecu OR MC_OKIND_STACK))"
  using sets_new_mem_stack_w_ECU [of sp ecu] by (auto simp: new_mem_stack_w_ECU_handlers_def)

lemma die_handler_sets:
  "(n, f) \<in> set die_mem_stack_handlers \<Longrightarrow> sets_bytes (f sp) (sp - VG_STACK_REDZONE_SZB - n) (unat n) None (Some 0)"
  using sets_die_mem_stack [of sp] by (auto simp: die_mem_stack_handlers_def)

lemma sets_bytesD:
  assumes "sets_bytes f a (unat n) p e" "mem_ok s" "alloc_ok s"
  shows "\<exists>s'. f s = Some s' \<and> mem_ok s' \<and> alloc_ok s' \<and> view s' = (\<lambda>y. if y - a < n then p else view s y) \<and>
     address_errors s' = address_errors s \<and> (\<exists>cs. ocache_calls s' = ocache_calls s @ cs \<and>
     (clo_mc_level s = 3 \<longrightarrow> oc_effect cs = (\<lambda>y. if y - a < n then e else None)))"
  using assms unfolding sets_bytes_def unat_less_iff by blast

text \<open>C29. Every handler for growing the stack by a fixed amount, on each of its alignment cases,
  makes exactly that many bytes from the end of the red zone of the new stack pointer undefined,
  as the general range operation would; the handlers used with origin tracking give exactly these
  bytes the stack origin of the allocation.\<close>

theorem new_mem_stack_correct:
  assumes "mem_ok s" "alloc_ok s" "(n, f) \<in> set new_mem_stack_handlers" "(n, g) \<in> set new_mem_stack_w_ECU_handlers"
  shows "(\<exists>s'. f new_SP s = Some s' \<and> mem_ok s' \<and>
       view s' = (\<lambda>y. if y - (new_SP - VG_STACK_REDZONE_SZB) < n then Some V_BITS8_UNDEFINED else view s y)) \<and>
     (\<exists>s' cs. g new_SP ecu s = Some s' \<and> mem_ok s' \<and>
       view s' = (\<lambda>y. if y - (new_SP - VG_STACK_REDZONE_SZB) < n then Some V_BITS8_UNDEFINED else view s y) \<and>
       ocache_calls s' = ocache_calls s @ cs \<and>
       (clo_mc_level s = 3 \<longrightarrow> oc_effect cs =
          (\<lambda>y. if y - (new_SP - VG_STACK_REDZONE_SZB) < n then Some (ecu OR MC_OKIND_STACK) else None)))"
  using sets_bytesD [OF new_handler_sets [OF assms(3)] assms(1,2), of new_SP]
    sets_bytesD [OF new_ECU_handler_sets [OF assms(4)] assms(1,2), of new_SP ecu] by blast

theorem new_mem_stack_correct_witness:
  "\<exists>s'. mc_new_mem_stack_12 0x1074 sample_mem = Some s' \<and> view s' 0xFF4 = Some V_BITS8_UNDEFINED \<and>
     view s' 0xFFF = Some V_BITS8_UNDEFINED \<and> view s' 0x1001 = None"
proof -
  have "(12, mc_new_mem_stack_12) \<in> set new_mem_stack_handlers" "(12, mc_new_mem_stack_12_w_ECU) \<in> set new_mem_stack_w_ECU_handlers"
    by (simp_all add: new_mem_stack_handlers_def new_mem_stack_w_ECU_handlers_def)
  from new_mem_stack_correct [OF sample_mem_ok(1,2) this, of "0x1074" 4] show ?thesis
    by (auto simp: VG_STACK_REDZONE_SZB_def sample_mem_ok(3))
qed

text \<open>C30. Every handler for shrinking the stack takes access away from exactly the bytes the stack
  pointer has passed, and clears their origins at level 3.\<close>

theorem die_mem_stack_correct:
  assumes "mem_ok s" "alloc_ok s" "(n, f) \<in> set die_mem_stack_handlers"
  shows "\<exists>s' cs. f new_SP s = Some s' \<and> mem_ok s' \<and>
     view s' = (\<lambda>y. if y - (new_SP - VG_STACK_REDZONE_SZB - n) < n then None else view s y) \<and>
     ocache_calls s' = ocache_calls s @ cs \<and>
     (clo_mc_level s = 3 \<longrightarrow> oc_effect cs = (\<lambda>y. if y - (new_SP - VG_STACK_REDZONE_SZB - n) < n then Some 0 else None))"
  using sets_bytesD [OF die_handler_sets [OF assms(3)] assms(1,2), of new_SP] by blast

theorem die_mem_stack_correct_witness:
  "\<exists>s'. mc_die_mem_stack_12 0x1084 sample_mem = Some s' \<and> view s' = (\<lambda>y. None)"
proof -
  have "(12, mc_die_mem_stack_12) \<in> set die_mem_stack_handlers" by (simp add: die_mem_stack_handlers_def)
  from die_mem_stack_correct [OF sample_mem_ok(1,2) this, of "0x1084"] show ?thesis
    by (auto simp: VG_STACK_REDZONE_SZB_def sample_mem_ok(3) fun_eq_iff)
qed

text \<open>Growing the stack and shrinking it back by the same amount affects exactly the bytes of
  the frame: they end up inaccessible and every other byte is as before.\<close>

lemma stack_grow_shrink:
  assumes "mem_ok s" "alloc_ok s" "(n, f) \<in> set new_mem_stack_handlers" "(n, g) \<in> set die_mem_stack_handlers"
  shows "\<exists>s'. (f new_SP s \<bind> g (new_SP + n)) = Some s' \<and> mem_ok s' \<and>
    view s' = (\<lambda>y. if y - (new_SP - VG_STACK_REDZONE_SZB) < n then None else view s y)"
proof -
  obtain t where t: "f new_SP s = Some t" "mem_ok t" "alloc_ok t"
      "view t = (\<lambda>y. if y - (new_SP - VG_STACK_REDZONE_SZB) < n then Some V_BITS8_UNDEFINED else view s y)"
    using sets_bytesD [OF new_handler_sets [OF assms(3)] assms(1,2), of new_SP] by blast
  have a: "new_SP + n - VG_STACK_REDZONE_SZB - n = new_SP - VG_STACK_REDZONE_SZB" by simp
  obtain u where "g (new_SP + n) t = Some u" "mem_ok u"
      "view u = (\<lambda>y. if y - (new_SP - VG_STACK_REDZONE_SZB) < n then None else view t y)"
    using sets_bytesD [OF die_handler_sets [OF assms(4)] t(2,3), of "new_SP + n"] unfolding a by blast
  then show ?thesis using t by (auto simp: fun_eq_iff)
qed

text \<open>C31. At calls and returns the red zone is made undefined, whichever of the fast and slow cases
  handles it: for a range that does not wrap and a plausible execution context number the helper
  returns and sets exactly the bytes of the range, with the origin of the calling instruction at
  level 3. The cache in front of the execution contexts answers as they would and stays right.\<close>

theorem helperc_MAKE_STACK_UNINIT_correct:
  assumes "mem_ok s" "alloc_ok s" "unat base + unat len \<le> 2 ^ 64"
    "nia_cache_ok make_ecu c" "is_plausible_ECU (make_ecu nia)" "clo_mc_level s \<noteq> 3 \<Longrightarrow> nia = 0"
  shows "\<exists>c' s' cs. helperc_MAKE_STACK_UNINIT make_ecu base len nia (c, s) = Some (c', s') \<and> nia_cache_ok make_ecu c' \<and>
    mem_ok s' \<and> view s' = (\<lambda>y. if y - base < len then Some V_BITS8_UNDEFINED else view s y) \<and>
    ocache_calls s' = ocache_calls s @ cs \<and> (clo_mc_level s = 3 \<longrightarrow>
      oc_effect cs = (\<lambda>y. if y - base < len then Some (make_ecu nia OR MC_OKIND_STACK) else None))"
proof -
  define otag where "otag = (if clo_mc_level s = 3 then make_ecu nia OR MC_OKIND_STACK else 0)"
  obtain c' where c': "(if clo_mc_level s = 3 then do { (ecu, c) \<leftarrow> convert_nia_to_ecu make_ecu nia c;
        vg_assert (is_plausible_ECU ecu); Some (ecu OR MC_OKIND_STACK, c) }
      else do { vg_assert (nia = 0); Some (0, c) }) = Some (otag, c')" "nia_cache_ok make_ecu c'"
    using convert_nia_to_ecu_ok [OF assms(4,5)] assms(4-6) by (cases "clo_mc_level s = 3") (auto simp: otag_def)
  obtain t where "make_stack_uninit_otag base len otag s = Some t" "mem_ok t" "uninit_ok s t base (unat len) otag"
    using make_stack_uninit_ok [OF assms(1-3)] by blast
  then show ?thesis
    using c' by (auto simp: helperc_MAKE_STACK_UNINIT_def uninit_ok_def unat_less_iff otag_def)
qed

lemma nia_cache_ok_init:
  assumes "is_plausible_ECU (make_ecu 0)"
  shows "\<exists>c. init_nia_to_ecu_cache make_ecu = Some c \<and> nia_cache_ok make_ecu c"
  using assms by (simp add: init_nia_to_ecu_cache_def nia_cache_ok_def Let_def)

theorem helperc_MAKE_STACK_UNINIT_correct_witness:
  "\<exists>c c' s'. init_nia_to_ecu_cache (\<lambda>a. 4 + 4 * ucast (a AND 1)) = Some c \<and>
     helperc_MAKE_STACK_UNINIT (\<lambda>a. 4 + 4 * ucast (a AND 1)) 0xF80 128 0 (c, sample_mem) = Some (c', s') \<and>
     view s' 0xFFF = Some V_BITS8_UNDEFINED \<and> view s' 0x1001 = None"
proof -
  let ?f = "\<lambda>a :: Addr. 4 + 4 * ucast (a AND 1) :: UInt"
  have p: "is_plausible_ECU (?f 0)" by (simp add: is_plausible_ECU_def)
  obtain c where c: "init_nia_to_ecu_cache ?f = Some c" "nia_cache_ok ?f c" using nia_cache_ok_init [of ?f, OF p] by blast
  from helperc_MAKE_STACK_UNINIT_correct [OF sample_mem_ok(1,2) _ c(2) p, of "0xF80" 128] show ?thesis
    using c(1) by (auto simp: sample_mem_ok(3))
qed

text \<open>A fast case whose range would wrap around the address space stops at its overflow
  assertion.\<close>

lemma MAKE_STACK_UNINIT_overflow:
  assumes "len = 128 \<or> len = 288" "VG_IS_8_ALIGNED base" "2 ^ 64 \<le> unat base + (unat len - 1)"
  shows "make_stack_uninit_otag base len otag s = None"
proof -
  have "base + (len - 1) \<le> base"
    using assms(1,3) unsigned_less [of base, where 'a = nat] by (auto simp: word_le_nat_alt unat_word_ariths le_mod_geq)
  then have "\<not> base < base + len - 1" by (simp add: algebra_simps)
  then show ?thesis using assms(1,2) by (auto simp: make_stack_uninit_otag_def make_stack_uninit_fast_def Let_def)
qed

end
