(* ===== verification/Spec2Isabelle.thy ===== *)
theory Spec2Isabelle
  imports DRD_Thread_Correct AspaceOps_Correct WordBag HG_WordSet_Correct FastPaths_Correct StackPerms_Correct
begin

text \<open>
  A verification library for Valgrind: the core's finite maps and address space manager, Memcheck's
  shadow memory, Helgrind's word sets and the race detection of DRD.

  \<^bold>\<open>The program.\<close> Valgrind runs a client program on a synthetic processor. The core (\<^verbatim>\<open>coregrind/\<close>)
  owns the address space, loads the client and translates its code; a tool adds instrumentation that
  calls the tool's helpers at memory accesses, stack pointer changes and synchronisation operations.
  Memcheck keeps for every byte of the client whether it may be accessed and which of its bits are
  defined. DRD and Helgrind find data races. The parts are used through narrow interfaces: the tools
  keep their data in the maps of the core, the core tells Memcheck about stack and mapping changes,
  and DRD's access handlers combine vector clocks with bitmaps of accesses.

  \<^bold>\<open>Conventions.\<close> The model is of the 64 bit build; machine integers are words of their width, so
  arithmetic wraps as in C. An operation that can fail an assertion or follow a bad pointer returns an
  \<open>option\<close>; \<open>None\<close> means that it does not return normally. State is passed explicitly. For each
  component a theory holds the definitions, in the order of the source and under its names, and a
  theory with the suffix \<open>_Correct\<close> its invariant, its meaning and its lemmas. Code outside the
  modelled files is a parameter: the kernel (\<open>am_kernel\<close>), the numbers of execution contexts
  (\<open>make_ecu\<close>), what the core says about the stack of a new thread.

  \<^bold>\<open>Theories.\<close>
  \<^item> \<open>VG_Prelude\<close>: C types, assertions, the fact collections \<open>wlift\<close> and \<open>asserts\<close>, shared lemmas.
  \<^item> \<open>WordFM\<close>, \<open>WordFM_Correct\<close>, \<open>WordBag\<close> (\<^verbatim>\<open>coregrind/m_wordfm.c\<close>): AVL maps with their iterator and
    the bags built on them. A tree means its in-order list; insertion and removal keep balance and
    order and act as on a finite map; iteration yields every binding once. The laws of a comparison
    are the locale \<open>key_order\<close>, the contract for clients is \<open>finite_map\<close>; they are interpreted for
    unboxed words (\<open>uword_order\<close>, \<open>uword_map\<close>) and for vectors (\<open>wordvec_order\<close>, \<open>wordvec_map\<close>).
  \<^item> \<open>HG_WordSet\<close>, \<open>HG_WordSet_Correct\<close> (\<^verbatim>\<open>helgrind/hg_wordset.c\<close>): interned sets of words, a client of
    the maps, with caches of results. The operations refine those on sets and handles are canonical;
    the contract for the race detector is \<open>interned_sets\<close>.
  \<^item> \<open>ShadowMem\<close>, \<open>ShadowMem_Correct\<close> (\<^verbatim>\<open>memcheck/mc_main.c\<close>): primary map, auxiliary map with its front
    cache, secondary maps with copy on write. \<open>VBits\<close>, \<open>VBits_Correct\<close>: the V bits of a byte with the
    table of partially defined bytes and its garbage collection, slow loads and stores. The meaning of
    the state is \<open>view\<close>: each address has no access or eight V bits. \<open>shadow_bytes\<close> is the contract of
    the byte operations.
  \<^item> \<open>FastPaths\<close>, \<open>FastPaths_Correct\<close>: the helpers \<^verbatim>\<open>mc_LOADV*\<close> and \<^verbatim>\<open>mc_STOREV*\<close> that instrumented
    code calls agree with the byte-wise definition on all paths.
  \<^item> \<open>MemPerms\<close>, \<open>MemPerms_Correct\<close>: \<^verbatim>\<open>set_address_range_perms\<close> and its callers, copying and checking of
    ranges act on exactly the bytes of the range. \<open>StackPerms\<close>, \<open>StackPerms_Correct\<close>: the unrolled
    stack handlers and the red zone helper do what the range operations do. Calls into the origin
    cache are logged and the log is part of the statements.
  \<^item> \<open>AspaceMgr\<close>, \<open>AspaceOps\<close>, \<open>AspaceMgr_Correct\<close>, \<open>AspaceOps_Correct\<close>
    (\<^verbatim>\<open>coregrind/m_aspacemgr/aspacemgr-linux.c\<close>, \<^verbatim>\<open>aspacemgr-common.c\<close>): the segment array, allocation
    policy, notifications and the mappings Valgrind makes. The array tiles the address space with sane
    segments in every reachable state (\<open>am_step\<close>, \<open>am_reachable\<close>); its meaning is \<open>am_view\<close>. The
    contract of the array is \<open>segment_store\<close>.
  \<^item> \<open>DRD_VC\<close>, \<open>DRD_VC_Correct\<close> (\<^verbatim>\<open>drd/drd_vc.c\<close>): vector clocks with their blocks of memory. Their
    meaning is a finite map; comparison decides happens-before, combination is the least upper bound:
    the locale \<open>joined_clocks\<close>.
  \<^item> \<open>DRD_Bitmap\<close>, \<open>DRD_Bitmap_Heap\<close>, \<open>DRD_Bitmap_Access\<close>, \<open>DRD_Bitmap_Correct\<close> (\<^verbatim>\<open>drd/drd_bitmap.h\<close>,
    \<^verbatim>\<open>drd/drd_bitmap.c\<close>): two level bitmaps of accesses with shared, counted pages and a cache. \<open>winv\<close>
    says that all counts and caches are right, \<open>acc\<close> is the meaning. Recording, conflict queries,
    merging and deleting are exact; the effect of clearing is stated as it is. The contract of
    merging is \<open>access_sets\<close>.
  \<^item> \<open>DRD_Thread\<close>, \<open>DRD_Race_Correct\<close>, \<open>DRD_Thread_Correct\<close> (\<^verbatim>\<open>drd/drd_thread.c\<close>, \<^verbatim>\<open>drd_segment.c\<close>,
    \<^verbatim>\<open>drd_suppression.c\<close>, access handlers of \<^verbatim>\<open>drd_main.c\<close>): segments and threads, the conflict set,
    suppression, tracing. The conflict set is computed as the union of the unordered accesses, using
    the two contracts above. Reports follow the conflict set in every state, and are exact with respect
    to the unordered segments from its computation on while the running thread only accesses memory.
    This is not an invariant of all states: \<^verbatim>\<open>thread_new_segment\<close> merges segments after the conflict set
    has been computed, and a merged segment keeps the clock of its first part. The invariant \<open>drd_inv\<close>
    holds in every reachable state (\<open>drd_step\<close>, \<open>drd_reachable\<close>). Memory no longer used is cleared
    with up to 63 bytes before it, because of the shift in \<^verbatim>\<open>bm0_clear_range\<close>.

  \<^bold>\<open>Bounds.\<close> No operation is cut off by fuel. Loops over a range recurse on the bytes left or on a
  measure; the one loop over a client string and the loops of the bitmaps over a range, which may run
  forever, are partial functions whose lack of a result is \<open>None\<close>.
  \<^item> Iteration over a map is shown for fewer than 9227464 entries: a larger balanced tree can be deeper
    than the 32 entries of the iterator's stack, and a map of that size on which it fails is given.
  \<^item> Adding a segment needs two free entries of the array of \<^verbatim>\<open>VG_N_SEGMENTS\<close>, for the two splits.
  \<^item> The bitmap loops compute the end of the current page of 16384 bytes, which wraps at the top of the
    address space; their theorems ask for that distance from it (\<open>no_wrap\<close>). What happens without it
    is stated in \<open>DRD_Bitmap_Correct\<close>, and is why \<^verbatim>\<open>drd_stop_tracing_address_range\<close> may not return.
  \<^item> Thread number 0 is invalid in DRD, so no clock has an element for it, and a clock has fewer than
    \<open>2 ^ 32\<close> elements. The table of threads has 300 entries.
  \<^item> Allocation of secondary maps may fail in the model; \<open>alloc_ok\<close> is the hypothesis that it does not.

  \<^bold>\<open>Not modelled.\<close>
  \<^item> VEX, translation, scheduler, signals, system call wrappers, debug information: they work on machine
    code, on the kernel and on foreign file formats, and would need a semantics of those.
  \<^item> Memcheck's instrumentation, leak checker, origin cache, malloc wrappers and error output; the
    statistics counters where they have no influence.
  \<^item> Helgrind's shadow value machine; DRD's mutexes, barriers, conditions and semaphores, which call
    \<^verbatim>\<open>thread_new_segment\<close> and \<^verbatim>\<open>thread_combine_vc2\<close>; Cachegrind, Callgrind, Massif and the
    experimental tools; printing everywhere.
  \<^item> The comparison of the segment array with \<^verbatim>\<open>/proc/self/maps\<close> at high sanity levels and Valgrind's
    own thread stacks.
\<close>

end
